(* ===== verification/Prelude.thy ===== *)
theory Prelude
  imports Main "HOL-Library.Word" "HOL-Library.Multiset" "HOL-Library.Monad_Syntax"
begin

text \<open>
  Shared vocabulary of the development: machine integer types, the linear scans the C++
  code performs over its fixed-size vectors and the arithmetic of ring buffers. The
  interfaces (locales) that several components implement are in \<open>Interfaces\<close>.

  Conventions used throughout.
  \<^item> A C++ \<open>int\<close> or \<open>uint32_t\<close> that carries program data is a \<open>32 word\<close>; \<open>sint\<close> is
    its value as an \<open>int\<close>, \<open>uint\<close> its value as a \<open>uint32_t\<close>. Addition, subtraction and
    multiplication wrap around (what the built program does; the C++ standard leaves signed
    overflow undefined).
  \<^item> An index, count or reorder-buffer tag is a \<open>nat\<close>; the sentinel \<open>-1\<close> is \<open>None\<close>.
  \<^item> A register number read from a trace may be negative, so it is an \<open>int\<close>.
  \<^item> A failed \<open>assert\<close>, an access outside a vector or a trapping division is \<open>None\<close> of an
    option result; theorems then say under which invariant it does not occur.
\<close>

unbundle bit_operations_syntax

type_synonym i32 = "32 word"
type_synonym u32 = "32 word"
type_synonym u64 = "64 word"
type_synonym u16 = "16 word"
type_synonym u8 = "8 word"
type_synonym tag = nat

named_theorems slot_simps "facts on scans and updates of slot vectors"
named_theorems ring_simps "facts on ring buffer contents"

section \<open>Linear scans of a vector\<close>

text \<open>
  \<open>for (int i = 0; i < capacity; i++) if (P(v[i])) { ...; return; }\<close>: the first slot that
  satisfies \<open>P\<close>.
\<close>

fun first_idx :: "('a \<Rightarrow> bool) \<Rightarrow> 'a list \<Rightarrow> nat option" where
  "first_idx P [] = None"
| "first_idx P (x # xs) = (if P x then Some 0 else map_option Suc (first_idx P xs))"

definition update_first :: "('a \<Rightarrow> bool) \<Rightarrow> ('a \<Rightarrow> 'a) \<Rightarrow> 'a list \<Rightarrow> 'a list" where
  "update_first P f xs = (case first_idx P xs of None \<Rightarrow> xs | Some i \<Rightarrow> xs[i := f (xs ! i)])"

lemma first_idx_None [slot_simps]: "first_idx P xs = None \<longleftrightarrow> (\<forall>x \<in> set xs. \<not> P x)"
  by (induction xs) auto

lemma first_idx_SomeD:
  "first_idx P xs = Some i \<Longrightarrow> i < length xs \<and> P (xs ! i) \<and> (\<forall>j < i. \<not> P (xs ! j))"
proof (induction xs arbitrary: i)
  case (Cons x xs)
  then show ?case
    by (auto split: if_splits simp: less_Suc_eq_0_disj)
qed simp

lemma first_idx_SomeI:
  "i < length xs \<Longrightarrow> P (xs ! i) \<Longrightarrow> (\<And>j. j < i \<Longrightarrow> \<not> P (xs ! j)) \<Longrightarrow> first_idx P xs = Some i"
proof (induction xs arbitrary: i)
  case (Cons x xs)
  show ?case
  proof (cases i)
    case 0
    with Cons.prems show ?thesis by simp
  next
    case (Suc k)
    have "first_idx P xs = Some k"
      using Cons.prems Suc by (intro Cons.IH) force+
    moreover have "\<not> P x" using Cons.prems(3) [of 0] Suc by simp
    ultimately show ?thesis using Suc by simp
  qed
qed simp

lemma first_idx_less: "first_idx P xs = Some i \<Longrightarrow> i < length xs"
  by (simp add: first_idx_SomeD)

lemma first_idx_holds: "first_idx P xs = Some i \<Longrightarrow> P (xs ! i)"
  by (simp add: first_idx_SomeD)

lemma first_idx_in_set: "first_idx P xs = Some i \<Longrightarrow> xs ! i \<in> set xs"
  by (simp add: first_idx_less)

lemma first_idx_ex: "x \<in> set xs \<Longrightarrow> P x \<Longrightarrow> \<exists>i. first_idx P xs = Some i"
  by (cases "first_idx P xs") (auto simp: slot_simps)

lemma length_update_first [simp]: "length (update_first P f xs) = length xs"
  by (simp add: update_first_def split: option.splits)

lemma update_first_none: "(\<And>x. x \<in> set xs \<Longrightarrow> \<not> P x) \<Longrightarrow> update_first P f xs = xs"
  by (simp add: update_first_def slot_simps split: option.splits) (metis first_idx_None option.distinct(1))

lemma nth_update_first:
  "i < length xs \<Longrightarrow>
   update_first P f xs ! i = (if first_idx P xs = Some i then f (xs ! i) else xs ! i)"
  by (auto simp: update_first_def nth_list_update split: option.splits)

section \<open>Identifiers held by a vector of slots\<close>

text \<open>The multiset of identifiers of the valid slots of a vector.\<close>

definition live_ids :: "('e \<Rightarrow> bool) \<Rightarrow> ('e \<Rightarrow> 'k) \<Rightarrow> 'e list \<Rightarrow> 'k multiset" where
  "live_ids v k xs = image_mset k (filter_mset v (mset xs))"

lemma live_ids_update:
  "i < length xs \<Longrightarrow>
   live_ids v k (xs[i := y]) =
     (if v y then {#k y#} else {#}) +
     (live_ids v k xs - (if v (xs ! i) then {#k (xs ! i)#} else {#}))"
  by (auto simp: live_ids_def mset_update filter_diff_mset image_mset_Diff)

lemma live_ids_update_invalid:
  "i < length xs \<Longrightarrow> \<not> v (xs ! i) \<Longrightarrow> v y \<Longrightarrow>
   live_ids v k (xs[i := y]) = add_mset (k y) (live_ids v k xs)"
  by (simp add: live_ids_update)

lemma live_ids_update_same:
  "i < length xs \<Longrightarrow> v y = v (xs ! i) \<Longrightarrow> (v y \<Longrightarrow> k y = k (xs ! i)) \<Longrightarrow>
   live_ids v k (xs[i := y]) = live_ids v k xs"
proof -
  assume a: "i < length xs" "v y = v (xs ! i)" "v y \<Longrightarrow> k y = k (xs ! i)"
  have "v (xs ! i) \<Longrightarrow> k (xs ! i) \<in># live_ids v k xs"
    using a(1) by (auto simp: live_ids_def)
  with a show ?thesis by (simp add: live_ids_update)
qed

lemma live_ids_map:
  "(\<And>x. x \<in> set xs \<Longrightarrow> v (f x) = v x \<and> (v x \<longrightarrow> k (f x) = k x)) \<Longrightarrow>
   live_ids v k (map f xs) = live_ids v k xs"
  by (induction xs) (auto simp: live_ids_def)

lemma size_live_ids: "size (live_ids v k xs) = length (filter v xs)"
  by (simp add: live_ids_def flip: mset_filter)

lemma size_live_ids_le: "size (live_ids v k xs) \<le> length xs"
  by (simp add: size_live_ids)

lemma has_free_slot_iff:
  "(\<exists>x \<in> set xs. \<not> v x) \<longleftrightarrow> size (live_ids v k xs) < length xs"
  by (simp add: size_live_ids) (metis length_filter_less filter_True less_irrefl)

lemma in_live_ids: "i \<in># live_ids v k xs \<longleftrightarrow> (\<exists>x \<in> set xs. v x \<and> k x = i)"
  by (auto simp: live_ids_def)

text \<open>Invalidating the first valid slot with a given identifier removes one copy of it.\<close>

lemma live_ids_remove_first:
  assumes inval: "\<And>x. \<not> v (g x)"
  shows "live_ids v k (update_first (\<lambda>x. v x \<and> k x = i) g xs) = live_ids v k xs - {#i#}"
proof (cases "first_idx (\<lambda>x. v x \<and> k x = i) xs")
  case None
  then have "i \<notin># live_ids v k xs"
    by (auto simp: slot_simps in_live_ids)
  with None show ?thesis
    by (simp add: update_first_def diff_single_trivial)
next
  case (Some n)
  then show ?thesis
    using first_idx_SomeD [OF Some] by (simp add: update_first_def live_ids_update inval)
qed

section \<open>Ring buffers\<close>

text \<open>The \<open>n\<close> entries from \<open>head\<close> on, in age order.\<close>

definition ring_contents :: "nat \<Rightarrow> nat \<Rightarrow> nat \<Rightarrow> 'a list \<Rightarrow> 'a list" where
  "ring_contents cap head n buf = map (\<lambda>k. buf ! ((head + k) mod cap)) [0..<n]"

lemma length_ring_contents [simp]: "length (ring_contents cap head n buf) = n"
  by (simp add: ring_contents_def)

lemma ring_contents_0 [simp]: "ring_contents cap head 0 buf = []"
  by (simp add: ring_contents_def)

lemma nth_ring_contents: "k < n \<Longrightarrow> ring_contents cap head n buf ! k = buf ! ((head + k) mod cap)"
  by (simp add: ring_contents_def)

lemma ring_index_inj:
  fixes i j h cap :: nat
  assumes "i < cap" "j < cap" "(h + i) mod cap = (h + j) mod cap"
  shows "i = j"
proof -
  obtain q1 q2 where "h + i + cap * q1 = h + j + cap * q2"
    using assms(3) by (auto simp: nat_mod_eq_iff)
  then have "i + cap * q1 = j + cap * q2" by simp
  then have "i mod cap = j mod cap" by (metis mod_mult_self2)
  then show ?thesis using assms by simp
qed


lemma ring_contents_snoc [ring_simps]:
  assumes "length buf = cap" "n < cap"
  shows "ring_contents cap head (Suc n) (buf[(head + n) mod cap := x])
       = ring_contents cap head n buf @ [x]"
proof (rule nth_equalityI)
  fix i assume "i < length (ring_contents cap head (Suc n) (buf[(head + n) mod cap := x]))"
  then have i: "i < Suc n" by simp
  have "i < n \<Longrightarrow> (head + n) mod cap \<noteq> (head + i) mod cap"
    using ring_index_inj [of n cap i head] assms by auto
  moreover have "(head + n) mod cap < length buf" using assms by simp
  ultimately show "ring_contents cap head (Suc n) (buf[(head + n) mod cap := x]) ! i
      = (ring_contents cap head n buf @ [x]) ! i"
    using i by (cases "i < n") (auto simp: nth_ring_contents nth_append less_Suc_eq)
qed simp

lemma ring_contents_Cons [ring_simps]:
  assumes "head < cap"
  shows "ring_contents cap head (Suc n) buf
       = buf ! head # ring_contents cap (Suc head mod cap) n buf"
proof (rule nth_equalityI)
  fix i assume "i < length (ring_contents cap head (Suc n) buf)"
  then show "ring_contents cap head (Suc n) buf ! i
      = (buf ! head # ring_contents cap (Suc head mod cap) n buf) ! i"
    using assms
    by (cases i) (simp_all add: nth_ring_contents mod_Suc_eq mod_add_left_eq del: upt_Suc
        flip: add_Suc)
qed simp

lemma ring_contents_append1:
  "ring_contents cap head (Suc n) buf
     = ring_contents cap head n buf @ [buf ! ((head + n) mod cap)]"
  by (simp add: ring_contents_def)

lemma take_ring_contents:
  "m \<le> n \<Longrightarrow> take m (ring_contents cap head n buf) = ring_contents cap head m buf"
  by (simp add: ring_contents_def take_map)

text \<open>An update outside the occupied window leaves the contents as they were.\<close>

lemma ring_contents_update_outside:
  assumes "\<And>k. k < n \<Longrightarrow> (head + k) mod cap \<noteq> j"
  shows "ring_contents cap head n (buf[j := x]) = ring_contents cap head n buf"
  using assms by (fastforce simp: ring_contents_def intro!: nth_list_update_neq)

text \<open>An update of the \<open>k\<close>-th oldest entry updates the contents at \<open>k\<close>.\<close>

lemma ring_contents_update_inside:
  assumes "length buf = cap" "n \<le> cap" "k < n"
  shows "ring_contents cap head n (buf[(head + k) mod cap := x])
       = (ring_contents cap head n buf)[k := x]"
proof (rule nth_equalityI)
  fix i assume "i < length (ring_contents cap head n (buf[(head + k) mod cap := x]))"
  then have i: "i < n" by simp
  have "(head + k) mod cap = (head + i) mod cap \<longleftrightarrow> k = i"
    using ring_index_inj [of k cap i head] assms i by auto
  moreover have "(head + k) mod cap < length buf" using assms by simp
  ultimately show "ring_contents cap head n (buf[(head + k) mod cap := x]) ! i
      = (ring_contents cap head n buf)[k := x] ! i"
    using i by (auto simp: nth_ring_contents nth_list_update)
qed simp

text \<open>The age of a slot: its distance from the head, as \<open>(tag - head + capacity) % capacity\<close>.\<close>

definition ring_age :: "nat \<Rightarrow> nat \<Rightarrow> nat \<Rightarrow> nat" where
  "ring_age cap head t = (t + cap - head) mod cap"

lemma ring_age_less: "0 < cap \<Longrightarrow> ring_age cap head t < cap"
  by (simp add: ring_age_def)

lemma ring_age_of_index:
  assumes "head < cap" "k < cap"
  shows "ring_age cap head ((head + k) mod cap) = k"
proof (cases "head + k < cap")
  case True
  then show ?thesis using assms by (simp add: ring_age_def)
next
  case False
  then have "(head + k) mod cap = head + k - cap"
    using assms by (simp add: mod_if)
  then show ?thesis using assms False by (simp add: ring_age_def)
qed

lemma ring_index_of_age:
  assumes "head < cap" "t < cap"
  shows "(head + ring_age cap head t) mod cap = t"
proof (cases "head \<le> t")
  case True
  then have "ring_age cap head t = t - head"
    using assms by (simp add: ring_age_def mod_if)
  then show ?thesis using assms True by simp
next
  case False
  then have "ring_age cap head t = t + cap - head"
    using assms by (simp add: ring_age_def)
  then show ?thesis using assms False by simp
qed

lemma ring_age_inj:
  "head < cap \<Longrightarrow> s < cap \<Longrightarrow> t < cap \<Longrightarrow> ring_age cap head s = ring_age cap head t \<Longrightarrow> s = t"
  by (metis ring_index_of_age)

lemma ring_age_lt_iff_index:
  assumes "head < cap" "t < cap" "n \<le> cap"
  shows "ring_age cap head t < n \<longleftrightarrow> (\<exists>k < n. t = (head + k) mod cap)"
  using assms ring_age_of_index [of head cap] ring_index_of_age [of head cap t]
  by (metis less_le_trans)

end
