(* ===== verification/Types.thy ===== *)
theory Types
  imports Prelude
begin

text \<open>
  The micro-op vocabulary of \<open>include/types.hpp\<close>: functional units, operations, memory
  sizes, the decoded micro-op, the fetched instruction, and the classification of
  operations by functional unit.
\<close>

section \<open>Enumerations\<close>

datatype Fu = FU_ALU | FU_MUL | FU_DIV | FU_MEM | FU_BR

datatype Op =
    ALU_ADD | ALU_SUB | ALU_SLL | ALU_SLT | ALU_SLTU
  | ALU_XOR | ALU_SRL | ALU_SRA | ALU_OR | ALU_AND
  | ALU_LUI | ALU_AUIPC
  | MD_MUL | MD_MULH | MD_MULHSU | MD_MULHU
  | MD_DIV | MD_DIVU | MD_REM | MD_REMU
  | BR_EQ | BR_NE | BR_LT | BR_GE | BR_LTU | BR_GEU
  | BR_JAL | BR_JALR
  | MEM_LB | MEM_LH | MEM_LW | MEM_LBU | MEM_LHU
  | MEM_SB | MEM_SH | MEM_SW
  | UOP_NOP

datatype MemSize = SZ_B | SZ_H | SZ_W

datatype MemSystem = Ideal | Cached

section \<open>Decoded micro-op\<close>

text \<open>
  Register numbers are \<open>int\<close> as in the struct; the immediate is the sign-extended
  \<open>int32_t\<close> as a word.
\<close>

record Uop =
  u_pc :: u64
  u_op :: Op
  u_fu :: Fu
  u_rs1_used :: bool
  u_rs1 :: int
  u_rs2_used :: bool
  u_rs2 :: int
  u_rd_used :: bool
  u_rd :: int
  u_imm :: i32
  u_src2_is_imm :: bool
  u_is_load :: bool
  u_is_store :: bool
  u_mem_size :: MemSize
  u_mem_unsigned :: bool
  u_is_branch :: bool
  u_is_jump :: bool
  u_pred_taken :: bool
  u_pred_target :: u64

definition uop0 :: Uop where
  "uop0 = \<lparr>u_pc = 0, u_op = UOP_NOP, u_fu = FU_ALU,
     u_rs1_used = False, u_rs1 = 0, u_rs2_used = False, u_rs2 = 0,
     u_rd_used = False, u_rd = 0, u_imm = 0, u_src2_is_imm = False,
     u_is_load = False, u_is_store = False, u_mem_size = SZ_W, u_mem_unsigned = False,
     u_is_branch = False, u_is_jump = False, u_pred_taken = False, u_pred_target = 0\<rparr>"

section \<open>Toy opcodes and functional units\<close>

definition opcodeToOp :: "string \<Rightarrow> Op" where
  "opcodeToOp opcode =
    (if opcode = ''ADD'' then ALU_ADD
     else if opcode = ''SUB'' then ALU_SUB
     else if opcode = ''MUL'' then MD_MUL
     else if opcode = ''DIV'' then MD_DIV
     else if opcode = ''ADDI'' then ALU_ADD
     else if opcode = ''LOAD'' then MEM_LW
     else if opcode = ''STORE'' then MEM_SW
     else if opcode = ''BEQ'' then BR_EQ
     else if opcode = ''BNE'' then BR_NE
     else UOP_NOP)"

fun fuForOp :: "Op \<Rightarrow> Fu" where
  "fuForOp MD_MUL = FU_MUL"
| "fuForOp MD_MULH = FU_MUL"
| "fuForOp MD_MULHSU = FU_MUL"
| "fuForOp MD_MULHU = FU_MUL"
| "fuForOp MD_DIV = FU_DIV"
| "fuForOp MD_DIVU = FU_DIV"
| "fuForOp MD_REM = FU_DIV"
| "fuForOp MD_REMU = FU_DIV"
| "fuForOp MEM_LB = FU_MEM"
| "fuForOp MEM_LH = FU_MEM"
| "fuForOp MEM_LW = FU_MEM"
| "fuForOp MEM_LBU = FU_MEM"
| "fuForOp MEM_LHU = FU_MEM"
| "fuForOp MEM_SB = FU_MEM"
| "fuForOp MEM_SH = FU_MEM"
| "fuForOp MEM_SW = FU_MEM"
| "fuForOp BR_EQ = FU_BR"
| "fuForOp BR_NE = FU_BR"
| "fuForOp BR_LT = FU_BR"
| "fuForOp BR_GE = FU_BR"
| "fuForOp BR_LTU = FU_BR"
| "fuForOp BR_GEU = FU_BR"
| "fuForOp BR_JAL = FU_BR"
| "fuForOp BR_JALR = FU_BR"
| "fuForOp UOP_NOP = FU_ALU"
| "fuForOp _ = FU_ALU"

section \<open>Bus payload and fetched instruction\<close>

record CDBResult =
  cdb_rob_id :: "tag option"
  cdb_value :: i32

text \<open>
  An instruction on its way from the instruction memory to rename. Toy traces fill the
  opcode and register fields; hex programs carry \<open>f_raw_instr\<close>, and decode fills \<open>f_uop\<close>.
  The \<open>f_ras_*\<close> fields are the return-address stack as it was at fetch.
\<close>

record FetchedInstruction =
  f_pc :: u64
  f_opcode :: string
  f_dest_reg :: int
  f_src1_reg :: int
  f_src2_reg :: int
  f_imm :: i32
  f_predicted_taken :: bool
  f_predicted_target :: u64
  f_ras_tos :: nat
  f_ras_count :: nat
  f_ras_stack :: "u64 list"
  f_ras_had_return :: bool
  f_ras_ret_target :: u64
  f_has_uop :: bool
  f_raw_instr :: u32
  f_uop :: Uop

definition fetched0 :: FetchedInstruction where
  "fetched0 = \<lparr>f_pc = 0, f_opcode = '''', f_dest_reg = 0, f_src1_reg = 0, f_src2_reg = 0,
     f_imm = 0, f_predicted_taken = False, f_predicted_target = 0,
     f_ras_tos = 0, f_ras_count = 0, f_ras_stack = [], f_ras_had_return = False,
     f_ras_ret_target = 0, f_has_uop = False, f_raw_instr = 0, f_uop = uop0\<rparr>"

definition INSTR_SIZE :: u64 where
  "INSTR_SIZE = 4"

definition MEMORY_WORDS :: nat where
  "MEMORY_WORDS = 65536"

text \<open>
  Case-insensitive comparison of opcodes: \<open>iequals\<close> of the processor and \<open>ieq\<close> of the
  golden model are the same function. \<open>std::tolower\<close> in the default locale maps the
  upper-case ASCII letters only.
\<close>

definition tolower :: "char \<Rightarrow> char" where
  "tolower c = (let n = (of_char c :: nat) in if 65 \<le> n \<and> n \<le> 90 then char_of (n + 32) else c)"

definition iequals :: "string \<Rightarrow> string \<Rightarrow> bool" where
  "iequals a b = (length a = length b \<and> list_all2 (\<lambda>x y. tolower x = tolower y) a b)"

lemma iequals_iff: "iequals a b \<longleftrightarrow> map tolower a = map tolower b"
proof -
  have "list_all2 (\<lambda>x y. tolower x = tolower y) a b \<longleftrightarrow> map tolower a = map tolower b"
    by (induction a arbitrary: b) (auto simp: list_all2_Cons1 Cons_eq_map_conv)
  then show ?thesis by (auto simp: iequals_def dest: map_eq_imp_length_eq)
qed

lemma iequals_refl [simp]: "iequals a a"
  by (simp add: iequals_iff)

lemma iequals_sym: "iequals a b \<Longrightarrow> iequals b a"
  by (simp add: iequals_iff)

lemma iequals_trans: "iequals a b \<Longrightarrow> iequals b c \<Longrightarrow> iequals a c"
  by (simp add: iequals_iff)

text \<open>Access sizes ordered by their number of bytes.\<close>

definition mem_bytes :: "MemSize \<Rightarrow> nat" where
  "mem_bytes sz = (case sz of SZ_B \<Rightarrow> 1 | SZ_H \<Rightarrow> 2 | SZ_W \<Rightarrow> 4)"

instantiation MemSize :: linorder
begin

definition less_eq_MemSize :: "MemSize \<Rightarrow> MemSize \<Rightarrow> bool" where
  "less_eq_MemSize a b \<longleftrightarrow> mem_bytes a \<le> mem_bytes b"

definition less_MemSize :: "MemSize \<Rightarrow> MemSize \<Rightarrow> bool" where
  "less_MemSize a b \<longleftrightarrow> mem_bytes a < mem_bytes b"

instance
  by standard
    (auto simp: less_eq_MemSize_def less_MemSize_def mem_bytes_def split: MemSize.splits)

end

end
