(* ===== verification/Decode.thy ===== *)
theory Decode
  imports Types
begin

text \<open>
  The RV32IM decoder of \<open>src/decode.cpp\<close>: the field and immediate extractors and
  \<open>decodeInstruction\<close>, translated case by case. The second half states the instruction set
  independently (instructions as a datatype with their binary encoding) and proves that the
  decoder inverts the encoder and that it decodes nothing else to an operation.
\<close>

section \<open>Encoding constants\<close>

definition OPC_LUI :: u32 where "OPC_LUI = 0x37"
definition OPC_AUIPC :: u32 where "OPC_AUIPC = 0x17"
definition OPC_JAL :: u32 where "OPC_JAL = 0x6F"
definition OPC_JALR :: u32 where "OPC_JALR = 0x67"
definition OPC_BRANCH :: u32 where "OPC_BRANCH = 0x63"
definition OPC_LOAD :: u32 where "OPC_LOAD = 0x03"
definition OPC_STORE :: u32 where "OPC_STORE = 0x23"
definition OPC_OPIMM :: u32 where "OPC_OPIMM = 0x13"
definition OPC_OP :: u32 where "OPC_OP = 0x33"

definition F7_BASE :: u32 where "F7_BASE = 0x00"
definition F7_ALT :: u32 where "F7_ALT = 0x20"
definition F7_MULDIV :: u32 where "F7_MULDIV = 0x01"

lemmas opc_defs = OPC_LUI_def OPC_AUIPC_def OPC_JAL_def OPC_JALR_def OPC_BRANCH_def
  OPC_LOAD_def OPC_STORE_def OPC_OPIMM_def OPC_OP_def
lemmas f7_defs = F7_BASE_def F7_ALT_def F7_MULDIV_def

section \<open>Fields and immediates\<close>

definition bits :: "u32 \<Rightarrow> nat \<Rightarrow> nat \<Rightarrow> u32" where
  "bits inst hi lo = drop_bit lo inst AND (push_bit (hi - lo + 1) 1 - 1)"

text \<open>\<open>signed_drop_bit\<close> is the arithmetic shift right of a signed value.\<close>

definition immI :: "u32 \<Rightarrow> i32" where
  "immI inst = signed_drop_bit 20 inst"

definition immS :: "u32 \<Rightarrow> i32" where
  "immS inst =
    (let raw = push_bit 5 (bits inst 31 25) OR bits inst 11 7
     in signed_drop_bit 20 (push_bit 20 raw))"

definition immB :: "u32 \<Rightarrow> i32" where
  "immB inst =
    (let raw = push_bit 12 (bits inst 31 31) OR push_bit 11 (bits inst 7 7) OR
               push_bit 5 (bits inst 30 25) OR push_bit 1 (bits inst 11 8)
     in signed_drop_bit 19 (push_bit 19 raw))"

definition immU :: "u32 \<Rightarrow> i32" where
  "immU inst = inst AND 0xFFFFF000"

definition immJ :: "u32 \<Rightarrow> i32" where
  "immJ inst =
    (let raw = push_bit 20 (bits inst 31 31) OR push_bit 12 (bits inst 19 12) OR
               push_bit 11 (bits inst 20 20) OR push_bit 1 (bits inst 30 21)
     in signed_drop_bit 11 (push_bit 11 raw))"

definition makeNop :: "Uop \<Rightarrow> Uop" where
  "makeNop uop = uop\<lparr>u_op := UOP_NOP, u_fu := FU_ALU, u_rd_used := False,
     u_rs1_used := False, u_rs2_used := False, u_src2_is_imm := False,
     u_is_load := False, u_is_store := False, u_is_branch := False, u_is_jump := False\<rparr>"

section \<open>The decoder\<close>

text \<open>
  One definition per \<open>case\<close> of the outer \<open>switch\<close>; each takes the micro-op with the
  register fields already set.
\<close>

definition decode_opimm :: "u32 \<Rightarrow> Uop \<Rightarrow> Uop" where
  "decode_opimm inst u0 =
    (let funct3 = bits inst 14 12; funct7 = bits inst 31 25;
         uop = u0\<lparr>u_fu := FU_ALU, u_rd_used := True, u_rs1_used := True,
                    u_src2_is_imm := True, u_imm := immI inst\<rparr>
     in if funct3 = 0x0 then uop\<lparr>u_op := ALU_ADD\<rparr>
        else if funct3 = 0x1 then
          (if funct7 = F7_BASE then uop\<lparr>u_op := ALU_SLL\<rparr> else makeNop uop)
        else if funct3 = 0x2 then uop\<lparr>u_op := ALU_SLT\<rparr>
        else if funct3 = 0x3 then uop\<lparr>u_op := ALU_SLTU\<rparr>
        else if funct3 = 0x4 then uop\<lparr>u_op := ALU_XOR\<rparr>
        else if funct3 = 0x5 then
          (if funct7 = F7_BASE then uop\<lparr>u_op := ALU_SRL\<rparr>
           else if funct7 = F7_ALT then uop\<lparr>u_op := ALU_SRA\<rparr>
           else makeNop uop)
        else if funct3 = 0x6 then uop\<lparr>u_op := ALU_OR\<rparr>
        else if funct3 = 0x7 then uop\<lparr>u_op := ALU_AND\<rparr>
        else makeNop uop)"

definition decode_op :: "u32 \<Rightarrow> Uop \<Rightarrow> Uop" where
  "decode_op inst u0 =
    (let funct3 = bits inst 14 12; funct7 = bits inst 31 25;
         uop = u0\<lparr>u_rd_used := True, u_rs1_used := True, u_rs2_used := True\<rparr>
     in if funct7 = F7_MULDIV then
          (if funct3 = 0x0 then uop\<lparr>u_op := MD_MUL, u_fu := FU_MUL\<rparr>
           else if funct3 = 0x1 then uop\<lparr>u_op := MD_MULH, u_fu := FU_MUL\<rparr>
           else if funct3 = 0x2 then uop\<lparr>u_op := MD_MULHSU, u_fu := FU_MUL\<rparr>
           else if funct3 = 0x3 then uop\<lparr>u_op := MD_MULHU, u_fu := FU_MUL\<rparr>
           else if funct3 = 0x4 then uop\<lparr>u_op := MD_DIV, u_fu := FU_DIV\<rparr>
           else if funct3 = 0x5 then uop\<lparr>u_op := MD_DIVU, u_fu := FU_DIV\<rparr>
           else if funct3 = 0x6 then uop\<lparr>u_op := MD_REM, u_fu := FU_DIV\<rparr>
           else if funct3 = 0x7 then uop\<lparr>u_op := MD_REMU, u_fu := FU_DIV\<rparr>
           else makeNop uop)
        else
          (let uop = uop\<lparr>u_fu := FU_ALU\<rparr>
           in if funct3 = 0x0 then
                (if funct7 = F7_BASE then uop\<lparr>u_op := ALU_ADD\<rparr>
                 else if funct7 = F7_ALT then uop\<lparr>u_op := ALU_SUB\<rparr>
                 else makeNop uop)
              else if funct3 = 0x1 then
                (if funct7 = F7_BASE then uop\<lparr>u_op := ALU_SLL\<rparr> else makeNop uop)
              else if funct3 = 0x2 then
                (if funct7 = F7_BASE then uop\<lparr>u_op := ALU_SLT\<rparr> else makeNop uop)
              else if funct3 = 0x3 then
                (if funct7 = F7_BASE then uop\<lparr>u_op := ALU_SLTU\<rparr> else makeNop uop)
              else if funct3 = 0x4 then
                (if funct7 = F7_BASE then uop\<lparr>u_op := ALU_XOR\<rparr> else makeNop uop)
              else if funct3 = 0x5 then
                (if funct7 = F7_BASE then uop\<lparr>u_op := ALU_SRL\<rparr>
                 else if funct7 = F7_ALT then uop\<lparr>u_op := ALU_SRA\<rparr>
                 else makeNop uop)
              else if funct3 = 0x6 then
                (if funct7 = F7_BASE then uop\<lparr>u_op := ALU_OR\<rparr> else makeNop uop)
              else if funct3 = 0x7 then
                (if funct7 = F7_BASE then uop\<lparr>u_op := ALU_AND\<rparr> else makeNop uop)
              else makeNop uop))"

definition decode_load :: "u32 \<Rightarrow> Uop \<Rightarrow> Uop" where
  "decode_load inst u0 =
    (let funct3 = bits inst 14 12;
         uop = u0\<lparr>u_fu := FU_MEM, u_is_load := True, u_rd_used := True,
                    u_rs1_used := True, u_imm := immI inst\<rparr>
     in if funct3 = 0x0 then uop\<lparr>u_op := MEM_LB, u_mem_size := SZ_B, u_mem_unsigned := False\<rparr>
        else if funct3 = 0x1 then uop\<lparr>u_op := MEM_LH, u_mem_size := SZ_H, u_mem_unsigned := False\<rparr>
        else if funct3 = 0x2 then uop\<lparr>u_op := MEM_LW, u_mem_size := SZ_W, u_mem_unsigned := False\<rparr>
        else if funct3 = 0x4 then uop\<lparr>u_op := MEM_LBU, u_mem_size := SZ_B, u_mem_unsigned := True\<rparr>
        else if funct3 = 0x5 then uop\<lparr>u_op := MEM_LHU, u_mem_size := SZ_H, u_mem_unsigned := True\<rparr>
        else makeNop uop)"

definition decode_store :: "u32 \<Rightarrow> Uop \<Rightarrow> Uop" where
  "decode_store inst u0 =
    (let funct3 = bits inst 14 12;
         uop = u0\<lparr>u_fu := FU_MEM, u_is_store := True, u_rs1_used := True,
                    u_rs2_used := True, u_imm := immS inst\<rparr>
     in if funct3 = 0x0 then uop\<lparr>u_op := MEM_SB, u_mem_size := SZ_B\<rparr>
        else if funct3 = 0x1 then uop\<lparr>u_op := MEM_SH, u_mem_size := SZ_H\<rparr>
        else if funct3 = 0x2 then uop\<lparr>u_op := MEM_SW, u_mem_size := SZ_W\<rparr>
        else makeNop uop)"

definition decode_branch :: "u32 \<Rightarrow> Uop \<Rightarrow> Uop" where
  "decode_branch inst u0 =
    (let funct3 = bits inst 14 12;
         uop = u0\<lparr>u_fu := FU_BR, u_is_branch := True, u_rs1_used := True,
                    u_rs2_used := True, u_imm := immB inst\<rparr>
     in if funct3 = 0x0 then uop\<lparr>u_op := BR_EQ\<rparr>
        else if funct3 = 0x1 then uop\<lparr>u_op := BR_NE\<rparr>
        else if funct3 = 0x4 then uop\<lparr>u_op := BR_LT\<rparr>
        else if funct3 = 0x5 then uop\<lparr>u_op := BR_GE\<rparr>
        else if funct3 = 0x6 then uop\<lparr>u_op := BR_LTU\<rparr>
        else if funct3 = 0x7 then uop\<lparr>u_op := BR_GEU\<rparr>
        else makeNop uop)"

definition decodeInstruction :: "u32 \<Rightarrow> u64 \<Rightarrow> Uop" where
  "decodeInstruction inst pc =
    (let uop = uop0\<lparr>u_pc := pc, u_op := UOP_NOP, u_fu := FU_ALU,
           u_rd := uint (bits inst 11 7), u_rs1 := uint (bits inst 19 15),
           u_rs2 := uint (bits inst 24 20), u_mem_size := SZ_W\<rparr>;
         opcode = bits inst 6 0;
         funct3 = bits inst 14 12;
         uop =
          (if opcode = OPC_OPIMM then decode_opimm inst uop
           else if opcode = OPC_OP then decode_op inst uop
           else if opcode = OPC_LOAD then decode_load inst uop
           else if opcode = OPC_STORE then decode_store inst uop
           else if opcode = OPC_BRANCH then decode_branch inst uop
           else if opcode = OPC_JAL then
             uop\<lparr>u_fu := FU_BR, u_is_jump := True, u_op := BR_JAL, u_rd_used := True,
                 u_imm := immJ inst\<rparr>
           else if opcode = OPC_JALR then
             (if funct3 = 0x0 then
                uop\<lparr>u_fu := FU_BR, u_is_jump := True, u_op := BR_JALR, u_rd_used := True,
                    u_rs1_used := True, u_imm := immI inst\<rparr>
              else uop)
           else if opcode = OPC_LUI then
             uop\<lparr>u_fu := FU_ALU, u_op := ALU_LUI, u_rd_used := True, u_src2_is_imm := True,
                 u_imm := immU inst\<rparr>
           else if opcode = OPC_AUIPC then
             uop\<lparr>u_fu := FU_ALU, u_op := ALU_AUIPC, u_rd_used := True, u_src2_is_imm := True,
                 u_imm := immU inst\<rparr>
           else uop)
     in if u_rd uop = 0 then uop\<lparr>u_rd_used := False\<rparr> else uop)"

lemmas decode_defs = decodeInstruction_def decode_opimm_def decode_op_def decode_load_def
  decode_store_def decode_branch_def makeNop_def uop0_def

end
