(* ===== verification/Decode_Spec.thy ===== *)
theory Decode_Spec
  imports Decode
begin

text \<open>
  The RV32IM instruction set stated independently of \<open>src/decode.cpp\<close>, after the encoding
  tables of the RISC-V unprivileged manual: instructions as a datatype, their 32-bit
  encoding, and the micro-op view each must decode to. The theorems: the decoder inverts
  the encoder on every RV32IM instruction, and every word that decodes to an operation is
  the encoding of one (fences, system instructions and illegal words become \<open>UOP_NOP\<close>).
\<close>

section \<open>Instruction formats\<close>

text \<open>
  The field \<open>[hi:lo]\<close> of a word, the R/I/S/B layout (\<open>funct7 rs2 rs1 funct3 rd opcode\<close>) and
  the U/J layout (\<open>imm[31:12] rd opcode\<close>).
\<close>

definition fld :: "'a::len word \<Rightarrow> nat \<Rightarrow> nat \<Rightarrow> 'b::len word" where
  "fld w hi lo = ucast (take_bit (hi - lo + 1) (drop_bit lo w))"

definition pack :: "7 word \<Rightarrow> 5 word \<Rightarrow> 5 word \<Rightarrow> 3 word \<Rightarrow> 5 word \<Rightarrow> 7 word \<Rightarrow> u32" where
  "pack f7 rs2 rs1 f3 rd opc =
     push_bit 25 (ucast f7) OR push_bit 20 (ucast rs2) OR push_bit 15 (ucast rs1) OR
     push_bit 12 (ucast f3) OR push_bit 7 (ucast rd) OR ucast opc"

definition pack_u :: "20 word \<Rightarrow> 5 word \<Rightarrow> 7 word \<Rightarrow> u32" where
  "pack_u imm rd opc = push_bit 12 (ucast imm) OR push_bit 7 (ucast rd) OR ucast opc"

text \<open>
  The scrambled immediates: a branch offset puts bits \<open>12|10:5\<close> in the \<open>funct7\<close> position and
  \<open>4:1|11\<close> in the \<open>rd\<close> position; a jump offset is stored as \<open>20|10:1|11|19:12\<close>.
\<close>

definition enc_b_hi :: "13 word \<Rightarrow> 7 word" where
  "enc_b_hi off = push_bit 6 (fld off 12 12) OR fld off 10 5"
definition enc_b_lo :: "13 word \<Rightarrow> 5 word" where
  "enc_b_lo off = push_bit 1 (fld off 4 1) OR fld off 11 11"

definition enc_j :: "21 word \<Rightarrow> 20 word" where
  "enc_j off = push_bit 19 (fld off 20 20) OR push_bit 9 (fld off 10 1) OR push_bit 8 (fld off 11 11) OR fld off 19 12"

section \<open>Instructions, their encoding and their meaning as micro-ops\<close>

datatype rv_instr =
    RvLui "20 word" "5 word"
  | RvAuipc "20 word" "5 word"
  | RvJal "21 word" "5 word"
  | RvJalr "12 word" "5 word" "5 word"
  | RvBranch Op "13 word" "5 word" "5 word"
  | RvLoad Op "12 word" "5 word" "5 word"
  | RvStore Op "12 word" "5 word" "5 word"
  | RvOpImm Op "12 word" "5 word" "5 word"
  | RvShiftImm Op "5 word" "5 word" "5 word"
  | RvOp Op "5 word" "5 word" "5 word"

fun rv_funct3 :: "Op \<Rightarrow> 3 word" where
  "rv_funct3 BR_EQ = 0" | "rv_funct3 BR_NE = 1" | "rv_funct3 BR_LT = 4" | "rv_funct3 BR_GE = 5"
| "rv_funct3 BR_LTU = 6" | "rv_funct3 BR_GEU = 7"
| "rv_funct3 MEM_LB = 0" | "rv_funct3 MEM_LH = 1" | "rv_funct3 MEM_LW = 2"
| "rv_funct3 MEM_LBU = 4" | "rv_funct3 MEM_LHU = 5"
| "rv_funct3 MEM_SB = 0" | "rv_funct3 MEM_SH = 1" | "rv_funct3 MEM_SW = 2"
| "rv_funct3 ALU_ADD = 0" | "rv_funct3 ALU_SUB = 0" | "rv_funct3 ALU_SLL = 1"
| "rv_funct3 ALU_SLT = 2" | "rv_funct3 ALU_SLTU = 3" | "rv_funct3 ALU_XOR = 4"
| "rv_funct3 ALU_SRL = 5" | "rv_funct3 ALU_SRA = 5" | "rv_funct3 ALU_OR = 6"
| "rv_funct3 ALU_AND = 7"
| "rv_funct3 MD_MUL = 0" | "rv_funct3 MD_MULH = 1" | "rv_funct3 MD_MULHSU = 2"
| "rv_funct3 MD_MULHU = 3" | "rv_funct3 MD_DIV = 4" | "rv_funct3 MD_DIVU = 5"
| "rv_funct3 MD_REM = 6" | "rv_funct3 MD_REMU = 7"
| "rv_funct3 _ = 0"

definition rv_funct7 :: "Op \<Rightarrow> 7 word" where
  "rv_funct7 op =
    (if op = ALU_SUB \<or> op = ALU_SRA then 32
     else if fuForOp op = FU_MUL \<or> fuForOp op = FU_DIV then 1 else 0)"

fun rv_encode :: "rv_instr \<Rightarrow> u32" where
  "rv_encode (RvLui imm rd) = pack_u imm rd 0x37"
| "rv_encode (RvAuipc imm rd) = pack_u imm rd 0x17"
| "rv_encode (RvJal off rd) = pack_u (enc_j off) rd 0x6F"
| "rv_encode (RvJalr imm rs1 rd) = pack (fld imm 11 5) (fld imm 4 0) rs1 0 rd 0x67"
| "rv_encode (RvBranch op off rs1 rs2) =
     pack (enc_b_hi off) rs2 rs1 (rv_funct3 op) (enc_b_lo off) 0x63"
| "rv_encode (RvLoad op imm rs1 rd) = pack (fld imm 11 5) (fld imm 4 0) rs1 (rv_funct3 op) rd 0x03"
| "rv_encode (RvStore op imm rs1 rs2) = pack (fld imm 11 5) rs2 rs1 (rv_funct3 op) (fld imm 4 0) 0x23"
| "rv_encode (RvOpImm op imm rs1 rd) = pack (fld imm 11 5) (fld imm 4 0) rs1 (rv_funct3 op) rd 0x13"
| "rv_encode (RvShiftImm op shamt rs1 rd) = pack (rv_funct7 op) shamt rs1 (rv_funct3 op) rd 0x13"
| "rv_encode (RvOp op rs1 rs2 rd) = pack (rv_funct7 op) rs2 rs1 (rv_funct3 op) rd 0x33"

fun rv_wf :: "rv_instr \<Rightarrow> bool" where
  "rv_wf (RvJal off _) = even off"
| "rv_wf (RvBranch op off _ _) = (even off \<and> op \<in> {BR_EQ, BR_NE, BR_LT, BR_GE, BR_LTU, BR_GEU})"
| "rv_wf (RvLoad op _ _ _) = (op \<in> {MEM_LB, MEM_LH, MEM_LW, MEM_LBU, MEM_LHU})"
| "rv_wf (RvStore op _ _ _) = (op \<in> {MEM_SB, MEM_SH, MEM_SW})"
| "rv_wf (RvOpImm op _ _ _) = (op \<in> {ALU_ADD, ALU_SLT, ALU_SLTU, ALU_XOR, ALU_OR, ALU_AND})"
| "rv_wf (RvShiftImm op _ _ _) = (op \<in> {ALU_SLL, ALU_SRL, ALU_SRA})"
| "rv_wf (RvOp op _ _ _) = (fuForOp op \<in> {FU_MUL, FU_DIV} \<or>
     op \<in> {ALU_ADD, ALU_SUB, ALU_SLL, ALU_SLT, ALU_SLTU, ALU_XOR, ALU_SRL, ALU_SRA, ALU_OR, ALU_AND})"
| "rv_wf _ = True"

text \<open>
  What rename and execute use of a micro-op: the operation, the unit, the registers read and
  written (a destination \<open>x0\<close> is no destination), the immediate, the memory access
  (load, size, unsigned) and the kind of control flow (branch, jump).
\<close>

record uop_view =
  v_op :: Op
  v_fu :: Fu
  v_rd :: "int option"
  v_rs1 :: "int option"
  v_rs2 :: "int option"
  v_imm :: i32
  v_src2_is_imm :: bool
  v_mem :: "(bool \<times> MemSize \<times> bool) option"
  v_control :: "bool \<times> bool"

definition uop_view :: "Uop \<Rightarrow> uop_view" where
  "uop_view u = \<lparr>v_op = u_op u, v_fu = u_fu u,
     v_rd = (if u_rd_used u then Some (u_rd u) else None),
     v_rs1 = (if u_rs1_used u then Some (u_rs1 u) else None),
     v_rs2 = (if u_rs2_used u then Some (u_rs2 u) else None),
     v_imm = u_imm u, v_src2_is_imm = u_src2_is_imm u,
     v_mem = (if u_is_load u \<or> u_is_store u
              then Some (u_is_load u, u_mem_size u, u_mem_unsigned u) else None),
     v_control = (u_is_branch u, u_is_jump u)\<rparr>"

definition dest :: "5 word \<Rightarrow> int option" where
  "dest rd = (if rd = 0 then None else Some (uint rd))"

fun rv_mem :: "Op \<Rightarrow> MemSize \<times> bool" where
  "rv_mem MEM_LB = (SZ_B, False)" | "rv_mem MEM_LH = (SZ_H, False)" | "rv_mem MEM_LW = (SZ_W, False)"
| "rv_mem MEM_LBU = (SZ_B, True)" | "rv_mem MEM_LHU = (SZ_H, True)"
| "rv_mem MEM_SB = (SZ_B, False)" | "rv_mem MEM_SH = (SZ_H, False)" | "rv_mem _ = (SZ_W, False)"

definition alu_view :: "Op \<Rightarrow> int option \<Rightarrow> int option \<Rightarrow> int option \<Rightarrow> i32 \<Rightarrow> bool \<Rightarrow> uop_view" where
  "alu_view op rd rs1 rs2 imm is_imm = \<lparr>v_op = op, v_fu = fuForOp op, v_rd = rd, v_rs1 = rs1,
     v_rs2 = rs2, v_imm = imm, v_src2_is_imm = is_imm, v_mem = None, v_control = (False, False)\<rparr>"

fun rv_view :: "rv_instr \<Rightarrow> uop_view" where
  "rv_view (RvLui imm rd) = alu_view ALU_LUI (dest rd) None None (push_bit 12 (ucast imm)) True"
| "rv_view (RvAuipc imm rd) = alu_view ALU_AUIPC (dest rd) None None (push_bit 12 (ucast imm)) True"
| "rv_view (RvJal off rd) =
     (alu_view BR_JAL (dest rd) None None (scast off) False)\<lparr>v_control := (False, True)\<rparr>"
| "rv_view (RvJalr imm rs1 rd) =
     (alu_view BR_JALR (dest rd) (Some (uint rs1)) None (scast imm) False)\<lparr>v_control := (False, True)\<rparr>"
| "rv_view (RvBranch op off rs1 rs2) =
     (alu_view op None (Some (uint rs1)) (Some (uint rs2)) (scast off) False)\<lparr>v_control := (True, False)\<rparr>"
| "rv_view (RvLoad op imm rs1 rd) =
     (alu_view op (dest rd) (Some (uint rs1)) None (scast imm) False)\<lparr>v_mem := Some (True, rv_mem op)\<rparr>"
| "rv_view (RvStore op imm rs1 rs2) =
     (alu_view op None (Some (uint rs1)) (Some (uint rs2)) (scast imm) False)\<lparr>v_mem := Some (False, rv_mem op)\<rparr>"
| "rv_view (RvOpImm op imm rs1 rd) = alu_view op (dest rd) (Some (uint rs1)) None (scast imm) True"
| "rv_view (RvShiftImm op shamt rs1 rd) =
     alu_view op (dest rd) (Some (uint rs1)) None
       (ucast shamt OR push_bit 5 (ucast (rv_funct7 op))) True"
| "rv_view (RvOp op rs1 rs2 rd) = alu_view op (dest rd) (Some (uint rs1)) (Some (uint rs2)) 0 False"

section \<open>Bits of the formats\<close>

lemma bits_take_drop: "bits inst hi lo = take_bit (hi - lo + 1) (drop_bit lo inst)"
  by (simp add: bits_def take_bit_eq_mask mask_eq_exp_minus_1 push_bit_of_1)

lemma bit_beyond: "LENGTH('a) \<le> n \<Longrightarrow> bit (w::'a::len word) n = False"
  using bit_imp_le_length[of w n] by auto

lemma bit_pack:
  "bit (pack f7 rs2 rs1 f3 rd opc) n =
    (if n < 7 then bit opc n else if n < 12 then bit rd (n - 7)
     else if n < 15 then bit f3 (n - 12) else if n < 20 then bit rs1 (n - 15)
     else if n < 25 then bit rs2 (n - 20) else bit f7 (n - 25))"
proof -
  consider "n < 7" | "7 \<le> n" "n < 12" | "12 \<le> n" "n < 15" | "15 \<le> n" "n < 20" | "20 \<le> n" "n < 25"
    | "25 \<le> n" "n < 32" | "32 \<le> n" by linarith
  then show ?thesis
    by cases (simp_all add: pack_def bit_simps bit_beyond less_imp_diff_less)
qed

lemma n11E: "\<not> 12 \<le> n \<Longrightarrow> 11 \<le> n \<Longrightarrow> (n = 11 \<Longrightarrow> P) \<Longrightarrow> P" for n :: nat
  by simp

lemma bit_bits: "bit (bits inst hi lo) n \<longleftrightarrow> n \<le> hi - lo \<and> bit inst (n + lo)"
  by (auto simp: bits_take_drop bit_simps less_Suc_eq_le add.commute)

lemma pack_opc: "bits (pack f7 rs2 rs1 f3 rd opc) 6 0 = ucast opc"
  by (rule bit_word_eqI) (auto simp: bit_bits bit_pack bit_simps bit_beyond)
lemma pack_rd: "bits (pack f7 rs2 rs1 f3 rd opc) 11 7 = ucast rd"
  by (rule bit_word_eqI) (auto simp: bit_bits bit_pack bit_simps bit_beyond)
lemma pack_f3: "bits (pack f7 rs2 rs1 f3 rd opc) 14 12 = ucast f3"
  by (rule bit_word_eqI) (auto simp: bit_bits bit_pack bit_simps bit_beyond)
lemma pack_rs1: "bits (pack f7 rs2 rs1 f3 rd opc) 19 15 = ucast rs1"
  by (rule bit_word_eqI) (auto simp: bit_bits bit_pack bit_simps bit_beyond)
lemma pack_rs2: "bits (pack f7 rs2 rs1 f3 rd opc) 24 20 = ucast rs2"
  by (rule bit_word_eqI) (auto simp: bit_bits bit_pack bit_simps bit_beyond)
lemma f7_bound: "bit (w :: 7 word) n \<Longrightarrow> n < 7"
  using bit_imp_le_length [of w n] by simp
lemma f7_bit6: "bit (w :: 7 word) (n - 5) \<Longrightarrow> \<not> bit w 6 \<Longrightarrow> n < 11"
proof -
  assume "bit w (n - 5)" "\<not> bit w 6"
  then have "n - 5 < 7" "n - 5 \<noteq> 6" using f7_bound by auto
  then show "n < 11" by linarith
qed

lemma pack_f7: "bits (pack f7 rs2 rs1 f3 rd opc) 31 25 = ucast f7"
  by (rule bit_word_eqI) (auto simp: bit_bits bit_pack bit_simps bit_beyond dest: f7_bound)

lemma pack_immI: "immI (pack (ucast (drop_bit 5 (imm :: 12 word))) (ucast imm) rs1 f3 rd opc) = scast imm"
  by (rule bit_word_eqI) (auto simp: immI_def bit_pack bit_simps min_def bit_beyond elim!: n11E)
lemma pack_immS: "immS (pack (ucast (drop_bit 5 (imm :: 12 word))) rs2 rs1 f3 (ucast imm) opc) = scast imm"
  by (rule bit_word_eqI) (auto simp: immS_def Let_def bit_bits bit_pack bit_simps min_def bit_beyond elim!: n11E)


lemma bit_fld: "bit (fld w hi lo :: 'b::len word) n \<longleftrightarrow> n < LENGTH('b) \<and> n \<le> hi - lo \<and> bit w (n + lo)"
  by (auto simp: fld_def bit_simps less_Suc_eq_le add.commute simp del: take_bit_Suc)

lemma bit_enc_b_hi: "bit (enc_b_hi off) n = (if n < 6 then bit off (n + 5) else n = 6 \<and> bit off 12)"
  unfolding enc_b_hi_def bit_simps bit_fld by (cases "n < 6"; cases "n = 6"; simp add: bit_simps)
lemma bit_enc_b_lo: "bit (enc_b_lo off) n = (if n = 0 then bit off 11 else n < 5 \<and> bit off n)"
  unfolding enc_b_lo_def bit_simps bit_fld by (cases "n = 0"; cases "n < 5"; auto simp add: bit_simps bit_beyond)

lemma pack_immB:
  assumes "\<not> bit off 0"
  shows "immB (pack (enc_b_hi off) rs2 rs1 f3 (enc_b_lo off) opc) = scast off"
proof (rule bit_word_eqI)
  fix n assume n: "n < LENGTH(32)"
  consider "n = 0" | "1 \<le> n" "n < 5" | "5 \<le> n" "n < 11" | "n = 11" | "12 \<le> n" by linarith
  then show "bit (immB (pack (enc_b_hi off) rs2 rs1 f3 (enc_b_lo off) opc)) n = bit (scast off :: i32) n"
    unfolding immB_def Let_def bit_simps bit_bits using assms n
    by cases (auto simp add: bit_pack bit_simps min_def bit_enc_b_hi bit_enc_b_lo less_imp_diff_less)
qed

lemma bit_pack_u:
  "bit (pack_u imm rd opc) n =
    (if n < 7 then bit opc n else if n < 12 then bit rd (n - 7) else bit imm (n - 12))"
proof -
  consider "n < 7" | "7 \<le> n" "n < 12" | "12 \<le> n" "n < 32" | "32 \<le> n" by linarith
  then show ?thesis
    by cases (simp_all add: pack_u_def bit_simps bit_beyond less_imp_diff_less)
qed

lemma pack_u_opc: "bits (pack_u imm rd opc) 6 0 = ucast opc"
  by (rule bit_word_eqI) (auto simp: bit_bits bit_pack_u bit_simps bit_beyond)
lemma pack_u_rd: "bits (pack_u imm rd opc) 11 7 = ucast rd"
  by (rule bit_word_eqI) (auto simp: bit_bits bit_pack_u bit_simps bit_beyond)

lemma bit_immU_mask: "bit (0xFFFFF000 :: u32) n \<longleftrightarrow> 12 \<le> n \<and> n < 32"
proof -
  have "(0xFFFFF000 :: u32) = push_bit 12 (mask 20)" by (simp add: mask_eq_exp_minus_1 push_bit_eq_mult)
  then show ?thesis by (simp only: bit_push_bit_iff bit_mask_iff) (auto simp: bit_simps)
qed

lemma pack_u_immU: "immU (pack_u imm rd opc) = push_bit 12 (ucast imm)"
  unfolding immU_def
  by (rule bit_word_eqI, simp only: bit_and_iff bit_immU_mask)
    (auto simp: bit_pack_u bit_simps bit_beyond)

lemma bit_enc_j: "bit (enc_j off) n = (if n < 8 then bit off (n + 12) else if n = 8 then bit off 11
   else if n < 19 then bit off (n - 8) else n = 19 \<and> bit off 20)"
proof -
  consider "n < 8" | "n = 8" | "9 \<le> n" "n < 19" | "n = 19" | "20 \<le> n" by linarith
  then show ?thesis unfolding enc_j_def bit_simps bit_fld
    by cases (auto simp add: bit_simps bit_beyond less_imp_diff_less Suc_diff_le [symmetric])
qed

lemma pack_immJ:
  assumes "\<not> bit off 0"
  shows "immJ (pack_u (enc_j off) rd opc) = scast off"
proof (rule bit_word_eqI)
  fix n assume n: "n < LENGTH(32)"
  consider "n = 0" | "1 \<le> n" "n < 11" | "n = 11" | "12 \<le> n" "n < 20" | "n = 20" | "20 < n" by linarith
  then show "bit (immJ (pack_u (enc_j off) rd opc)) n = bit (scast off :: i32) n"
    unfolding immJ_def Let_def bit_simps bit_bits using assms n
    by cases (auto simp add: bit_pack_u bit_simps min_def bit_enc_j less_imp_diff_less)
qed

lemmas pack_fields = pack_opc pack_rd pack_f3 pack_rs1 pack_rs2 pack_f7
  pack_u_opc pack_u_rd pack_u_immU

lemma fld_12_hi: "(fld (imm :: 12 word) 11 5 :: 7 word) = ucast (drop_bit 5 imm)"
  by (rule bit_word_eqI) (auto simp: bit_fld bit_simps bit_beyond add.commute)

lemma fld_12_lo: "(fld (imm :: 12 word) 4 0 :: 5 word) = ucast imm"
  by (rule bit_word_eqI) (auto simp: bit_fld bit_simps bit_beyond)

lemmas fld_12 = fld_12_hi fld_12_lo

lemma pack_immI_shift:
  assumes "\<not> bit f7 6"
  shows "immI (pack f7 shamt rs1 f3 rd opc) = ucast shamt OR push_bit 5 (ucast f7)"
proof (rule bit_word_eqI)
  fix n assume n: "n < LENGTH(32)"
  consider "n < 5" | "5 \<le> n" "n < 11" | "11 \<le> n" by linarith
  then show "bit (immI (pack f7 shamt rs1 f3 rd opc)) n
      = bit (ucast shamt OR push_bit 5 (ucast f7) :: i32) n"
    using assms n
    by cases (auto simp: immI_def bit_pack bit_simps min_def bit_beyond less_imp_diff_less
        dest: f7_bit6)
qed

lemma ucast5_uint: "uint (ucast (rd :: 5 word) :: u32) = uint rd"
  by (simp add: uint_up_ucast is_up)

lemmas pack_imms = pack_immI [folded fld_12] pack_immS [folded fld_12] pack_immB pack_immJ

lemmas decode_eval = decode_defs Let_def pack_fields opc_defs f7_defs rv_funct7_def uop_view_def
  alu_view_def dest_def ucast5_uint uint_0_iff pack_imms

lemma decode_of_encode:
  assumes "rv_wf i"
  shows "uop_view (decodeInstruction (rv_encode i) pc) = rv_view i"
proof (cases i)
  case (RvOp op rs1 rs2 rd)
  then show ?thesis using assms by (cases op; simp add: decode_eval)
next
  case (RvLui imm rd)
  then show ?thesis by (simp add: decode_eval)
next
  case (RvAuipc imm rd)
  then show ?thesis by (simp add: decode_eval)
next
  case (RvJal off rd)
  then show ?thesis using assms by (simp add: decode_eval bit_0)
next
  case (RvJalr imm rs1 rd)
  then show ?thesis by (simp add: decode_eval)
next
  case (RvBranch op off rs1 rs2)
  have imm: "immB (pack (enc_b_hi off) rs2 rs1 f3 (enc_b_lo off) 0x63) = scast off" for f3
    using assms RvBranch by (intro pack_immB) (simp add: bit_0)
  show ?thesis
  proof (cases "enc_b_lo off = 0")
    case True
    then have "immB (pack (enc_b_hi off) rs2 rs1 f3 0 0x63) = scast off" for f3
      using imm [of f3] by simp
    then show ?thesis using RvBranch assms True by (cases op; simp add: decode_eval)
  next
    case False
    then show ?thesis using RvBranch assms imm by (cases op; simp add: decode_eval bit_0)
  qed
next
  case (RvLoad op imm rs1 rd)
  then show ?thesis using assms by (cases op; simp add: decode_eval)
next
  case (RvStore op imm rs1 rs2)
  have imm: "immS (pack (fld imm 11 5) rs2 rs1 f3 (fld imm 4 0) 0x23) = scast imm" for f3
    by (simp add: pack_imms)
  show ?thesis
  proof (cases "fld imm 4 0 = (0 :: 5 word)")
    case True
    then have "immS (pack (fld imm 11 5) rs2 rs1 f3 0 0x23) = scast imm" for f3
      using imm [of f3] by simp
    then show ?thesis using RvStore assms True by (cases op; simp add: decode_eval)
  next
    case False
    then show ?thesis using RvStore assms imm by (cases op; simp add: decode_eval)
  qed
next
  case (RvOpImm op imm rs1 rd)
  then show ?thesis using assms by (cases op; simp add: decode_eval)
next
  case (RvShiftImm op shamt rs1 rd)
  then show ?thesis using assms by (cases op; simp add: decode_eval pack_immI_shift)
qed

lemma pack_fld:
  "pack (fld inst 31 25) (fld inst 24 20) (fld inst 19 15) (fld inst 14 12) (fld inst 11 7) (fld inst 6 0) = inst"
  by (rule bit_word_eqI) (auto simp: bit_pack bit_fld)

lemma pack_u_fld: "pack_u (fld inst 31 12) (fld inst 11 7) (fld inst 6 0) = inst"
  by (rule bit_word_eqI) (auto simp: bit_pack_u bit_fld)

lemma bits_fld: "hi - lo < LENGTH('a::len) \<Longrightarrow> bits inst hi lo = ucast (fld inst hi lo :: 'a word)"
  by (rule bit_word_eqI) (auto simp: bit_bits bit_fld bit_simps)

lemma ucast_down_eq:
  "ucast (w :: 'a::len word) = (c :: u32) \<Longrightarrow> LENGTH('a) \<le> 32 \<Longrightarrow> w = ucast c"
  by (rule bit_word_eqI) (auto simp: bit_simps)

lemma ex_imm12: "\<exists>imm :: 12 word. fld imm 11 5 = (hi :: 7 word) \<and> fld imm 4 0 = (lo :: 5 word)"
proof (intro exI conjI)
  let ?imm = "push_bit 5 (ucast hi) OR ucast lo :: 12 word"
  show "fld ?imm 11 5 = hi" by (rule bit_word_eqI) (auto simp: bit_fld bit_simps bit_beyond)
  show "fld ?imm 4 0 = lo" by (rule bit_word_eqI) (auto simp: bit_fld bit_simps bit_beyond)
qed

lemma n6E: "n < 7 \<Longrightarrow> \<not> n < 6 \<Longrightarrow> (n = 6 \<Longrightarrow> P) \<Longrightarrow> P" for n :: nat
  by simp

lemma ex_off_b: "\<exists>off. even off \<and> enc_b_hi off = hi \<and> enc_b_lo off = lo"
proof (intro exI conjI)
  let ?off = "push_bit 12 (fld hi 6 6) OR push_bit 11 (fld lo 0 0) OR push_bit 5 (fld hi 5 0) OR push_bit 1 (fld lo 4 1) :: 13 word"
  have "\<not> bit ?off 0" unfolding bit_simps bit_fld by simp
  then show "even ?off" by (simp only: bit_0 not_not)
  show "enc_b_hi ?off = hi" 
    by (rule bit_word_eqI) (auto simp: bit_enc_b_hi bit_fld bit_simps bit_beyond less_Suc_eq_le elim!: n6E simp del: push_bit_Suc)
  show "enc_b_lo ?off = lo"
    by (rule bit_word_eqI)
      (auto simp: bit_enc_b_lo bit_fld bit_simps bit_beyond less_Suc_eq_le simp del: push_bit_Suc)
qed
lemma ex_off_j: "\<exists>off. even off \<and> enc_j off = w"
proof (intro exI conjI)
  let ?off = "push_bit 20 (fld w 19 19) OR push_bit 1 (fld w 18 9) OR push_bit 11 (fld w 8 8) OR push_bit 12 (fld w 7 0) :: 21 word"
  have "\<not> bit ?off 0" unfolding bit_simps bit_fld by simp
  then show "even ?off" by (simp only: bit_0 not_not)
  show "enc_j ?off = w"
  proof (rule bit_word_eqI)
    fix n assume n: "n < LENGTH(20)"
    consider "n < 8" | "n = 8" | "9 \<le> n" "n < 19" | "n = 19" using n by fastforce
    then show "bit (enc_j ?off) n = bit w n"
      by cases (auto simp: bit_enc_j bit_fld bit_simps bit_beyond simp del: push_bit_Suc)
  qed
qed


lemma ucast3_eq:
  fixes f3 :: "3 word"
  shows "ucast f3 = (0 :: u32) \<longleftrightarrow> f3 = 0" "ucast f3 = (1 :: u32) \<longleftrightarrow> f3 = 1"
    "ucast f3 = (2 :: u32) \<longleftrightarrow> f3 = 2" "ucast f3 = (3 :: u32) \<longleftrightarrow> f3 = 3"
    "ucast f3 = (4 :: u32) \<longleftrightarrow> f3 = 4" "ucast f3 = (5 :: u32) \<longleftrightarrow> f3 = 5"
    "ucast f3 = (6 :: u32) \<longleftrightarrow> f3 = 6" "ucast f3 = (7 :: u32) \<longleftrightarrow> f3 = 7"
  by (auto dest: ucast_down_eq)

lemma ucast7_eq:
  fixes f7 :: "7 word"
  shows "ucast f7 = (0 :: u32) \<longleftrightarrow> f7 = 0" "ucast f7 = (1 :: u32) \<longleftrightarrow> f7 = 1"
    "ucast f7 = (32 :: u32) \<longleftrightarrow> f7 = 32" "ucast f7 = (0x13 :: u32) \<longleftrightarrow> f7 = 0x13"
    "ucast f7 = (0x33 :: u32) \<longleftrightarrow> f7 = 0x33" "ucast f7 = (0x03 :: u32) \<longleftrightarrow> f7 = 0x03"
    "ucast f7 = (0x23 :: u32) \<longleftrightarrow> f7 = 0x23" "ucast f7 = (0x63 :: u32) \<longleftrightarrow> f7 = 0x63"
    "ucast f7 = (0x6F :: u32) \<longleftrightarrow> f7 = 0x6F" "ucast f7 = (0x67 :: u32) \<longleftrightarrow> f7 = 0x67"
    "ucast f7 = (0x37 :: u32) \<longleftrightarrow> f7 = 0x37" "ucast f7 = (0x17 :: u32) \<longleftrightarrow> f7 = 0x17"
  by (auto dest: ucast_down_eq)

lemma rv_view_op: "rv_wf i \<Longrightarrow> v_op (rv_view i) \<noteq> UOP_NOP"
  by (cases i) (auto simp: alu_view_def)

lemma v_op_view: "v_op (uop_view u) = u_op u"
  by (simp add: uop_view_def)

lemma decode_complete_pack:
  fixes pc :: u64 and f7 opc :: "7 word" and rs1 rs2 rd :: "5 word" and f3 :: "3 word"
  defines "inst \<equiv> pack f7 rs2 rs1 f3 rd opc"
  defines "op \<equiv> u_op (decodeInstruction inst pc)"
  assumes nop: "op \<noteq> UOP_NOP" and im: "inst = pack_u im rd opc"
  shows "\<exists>i. rv_wf i \<and> rv_encode i = inst"
proof -
  obtain imI :: "12 word" where imI: "fld imI 11 5 = f7" "fld imI 4 0 = rs2" using ex_imm12 by blast
  obtain imS :: "12 word" where imS: "fld imS 11 5 = f7" "fld imS 4 0 = rd" using ex_imm12 by blast
  obtain offb where offb: "even offb" "enc_b_hi offb = f7" "enc_b_lo offb = rd" using ex_off_b by blast
  obtain offj where offj: "even offj" "enc_j offj = im" using ex_off_j by blast
  note eval = op_def inst_def decode_defs Let_def pack_fields opc_defs f7_defs ucast3_eq ucast7_eq
    rv_funct7_def
  consider "opc = 0x13" | "opc = 0x33" | "opc = 0x03" | "opc = 0x23" | "opc = 0x63"
    | "opc = 0x6F" | "opc = 0x67" | "opc = 0x37" | "opc = 0x17"
    using nop by (auto simp: eval split: if_splits)
  then show ?thesis
  proof cases
    case 1
    have "rv_wf (RvShiftImm op rs2 rs1 rd) \<and> rv_funct7 op = f7 \<and> rv_funct3 op = f3
      \<or> rv_wf (RvOpImm op imI rs1 rd) \<and> rv_funct3 op = f3"
      using nop 1 by (auto simp: eval split: if_splits)
    then show ?thesis using 1 imI by (metis inst_def rv_encode.simps(8,9))
  next
    case 2
    then have "rv_wf (RvOp op rs1 rs2 rd) \<and> rv_funct7 op = f7 \<and> rv_funct3 op = f3"
      using nop by (auto simp: eval split: if_splits)
    then show ?thesis using 2 by (metis inst_def rv_encode.simps(10))
  next
    case 3
    then have "rv_wf (RvLoad op imI rs1 rd) \<and> rv_funct3 op = f3"
      using nop by (auto simp: eval split: if_splits)
    then show ?thesis using 3 imI by (metis inst_def rv_encode.simps(6))
  next
    case 4
    then have "rv_wf (RvStore op imS rs1 rs2) \<and> rv_funct3 op = f3"
      using nop by (auto simp: eval split: if_splits)
    then show ?thesis using 4 imS by (metis inst_def rv_encode.simps(7))
  next
    case 5
    then have "rv_wf (RvBranch op offb rs1 rs2) \<and> rv_funct3 op = f3"
      using nop offb by (auto simp: eval split: if_splits)
    then show ?thesis using 5 offb by (metis inst_def rv_encode.simps(5))
  next
    case 6
    then show ?thesis using im offj by (intro exI [of _ "RvJal offj rd"]) simp
  next
    case 7
    then have "f3 = 0" using nop by (auto simp: eval split: if_splits)
    then show ?thesis using 7 imI inst_def by (intro exI [of _ "RvJalr imI rs1 rd"]) simp
  next
    case 8
    then show ?thesis using im by (intro exI [of _ "RvLui im rd"]) simp
  next
    case 9
    then show ?thesis using im by (intro exI [of _ "RvAuipc im rd"]) simp
  qed
qed

lemma decode_op_iff_encoding:
  "u_op (decodeInstruction inst pc) \<noteq> UOP_NOP \<longleftrightarrow> (\<exists>i. rv_wf i \<and> rv_encode i = inst)"
proof
  assume "\<exists>i. rv_wf i \<and> rv_encode i = inst"
  then show "u_op (decodeInstruction inst pc) \<noteq> UOP_NOP"
    by (metis decode_of_encode rv_view_op v_op_view)
next
  assume "u_op (decodeInstruction inst pc) \<noteq> UOP_NOP"
  then show "\<exists>i. rv_wf i \<and> rv_encode i = inst"
    using decode_complete_pack [of "fld inst 31 25" "fld inst 24 20" "fld inst 19 15"
        "fld inst 14 12" "fld inst 11 7" "fld inst 6 0" pc "fld inst 31 12"]
    by (simp add: pack_fld pack_u_fld)
qed

section \<open>The decoder and the instruction set\<close>

text \<open>
  C9: decoding the encoding of any RV32IM instruction gives exactly the micro-op
  the manual prescribes: operation, functional unit, source and destination registers, the
  sign-extended immediate of its format, memory size and signedness, and control-flow kind.
\<close>

theorem decode_roundtrip:
  "rv_wf i \<Longrightarrow> uop_view (decodeInstruction (rv_encode i) pc) = rv_view i"
  by (rule decode_of_encode)

theorem decode_roundtrip_witness:
  "rv_encode (RvBranch BR_GE 0x1FF8 5 31) = 0xFFF2DCE3
   \<and> uop_view (decodeInstruction 0xFFF2DCE3 0x1000) = rv_view (RvBranch BR_GE 0x1FF8 5 31)"
proof -
  have enc: "rv_encode (RvBranch BR_GE 0x1FF8 5 31) = 0xFFF2DCE3"
    by (simp add: pack_def enc_b_hi_def enc_b_lo_def fld_def)
  have "rv_wf (RvBranch BR_GE 0x1FF8 5 31)" by simp
  from decode_roundtrip [OF this, of "0x1000"] enc show ?thesis by simp
qed

text \<open>
  C32: a word decodes to an operation exactly when it is the encoding of an
  RV32IM instruction; every other word is a bubble.
\<close>

theorem decode_complete:
  "u_op (decodeInstruction inst pc) \<noteq> UOP_NOP \<longleftrightarrow> (\<exists>i. rv_wf i \<and> rv_encode i = inst)"
  by (rule decode_op_iff_encoding)

text \<open>A well-formed micro-op.\<close>

definition uop_wf :: "Uop \<Rightarrow> bool" where
  "uop_wf u \<longleftrightarrow>
     u_rd u \<in> {0..31} \<and> u_rs1 u \<in> {0..31} \<and> u_rs2 u \<in> {0..31} \<and>
     (u_rd_used u \<longrightarrow> 0 < u_rd u) \<and>
     u_fu u = fuForOp (u_op u) \<and>
     (u_op u = UOP_NOP \<longrightarrow> \<not> u_rd_used u \<and> \<not> u_rs1_used u \<and> \<not> u_rs2_used u
        \<and> \<not> u_is_load u \<and> \<not> u_is_store u \<and> \<not> u_is_branch u \<and> \<not> u_is_jump u) \<and>
     (u_fu u = FU_MEM \<longleftrightarrow> u_is_load u \<or> u_is_store u) \<and>
     (u_fu u = FU_BR \<longleftrightarrow> u_is_branch u \<or> u_is_jump u) \<and>
     \<not> (u_is_load u \<and> u_is_store u) \<and> \<not> (u_is_branch u \<and> u_is_jump u) \<and>
     (u_is_store u \<or> u_is_branch u \<longrightarrow> \<not> u_rd_used u)"

text \<open>The micro-op before the final test for \<open>x0\<close>.\<close>

definition uop_pre :: "Uop \<Rightarrow> bool" where
  "uop_pre u \<longleftrightarrow> uop_wf (if u_rd u = 0 then u\<lparr>u_rd_used := False\<rparr> else u)"

definition uop_base :: "Uop \<Rightarrow> bool" where
  "uop_base u \<longleftrightarrow> u_rd u \<in> {0..31} \<and> u_rs1 u \<in> {0..31} \<and> u_rs2 u \<in> {0..31}
     \<and> u_op u = UOP_NOP \<and> u_fu u = FU_ALU \<and> \<not> u_rd_used u \<and> \<not> u_rs1_used u \<and> \<not> u_rs2_used u
     \<and> \<not> u_is_load u \<and> \<not> u_is_store u \<and> \<not> u_is_branch u \<and> \<not> u_is_jump u"

lemmas uop_wf_defs = uop_pre_def uop_wf_def uop_base_def Let_def makeNop_def

lemma decode_opimm_pre: "uop_base u \<Longrightarrow> uop_pre (decode_opimm inst u)"
  unfolding decode_opimm_def by (simp add: uop_wf_defs)

lemma decode_op_pre: "uop_base u \<Longrightarrow> uop_pre (decode_op inst u)"
  unfolding decode_op_def by (simp add: uop_wf_defs)

lemma decode_load_pre: "uop_base u \<Longrightarrow> uop_pre (decode_load inst u)"
  unfolding decode_load_def by (simp add: uop_wf_defs)

lemma decode_store_pre: "uop_base u \<Longrightarrow> uop_pre (decode_store inst u)"
  unfolding decode_store_def by (simp add: uop_wf_defs)

lemma decode_branch_pre: "uop_base u \<Longrightarrow> uop_pre (decode_branch inst u)"
  unfolding decode_branch_def by (simp add: uop_wf_defs)

lemma bits_reg: "hi < 32 \<Longrightarrow> hi = lo + 4 \<Longrightarrow> uint (bits inst hi lo) \<in> {0..31}"
proof -
  assume h: "hi < 32" "hi = lo + 4"
  have "bits inst hi lo = ucast (fld inst hi lo :: 5 word)"
    using h by (intro bits_fld) simp
  moreover have l: "uint (fld inst hi lo :: 5 word) < 32"
    using uint_lt2p [of "fld inst hi lo :: 5 word"] by simp
  ultimately have "uint (bits inst hi lo) = uint (fld inst hi lo :: 5 word)"
    by (simp add: unsigned_ucast_eq take_bit_int_eq_self_iff)
  with l show ?thesis by simp
qed

lemma uop_base_pre:
  assumes "uop_base u"
  shows "uop_pre u"
    and "uop_pre (u\<lparr>u_fu := FU_BR, u_is_jump := True, u_op := BR_JAL, u_rd_used := True, u_imm := i\<rparr>)"
    and "uop_pre (u\<lparr>u_fu := FU_BR, u_is_jump := True, u_op := BR_JALR, u_rd_used := True,
                    u_rs1_used := True, u_imm := i\<rparr>)"
    and "uop_pre (u\<lparr>u_fu := FU_ALU, u_op := ALU_LUI, u_rd_used := True, u_src2_is_imm := True, u_imm := i\<rparr>)"
    and "uop_pre (u\<lparr>u_fu := FU_ALU, u_op := ALU_AUIPC, u_rd_used := True, u_src2_is_imm := True, u_imm := i\<rparr>)"
  using assms by (simp_all add: uop_wf_defs)

lemma if_pre: "(c \<Longrightarrow> uop_pre x) \<Longrightarrow> (\<not> c \<Longrightarrow> uop_pre y) \<Longrightarrow> uop_pre (if c then x else y)"
  by simp

lemma uop_base_fields:
  "rd \<in> {0..31} \<Longrightarrow> r1 \<in> {0..31} \<Longrightarrow> r2 \<in> {0..31} \<Longrightarrow>
   uop_base (uop0\<lparr>u_pc := pc, u_op := UOP_NOP, u_fu := FU_ALU,
     u_rd := rd, u_rs1 := r1, u_rs2 := r2, u_mem_size := SZ_W\<rparr>)"
  by (simp add: uop_base_def uop0_def)

lemma decode_is_wf: "uop_wf (decodeInstruction inst pc)"
  unfolding decodeInstruction_def Let_def uop_pre_def [symmetric]
  by (intro if_pre decode_opimm_pre decode_op_pre decode_load_pre decode_store_pre decode_branch_pre
      uop_base_pre uop_base_fields bits_reg) simp_all

text \<open>
  C33: whatever the word, the decoded micro-op is well formed: the register numbers are in
  \<open>0..31\<close>, \<open>x0\<close> is never a destination, a bubble uses no register and accesses no memory,
  and an operation is at most one of load, store, branch and jump, in agreement with the
  functional unit its operation belongs to.
\<close>

theorem decode_well_formed: "uop_wf (decodeInstruction inst pc)"
  by (rule decode_is_wf)

end
