(* ===== verification/Execute.thy ===== *)
theory Execute
  imports Types
begin

text \<open>
  The execution semantics of \<open>src/execution_engine.cpp\<close>, lines 6 to 96: \<open>executeOp\<close>,
  \<open>branchTaken\<close> and \<open>branchTarget\<close>, over 32-bit words, and the integer-level statements of
  the M extension.
\<close>

section \<open>C++ integer division\<close>

text \<open>Division of signed integers truncates towards zero; the remainder has the dividend's sign.\<close>

definition tdiv :: "int \<Rightarrow> int \<Rightarrow> int" where
  "tdiv a b = sgn a * sgn b * (\<bar>a\<bar> div \<bar>b\<bar>)"

definition tmod :: "int \<Rightarrow> int \<Rightarrow> int" where
  "tmod a b = a - tdiv a b * b"

text \<open>\<open>a / b\<close> on \<open>int\<close>; the quotient of the most negative integer by \<open>-1\<close> does not exist.\<close>

definition int_div :: "i32 \<Rightarrow> i32 \<Rightarrow> i32 option" where
  "int_div a b =
    (if b = 0 \<or> (a = 0x80000000 \<and> b = 0xFFFFFFFF) then None
     else Some (word_of_int (tdiv (sint a) (sint b))))"

section \<open>The operations\<close>

fun executeOp :: "Op \<Rightarrow> i32 \<Rightarrow> i32 \<Rightarrow> i32 \<Rightarrow> u32 \<Rightarrow> i32" where
  "executeOp ALU_ADD src1 src2 imm pc = src1 + src2"
| "executeOp ALU_SUB src1 src2 imm pc = src1 - src2"
| "executeOp ALU_SLL src1 src2 imm pc = push_bit (unat (src2 AND 0x1F)) src1"
| "executeOp ALU_SLT src1 src2 imm pc = (if sint src1 < sint src2 then 1 else 0)"
| "executeOp ALU_SLTU src1 src2 imm pc = (if uint src1 < uint src2 then 1 else 0)"
| "executeOp ALU_XOR src1 src2 imm pc = src1 XOR src2"
| "executeOp ALU_SRL src1 src2 imm pc = drop_bit (unat (src2 AND 0x1F)) src1"
| "executeOp ALU_SRA src1 src2 imm pc = signed_drop_bit (unat (src2 AND 0x1F)) src1"
| "executeOp ALU_OR src1 src2 imm pc = src1 OR src2"
| "executeOp ALU_AND src1 src2 imm pc = src1 AND src2"
| "executeOp ALU_LUI src1 src2 imm pc = imm"
| "executeOp ALU_AUIPC src1 src2 imm pc = pc + imm"
| "executeOp MD_MUL src1 src2 imm pc =
     (let prod = (ucast src1 :: u64) * ucast src2 in ucast (prod AND 0xFFFFFFFF))"
| "executeOp MD_MULH src1 src2 imm pc =
     (let prod = (scast src1 :: u64) * scast src2 in ucast (signed_drop_bit 32 prod))"
| "executeOp MD_MULHSU src1 src2 imm pc =
     (let prod = (scast src1 :: u64) * ucast src2 in ucast (signed_drop_bit 32 prod))"
| "executeOp MD_MULHU src1 src2 imm pc =
     (let prod = (ucast src1 :: u64) * ucast src2 in ucast (drop_bit 32 prod))"
| "executeOp MD_DIV src1 src2 imm pc =
     (if src2 = 0 then -1
      else if src1 = 0x80000000 \<and> src2 = 0xFFFFFFFF then 0x80000000
      else word_of_int (tdiv (sint src1) (sint src2)))"
| "executeOp MD_DIVU src1 src2 imm pc =
     (if src2 = 0 then -1 else word_of_int (uint src1 div uint src2))"
| "executeOp MD_REM src1 src2 imm pc =
     (if src2 = 0 then src1
      else if src1 = 0x80000000 \<and> src2 = 0xFFFFFFFF then 0
      else word_of_int (tmod (sint src1) (sint src2)))"
| "executeOp MD_REMU src1 src2 imm pc =
     (if src2 = 0 then src1 else word_of_int (uint src1 mod uint src2))"
| "executeOp BR_EQ src1 src2 imm pc = (if src1 = src2 then 1 else 0)"
| "executeOp BR_NE src1 src2 imm pc = (if src1 \<noteq> src2 then 1 else 0)"
| "executeOp BR_LT src1 src2 imm pc = (if sint src1 < sint src2 then 1 else 0)"
| "executeOp BR_GE src1 src2 imm pc = (if sint src1 \<ge> sint src2 then 1 else 0)"
| "executeOp BR_LTU src1 src2 imm pc = (if uint src1 < uint src2 then 1 else 0)"
| "executeOp BR_GEU src1 src2 imm pc = (if uint src1 \<ge> uint src2 then 1 else 0)"
| "executeOp BR_JAL src1 src2 imm pc = pc + 4"
| "executeOp BR_JALR src1 src2 imm pc = pc + 4"
| "executeOp _ src1 src2 imm pc = 0"

fun branchTaken :: "Op \<Rightarrow> i32 \<Rightarrow> i32 \<Rightarrow> bool" where
  "branchTaken BR_EQ src1 src2 = (src1 = src2)"
| "branchTaken BR_NE src1 src2 = (src1 \<noteq> src2)"
| "branchTaken BR_LT src1 src2 = (sint src1 < sint src2)"
| "branchTaken BR_GE src1 src2 = (sint src1 \<ge> sint src2)"
| "branchTaken BR_LTU src1 src2 = (uint src1 < uint src2)"
| "branchTaken BR_GEU src1 src2 = (uint src1 \<ge> uint src2)"
| "branchTaken BR_JAL src1 src2 = True"
| "branchTaken BR_JALR src1 src2 = True"
| "branchTaken _ src1 src2 = False"

definition branchTarget :: "Op \<Rightarrow> u32 \<Rightarrow> i32 \<Rightarrow> i32 \<Rightarrow> u32" where
  "branchTarget op pc src1 imm =
    (if op = BR_JALR then (src1 + imm) AND NOT 1 else pc + imm)"

section \<open>Truncated division\<close>

lemma tdiv_tmod: "a = tdiv a b * b + tmod a b"
  by (simp add: tmod_def)

lemma tdiv_mult_abs: "b \<noteq> 0 \<Longrightarrow> tdiv a b * b = sgn a * (\<bar>b\<bar> * (\<bar>a\<bar> div \<bar>b\<bar>))"
  by (simp add: tdiv_def abs_sgn mult.assoc mult.left_commute)

lemma tmod_eq: "b \<noteq> 0 \<Longrightarrow> tmod a b = sgn a * (\<bar>a\<bar> mod \<bar>b\<bar>)"
proof -
  assume b: "b \<noteq> 0"
  have "tmod a b = sgn a * \<bar>a\<bar> - sgn a * (\<bar>b\<bar> * (\<bar>a\<bar> div \<bar>b\<bar>))"
    using tdiv_mult_abs [OF b, of a] by (simp add: tmod_def sgn_mult_abs)
  also have "\<dots> = sgn a * (\<bar>a\<bar> mod \<bar>b\<bar>)"
    by (simp add: right_diff_distrib [symmetric] minus_mult_div_eq_mod)
  finally show ?thesis .
qed

lemma tmod_less: "b \<noteq> 0 \<Longrightarrow> \<bar>tmod a b\<bar> < \<bar>b\<bar>"
  by (simp add: tmod_eq abs_mult abs_sgn_eq)

lemma tmod_sign: "b \<noteq> 0 \<Longrightarrow> 0 \<le> a * tmod a b"
  by (simp add: tmod_eq mult.assoc [symmetric] abs_sgn [symmetric] mult.commute [of a])

lemma tdiv_abs: "\<bar>tdiv a b\<bar> \<le> \<bar>a\<bar>"
proof (cases "b = 0")
  case False
  have "\<bar>a\<bar> div \<bar>b\<bar> \<le> \<bar>a\<bar>"
    using zdiv_mono2 [of "\<bar>a\<bar>" 1 "\<bar>b\<bar>"] False by simp
  then show ?thesis
    by (simp add: tdiv_def abs_mult abs_sgn_eq pos_imp_zdiv_nonneg_iff False)
qed (simp add: tdiv_def)

lemma tdiv_only_overflow: "tdiv (- (2 ^ 31)) b = 2 ^ 31 \<Longrightarrow> b = -1"
proof -
  assume t: "tdiv (- (2 ^ 31)) b = 2 ^ 31"
  then have "b \<noteq> 0" by (auto simp: tdiv_def)
  have "sgn b = -1"
  proof (rule ccontr)
    assume "sgn b \<noteq> -1"
    with \<open>b \<noteq> 0\<close> have "0 < b" by (auto simp: sgn_if split: if_splits)
    moreover from this have "0 \<le> (2 ^ 31 :: int) div b" by (intro pos_imp_zdiv_nonneg_iff [THEN iffD2]) auto
    ultimately show False using t by (simp add: tdiv_def)
  qed
  moreover have "\<bar>b\<bar> = 1"
  proof (rule ccontr)
    assume "\<bar>b\<bar> \<noteq> 1"
    then have "2 \<le> \<bar>b\<bar>" using \<open>b \<noteq> 0\<close> by auto
    then have "(2 ^ 31 :: int) div \<bar>b\<bar> \<le> 2 ^ 31 div 2"
      by (intro zdiv_mono2) auto
    then show False using t \<open>sgn b = -1\<close> by (simp add: tdiv_def)
  qed
  ultimately show "b = -1" by (simp add: sgn_if split: if_splits)
qed

section \<open>Words and integers\<close>

lemma sint_bounds: "- (2 ^ 31) \<le> sint (x :: i32)" "sint (x :: i32) < 2 ^ 31"
  using sint_ge [of x] sint_lt [of x] by simp_all

lemma uint_bounds: "0 \<le> uint (x :: i32)" "uint (x :: i32) < 2 ^ 32"
  using uint_lt2p [of x] by simp_all

lemma sint_word_of_int_32:
  "- (2 ^ 31) \<le> k \<Longrightarrow> k < 2 ^ 31 \<Longrightarrow> sint (word_of_int k :: i32) = k"
  by (simp add: signed_of_int signed_take_bit_int_eq_self)

lemma uint_word_of_int_32: "0 \<le> k \<Longrightarrow> k < 2 ^ 32 \<Longrightarrow> uint (word_of_int k :: i32) = k"
  by (simp add: unsigned_of_int take_bit_int_eq_self)

lemma uint_word_of_int_mod: "uint (word_of_int k :: i32) = k mod 2 ^ 32"
  by (simp add: unsigned_of_int take_bit_eq_mod)

lemma sint_word_eqI: "sint x = k \<Longrightarrow> x = (word_of_int k :: i32)"
  by auto

lemma sint_eq_0_iff: "sint (x :: i32) = 0 \<longleftrightarrow> x = 0"
  using sint_word_eqI [of x 0] by auto

text \<open>The two halves of a 64-bit product.\<close>

lemma high_half_signed:
  assumes "- (2 ^ 63) \<le> k" "k < 2 ^ 63"
  shows "sint (ucast (signed_drop_bit 32 (word_of_int k :: u64)) :: i32) = k div 2 ^ 32"
proof -
  have "ucast (signed_drop_bit 32 (word_of_int k :: u64)) = (word_of_int (drop_bit 32 k) :: i32)"
  proof (rule bit_word_eqI)
    fix n assume "n < LENGTH(32)"
    then show "bit (ucast (signed_drop_bit 32 (word_of_int k :: u64)) :: i32) n
        = bit (word_of_int (drop_bit 32 k) :: i32) n"
      by (simp add: bit_simps min_def add.commute)
  qed
  moreover have "- (2 ^ 31) \<le> k div 2 ^ 32"
    using zdiv_mono1 [OF assms(1), of "2 ^ 32"] by simp
  moreover have "k div 2 ^ 32 < 2 ^ 31"
    using assms(2) by (simp add: div_less_iff_less_mult)
  ultimately show ?thesis by (simp add: sint_word_of_int_32 drop_bit_eq_div)
qed

lemma high_half_unsigned:
  assumes "0 \<le> k" "k < 2 ^ 64"
  shows "uint (ucast (drop_bit 32 (word_of_int k :: u64)) :: i32) = k div 2 ^ 32"
proof -
  have "ucast (drop_bit 32 (word_of_int k :: u64)) = (word_of_int (drop_bit 32 k) :: i32)"
    by (rule bit_word_eqI) (simp add: bit_simps add.commute)
  moreover have "0 \<le> k div 2 ^ 32" "k div 2 ^ 32 < 2 ^ 32"
    using assms by auto
  ultimately show ?thesis by (simp add: uint_word_of_int_32 drop_bit_eq_div)
qed

lemma low_half: "ucast ((w :: u64) AND 0xFFFFFFFF) = (ucast w :: i32)"
proof -
  have "(0xFFFFFFFF :: u64) = mask 32" by (simp add: mask_eq_exp_minus_1)
  then show ?thesis
    by (intro bit_word_eqI) (simp only: bit_simps, auto simp: bit_simps)
qed

lemma uint_MUL: "uint (executeOp MD_MUL a b imm pc) = (uint a * uint b) mod 2 ^ 32"
proof -
  have "(ucast a :: u64) * ucast b = word_of_int (uint a * uint b)"
    by simp
  then have "executeOp MD_MUL a b imm pc = ucast (word_of_int (uint a * uint b) :: u64)"
    by (simp add: low_half del: of_int_mult)
  also have "\<dots> = word_of_int (uint a * uint b)"
    by (rule bit_word_eqI) (simp add: bit_simps del: of_int_mult)
  finally show ?thesis by (simp only: uint_word_of_int_mod)
qed

text \<open>Bounds of the products.\<close>

lemma abs_mult_le_int:
  fixes x y :: int
  assumes "\<bar>x\<bar> \<le> m" "\<bar>y\<bar> \<le> n"
  shows "- (m * n) \<le> x * y" "x * y \<le> m * n"
proof -
  have "\<bar>x * y\<bar> \<le> m * n"
    unfolding abs_mult using assms by (intro mult_mono) auto
  then show "- (m * n) \<le> x * y" "x * y \<le> m * n" by auto
qed

lemma abs_sint_le: "\<bar>sint (x :: i32)\<bar> \<le> 2 ^ 31"
  using sint_bounds [of x] by auto

lemma abs_uint_le: "\<bar>uint (x :: i32)\<bar> \<le> 2 ^ 32 - 1"
  using uint_bounds [of x] by auto

lemma MULH_value: "sint (executeOp MD_MULH a b imm pc) = (sint a * sint b) div 2 ^ 32"
proof -
  have "(scast a :: u64) * scast b = word_of_int (sint a * sint b)"
    by simp
  then show ?thesis
    using high_half_signed [of "sint a * sint b"]
      abs_mult_le_int [OF abs_sint_le [of a] abs_sint_le [of b]]
    by (simp del: of_int_mult)
qed

lemma MULHSU_value: "sint (executeOp MD_MULHSU a b imm pc) = (sint a * uint b) div 2 ^ 32"
proof -
  have "(scast a :: u64) * ucast b = word_of_int (sint a * uint b)"
    by simp
  then show ?thesis
    using high_half_signed [of "sint a * uint b"]
      abs_mult_le_int [OF abs_sint_le [of a] abs_uint_le [of b]]
    by (simp del: of_int_mult)
qed

lemma MULHU_value: "uint (executeOp MD_MULHU a b imm pc) = (uint a * uint b) div 2 ^ 32"
proof -
  have "(ucast a :: u64) * ucast b = word_of_int (uint a * uint b)"
    by simp
  then show ?thesis
    using high_half_unsigned [of "uint a * uint b"]
      abs_mult_le_int [OF abs_uint_le [of a] abs_uint_le [of b]]
    by (simp del: of_int_mult)
qed

text \<open>The four divisions, outside their exceptional inputs.\<close>

lemma DIV_value:
  "src2 \<noteq> 0 \<Longrightarrow> \<not> (src1 = 0x80000000 \<and> src2 = 0xFFFFFFFF) \<Longrightarrow>
   sint (executeOp MD_DIV src1 src2 imm pc) = tdiv (sint src1) (sint src2)"
proof -
  assume a: "src2 \<noteq> 0" "\<not> (src1 = 0x80000000 \<and> src2 = 0xFFFFFFFF)"
  have "tdiv (sint src1) (sint src2) < 2 ^ 31"
  proof (rule ccontr)
    assume c: "\<not> tdiv (sint src1) (sint src2) < 2 ^ 31"
    then have t: "tdiv (sint src1) (sint src2) = 2 ^ 31" "\<bar>sint src1\<bar> = 2 ^ 31"
      using tdiv_abs [of "sint src1" "sint src2"] abs_sint_le [of src1] by auto
    then have s1: "sint src1 = - (2 ^ 31)"
      using sint_bounds [of src1] by auto
    then have "src1 = 0x80000000"
      using sint_word_eqI [of src1 "- (2 ^ 31)"] by simp
    moreover have "sint src2 = -1"
      using t s1 tdiv_only_overflow [of "sint src2"] by simp
    then have "src2 = 0xFFFFFFFF"
      using sint_word_eqI [of src2 "-1"] by simp
    ultimately show False using a(2) by simp
  qed
  moreover have "- (2 ^ 31) \<le> tdiv (sint src1) (sint src2)"
    using tdiv_abs [of "sint src1" "sint src2"] abs_sint_le [of src1] by auto
  ultimately show ?thesis using a by (auto simp: sint_word_of_int_32)
qed

lemma REM_value:
  "src2 \<noteq> 0 \<Longrightarrow> \<not> (src1 = 0x80000000 \<and> src2 = 0xFFFFFFFF) \<Longrightarrow>
   sint (executeOp MD_REM src1 src2 imm pc) = tmod (sint src1) (sint src2)"
proof -
  assume a: "src2 \<noteq> 0" "\<not> (src1 = 0x80000000 \<and> src2 = 0xFFFFFFFF)"
  have "\<bar>tmod (sint src1) (sint src2)\<bar> < 2 ^ 31"
    using tmod_less [of "sint src2" "sint src1"] a(1) abs_sint_le [of src2]
    by (simp add: sint_eq_0_iff)
  then have "- (2 ^ 31) \<le> tmod (sint src1) (sint src2)" "tmod (sint src1) (sint src2) < 2 ^ 31"
    by auto
  with a show ?thesis by (auto simp: sint_word_of_int_32)
qed

lemma DIVU_value: "src2 \<noteq> 0 \<Longrightarrow> uint (executeOp MD_DIVU src1 src2 imm pc) = uint src1 div uint src2"
proof -
  assume "src2 \<noteq> 0"
  then have "0 < uint src2" using uint_bounds [of src2] by (simp add: uint_0_iff order_less_le)
  then have "0 \<le> uint src1 div uint src2" "uint src1 div uint src2 \<le> uint src1"
    using uint_bounds [of src1] zdiv_mono2 [of "uint src1" 1 "uint src2"]
    by (simp_all add: pos_imp_zdiv_nonneg_iff)
  then have "uint (word_of_int (uint src1 div uint src2) :: i32) = uint src1 div uint src2"
    using uint_bounds [of src1] by (intro uint_word_of_int_32) linarith+
  then show ?thesis using \<open>src2 \<noteq> 0\<close> by simp
qed

lemma REMU_value: "src2 \<noteq> 0 \<Longrightarrow> uint (executeOp MD_REMU src1 src2 imm pc) = uint src1 mod uint src2"
proof -
  assume "src2 \<noteq> 0"
  then have "0 < uint src2" using uint_bounds [of src2] by (simp add: uint_0_iff order_less_le)
  then have "0 \<le> uint src1 mod uint src2" "uint src1 mod uint src2 < uint src2"
    by simp_all
  then have "uint (word_of_int (uint src1 mod uint src2) :: i32) = uint src1 mod uint src2"
    using uint_bounds [of src2] by (intro uint_word_of_int_32) linarith+
  then show ?thesis using \<open>src2 \<noteq> 0\<close> by simp
qed

lemma even_iff_not_bit_0: "even (w :: 'a::len word) \<longleftrightarrow> \<not> bit w 0"
  by (simp add: bit_0)

lemma minus_one_word_32: "(0xFFFFFFFF :: i32) = -1"
  by simp

lemma uint_take_bit_32: "take_bit LENGTH(32) (uint (a :: i32)) = uint a"
  using uint_bounds [of a] by (simp add: take_bit_int_eq_self)

text \<open>Shifts use the low five bits of the second operand.\<close>

lemma shift_amount: "unat (x AND 0x1F) = nat (uint (x :: i32) mod 32)"
proof -
  have "x AND 0x1F = take_bit 5 x"
    by (simp add: take_bit_eq_mask mask_eq_exp_minus_1)
  then have "uint (x AND 0x1F) = uint (take_bit 5 x)" by (rule arg_cong)
  also have "\<dots> = uint x mod 2 ^ 5"
    by (rule trans [OF unsigned_take_bit_eq]) (simp only: take_bit_eq_mod)
  finally have "uint (x AND 0x1F) = uint x mod 32" by simp
  then show ?thesis by (metis nat_uint_eq)
qed

lemma SLL_value: "uint (executeOp ALU_SLL a b imm pc) = (uint a * 2 ^ nat (uint b mod 32)) mod 2 ^ 32"
  unfolding executeOp.simps shift_amount unsigned_push_bit_eq
  by (simp only: push_bit_eq_mult take_bit_eq_mod) simp

lemma SRL_value: "uint (executeOp ALU_SRL a b imm pc) = uint a div 2 ^ nat (uint b mod 32)"
  unfolding executeOp.simps shift_amount unsigned_drop_bit_eq
  by (simp only: drop_bit_eq_div uint_take_bit_32)

lemma SRA_value: "sint (executeOp ALU_SRA a b imm pc) = sint a div 2 ^ nat (uint b mod 32)"
  by (simp add: shift_amount sint_signed_drop_bit_eq drop_bit_eq_div)

section \<open>Properties\<close>

text \<open>
  C16: the four multiplications compute the two halves of the exact product: the high word read
  as the signedness of the operation prescribes, times \<open>2^32\<close>, plus the low word that \<open>MUL\<close>
  returns, is the product of the operands with the signedness of each.
\<close>

theorem multiply_halves:
  "sint (executeOp MD_MULH a b imm pc) * 2 ^ 32 + uint (executeOp MD_MUL a b imm pc)
     = sint a * sint b
   \<and> sint (executeOp MD_MULHSU a b imm pc) * 2 ^ 32 + uint (executeOp MD_MUL a b imm pc)
     = sint a * uint b
   \<and> uint (executeOp MD_MULHU a b imm pc) * 2 ^ 32 + uint (executeOp MD_MUL a b imm pc)
     = uint a * uint b"
proof -
  have s: "uint x mod 2 ^ 32 = sint x mod 2 ^ 32" for x :: i32
    using uint_word_of_int_mod [of "sint x"] by simp
  have "uint (executeOp MD_MUL a b imm pc) = (sint a * sint b) mod 2 ^ 32"
    unfolding uint_MUL by (intro mod_mult_cong s refl)
  then have "sint (executeOp MD_MULH a b imm pc) * 2 ^ 32 + uint (executeOp MD_MUL a b imm pc)
      = sint a * sint b"
    by (simp only: MULH_value div_mult_mod_eq)
  moreover have "uint (executeOp MD_MUL a b imm pc) = (sint a * uint b) mod 2 ^ 32"
    unfolding uint_MUL by (intro mod_mult_cong s refl)
  then have "sint (executeOp MD_MULHSU a b imm pc) * 2 ^ 32 + uint (executeOp MD_MUL a b imm pc)
      = sint a * uint b"
    by (simp only: MULHSU_value div_mult_mod_eq)
  moreover have "uint (executeOp MD_MULHU a b imm pc) * 2 ^ 32 + uint (executeOp MD_MUL a b imm pc)
      = uint a * uint b"
    unfolding MULHU_value uint_MUL by (rule div_mult_mod_eq)
  ultimately show ?thesis by blast
qed

text \<open>
  C17: signed and unsigned division satisfy the division law of the instruction set on every
  input: quotient times divisor plus remainder is the dividend (also on overflow, modulo
  \<open>2^32\<close>), the remainder is smaller than the divisor and has the sign of the dividend;
  division by zero gives all ones and the dividend.
\<close>

theorem division_law:
  defines "Q \<equiv> \<lambda>op a b. executeOp op a b 0 0"
  shows "(if b = 0 then Q MD_DIV a b = -1 \<and> Q MD_REM a b = a \<and> Q MD_DIVU a b = -1 \<and> Q MD_REMU a b = a
    else Q MD_DIV a b * b + Q MD_REM a b = a
      \<and> \<bar>sint (Q MD_REM a b)\<bar> < \<bar>sint b\<bar> \<and> 0 \<le> sint a * sint (Q MD_REM a b)
      \<and> (if a = 0x80000000 \<and> b = -1 then Q MD_DIV a b = a
         else sint (Q MD_DIV a b) * sint b + sint (Q MD_REM a b) = sint a)
      \<and> uint (Q MD_DIVU a b) * uint b + uint (Q MD_REMU a b) = uint a
      \<and> uint (Q MD_REMU a b) < uint b)"
proof (cases "b = 0")
  case False
  have "0 < uint b"
    using False uint_bounds [of b] by (simp add: uint_0_iff order_less_le)
  then have u: "uint (Q MD_DIVU a b) * uint b + uint (Q MD_REMU a b) = uint a"
      "uint (Q MD_REMU a b) < uint b"
    unfolding Q_def DIVU_value [OF False] REMU_value [OF False] by simp_all
  show ?thesis
  proof (cases "a = 0x80000000 \<and> b = -1")
    case True
    with u show ?thesis by (simp add: Q_def)
  next
    case noov: False
    then have n: "\<not> (a = 0x80000000 \<and> b = 0xFFFFFFFF)"
      by (metis minus_one_word_32)
    note v = DIV_value [OF False n, of 0 0] REM_value [OF False n, of 0 0]
    have e: "sint (Q MD_DIV a b) * sint b + sint (Q MD_REM a b) = sint a"
      unfolding Q_def v by (simp add: tdiv_tmod [symmetric])
    then have "(word_of_int (sint (Q MD_DIV a b) * sint b + sint (Q MD_REM a b)) :: i32) = a"
      by simp
    then have w: "Q MD_DIV a b * b + Q MD_REM a b = a" by simp
    have "sint b \<noteq> 0" using False by (simp add: sint_eq_0_iff)
    then have "\<bar>sint (Q MD_REM a b)\<bar> < \<bar>sint b\<bar>" "0 \<le> sint a * sint (Q MD_REM a b)"
      unfolding Q_def v by (simp_all add: tmod_less tmod_sign)
    with u e w False noov show ?thesis by auto
  qed
qed (simp add: Q_def)

text \<open>
  The shifts, comparisons and additions compute the arithmetic of the instruction set: a
  left shift multiplies modulo \<open>2^32\<close>, the logical right shift divides the unsigned value and
  the arithmetic one divides the signed value rounding down, each by two to the low five bits
  of the second operand.
\<close>

lemma alu_values:
  "uint (executeOp ALU_ADD a b imm pc) = (uint a + uint b) mod 2 ^ 32
   \<and> uint (executeOp ALU_SUB a b imm pc) = (uint a - uint b) mod 2 ^ 32
   \<and> uint (executeOp ALU_SLL a b imm pc) = (uint a * 2 ^ nat (uint b mod 32)) mod 2 ^ 32
   \<and> uint (executeOp ALU_SRL a b imm pc) = uint a div 2 ^ nat (uint b mod 32)
   \<and> sint (executeOp ALU_SRA a b imm pc) = sint a div 2 ^ nat (uint b mod 32)
   \<and> uint (executeOp ALU_AUIPC a b imm pc) = (uint pc + uint imm) mod 2 ^ 32"
  using SLL_value [of a b imm pc] SRL_value [of a b imm pc] SRA_value [of a b imm pc]
  by (simp add: uint_word_ariths del: executeOp.simps) (simp add: uint_word_ariths)

end
