(* ===== verification/Golden.thy ===== *)
theory Golden
  imports Execute
begin

text \<open>
  The in-order reference model of \<open>golden/golden_model.cpp\<close>: its state, the register and
  memory accessors, one step of \<open>GoldenModel::run\<close> and the loop with its step limit. The one
  trap of the loop is the division \<open>s1 / s2\<close> of the most negative integer by \<open>-1\<close>, which the
  code does not guard: the step is then \<open>None\<close>.
\<close>

section \<open>State\<close>

record ParsedProgram =
  pp_icache :: "u64 \<rightharpoonup> FetchedInstruction"
  pp_mem_init :: "(i32 \<times> i32) list"

record GoldenModel =
  g_num_regs :: nat
  g_arf :: "i32 list"
  g_mem :: "i32 list"
  g_icache :: "u64 \<rightharpoonup> FetchedInstruction"
  g_ras :: "u64 list"
  g_hit_limit :: bool

definition golden_init :: "nat \<Rightarrow> GoldenModel" where
  "golden_init n = \<lparr>g_num_regs = n, g_arf = replicate n 0, g_mem = replicate MEMORY_WORDS 0,
     g_icache = Map.empty, g_ras = [], g_hit_limit = False\<rparr>"

definition g_readReg :: "GoldenModel \<Rightarrow> int \<Rightarrow> i32" where
  "g_readReg g r = (if r \<le> 0 \<or> int (g_num_regs g) \<le> r then 0 else g_arf g ! nat r)"

definition g_writeReg :: "int \<Rightarrow> i32 \<Rightarrow> GoldenModel \<Rightarrow> GoldenModel" where
  "g_writeReg r v g =
    (if 0 < r \<and> r < int (g_num_regs g) then g\<lparr>g_arf := (g_arf g)[nat r := v]\<rparr> else g)"

definition g_memRead :: "GoldenModel \<Rightarrow> i32 \<Rightarrow> i32" where
  "g_memRead g addr =
    (if sint addr < 0 \<or> length (g_mem g) \<le> nat (sint addr) then 0 else g_mem g ! nat (sint addr))"

definition g_memWrite :: "i32 \<Rightarrow> i32 \<Rightarrow> GoldenModel \<Rightarrow> GoldenModel" where
  "g_memWrite addr v g =
    (if sint addr < 0 \<or> length (g_mem g) \<le> nat (sint addr) then g
     else g\<lparr>g_mem := (g_mem g)[nat (sint addr) := v]\<rparr>)"

definition golden_load :: "ParsedProgram \<Rightarrow> GoldenModel \<Rightarrow> GoldenModel" where
  "golden_load prog g =
    fold (\<lambda>(a, v). g_memWrite a v) (pp_mem_init prog) (g\<lparr>g_icache := pp_icache prog\<rparr>)"

section \<open>The step and the run\<close>

definition golden_step :: "u64 \<Rightarrow> FetchedInstruction \<Rightarrow> GoldenModel \<Rightarrow> (u64 \<times> GoldenModel) option" where
  "golden_step pc i g =
    (let op = f_opcode i; d = f_dest_reg i; imm = f_imm i;
         s1 = g_readReg g (f_src1_reg i); s2 = g_readReg g (f_src2_reg i);
         nxt = pc + INSTR_SIZE in
     if iequals op ''ADD'' then Some (nxt, g_writeReg d (s1 + s2) g)
     else if iequals op ''SUB'' then Some (nxt, g_writeReg d (s1 - s2) g)
     else if iequals op ''MUL'' then Some (nxt, g_writeReg d (s1 * s2) g)
     else if iequals op ''DIV'' then
       (if s2 \<noteq> 0 then (case int_div s1 s2 of None \<Rightarrow> None | Some q \<Rightarrow> Some (nxt, g_writeReg d q g))
        else Some (nxt, g_writeReg d 0 g))
     else if iequals op ''ADDI'' then Some (nxt, g_writeReg d (s1 + imm) g)
     else if iequals op ''LOAD'' then Some (nxt, g_writeReg d (g_memRead g (s1 + imm)) g)
     else if iequals op ''STORE'' then Some (nxt, g_memWrite (s1 + imm) (g_readReg g d) g)
     else if iequals op ''BEQ'' then Some (if s1 = s2 then scast imm else nxt, g)
     else if iequals op ''BNE'' then Some (if s1 \<noteq> s2 then scast imm else nxt, g)
     else if iequals op ''CALL'' then
       Some (if imm \<noteq> 0 then scast imm else word_of_int (f_src1_reg i),
             g\<lparr>g_ras := g_ras g @ [pc + INSTR_SIZE]\<rparr>)
     else if iequals op ''RET'' then
       (if g_ras g \<noteq> [] then Some (last (g_ras g), g\<lparr>g_ras := butlast (g_ras g)\<rparr>)
        else Some (nxt, g))
     else Some (nxt, g))"

text \<open>The loop: \<open>n\<close> is \<open>max_steps - steps\<close>. The result is the pc it stops at, the steps and the state.\<close>

fun golden_loop :: "nat \<Rightarrow> u64 \<Rightarrow> nat \<Rightarrow> GoldenModel \<Rightarrow> (u64 \<times> nat \<times> GoldenModel) option" where
  "golden_loop n pc steps g =
    (case g_icache g pc of
       None \<Rightarrow> Some (pc, steps, g)
     | Some i \<Rightarrow>
        (case n of
           0 \<Rightarrow> Some (pc, steps, g\<lparr>g_hit_limit := True\<rparr>)
         | Suc m \<Rightarrow>
            (case golden_step pc i g of
               None \<Rightarrow> None
             | Some (pc', g') \<Rightarrow> golden_loop m pc' (steps + 1) g')))"

declare golden_loop.simps [simp del]

definition golden_run :: "u64 \<Rightarrow> nat \<Rightarrow> GoldenModel \<Rightarrow> (u64 \<times> nat \<times> GoldenModel) option" where
  "golden_run initial_pc max_steps g =
     golden_loop max_steps initial_pc 0 (g\<lparr>g_hit_limit := False\<rparr>)"

section \<open>The step relation of the instruction set\<close>

inductive gstep :: "u64 \<times> GoldenModel \<Rightarrow> u64 \<times> GoldenModel \<Rightarrow> bool" where
  gstep: "g_icache g pc = Some i \<Longrightarrow> golden_step pc i g = Some (pc', g') \<Longrightarrow> gstep (pc, g) (pc', g')"

inductive_cases gstepE: "gstep (pc, g) t"
inductive_simps gstep_iff: "gstep (pc, g) (pc', g')"

lemma gstep_det: "gstep s t \<Longrightarrow> gstep s t' \<Longrightarrow> t = t'"
  by (auto elim!: gstep.cases)

definition g_wf :: "GoldenModel \<Rightarrow> bool" where
  "g_wf g \<longleftrightarrow> length (g_arf g) = g_num_regs g \<and> (0 < g_num_regs g \<longrightarrow> g_arf g ! 0 = 0)"

text \<open>What a step may change of the state.\<close>

definition g_frame :: "GoldenModel \<Rightarrow> GoldenModel \<Rightarrow> bool" where
  "g_frame g g' \<longleftrightarrow> g_icache g' = g_icache g \<and> g_num_regs g' = g_num_regs g
     \<and> length (g_mem g') = length (g_mem g) \<and> length (g_arf g') = length (g_arf g)
     \<and> g_hit_limit g' = g_hit_limit g \<and> (g_wf g \<longrightarrow> g_wf g')"

lemma g_frame_refl [simp]: "g_frame g g"
  by (simp add: g_frame_def)

lemma g_frame_trans: "g_frame g h \<Longrightarrow> g_frame h k \<Longrightarrow> g_frame g k"
  by (simp add: g_frame_def)

lemma g_frame_writeReg [simp]: "g_frame g (g_writeReg r v g)"
  by (auto simp: g_frame_def g_writeReg_def g_wf_def nth_list_update)

lemma g_frame_memWrite [simp]: "g_frame g (g_memWrite a v g)"
  by (auto simp: g_frame_def g_memWrite_def g_wf_def)

lemma g_frame_ras [simp]: "g_frame g (g\<lparr>g_ras := r\<rparr>)"
  by (auto simp: g_frame_def g_wf_def)

lemma golden_step_frame_case:
  "case golden_step pc i g of None \<Rightarrow> True | Some (pc', g') \<Rightarrow> g_frame g g'"
  unfolding golden_step_def Let_def by (simp split: option.split)

lemma golden_step_frame: "golden_step pc i g = Some (pc', g') \<Longrightarrow> g_frame g g'"
  using golden_step_frame_case [of g pc i] by simp

lemma gstep_frame: "gstep (pc, g) (pc', g') \<Longrightarrow> g_frame g g'"
  by (auto simp: gstep_iff golden_step_frame)

lemma gstep_hit: "gstep (pc, g) (pc', g') \<Longrightarrow> g_hit_limit g' = g_hit_limit g"
  using gstep_frame by (auto simp: g_frame_def)

lemma gstep_pow_frame: "(gstep ^^ n) s t \<Longrightarrow> g_frame (snd s) (snd t)"
proof (induction n arbitrary: t)
  case (Suc n)
  then obtain u where u: "(gstep ^^ n) s u" "gstep u t" by auto
  then have "g_frame (snd u) (snd t)"
    using gstep_frame [of "fst u" "snd u" "fst t" "snd t"] by simp
  with Suc.IH [OF u(1)] show ?case by (rule g_frame_trans)
qed auto

lemma golden_loop_steps:
  "golden_loop n pc k g = Some (pc', k', g') \<Longrightarrow>
   \<exists>m h. m \<le> n \<and> k' = k + m \<and> (gstep ^^ m) (pc, g) (pc', h)
     \<and> (if g_icache g pc' = None then g' = h else m = n \<and> g' = h\<lparr>g_hit_limit := True\<rparr>)"
proof (induction n arbitrary: pc k g)
  case 0
  then show ?case
    by (auto simp: golden_loop.simps [of 0] split: option.splits)
next
  case (Suc n)
  show ?case
  proof (cases "g_icache g pc")
    case None
    then show ?thesis
      using Suc.prems by (intro exI [of _ 0] exI [of _ g]) (auto simp: golden_loop.simps [of "Suc n"])
  next
    case (Some i)
    with Suc.prems obtain pc1 g1 where s: "golden_step pc i g = Some (pc1, g1)"
        and l: "golden_loop n pc1 (k + 1) g1 = Some (pc', k', g')"
      by (auto simp: golden_loop.simps [of "Suc n"] split: option.splits)
    from Suc.IH [OF l] obtain m h where m: "m \<le> n" "k' = k + 1 + m"
        "(gstep ^^ m) (pc1, g1) (pc', h)"
        "if g_icache g1 pc' = None then g' = h else m = n \<and> g' = h\<lparr>g_hit_limit := True\<rparr>"
      by blast
    have "gstep (pc, g) (pc1, g1)" using Some s by (rule gstep)
    with m(3) have "(gstep ^^ Suc m) (pc, g) (pc', h)" by (metis relpowp_Suc_I2)
    moreover have "g_icache g1 = g_icache g"
      using golden_step_frame [OF s] by (simp add: g_frame_def)
    ultimately show ?thesis using m
      by (intro exI [of _ "Suc m"] exI [of _ h]) auto
  qed
qed

lemma golden_loop_complete:
  "(gstep ^^ m) (pc, g) (pc', h) \<Longrightarrow> g_icache g pc' = None \<Longrightarrow> m \<le> n \<Longrightarrow>
   golden_loop n pc k g = Some (pc', k + m, h)"
proof (induction m arbitrary: pc g n k)
  case 0
  then show ?case by (simp add: golden_loop.simps)
next
  case (Suc m)
  then obtain pc1 g1 where s: "gstep (pc, g) (pc1, g1)" and r: "(gstep ^^ m) (pc1, g1) (pc', h)"
    by (metis relpowp_Suc_D2 prod.collapse)
  from s obtain i where i: "g_icache g pc = Some i" "golden_step pc i g = Some (pc1, g1)"
    by (auto simp: gstep_iff)
  have "g_icache g1 = g_icache g"
    using gstep_frame [OF s] by (simp add: g_frame_def)
  moreover obtain n' where n: "n = Suc n'" using Suc.prems(3) by (cases n) auto
  ultimately have "golden_loop n' pc1 (k + 1) g1 = Some (pc', k + 1 + m, h)"
    using Suc.IH [OF r, of n' "k + 1"] Suc.prems by simp
  with i n show ?case by (simp add: golden_loop.simps [of "Suc n'"])
qed

lemma golden_step_None:
  "golden_step pc i g = None \<longleftrightarrow>
   iequals (f_opcode i) ''DIV'' \<and> g_readReg g (f_src1_reg i) = 0x80000000
     \<and> g_readReg g (f_src2_reg i) = 0xFFFFFFFF"
proof -
  have "iequals (f_opcode i) ''DIV'' \<Longrightarrow> \<not> iequals (f_opcode i) x"
    if "map tolower x \<noteq> map tolower ''DIV''" for x
    using that by (auto simp: iequals_iff)
  then have "iequals (f_opcode i) ''DIV'' \<Longrightarrow>
      \<not> iequals (f_opcode i) ''ADD'' \<and> \<not> iequals (f_opcode i) ''SUB'' \<and> \<not> iequals (f_opcode i) ''MUL''"
    by (simp add: tolower_def)
  then show ?thesis
    by (auto simp: golden_step_def Let_def int_div_def split: option.splits)
qed

lemma golden_loop_None:
  "golden_loop n pc k g = None \<longleftrightarrow>
   (\<exists>m < n. \<exists>pc' h i. (gstep ^^ m) (pc, g) (pc', h) \<and> g_icache g pc' = Some i \<and> golden_step pc' i h = None)"
proof (induction n arbitrary: pc k g)
  case 0
  then show ?case by (simp add: golden_loop.simps [of 0] split: option.splits)
next
  case (Suc n)
  let ?R = "\<lambda>m pc g. \<exists>pc' h i. (gstep ^^ m) (pc, g) (pc', h) \<and> g_icache g pc' = Some i \<and> golden_step pc' i h = None"
  have ex0: "(\<exists>m < Suc n. ?R m pc g) \<longleftrightarrow> ?R 0 pc g \<or> (\<exists>m < n. ?R (Suc m) pc g)"
    by (rule Ex_less_Suc2)
  show ?case
  proof (cases "g_icache g pc")
    case None
    then have "\<not> ?R (Suc m) pc g" for m
      by (metis gstepE option.distinct(1) prod.collapse relpowp_Suc_D2)
    moreover have "\<not> ?R 0 pc g" using None by simp
    ultimately show ?thesis unfolding ex0 using None by (simp add: golden_loop.simps [of "Suc n"] del: relpowp.simps)
  next
    case (Some i)
    show ?thesis
    proof (cases "golden_step pc i g")
      case None
      with Some have "?R 0 pc g" by simp
      with None Some show ?thesis unfolding ex0 by (simp add: golden_loop.simps [of "Suc n"] del: relpowp.simps)
    next
      case st: (Some r)
      obtain pc1 g1 where r: "r = (pc1, g1)" by (cases r)
      have ic: "g_icache g1 = g_icache g"
        using golden_step_frame st r by (simp add: g_frame_def)
      have step: "gstep (pc, g) t \<longleftrightarrow> t = (pc1, g1)" for t
        using Some st r by (cases t) (auto simp: gstep_iff)
      have "?R (Suc m) pc g \<longleftrightarrow> ?R m pc1 g1" for m
        unfolding relpowp_commute [symmetric, of m gstep] ic relpowp.simps
        by (auto simp: relcompp_apply step)
      moreover have "\<not> ?R 0 pc g" using Some st by simp
      ultimately show ?thesis
        unfolding ex0 using Some st r Suc.IH [of pc1 "k + 1" g1]
        by (simp add: golden_loop.simps [of "Suc n"])
    qed
  qed
qed

section \<open>Properties\<close>

text \<open>
  C10: the reference model returns without hitting its limit exactly when its instruction
  semantics leaves the program within \<open>max_steps\<close> steps, and it then returns the final state of
  that execution and its number of steps. The run therefore terminates with the right answer
  on every program that ends in time, and reports nothing else as ended.
\<close>

theorem golden_run_exact:
  "(golden_run pc0 max_steps g = Some (pc, k, g') \<and> \<not> g_hit_limit g') \<longleftrightarrow>
   (k \<le> max_steps \<and> (gstep ^^ k) (pc0, g\<lparr>g_hit_limit := False\<rparr>) (pc, g') \<and> g_icache g pc = None)"
  (is "?L \<longleftrightarrow> ?R")
proof
  assume ?L
  then obtain h where h: "k \<le> max_steps" "(gstep ^^ k) (pc0, g\<lparr>g_hit_limit := False\<rparr>) (pc, h)"
      "if g_icache g pc = None then g' = h else g' = h\<lparr>g_hit_limit := True\<rparr>" "\<not> g_hit_limit g'"
    using golden_loop_steps [of max_steps pc0 0 "g\<lparr>g_hit_limit := False\<rparr>" pc k g']
    by (auto simp: golden_run_def split: if_splits)
  then have "g_icache g pc = None" "g' = h" by (auto split: if_splits)
  with h show ?R by simp
next
  assume r: ?R
  then have "golden_run pc0 max_steps g = Some (pc, k, g')"
    using golden_loop_complete [of k pc0 "g\<lparr>g_hit_limit := False\<rparr>" pc g' max_steps 0]
    by (simp add: golden_run_def)
  moreover have "g_frame (g\<lparr>g_hit_limit := False\<rparr>) g'"
    using r gstep_pow_frame [of k "(pc0, g\<lparr>g_hit_limit := False\<rparr>)" "(pc, g')"] by simp
  ultimately show ?L by (simp add: g_frame_def)
qed

text \<open>
  C35: the reference model fails to return exactly when an execution of fewer than
  \<open>max_steps\<close> steps reaches a \<open>DIV\<close> of the most negative integer by \<open>-1\<close>, the one division the
  code does not guard (\<open>s2 != 0\<close> is its only check).
\<close>

theorem golden_run_trap:
  "golden_run pc0 max_steps g = None \<longleftrightarrow>
   (\<exists>m < max_steps. \<exists>pc h i. (gstep ^^ m) (pc0, g\<lparr>g_hit_limit := False\<rparr>) (pc, h) \<and> g_icache g pc = Some i
      \<and> iequals (f_opcode i) ''DIV'' \<and> g_readReg h (f_src1_reg i) = 0x80000000
      \<and> g_readReg h (f_src2_reg i) = 0xFFFFFFFF)"
  unfolding golden_run_def golden_loop_None by (simp add: golden_step_None)

text \<open>
  A run of the reference model keeps register zero at zero, the program unchanged, and the
  sizes of the register file and the memory, and stops after at most \<open>max_steps\<close>
  instructions; it stops inside the program only when it has used all of them.
\<close>

lemma golden_run_invariant:
  assumes "g_wf g" "golden_run pc0 max_steps g = Some (pc, k, g')"
  shows "g_wf g' \<and> g_readReg g' 0 = 0 \<and> g_icache g' = g_icache g
    \<and> length (g_mem g') = length (g_mem g) \<and> length (g_arf g') = length (g_arf g)
    \<and> k \<le> max_steps \<and> (g_hit_limit g' \<longleftrightarrow> g_icache g pc \<noteq> None)
    \<and> (g_hit_limit g' \<longrightarrow> k = max_steps)"
proof -
  let ?g = "g\<lparr>g_hit_limit := False\<rparr>"
  obtain h where h: "k \<le> max_steps" "(gstep ^^ k) (pc0, ?g) (pc, h)"
      "if g_icache g pc = None then g' = h else k = max_steps \<and> g' = h\<lparr>g_hit_limit := True\<rparr>"
    using golden_loop_steps [of max_steps pc0 0 ?g pc k g'] assms(2) by (auto simp: golden_run_def)
  have "g_frame ?g h" "g_wf ?g"
    using gstep_pow_frame [OF h(2)] assms(1) by (simp_all add: g_wf_def)
  with h(1,3) show ?thesis
    by (auto simp: g_frame_def g_wf_def g_readReg_def split: if_splits)
qed

text \<open>A three-instruction program: \<open>addi R1, R0, 5; add R2, R1, R1; STORE R2, 3(R0)\<close>.\<close>

definition demo_icache :: "u64 \<rightharpoonup> FetchedInstruction" where
  "demo_icache = [0x1000 \<mapsto> fetched0\<lparr>f_opcode := ''addi'', f_dest_reg := 1, f_imm := 5\<rparr>,
     0x1004 \<mapsto> fetched0\<lparr>f_opcode := ''ADD'', f_dest_reg := 2, f_src1_reg := 1, f_src2_reg := 1\<rparr>,
     0x1008 \<mapsto> fetched0\<lparr>f_opcode := ''STORE'', f_dest_reg := 2, f_imm := 3\<rparr>]"

definition demo_state :: GoldenModel where
  "demo_state = \<lparr>g_num_regs = 4, g_arf = [0, 0, 0, 0], g_mem = [0, 0, 0, 0, 0],
     g_icache = demo_icache, g_ras = [], g_hit_limit = False\<rparr>"

lemma demo_run:
  "golden_run 0x1000 10 demo_state
   = Some (0x100C, 3, demo_state\<lparr>g_arf := [0, 5, 10, 0], g_mem := [0, 0, 0, 10, 0]\<rparr>)"
  by code_simp

lemma golden_run_invariant_witness:
  "g_readReg (demo_state\<lparr>g_arf := [0, 5, 10, 0], g_mem := [0, 0, 0, 10, 0]\<rparr>) 0 = 0"
  using golden_run_invariant [OF _ demo_run] by (simp add: g_wf_def demo_state_def)

end
