(* ===== verification/Rename.thy ===== *)
theory Rename
  imports Types
begin

text \<open>
  Register renaming: the alias table of \<open>src/register_alias_table.cpp\<close> and its per-branch
  checkpoints of \<open>src/rat_checkpoints.cpp\<close>, with the protocol the processor runs on them
  (rename and checkpoint at dispatch, clear at commit, restore and scrub at a misprediction).
  The specification is the youngest in-flight writer of a register.
\<close>

section \<open>The alias table\<close>

record RegisterAliasTable =
  rat_map :: "tag option list"
  rat_num_logical_regs :: nat

definition rat_init :: "nat \<Rightarrow> RegisterAliasTable" where
  "rat_init n = \<lparr>rat_map = replicate n None, rat_num_logical_regs = n\<rparr>"

definition rat_lookup :: "RegisterAliasTable \<Rightarrow> int \<Rightarrow> tag option" where
  "rat_lookup t r = (if r < 0 \<or> int (rat_num_logical_regs t) \<le> r then None else rat_map t ! nat r)"

definition rat_rename :: "int \<Rightarrow> tag \<Rightarrow> RegisterAliasTable \<Rightarrow> RegisterAliasTable" where
  "rat_rename r rob_id t =
    (if 0 \<le> r \<and> r < int (rat_num_logical_regs t)
     then t\<lparr>rat_map := (rat_map t)[nat r := Some rob_id]\<rparr> else t)"

definition rat_commit :: "int \<Rightarrow> tag \<Rightarrow> RegisterAliasTable \<Rightarrow> RegisterAliasTable" where
  "rat_commit r rob_id t =
    (if 0 \<le> r \<and> r < int (rat_num_logical_regs t)
     then if rat_map t ! nat r = Some rob_id then t\<lparr>rat_map := (rat_map t)[nat r := None]\<rparr> else t
     else t)"

definition rat_getState :: "RegisterAliasTable \<Rightarrow> tag option list" where
  "rat_getState t = rat_map t"

definition rat_restoreState :: "tag option list \<Rightarrow> RegisterAliasTable \<Rightarrow> RegisterAliasTable" where
  "rat_restoreState st t =
    (if length st = rat_num_logical_regs t then t\<lparr>rat_map := st\<rparr> else t)"

definition scrub :: "tag list \<Rightarrow> tag option \<Rightarrow> tag option" where
  "scrub freed e = (case e of None \<Rightarrow> None | Some x \<Rightarrow> if x \<in> set freed then None else Some x)"

text \<open>Entry 0 is cleared first; the loop scrubs the entries from 1 on.\<close>

definition rat_restoreStateScrub ::
    "tag option list \<Rightarrow> tag list \<Rightarrow> RegisterAliasTable \<Rightarrow> RegisterAliasTable" where
  "rat_restoreStateScrub st freed t =
    (if length st \<noteq> rat_num_logical_regs t then t
     else t\<lparr>rat_map := (case st of [] \<Rightarrow> [] | _ # es \<Rightarrow> None # map (scrub freed) es)\<rparr>)"

section \<open>Checkpoints\<close>

record RatCheckpoints =
  ck_rob_depth :: nat
  ck_num_regs :: nat
  ck_valid :: "bool list"
  ck_maps :: "tag option list list"

definition ck_reset :: "RatCheckpoints \<Rightarrow> RatCheckpoints" where
  "ck_reset c = c\<lparr>ck_valid := replicate (ck_rob_depth c) False,
     ck_maps := replicate (ck_rob_depth c) (replicate (ck_num_regs c) None)\<rparr>"

definition ck_init :: "nat \<Rightarrow> nat \<Rightarrow> RatCheckpoints" where
  "ck_init depth regs = ck_reset \<lparr>ck_rob_depth = depth, ck_num_regs = regs, ck_valid = [], ck_maps = []\<rparr>"

definition ck_save :: "tag \<Rightarrow> tag option list \<Rightarrow> RatCheckpoints \<Rightarrow> RatCheckpoints option" where
  "ck_save t m c =
    (if t < ck_rob_depth c \<and> length m = ck_num_regs c
     then Some (c\<lparr>ck_valid := (ck_valid c)[t := True], ck_maps := (ck_maps c)[t := m]\<rparr>)
     else None)"

definition ck_restore :: "tag \<Rightarrow> RatCheckpoints \<Rightarrow> tag option list option" where
  "ck_restore t c =
    (if ck_rob_depth c \<le> t \<or> \<not> ck_valid c ! t then None else Some (ck_maps c ! t))"

text \<open>The clearing of one map: \<open>if (m[r] == id) m[r] = -1\<close>.\<close>

definition clear_entry :: "nat \<Rightarrow> tag \<Rightarrow> tag option list \<Rightarrow> tag option list" where
  "clear_entry r t m = (if m ! r = Some t then m[r := None] else m)"

definition ck_onCommitClear :: "int \<Rightarrow> tag \<Rightarrow> RatCheckpoints \<Rightarrow> RatCheckpoints" where
  "ck_onCommitClear r rob_id c =
    (if r \<le> 0 \<or> int (ck_num_regs c) \<le> r then c
     else c\<lparr>ck_maps := map (\<lambda>(v, m). if v then clear_entry (nat r) rob_id m else m)
            (zip (ck_valid c) (ck_maps c))\<rparr>)"

definition ck_invalidate :: "tag \<Rightarrow> RatCheckpoints \<Rightarrow> RatCheckpoints" where
  "ck_invalidate t c = (if t < ck_rob_depth c then c\<lparr>ck_valid := (ck_valid c)[t := False]\<rparr> else c)"

definition ck_invalidateAll :: "RatCheckpoints \<Rightarrow> RatCheckpoints" where
  "ck_invalidateAll c = c\<lparr>ck_valid := replicate (ck_rob_depth c) False\<rparr>"

definition ck_wf :: "RatCheckpoints \<Rightarrow> bool" where
  "ck_wf c \<longleftrightarrow> length (ck_valid c) = ck_rob_depth c \<and> length (ck_maps c) = ck_rob_depth c"

section \<open>The youngest writer of a register\<close>

text \<open>An in-flight instruction: its tag, its destination, whether it is a control transfer.\<close>

type_synonym flight = "tag \<times> int \<times> bool"

abbreviation ftag :: "flight \<Rightarrow> tag" where
  "ftag \<equiv> fst"

fun writer :: "nat \<Rightarrow> flight list \<Rightarrow> tag option" where
  "writer r [] = None"
| "writer r ((t, d, c) # w) =
    (case writer r w of Some x \<Rightarrow> Some x | None \<Rightarrow> if 0 < d \<and> d = int r then Some t else None)"

definition ratspec :: "nat \<Rightarrow> flight list \<Rightarrow> tag option list" where
  "ratspec n w = map (\<lambda>r. writer r w) [0..<n]"

lemma length_ratspec [simp]: "length (ratspec n w) = n"
  by (simp add: ratspec_def)

lemma nth_ratspec [simp]: "r < n \<Longrightarrow> ratspec n w ! r = writer r w"
  by (simp add: ratspec_def)

lemma writer_snoc:
  "writer r (w @ [(t, d, c)]) = (if 0 < d \<and> d = int r then Some t else writer r w)"
  by (induction w) (auto split: option.splits)

lemma writer_in: "writer r w = Some t \<Longrightarrow> t \<in> ftag ` set w"
  by (induction w) (auto split: option.splits if_splits)

lemma writer_0 [simp]: "writer 0 w = None"
  by (induction w) auto

lemma ratspec_skip: "\<not> (0 < d \<and> d < int n) \<Longrightarrow> ratspec n ((t, d, c) # w) = ratspec n w"
  by (auto simp: ratspec_def split: option.splits)

lemma ratspec_snoc_skip: "\<not> (0 < d \<and> d < int n) \<Longrightarrow> ratspec n (w @ [(t, d, c)]) = ratspec n w"
  by (auto simp: ratspec_def writer_snoc)

lemma ratspec_snoc:
  "0 < d \<Longrightarrow> d < int n \<Longrightarrow> (ratspec n w)[nat d := Some t] = ratspec n (w @ [(t, d, c)])"
  by (rule nth_equalityI) (auto simp: nth_list_update writer_snoc)

lemma clear_ratspec:
  assumes "0 < d" "d < int n" "t \<notin> ftag ` set w"
  shows "clear_entry (nat d) t (ratspec n ((t, d, c) # w)) = ratspec n w"
proof (rule nth_equalityI)
  fix i assume "i < length (clear_entry (nat d) t (ratspec n ((t, d, c) # w)))"
  then have "i < n" by (simp add: clear_entry_def split: if_splits)
  moreover have "writer (nat d) w \<noteq> Some t"
    using assms(3) writer_in by blast
  ultimately show "clear_entry (nat d) t (ratspec n ((t, d, c) # w)) ! i = ratspec n w ! i"
    using assms(1,2) by (auto simp: clear_entry_def nth_list_update split: option.splits)
qed (simp add: clear_entry_def)

lemma scrub_ratspec:
  assumes "set freed \<inter> ftag ` set w = {}"
  shows "(case ratspec n w of [] \<Rightarrow> [] | _ # es \<Rightarrow> None # map (scrub freed) es) = ratspec n w"
proof -
  have s: "scrub freed (writer r w) = writer r w" for r
    using assms writer_in by (fastforce simp: scrub_def split: option.splits)
  show ?thesis
  proof (cases n)
    case (Suc m)
    then have "ratspec n w = writer 0 w # map (\<lambda>r. writer r w) [1..<n]"
      unfolding ratspec_def by (subst upt_conv_Cons) simp_all
    with s show ?thesis by simp
  qed (simp add: ratspec_def)
qed

section \<open>The protocol\<close>

text \<open>
  What dispatch, commit and recovery do to the table and the checkpoints, for a window of
  in-flight instructions, oldest first. \<open>freed\<close> are the tags committed earlier in the cycle.
\<close>

record RenameSys =
  rn_rat :: RegisterAliasTable
  rn_ck :: RatCheckpoints
  rn_win :: "flight list"

definition rn_init :: "nat \<Rightarrow> nat \<Rightarrow> RenameSys" where
  "rn_init depth n = \<lparr>rn_rat = rat_init n, rn_ck = ck_init depth n, rn_win = []\<rparr>"

definition rn_dispatch :: "flight \<Rightarrow> RenameSys \<Rightarrow> RenameSys option" where
  "rn_dispatch f s = (case f of (t, d, ctrl) \<Rightarrow>
     (let r = (if 0 < d then rat_rename d t (rn_rat s) else rn_rat s) in
      do { c \<leftarrow> (if ctrl then ck_save t (rat_getState r) (rn_ck s) else Some (rn_ck s));
           Some \<lparr>rn_rat = r, rn_ck = c, rn_win = rn_win s @ [f]\<rparr> }))"

definition rn_commit :: "RenameSys \<Rightarrow> RenameSys option" where
  "rn_commit s = (case rn_win s of [] \<Rightarrow> None
     | (t, d, ctrl) # w \<Rightarrow>
        (let hit = 0 < d \<and> d < int (rat_num_logical_regs (rn_rat s));
             r = (if hit then rat_commit d t (rn_rat s) else rn_rat s);
             c = (if hit then ck_onCommitClear d t (rn_ck s) else rn_ck s) in
         Some \<lparr>rn_rat = r, rn_ck = (if ctrl then ck_invalidate t c else c), rn_win = w\<rparr>))"

definition rn_recover :: "tag list \<Rightarrow> nat \<Rightarrow> RenameSys \<Rightarrow> RenameSys option" where
  "rn_recover freed k s =
     (let kill = map ftag (drop (Suc k) (rn_win s)) in
      do { m \<leftarrow> ck_restore (ftag (rn_win s ! k)) (rn_ck s);
           Some \<lparr>rn_rat = rat_restoreStateScrub m (freed @ kill) (rn_rat s),
                 rn_ck = fold ck_invalidate kill (rn_ck s),
                 rn_win = take (Suc k) (rn_win s)\<rparr> })"

inductive rn_step :: "RenameSys \<Rightarrow> RenameSys \<Rightarrow> bool" where
  dispatch: "fst f < ck_rob_depth (rn_ck s) \<Longrightarrow> fst f \<notin> ftag ` set (rn_win s) \<Longrightarrow>
     rn_dispatch f s = Some s' \<Longrightarrow> rn_step s s'"
| commit: "rn_commit s = Some s' \<Longrightarrow> rn_step s s'"
| recover: "k < length (rn_win s) \<Longrightarrow> snd (snd (rn_win s ! k)) \<Longrightarrow>
     set freed \<inter> ftag ` set (take (Suc k) (rn_win s)) = {} \<Longrightarrow>
     rn_recover freed k s = Some s' \<Longrightarrow> rn_step s s'"

inductive rn_reach :: "nat \<Rightarrow> nat \<Rightarrow> RenameSys \<Rightarrow> bool" for depth n where
  start: "rn_reach depth n (rn_init depth n)"
| step: "rn_reach depth n s \<Longrightarrow> rn_step s s' \<Longrightarrow> rn_reach depth n s'"

definition rn_inv :: "nat \<Rightarrow> nat \<Rightarrow> RenameSys \<Rightarrow> bool" where
  "rn_inv depth n s \<longleftrightarrow>
     rat_num_logical_regs (rn_rat s) = n \<and> ck_num_regs (rn_ck s) = n
     \<and> ck_rob_depth (rn_ck s) = depth \<and> ck_wf (rn_ck s)
     \<and> distinct (map ftag (rn_win s)) \<and> (\<forall>f \<in> set (rn_win s). ftag f < depth)
     \<and> rat_map (rn_rat s) = ratspec n (rn_win s)
     \<and> (\<forall>k < length (rn_win s). snd (snd (rn_win s ! k)) \<longrightarrow>
          ck_restore (ftag (rn_win s ! k)) (rn_ck s) = Some (ratspec n (take (Suc k) (rn_win s))))"

subsection \<open>Checkpoint operations\<close>

lemma ck_restore_save:
  "ck_wf c \<Longrightarrow> ck_save t m c = Some c' \<Longrightarrow>
   ck_restore u c' = (if u = t then Some m else ck_restore u c)"
  by (auto simp: ck_save_def ck_restore_def ck_wf_def nth_list_update split: if_splits)

lemma ck_restore_invalidate:
  "ck_wf c \<Longrightarrow> ck_restore u (ck_invalidate t c) = (if u = t then None else ck_restore u c)"
  by (auto simp: ck_invalidate_def ck_restore_def ck_wf_def nth_list_update)

lemma ck_restore_clear:
  "ck_wf c \<Longrightarrow> 0 < d \<Longrightarrow> d < int (ck_num_regs c) \<Longrightarrow>
   ck_restore u (ck_onCommitClear d t c) = map_option (clear_entry (nat d) t) (ck_restore u c)"
  by (auto simp: ck_onCommitClear_def ck_restore_def ck_wf_def)

lemma ck_frame:
  "ck_wf c \<Longrightarrow> ck_wf (ck_invalidate t c) \<and> ck_rob_depth (ck_invalidate t c) = ck_rob_depth c
     \<and> ck_num_regs (ck_invalidate t c) = ck_num_regs c"
  "ck_wf c \<Longrightarrow> ck_wf (ck_onCommitClear d t c) \<and> ck_rob_depth (ck_onCommitClear d t c) = ck_rob_depth c
     \<and> ck_num_regs (ck_onCommitClear d t c) = ck_num_regs c"
  "ck_wf c \<Longrightarrow> ck_save t m c = Some c' \<Longrightarrow> ck_wf c' \<and> ck_rob_depth c' = ck_rob_depth c
     \<and> ck_num_regs c' = ck_num_regs c"
  by (auto simp: ck_wf_def ck_invalidate_def ck_onCommitClear_def ck_save_def split: if_splits)

lemma ck_invalidate_fold:
  "ck_wf c \<Longrightarrow> ck_wf (fold ck_invalidate ts c)
     \<and> ck_rob_depth (fold ck_invalidate ts c) = ck_rob_depth c
     \<and> ck_num_regs (fold ck_invalidate ts c) = ck_num_regs c
     \<and> (\<forall>u. u \<notin> set ts \<longrightarrow> ck_restore u (fold ck_invalidate ts c) = ck_restore u c)"
  by (induction ts arbitrary: c) (auto simp: ck_frame ck_restore_invalidate)

subsection \<open>The invariant\<close>

lemma rn_inv_init: "rn_inv depth n (rn_init depth n)"
  by (simp add: rn_inv_def rn_init_def rat_init_def ck_init_def ck_reset_def ck_wf_def ratspec_def
      map_replicate_const)

lemma rn_inv_dispatch:
  assumes inv: "rn_inv depth n s" and f: "ftag f < depth" "ftag f \<notin> ftag ` set (rn_win s)"
    and st: "rn_dispatch f s = Some s'"
  shows "rn_inv depth n s'"
proof -
  obtain t d ctrl where fe: "f = (t, d, ctrl)" by (cases f)
  define r where "r = (if 0 < d then rat_rename d t (rn_rat s) else rn_rat s)"
  have r: "rat_num_logical_regs r = n" "rat_map r = ratspec n (rn_win s @ [f])"
    using inv by (auto simp: r_def fe rn_inv_def rat_rename_def ratspec_snoc ratspec_snoc_skip)
  obtain c where c: "(if ctrl then ck_save t (rat_map r) (rn_ck s) else Some (rn_ck s)) = Some c"
      and s': "s' = \<lparr>rn_rat = r, rn_ck = c, rn_win = rn_win s @ [f]\<rparr>"
    using st by (auto simp: rn_dispatch_def fe Let_def r_def [symmetric] rat_getState_def bind_eq_Some_conv
        split: if_splits)
  have cf: "ck_wf c" "ck_rob_depth c = depth" "ck_num_regs c = n"
    using c inv ck_frame(3) [of "rn_ck s" t "rat_map r" c] by (auto simp: rn_inv_def split: if_splits)
  have ck: "ck_restore u c = (if ctrl \<and> u = t then Some (ratspec n (rn_win s @ [f])) else ck_restore u (rn_ck s))" for u
    using c inv ck_restore_save [of "rn_ck s" t "rat_map r" c u] r(2) by (auto simp: rn_inv_def split: if_splits)
  have "ck_restore (ftag ((rn_win s @ [f]) ! k)) c = Some (ratspec n (take (Suc k) (rn_win s @ [f])))"
    if k: "k < Suc (length (rn_win s))" "snd (snd ((rn_win s @ [f]) ! k))" for k
  proof (cases "k < length (rn_win s)")
    case True
    then have "ftag (rn_win s ! k) \<noteq> t" using f(2) fe by force
    then show ?thesis using True k(2) inv by (simp add: ck nth_append rn_inv_def)
  next
    case False
    with k have "k = length (rn_win s)" by simp
    with k(2) show ?thesis by (simp add: ck fe)
  qed
  then show ?thesis using inv f r cf by (auto simp: rn_inv_def s' image_iff)
qed

lemma rn_inv_commit:
  assumes inv: "rn_inv depth n s" and st: "rn_commit s = Some s'"
  shows "rn_inv depth n s'"
proof -
  obtain t d ctrl w where w: "rn_win s = (t, d, ctrl) # w"
    using st by (auto simp: rn_commit_def split: list.splits)
  define hit where "hit \<longleftrightarrow> 0 < d \<and> d < int n"
  define r where "r = (if hit then rat_commit d t (rn_rat s) else rn_rat s)"
  define c where "c = (if hit then ck_onCommitClear d t (rn_ck s) else rn_ck s)"
  have s': "s' = \<lparr>rn_rat = r, rn_ck = (if ctrl then ck_invalidate t c else c), rn_win = w\<rparr>"
  proof -
    have "rat_num_logical_regs (rn_rat s) = n" using inv by (simp add: rn_inv_def)
    then show ?thesis
      using st by (auto simp: rn_commit_def w Let_def c_def r_def hit_def)
  qed
  have fresh: "t \<notin> ftag ` set w" using inv w by (simp add: rn_inv_def)
  have r: "rat_num_logical_regs r = n" "rat_map r = ratspec n w"
    using inv clear_ratspec [of d n t w ctrl] ratspec_skip [of d n t ctrl w] fresh
    by (auto simp: r_def hit_def w rn_inv_def rat_commit_def clear_entry_def)
  have cf: "ck_wf c" "ck_rob_depth c = depth" "ck_num_regs c = n"
    using inv by (auto simp: c_def rn_inv_def ck_frame)
  have "ck_restore (ftag (w ! k)) (if ctrl then ck_invalidate t c else c) = Some (ratspec n (take (Suc k) w))"
    if k: "k < length w" "snd (snd (w ! k))" for k
  proof -
    have "ftag (w ! k) \<noteq> t" using fresh k(1) by force
    moreover have "ck_restore (ftag (w ! k)) (rn_ck s) = Some (ratspec n ((t, d, ctrl) # take (Suc k) w))"
      using inv k w unfolding rn_inv_def by (auto dest!: spec [of _ "Suc k"])
    moreover have "t \<notin> ftag ` set (take (Suc k) w)"
      using fresh set_take_subset [of "Suc k" w] by blast
    ultimately show ?thesis
      using inv clear_ratspec [of d n t "take (Suc k) w" ctrl] ratspec_skip [of d n t ctrl "take (Suc k) w"] cf
      by (auto simp: ck_restore_invalidate c_def hit_def ck_restore_clear rn_inv_def)
  qed
  then show ?thesis using inv w r cf by (simp add: rn_inv_def s' ck_frame)
qed

lemma rn_inv_recover:
  assumes inv: "rn_inv depth n s" and k: "k < length (rn_win s)" "snd (snd (rn_win s ! k))"
    and fr: "set freed \<inter> ftag ` set (take (Suc k) (rn_win s)) = {}"
    and st: "rn_recover freed k s = Some s'"
  shows "rn_inv depth n s'"
proof -
  let ?p = "take (Suc k) (rn_win s)" and ?kill = "map ftag (drop (Suc k) (rn_win s))"
  have d: "distinct (map ftag ?p @ ?kill)"
    using inv unfolding map_append [symmetric] append_take_drop_id by (simp add: rn_inv_def)
  then have disj: "set ?kill \<inter> ftag ` set ?p = {}"
    unfolding distinct_append set_map by blast
  have m: "ck_restore (ftag (rn_win s ! k)) (rn_ck s) = Some (ratspec n ?p)"
    using inv k by (simp add: rn_inv_def)
  have s': "s' = \<lparr>rn_rat = rat_restoreStateScrub (ratspec n ?p) (freed @ ?kill) (rn_rat s),
      rn_ck = fold ck_invalidate ?kill (rn_ck s), rn_win = ?p\<rparr>"
    using st m by (simp add: rn_recover_def Let_def)
  have "rat_map (rn_rat s') = ratspec n ?p" "rat_num_logical_regs (rn_rat s') = n"
    using inv scrub_ratspec [of "freed @ ?kill" ?p n] fr disj
    by (auto simp: s' rat_restoreStateScrub_def rn_inv_def)
  moreover have "ck_restore (ftag (?p ! j)) (fold ck_invalidate ?kill (rn_ck s)) = Some (ratspec n (take (Suc j) ?p))"
    if j: "j < length ?p" "snd (snd (?p ! j))" for j
  proof -
    have jk: "j < Suc k" using j(1) by simp
    then have e: "?p ! j = rn_win s ! j" "take (Suc j) ?p = take (Suc j) (rn_win s)"
      by (simp_all add: min_def)
    have "ftag (?p ! j) \<notin> set ?kill" using disj j(1) nth_mem by blast
    moreover have "ck_restore (ftag (rn_win s ! j)) (rn_ck s) = Some (ratspec n (take (Suc j) (rn_win s)))"
      using inv j e(1) by (simp add: rn_inv_def)
    ultimately show ?thesis
      unfolding e using ck_invalidate_fold [of "rn_ck s" ?kill] inv by (simp add: rn_inv_def)
  qed
  ultimately show ?thesis
    using inv d ck_invalidate_fold [of "rn_ck s" ?kill] by (auto simp: rn_inv_def s' dest: in_set_takeD)
qed

lemma rn_reach_inv: "rn_reach depth n s \<Longrightarrow> rn_inv depth n s"
proof (induction rule: rn_reach.induct)
  case start
  show ?case by (rule rn_inv_init)
next
  case (step s s')
  from step(2) step(3) show ?case
  proof cases
    case (dispatch f)
    moreover have "ck_rob_depth (rn_ck s) = depth" using step(3) by (simp add: rn_inv_def)
    ultimately show ?thesis using rn_inv_dispatch [OF step(3), of f s'] by simp
  next
    case commit
    then show ?thesis by (rule rn_inv_commit [OF step(3)])
  next
    case (recover k freed)
    then show ?thesis using rn_inv_recover [OF step(3), of k freed s'] by simp
  qed
qed

lemma rn_recover_some:
  assumes inv: "rn_inv depth n s" and k: "k < length (rn_win s)" "snd (snd (rn_win s ! k))"
    and fr: "set freed \<inter> ftag ` set (take (Suc k) (rn_win s)) = {}"
  shows "\<exists>s'. rn_recover freed k s = Some s' \<and> rn_inv depth n s' \<and> rn_win s' = take (Suc k) (rn_win s)"
proof -
  obtain s' where s': "rn_recover freed k s = Some s'" "rn_win s' = take (Suc k) (rn_win s)"
    using inv k by (simp add: rn_recover_def rn_inv_def Let_def)
  with rn_inv_recover [OF inv k fr s'(1)] show ?thesis by blast
qed

lemma rn_rat_unique:
  "rn_inv depth n s \<Longrightarrow> rn_inv depth n s' \<Longrightarrow> rn_win s = rn_win s' \<Longrightarrow> rn_rat s = rn_rat s'"
  by (simp add: rn_inv_def)

section \<open>Properties\<close>

text \<open>
  C21: in every reachable state the alias table maps a register to its youngest in-flight
  writer, and to the register file when no writer is in flight: renaming never loses a
  dependence, and no entry names a tag that has left the window.
\<close>

theorem rename_youngest_writer:
  assumes "rn_reach depth n s" "0 < r" "r < int n"
  shows "rat_lookup (rn_rat s) r = writer (nat r) (rn_win s)
    \<and> (\<forall>t. rat_lookup (rn_rat s) r = Some t \<longrightarrow> t \<in> ftag ` set (rn_win s))
    \<and> (rat_lookup (rn_rat s) r = None \<longrightarrow> (\<forall>(t, d, c) \<in> set (rn_win s). d \<noteq> r))"
proof -
  have l: "rat_lookup (rn_rat s) r = writer (nat r) (rn_win s)"
    using rn_reach_inv [OF assms(1)] assms(2,3) by (simp add: rat_lookup_def rn_inv_def)
  have "writer (nat r) w = None \<Longrightarrow> (\<forall>(t, d, c) \<in> set w. d \<noteq> r)" for w
    using assms(2) by (induction w) (auto split: option.splits if_splits)
  with l writer_in show ?thesis by auto
qed

text \<open>
  C6: recovery at an in-flight control instruction always finds its checkpoint and gives the
  table of the surviving prefix, scrubbed or not, whatever committed since the checkpoint was
  taken: every register maps to its youngest writer among the survivors.
\<close>

theorem rename_recovery:
  assumes "rn_reach depth n s" "k < length (rn_win s)" "snd (snd (rn_win s ! k))"
    and "set freed \<inter> ftag ` set (take (Suc k) (rn_win s)) = {}"
  shows "\<exists>s'. rn_recover freed k s = Some s' \<and> rn_win s' = take (Suc k) (rn_win s)
    \<and> rat_getState (rn_rat s') = ratspec n (take (Suc k) (rn_win s))"
  using rn_recover_some [OF rn_reach_inv [OF assms(1)] assms(2-4)]
  by (auto simp: rn_inv_def rat_getState_def)

text \<open>
  A wrong path leaves no trace: recovering at the last instruction of an earlier reachable
  state, after any younger instructions were renamed, gives back that state's alias table.
\<close>

lemma wrong_path_undone:
  assumes "rn_reach depth n s" "rn_win s \<noteq> []" "snd (snd (last (rn_win s)))"
    and "rn_reach depth n s1" "rn_win s1 = rn_win s @ younger"
  shows "\<exists>s2. rn_recover [] (length (rn_win s) - 1) s1 = Some s2 \<and> rn_rat s2 = rn_rat s
    \<and> rn_win s2 = rn_win s"
proof -
  let ?k = "length (rn_win s) - 1"
  have "Suc ?k = length (rn_win s)" "?k < length (rn_win s1)" "rn_win s1 ! ?k = last (rn_win s)"
    using assms(2,5) by (cases "rn_win s"; simp add: nth_append last_conv_nth)+
  then obtain s2 where "rn_recover [] ?k s1 = Some s2" "rn_inv depth n s2" "rn_win s2 = rn_win s"
    using rn_recover_some [OF rn_reach_inv [OF assms(4)], of ?k "[]"] assms(2,3,5) by auto
  with rn_rat_unique rn_reach_inv [OF assms(1)] show ?thesis by blast
qed

text \<open>A run: \<open>R1\<close> renamed to tag 0, a branch with tag 1 checkpointed, \<open>R1\<close> renamed to tag 2.\<close>

definition rn_demo :: "RenameSys" where
  "rn_demo = the (rn_dispatch (1, 0, True) (the (rn_dispatch (0, 1, False) (rn_init 4 3))))"

definition rn_demo2 :: "RenameSys" where
  "rn_demo2 = the (rn_dispatch (2, 1, False) rn_demo)"

lemmas rn_demo_defs = rn_demo_def rn_demo2_def rn_dispatch_def rn_init_def rat_init_def ck_init_def
  ck_reset_def rat_rename_def ck_save_def rat_getState_def

lemma rn_demo_reach: "rn_reach 4 3 rn_demo" "rn_reach 4 3 rn_demo2"
proof -
  have "rn_reach 4 3 (the (rn_dispatch (0, 1, False) (rn_init 4 3)))"
    by (rule rn_reach.step [OF rn_reach.start], rule rn_step.dispatch [of "(0, 1, False)"])
      (simp_all add: rn_demo_defs numeral_eq_Suc)
  then show d: "rn_reach 4 3 rn_demo"
    by (rule rn_reach.step, intro rn_step.dispatch [of "(1, 0, True)"])
      (simp_all add: rn_demo_defs numeral_eq_Suc)
  show "rn_reach 4 3 rn_demo2"
    by (rule rn_reach.step [OF d], rule rn_step.dispatch [of "(2, 1, False)"])
      (simp_all add: rn_demo_defs numeral_eq_Suc)
qed

lemma rename_youngest_writer_witness: "rat_lookup (rn_rat rn_demo2) 1 = Some 2"
  using rename_youngest_writer [OF rn_demo_reach(2), of 1] by (simp add: rn_demo_defs numeral_eq_Suc)

lemma rename_recovery_witness:
  "\<exists>s'. rn_recover [3] 1 rn_demo2 = Some s' \<and> rat_getState (rn_rat s') = [None, Some 0, None]"
  using rename_recovery [OF rn_demo_reach(2), of 1 "[3]"]
  by (auto simp add: rn_demo_defs numeral_eq_Suc ratspec_def)

lemma wrong_path_undone_witness:
  "\<exists>s2. rn_recover [] 1 rn_demo2 = Some s2 \<and> rn_rat s2 = rn_rat rn_demo"
  using wrong_path_undone [OF rn_demo_reach(1) _ _ rn_demo_reach(2), of "[(2, 1, False)]"]
  by (auto simp add: rn_demo_defs numeral_eq_Suc)

end
