(* ===== verification/ReturnAddressStack.thy ===== *)
theory ReturnAddressStack
  imports Types
begin

text \<open>
  The return-address stack of \<open>src/return_address_stack.cpp\<close>: a circular buffer that forgets
  its oldest entry when it is full. It refines a stack of bounded depth, and its predictions
  agree with an unbounded call stack wherever it makes one.
\<close>

section \<open>State and operations\<close>

record ReturnAddressStack =
  ras_stack :: "u64 list"
  ras_capacity :: nat
  ras_tos :: nat
  ras_count :: nat

definition ras_init :: "nat \<Rightarrow> ReturnAddressStack" where
  "ras_init sz = \<lparr>ras_stack = replicate sz 0, ras_capacity = sz, ras_tos = 0, ras_count = 0\<rparr>"

definition ras_push :: "u64 \<Rightarrow> ReturnAddressStack \<Rightarrow> ReturnAddressStack" where
  "ras_push return_pc s = s\<lparr>ras_stack := (ras_stack s)[ras_tos s := return_pc],
     ras_tos := (ras_tos s + 1) mod ras_capacity s,
     ras_count := (if ras_count s < ras_capacity s then ras_count s + 1 else ras_count s)\<rparr>"

text \<open>\<open>(tos - 1 + capacity) % capacity\<close>, with \<open>tos\<close> below \<open>capacity\<close>.\<close>

definition ras_below :: "ReturnAddressStack \<Rightarrow> nat" where
  "ras_below s = (ras_tos s + ras_capacity s - 1) mod ras_capacity s"

definition ras_pop :: "ReturnAddressStack \<Rightarrow> (u64 \<times> ReturnAddressStack) option" where
  "ras_pop s = (if ras_count s = 0 then None
     else Some (ras_stack s ! ras_below s, s\<lparr>ras_tos := ras_below s, ras_count := ras_count s - 1\<rparr>))"

definition ras_peek :: "ReturnAddressStack \<Rightarrow> u64 option" where
  "ras_peek s = (if ras_count s = 0 then None else Some (ras_stack s ! ras_below s))"

definition ras_restoreState :: "nat \<Rightarrow> nat \<Rightarrow> ReturnAddressStack \<Rightarrow> ReturnAddressStack" where
  "ras_restoreState tos cnt s = s\<lparr>ras_tos := tos, ras_count := cnt\<rparr>"

text \<open>The saved prefix is copied over a zeroed vector of the capacity.\<close>

definition ras_restoreFull :: "nat \<Rightarrow> nat \<Rightarrow> u64 list \<Rightarrow> ReturnAddressStack \<Rightarrow> ReturnAddressStack" where
  "ras_restoreFull tos cnt saved s =
    s\<lparr>ras_tos := tos, ras_count := cnt,
      ras_stack := take (ras_capacity s) saved @ replicate (ras_capacity s - length saved) 0\<rparr>"

definition ras_getSnapshot :: "ReturnAddressStack \<Rightarrow> nat \<times> nat" where
  "ras_getSnapshot s = (ras_tos s, ras_count s)"

definition ras_getFullSnapshot :: "ReturnAddressStack \<Rightarrow> nat \<times> nat \<times> u64 list" where
  "ras_getFullSnapshot s = (ras_tos s, ras_count s, ras_stack s)"

section \<open>Refinement of a bounded stack\<close>

definition ras_wf :: "ReturnAddressStack \<Rightarrow> bool" where
  "ras_wf s \<longleftrightarrow> 0 < ras_capacity s \<and> length (ras_stack s) = ras_capacity s
     \<and> ras_tos s < ras_capacity s \<and> ras_count s \<le> ras_capacity s"

text \<open>The entries, the most recent first.\<close>

definition ras_entries :: "ReturnAddressStack \<Rightarrow> u64 list" where
  "ras_entries s = map (\<lambda>i. ras_stack s ! ((ras_tos s + ras_capacity s - 1 - i) mod ras_capacity s))
     [0..<ras_count s]"

lemma length_ras_entries [simp]: "length (ras_entries s) = ras_count s"
  by (simp add: ras_entries_def)

lemma ras_wf_init [simp]: "0 < n \<Longrightarrow> ras_wf (ras_init n)"
  by (simp add: ras_wf_def ras_init_def)

lemma ras_entries_init [simp]: "ras_entries (ras_init n) = []"
  by (simp add: ras_entries_def ras_init_def)

lemma ras_wf_push [simp]: "ras_wf s \<Longrightarrow> ras_wf (ras_push a s)"
  by (auto simp: ras_wf_def ras_push_def)

lemma ras_capacity_push [simp]: "ras_capacity (ras_push a s) = ras_capacity s"
  by (simp add: ras_push_def)

lemma ras_count_push: "ras_wf s \<Longrightarrow> ras_count (ras_push a s) = min (Suc (ras_count s)) (ras_capacity s)"
  by (auto simp: ras_push_def ras_wf_def)

text \<open>The slot of the entry at depth \<open>i\<close> after a push.\<close>

lemma ras_slot_after_push:
  fixes tos cap i :: nat
  assumes "tos < cap" "i < cap"
  shows "((tos + 1) mod cap + cap - 1 - i) mod cap = (if i = 0 then tos else (tos + cap - 1 - (i - 1)) mod cap)"
proof (cases "tos + 1 < cap")
  case True
  with assms show ?thesis by (cases i) auto
next
  case False
  with assms have "tos + 1 = cap" by simp
  with assms show ?thesis by (cases i) (auto simp: mod_if)
qed

lemma ras_slot_neq:
  fixes tos cap i :: nat
  assumes "tos < cap" "Suc i < cap"
  shows "(tos + cap - 1 - i) mod cap \<noteq> tos"
  using assms by (auto simp: mod_if)

lemma ras_entries_push:
  assumes wf: "ras_wf s"
  shows "ras_entries (ras_push a s) = take (ras_capacity s) (a # ras_entries s)"
proof (rule nth_equalityI)
  show "length (ras_entries (ras_push a s)) = length (take (ras_capacity s) (a # ras_entries s))"
    using wf by (auto simp: ras_push_def ras_wf_def)
next
  fix i assume "i < length (ras_entries (ras_push a s))"
  then have i: "i < ras_capacity s" "i < Suc (ras_count s)" "i < ras_count (ras_push a s)"
    using wf by (auto simp: ras_push_def ras_wf_def split: if_splits)
  have "ras_entries (ras_push a s) ! i
      = (ras_stack s)[ras_tos s := a] ! (if i = 0 then ras_tos s
          else (ras_tos s + ras_capacity s - 1 - (i - 1)) mod ras_capacity s)"
    using i wf ras_slot_after_push [of "ras_tos s" "ras_capacity s" i]
    by (simp add: ras_entries_def ras_push_def ras_wf_def)
  also have "\<dots> = (a # ras_entries s) ! i"
  proof (cases i)
    case 0
    then show ?thesis using wf by (simp add: ras_wf_def)
  next
    case (Suc j)
    with i wf have "(ras_tos s + ras_capacity s - 1 - j) mod ras_capacity s \<noteq> ras_tos s"
      using ras_slot_neq [of "ras_tos s" "ras_capacity s" j] by (simp add: ras_wf_def)
    with Suc i show ?thesis by (simp add: ras_entries_def)
  qed
  finally show "ras_entries (ras_push a s) ! i = take (ras_capacity s) (a # ras_entries s) ! i"
    using i by simp
qed

lemma ras_pop_refines:
  assumes wf: "ras_wf s"
  shows "(case ras_pop s of None \<Rightarrow> ras_entries s = []
     | Some (a, s') \<Rightarrow> ras_entries s = a # ras_entries s' \<and> ras_wf s' \<and> ras_capacity s' = ras_capacity s)"
proof (cases "ras_count s")
  case 0
  then show ?thesis by (simp add: ras_pop_def ras_entries_def)
next
  case (Suc n)
  have slot: "(ras_tos s + ras_capacity s - 1 - Suc i) mod ras_capacity s
      = (ras_below s + ras_capacity s - 1 - i) mod ras_capacity s" if "i < n" for i
    using that wf Suc by (auto simp: ras_below_def ras_wf_def mod_if)
  have "ras_entries s = ras_stack s ! ras_below s # ras_entries (s\<lparr>ras_tos := ras_below s, ras_count := n\<rparr>)"
    using slot by (simp add: ras_entries_def Suc ras_below_def upt_conv_Cons map_Suc_upt [symmetric]
        del: upt_Suc)
  moreover have "ras_below s < ras_capacity s"
    using wf by (simp add: ras_below_def ras_wf_def)
  ultimately show ?thesis using wf Suc by (simp add: ras_pop_def ras_wf_def)
qed

lemma ras_peek_entries: "ras_peek s = (case ras_entries s of [] \<Rightarrow> None | a # _ \<Rightarrow> Some a)"
  by (cases "ras_count s")
    (simp_all add: ras_peek_def ras_entries_def ras_below_def upt_conv_Cons del: upt_Suc)

lemma ras_restore_snapshot:
  "ras_wf s \<Longrightarrow> ras_capacity t = ras_capacity s \<Longrightarrow>
   (case ras_getFullSnapshot s of (tos, cnt, st) \<Rightarrow> ras_restoreFull tos cnt st t) = s"
  by (simp add: ras_getFullSnapshot_def ras_restoreFull_def ras_wf_def)

section \<open>Runs against an unbounded stack\<close>

datatype ras_op = Push u64 | Pop

fun ras_run :: "ras_op list \<Rightarrow> ReturnAddressStack \<Rightarrow> u64 option list \<times> ReturnAddressStack" where
  "ras_run [] s = ([], s)"
| "ras_run (Push a # ops) s = ras_run ops (ras_push a s)"
| "ras_run (Pop # ops) s =
    (case ras_pop s of
       None \<Rightarrow> (case ras_run ops s of (os, s') \<Rightarrow> (None # os, s'))
     | Some (a, s1) \<Rightarrow> (case ras_run ops s1 of (os, s') \<Rightarrow> (Some a # os, s')))"

fun stk_run :: "ras_op list \<Rightarrow> u64 list \<Rightarrow> u64 option list \<times> u64 list" where
  "stk_run [] st = ([], st)"
| "stk_run (Push a # ops) st = stk_run ops (a # st)"
| "stk_run (Pop # ops) [] = (case stk_run ops [] of (os, st') \<Rightarrow> (None # os, st'))"
| "stk_run (Pop # ops) (a # st) = (case stk_run ops st of (os, st') \<Rightarrow> (Some a # os, st'))"

text \<open>The deepest the unbounded stack gets.\<close>

fun stk_depth :: "ras_op list \<Rightarrow> nat \<Rightarrow> nat" where
  "stk_depth [] n = n"
| "stk_depth (Push a # ops) n = max n (stk_depth ops (Suc n))"
| "stk_depth (Pop # ops) n = max n (stk_depth ops (n - 1))"

lemma ras_run_sound:
  "ras_wf s \<Longrightarrow> ras_entries s = take (ras_count s) st \<Longrightarrow>
   list_all2 (\<lambda>p q. p = None \<or> p = q) (fst (ras_run ops s)) (fst (stk_run ops st))"
proof (induction ops arbitrary: s st)
  case (Cons x ops)
  show ?case
  proof (cases x)
    case (Push a)
    have "ras_entries (ras_push a s) = take (ras_capacity s) (a # take (ras_count s) st)"
      using Cons.prems by (simp add: ras_entries_push)
    then have "ras_entries (ras_push a s) = take (ras_count (ras_push a s)) (a # st)"
      using ras_count_push [OF Cons.prems(1), of a] Cons.prems(1)
      by (cases "ras_capacity s") (simp_all add: ras_wf_def min.commute)
    with Cons show ?thesis by (simp add: Push)
  next
    case Pop
    note r = ras_pop_refines [OF Cons.prems(1)]
    show ?thesis
    proof (cases "ras_pop s")
      case None
      then have "ras_count s = 0" by (simp add: ras_pop_def split: if_splits)
      then have "list_all2 (\<lambda>p q. p = None \<or> p = q) (fst (ras_run ops s)) (fst (stk_run ops (tl st)))"
        using Cons by simp
      with None show ?thesis
        by (cases st) (auto simp: Pop split: prod.splits)
    next
      case (Some r)
      obtain a s1 where r1: "r = (a, s1)" by (cases r)
      with Some r Cons.prems obtain st1 where st: "st = a # st1"
        by (cases st; cases "ras_count s") auto
      have "ras_entries s = a # ras_entries s1" "ras_wf s1" using r Some r1 by auto
      moreover have "ras_count s = Suc (ras_count s1)"
        using Some r1 by (auto simp: ras_pop_def split: if_splits)
      ultimately have "ras_entries s1 = take (ras_count s1) st1"
        using Cons.prems st by simp
      with \<open>ras_wf s1\<close> Cons.IH [of s1 st1] show ?thesis
        by (simp add: Pop Some r1 st case_prod_beta)
    qed
  qed
qed simp

lemma ras_run_complete:
  "ras_wf s \<Longrightarrow> ras_entries s = st \<Longrightarrow> stk_depth ops (length st) \<le> ras_capacity s \<Longrightarrow>
   fst (ras_run ops s) = fst (stk_run ops st)"
proof (induction ops arbitrary: s st)
  case (Cons x ops)
  show ?case
  proof (cases x)
    case (Push a)
    have le: "Suc (length st) \<le> stk_depth ops (Suc (length st))" for st :: "u64 list"
      by (cases ops; cases "hd ops") auto
    have "ras_entries (ras_push a s) = a # st"
      using Cons.prems le [of st] by (simp add: ras_entries_push Push)
    with Cons show ?thesis by (simp add: Push)
  next
    case Pop
    note r = ras_pop_refines [OF Cons.prems(1)]
    with Cons show ?thesis
      by (cases st; cases "ras_pop s") (auto simp: Pop case_prod_beta)
  qed
qed simp

section \<open>Properties\<close>

text \<open>
  C23: over any sequence of calls and returns the return-address stack predicts either nothing
  or exactly the target of an unbounded call stack, however often it overflowed; and while
  the nesting never exceeds its capacity it predicts every return.
\<close>

theorem ras_predictions:
  assumes "0 < cap"
  shows "list_all2 (\<lambda>p q. p = None \<or> p = q) (fst (ras_run ops (ras_init cap))) (fst (stk_run ops []))
    \<and> (stk_depth ops 0 \<le> cap \<longrightarrow> fst (ras_run ops (ras_init cap)) = fst (stk_run ops []))"
proof -
  have "ras_capacity (ras_init cap) = cap" by (simp add: ras_init_def)
  then show ?thesis
    using assms ras_run_sound [of "ras_init cap" "[]" ops] ras_run_complete [of "ras_init cap" "[]" ops]
    by simp
qed

lemma ras_predictions_witness:
  "fst (ras_run [Push 4, Push 8, Push 12, Pop, Pop, Pop] (ras_init 2)) = [Some 12, Some 8, None]
   \<and> list_all2 (\<lambda>p q. p = None \<or> p = q)
       (fst (ras_run [Push 4, Push 8, Push 12, Pop, Pop, Pop] (ras_init 2))) [Some 12, Some 8, Some 4]"
  using ras_predictions [of 2 "[Push 4, Push 8, Push 12, Pop, Pop, Pop]"]
  by (simp add: ras_init_def ras_push_def ras_pop_def ras_below_def numeral_eq_Suc)

text \<open>
  C24: the circular buffer refines a stack of bounded depth: a push puts the address on top and
  drops the bottom entry when the stack is full, a pop and a peek give the top, and restoring
  a full snapshot restores the stack exactly.
\<close>

theorem ras_refines_bounded_stack:
  assumes "ras_wf s"
  shows "ras_wf (ras_push a s) \<and> ras_entries (ras_push a s) = take (ras_capacity s) (a # ras_entries s)
    \<and> map_option (\<lambda>(x, s'). (x, ras_entries s')) (ras_pop s)
        = (case ras_entries s of [] \<Rightarrow> None | x # xs \<Rightarrow> Some (x, xs))
    \<and> ras_peek s = map_option fst (ras_pop s)
    \<and> (\<forall>t. ras_capacity t = ras_capacity s \<longrightarrow>
         (case ras_getFullSnapshot s of (tos, cnt, st) \<Rightarrow> ras_restoreFull tos cnt st t) = s)"
proof -
  have "map_option (\<lambda>(x, s'). (x, ras_entries s')) (ras_pop s)
        = (case ras_entries s of [] \<Rightarrow> None | x # xs \<Rightarrow> Some (x, xs))"
    using ras_pop_refines [OF assms] by (cases "ras_pop s") auto
  moreover have "ras_peek s = map_option fst (ras_pop s)"
    by (simp add: ras_peek_def ras_pop_def)
  moreover have "\<forall>t. ras_capacity t = ras_capacity s \<longrightarrow>
         (case ras_getFullSnapshot s of (tos, cnt, st) \<Rightarrow> ras_restoreFull tos cnt st t) = s"
    using ras_restore_snapshot [OF assms] by blast
  ultimately show ?thesis using ras_wf_push [OF assms] ras_entries_push [OF assms] by blast
qed

lemma ras_refines_bounded_stack_witness:
  "ras_entries (ras_push 8 (ras_push 4 (ras_init 1))) = [8]"
  using ras_refines_bounded_stack [of "ras_push 4 (ras_init 1)" 8]
  by (simp add: ras_init_def ras_push_def ras_wf_def)

end
