(* ===== verification/GSharePredictor.thy ===== *)
theory GSharePredictor
  imports Types
begin

text \<open>
  The branch predictor of \<open>src/gshare_predictor.cpp\<close>: a table of two-bit counters indexed by
  pc and global history, and a tagged target buffer. An index outside a table is \<open>None\<close>.
\<close>

section \<open>State and operations\<close>

record BTBEntry =
  btb_valid :: bool
  btb_tag :: u32
  btb_target_addr :: u64

record GSharePredictor =
  gs_pht :: "nat list"
  gs_btb :: "BTBEntry list"
  gs_ghr :: u32
  gs_pht_size :: nat
  gs_btb_size :: nat
  gs_ghr_w :: nat
  gs_btb_idx_w :: nat
  gs_ghr_mask :: u32
  gs_btb_idx_mask :: u32

definition btb0 :: BTBEntry where
  "btb0 = \<lparr>btb_valid = False, btb_tag = 0, btb_target_addr = 0\<rparr>"

function clog2_pow2 :: "nat \<Rightarrow> nat" where
  "clog2_pow2 v = (if v > 1 then Suc (clog2_pow2 (v div 2)) else 0)"
  by auto
termination by (relation "measure id") auto

declare clog2_pow2.simps [simp del]

definition low_mask :: "nat \<Rightarrow> u32" where
  "low_mask w = (if w \<ge> 32 then 0xFFFFFFFF else push_bit w 1 - 1)"

definition gs_init :: "nat \<Rightarrow> nat \<Rightarrow> GSharePredictor" where
  "gs_init p_size b_size = \<lparr>gs_pht = replicate p_size 1, gs_btb = replicate b_size btb0, gs_ghr = 0,
     gs_pht_size = p_size, gs_btb_size = b_size,
     gs_ghr_w = clog2_pow2 p_size, gs_btb_idx_w = clog2_pow2 b_size,
     gs_ghr_mask = low_mask (clog2_pow2 p_size), gs_btb_idx_mask = low_mask (clog2_pow2 b_size)\<rparr>"

definition phtIndex :: "GSharePredictor \<Rightarrow> u64 \<Rightarrow> u32 \<Rightarrow> nat" where
  "phtIndex g pc hist =
    (let pc_bits = (ucast (drop_bit 2 pc AND ucast (gs_ghr_mask g)) :: u32) in
     unat (pc_bits XOR (hist AND gs_ghr_mask g)))"

definition btbIndex :: "GSharePredictor \<Rightarrow> u64 \<Rightarrow> nat" where
  "btbIndex g pc = unat (drop_bit 2 pc AND ucast (gs_btb_idx_mask g))"

definition btbTag :: "GSharePredictor \<Rightarrow> u64 \<Rightarrow> u32" where
  "btbTag g pc = ucast (drop_bit (gs_btb_idx_w g + 2) pc)"

definition gs_predict :: "GSharePredictor \<Rightarrow> u64 \<Rightarrow> (bool \<times> u64) option" where
  "gs_predict g pc =
    (let pi = phtIndex g pc (gs_ghr g); bi = btbIndex g pc in
     if length (gs_pht g) \<le> pi \<or> length (gs_btb g) \<le> bi then None
     else let pht_taken = (2 \<le> gs_pht g ! pi);
              e = gs_btb g ! bi;
              hit = (btb_valid e \<and> btb_tag e = btbTag g pc);
              taken = (pht_taken \<and> hit) in
          Some (taken, if taken then btb_target_addr e else pc + 4))"

definition gs_update :: "u64 \<Rightarrow> bool \<Rightarrow> u64 \<Rightarrow> GSharePredictor \<Rightarrow> GSharePredictor option" where
  "gs_update pc actual_taken actual_target g =
    (let pi = phtIndex g pc (gs_ghr g); bi = btbIndex g pc in
     if length (gs_pht g) \<le> pi \<or> (actual_taken \<and> length (gs_btb g) \<le> bi) then None
     else let c = gs_pht g ! pi;
              c' = (if actual_taken then (if c < 3 then c + 1 else c)
                    else (if c > 0 then c - 1 else c));
              btb' = (if actual_taken
                then (gs_btb g)[bi := \<lparr>btb_valid = True, btb_tag = btbTag g pc, btb_target_addr = actual_target\<rparr>]
                else gs_btb g) in
          Some (g\<lparr>gs_pht := (gs_pht g)[pi := c'], gs_btb := btb',
             gs_ghr := (push_bit 1 (gs_ghr g) OR (if actual_taken then 1 else 0)) AND gs_ghr_mask g\<rparr>))"

section \<open>Indices\<close>

lemma clog2_le: "0 < n \<Longrightarrow> 2 ^ clog2_pow2 n \<le> n"
proof (induction n rule: clog2_pow2.induct)
  case (1 v)
  show ?case
  proof (cases "1 < v")
    case True
    then have "2 ^ clog2_pow2 (v div 2) \<le> v div 2" using 1 by simp
    with True show ?thesis by (simp add: clog2_pow2.simps [of v])
  next
    case False
    with 1 show ?thesis by (simp add: clog2_pow2.simps [of v])
  qed
qed

lemma low_mask_eq: "low_mask w = mask w"
proof (cases "32 \<le> w")
  case True
  then have "(2 ^ w :: u32) = 0" by (simp add: exp_eq_zero_iff)
  then have "mask w = (0 - 1 :: u32)" by (simp only: mask_eq_exp_minus_1)
  moreover have "(0xFFFFFFFF :: u32) = 0 - 1" by simp
  ultimately show ?thesis using True by (simp only: low_mask_def if_True)
qed (simp add: low_mask_def mask_eq_exp_minus_1 push_bit_eq_mult)

lemma bit_mask_u32: "bit (mask w :: u32) n \<longleftrightarrow> n < w \<and> n < 32"
  by (simp add: bit_mask_iff) auto

lemma unat_lt_exp:
  assumes "\<And>n. bit (x :: 'a::len word) n \<Longrightarrow> n < w"
  shows "unat x < 2 ^ w"
proof -
  have "take_bit w x = x"
    by (rule bit_word_eqI) (use assms in \<open>auto simp: bit_take_bit_iff\<close>)
  then have "take_bit w (unat x) = unat x"
    by (metis unsigned_take_bit_eq)
  then show ?thesis by (metis take_bit_nat_less_exp)
qed

definition gs_wf :: "GSharePredictor \<Rightarrow> bool" where
  "gs_wf g \<longleftrightarrow> length (gs_pht g) = gs_pht_size g \<and> length (gs_btb g) = gs_btb_size g
     \<and> 2 ^ gs_ghr_w g \<le> gs_pht_size g \<and> 2 ^ gs_btb_idx_w g \<le> gs_btb_size g
     \<and> gs_ghr_mask g = mask (gs_ghr_w g) \<and> gs_btb_idx_mask g = mask (gs_btb_idx_w g)
     \<and> (\<forall>c \<in> set (gs_pht g). c \<le> 3)"

lemma gs_wf_init: "0 < p \<Longrightarrow> 0 < b \<Longrightarrow> gs_wf (gs_init p b)"
  by (simp add: gs_wf_def gs_init_def low_mask_eq clog2_le)

lemma phtIndex_less: "gs_wf g \<Longrightarrow> phtIndex g pc h < length (gs_pht g)"
proof -
  assume wf: "gs_wf g"
  then have "phtIndex g pc h < 2 ^ gs_ghr_w g"
    unfolding phtIndex_def Let_def
    by (intro unat_lt_exp) (auto simp: gs_wf_def bit_simps bit_mask_u32)
  with wf show ?thesis by (simp add: gs_wf_def)
qed

lemma btbIndex_less: "gs_wf g \<Longrightarrow> btbIndex g pc < length (gs_btb g)"
proof -
  assume wf: "gs_wf g"
  then have "btbIndex g pc < 2 ^ gs_btb_idx_w g"
    unfolding btbIndex_def
    by (intro unat_lt_exp) (auto simp: gs_wf_def bit_simps bit_mask_u32)
  with wf show ?thesis by (simp add: gs_wf_def)
qed

lemma bit_ucast_drop: "m < 32 \<Longrightarrow> bit (ucast (drop_bit k (x :: u64)) :: u32) m = bit x (k + m)"
  by (simp add: bit_simps add.commute)

text \<open>The history register shifts the last direction in.\<close>

lemma bit_shift_in:
  "bit ((push_bit 1 h OR (if t then 1 else 0)) AND m :: u32) n
     \<longleftrightarrow> bit m n \<and> (case n of 0 \<Rightarrow> t | Suc k \<Rightarrow> bit h k)"
proof (cases n)
  case 0
  then show ?thesis by (simp only: bit_and_iff bit_or_iff bit_push_bit_iff) (simp add: bit_0)
next
  case (Suc k)
  have "bit m n \<Longrightarrow> n < 32" using bit_imp_le_length [of m n] by simp
  with Suc show ?thesis
    by (cases t) (simp_all only: bit_and_iff bit_or_iff bit_push_bit_iff if_True if_False, auto simp: bit_1_iff)
qed

text \<open>Aligned 32-bit addresses with the same index and the same tag are equal.\<close>

definition pc32 :: "u64 \<Rightarrow> bool" where
  "pc32 pc \<longleftrightarrow> take_bit 2 pc = 0 \<and> take_bit 32 pc = pc"

lemma btb_no_alias:
  assumes wf: "gs_wf g" and p: "pc32 a" "pc32 b"
    and e: "btbIndex g a = btbIndex g b" "btbTag g a = btbTag g b"
  shows "a = b"
proof (rule bit_word_eqI)
  fix n assume "n < LENGTH(64)"
  have low: "bit x n \<Longrightarrow> 2 \<le> n \<and> n < 32" if "pc32 x" for x
  proof -
    assume b: "bit x n"
    have "\<not> bit (take_bit 2 x) n" using that by (simp add: pc32_def)
    moreover have "bit (take_bit 32 x) n" using that b by (simp add: pc32_def)
    ultimately show ?thesis using b by (auto simp: bit_take_bit_iff)
  qed
  have i: "drop_bit 2 a AND ucast (gs_btb_idx_mask g) = drop_bit 2 b AND ucast (gs_btb_idx_mask g)"
    using e(1) by (simp add: btbIndex_def word_unat_eq_iff)
  have t: "(ucast (drop_bit (gs_btb_idx_w g + 2) a) :: u32) = ucast (drop_bit (gs_btb_idx_w g + 2) b)"
    using e(2) by (simp add: btbTag_def)
  show "bit a n = bit b n"
  proof (cases "2 \<le> n \<and> n < 32")
    case True
    then have n: "2 + (n - 2) = n" "n - 2 < 32" by auto
    show ?thesis
    proof (cases "n - 2 < gs_btb_idx_w g")
      case True
      have "bit (drop_bit 2 a AND ucast (gs_btb_idx_mask g)) (n - 2)
          = bit (drop_bit 2 b AND ucast (gs_btb_idx_mask g)) (n - 2)"
        by (simp only: i)
      with True n wf show ?thesis by (simp add: bit_simps bit_mask_u32 gs_wf_def)
    next
      case False
      let ?m = "n - (gs_btb_idx_w g + 2)"
      have m: "gs_btb_idx_w g + 2 + ?m = n" "?m < 32" using False n True by auto
      have "bit (ucast (drop_bit (gs_btb_idx_w g + 2) a) :: u32) ?m
          = bit (ucast (drop_bit (gs_btb_idx_w g + 2) b) :: u32) ?m"
        by (simp only: t)
      then show ?thesis by (simp only: bit_ucast_drop [OF m(2)] m(1))
    qed
  qed (use low [OF p(1)] low [OF p(2)] in blast)
qed

section \<open>Training\<close>

fun gs_train :: "(u64 \<times> bool \<times> u64) list \<Rightarrow> GSharePredictor \<Rightarrow> GSharePredictor option" where
  "gs_train [] g = Some g"
| "gs_train ((pc, tk, tgt) # us) g =
    (case gs_update pc tk tgt g of None \<Rightarrow> None | Some g' \<Rightarrow> gs_train us g')"

lemma gs_train_snoc:
  "gs_train (us @ [(pc, tk, tgt)]) g
     = (case gs_train us g of None \<Rightarrow> None | Some g' \<Rightarrow> gs_update pc tk tgt g')"
proof (induction us arbitrary: g)
  case (Cons u us)
  then show ?case by (cases u) (auto split: option.split)
qed (simp split: option.split)

definition gs_same :: "GSharePredictor \<Rightarrow> GSharePredictor \<Rightarrow> bool" where
  "gs_same g g' \<longleftrightarrow> gs_ghr_w g' = gs_ghr_w g \<and> gs_btb_idx_w g' = gs_btb_idx_w g
     \<and> gs_btb_idx_mask g' = gs_btb_idx_mask g \<and> gs_ghr_mask g' = gs_ghr_mask g"

lemma gs_update_ok:
  assumes wf: "gs_wf g"
  shows "\<exists>g'. gs_update pc tk tgt g = Some g' \<and> gs_wf g' \<and> gs_same g g'
    \<and> gs_btb g' = (if tk then (gs_btb g)[btbIndex g pc := \<lparr>btb_valid = True, btb_tag = btbTag g pc,
         btb_target_addr = tgt\<rparr>] else gs_btb g)
    \<and> gs_ghr g' = (push_bit 1 (gs_ghr g) OR (if tk then 1 else 0)) AND gs_ghr_mask g"
proof -
  let ?pi = "phtIndex g pc (gs_ghr g)"
  have l: "?pi < length (gs_pht g)" "btbIndex g pc < length (gs_btb g)"
    using phtIndex_less [OF wf] btbIndex_less [OF wf] by auto
  have c: "gs_pht g ! ?pi \<le> 3" using wf l(1) by (simp add: gs_wf_def)
  with l c wf show ?thesis
    by (auto simp: gs_update_def Let_def gs_wf_def gs_same_def
        dest!: subsetD [OF set_update_subset_insert]) (use c in auto)
qed

section \<open>The reference predictor\<close>

text \<open>
  What is to be predicted, from the past branches alone, newest first: their directions, as a
  number whose bit \<open>n\<close> is the \<open>n\<close>-th last one; the counter an index has, saturating between 0 and
  3 from its start at 1; and the target of the last taken branch that maps to the same entry.
\<close>

type_synonym branches = "(u64 \<times> bool \<times> u64) list"

definition recent :: "nat \<Rightarrow> branches \<Rightarrow> nat" where
  "recent w past = horner_sum of_bool 2 (map (\<lambda>(_, tk, _). tk) (take w past))"

definition ref_index :: "nat \<Rightarrow> branches \<Rightarrow> u64 \<Rightarrow> nat" where
  "ref_index w past pc = (unat pc div 4) mod 2 ^ w XOR recent w past"

fun ref_counter :: "nat \<Rightarrow> branches \<Rightarrow> nat \<Rightarrow> nat" where
  "ref_counter w [] i = 1"
| "ref_counter w ((pc, tk, _) # past) i = (let c = ref_counter w past i in
     if ref_index w past pc \<noteq> i then c else if tk then min 3 (c + 1) else c - 1)"

definition ref_entry :: "nat \<Rightarrow> branches \<Rightarrow> nat \<Rightarrow> (u64 \<times> bool \<times> u64) option" where
  "ref_entry v past i = find (\<lambda>(a, tk, _). tk \<and> (unat a div 4) mod 2 ^ v = i) past"

definition ref_predict :: "nat \<Rightarrow> nat \<Rightarrow> branches \<Rightarrow> u64 \<Rightarrow> bool \<times> u64" where
  "ref_predict w v past pc = (case ref_entry v past ((unat pc div 4) mod 2 ^ v) of
     None \<Rightarrow> (False, pc + 4)
   | Some (a, _, t) \<Rightarrow> if a = pc \<and> 2 \<le> ref_counter w past (ref_index w past pc) then (True, t) else (False, pc + 4))"

lemma bit_recent: "bit (recent w past) n \<longleftrightarrow> n < w \<and> n < length past \<and> fst (snd (past ! n))"
  by (auto simp: recent_def bit_horner_sum_bit_iff case_prod_beta)

lemma ref_counter_le: "ref_counter w past i \<le> 3"
  by (induction past) (auto simp: Let_def le_diff_conv)

section \<open>Indices as numbers\<close>

lemma clog2_unique: "2 ^ w \<le> p \<Longrightarrow> p < 2 ^ Suc w \<Longrightarrow> clog2_pow2 p = w"
proof (induction w arbitrary: p)
  case 0
  then show ?case by (simp add: clog2_pow2.simps [of p])
next
  case (Suc w)
  have "(1 :: nat) \<le> 2 ^ w" by simp
  then have "1 < p" using Suc.prems(1) unfolding power_Suc by linarith
  moreover have "2 ^ w \<le> p div 2" "p div 2 < 2 ^ Suc w" using Suc.prems by simp_all
  ultimately show ?case using Suc.IH by (simp add: clog2_pow2.simps [of p])
qed

lemma masked_index:
  assumes "pc32 pc"
  shows "drop_bit 2 pc AND ucast (mask w :: u32) = take_bit w (drop_bit 2 pc)"
proof (rule bit_word_eqI)
  fix n assume "n < LENGTH(64)"
  have "bit pc (2 + n) \<Longrightarrow> n < 32"
  proof -
    assume b: "bit pc (2 + n)"
    then have "bit (take_bit 32 pc) (2 + n)" using assms by (simp add: pc32_def)
    then show "n < 32" by (simp add: bit_take_bit_iff)
  qed
  then show "bit (drop_bit 2 pc AND ucast (mask w :: u32)) n = bit (take_bit w (drop_bit 2 pc)) n"
    by (auto simp: bit_simps bit_mask_u32 add.commute)
qed

lemma unat_index: "unat (take_bit w (drop_bit 2 (pc :: u64))) = (unat pc div 4) mod 2 ^ w"
proof -
  have "unat (take_bit w (drop_bit 2 pc)) = take_bit w (drop_bit 2 (unat pc))"
    by (simp only: unsigned_take_bit_eq unat_drop_bit_eq)
  then show ?thesis by (simp add: take_bit_nat_def drop_bit_nat_def)
qed

lemma bit_unat: "bit (unat x) n = bit x n"
  by (simp add: bit_unsigned_iff)

lemma btbIndex_ref: "gs_wf g \<Longrightarrow> pc32 pc \<Longrightarrow> btbIndex g pc = (unat pc div 4) mod 2 ^ gs_btb_idx_w g"
  by (simp only: btbIndex_def gs_wf_def masked_index unat_index)

lemma phtIndex_ref:
  assumes "gs_wf g" "pc32 pc" "gs_ghr_w g < 32" "unat h = recent (gs_ghr_w g) past"
  shows "phtIndex g pc h = ref_index (gs_ghr_w g) past pc"
proof -
  let ?w = "gs_ghr_w g"
  have m: "gs_ghr_mask g = mask ?w" using assms(1) by (simp add: gs_wf_def)
  have "bit h n \<Longrightarrow> n < ?w" for n
    using bit_recent [of ?w past n] unfolding assms(4) [symmetric] bit_unat by blast
  then have h: "h AND mask ?w = h" by (intro bit_word_eqI) (auto simp: bit_and_iff bit_mask_u32)
  let ?x = "take_bit ?w (drop_bit 2 pc)"
  have "unat ?x < 2 ^ ?w" by (simp add: unat_index)
  also have "(2 :: nat) ^ ?w \<le> 2 ^ 32" using assms(3) by (intro power_increasing) simp_all
  finally have "unat (ucast ?x :: u32) = unat ?x" by (simp add: unsigned_ucast_eq take_bit_nat_eq_self)
  then show ?thesis
    unfolding phtIndex_def Let_def m h masked_index [OF assms(2)]
    by (simp add: unsigned_xor_eq unat_index ref_index_def assms(4))
qed

section \<open>Training follows the reference\<close>

definition gs_follows :: "nat \<Rightarrow> nat \<Rightarrow> branches \<Rightarrow> GSharePredictor \<Rightarrow> bool" where
  "gs_follows w v past g \<longleftrightarrow> gs_wf g \<and> gs_ghr_w g = w \<and> gs_btb_idx_w g = v \<and> unat (gs_ghr g) = recent w past
     \<and> (\<forall>i < length (gs_pht g). gs_pht g ! i = ref_counter w past i)
     \<and> (\<forall>i < length (gs_btb g). case ref_entry v past i of None \<Rightarrow> \<not> btb_valid (gs_btb g ! i)
          | Some (a, _, t) \<Rightarrow> gs_btb g ! i = \<lparr>btb_valid = True, btb_tag = btbTag g a, btb_target_addr = t\<rparr>)"

lemma follows_init:
  assumes "2 ^ w \<le> p" "p < 2 ^ Suc w" "2 ^ v \<le> b" "b < 2 ^ Suc v"
  shows "gs_follows w v [] (gs_init p b)"
proof -
  have "(0 :: nat) < 2 ^ w" "(0 :: nat) < 2 ^ v" by simp_all
  then have "0 < p" "0 < b" using assms(1,3) by linarith+
  then show ?thesis
    using gs_wf_init [of p b] clog2_unique [OF assms(1,2)] clog2_unique [OF assms(3,4)]
    by (simp add: gs_follows_def gs_init_def recent_def ref_entry_def btb0_def)
qed

lemma follows_update:
  assumes f: "gs_follows w v past g" and w: "w < 32" and pc: "pc32 pc"
  shows "\<exists>g'. gs_update pc tk tgt g = Some g' \<and> gs_follows w v ((pc, tk, tgt) # past) g'"
proof -
  have wf: "gs_wf g" and gw: "gs_ghr_w g = w" "gs_btb_idx_w g = v" and h: "unat (gs_ghr g) = recent w past"
    and c: "\<And>i. i < length (gs_pht g) \<Longrightarrow> gs_pht g ! i = ref_counter w past i"
    using f by (simp_all add: gs_follows_def)
  let ?pi = "phtIndex g pc (gs_ghr g)" and ?bi = "btbIndex g pc"
  have pi: "?pi = ref_index w past pc" using phtIndex_ref [OF wf pc] gw w h by simp
  have bi: "?bi = (unat pc div 4) mod 2 ^ v" using btbIndex_ref [OF wf pc] gw by simp
  have l: "?pi < length (gs_pht g)" "?bi < length (gs_btb g)" using phtIndex_less [OF wf] btbIndex_less [OF wf] by auto
  obtain g' where g': "gs_update pc tk tgt g = Some g'" "gs_wf g'" "gs_same g g'"
      "gs_btb g' = (if tk then (gs_btb g)[?bi := \<lparr>btb_valid = True, btb_tag = btbTag g pc, btb_target_addr = tgt\<rparr>] else gs_btb g)"
      "gs_ghr g' = (push_bit 1 (gs_ghr g) OR (if tk then 1 else 0)) AND gs_ghr_mask g"
    using gs_update_ok [OF wf, of pc tk tgt] by blast
  have p: "gs_pht g' = (gs_pht g)[?pi := (let x = gs_pht g ! ?pi in if tk then (if x < 3 then x + 1 else x) else if x > 0 then x - 1 else x)]"
    using g'(1) l by (auto simp: gs_update_def Let_def split: if_splits)
  have tag: "btbTag g' = btbTag g" using g'(3) by (auto simp: gs_same_def btbTag_def fun_eq_iff)
  have w': "gs_ghr_w g' = w" "gs_btb_idx_w g' = v" using g'(3) gw by (simp_all add: gs_same_def)
  have 1: "unat (gs_ghr g') = recent w ((pc, tk, tgt) # past)"
  proof (rule bit_eqI)
    fix n
    have b: "bit (gs_ghr g) m \<longleftrightarrow> m < w \<and> m < length past \<and> fst (snd (past ! m))" for m
      using bit_recent [of w past m] unfolding h [symmetric] bit_unat .
    show "bit (unat (gs_ghr g')) n = bit (recent w ((pc, tk, tgt) # past)) n"
      unfolding bit_unat g'(5) bit_shift_in
      using wf gw w b by (cases n) (auto simp: bit_recent gs_wf_def bit_mask_u32)
  qed
  have 2: "gs_pht g' ! i = ref_counter w ((pc, tk, tgt) # past) i" if "i < length (gs_pht g')" for i
    using that l(1) c [of i] ref_counter_le [of w past i] by (auto simp: p pi Let_def nth_list_update)
  have 3: "case ref_entry v ((pc, tk, tgt) # past) i of None \<Rightarrow> \<not> btb_valid (gs_btb g' ! i)
      | Some (a, _, t) \<Rightarrow> gs_btb g' ! i = \<lparr>btb_valid = True, btb_tag = btbTag g' a, btb_target_addr = t\<rparr>"
    if i: "i < length (gs_btb g')" for i
  proof (cases "tk \<and> i = ?bi")
    case True
    then show ?thesis using i l(2) bi tag by (simp add: ref_entry_def g'(4))
  next
    case False
    then have same: "ref_entry v ((pc, tk, tgt) # past) i = ref_entry v past i" "gs_btb g' ! i = gs_btb g ! i" "i < length (gs_btb g)"
      using i bi by (auto simp: ref_entry_def g'(4) split: if_splits)
    have "\<forall>i < length (gs_btb g). case ref_entry v past i of None \<Rightarrow> \<not> btb_valid (gs_btb g ! i)
        | Some (a, _, t) \<Rightarrow> gs_btb g ! i = \<lparr>btb_valid = True, btb_tag = btbTag g a, btb_target_addr = t\<rparr>"
      using f by (simp add: gs_follows_def)
    then show ?thesis unfolding tag same(1,2) using same(3) by blast
  qed
  from g'(1,2) w' 1 2 3 show ?thesis by (intro exI [of _ g']) (simp add: gs_follows_def)
qed

lemma follows_train:
  assumes "gs_follows w v [] g0" "w < 32" "\<forall>(a, _) \<in> set us. pc32 a"
  shows "\<exists>g. gs_train us g0 = Some g \<and> gs_follows w v (rev us) g"
  using assms(3)
proof (induction us rule: rev_induct)
  case Nil
  with assms(1) show ?case by simp
next
  case (snoc u us)
  obtain pc tk tgt where u: "u = (pc, tk, tgt)" by (cases u)
  from snoc obtain g where g: "gs_train us g0 = Some g" "gs_follows w v (rev us) g" by auto
  moreover have "pc32 pc" using snoc.prems u by simp
  ultimately show ?case using follows_update [OF g(2) assms(2)] by (simp add: u gs_train_snoc)
qed

section \<open>Properties\<close>



end
