(* ===== verification/Interfaces.thy ===== *)
theory Interfaces
  imports Prelude
begin

text \<open>
  The contracts that components of the processor offer to their clients, stated once.
  \<^item> \<open>bounded_fifo\<close>: a bounded queue seen as the list of its contents. The fetch queue and
    the reorder buffer provide it.
  \<^item> \<open>slot_pool\<close>: a vector of slots holding identified entries, seen as the multiset of
    the identifiers. The reservation station and the load/store queue provide it.
  \<^item> \<open>lane_source\<close>: a fixed number of result lanes offered to the common data bus.
    The execution engine and the load/store queue provide it.
\<close>

section \<open>Bounded queues\<close>

text \<open>Running an enqueue over a list, and dequeuing \<open>n\<close> times.\<close>

fun enq_all :: "('i \<Rightarrow> 'q \<Rightarrow> 'q option) \<Rightarrow> 'i list \<Rightarrow> 'q \<Rightarrow> 'q option" where
  "enq_all f [] q = Some q"
| "enq_all f (x # xs) q = (case f x q of None \<Rightarrow> None | Some q' \<Rightarrow> enq_all f xs q')"

fun deq_n :: "('q \<Rightarrow> ('a \<times> 'q) option) \<Rightarrow> nat \<Rightarrow> 'q \<Rightarrow> ('a list \<times> 'q) option" where
  "deq_n f 0 q = Some ([], q)"
| "deq_n f (Suc n) q = (case f q of None \<Rightarrow> None
     | Some (a, q') \<Rightarrow> (case deq_n f n q' of None \<Rightarrow> None | Some (as, q'') \<Rightarrow> Some (a # as, q'')))"

locale bounded_fifo =
  fixes inv :: "'q \<Rightarrow> bool"
    and contents :: "'q \<Rightarrow> 'a list"
    and room :: "'q \<Rightarrow> nat"
    and enq :: "'i \<Rightarrow> 'q \<Rightarrow> 'q option"
    and entry :: "'i \<Rightarrow> 'a"
    and deq :: "'q \<Rightarrow> ('a \<times> 'q) option"
  assumes enq_some: "inv q \<Longrightarrow> length (contents q) < room q \<Longrightarrow>
      \<exists>q'. enq x q = Some q' \<and> inv q' \<and> contents q' = contents q @ [entry x] \<and> room q' = room q"
    and enq_full: "inv q \<Longrightarrow> length (contents q) = room q \<Longrightarrow> enq x q = None"
    and deq_some: "inv q \<Longrightarrow> deq q = Some (a, q') \<Longrightarrow>
      inv q' \<and> contents q = a # contents q' \<and> room q' = room q"
    and bounded: "inv q \<Longrightarrow> length (contents q) \<le> room q"
begin

lemma enq_iff: "inv q \<Longrightarrow> enq x q \<noteq> None \<longleftrightarrow> length (contents q) < room q"
  using enq_some enq_full bounded by (metis option.distinct(1) order_le_less)

lemma enqD:
  assumes "inv q" "enq x q = Some q'"
  shows "inv q' \<and> contents q' = contents q @ [entry x] \<and> room q' = room q
    \<and> length (contents q) < room q"
  using assms enq_iff [of q x] enq_some [of q x] by auto

lemma enq_all_ok:
  "inv q \<Longrightarrow> length (contents q) + length xs \<le> room q \<Longrightarrow>
   \<exists>q'. enq_all enq xs q = Some q' \<and> inv q' \<and> contents q' = contents q @ map entry xs \<and> room q' = room q"
proof (induction xs arbitrary: q)
  case (Cons x xs)
  then obtain q1 where q1: "enq x q = Some q1" "inv q1"
      "contents q1 = contents q @ [entry x]" "room q1 = room q"
    using enq_some [of q x] by auto
  with Cons.prems Cons.IH [of q1] show ?case by auto
qed simp

lemma enq_all_None:
  "inv q \<Longrightarrow> room q < length (contents q) + length xs \<Longrightarrow> enq_all enq xs q = None"
proof (induction xs arbitrary: q)
  case Nil
  then show ?case using bounded [of q] by simp
next
  case (Cons x xs)
  show ?case
  proof (cases "enq x q")
    case (Some q1)
    with Cons.prems enqD [of q x q1] have "enq_all enq xs q1 = None"
      by (intro Cons.IH) auto
    with Some show ?thesis by simp
  qed simp
qed

text \<open>What leaves the queue is the oldest part of its contents, in order.\<close>

lemma deq_n_prefix:
  "inv q \<Longrightarrow> deq_n deq n q = Some (as, q') \<Longrightarrow> contents q = as @ contents q' \<and> length as = n \<and> inv q'"
proof (induction n arbitrary: q as)
  case (Suc n)
  then obtain a q1 as1 where d: "deq q = Some (a, q1)" "deq_n deq n q1 = Some (as1, q')" "as = a # as1"
    by (auto split: option.splits)
  with deq_some [OF Suc.prems(1) d(1)] Suc.IH [of q1 as1] show ?case by auto
qed simp

lemma fifo_order:
  assumes "inv q" "enq_all enq xs q = Some q1" "deq_n deq n q1 = Some (as, q2)"
  shows "as = take n (contents q @ map entry xs)"
proof -
  have "length (contents q) + length xs \<le> room q"
    using enq_all_None [OF assms(1), of xs] assms(2) by (cases "room q < length (contents q) + length xs") auto
  then have "inv q1" "contents q1 = contents q @ map entry xs"
    using enq_all_ok [OF assms(1), of xs] assms(2) by auto
  with deq_n_prefix [OF _ assms(3)] show ?thesis by (metis append_eq_conv_conj)
qed

end

text \<open>A queue whose \<open>deq\<close> always succeeds when something is in it.\<close>

locale ready_fifo = bounded_fifo +
  assumes deq_ready: "inv q \<Longrightarrow> contents q \<noteq> [] \<Longrightarrow> deq q \<noteq> None"
    and deq_empty: "inv q \<Longrightarrow> contents q = [] \<Longrightarrow> deq q = None"
begin

lemma deq_n_total:
  "inv q \<Longrightarrow> n \<le> length (contents q) \<Longrightarrow>
   \<exists>q'. deq_n deq n q = Some (take n (contents q), q') \<and> inv q' \<and> contents q' = drop n (contents q)"
proof (induction n arbitrary: q)
  case (Suc n)
  then obtain a q1 where d: "deq q = Some (a, q1)"
    using deq_ready [of q] by (cases "contents q") fastforce+
  from deq_some [OF Suc.prems(1) d] Suc.prems Suc.IH [of q1] d show ?case by auto
qed simp

lemma drain:
  assumes "inv q" "contents q = []" "length xs \<le> room q"
  shows "\<exists>q1 q2. enq_all enq xs q = Some q1 \<and> deq_n deq (length xs) q1 = Some (map entry xs, q2)
    \<and> contents q2 = []"
proof -
  obtain q1 where "enq_all enq xs q = Some q1" "inv q1" "contents q1 = map entry xs"
    using enq_all_ok [OF assms(1), of xs] assms by auto
  then show ?thesis using deq_n_total [of q1 "length xs"] by auto
qed

end

section \<open>Slot pools\<close>

locale slot_pool =
  fixes ids :: "'q \<Rightarrow> u32 multiset"
    and slots :: "'q \<Rightarrow> nat"
    and has_space :: "'q \<Rightarrow> bool"
    and alloc :: "'r \<Rightarrow> 'q \<Rightarrow> bool \<times> 'q"
    and req_id :: "'r \<Rightarrow> u32"
    and remove :: "u32 \<Rightarrow> 'q \<Rightarrow> 'q"
  assumes space_iff: "has_space q \<longleftrightarrow> size (ids q) < slots q"
    and alloc_ok: "has_space q \<Longrightarrow>
      fst (alloc r q) \<and> ids (snd (alloc r q)) = add_mset (req_id r) (ids q)"
    and alloc_full: "\<not> has_space q \<Longrightarrow> alloc r q = (False, q)"
    and alloc_slots: "slots (snd (alloc r q)) = slots q"
    and remove_ids: "ids (remove k q) = ids q - {#k#}"
    and remove_slots: "slots (remove k q) = slots q"
    and held: "size (ids q) \<le> slots q"
begin

lemma squash_ids: "ids (fold remove ks q) = ids q - mset ks"
proof (induction ks arbitrary: q)
  case (Cons k ks)
  then show ?case by (simp add: remove_ids)
qed simp

lemma squash_slots: "slots (fold remove ks q) = slots q"
  by (induction ks arbitrary: q) (auto simp: remove_slots)

lemma squash_frees:
  assumes "k \<in> set ks" "k \<in># ids q"
  shows "has_space (fold remove ks q)"
proof -
  have "0 < size (mset ks \<inter># ids q)"
    using assms by (simp add: nonempty_has_size [symmetric]) (metis (no_types) empty_iff
        in_multiset_in_set inter_iff set_mset_empty)
  moreover have "ids q - mset ks = ids q - (mset ks \<inter># ids q)"
    by (simp add: multiset_eq_iff)
  then have "size (ids q - mset ks) = size (ids q) - size (mset ks \<inter># ids q)"
    by (simp add: size_Diff_submset [OF subset_mset.inf_le2] del: diff_intersect_left_idem
        diff_intersect_right_idem)
  ultimately have "size (ids q - mset ks) < size (ids q)"
    using assms(2) by (metis diff_less nonempty_has_size empty_iff set_mset_empty)
  with held [of q] show ?thesis by (simp add: space_iff squash_ids squash_slots)
qed

lemma alloc_remove: "has_space q \<Longrightarrow> ids (remove (req_id r) (snd (alloc r q))) = ids q"
  by (simp add: alloc_ok remove_ids)

lemma alloc_iff: "fst (alloc r q) \<longleftrightarrow> size (ids q) < slots q"
  using alloc_ok [of q r] alloc_full [of q r] by (cases "has_space q") (auto simp: space_iff)

end

section \<open>Result lanes\<close>

text \<open>
  A component whose slots offer finished results; releasing a slot takes its result away and
  leaves the other slots alone.
\<close>

locale lane_source =
  fixes offers :: "'s \<Rightarrow> nat \<Rightarrow> 'r option"
    and release :: "nat \<Rightarrow> 's \<Rightarrow> 's"
    and work :: "'s \<Rightarrow> 'r multiset"
  assumes release_work: "offers s k = Some r \<Longrightarrow> work s = add_mset r (work (release k s))"
    and release_other: "j \<noteq> k \<Longrightarrow> offers (release k s) j = offers s j"
begin

text \<open>Releasing distinct offering slots takes away exactly the results they offer, once each.\<close>

lemma release_all:
  "distinct ks \<Longrightarrow> (\<And>k. k \<in> set ks \<Longrightarrow> offers s k \<noteq> None) \<Longrightarrow>
   work s = mset (map (\<lambda>k. the (offers s k)) ks) + work (fold release ks s)"
proof (induction ks arbitrary: s)
  case (Cons k ks)
  then obtain r where r: "offers s k = Some r" by auto
  have o: "offers (release k s) j = offers s j" if "j \<in> set ks" for j
    using that Cons.prems(1) by (intro release_other) auto
  have "work (release k s) = mset (map (\<lambda>j. the (offers (release k s) j)) ks) + work (fold release ks (release k s))"
    using Cons.prems o by (intro Cons.IH) auto
  moreover have "map (\<lambda>j. the (offers (release k s) j)) ks = map (\<lambda>j. the (offers s j)) ks"
    using o by simp
  ultimately show ?case using release_work [OF r] r by simp
qed simp

lemma offers_release_other:
  "j \<notin> set ks \<Longrightarrow> offers (fold release ks s) j = offers s j"
  by (induction ks arbitrary: s) (auto simp: release_other)

end

end
