(* ===== verification/InstructionFetchQueue.thy ===== *)
theory InstructionFetchQueue
  imports Types Interfaces
begin

text \<open>
  The fetch queue of \<open>src/instruction_fetch_queue.cpp\<close>, a ring buffer of fetched
  instructions, as an implementation of the bounded queue. \<open>None\<close> is the result \<open>false\<close>, which
  leaves the queue unchanged.
\<close>

section \<open>State and operations\<close>

record InstructionFetchQueue =
  ifq_queue :: "FetchedInstruction list"
  ifq_capacity :: nat
  ifq_head :: nat
  ifq_tail :: nat
  ifq_active_count :: nat

definition ifq_init :: "nat \<Rightarrow> InstructionFetchQueue" where
  "ifq_init sz = \<lparr>ifq_queue = replicate sz fetched0, ifq_capacity = sz, ifq_head = 0,
     ifq_tail = 0, ifq_active_count = 0\<rparr>"

definition ifq_enqueue :: "FetchedInstruction \<Rightarrow> InstructionFetchQueue \<Rightarrow> InstructionFetchQueue option" where
  "ifq_enqueue inst q =
    (if ifq_active_count q = ifq_capacity q then None
     else Some (q\<lparr>ifq_queue := (ifq_queue q)[ifq_tail q := inst],
       ifq_tail := (ifq_tail q + 1) mod ifq_capacity q,
       ifq_active_count := ifq_active_count q + 1\<rparr>))"

definition ifq_peek :: "InstructionFetchQueue \<Rightarrow> FetchedInstruction option" where
  "ifq_peek q = (if ifq_active_count q = 0 then None else Some (ifq_queue q ! ifq_head q))"

definition ifq_dequeue :: "InstructionFetchQueue \<Rightarrow> (FetchedInstruction \<times> InstructionFetchQueue) option" where
  "ifq_dequeue q =
    (if ifq_active_count q = 0 then None
     else Some (ifq_queue q ! ifq_head q,
       q\<lparr>ifq_head := (ifq_head q + 1) mod ifq_capacity q,
         ifq_active_count := ifq_active_count q - 1\<rparr>))"

definition ifq_flush :: "InstructionFetchQueue \<Rightarrow> InstructionFetchQueue" where
  "ifq_flush q = q\<lparr>ifq_head := 0, ifq_tail := 0, ifq_active_count := 0\<rparr>"

definition ifq_isFull :: "InstructionFetchQueue \<Rightarrow> bool" where
  "ifq_isFull q \<longleftrightarrow> ifq_active_count q = ifq_capacity q"

definition ifq_isEmpty :: "InstructionFetchQueue \<Rightarrow> bool" where
  "ifq_isEmpty q \<longleftrightarrow> ifq_active_count q = 0"

definition ifq_getOccupancy :: "InstructionFetchQueue \<Rightarrow> nat" where
  "ifq_getOccupancy q = ifq_active_count q"

section \<open>The queue contract\<close>

definition ifq_wf :: "InstructionFetchQueue \<Rightarrow> bool" where
  "ifq_wf q \<longleftrightarrow> 0 < ifq_capacity q \<and> length (ifq_queue q) = ifq_capacity q
     \<and> ifq_head q < ifq_capacity q \<and> ifq_active_count q \<le> ifq_capacity q
     \<and> ifq_tail q = (ifq_head q + ifq_active_count q) mod ifq_capacity q"

definition ifq_contents :: "InstructionFetchQueue \<Rightarrow> FetchedInstruction list" where
  "ifq_contents q = ring_contents (ifq_capacity q) (ifq_head q) (ifq_active_count q) (ifq_queue q)"

lemma length_ifq_contents [simp]: "length (ifq_contents q) = ifq_active_count q"
  by (simp add: ifq_contents_def)

lemma ifq_wf_init [simp]: "0 < n \<Longrightarrow> ifq_wf (ifq_init n)"
  by (simp add: ifq_wf_def ifq_init_def)

lemma ifq_contents_init [simp]: "ifq_contents (ifq_init n) = []"
  by (simp add: ifq_contents_def ifq_init_def)

lemma ifq_init_simps [simp]: "ifq_getOccupancy (ifq_init n) = 0" "ifq_capacity (ifq_init n) = n"
  by (simp_all add: ifq_getOccupancy_def ifq_init_def)

lemma ifq_enqueue_ok:
  assumes "ifq_wf q" "ifq_active_count q < ifq_capacity q"
  shows "\<exists>q'. ifq_enqueue x q = Some q' \<and> ifq_wf q' \<and> ifq_contents q' = ifq_contents q @ [x]
    \<and> ifq_capacity q' = ifq_capacity q"
  using assms ring_contents_snoc [of "ifq_queue q" "ifq_capacity q" "ifq_active_count q" "ifq_head q" x]
  by (auto simp: ifq_enqueue_def ifq_wf_def ifq_contents_def mod_Suc_eq)

lemma ifq_dequeue_ok:
  assumes "ifq_wf q" "ifq_dequeue q = Some (a, q')"
  shows "ifq_wf q' \<and> ifq_contents q = a # ifq_contents q' \<and> ifq_capacity q' = ifq_capacity q"
proof -
  obtain n where n: "ifq_active_count q = Suc n"
    using assms(2) by (cases "ifq_active_count q") (auto simp: ifq_dequeue_def)
  then have "a = ifq_queue q ! ifq_head q"
      "q' = q\<lparr>ifq_head := Suc (ifq_head q) mod ifq_capacity q, ifq_active_count := n\<rparr>"
    using assms(2) by (simp_all add: ifq_dequeue_def)
  with n assms(1) show ?thesis
    by (simp add: ifq_wf_def ifq_contents_def ring_contents_Cons mod_add_left_eq)
qed

interpretation ifq: ready_fifo ifq_wf ifq_contents ifq_capacity ifq_enqueue "\<lambda>x. x" ifq_dequeue
proof (unfold_locales, goal_cases)
  case (1 q x)
  then show ?case using ifq_enqueue_ok [of q x] by simp
next
  case (2 q x)
  then show ?case by (simp add: ifq_enqueue_def)
next
  case (3 q a q')
  then show ?case by (rule ifq_dequeue_ok)
next
  case (4 q)
  then show ?case by (simp add: ifq_wf_def)
next
  case (5 q)
  then show ?case by (cases "ifq_active_count q") (auto simp: ifq_dequeue_def ifq_contents_def)
next
  case (6 q)
  then have "ifq_active_count q = 0" by (metis length_ifq_contents list.size(3))
  then show ?case by (simp add: ifq_dequeue_def)
qed

lemma ifq_flush_ok:
  "ifq_wf q \<Longrightarrow> ifq_wf (ifq_flush q) \<and> ifq_contents (ifq_flush q) = [] \<and> ifq_capacity (ifq_flush q) = ifq_capacity q"
  by (simp add: ifq_wf_def ifq_flush_def ifq_contents_def)

section \<open>Properties\<close>

text \<open>
  C31: the fetch queue delivers instructions in program order: enqueueing a bundle that fits
  succeeds, and dequeuing gives back first what was queued before and then the bundle, in
  order and without loss; a bundle that does not fit is refused.
\<close>

theorem ifq_in_order:
  assumes "ifq_wf q"
  shows "(ifq_getOccupancy q + length xs \<le> ifq_capacity q \<longrightarrow>
      (\<exists>q1 q2. enq_all ifq_enqueue xs q = Some q1
         \<and> deq_n ifq_dequeue (ifq_getOccupancy q + length xs) q1 = Some (ifq_contents q @ xs, q2)
         \<and> ifq_isEmpty q2))
    \<and> (ifq_capacity q < ifq_getOccupancy q + length xs \<longrightarrow> enq_all ifq_enqueue xs q = None)"
proof (intro conjI impI)
  assume "ifq_getOccupancy q + length xs \<le> ifq_capacity q"
  then obtain q1 where q1: "enq_all ifq_enqueue xs q = Some q1" "ifq_wf q1"
      "ifq_contents q1 = ifq_contents q @ xs"
    using ifq.enq_all_ok [OF assms, of xs] by (auto simp: ifq_getOccupancy_def)
  then have l: "length (ifq_contents q1) = ifq_getOccupancy q + length xs"
    by (simp add: ifq_getOccupancy_def del: length_ifq_contents) simp
  obtain q2 where q2: "deq_n ifq_dequeue (length (ifq_contents q1)) q1 = Some (ifq_contents q1, q2)"
      "ifq_contents q2 = []"
    using ifq.deq_n_total [OF q1(2) order_refl] by auto
  then have "ifq_isEmpty q2"
    by (metis ifq_isEmpty_def length_ifq_contents list.size(3))
  with q1 q2(1) l show "\<exists>q1 q2. enq_all ifq_enqueue xs q = Some q1
         \<and> deq_n ifq_dequeue (ifq_getOccupancy q + length xs) q1 = Some (ifq_contents q @ xs, q2)
         \<and> ifq_isEmpty q2" by auto
next
  assume "ifq_capacity q < ifq_getOccupancy q + length xs"
  then show "enq_all ifq_enqueue xs q = None"
    using ifq.enq_all_None [OF assms, of xs] by (simp add: ifq_getOccupancy_def)
qed

lemma ifq_in_order_witness:
  "enq_all ifq_enqueue [fetched0, fetched0, fetched0] (ifq_init 2) = None
   \<and> (\<exists>q1 q2. enq_all ifq_enqueue [fetched0\<lparr>f_pc := 4\<rparr>, fetched0] (ifq_init 2) = Some q1
       \<and> deq_n ifq_dequeue 2 q1 = Some ([fetched0\<lparr>f_pc := 4\<rparr>, fetched0], q2))"
  using ifq_in_order [OF ifq_wf_init, of 2 "[fetched0, fetched0, fetched0]"]
    ifq_in_order [OF ifq_wf_init, of 2 "[fetched0\<lparr>f_pc := 4\<rparr>, fetched0]"]
  by (auto simp del: enq_all.simps deq_n.simps simp add: numeral_2_eq_2)

end
