(* ===== verification/DispatchReg.thy ===== *)
theory DispatchReg
  imports Types
begin

text \<open>
  The decode-to-rename bundle register of \<open>src/dispatch_reg.cpp\<close>. A failed assertion is
  \<open>None\<close>. The register is a list of instructions of length at most the width: the valid lanes
  are always a prefix.
\<close>

section \<open>State and operations\<close>

record DispatchReg =
  dr_width :: nat
  dr_holding :: bool
  dr_valid :: "bool list"
  dr_slots :: "FetchedInstruction list"

definition dr_init :: "nat \<Rightarrow> DispatchReg option" where
  "dr_init w = (if 0 < w then Some \<lparr>dr_width = w, dr_holding = False,
     dr_valid = replicate w False, dr_slots = replicate w fetched0\<rparr> else None)"

definition dr_flush :: "DispatchReg \<Rightarrow> DispatchReg" where
  "dr_flush d = d\<lparr>dr_holding := False, dr_valid := replicate (dr_width d) False,
     dr_slots := replicate (dr_width d) fetched0\<rparr>"

definition dr_count :: "DispatchReg \<Rightarrow> nat" where
  "dr_count d = length (filter (\<lambda>i. dr_valid d ! i) [0..<dr_width d])"

definition dr_empty :: "DispatchReg \<Rightarrow> bool" where
  "dr_empty d \<longleftrightarrow> dr_count d = 0"

definition dr_canCapture :: "DispatchReg \<Rightarrow> bool" where
  "dr_canCapture d \<longleftrightarrow> \<not> dr_holding d"

definition dr_laneValid :: "DispatchReg \<Rightarrow> nat \<Rightarrow> bool" where
  "dr_laneValid d i \<longleftrightarrow> i < dr_width d \<and> dr_valid d ! i"

definition dr_lane :: "DispatchReg \<Rightarrow> nat \<Rightarrow> FetchedInstruction option" where
  "dr_lane d i = (if dr_laneValid d i then Some (dr_slots d ! i) else None)"

definition dr_acceptPrefix :: "nat \<Rightarrow> DispatchReg \<Rightarrow> DispatchReg option" where
  "dr_acceptPrefix n d =
    (if dr_count d < n then None
     else if n = 0 then Some d
     else let w = dr_width d;
              moved = (\<lambda>i. i + n < w \<and> dr_valid d ! (i + n));
              d' = d\<lparr>dr_valid := map moved [0..<w],
                     dr_slots := map (\<lambda>i. if moved i then dr_slots d ! (i + n) else fetched0) [0..<w]\<rparr>
          in Some (d'\<lparr>dr_holding := dr_count d' \<noteq> 0\<rparr>))"

definition dr_capture :: "FetchedInstruction list \<Rightarrow> DispatchReg \<Rightarrow> DispatchReg option" where
  "dr_capture bundle d =
    (if \<not> dr_canCapture d \<or> dr_width d < length bundle then None
     else let d' = dr_flush d; n = length bundle in
       Some (d'\<lparr>dr_valid := replicate n True @ drop n (dr_valid d'),
                dr_slots := bundle @ drop n (dr_slots d'),
                dr_holding := bundle \<noteq> []\<rparr>))"

section \<open>The register as a list\<close>

definition dr_contents :: "DispatchReg \<Rightarrow> FetchedInstruction list" where
  "dr_contents d = take (dr_count d) (dr_slots d)"

definition dr_wf :: "DispatchReg \<Rightarrow> bool" where
  "dr_wf d \<longleftrightarrow> length (dr_slots d) = dr_width d \<and> dr_count d \<le> dr_width d
     \<and> dr_valid d = replicate (dr_count d) True @ replicate (dr_width d - dr_count d) False
     \<and> (dr_holding d \<longleftrightarrow> dr_count d \<noteq> 0)"

lemma filter_upt_prefix:
  "k \<le> w \<Longrightarrow> length (filter (\<lambda>i. i < k) [0..<w]) = k"
proof -
  assume "k \<le> w"
  then have "filter (\<lambda>i. i < k) [0..<w] = [0..<k]"
    by (induction w) (auto simp: le_Suc_eq intro: filter_True)
  then show ?thesis by simp
qed

lemma dr_count_prefix:
  assumes "k \<le> dr_width d" "\<And>i. i < dr_width d \<Longrightarrow> dr_valid d ! i = (i < k)"
  shows "dr_count d = k"
proof -
  have "filter (\<lambda>i. dr_valid d ! i) [0..<dr_width d] = filter (\<lambda>i. i < k) [0..<dr_width d]"
    using assms(2) by (intro filter_cong) auto
  with filter_upt_prefix [OF assms(1)] show ?thesis by (simp add: dr_count_def)
qed

lemma dr_valid_nth: "dr_wf d \<Longrightarrow> i < dr_width d \<Longrightarrow> dr_valid d ! i \<longleftrightarrow> i < dr_count d"
  by (simp add: dr_wf_def nth_append)

lemma dr_wfI:
  assumes "length (dr_slots d) = dr_width d" "length (dr_valid d) = dr_width d" "k \<le> dr_width d"
    and "\<And>i. i < dr_width d \<Longrightarrow> dr_valid d ! i = (i < k)" "dr_holding d \<longleftrightarrow> k \<noteq> 0"
  shows "dr_wf d \<and> dr_count d = k"
proof -
  have c: "dr_count d = k" using assms(3,4) by (rule dr_count_prefix)
  have "dr_valid d = replicate k True @ replicate (dr_width d - k) False"
    using assms by (intro nth_equalityI) (auto simp: nth_append)
  with c assms show ?thesis by (simp add: dr_wf_def)
qed

lemma dr_init_wf: "dr_init w = Some d \<Longrightarrow> dr_wf d \<and> dr_contents d = [] \<and> dr_width d = w"
proof -
  assume "dr_init w = Some d"
  then have d: "d = \<lparr>dr_width = w, dr_holding = False,
     dr_valid = replicate w False, dr_slots = replicate w fetched0\<rparr>"
    by (simp add: dr_init_def split: if_splits)
  have "dr_wf d \<and> dr_count d = 0" by (rule dr_wfI) (simp_all add: d)
  then show ?thesis by (simp add: dr_contents_def d)
qed

lemma dr_flush_wf: "dr_wf (dr_flush d) \<and> dr_count (dr_flush d) = 0 \<and> dr_width (dr_flush d) = dr_width d"
proof -
  have "dr_wf (dr_flush d) \<and> dr_count (dr_flush d) = 0"
    by (rule dr_wfI) (simp_all add: dr_flush_def)
  then show ?thesis by (simp add: dr_flush_def)
qed

lemma length_dr_contents: "dr_wf d \<Longrightarrow> length (dr_contents d) = dr_count d"
  by (simp add: dr_wf_def dr_contents_def)

lemma dr_accept_ok:
  assumes wf: "dr_wf d" and n: "n \<le> dr_count d"
  shows "\<exists>d'. dr_acceptPrefix n d = Some d' \<and> dr_wf d' \<and> dr_contents d' = drop n (dr_contents d)
    \<and> dr_width d' = dr_width d"
proof (cases "n = 0")
  case True
  then show ?thesis using wf by (simp add: dr_acceptPrefix_def)
next
  case False
  define w k where "w = dr_width d" and "k = dr_count d - n"
  define moved where "moved = (\<lambda>i. i + n < w \<and> dr_valid d ! (i + n))"
  define d1 where "d1 = d\<lparr>dr_valid := map moved [0..<w],
      dr_slots := map (\<lambda>i. if moved i then dr_slots d ! (i + n) else fetched0) [0..<w]\<rparr>"
  have m: "moved i \<longleftrightarrow> i < k" if "i < w" for i
    using that wf n dr_valid_nth [OF wf, of "i + n"]
    by (auto simp: moved_def w_def k_def dr_wf_def)
  have kw: "k \<le> w" using wf by (simp add: k_def w_def dr_wf_def) linarith
  have c1: "dr_count d1 = k"
    by (rule dr_count_prefix) (use kw m in \<open>simp_all add: d1_def w_def\<close>)
  define d' where "d' = d1\<lparr>dr_holding := dr_count d1 \<noteq> 0\<rparr>"
  have acc: "dr_acceptPrefix n d = Some d'"
    using False n by (simp add: dr_acceptPrefix_def d'_def d1_def moved_def w_def Let_def)
  have d': "dr_wf d' \<and> dr_count d' = k"
    by (rule dr_wfI) (use kw m c1 in \<open>simp_all add: d'_def d1_def w_def\<close>)
  moreover have "dr_contents d' = drop n (dr_contents d)"
  proof (rule nth_equalityI)
    show "length (dr_contents d') = length (drop n (dr_contents d))"
      using d' wf by (simp add: length_dr_contents k_def)
    fix i assume "i < length (dr_contents d')"
    then have "i < k" using d' by (simp add: length_dr_contents)
    moreover from this have "i < w" using kw by simp
    ultimately have "dr_contents d' ! i = dr_slots d ! (i + n)"
      using d' m [of i] by (simp add: dr_contents_def) (simp add: d'_def d1_def)
    also have "\<dots> = drop n (dr_contents d) ! i"
      using wf \<open>i < k\<close> by (simp add: dr_contents_def k_def dr_wf_def add.commute)
    finally show "dr_contents d' ! i = drop n (dr_contents d) ! i" .
  qed
  moreover have "dr_width d' = dr_width d" by (simp add: d'_def d1_def)
  ultimately show ?thesis using acc by blast
qed

lemma dr_capture_ok:
  assumes "dr_wf d" "dr_contents d = []" "length xs \<le> dr_width d"
  shows "\<exists>d'. dr_capture xs d = Some d' \<and> dr_wf d' \<and> dr_contents d' = xs \<and> dr_width d' = dr_width d"
proof -
  have c0: "dr_count d = 0" using length_dr_contents [OF assms(1)] assms(2) by simp
  define d' where "d' = (dr_flush d)\<lparr>dr_valid := replicate (length xs) True @ drop (length xs) (dr_valid (dr_flush d)),
      dr_slots := xs @ drop (length xs) (dr_slots (dr_flush d)), dr_holding := xs \<noteq> []\<rparr>"
  have "dr_capture xs d = Some d'"
    using assms c0 by (simp add: dr_capture_def dr_canCapture_def dr_wf_def d'_def Let_def)
  moreover have "dr_wf d' \<and> dr_count d' = length xs"
    by (rule dr_wfI) (use assms(3) in \<open>auto simp: d'_def dr_flush_def nth_append\<close>)
  ultimately show ?thesis by (auto simp: dr_contents_def d'_def dr_flush_def)
qed

text \<open>Accepting prefixes of the lengths \<open>ns\<close>, one after the other.\<close>

fun dr_drain :: "nat list \<Rightarrow> DispatchReg \<Rightarrow> (FetchedInstruction list list \<times> DispatchReg) option" where
  "dr_drain [] d = Some ([], d)"
| "dr_drain (n # ns) d =
    (case dr_acceptPrefix n d of None \<Rightarrow> None
     | Some d' \<Rightarrow> (case dr_drain ns d' of None \<Rightarrow> None
        | Some (gs, d'') \<Rightarrow> Some (take n (dr_contents d) # gs, d'')))"

lemma dr_drain_ok:
  "dr_wf d \<Longrightarrow> sum_list ns = dr_count d \<Longrightarrow>
   \<exists>gs d'. dr_drain ns d = Some (gs, d') \<and> concat gs = dr_contents d \<and> map length gs = ns
     \<and> dr_canCapture d'"
proof (induction ns arbitrary: d)
  case Nil
  then show ?case by (simp add: dr_wf_def dr_canCapture_def dr_contents_def)
next
  case (Cons n ns)
  then obtain d1 where d1: "dr_acceptPrefix n d = Some d1" "dr_wf d1"
      "dr_contents d1 = drop n (dr_contents d)"
    using dr_accept_ok [OF Cons.prems(1), of n] by auto
  have "dr_count d1 = sum_list ns"
    using d1 Cons.prems by (metis length_dr_contents length_drop sum_list.Cons add_diff_cancel_left')
  with Cons.IH [OF d1(2)] d1 obtain gs d' where
      "dr_drain ns d1 = Some (gs, d')" "concat gs = drop n (dr_contents d)" "map length gs = ns" "dr_canCapture d'"
    by auto
  moreover have "n \<le> length (dr_contents d)"
    using Cons.prems by (simp add: length_dr_contents)
  ultimately show ?case using d1(1) by simp
qed

section \<open>Properties\<close>

text \<open>
  C30: a bundle captured by the dispatch register leaves it in program order, without loss or
  duplication, whatever the sizes of the prefixes rename accepts, and only then can the next
  bundle be captured; a capture while instructions are held, or of too long a bundle, and an
  accept of more lanes than are valid fail their assertion.
\<close>

theorem dispatch_reg_in_order:
  assumes "dr_wf d"
  shows "(dr_empty d \<and> length xs \<le> dr_width d \<longrightarrow>
      (\<forall>ns. sum_list ns = length xs \<longrightarrow>
        (\<exists>d1 gs d2. dr_capture xs d = Some d1 \<and> dr_drain ns d1 = Some (gs, d2)
           \<and> concat gs = xs \<and> map length gs = ns \<and> dr_canCapture d2)))
    \<and> (\<not> dr_empty d \<or> dr_width d < length xs \<longrightarrow> dr_capture xs d = None)
    \<and> (dr_count d < n \<longrightarrow> dr_acceptPrefix n d = None)"
proof (intro conjI impI allI)
  fix ns assume a: "dr_empty d \<and> length xs \<le> dr_width d" and ns: "sum_list ns = length xs"
  then have "dr_contents d = []" by (simp add: dr_empty_def dr_contents_def)
  then obtain d1 where d1: "dr_capture xs d = Some d1" "dr_wf d1" "dr_contents d1 = xs"
    using dr_capture_ok [OF assms, of xs] a by auto
  with dr_drain_ok [OF d1(2), of ns] ns length_dr_contents [OF d1(2)]
  show "\<exists>d1 gs d2. dr_capture xs d = Some d1 \<and> dr_drain ns d1 = Some (gs, d2)
           \<and> concat gs = xs \<and> map length gs = ns \<and> dr_canCapture d2" by auto
next
  assume "\<not> dr_empty d \<or> dr_width d < length xs"
  then show "dr_capture xs d = None"
    using assms by (auto simp: dr_capture_def dr_empty_def dr_canCapture_def dr_wf_def)
next
  assume "dr_count d < n"
  then show "dr_acceptPrefix n d = None" by (simp add: dr_acceptPrefix_def)
qed

lemma dispatch_reg_in_order_witness:
  "\<exists>d1 gs d2. dr_capture [fetched0, fetched0\<lparr>f_pc := 4\<rparr>] (the (dr_init 2)) = Some d1
     \<and> dr_drain [1, 0, 1] d1 = Some (gs, d2) \<and> gs \<noteq> [] \<and> concat gs = [fetched0, fetched0\<lparr>f_pc := 4\<rparr>]"
proof -
  obtain d where d: "dr_init 2 = Some d" by (simp add: dr_init_def)
  with dr_init_wf [OF d] have "dr_wf d" "dr_empty d" "dr_width d = 2"
    by (auto simp: dr_empty_def dest: length_dr_contents)
  with dispatch_reg_in_order [of d "[fetched0, fetched0\<lparr>f_pc := 4\<rparr>]" 0] d show ?thesis
    by (auto dest!: spec [of _ "[1, 0, 1]"] simp del: dr_drain.simps)
qed

end
