(* ===== verification/ReorderBuffer.thy ===== *)
theory ReorderBuffer
  imports Types Interfaces
begin

text \<open>
  The reorder buffer of \<open>src/reorder_buffer.cpp\<close>: a ring of entries allocated in program
  order, completed out of order, committed in order, and cut back to a branch on a
  misprediction. A failed assertion is \<open>None\<close>. The buffer refines a queue of instructions with
  optional results.
\<close>

section \<open>State and operations\<close>

record ROBEntry =
  re_busy :: bool
  re_op :: string
  re_dest_reg :: int
  re_value :: i32
  re_done :: bool

record ReorderBuffer =
  rob_buffer :: "ROBEntry list"
  rob_capacity :: nat
  rob_head :: nat
  rob_tail :: nat
  rob_active_count :: nat

definition rob_init :: "nat \<Rightarrow> ReorderBuffer" where
  "rob_init sz = \<lparr>rob_buffer = replicate sz \<lparr>re_busy = False, re_op = '''', re_dest_reg = 0,
       re_value = 0, re_done = False\<rparr>,
     rob_capacity = sz, rob_head = 0, rob_tail = 0, rob_active_count = 0\<rparr>"

text \<open>The result \<open>-1\<close> of a full buffer is \<open>Some (None, r)\<close>.\<close>

definition rob_dispatch :: "string \<Rightarrow> int \<Rightarrow> ReorderBuffer \<Rightarrow> (tag option \<times> ReorderBuffer) option" where
  "rob_dispatch operation dest r =
    (if rob_active_count r = rob_capacity r then Some (None, r)
     else let t = rob_tail r in
       if \<not> t < rob_capacity r \<or> re_busy (rob_buffer r ! t) then None
       else let e = (rob_buffer r ! t)\<lparr>re_busy := True, re_op := operation, re_dest_reg := dest,
                re_done := False\<rparr>;
              n = rob_active_count r + 1 in
         if n \<le> rob_capacity r
         then Some (Some t, r\<lparr>rob_buffer := (rob_buffer r)[t := e],
             rob_tail := (rob_tail r + 1) mod rob_capacity r, rob_active_count := n\<rparr>)
         else None)"

definition free_entry :: "ROBEntry \<Rightarrow> ROBEntry" where
  "free_entry e = e\<lparr>re_busy := False, re_done := False\<rparr>"

definition rob_undispatch :: "tag \<Rightarrow> ReorderBuffer \<Rightarrow> bool \<times> ReorderBuffer" where
  "rob_undispatch t r =
    (if rob_active_count r = 0 then (False, r)
     else let l = (rob_tail r + rob_capacity r - 1) mod rob_capacity r in
       if t \<noteq> l \<or> \<not> re_busy (rob_buffer r ! t) then (False, r)
       else (True, r\<lparr>rob_buffer := (rob_buffer r)[t := free_entry (rob_buffer r ! t)],
           rob_tail := l, rob_active_count := rob_active_count r - 1\<rparr>))"

definition rob_hasSpace :: "ReorderBuffer \<Rightarrow> bool" where
  "rob_hasSpace r \<longleftrightarrow> rob_active_count r < rob_capacity r"

definition rob_writeResult :: "tag \<Rightarrow> i32 \<Rightarrow> ReorderBuffer \<Rightarrow> ReorderBuffer option" where
  "rob_writeResult t v r =
    (if t < rob_capacity r
     then Some (if re_busy (rob_buffer r ! t)
       then r\<lparr>rob_buffer := (rob_buffer r)[t := (rob_buffer r ! t)\<lparr>re_value := v, re_done := True\<rparr>]\<rparr>
       else r)
     else None)"

definition rob_commit :: "ReorderBuffer \<Rightarrow> ((int \<times> i32 \<times> tag) \<times> ReorderBuffer) option" where
  "rob_commit r =
    (if rob_active_count r = 0 then None
     else let h = rob_head r; e = rob_buffer r ! h in
       if re_done e
       then Some ((re_dest_reg e, re_value e, h),
          r\<lparr>rob_buffer := (rob_buffer r)[h := free_entry e],
            rob_head := (h + 1) mod rob_capacity r, rob_active_count := rob_active_count r - 1\<rparr>)
       else None)"

definition rob_isReady :: "ReorderBuffer \<Rightarrow> tag \<Rightarrow> bool" where
  "rob_isReady r t = re_done (rob_buffer r ! t)"

definition rob_getValue :: "ReorderBuffer \<Rightarrow> tag \<Rightarrow> i32" where
  "rob_getValue r t = re_value (rob_buffer r ! t)"

definition rob_isEmpty :: "ReorderBuffer \<Rightarrow> bool" where
  "rob_isEmpty r \<longleftrightarrow> rob_active_count r = 0"

definition rob_ageFromHead :: "ReorderBuffer \<Rightarrow> tag \<Rightarrow> nat option" where
  "rob_ageFromHead r t =
    (if t < rob_capacity r then Some ((t + rob_capacity r - rob_head r) mod rob_capacity r) else None)"

definition rob_isYounger :: "ReorderBuffer \<Rightarrow> tag \<Rightarrow> tag \<Rightarrow> bool option" where
  "rob_isYounger r a b = do { x \<leftarrow> rob_ageFromHead r a; y \<leftarrow> rob_ageFromHead r b; Some (y < x) }"

definition rob_busy_count :: "ReorderBuffer \<Rightarrow> nat" where
  "rob_busy_count r = length (filter (\<lambda>i. re_busy (rob_buffer r ! i)) [0..<rob_capacity r])"

definition rob_squashYoungerThan :: "tag \<Rightarrow> ReorderBuffer \<Rightarrow> (nat \<times> ReorderBuffer) option" where
  "rob_squashYoungerThan st r =
    (if \<not> st < rob_capacity r \<or> \<not> re_busy (rob_buffer r ! st) then None
     else do {
       let hit = (\<lambda>i. re_busy (rob_buffer r ! i) \<and> rob_isYounger r i st = Some True);
       let freed = length (filter hit [0..<rob_capacity r]);
       let buf = map (\<lambda>i. if hit i then free_entry (rob_buffer r ! i) else rob_buffer r ! i)
             [0..<rob_capacity r];
       age \<leftarrow> rob_ageFromHead r st;
       let r' = r\<lparr>rob_buffer := buf, rob_tail := (st + 1) mod rob_capacity r, rob_active_count := age + 1\<rparr>;
       if rob_active_count r' \<le> rob_capacity r' \<and> rob_busy_count r' = rob_active_count r'
       then Some (freed, r') else None })"

definition rob_checkInvariant :: "ReorderBuffer \<Rightarrow> bool" where
  "rob_checkInvariant r \<longleftrightarrow> rob_active_count r \<le> rob_capacity r \<and> rob_head r < rob_capacity r
     \<and> rob_tail r < rob_capacity r \<and> rob_busy_count r = rob_active_count r"

section \<open>Well-formedness\<close>

definition rob_wf :: "ReorderBuffer \<Rightarrow> bool" where
  "rob_wf r \<longleftrightarrow> length (rob_buffer r) = rob_capacity r \<and> rob_head r < rob_capacity r
     \<and> rob_active_count r \<le> rob_capacity r
     \<and> rob_tail r = (rob_head r + rob_active_count r) mod rob_capacity r
     \<and> (\<forall>t < rob_capacity r. re_busy (rob_buffer r ! t) \<longleftrightarrow>
          ring_age (rob_capacity r) (rob_head r) t < rob_active_count r)
     \<and> (\<forall>t < rob_capacity r. re_done (rob_buffer r ! t) \<longrightarrow> re_busy (rob_buffer r ! t))"

text \<open>The slot of the \<open>k\<close>-th oldest instruction.\<close>

definition rob_slot :: "ReorderBuffer \<Rightarrow> nat \<Rightarrow> tag" where
  "rob_slot r k = (rob_head r + k) mod rob_capacity r"

text \<open>An instruction of the abstract queue: tag, operation, destination, result if it has one.\<close>

type_synonym robspec = "(tag \<times> string \<times> int \<times> i32 option) list"

definition rob_abs :: "ReorderBuffer \<Rightarrow> robspec" where
  "rob_abs r = map (\<lambda>k. let e = rob_buffer r ! rob_slot r k in
       (rob_slot r k, re_op e, re_dest_reg e, if re_done e then Some (re_value e) else None))
     [0..<rob_active_count r]"

lemma length_rob_abs [simp]: "length (rob_abs r) = rob_active_count r"
  by (simp add: rob_abs_def)

lemma nth_rob_abs:
  "k < rob_active_count r \<Longrightarrow> rob_abs r ! k = (let e = rob_buffer r ! rob_slot r k in
       (rob_slot r k, re_op e, re_dest_reg e, if re_done e then Some (re_value e) else None))"
  by (simp add: rob_abs_def)

lemma fst_nth_rob_abs: "k < rob_active_count r \<Longrightarrow> fst (rob_abs r ! k) = rob_slot r k"
  by (simp add: nth_rob_abs Let_def)

lemma ageFromHead_ring:
  "rob_ageFromHead r t = (if t < rob_capacity r then Some (ring_age (rob_capacity r) (rob_head r) t) else None)"
  by (simp add: rob_ageFromHead_def ring_age_def)

lemma rob_slot_age:
  "rob_wf r \<Longrightarrow> k < rob_capacity r \<Longrightarrow> ring_age (rob_capacity r) (rob_head r) (rob_slot r k) = k"
  by (simp add: rob_slot_def ring_age_of_index rob_wf_def)

lemma rob_slot_less: "rob_wf r \<Longrightarrow> rob_slot r k < rob_capacity r"
  by (auto simp: rob_slot_def rob_wf_def)

lemma rob_slot_inj:
  "rob_wf r \<Longrightarrow> i < rob_capacity r \<Longrightarrow> j < rob_capacity r \<Longrightarrow> rob_slot r i = rob_slot r j \<longleftrightarrow> i = j"
  by (metis rob_slot_age)

lemma rob_slot_of_age:
  "rob_wf r \<Longrightarrow> t < rob_capacity r \<Longrightarrow> rob_slot r (ring_age (rob_capacity r) (rob_head r) t) = t"
  by (simp add: rob_slot_def ring_index_of_age rob_wf_def)

lemma rob_busy_slot: "rob_wf r \<Longrightarrow> k < rob_capacity r \<Longrightarrow> re_busy (rob_buffer r ! rob_slot r k) \<longleftrightarrow> k < rob_active_count r"
proof -
  assume a: "rob_wf r" "k < rob_capacity r"
  then have "re_busy (rob_buffer r ! t) \<longleftrightarrow> ring_age (rob_capacity r) (rob_head r) t < rob_active_count r"
    if "t < rob_capacity r" for t
    using that by (simp add: rob_wf_def)
  with rob_slot_less [OF a(1), of k] rob_slot_age [OF a] show ?thesis by simp
qed

lemma rob_done_slot:
  "rob_wf r \<Longrightarrow> k < rob_capacity r \<Longrightarrow> re_done (rob_buffer r ! rob_slot r k) \<Longrightarrow> k < rob_active_count r"
proof -
  assume a: "rob_wf r" "k < rob_capacity r" "re_done (rob_buffer r ! rob_slot r k)"
  then have "re_busy (rob_buffer r ! rob_slot r k)"
    using rob_slot_less [OF a(1), of k] unfolding rob_wf_def by blast
  with rob_busy_slot [OF a(1,2)] show ?thesis by simp
qed

text \<open>Quantifying over tags is quantifying over ages.\<close>

lemma rob_all_tags:
  assumes "rob_wf r"
  shows "(\<forall>t < rob_capacity r. P t) \<longleftrightarrow> (\<forall>k < rob_capacity r. P (rob_slot r k))"
proof -
  have "t < rob_capacity r \<Longrightarrow> ring_age (rob_capacity r) (rob_head r) t < rob_capacity r" for t
    by (auto intro: ring_age_less)
  then show ?thesis using rob_slot_less [OF assms] rob_slot_of_age [OF assms] by metis
qed

lemma rob_wf_init: "0 < n \<Longrightarrow> rob_wf (rob_init n) \<and> rob_abs (rob_init n) = []"
  by (simp add: rob_wf_def rob_init_def rob_abs_def)

text \<open>A criterion by ages: the first \<open>n\<close> slots are busy and only they may be done.\<close>

lemma rob_wfI:
  assumes "length (rob_buffer r) = rob_capacity r" "rob_head r < rob_capacity r"
    and "rob_active_count r \<le> rob_capacity r" "rob_tail r = rob_slot r (rob_active_count r)"
    and "\<And>k. k < rob_capacity r \<Longrightarrow> re_busy (rob_buffer r ! rob_slot r k) \<longleftrightarrow> k < rob_active_count r"
    and "\<And>k. k < rob_capacity r \<Longrightarrow> re_done (rob_buffer r ! rob_slot r k) \<Longrightarrow> k < rob_active_count r"
  shows "rob_wf r"
proof -
  have slot: "t = rob_slot r (ring_age (rob_capacity r) (rob_head r) t)"
      "ring_age (rob_capacity r) (rob_head r) t < rob_capacity r" if "t < rob_capacity r" for t
    using that assms(2) ring_index_of_age [of "rob_head r" "rob_capacity r" t]
    by (auto simp: rob_slot_def intro: ring_age_less)
  have "re_busy (rob_buffer r ! t) \<longleftrightarrow> ring_age (rob_capacity r) (rob_head r) t < rob_active_count r"
      "re_done (rob_buffer r ! t) \<Longrightarrow> re_busy (rob_buffer r ! t)" if "t < rob_capacity r" for t
    using slot [OF that] assms(5,6) by metis+
  with assms(1-4) show ?thesis by (auto simp: rob_wf_def rob_slot_def)
qed

lemma rob_busy_count_wf: "rob_wf r \<Longrightarrow> rob_busy_count r = rob_active_count r"
proof -
  assume wf: "rob_wf r"
  have "bij_betw (rob_slot r) {k. k < rob_active_count r} {i. i < rob_capacity r \<and> re_busy (rob_buffer r ! i)}"
  proof (rule bij_betw_byWitness [where f' = "ring_age (rob_capacity r) (rob_head r)"])
    have le: "rob_active_count r \<le> rob_capacity r" using wf by (simp add: rob_wf_def)
    show "\<forall>k \<in> {k. k < rob_active_count r}. ring_age (rob_capacity r) (rob_head r) (rob_slot r k) = k"
      using le rob_slot_age [OF wf] by simp
    show "\<forall>i \<in> {i. i < rob_capacity r \<and> re_busy (rob_buffer r ! i)}.
        rob_slot r (ring_age (rob_capacity r) (rob_head r) i) = i"
      using rob_slot_of_age [OF wf] by simp
    show "rob_slot r ` {k. k < rob_active_count r} \<subseteq> {i. i < rob_capacity r \<and> re_busy (rob_buffer r ! i)}"
      using le rob_slot_less [OF wf] rob_busy_slot [OF wf] by auto
    show "ring_age (rob_capacity r) (rob_head r) ` {i. i < rob_capacity r \<and> re_busy (rob_buffer r ! i)}
        \<subseteq> {k. k < rob_active_count r}"
      using wf by (auto simp: rob_wf_def)
  qed
  then have "card {i. i < rob_capacity r \<and> re_busy (rob_buffer r ! i)} = rob_active_count r"
    by (metis bij_betw_same_card card_Collect_less_nat)
  moreover have "rob_busy_count r = card (set (filter (\<lambda>i. re_busy (rob_buffer r ! i)) [0..<rob_capacity r]))"
    unfolding rob_busy_count_def by (rule distinct_card [symmetric]) simp
  moreover have "set (filter (\<lambda>i. re_busy (rob_buffer r ! i)) [0..<rob_capacity r])
      = {i. i < rob_capacity r \<and> re_busy (rob_buffer r ! i)}" by auto
  ultimately show ?thesis by simp
qed

section \<open>The operations on the queue\<close>

lemma rob_dispatch_ok:
  assumes wf: "rob_wf r" and n: "rob_active_count r < rob_capacity r"
  shows "\<exists>r'. rob_dispatch op d r = Some (Some (rob_tail r), r') \<and> rob_wf r'
    \<and> rob_abs r' = rob_abs r @ [(rob_tail r, op, d, None)] \<and> rob_capacity r' = rob_capacity r
    \<and> rob_head r' = rob_head r"
proof -
  let ?n = "rob_active_count r"
  have tl: "rob_tail r = rob_slot r ?n" using wf by (simp add: rob_wf_def rob_slot_def)
  have lt: "rob_slot r ?n < rob_capacity r" by (rule rob_slot_less [OF wf])
  have len: "length (rob_buffer r) = rob_capacity r" "rob_head r < rob_capacity r"
    using wf by (auto simp: rob_wf_def)
  define e where "e = (rob_buffer r ! rob_slot r ?n)\<lparr>re_busy := True, re_op := op, re_dest_reg := d, re_done := False\<rparr>"
  define r' where "r' = r\<lparr>rob_buffer := (rob_buffer r)[rob_slot r ?n := e],
      rob_tail := (rob_tail r + 1) mod rob_capacity r, rob_active_count := ?n + 1\<rparr>"
  have nb: "\<not> re_busy (rob_buffer r ! rob_slot r ?n)" using rob_busy_slot [OF wf n] by simp
  then have st: "rob_dispatch op d r = Some (Some (rob_tail r), r')"
    using n lt by (simp add: rob_dispatch_def Let_def tl e_def r'_def)
  have sl: "rob_slot r' k = rob_slot r k" for k by (simp add: rob_slot_def r'_def)
  have act: "rob_active_count r' = ?n + 1" by (simp add: r'_def)
  have buf: "rob_buffer r' ! rob_slot r k = (if k = ?n then e else rob_buffer r ! rob_slot r k)"
    if "k < rob_capacity r" for k
    using that n lt len rob_slot_inj [OF wf n that] by (auto simp: r'_def nth_list_update)
  have "rob_wf r'"
  proof (rule rob_wfI)
    show "rob_tail r' = rob_slot r' (rob_active_count r')"
      unfolding sl by (simp add: r'_def tl rob_slot_def mod_Suc_eq)
    fix k assume "k < rob_capacity r'"
    then have k: "k < rob_capacity r" by (simp add: r'_def)
    show "re_busy (rob_buffer r' ! rob_slot r' k) \<longleftrightarrow> k < rob_active_count r'"
      unfolding sl act buf [OF k] using rob_busy_slot [OF wf k] by (auto simp: e_def)
    show "re_done (rob_buffer r' ! rob_slot r' k) \<Longrightarrow> k < rob_active_count r'"
      unfolding sl act buf [OF k] using rob_done_slot [OF wf k] by (auto simp: e_def split: if_splits)
  qed (use len n in \<open>simp_all add: r'_def\<close>)
  moreover have "rob_abs r' = rob_abs r @ [(rob_tail r, op, d, None)]"
  proof (rule nth_equalityI)
    fix k assume "k < length (rob_abs r')"
    then have k: "k < Suc ?n" "k < rob_capacity r" using n by (simp_all add: r'_def)
    have "rob_abs r' ! k = (let e' = rob_buffer r' ! rob_slot r k in
       (rob_slot r k, re_op e', re_dest_reg e', if re_done e' then Some (re_value e') else None))"
      using nth_rob_abs [of k r'] k(1) unfolding sl act by simp
    then show "rob_abs r' ! k = (rob_abs r @ [(rob_tail r, op, d, None)]) ! k"
      using buf [OF k(2)] k by (auto simp: nth_append nth_rob_abs Let_def tl e_def less_Suc_eq)
  qed (simp add: r'_def)
  moreover have "rob_capacity r' = rob_capacity r" "rob_head r' = rob_head r" by (simp_all add: r'_def)
  ultimately show ?thesis using st by blast
qed

lemma rob_dispatch_full: "rob_active_count r = rob_capacity r \<Longrightarrow> rob_dispatch op d r = Some (None, r)"
  by (simp add: rob_dispatch_def)

text \<open>Writing a result sets the result of the instruction with that tag, if it is in flight.\<close>

definition set_result :: "tag \<Rightarrow> i32 \<Rightarrow> robspec \<Rightarrow> robspec" where
  "set_result t v q = map (\<lambda>(t', op, d, x). (t', op, d, if t' = t then Some v else x)) q"

lemma rob_write_ok:
  assumes wf: "rob_wf r" and t: "t < rob_capacity r"
  shows "\<exists>r'. rob_writeResult t v r = Some r' \<and> rob_wf r' \<and> rob_abs r' = set_result t v (rob_abs r)
    \<and> rob_capacity r' = rob_capacity r \<and> rob_head r' = rob_head r"
proof -
  have len: "length (rob_buffer r) = rob_capacity r" using wf by (simp add: rob_wf_def)
  define r' where "r' = (if re_busy (rob_buffer r ! t)
       then r\<lparr>rob_buffer := (rob_buffer r)[t := (rob_buffer r ! t)\<lparr>re_value := v, re_done := True\<rparr>]\<rparr>
       else r)"
  have fr: "rob_slot r' k = rob_slot r k" "rob_capacity r' = rob_capacity r" "rob_head r' = rob_head r"
      "rob_active_count r' = rob_active_count r" "rob_tail r' = rob_tail r"
      "length (rob_buffer r') = length (rob_buffer r)" for k
    by (auto simp: r'_def rob_slot_def)
  have "rob_wf r'"
    using wf t len unfolding rob_wf_def fr by (auto simp: r'_def nth_list_update)
  moreover have "rob_abs r' = set_result t v (rob_abs r)"
  proof (rule nth_equalityI)
    fix k assume "k < length (rob_abs r')"
    then have k: "k < rob_active_count r" "k < rob_capacity r" using wf by (simp_all add: fr rob_wf_def)
    then have "re_busy (rob_buffer r ! rob_slot r k)" using rob_busy_slot [OF wf] by simp
    then have "rob_buffer r' ! rob_slot r k = (if rob_slot r k = t
        then (rob_buffer r ! t)\<lparr>re_value := v, re_done := True\<rparr> else rob_buffer r ! rob_slot r k)"
      using t len by (auto simp: r'_def nth_list_update)
    then show "rob_abs r' ! k = set_result t v (rob_abs r) ! k"
      using k by (simp add: set_result_def nth_rob_abs fr Let_def)
  qed (simp add: fr set_result_def)
  ultimately show ?thesis using t fr by (simp add: rob_writeResult_def r'_def)
qed

lemma rob_commit_ok:
  assumes wf: "rob_wf r"
  shows "case rob_abs r of
      [] \<Rightarrow> rob_commit r = None
    | (t, op, d, None) # q \<Rightarrow> rob_commit r = None
    | (t, op, d, Some v) # q \<Rightarrow> (\<exists>r'. rob_commit r = Some ((d, v, t), r') \<and> rob_wf r' \<and> rob_abs r' = q
        \<and> rob_capacity r' = rob_capacity r)"
proof (cases "rob_active_count r")
  case 0
  then have "rob_abs r = []" by (metis length_rob_abs length_0_conv)
  with 0 show ?thesis by (simp add: rob_commit_def)
next
  case (Suc n)
  have h: "rob_head r < rob_capacity r" "length (rob_buffer r) = rob_capacity r" "Suc n \<le> rob_capacity r"
      "rob_tail r = (rob_head r + Suc n) mod rob_capacity r"
    using wf Suc by (auto simp: rob_wf_def)
  have s0: "rob_slot r 0 = rob_head r" using h by (simp add: rob_slot_def)
  let ?e = "rob_buffer r ! rob_head r"
  define q where "q = map (\<lambda>k. let e = rob_buffer r ! rob_slot r (Suc k) in
       (rob_slot r (Suc k), re_op e, re_dest_reg e, if re_done e then Some (re_value e) else None)) [0..<n]"
  have abs: "rob_abs r = (rob_head r, re_op ?e, re_dest_reg ?e, if re_done ?e then Some (re_value ?e) else None) # q"
    by (simp add: rob_abs_def Suc upt_conv_Cons map_Suc_upt [symmetric] s0 q_def Let_def comp_def del: upt_Suc)
  define r' where "r' = r\<lparr>rob_buffer := (rob_buffer r)[rob_head r := free_entry ?e],
            rob_head := (rob_head r + 1) mod rob_capacity r, rob_active_count := n\<rparr>"
  have sl: "rob_slot r' k = rob_slot r (Suc k)" for k
    by (simp add: rob_slot_def r'_def mod_add_left_eq)
  have buf: "rob_buffer r' ! rob_slot r k = (if k = 0 then free_entry ?e else rob_buffer r ! rob_slot r k)"
    if "k < rob_capacity r" for k
    using that h rob_slot_inj [OF wf _ that, of 0] s0 by (auto simp: r'_def nth_list_update)
  have act: "rob_active_count r' = n" by (simp add: r'_def)
  have wrap: "rob_slot r (rob_capacity r) = rob_slot r 0"
    by (simp add: rob_slot_def)
  have "rob_wf r'"
  proof (rule rob_wfI)
    show "rob_tail r' = rob_slot r' (rob_active_count r')"
      unfolding sl by (simp add: r'_def rob_slot_def h)
    fix k assume "k < rob_capacity r'"
    then have "k < rob_capacity r" by (simp add: r'_def)
    then consider "Suc k < rob_capacity r" | "Suc k = rob_capacity r" by linarith
    then show "re_busy (rob_buffer r' ! rob_slot r' k) \<longleftrightarrow> k < rob_active_count r'"
    proof cases
      case 1
      then show ?thesis unfolding sl act buf [OF 1] using rob_busy_slot [OF wf 1] by (simp add: Suc)
    next
      case 2
      then have "rob_buffer r' ! rob_slot r (Suc k) = free_entry ?e" using buf [of 0] h wrap by simp
      then show ?thesis unfolding sl act using 2 h by (simp add: free_entry_def)
    qed
    then show "re_done (rob_buffer r' ! rob_slot r' k) \<Longrightarrow> k < rob_active_count r'"
    proof -
      assume dn: "re_done (rob_buffer r' ! rob_slot r' k)"
      from \<open>k < rob_capacity r\<close> consider "Suc k < rob_capacity r" | "Suc k = rob_capacity r" by linarith
      then show ?thesis
      proof cases
        case 1
        then show ?thesis using dn rob_done_slot [OF wf 1] unfolding sl act buf [OF 1] by (simp add: Suc)
      next
        case 2
        then have "rob_buffer r' ! rob_slot r (Suc k) = free_entry ?e" using buf [of 0] h wrap by simp
        then show ?thesis using dn unfolding sl by (simp add: free_entry_def)
      qed
    qed
  qed (use h in \<open>auto simp: r'_def\<close>)
  moreover have "rob_abs r' = q"
  proof (rule nth_equalityI)
    fix k assume "k < length (rob_abs r')"
    then have k: "k < n" "Suc k < rob_capacity r" using h by (simp_all add: r'_def)
    have "rob_active_count r' = n" by (simp add: r'_def)
    then show "rob_abs r' ! k = q ! k"
      using k buf [OF k(2)] by (simp add: nth_rob_abs sl q_def Let_def)
  qed (simp add: r'_def q_def)
  ultimately show ?thesis
    unfolding abs by (simp add: rob_commit_def Suc Let_def r'_def)
qed

text \<open>Two buffers with the same ring whose entries agree on the occupied part.\<close>

lemma rob_abs_prefix:
  assumes "rob_capacity r' = rob_capacity r" "rob_head r' = rob_head r"
    and "rob_active_count r' \<le> rob_active_count r"
    and "\<And>k. k < rob_active_count r' \<Longrightarrow> rob_buffer r' ! rob_slot r k = rob_buffer r ! rob_slot r k"
  shows "rob_abs r' = take (rob_active_count r') (rob_abs r)"
proof -
  have "rob_slot r' k = rob_slot r k" for k using assms(1,2) by (simp add: rob_slot_def)
  then show ?thesis
    using assms(3,4) by (intro nth_equalityI) (simp_all add: nth_rob_abs)
qed

lemma rob_squash_ok:
  assumes wf: "rob_wf r" and k: "k < rob_active_count r"
  shows "\<exists>r'. rob_squashYoungerThan (rob_slot r k) r = Some (rob_active_count r - Suc k, r') \<and> rob_wf r'
    \<and> rob_abs r' = take (Suc k) (rob_abs r) \<and> rob_capacity r' = rob_capacity r \<and> rob_head r' = rob_head r"
proof -
  let ?st = "rob_slot r k" and ?cap = "rob_capacity r"
  have h: "rob_active_count r \<le> ?cap" "rob_head r < ?cap" "k < ?cap" using wf k by (auto simp: rob_wf_def)
  have st: "?st < ?cap" "re_busy (rob_buffer r ! ?st)" "ring_age ?cap (rob_head r) ?st = k"
    using rob_slot_less [OF wf] rob_busy_slot [OF wf h(3)] rob_slot_age [OF wf h(3)] k by auto
  define hit where "hit = (\<lambda>i. re_busy (rob_buffer r ! i) \<and> rob_isYounger r i ?st = Some True)"
  define buf where "buf = map (\<lambda>i. if hit i then free_entry (rob_buffer r ! i) else rob_buffer r ! i) [0..<?cap]"
  define r' where "r' = r\<lparr>rob_buffer := buf, rob_tail := (?st + 1) mod ?cap, rob_active_count := k + 1\<rparr>"
  have hit_slot: "hit (rob_slot r j) \<longleftrightarrow> k < j \<and> j < rob_active_count r" if "j < ?cap" for j
    using that rob_busy_slot [OF wf that] rob_slot_age [OF wf that] rob_slot_less [OF wf, of j] st
    by (auto simp: hit_def rob_isYounger_def ageFromHead_ring)
  have sl: "rob_slot r' j = rob_slot r j" for j by (simp add: rob_slot_def r'_def)
  have act: "rob_active_count r' = Suc k" "rob_capacity r' = ?cap" "rob_head r' = rob_head r" "rob_buffer r' = buf"
    by (simp_all add: r'_def)
  have bf: "buf ! rob_slot r j = (if k < j \<and> j < rob_active_count r
      then free_entry (rob_buffer r ! rob_slot r j) else rob_buffer r ! rob_slot r j)" if "j < ?cap" for j
    using rob_slot_less [OF wf, of j] hit_slot [OF that] by (simp add: buf_def)
  have wf': "rob_wf r'"
  proof (rule rob_wfI)
    show "rob_tail r' = rob_slot r' (rob_active_count r')"
      unfolding sl act by (simp add: r'_def rob_slot_def mod_Suc_eq)
    fix j assume "j < rob_capacity r'"
    then have j: "j < ?cap" by (simp add: act)
    show "re_busy (rob_buffer r' ! rob_slot r' j) \<longleftrightarrow> j < rob_active_count r'"
      unfolding sl act bf [OF j] using rob_busy_slot [OF wf j] k by (auto simp: free_entry_def)
    show "re_done (rob_buffer r' ! rob_slot r' j) \<Longrightarrow> j < rob_active_count r'"
      unfolding sl act bf [OF j] using rob_done_slot [OF wf j] by (auto simp: free_entry_def split: if_splits)
  qed (use h in \<open>simp_all add: act buf_def\<close>)
  have abs: "rob_abs r' = take (Suc k) (rob_abs r)"
    unfolding act(1) [symmetric] by (rule rob_abs_prefix) (use k h bf in \<open>auto simp: act\<close>)
  have "length (filter hit [0..<?cap]) = rob_active_count r - Suc k"
  proof -
    let ?b = "filter (\<lambda>i. re_busy (rob_buffer r ! i)) [0..<?cap]"
    have "length (filter hit ?b) + length (filter (\<lambda>i. \<not> hit i) ?b) = length ?b"
      by (rule sum_length_filter_compl)
    moreover have "filter hit ?b = filter hit [0..<?cap]"
      unfolding filter_filter by (intro filter_cong) (auto simp: hit_def)
    moreover have "filter (\<lambda>i. \<not> hit i) ?b = filter (\<lambda>i. re_busy (rob_buffer r' ! i)) [0..<?cap]"
      unfolding filter_filter act by (intro filter_cong) (auto simp: buf_def free_entry_def)
    ultimately show ?thesis
      using rob_busy_count_wf [OF wf] rob_busy_count_wf [OF wf'] by (simp add: rob_busy_count_def act)
  qed
  then have "rob_squashYoungerThan ?st r = Some (rob_active_count r - Suc k, r')"
    using st h k rob_busy_count_wf [OF wf']
    by (simp add: rob_squashYoungerThan_def ageFromHead_ring Let_def r'_def buf_def hit_def)
  with wf' abs act show ?thesis by blast
qed

lemma rob_undispatch_ok:
  assumes wf: "rob_wf r" and n: "rob_active_count r = Suc n"
  shows "\<exists>r'. rob_undispatch (rob_slot r n) r = (True, r') \<and> rob_wf r' \<and> rob_abs r' = butlast (rob_abs r)
    \<and> rob_capacity r' = rob_capacity r \<and> rob_head r' = rob_head r"
proof -
  let ?cap = "rob_capacity r" and ?t = "rob_slot r n"
  have h: "Suc n \<le> ?cap" "rob_head r < ?cap" "length (rob_buffer r) = ?cap"
      "rob_tail r = rob_slot r (Suc n)" using wf n by (auto simp: rob_wf_def rob_slot_def)
  have l: "(rob_tail r + ?cap - 1) mod ?cap = ?t"
  proof (cases "rob_tail r")
    case 0
    then have "(rob_head r + Suc n) mod ?cap = 0" using h by (simp add: rob_slot_def)
    then show ?thesis using h 0 by (simp add: rob_slot_def mod_Suc split: if_splits)
  next
    case (Suc m)
    then have "Suc m = Suc (rob_head r + n) mod ?cap" using h by (simp add: rob_slot_def)
    then show ?thesis using h Suc by (simp add: rob_slot_def mod_Suc split: if_splits)
  qed
  define r' where "r' = r\<lparr>rob_buffer := (rob_buffer r)[?t := free_entry (rob_buffer r ! ?t)],
      rob_tail := ?t, rob_active_count := n\<rparr>"
  have n_cap: "n < ?cap" using h by simp
  have busy: "re_busy (rob_buffer r ! ?t)" using rob_busy_slot [OF wf n_cap] n by simp
  have sl: "rob_slot r' j = rob_slot r j" for j by (simp add: rob_slot_def r'_def)
  have act: "rob_active_count r' = n" "rob_capacity r' = ?cap" "rob_head r' = rob_head r" by (simp_all add: r'_def)
  have bf: "rob_buffer r' ! rob_slot r j = (if j = n then free_entry (rob_buffer r ! ?t) else rob_buffer r ! rob_slot r j)"
    if "j < ?cap" for j
    using that rob_slot_less [OF wf, of n] rob_slot_inj [OF wf n_cap that] h(3)
    by (auto simp: r'_def nth_list_update)
  have "rob_wf r'"
  proof (rule rob_wfI)
    show "rob_tail r' = rob_slot r' (rob_active_count r')" unfolding sl act by (simp add: r'_def)
    fix j assume "j < rob_capacity r'"
    then have j: "j < ?cap" by (simp add: act)
    show "re_busy (rob_buffer r' ! rob_slot r' j) \<longleftrightarrow> j < rob_active_count r'"
      unfolding sl act bf [OF j] using rob_busy_slot [OF wf j] n by (auto simp: free_entry_def)
    show "re_done (rob_buffer r' ! rob_slot r' j) \<Longrightarrow> j < rob_active_count r'"
      unfolding sl act bf [OF j] using rob_done_slot [OF wf j] n by (auto simp: free_entry_def split: if_splits)
  qed (use h in \<open>simp_all add: r'_def\<close>)
  moreover have "rob_abs r' = take n (rob_abs r)"
    unfolding act(1) [symmetric] by (rule rob_abs_prefix) (use n h bf in \<open>auto simp: act\<close>)
  then have "rob_abs r' = butlast (rob_abs r)" by (simp add: butlast_conv_take n)
  moreover have "rob_undispatch ?t r = (True, r')"
    using n l busy by (simp add: rob_undispatch_def Let_def r'_def)
  ultimately show ?thesis using act by blast
qed

lemma rob_undispatch_other:
  assumes "rob_wf r" "rob_active_count r = 0 \<or> t \<noteq> rob_slot r (rob_active_count r - 1)"
  shows "rob_undispatch t r = (False, r)"
proof (cases "rob_active_count r")
  case (Suc n)
  then obtain r' where u: "rob_undispatch (rob_slot r n) r = (True, r')"
    using rob_undispatch_ok [OF assms(1) Suc] by blast
  then have "rob_slot r n = (rob_tail r + rob_capacity r - 1) mod rob_capacity r"
    by (auto simp: rob_undispatch_def Let_def split: if_splits)
  then show ?thesis using assms(2) Suc by (simp add: rob_undispatch_def Let_def)
qed (simp add: rob_undispatch_def)

section \<open>The queue contract and runs\<close>

definition rob_dests :: "ReorderBuffer \<Rightarrow> int list" where
  "rob_dests r = map (\<lambda>(t, op, d, x). d) (rob_abs r)"

lemma length_rob_dests [simp]: "length (rob_dests r) = rob_active_count r"
  by (simp add: rob_dests_def)

definition rob_enq :: "string \<times> int \<Rightarrow> ReorderBuffer \<Rightarrow> ReorderBuffer option" where
  "rob_enq x r = (case rob_dispatch (fst x) (snd x) r of Some (Some t, r') \<Rightarrow> Some r' | _ \<Rightarrow> None)"

definition rob_deq :: "ReorderBuffer \<Rightarrow> (int \<times> ReorderBuffer) option" where
  "rob_deq r = map_option (\<lambda>((d, v, t), r'). (d, r')) (rob_commit r)"

lemma rob_deq_ok:
  assumes "rob_wf r" "rob_deq r = Some (d, r')"
  shows "rob_wf r' \<and> rob_dests r = d # rob_dests r' \<and> rob_capacity r' = rob_capacity r"
  using rob_commit_ok [OF assms(1)] assms(2)
  by (auto simp: rob_deq_def rob_dests_def split: list.splits option.splits)

interpretation rob: bounded_fifo rob_wf rob_dests rob_capacity rob_enq snd rob_deq
proof (unfold_locales, goal_cases)
  case (1 q x)
  then show ?case
    using rob_dispatch_ok [of q "fst x" "snd x"] by (auto simp: rob_enq_def rob_dests_def)
next
  case (2 q x)
  then show ?case by (simp add: rob_enq_def rob_dispatch_full)
next
  case (3 q a q')
  then show ?case by (rule rob_deq_ok)
next
  case (4 q)
  then show ?case by (simp add: rob_wf_def)
qed

text \<open>
  Runs of the buffer with the history of the instructions it was given, less those that were
  withdrawn or squashed, and the destinations that left it at commit.
\<close>

inductive rob_run :: "nat \<Rightarrow> ReorderBuffer \<Rightarrow> int list \<Rightarrow> int list \<Rightarrow> bool" for cap where
  init: "rob_run cap (rob_init cap) [] []"
| dispatch: "rob_run cap r h c \<Longrightarrow> rob_dispatch op d r = Some (Some t, r') \<Longrightarrow> rob_run cap r' (h @ [d]) c"
| undispatch: "rob_run cap r h c \<Longrightarrow> rob_undispatch t r = (True, r') \<Longrightarrow> rob_run cap r' (butlast h) c"
| result: "rob_run cap r h c \<Longrightarrow> rob_writeResult t v r = Some r' \<Longrightarrow> rob_run cap r' h c"
| commit: "rob_run cap r h c \<Longrightarrow> rob_commit r = Some ((d, v, t), r') \<Longrightarrow> rob_run cap r' h (c @ [d])"
| squash: "rob_run cap r h c \<Longrightarrow> rob_squashYoungerThan t r = Some (n, r') \<Longrightarrow>
    rob_run cap r' (take (length h - n) h) c"

lemma rob_run_inv:
  assumes "0 < cap" "rob_run cap r h c"
  shows "rob_wf r \<and> rob_capacity r = cap \<and> h = c @ rob_dests r"
  using assms(2)
proof induction
  case init
  then show ?case using rob_wf_init [OF assms(1)] by (auto simp: rob_dests_def) (simp add: rob_init_def)
next
  case (dispatch r h c op d t r')
  then have "rob_enq (op, d) r = Some r'" by (simp add: rob_enq_def)
  with dispatch.IH rob.enqD [of r "(op, d)" r'] show ?case by auto
next
  case (undispatch r h c t r')
  then obtain n where n: "rob_active_count r = Suc n" "t = rob_slot r n"
    using rob_undispatch_other [of r t] by (cases "rob_active_count r") auto
  with undispatch rob_undispatch_ok [of r n] have r': "rob_wf r'" "rob_abs r' = butlast (rob_abs r)"
      "rob_capacity r' = rob_capacity r" by auto
  moreover have "rob_abs r \<noteq> []" using n(1) by (metis length_rob_abs list.size(3) nat.distinct(1))
  ultimately show ?case using undispatch.IH
    by (auto simp: rob_dests_def butlast_append map_butlast)
next
  case (result r h c t v r')
  then have "t < rob_capacity r" by (simp add: rob_writeResult_def split: if_splits)
  with result rob_write_ok [of r t v] have "rob_wf r'" "rob_capacity r' = rob_capacity r"
      "rob_abs r' = set_result t v (rob_abs r)" by auto
  then show ?case using result.IH by (auto simp: rob_dests_def set_result_def case_prod_beta)
next
  case (commit r h c d v t r')
  then have "rob_deq r = Some (d, r')" by (simp add: rob_deq_def)
  with commit.IH rob_deq_ok [of r d r'] show ?case by auto
next
  case (squash r h c t n r')
  then have t: "t < rob_capacity r" "re_busy (rob_buffer r ! t)"
    by (auto simp: rob_squashYoungerThan_def split: if_splits)
  let ?a = "ring_age (rob_capacity r) (rob_head r) t"
  have age: "?a < rob_active_count r" "rob_slot r ?a = t"
    using t squash.IH rob_slot_of_age [of r t] by (auto simp: rob_wf_def)
  with squash rob_squash_ok [of r ?a]
  have r': "rob_wf r'" "rob_capacity r' = rob_capacity r"
      "n = rob_active_count r - Suc ?a" "rob_abs r' = take (Suc ?a) (rob_abs r)" by auto
  then have "length h - n = length c + Suc ?a"
    using squash.IH age(1) by simp
  then show ?case using squash.IH r' by (simp add: rob_dests_def take_map)
qed

section \<open>Properties\<close>

text \<open>
  C15: the ring of entries refines a queue of instructions: dispatch appends an instruction
  without a result under the tag it returns (and reports \<open>-1\<close> exactly when the buffer is full),
  a result write fills in the result of that tag only, and commit removes the oldest
  instruction, with its result, exactly when it has one. No assertion fails.
\<close>

theorem rob_refines_queue:
  assumes "rob_wf r"
  shows "(if rob_hasSpace r
      then \<exists>t r'. rob_dispatch op d r = Some (Some t, r') \<and> rob_wf r' \<and> rob_abs r' = rob_abs r @ [(t, op, d, None)]
      else rob_dispatch op d r = Some (None, r))
    \<and> (\<forall>t < rob_capacity r. \<exists>r'. rob_writeResult t v r = Some r' \<and> rob_wf r'
         \<and> rob_abs r' = set_result t v (rob_abs r))
    \<and> (case rob_abs r of
        (t, op, d, Some v) # q \<Rightarrow> (\<exists>r'. rob_commit r = Some ((d, v, t), r') \<and> rob_wf r' \<and> rob_abs r' = q)
      | _ \<Rightarrow> rob_commit r = None)"
proof (intro conjI)
  have "rob_active_count r \<le> rob_capacity r" using assms by (simp add: rob_wf_def)
  then show "if rob_hasSpace r
      then \<exists>t r'. rob_dispatch op d r = Some (Some t, r') \<and> rob_wf r' \<and> rob_abs r' = rob_abs r @ [(t, op, d, None)]
      else rob_dispatch op d r = Some (None, r)"
    using rob_dispatch_ok [OF assms, of op d] rob_dispatch_full [of r op d]
    by (auto simp: rob_hasSpace_def)
  show "\<forall>t < rob_capacity r. \<exists>r'. rob_writeResult t v r = Some r' \<and> rob_wf r'
         \<and> rob_abs r' = set_result t v (rob_abs r)"
    using rob_write_ok [OF assms] by blast
  show "case rob_abs r of
        (t, op, d, Some v) # q \<Rightarrow> (\<exists>r'. rob_commit r = Some ((d, v, t), r') \<and> rob_wf r' \<and> rob_abs r' = q)
      | _ \<Rightarrow> rob_commit r = None"
  proof (cases "rob_abs r")
    case Nil
    then show ?thesis using rob_commit_ok [OF assms] by simp
  next
    case (Cons x q)
    obtain t op d y where "x = (t, op, d, y)" by (cases x)
    then show ?thesis using rob_commit_ok [OF assms] Cons by (cases y) auto
  qed
qed

lemma rob_refines_queue_witness:
  "\<exists>t r'. rob_dispatch ''ADD'' 3 (rob_init 2) = Some (Some t, r') \<and> rob_abs r' = [(t, ''ADD'', 3, None)]"
proof -
  have "rob_hasSpace (rob_init 2)" by (simp add: rob_hasSpace_def rob_init_def)
  then show ?thesis
    using rob_refines_queue [of "rob_init 2" "''ADD''" 3 0] rob_wf_init [of 2] by auto
qed

text \<open>
  C14: selective squash is exact: at an in-flight instruction it keeps that instruction and
  everything older, in order and with their results, frees everything younger, reports their
  number, and its occupancy assertion holds. A following dispatch gets the next tag.
\<close>

theorem rob_squash_exact:
  assumes "rob_wf r" "k < length (rob_abs r)"
  shows "\<exists>r'. rob_squashYoungerThan (fst (rob_abs r ! k)) r = Some (length (rob_abs r) - Suc k, r')
    \<and> rob_checkInvariant r' \<and> rob_abs r' = take (Suc k) (rob_abs r)
    \<and> (\<forall>j < length (rob_abs r). rob_isYounger r (fst (rob_abs r ! j)) (fst (rob_abs r ! k)) = Some (k < j))
    \<and> rob_tail r' = (fst (rob_abs r ! k) + 1) mod rob_capacity r"
proof -
  have k: "k < rob_active_count r" using assms(2) by simp
  obtain r' where r': "rob_squashYoungerThan (rob_slot r k) r = Some (rob_active_count r - Suc k, r')"
      "rob_wf r'" "rob_abs r' = take (Suc k) (rob_abs r)" "rob_capacity r' = rob_capacity r" "rob_head r' = rob_head r"
    using rob_squash_ok [OF assms(1) k] by blast
  have le: "rob_active_count r \<le> rob_capacity r" using assms(1) by (simp add: rob_wf_def)
  have "rob_isYounger r (rob_slot r j) (rob_slot r k) = Some (k < j)" if "j < rob_active_count r" for j
    using that k le rob_slot_less [OF assms(1)] rob_slot_age [OF assms(1), of j] rob_slot_age [OF assms(1), of k]
    by (simp add: rob_isYounger_def ageFromHead_ring)
  moreover have "rob_active_count r' = Suc k"
    using arg_cong [OF r'(3), of length] k by simp
  then have "rob_tail r' = (rob_slot r k + 1) mod rob_capacity r"
    using r' by (simp add: rob_wf_def rob_slot_def mod_Suc_eq)
  moreover have "rob_checkInvariant r'"
    using r'(2) rob_busy_count_wf [OF r'(2)] by (auto simp: rob_checkInvariant_def rob_wf_def)
  ultimately show ?thesis using r' k by (simp add: fst_nth_rob_abs)
qed

definition rob_demo :: ReorderBuffer where
  "rob_demo = \<lparr>rob_buffer =
     [\<lparr>re_busy = True, re_op = ''ADD'', re_dest_reg = 7, re_value = 5, re_done = True\<rparr>,
      \<lparr>re_busy = False, re_op = '''', re_dest_reg = 0, re_value = 0, re_done = False\<rparr>,
      \<lparr>re_busy = True, re_op = ''BEQ'', re_dest_reg = 0, re_value = 0, re_done = False\<rparr>],
    rob_capacity = 3, rob_head = 2, rob_tail = 1, rob_active_count = 2\<rparr>"

lemma rob_demo_wf: "rob_wf rob_demo"
  by code_simp

lemma rob_squash_exact_witness:
  "\<exists>r'. rob_squashYoungerThan 2 rob_demo = Some (1, r') \<and> rob_abs r' = [(2, ''BEQ'', 0, None)]"
proof -
  have a: "rob_abs rob_demo = [(2, ''BEQ'', 0, None), (0, ''ADD'', 7, Some 5)]"
    by code_simp
  show ?thesis using rob_squash_exact [OF rob_demo_wf, of 0] a by auto
qed

text \<open>
  C7: instructions commit in program order, exactly once, and a squashed or withdrawn
  instruction never commits: in every run, the destinations committed so far followed by
  those in flight are the dispatched instructions less the squashed ones, and the
  buffer's own consistency check succeeds.
\<close>

theorem rob_commits_in_order:
  assumes "0 < cap" "rob_run cap r h c"
  shows "h = c @ rob_dests r \<and> rob_checkInvariant r \<and> length (rob_dests r) \<le> cap"
  using rob_run_inv [OF assms] rob_busy_count_wf [of r]
  by (auto simp: rob_checkInvariant_def rob_wf_def)

lemma rob_run_demo: "\<exists>r. rob_run 2 r [4, 9] [4]"
proof -
  note s = rob_dispatch_def rob_init_def Let_def rob_writeResult_def rob_commit_def
  define r1 where "r1 = snd (the (rob_dispatch ''ADD'' 4 (rob_init 2)))"
  define r2 where "r2 = snd (the (rob_dispatch ''SUB'' 9 r1))"
  define r3 where "r3 = the (rob_writeResult 0 6 r2)"
  define r4 where "r4 = snd (the (rob_commit r3))"
  have "rob_dispatch ''ADD'' 4 (rob_init 2) = Some (Some 0, r1)" by (simp add: s r1_def)
  from rob_run.dispatch [OF rob_run.init this] have 1: "rob_run 2 r1 [4] []" by simp
  have "rob_dispatch ''SUB'' 9 r1 = Some (Some 1, r2)" by (simp add: s r1_def r2_def)
  from rob_run.dispatch [OF 1 this] have 2: "rob_run 2 r2 [4, 9] []" by simp
  have "rob_writeResult 0 6 r2 = Some r3" by (simp add: s r1_def r2_def r3_def)
  from rob_run.result [OF 2 this] have 3: "rob_run 2 r3 [4, 9] []" .
  have "rob_commit r3 = Some ((4, 6, 0), r4)" by (simp add: s r1_def r2_def r3_def r4_def)
  from rob_run.commit [OF 3 this] show ?thesis by auto
qed

lemma rob_commits_in_order_witness: "\<exists>r. rob_run 2 r [4, 9] [4] \<and> rob_dests r = [9]"
  using rob_run_demo rob_commits_in_order [of 2 _ "[4, 9]" "[4]"] by auto

end
