(* ===== verification/ReservationStation.thy ===== *)
theory ReservationStation
  imports Types Interfaces
begin

text \<open>
  The reservation station of \<open>src/reservation_station.cpp\<close>: a pool of instructions waiting
  for operands, woken by the results on the common data bus. It implements the slot pool.
\<close>

section \<open>State and operations\<close>

record RSEntry =
  rse_valid :: bool
  rse_inst_id :: u32
  rse_src1_ready :: bool
  rse_src1_tag :: "tag option"
  rse_src1_value :: i32
  rse_src2_ready :: bool
  rse_src2_tag :: "tag option"
  rse_src2_value :: i32

record ReservationStation =
  rs_stations :: "RSEntry list"

definition rs_init :: "nat \<Rightarrow> ReservationStation" where
  "rs_init n = \<lparr>rs_stations = replicate n \<lparr>rse_valid = False, rse_inst_id = 0,
     rse_src1_ready = False, rse_src1_tag = None, rse_src1_value = 0,
     rse_src2_ready = False, rse_src2_tag = None, rse_src2_value = 0\<rparr>\<rparr>"

text \<open>The operands of an instruction: ready, tag, value, for each source.\<close>

type_synonym operands = "bool \<times> tag option \<times> i32 \<times> bool \<times> tag option \<times> i32"

fun set_operands :: "operands \<Rightarrow> RSEntry \<Rightarrow> RSEntry" where
  "set_operands (rdy1, tag1, val1, rdy2, tag2, val2) e =
     e\<lparr>rse_src1_ready := rdy1, rse_src1_tag := tag1, rse_src1_value := val1,
       rse_src2_ready := rdy2, rse_src2_tag := tag2, rse_src2_value := val2\<rparr>"

definition rs_allocate :: "u32 \<Rightarrow> operands \<Rightarrow> ReservationStation \<Rightarrow> bool \<times> ReservationStation" where
  "rs_allocate iid ops rs =
    (case first_idx (\<lambda>e. \<not> rse_valid e) (rs_stations rs) of
       None \<Rightarrow> (False, rs)
     | Some i \<Rightarrow> (True, rs\<lparr>rs_stations := (rs_stations rs)[i :=
         set_operands ops ((rs_stations rs ! i)\<lparr>rse_valid := True, rse_inst_id := iid\<rparr>)]\<rparr>))"

definition rs_hasSpace :: "ReservationStation \<Rightarrow> bool" where
  "rs_hasSpace rs \<longleftrightarrow> (\<exists>e \<in> set (rs_stations rs). \<not> rse_valid e)"

definition rs_syncOperands :: "u32 \<Rightarrow> operands \<Rightarrow> ReservationStation \<Rightarrow> ReservationStation" where
  "rs_syncOperands iid ops rs = rs\<lparr>rs_stations :=
     update_first (\<lambda>e. rse_valid e \<and> rse_inst_id e = iid) (set_operands ops) (rs_stations rs)\<rparr>"

definition wake1 :: "tag \<Rightarrow> i32 \<Rightarrow> RSEntry \<Rightarrow> RSEntry" where
  "wake1 t v e = (if \<not> rse_src1_ready e \<and> rse_src1_tag e = Some t
     then e\<lparr>rse_src1_ready := True, rse_src1_value := v\<rparr> else e)"

definition wake2 :: "tag \<Rightarrow> i32 \<Rightarrow> RSEntry \<Rightarrow> RSEntry" where
  "wake2 t v e = (if \<not> rse_src2_ready e \<and> rse_src2_tag e = Some t
     then e\<lparr>rse_src2_ready := True, rse_src2_value := v\<rparr> else e)"

definition rs_updateFromCDB :: "tag \<Rightarrow> i32 \<Rightarrow> ReservationStation \<Rightarrow> ReservationStation" where
  "rs_updateFromCDB t v rs = rs\<lparr>rs_stations :=
     map (\<lambda>e. if rse_valid e then wake2 t v (wake1 t v e) else e) (rs_stations rs)\<rparr>"

definition rse_ready :: "RSEntry \<Rightarrow> bool" where
  "rse_ready e \<longleftrightarrow> rse_valid e \<and> rse_src1_ready e \<and> rse_src2_ready e"

text \<open>The result is an \<open>int\<close>: the identifier cast, or \<open>-1\<close>.\<close>

definition rs_peekReadyInstruction :: "ReservationStation \<Rightarrow> i32" where
  "rs_peekReadyInstruction rs = (case first_idx rse_ready (rs_stations rs) of
     None \<Rightarrow> -1 | Some i \<Rightarrow> rse_inst_id (rs_stations rs ! i))"

definition rs_collectReadyInstructions :: "ReservationStation \<Rightarrow> u32 list" where
  "rs_collectReadyInstructions rs = map rse_inst_id (filter rse_ready (rs_stations rs))"

definition rs_removeInstruction :: "u32 \<Rightarrow> ReservationStation \<Rightarrow> ReservationStation" where
  "rs_removeInstruction iid rs = rs\<lparr>rs_stations :=
     update_first (\<lambda>e. rse_valid e \<and> rse_inst_id e = iid) (\<lambda>e. e\<lparr>rse_valid := False\<rparr>) (rs_stations rs)\<rparr>"

definition rs_squashInstIds :: "u32 list \<Rightarrow> ReservationStation \<Rightarrow> ReservationStation" where
  "rs_squashInstIds ids rs = fold rs_removeInstruction ids rs"

definition rs_issueReadyInstruction :: "ReservationStation \<Rightarrow> i32 \<times> ReservationStation" where
  "rs_issueReadyInstruction rs = (let r = rs_peekReadyInstruction rs in
     (r, if 0 \<le> sint r then rs_removeInstruction r rs else rs))"

section \<open>The pool contract\<close>

definition rs_ids :: "ReservationStation \<Rightarrow> u32 multiset" where
  "rs_ids rs = live_ids rse_valid rse_inst_id (rs_stations rs)"

definition rs_slots :: "ReservationStation \<Rightarrow> nat" where
  "rs_slots rs = length (rs_stations rs)"

lemma set_operands_frame [simp]:
  "rse_valid (set_operands ops e) = rse_valid e" "rse_inst_id (set_operands ops e) = rse_inst_id e"
  by (cases ops; simp)+

lemma rs_allocate_ok:
  "rs_hasSpace rs \<Longrightarrow> fst (rs_allocate iid ops rs) \<and> rs_ids (snd (rs_allocate iid ops rs)) = add_mset iid (rs_ids rs)"
proof -
  assume "rs_hasSpace rs"
  then obtain i where i: "first_idx (\<lambda>e. \<not> rse_valid e) (rs_stations rs) = Some i"
    unfolding rs_hasSpace_def using first_idx_ex by metis
  show ?thesis
    using first_idx_SomeD [OF i] by (simp add: rs_allocate_def i rs_ids_def live_ids_update_invalid)
qed

interpretation rs: slot_pool rs_ids rs_slots rs_hasSpace "\<lambda>(iid, ops). rs_allocate iid ops" fst
    rs_removeInstruction
proof (unfold_locales, goal_cases)
  case (1 q)
  then show ?case by (simp add: rs_hasSpace_def rs_ids_def rs_slots_def has_free_slot_iff)
next
  case (2 q r)
  then show ?case using rs_allocate_ok by (cases r) simp
next
  case (3 q r)
  then show ?case by (cases r) (auto simp: rs_allocate_def rs_hasSpace_def slot_simps split: option.splits dest!: first_idx_SomeD)
next
  case (4 r q)
  then show ?case by (cases r) (simp add: rs_allocate_def rs_slots_def split: option.splits)
next
  case (5 k q)
  then show ?case by (simp add: rs_removeInstruction_def rs_ids_def live_ids_remove_first)
next
  case (6 k q)
  then show ?case by (simp add: rs_removeInstruction_def rs_slots_def)
next
  case (7 q)
  then show ?case by (simp add: rs_ids_def rs_slots_def size_live_ids_le)
qed

section \<open>Wake-up\<close>

lemma wake_frame [simp]:
  "rse_valid (wake1 t v e) = rse_valid e" "rse_inst_id (wake1 t v e) = rse_inst_id e"
  "rse_valid (wake2 t v e) = rse_valid e" "rse_inst_id (wake2 t v e) = rse_inst_id e"
  by (simp_all add: wake1_def wake2_def)

lemma rs_ids_updateFromCDB [simp]: "rs_ids (rs_updateFromCDB t v rs) = rs_ids rs"
  unfolding rs_ids_def rs_updateFromCDB_def by (auto intro!: live_ids_map split: if_splits)

text \<open>An operand as seen by the station, and the value a list of broadcasts gives it.\<close>

type_synonym operand = "bool \<times> tag option \<times> i32"

fun deliver :: "(tag \<times> i32) list \<Rightarrow> operand \<Rightarrow> operand" where
  "deliver bs (rdy, t, v) =
    (if rdy then (True, t, v)
     else case t of None \<Rightarrow> (False, None, v)
       | Some x \<Rightarrow> (case map_of bs x of None \<Rightarrow> (False, t, v) | Some w \<Rightarrow> (True, t, w)))"

definition operand1 :: "RSEntry \<Rightarrow> operand" where
  "operand1 e = (rse_src1_ready e, rse_src1_tag e, rse_src1_value e)"

definition operand2 :: "RSEntry \<Rightarrow> operand" where
  "operand2 e = (rse_src2_ready e, rse_src2_tag e, rse_src2_value e)"

lemma operand_wake:
  "operand1 (wake2 t v (wake1 t v e)) = deliver [(t, v)] (operand1 e)"
  "operand2 (wake2 t v (wake1 t v e)) = deliver [(t, v)] (operand2 e)"
  by (auto simp: operand1_def operand2_def wake1_def wake2_def split: option.splits)

lemma deliver_append: "deliver cs (deliver bs op) = deliver (bs @ cs) op"
  by (cases op) (auto simp: map_add_def split: option.splits)

lemma deliver_Nil [simp]: "deliver [] op = op"
  by (cases op) (auto split: option.splits)

definition rs_broadcast :: "(tag \<times> i32) list \<Rightarrow> ReservationStation \<Rightarrow> ReservationStation" where
  "rs_broadcast bs rs = fold (\<lambda>(t, v). rs_updateFromCDB t v) bs rs"

lemma rs_broadcast_entry:
  "i < rs_slots rs \<Longrightarrow> rse_valid (rs_stations rs ! i) \<Longrightarrow>
   (let e = rs_stations rs ! i; e' = rs_stations (rs_broadcast bs rs) ! i in
     rs_slots (rs_broadcast bs rs) = rs_slots rs
     \<and> rse_valid e' \<and> rse_inst_id e' = rse_inst_id e
     \<and> operand1 e' = deliver bs (operand1 e) \<and> operand2 e' = deliver bs (operand2 e))"
proof (induction bs arbitrary: rs)
  case (Cons b bs)
  obtain t v where b: "b = (t, v)" by (cases b)
  let ?r = "rs_updateFromCDB t v rs"
  have "rs_stations ?r ! i = wake2 t v (wake1 t v (rs_stations rs ! i))" "rs_slots ?r = rs_slots rs"
    using Cons.prems by (simp_all add: rs_updateFromCDB_def rs_slots_def)
  with Cons.IH [of ?r] Cons.prems show ?case
    by (simp add: rs_broadcast_def b Let_def operand_wake deliver_append)
qed (simp add: rs_broadcast_def Let_def)

section \<open>Properties\<close>

text \<open>
  C26: the reservation station neither loses nor duplicates an instruction: it accepts one
  exactly when a slot is free, holds what it accepted until it is removed, removes one copy
  per removal, and a squash of a list of instructions removes exactly those and makes room.
\<close>

theorem rs_pool:
  "fst (rs_allocate iid ops rs) = (size (rs_ids rs) < rs_slots rs)
   \<and> rs_ids (snd (rs_allocate iid ops rs))
       = (if fst (rs_allocate iid ops rs) then add_mset iid (rs_ids rs) else rs_ids rs)
   \<and> rs_ids (rs_squashInstIds ks rs) = rs_ids rs - mset ks
   \<and> ((\<exists>k \<in> set ks. k \<in># rs_ids rs) \<longrightarrow> rs_hasSpace (rs_squashInstIds ks rs))
   \<and> rs_ids (rs_updateFromCDB t v rs) = rs_ids rs"
proof -
  have a: "fst (rs_allocate iid ops rs) = (size (rs_ids rs) < rs_slots rs)"
    using rs.alloc_iff [of "(iid, ops)" rs] by simp
  have "rs_ids (snd (rs_allocate iid ops rs))
       = (if fst (rs_allocate iid ops rs) then add_mset iid (rs_ids rs) else rs_ids rs)"
    using rs.alloc_ok [of rs "(iid, ops)"] rs.alloc_full [of rs "(iid, ops)"] by (cases "rs_hasSpace rs") auto
  with a rs.squash_ids [of ks rs] rs.squash_frees [of _ ks rs] show ?thesis
    by (auto simp: rs_squashInstIds_def)
qed

lemma rs_pool_witness: "rs_hasSpace (rs_squashInstIds [7] (snd (rs_allocate 7 (True, None, 1, True, None, 2) (rs_init 1))))"
proof -
  let ?r = "snd (rs_allocate 7 (True, None, 1, True, None, 2) (rs_init 1))"
  have "7 \<in># rs_ids ?r" by (simp add: rs_allocate_def rs_init_def rs_ids_def live_ids_def)
  then show ?thesis using rs_pool [where ks = "[7]" and rs = ?r] by auto
qed

text \<open>
  C25: wake-up is exact: over any sequence of broadcasts an instruction's operand takes the
  value of the first broadcast of the tag it waits for and keeps it, an operand that is ready
  never changes, and the instructions reported ready are those with both operands.
\<close>

theorem rs_wakeup:
  assumes "i < rs_slots rs" "rse_valid (rs_stations rs ! i)"
  shows "operand1 (rs_stations (rs_broadcast bs rs) ! i) = deliver bs (operand1 (rs_stations rs ! i))
    \<and> operand2 (rs_stations (rs_broadcast bs rs) ! i) = deliver bs (operand2 (rs_stations rs ! i))
    \<and> (fst (deliver bs (operand1 (rs_stations rs ! i))) \<and> fst (deliver bs (operand2 (rs_stations rs ! i)))
        \<longrightarrow> rse_inst_id (rs_stations rs ! i) \<in> set (rs_collectReadyInstructions (rs_broadcast bs rs)))"
proof -
  let ?e' = "rs_stations (rs_broadcast bs rs) ! i"
  have e: "rs_slots (rs_broadcast bs rs) = rs_slots rs" "rse_valid ?e'"
      "rse_inst_id ?e' = rse_inst_id (rs_stations rs ! i)"
      "operand1 ?e' = deliver bs (operand1 (rs_stations rs ! i))"
      "operand2 ?e' = deliver bs (operand2 (rs_stations rs ! i))"
    using rs_broadcast_entry [OF assms, of bs] by (simp_all add: Let_def)
  have "?e' \<in> set (rs_stations (rs_broadcast bs rs))" using assms(1) e(1) by (simp add: rs_slots_def)
  moreover have "fst (operand1 ?e') \<Longrightarrow> fst (operand2 ?e') \<Longrightarrow> rse_ready ?e'"
    using e(2) by (simp add: rse_ready_def operand1_def operand2_def)
  ultimately have "fst (operand1 ?e') \<and> fst (operand2 ?e') \<longrightarrow>
      rse_inst_id ?e' \<in> set (rs_collectReadyInstructions (rs_broadcast bs rs))"
    by (auto simp: rs_collectReadyInstructions_def)
  with e show ?thesis by simp
qed

lemma rs_wakeup_witness:
  "7 \<in> set (rs_collectReadyInstructions (rs_broadcast [(2, 9), (3, 4), (2, 8)]
      (snd (rs_allocate 7 (False, Some 3, 0, False, Some 2, 0) (rs_init 1)))))"
  using rs_wakeup [of 0 "snd (rs_allocate 7 (False, Some 3, 0, False, Some 2, 0) (rs_init 1))"
      "[(2, 9), (3, 4), (2, 8)]"]
  by (simp add: rs_allocate_def rs_init_def rs_slots_def operand1_def operand2_def)

end
