(* ===== verification/CdbArbiter.thy ===== *)
theory CdbArbiter
  imports Types Interfaces
begin

text \<open>
  The common-data-bus arbiter of \<open>src/cdb_arbiter.cpp\<close>: round-robin selection of up to
  \<open>cdb_width\<close> of the requesting lanes, and the register of pending beats of the lanes that
  were not granted. The selection is the first requests in rotated order.
\<close>

section \<open>State and operations\<close>

text \<open>The defaults \<open>-1\<close> of the tag and of the slot handle are \<open>None\<close>.\<close>

record CdbProducer =
  cp_valid :: bool
  cp_rob_id :: "tag option"
  cp_value :: i32
  cp_source :: nat
  cp_slot :: "nat option"

definition cp0 :: CdbProducer where
  "cp0 = \<lparr>cp_valid = False, cp_rob_id = None, cp_value = 0, cp_source = 0, cp_slot = None\<rparr>"

record CdbArbiter =
  arb_cdb_width :: nat
  arb_num_producers :: nat
  arb_rr_ptr :: nat
  arb_pending_valid :: "bool list"
  arb_pending :: "CdbProducer list"
  arb_last_grant :: "bool list"

definition arb_reset :: "CdbArbiter \<Rightarrow> CdbArbiter" where
  "arb_reset a = a\<lparr>arb_rr_ptr := 0,
     arb_pending_valid := replicate (arb_num_producers a) False,
     arb_pending := replicate (arb_num_producers a) cp0,
     arb_last_grant := replicate (arb_num_producers a) False\<rparr>"

definition arb_init :: "nat \<Rightarrow> nat \<Rightarrow> CdbArbiter option" where
  "arb_init w n = (if 0 < w \<and> 0 < n
     then Some (arb_reset \<lparr>arb_cdb_width = w, arb_num_producers = n, arb_rr_ptr = 0,
       arb_pending_valid = [], arb_pending = [], arb_last_grant = []\<rparr>)
     else None)"

definition arb_invalidateTags :: "tag list \<Rightarrow> CdbArbiter \<Rightarrow> CdbArbiter" where
  "arb_invalidateTags tags a =
    (let kill = (\<lambda>i. arb_pending_valid a ! i \<and> cp_rob_id (arb_pending a ! i) \<in> Some ` set tags) in
     a\<lparr>arb_pending_valid := map (\<lambda>i. arb_pending_valid a ! i \<and> \<not> kill i) [0..<arb_num_producers a],
       arb_pending := map (\<lambda>i. if kill i then cp0 else arb_pending a ! i) [0..<arb_num_producers a]\<rparr>)"

text \<open>
  The grant loop: \<open>k\<close> bus slots are left, \<open>request\<close> and \<open>selected\<close> are the lane vectors; the
  inner loop looks for the first requesting lane not selected yet, from \<open>rr\<close> on, modulo \<open>n\<close>.
\<close>

definition rot :: "nat \<Rightarrow> nat \<Rightarrow> nat list" where
  "rot n rr = map (\<lambda>offset. (rr + offset) mod n) [0..<n]"

fun arb_slots :: "nat \<Rightarrow> nat \<Rightarrow> bool list \<Rightarrow> bool list \<Rightarrow> nat \<Rightarrow> nat list \<times> bool list \<times> nat" where
  "arb_slots 0 n request selected rr = ([], selected, rr)"
| "arb_slots (Suc k) n request selected rr =
    (case first_idx (\<lambda>i. request ! i \<and> \<not> selected ! i) (rot n rr) of
       None \<Rightarrow> ([], selected, rr)
     | Some offset \<Rightarrow>
        (let idx = (rr + offset) mod n;
             (is, sel, rr') = arb_slots k n request (selected[idx := True]) ((idx + 1) mod n)
         in (idx # is, sel, rr')))"

definition arb_request :: "CdbArbiter \<Rightarrow> CdbProducer list \<Rightarrow> bool list" where
  "arb_request a ps = map (\<lambda>i. arb_pending_valid a ! i \<or> cp_valid (ps ! i)) [0..<arb_num_producers a]"

definition arb_lane :: "CdbArbiter \<Rightarrow> CdbProducer list \<Rightarrow> CdbProducer list" where
  "arb_lane a ps = map (\<lambda>i. if arb_pending_valid a ! i then arb_pending a ! i
     else if cp_valid (ps ! i) then ps ! i else cp0) [0..<arb_num_producers a]"

record Grants =
  gr_out :: "CDBResult list"
  gr_indices :: "nat list"
  gr_lanes :: "CdbProducer list"
  gr_producer_ready :: "bool list"

definition arb_selectGrants :: "CdbProducer list \<Rightarrow> CdbArbiter \<Rightarrow> (Grants \<times> CdbArbiter) option" where
  "arb_selectGrants ps a =
    (let n = arb_num_producers a in
     if length ps \<noteq> n then None
     else if arb_cdb_width a = 0 then
       Some (\<lparr>gr_out = [], gr_indices = [], gr_lanes = [], gr_producer_ready = replicate n False\<rparr>,
             a\<lparr>arb_last_grant := replicate n False\<rparr>)
     else
       let lane = arb_lane a ps;
           rr = (if n \<le> arb_rr_ptr a then 0 else arb_rr_ptr a);
           (idxs, sel, rr') = arb_slots (arb_cdb_width a) n (arb_request a ps) (replicate n False) rr
       in Some (\<lparr>gr_out = map (\<lambda>i. \<lparr>cdb_rob_id = cp_rob_id (lane ! i), cdb_value = cp_value (lane ! i)\<rparr>) idxs,
                 gr_indices = idxs, gr_lanes = map (\<lambda>i. lane ! i) idxs,
                 gr_producer_ready = map (\<lambda>i. \<not> arb_pending_valid a ! i \<or> sel ! i) [0..<n]\<rparr>,
                a\<lparr>arb_rr_ptr := rr', arb_last_grant := sel\<rparr>))"

text \<open>The pending beat of a lane after the producers consumed their grants.\<close>

definition next_pending :: "bool \<Rightarrow> bool \<Rightarrow> CdbProducer \<Rightarrow> CdbProducer \<Rightarrow> bool \<times> CdbProducer" where
  "next_pending pv granted p aft =
    (if pv then (if granted then (if cp_valid aft then (True, aft) else (False, cp0)) else (pv, p))
     else if cp_valid aft \<and> \<not> granted then (True, aft) else (pv, p))"

definition arb_commitPending :: "CdbProducer list \<Rightarrow> CdbArbiter \<Rightarrow> CdbArbiter option" where
  "arb_commitPending aft a =
    (let n = arb_num_producers a;
         nx = map (\<lambda>i. next_pending (arb_pending_valid a ! i) (arb_last_grant a ! i)
                (arb_pending a ! i) (aft ! i)) [0..<n] in
     if length aft \<noteq> n then None
     else Some (a\<lparr>arb_pending_valid := map fst nx, arb_pending := map snd nx\<rparr>))"

section \<open>Rotated order\<close>

lemma length_rot [simp]: "length (rot n rr) = n"
  by (simp add: rot_def)

lemma nth_rot: "o' < n \<Longrightarrow> rot n rr ! o' = (rr + o') mod n"
  by (simp add: rot_def)

lemma distinct_rot: "distinct (rot n rr)"
  unfolding rot_def distinct_map inj_on_def using ring_index_inj by auto

lemma set_rot: "0 < n \<Longrightarrow> set (rot n rr) = {..<n}"
proof -
  assume n: "0 < n"
  have "set (rot n rr) \<subseteq> {..<n}" using n by (auto simp: rot_def)
  moreover have "card (set (rot n rr)) = n" using distinct_card [OF distinct_rot] by simp
  ultimately show ?thesis by (metis card_lessThan card_subset_eq finite_lessThan)
qed

lemma rot_split:
  assumes "k < n"
  shows "rot n ((rr + k + 1) mod n) = drop (Suc k) (rot n rr) @ take (Suc k) (rot n rr)"
proof (rule nth_equalityI)
  fix i assume "i < length (rot n ((rr + k + 1) mod n))"
  then have i: "i < n" by simp
  show "rot n ((rr + k + 1) mod n) ! i = (drop (Suc k) (rot n rr) @ take (Suc k) (rot n rr)) ! i"
  proof (cases "i < n - Suc k")
    case True
    then have "Suc k + i < n" by simp
    with True show ?thesis
      by (simp add: nth_rot nth_append mod_add_left_eq add.assoc add.left_commute)
  next
    case False
    then obtain j where j: "i + Suc k = n + j" using i by (metis add.commute le_iff_add linorder_not_less less_diff_conv)
    then have "j < Suc k" "j < n" "i - (n - Suc k) = j" using i assms by auto
    moreover have "(rr + k + 1 + i) mod n = (rr + j) mod n"
    proof -
      have "rr + k + 1 + i = (rr + j) + n" using j by linarith
      then show ?thesis by (simp only: mod_add_self2)
    qed
    ultimately show ?thesis
      using False i assms by (simp add: nth_rot nth_append mod_add_left_eq)
  qed
qed (use assms in simp)

text \<open>The loop selects the first requests in rotated order.\<close>

lemma arb_slots_spec:
  assumes "0 < n" "length selected = n"
  shows "arb_slots k n request selected rr =
    (let is = take k (filter (\<lambda>i. request ! i \<and> \<not> selected ! i) (rot n rr)) in
     (is, map (\<lambda>i. selected ! i \<or> i \<in> set is) [0..<n], if is = [] then rr else (last is + 1) mod n))"
  using assms(2)
proof (induction k arbitrary: selected rr)
  case 0
  then show ?case by (auto intro: nth_equalityI)
next
  case (Suc k)
  let ?f = "\<lambda>i. request ! i \<and> \<not> selected ! i"
  show ?case
  proof (cases "first_idx ?f (rot n rr)")
    case None
    then have "filter ?f (rot n rr) = []" by (simp add: slot_simps filter_empty_conv)
    with None Suc.prems show ?thesis by (auto simp: Let_def intro: nth_equalityI)
  next
    case (Some p)
    let ?idx = "(rr + p) mod n" and ?r = "rot n rr"
    have p: "p < n" "?f ?idx" "\<forall>j < p. \<not> ?f (?r ! j)" "?r ! p = ?idx"
      using first_idx_SomeD [OF Some] by (auto simp: nth_rot)
    let ?g = "\<lambda>i. request ! i \<and> \<not> selected[?idx := True] ! i"
    have g: "?g i \<longleftrightarrow> ?f i \<and> i \<noteq> ?idx" for i
      using Suc.prems assms(1) by (cases "i = ?idx") simp_all
    have tk: "filter ?f (take p ?r) = []"
      using p(1,3) by (auto simp: filter_empty_conv in_set_conv_nth)
    have split: "?r = take p ?r @ ?idx # drop (Suc p) ?r"
      using id_take_nth_drop [of p ?r] p by simp
    have nin: "?idx \<notin> set (drop (Suc p) ?r)"
      using distinct_rot [of n rr] by (subst (asm) split) simp
    have ff: "filter ?f ?r = ?idx # filter ?f (drop (Suc p) ?r)"
      by (subst split) (simp add: tk p(2))
    have "rot n ((?idx + 1) mod n) = drop (Suc p) ?r @ take (Suc p) ?r"
      using rot_split [OF p(1), of rr] by (simp add: mod_Suc_eq)
    then have "filter ?g (rot n ((?idx + 1) mod n)) = filter ?g (drop (Suc p) ?r) @ filter ?g (take (Suc p) ?r)"
      by (simp only: filter_append)
    moreover have "filter ?g (drop (Suc p) ?r) = filter ?f (drop (Suc p) ?r)"
      using nin by (intro filter_cong) (auto simp only: g)
    moreover have "filter ?g (take (Suc p) ?r) = []"
    proof -
      have "take (Suc p) ?r = take p ?r @ [?idx]" using p by (simp add: take_Suc_conv_app_nth)
      moreover have "filter ?g (take p ?r) = []" using tk unfolding filter_empty_conv g by blast
      ultimately show ?thesis by (simp add: g)
    qed
    ultimately have rest: "filter ?g (rot n ((?idx + 1) mod n)) = filter ?f (drop (Suc p) ?r)" by simp
    define is' where "is' = take k (filter ?f (drop (Suc p) ?r))"
    have tk_is: "take (Suc k) (filter ?f ?r) = ?idx # is'" by (simp add: ff is'_def)
    have m: "map (\<lambda>i. selected[?idx := True] ! i \<or> i \<in> set is') [0..<n]
        = map (\<lambda>i. selected ! i \<or> i \<in> set (?idx # is')) [0..<n]"
      using Suc.prems by (auto simp: nth_list_update)
    have "arb_slots k n request (selected[?idx := True]) ((?idx + 1) mod n)
        = (is', map (\<lambda>i. selected ! i \<or> i \<in> set (?idx # is')) [0..<n],
           if is' = [] then (?idx + 1) mod n else (last is' + 1) mod n)"
      using Suc.IH [of "selected[?idx := True]" "(?idx + 1) mod n"] Suc.prems
      unfolding rest is'_def [symmetric] Let_def m by simp
    then show ?thesis unfolding tk_is Let_def by (simp add: Some Let_def)
  qed
qed

section \<open>Selection\<close>

definition arb_wf :: "CdbArbiter \<Rightarrow> bool" where
  "arb_wf a \<longleftrightarrow> 0 < arb_cdb_width a \<and> 0 < arb_num_producers a
     \<and> length (arb_pending_valid a) = arb_num_producers a
     \<and> length (arb_pending a) = arb_num_producers a
     \<and> length (arb_last_grant a) = arb_num_producers a"

definition arb_rr :: "CdbArbiter \<Rightarrow> nat" where
  "arb_rr a = (if arb_num_producers a \<le> arb_rr_ptr a then 0 else arb_rr_ptr a)"

definition arb_granted :: "CdbProducer list \<Rightarrow> CdbArbiter \<Rightarrow> nat list" where
  "arb_granted ps a = take (arb_cdb_width a)
     (filter (\<lambda>i. arb_request a ps ! i) (rot (arb_num_producers a) (arb_rr a)))"

lemma arb_init_wf: "0 < w \<Longrightarrow> 0 < n \<Longrightarrow> \<exists>a. arb_init w n = Some a \<and> arb_wf a"
  by (simp add: arb_init_def arb_wf_def arb_reset_def)

lemma arb_rr_less: "arb_wf a \<Longrightarrow> arb_rr a < arb_num_producers a"
  by (simp add: arb_rr_def arb_wf_def)

lemma arb_slots_granted:
  assumes "arb_wf a"
  shows "arb_slots (arb_cdb_width a) (arb_num_producers a) (arb_request a ps)
       (replicate (arb_num_producers a) False) (arb_rr a)
    = (arb_granted ps a, map (\<lambda>i. i \<in> set (arb_granted ps a)) [0..<arb_num_producers a],
       if arb_granted ps a = [] then arb_rr a else (last (arb_granted ps a) + 1) mod arb_num_producers a)"
proof -
  let ?n = "arb_num_producers a"
  have n: "0 < ?n" using assms by (simp add: arb_wf_def)
  have f: "filter (\<lambda>i. arb_request a ps ! i \<and> \<not> replicate ?n False ! i) (rot ?n (arb_rr a))
      = filter (\<lambda>i. arb_request a ps ! i) (rot ?n (arb_rr a))"
    using set_rot [OF n] by (intro filter_cong) auto
  have m: "map (\<lambda>i. replicate ?n False ! i \<or> i \<in> set is) [0..<?n] = map (\<lambda>i. i \<in> set is) [0..<?n]" for "is"
    by simp
  show ?thesis
    using arb_slots_spec [OF n, of "replicate ?n False" "arb_cdb_width a" "arb_request a ps" "arb_rr a"]
    unfolding f m Let_def arb_granted_def [symmetric] by simp
qed

definition arb_result :: "CdbProducer list \<Rightarrow> CdbArbiter \<Rightarrow> nat \<Rightarrow> CDBResult" where
  "arb_result ps a i = \<lparr>cdb_rob_id = cp_rob_id (arb_lane a ps ! i), cdb_value = cp_value (arb_lane a ps ! i)\<rparr>"

lemma selectGrants_ok:
  assumes wf: "arb_wf a" and len: "length ps = arb_num_producers a"
  shows "\<exists>a'. arb_selectGrants ps a = Some (\<lparr>gr_out = map (arb_result ps a) (arb_granted ps a),
       gr_indices = arb_granted ps a, gr_lanes = map (\<lambda>i. arb_lane a ps ! i) (arb_granted ps a),
       gr_producer_ready = map (\<lambda>i. \<not> arb_pending_valid a ! i \<or> i \<in> set (arb_granted ps a)) [0..<arb_num_producers a]\<rparr>, a')
    \<and> arb_wf a' \<and> arb_num_producers a' = arb_num_producers a \<and> arb_cdb_width a' = arb_cdb_width a
    \<and> arb_pending_valid a' = arb_pending_valid a \<and> arb_pending a' = arb_pending a
    \<and> arb_last_grant a' = map (\<lambda>i. i \<in> set (arb_granted ps a)) [0..<arb_num_producers a]
    \<and> arb_rr_ptr a' = (if arb_granted ps a = [] then arb_rr a else (last (arb_granted ps a) + 1) mod arb_num_producers a)"
  using wf len arb_slots_granted [OF wf, of ps]
  by (simp add: arb_selectGrants_def Let_def arb_rr_def [symmetric] arb_result_def arb_wf_def)

lemma arb_granted_props:
  assumes wf: "arb_wf a"
  shows "distinct (arb_granted ps a)"
    and "set (arb_granted ps a) \<subseteq> {i. i < arb_num_producers a \<and> arb_request a ps ! i}"
    and "length (arb_granted ps a)
      = min (arb_cdb_width a) (card {i. i < arb_num_producers a \<and> arb_request a ps ! i})"
proof -
  let ?l = "filter (\<lambda>i. arb_request a ps ! i) (rot (arb_num_producers a) (arb_rr a))"
  have n: "0 < arb_num_producers a" using wf by (simp add: arb_wf_def)
  have d: "distinct ?l" using distinct_rot by simp
  then show "distinct (arb_granted ps a)" by (simp add: arb_granted_def)
  have s: "set ?l = {i. i < arb_num_producers a \<and> arb_request a ps ! i}"
    using set_rot [OF n] by auto
  then show "set (arb_granted ps a) \<subseteq> {i. i < arb_num_producers a \<and> arb_request a ps ! i}"
    unfolding arb_granted_def using set_take_subset by fast
  have "length ?l = card {i. i < arb_num_producers a \<and> arb_request a ps ! i}"
    using distinct_card [OF d] s by simp
  then show "length (arb_granted ps a)
      = min (arb_cdb_width a) (card {i. i < arb_num_producers a \<and> arb_request a ps ! i})"
    by (simp add: arb_granted_def min.commute)
qed

section \<open>Waiting time\<close>

text \<open>A request that is not granted gets closer to the pointer by one per grant.\<close>

lemma arb_slots_closer:
  assumes "i < n" "rr < n" "length selected = n" "request ! i" "\<not> selected ! i"
    and "i \<notin> set (fst (arb_slots k n request selected rr))"
  shows "ring_age n (snd (snd (arb_slots k n request selected rr))) i + k \<le> ring_age n rr i
    \<and> snd (snd (arb_slots k n request selected rr)) < n"
  using assms(2-6)
proof (induction k arbitrary: selected rr)
  case (Suc k)
  let ?f = "\<lambda>i. request ! i \<and> \<not> selected ! i" and ?d = "ring_age n rr i"
  have d: "?d < n" "rot n rr ! ?d = i"
    using Suc.prems(1) assms(1) ring_index_of_age [of rr n i]
    by (auto simp: nth_rot ring_age_less)
  then have "i \<in> set (rot n rr)" by (metis length_rot nth_mem)
  then obtain p where p: "first_idx ?f (rot n rr) = Some p"
    using Suc.prems(3,4) first_idx_ex [of i _ ?f] by blast
  note pd = first_idx_SomeD [OF p]
  let ?idx = "(rr + p) mod n"
  have idx: "rot n rr ! p = ?idx" using pd by (simp add: nth_rot)
  have "p \<le> ?d" using pd d Suc.prems(3,4) by (metis not_le)
  moreover have "i \<noteq> ?idx" using Suc.prems(5) p by (auto simp: Let_def split: prod.splits)
  ultimately have lt: "p < ?d" using idx d(2) by (metis le_neq_implies_less)
  have i: "i = ((?idx + 1) mod n + (?d - p - 1)) mod n"
  proof -
    have "rr + p + 1 + (?d - p - 1) = rr + ?d" using lt by simp
    then have "i = (rr + p + 1 + (?d - p - 1)) mod n"
      using ring_index_of_age [OF Suc.prems(1) assms(1)] by simp
    then show ?thesis by (simp add: mod_simps)
  qed
  have lt1: "(?idx + 1) mod n < n" using assms(1) by simp
  have age: "ring_age n ((?idx + 1) mod n) i = ?d - p - 1"
    using ring_age_of_index [OF lt1, of "?d - p - 1"] d(1) i by simp
  obtain is1 sel1 rr1 where r: "arb_slots k n request (selected[?idx := True]) ((?idx + 1) mod n) = (is1, sel1, rr1)"
    by (metis prod_cases3)
  have "ring_age n rr1 i + k \<le> ?d - p - 1 \<and> rr1 < n"
    using Suc.IH [OF lt1, of "selected[?idx := True]"] Suc.prems r p \<open>i \<noteq> ?idx\<close> age
    by (simp add: Let_def)
  then have "Suc (ring_age n rr1 i + k) \<le> ?d" "rr1 < n" using lt by auto
  with r p show ?case by (simp add: Let_def)
qed simp

text \<open>Rounds of arbitration: the lanes offered, and the lanes after the grants were consumed.\<close>

fun arb_run :: "(CdbProducer list \<times> CdbProducer list) list \<Rightarrow> CdbArbiter \<Rightarrow> (Grants list \<times> CdbArbiter) option" where
  "arb_run [] a = Some ([], a)"
| "arb_run ((ps, aft) # rounds) a =
    (case arb_selectGrants ps a of None \<Rightarrow> None
     | Some (g, a1) \<Rightarrow> (case arb_commitPending aft a1 of None \<Rightarrow> None
        | Some a2 \<Rightarrow> (case arb_run rounds a2 of None \<Rightarrow> None
           | Some (gs, a3) \<Rightarrow> Some (g # gs, a3))))"

lemma commitPending_ok:
  assumes "arb_wf a" "length aft = arb_num_producers a"
  shows "\<exists>a'. arb_commitPending aft a = Some a' \<and> arb_wf a' \<and> arb_num_producers a' = arb_num_producers a
    \<and> arb_cdb_width a' = arb_cdb_width a \<and> arb_rr_ptr a' = arb_rr_ptr a
    \<and> (\<forall>i < arb_num_producers a. (arb_pending_valid a' ! i, arb_pending a' ! i)
        = next_pending (arb_pending_valid a ! i) (arb_last_grant a ! i) (arb_pending a ! i) (aft ! i))"
  using assms by (simp add: arb_commitPending_def Let_def arb_wf_def)

lemma arb_round_ok:
  assumes wf: "arb_wf a" and len: "length ps = arb_num_producers a" "length aft = arb_num_producers a"
  shows "\<exists>g a1 a2. arb_selectGrants ps a = Some (g, a1) \<and> arb_commitPending aft a1 = Some a2
    \<and> gr_indices g = arb_granted ps a \<and> gr_out g = map (arb_result ps a) (arb_granted ps a)
    \<and> arb_wf a2 \<and> arb_num_producers a2 = arb_num_producers a \<and> arb_cdb_width a2 = arb_cdb_width a
    \<and> arb_rr_ptr a2 = (if arb_granted ps a = [] then arb_rr a else (last (arb_granted ps a) + 1) mod arb_num_producers a)
    \<and> (\<forall>i < arb_num_producers a. (arb_pending_valid a2 ! i, arb_pending a2 ! i)
        = next_pending (arb_pending_valid a ! i) (i \<in> set (arb_granted ps a)) (arb_pending a ! i) (aft ! i))"
proof -
  obtain a1 where a1: "arb_selectGrants ps a = Some (\<lparr>gr_out = map (arb_result ps a) (arb_granted ps a),
       gr_indices = arb_granted ps a, gr_lanes = map (\<lambda>i. arb_lane a ps ! i) (arb_granted ps a),
       gr_producer_ready = map (\<lambda>i. \<not> arb_pending_valid a ! i \<or> i \<in> set (arb_granted ps a)) [0..<arb_num_producers a]\<rparr>, a1)"
      "arb_wf a1" "arb_num_producers a1 = arb_num_producers a" "arb_cdb_width a1 = arb_cdb_width a"
      "arb_pending_valid a1 = arb_pending_valid a" "arb_pending a1 = arb_pending a"
      "arb_last_grant a1 = map (\<lambda>i. i \<in> set (arb_granted ps a)) [0..<arb_num_producers a]"
      "arb_rr_ptr a1 = (if arb_granted ps a = [] then arb_rr a else (last (arb_granted ps a) + 1) mod arb_num_producers a)"
    using selectGrants_ok [OF wf len(1)] by blast
  with commitPending_ok [of a1 aft] len(2) show ?thesis by auto
qed

lemma arb_round_closer:
  assumes "arb_wf a" "i < arb_num_producers a" "arb_request a ps ! i" "i \<notin> set (arb_granted ps a)"
  shows "ring_age (arb_num_producers a)
      (if arb_granted ps a = [] then arb_rr a else (last (arb_granted ps a) + 1) mod arb_num_producers a) i
    + arb_cdb_width a \<le> ring_age (arb_num_producers a) (arb_rr a) i"
  using arb_slots_closer [OF assms(2) arb_rr_less [OF assms(1)],
      of "replicate (arb_num_producers a) False" "arb_request a ps" "arb_cdb_width a"]
    arb_slots_granted [OF assms(1), of ps] assms(2-4) by simp

lemma arb_run_closer:
  assumes "arb_wf a" "i < arb_num_producers a"
    and "\<forall>(ps, aft) \<in> set rounds. length ps = arb_num_producers a \<and> length aft = arb_num_producers a \<and> cp_valid (ps ! i)"
  shows "\<exists>gs a'. arb_run rounds a = Some (gs, a') \<and> length gs = length rounds
    \<and> ((\<forall>g \<in> set gs. i \<notin> set (gr_indices g)) \<longrightarrow> length rounds * arb_cdb_width a \<le> ring_age (arb_num_producers a) (arb_rr a) i)"
  using assms
proof (induction rounds arbitrary: a)
  case (Cons r rounds)
  obtain ps aft where r: "r = (ps, aft)" by (cases r)
  then have l: "length ps = arb_num_producers a" "length aft = arb_num_producers a" "cp_valid (ps ! i)"
    using Cons.prems(3) by auto
  obtain g a1 a2 where s: "arb_selectGrants ps a = Some (g, a1)" "arb_commitPending aft a1 = Some a2"
      "gr_indices g = arb_granted ps a" "arb_wf a2" "arb_num_producers a2 = arb_num_producers a"
      "arb_cdb_width a2 = arb_cdb_width a"
      "arb_rr_ptr a2 = (if arb_granted ps a = [] then arb_rr a else (last (arb_granted ps a) + 1) mod arb_num_producers a)"
    using arb_round_ok [OF Cons.prems(1) l(1,2)] by blast
  have req: "arb_request a ps ! i" using Cons.prems(2) l(3) by (simp add: arb_request_def)
  have rr2: "arb_rr a2 = arb_rr_ptr a2"
  proof -
    have "0 < arb_num_producers a" using Cons.prems(2) by simp
    then have "arb_rr_ptr a2 < arb_num_producers a"
      unfolding s(7) using arb_rr_less [OF Cons.prems(1)] by simp
    then show ?thesis by (simp add: arb_rr_def s(5))
  qed
  obtain gs a' where g: "arb_run rounds a2 = Some (gs, a')" "length gs = length rounds"
      "(\<forall>g \<in> set gs. i \<notin> set (gr_indices g)) \<longrightarrow> length rounds * arb_cdb_width a2 \<le> ring_age (arb_num_producers a2) (arb_rr a2) i"
    using Cons.IH [OF s(4)] Cons.prems s(5) by auto
  have "i \<notin> set (gr_indices g) \<Longrightarrow>
      ring_age (arb_num_producers a2) (arb_rr a2) i + arb_cdb_width a \<le> ring_age (arb_num_producers a) (arb_rr a) i"
    using arb_round_closer [OF Cons.prems(1,2) req] unfolding rr2 s by blast
  with g s show ?case by (auto simp: r)
qed simp

section \<open>Properties\<close>

text \<open>
  C19: a round of arbitration grants distinct lanes, only lanes that request, as many as the
  bus is wide or all of them if fewer request, and puts each lane's waiting beat, or else the
  producer's live result, on the bus; a lane is told to stall exactly when its waiting beat
  was not granted.
\<close>

theorem arbiter_grants:
  assumes "arb_wf a" "length ps = arb_num_producers a"
  shows "\<exists>g a'. arb_selectGrants ps a = Some (g, a') \<and> arb_wf a'
    \<and> distinct (gr_indices g)
    \<and> (\<forall>i \<in> set (gr_indices g). i < arb_num_producers a \<and> arb_request a ps ! i)
    \<and> length (gr_indices g) = min (arb_cdb_width a) (card {i. i < arb_num_producers a \<and> arb_request a ps ! i})
    \<and> gr_lanes g = map (\<lambda>i. if arb_pending_valid a ! i then arb_pending a ! i else ps ! i) (gr_indices g)
    \<and> gr_out g = map (\<lambda>p. \<lparr>cdb_rob_id = cp_rob_id p, cdb_value = cp_value p\<rparr>) (gr_lanes g)
    \<and> (\<forall>i < arb_num_producers a. gr_producer_ready g ! i
         \<longleftrightarrow> \<not> (arb_pending_valid a ! i \<and> i \<notin> set (gr_indices g)))"
proof -
  obtain a' where s: "arb_selectGrants ps a = Some (\<lparr>gr_out = map (arb_result ps a) (arb_granted ps a),
       gr_indices = arb_granted ps a, gr_lanes = map (\<lambda>i. arb_lane a ps ! i) (arb_granted ps a),
       gr_producer_ready = map (\<lambda>i. \<not> arb_pending_valid a ! i \<or> i \<in> set (arb_granted ps a)) [0..<arb_num_producers a]\<rparr>, a')"
      "arb_wf a'"
    using selectGrants_ok [OF assms] by blast
  note p = arb_granted_props [OF assms(1), of ps]
  have "arb_lane a ps ! i = (if arb_pending_valid a ! i then arb_pending a ! i else ps ! i)"
    if "i \<in> set (arb_granted ps a)" for i
    using that p(2) by (auto simp: arb_lane_def arb_request_def)
  with s p show ?thesis by (auto simp: arb_result_def)
qed

definition arb_demo :: CdbArbiter where
  "arb_demo = the (arb_init 2 3)"

definition live_beat :: "tag \<Rightarrow> CdbProducer" where
  "live_beat t = cp0\<lparr>cp_valid := True, cp_rob_id := Some t\<rparr>"

lemma arb_demo_wf: "arb_wf arb_demo" "arb_num_producers arb_demo = 3" "arb_cdb_width arb_demo = 2"
  by (simp_all add: arb_demo_def arb_init_def arb_wf_def arb_reset_def)

lemma arbiter_grants_witness:
  "\<exists>g a'. arb_selectGrants [live_beat 5, cp0, live_beat 6] arb_demo = Some (g, a')
     \<and> distinct (gr_indices g) \<and> length (gr_indices g) \<le> 2"
  using arbiter_grants [OF arb_demo_wf(1), of "[live_beat 5, cp0, live_beat 6]"] arb_demo_wf(2,3) by auto

text \<open>
  C18: no lane starves: a lane that keeps requesting is granted within
  \<open>(n - 1) div w + 1\<close> rounds, for \<open>n\<close> lanes and a bus of width \<open>w\<close>, whatever the others do.
\<close>

theorem arbiter_fair:
  assumes "arb_wf a" "i < arb_num_producers a"
    and "length rounds = (arb_num_producers a - 1) div arb_cdb_width a + 1"
    and "\<forall>(ps, aft) \<in> set rounds. length ps = arb_num_producers a \<and> length aft = arb_num_producers a \<and> cp_valid (ps ! i)"
  shows "\<exists>gs a'. arb_run rounds a = Some (gs, a') \<and> (\<exists>g \<in> set gs. i \<in> set (gr_indices g))"
proof -
  let ?n = "arb_num_producers a" and ?w = "arb_cdb_width a"
  have "0 < ?w" using assms(1) by (simp add: arb_wf_def)
  then have "?n - 1 < length rounds * ?w"
    unfolding assms(3) using dividend_less_times_div [of ?w "?n - 1"] by (simp add: mult.commute)
  moreover have "ring_age ?n (arb_rr a) i \<le> ?n - 1"
    using ring_age_less [of ?n "arb_rr a" i] assms(2) by linarith
  moreover obtain gs a' where "arb_run rounds a = Some (gs, a')"
      "(\<forall>g \<in> set gs. i \<notin> set (gr_indices g)) \<longrightarrow> length rounds * ?w \<le> ring_age ?n (arb_rr a) i"
    using arb_run_closer [OF assms(1,2,4)] by blast
  ultimately show ?thesis by force
qed

lemma arbiter_fair_witness:
  "\<exists>gs a'. arb_run [([live_beat 5, live_beat 6, live_beat 7], [live_beat 5, live_beat 6, live_beat 7]),
       ([live_beat 8, live_beat 9, live_beat 7], [cp0, cp0, cp0])] arb_demo = Some (gs, a')
     \<and> (\<exists>g \<in> set gs. 2 \<in> set (gr_indices g))"
  using arbiter_fair [OF arb_demo_wf(1), of 2 "[([live_beat 5, live_beat 6, live_beat 7], [live_beat 5, live_beat 6, live_beat 7]),
       ([live_beat 8, live_beat 9, live_beat 7], [cp0, cp0, cp0])]"] arb_demo_wf(2,3)
  by (simp add: live_beat_def del: arb_run.simps)

text \<open>
  C20: a beat that requests and is not granted waits unchanged: if its producer still offers
  it after the round (a lane that already waits needs nothing of its producer), it is the beat
  of its lane in the next round, whatever the producer offers then; a granted lane is free
  for the next result; squashing tags drops exactly the waiting beats with these tags.
\<close>

theorem arbiter_keeps_beats:
  assumes "arb_wf a" "length ps = arb_num_producers a" "length aft = arb_num_producers a"
    and "i < arb_num_producers a"
  shows "\<exists>g a1 a2. arb_selectGrants ps a = Some (g, a1) \<and> arb_commitPending aft a1 = Some a2
    \<and> (arb_request a ps ! i \<and> i \<notin> set (gr_indices g) \<and> (arb_pending_valid a ! i \<or> aft ! i = ps ! i)
        \<longrightarrow> (\<forall>ps'. arb_request a2 ps' ! i \<and> arb_lane a2 ps' ! i = arb_lane a ps ! i))
    \<and> (i \<in> set (gr_indices g) \<and> \<not> cp_valid (aft ! i) \<longrightarrow> \<not> arb_pending_valid a2 ! i)
    \<and> (\<forall>tags. arb_pending_valid (arb_invalidateTags tags a) ! i
         = (arb_pending_valid a ! i \<and> cp_rob_id (arb_pending a ! i) \<notin> Some ` set tags))"
proof -
  obtain g a1 a2 where s: "arb_selectGrants ps a = Some (g, a1)" "arb_commitPending aft a1 = Some a2"
      "gr_indices g = arb_granted ps a" "arb_num_producers a2 = arb_num_producers a"
      "(arb_pending_valid a2 ! i, arb_pending a2 ! i)
        = next_pending (arb_pending_valid a ! i) (i \<in> set (arb_granted ps a)) (arb_pending a ! i) (aft ! i)"
    using arb_round_ok [OF assms(1-3)] assms(4) by blast
  have "arb_request a2 ps' ! i \<and> arb_lane a2 ps' ! i = arb_lane a ps ! i"
    if "arb_request a ps ! i" "i \<notin> set (gr_indices g)" "arb_pending_valid a ! i \<or> aft ! i = ps ! i" for ps'
    using that s assms(4) by (auto simp: arb_request_def arb_lane_def next_pending_def split: if_splits)
  moreover have "\<not> arb_pending_valid a2 ! i" if "i \<in> set (gr_indices g)" "\<not> cp_valid (aft ! i)"
    using that s arb_granted_props(2) [OF assms(1), of ps] by (auto simp: next_pending_def split: if_splits)
  moreover have "arb_pending_valid (arb_invalidateTags tags a) ! i
         = (arb_pending_valid a ! i \<and> cp_rob_id (arb_pending a ! i) \<notin> Some ` set tags)" for tags
    using assms(4) by (auto simp: arb_invalidateTags_def Let_def)
  ultimately show ?thesis using s(1,2) by blast
qed

lemma arbiter_keeps_beats_witness:
  "\<exists>g a1 a2. arb_selectGrants [live_beat 5, live_beat 6, live_beat 7] arb_demo = Some (g, a1)
     \<and> arb_commitPending [cp0, cp0, live_beat 7] a1 = Some a2 \<and> arb_lane a2 [cp0, cp0, cp0] ! 2 = live_beat 7"
proof -
  have "2 \<notin> set (arb_granted [live_beat 5, live_beat 6, live_beat 7] arb_demo)" by code_simp
  moreover have "arb_request arb_demo [live_beat 5, live_beat 6, live_beat 7] ! 2"
      "arb_lane arb_demo [live_beat 5, live_beat 6, live_beat 7] ! 2 = live_beat 7" by code_simp+
  ultimately show ?thesis
    using arbiter_keeps_beats [OF arb_demo_wf(1), of "[live_beat 5, live_beat 6, live_beat 7]" "[cp0, cp0, live_beat 7]" 2]
      selectGrants_ok [OF arb_demo_wf(1), of "[live_beat 5, live_beat 6, live_beat 7]"] arb_demo_wf(2)
    by auto
qed

end
