(* ===== verification/ExecutionEngine.thy ===== *)
theory ExecutionEngine
  imports Execute CdbArbiter
begin

text \<open>
  The functional units of \<open>src/execution_engine.cpp\<close>: one pipeline per unit that freezes while
  its finished result is not taken, and the engine that issues to them, offers their results
  to the bus and squashes. Each unit refines a queue of results.
\<close>

section \<open>One functional unit\<close>

record Stage =
  sg_valid :: bool
  sg_rob_id :: "tag option"
  sg_value :: i32
  sg_is_control :: bool
  sg_offer_cdb :: bool

definition stage0 :: Stage where
  "stage0 = \<lparr>sg_valid = False, sg_rob_id = None, sg_value = 0, sg_is_control = False, sg_offer_cdb = True\<rparr>"

record ExecutionUnit =
  eu_type :: string
  eu_latency :: nat
  eu_pipe :: "Stage list"

definition eu_init :: "string \<Rightarrow> int \<Rightarrow> ExecutionUnit" where
  "eu_init t l = (let n = (if l < 1 then 1 else nat l) in
     \<lparr>eu_type = t, eu_latency = n, eu_pipe = replicate n stage0\<rparr>)"

definition eu_canIssue :: "bool \<Rightarrow> ExecutionUnit \<Rightarrow> bool" where
  "eu_canIssue lane_ready u \<longleftrightarrow> lane_ready \<and> \<not> sg_valid (eu_pipe u ! 0)"

definition is_toy_branch :: "string \<Rightarrow> bool" where
  "is_toy_branch op \<longleftrightarrow> op = ''BEQ'' \<or> op = ''BNE'' \<or> op = ''CALL'' \<or> op = ''RET''"

text \<open>The opcode comparisons are case-sensitive here; \<open>None\<close> is the trapping division.\<close>

definition toy_value :: "string \<Rightarrow> i32 \<Rightarrow> i32 \<Rightarrow> i32 option" where
  "toy_value op val1 val2 =
    (if op = ''ADD'' then Some (val1 + val2)
     else if op = ''SUB'' then Some (val1 - val2)
     else if op = ''MUL'' then Some (val1 * val2)
     else if op = ''DIV'' then (if val2 \<noteq> 0 then int_div val1 val2 else Some 0)
     else if op = ''BEQ'' then Some (if val1 = val2 then 1 else 0)
     else if op = ''BNE'' then Some (if val1 \<noteq> val2 then 1 else 0)
     else Some 0)"

definition eu_issue_toy :: "string \<Rightarrow> i32 \<Rightarrow> i32 \<Rightarrow> tag \<Rightarrow> ExecutionUnit \<Rightarrow> (bool \<times> ExecutionUnit) option" where
  "eu_issue_toy op val1 val2 r_id u =
    (if \<not> eu_canIssue True u then Some (False, u)
     else case toy_value op val1 val2 of None \<Rightarrow> None
       | Some v \<Rightarrow> Some (True, u\<lparr>eu_pipe := (eu_pipe u)[0 := \<lparr>sg_valid = True, sg_rob_id = Some r_id,
           sg_value = v, sg_is_control = is_toy_branch op, sg_offer_cdb = \<not> is_toy_branch op\<rparr>]\<rparr>))"

definition eu_issue ::
    "Op \<Rightarrow> i32 \<Rightarrow> i32 \<Rightarrow> tag \<Rightarrow> i32 \<Rightarrow> u32 \<Rightarrow> bool \<Rightarrow> ExecutionUnit \<Rightarrow> bool \<times> ExecutionUnit" where
  "eu_issue op val1 val2 r_id imm pc rd_used u =
    (if \<not> eu_canIssue True u then (False, u)
     else let is_br = (fuForOp op = FU_BR); is_jump = (op = BR_JAL \<or> op = BR_JALR) in
       (True, u\<lparr>eu_pipe := (eu_pipe u)[0 := \<lparr>sg_valid = True, sg_rob_id = Some r_id,
           sg_value = executeOp op val1 val2 imm pc, sg_is_control = is_br,
           sg_offer_cdb = (\<not> is_br \<or> (is_jump \<and> rd_used))\<rparr>]\<rparr>))"

definition eu_output :: "ExecutionUnit \<Rightarrow> Stage" where
  "eu_output u = last (eu_pipe u)"

definition eu_consumeOutput :: "ExecutionUnit \<Rightarrow> ExecutionUnit option" where
  "eu_consumeOutput u = (if sg_valid (eu_output u)
     then Some (u\<lparr>eu_pipe := butlast (eu_pipe u) @ [stage0]\<rparr>) else None)"

definition eu_advance :: "bool \<Rightarrow> ExecutionUnit \<Rightarrow> ExecutionUnit" where
  "eu_advance cdb_ready u =
    (if \<not> cdb_ready then u
     else if sg_valid (eu_output u) then u
     else u\<lparr>eu_pipe := stage0 # butlast (eu_pipe u)\<rparr>)"

definition eu_clear :: "ExecutionUnit \<Rightarrow> ExecutionUnit" where
  "eu_clear u = u\<lparr>eu_pipe := map (\<lambda>s. stage0) (eu_pipe u)\<rparr>"

definition eu_anyValid :: "ExecutionUnit \<Rightarrow> bool" where
  "eu_anyValid u \<longleftrightarrow> (\<exists>s \<in> set (eu_pipe u). sg_valid s)"

section \<open>The engine\<close>

record ExecutionEngine =
  ee_units :: "ExecutionUnit list"
  ee_lane_ready :: "bool list"

definition ee_init :: "nat \<Rightarrow> nat \<Rightarrow> nat \<Rightarrow> nat \<Rightarrow> int \<Rightarrow> int \<Rightarrow> int \<Rightarrow> int \<Rightarrow> ExecutionEngine" where
  "ee_init n_alu n_mul n_div n_br alu_lat mul_lat div_lat br_lat =
    (let us = replicate n_alu (eu_init ''ALU'' alu_lat) @ replicate n_mul (eu_init ''MUL'' mul_lat)
        @ replicate n_div (eu_init ''DIV'' div_lat) @ replicate n_br (eu_init ''BR'' br_lat) in
     \<lparr>ee_units = us, ee_lane_ready = replicate (length us) True\<rparr>)"

definition toy_unit :: "string \<Rightarrow> string" where
  "toy_unit op = (if op = ''MUL'' then ''MUL'' else if op = ''DIV'' then ''DIV''
     else if is_toy_branch op then ''BR'' else ''ALU'')"

definition op_unit :: "Op \<Rightarrow> string option" where
  "op_unit op = (case fuForOp op of FU_MUL \<Rightarrow> Some ''MUL'' | FU_DIV \<Rightarrow> Some ''DIV''
     | FU_BR \<Rightarrow> Some ''BR'' | FU_MEM \<Rightarrow> None | FU_ALU \<Rightarrow> Some ''ALU'')"

text \<open>The first unit of the required type that can accept an instruction.\<close>

definition ee_find :: "string \<Rightarrow> ExecutionEngine \<Rightarrow> nat option" where
  "ee_find ty s = first_idx (\<lambda>i. eu_type (ee_units s ! i) = ty \<and>
     eu_canIssue (ee_lane_ready s ! i) (ee_units s ! i)) [0..<length (ee_units s)]"

definition ee_issue_toy :: "string \<Rightarrow> i32 \<Rightarrow> i32 \<Rightarrow> tag \<Rightarrow> ExecutionEngine \<Rightarrow> (bool \<times> ExecutionEngine) option" where
  "ee_issue_toy op val1 val2 rob_id s =
    (case ee_find (toy_unit op) s of None \<Rightarrow> Some (False, s)
     | Some i \<Rightarrow> (case eu_issue_toy op val1 val2 rob_id (ee_units s ! i) of None \<Rightarrow> None
        | Some (ok, u) \<Rightarrow> Some (ok, s\<lparr>ee_units := (ee_units s)[i := u]\<rparr>)))"

definition ee_issue ::
    "Op \<Rightarrow> i32 \<Rightarrow> i32 \<Rightarrow> tag \<Rightarrow> i32 \<Rightarrow> u32 \<Rightarrow> bool \<Rightarrow> ExecutionEngine \<Rightarrow> bool \<times> ExecutionEngine" where
  "ee_issue op val1 val2 rob_id imm pc rd_used s =
    (case op_unit op of None \<Rightarrow> (False, s)
     | Some ty \<Rightarrow> (case ee_find ty s of None \<Rightarrow> (False, s)
        | Some i \<Rightarrow> (let (ok, u) = eu_issue op val1 val2 rob_id imm pc rd_used (ee_units s ! i)
                     in (ok, s\<lparr>ee_units := (ee_units s)[i := u]\<rparr>))))"

definition ee_lane :: "nat \<Rightarrow> ExecutionUnit \<Rightarrow> CdbProducer" where
  "ee_lane i u = (let o' = eu_output u in
     if sg_valid o' \<and> sg_offer_cdb o'
     then \<lparr>cp_valid = True, cp_rob_id = sg_rob_id o', cp_value = sg_value o', cp_source = 0, cp_slot = Some i\<rparr>
     else cp0\<lparr>cp_source := 0, cp_slot := Some i\<rparr>)"

definition ee_collectProducersFixed :: "ExecutionEngine \<Rightarrow> CdbProducer list" where
  "ee_collectProducersFixed s = map (\<lambda>i. ee_lane i (ee_units s ! i)) [0..<length (ee_units s)]"

definition ee_collectProducers :: "ExecutionEngine \<Rightarrow> CdbProducer list" where
  "ee_collectProducers s = filter cp_valid (ee_collectProducersFixed s)"

definition ee_setLaneReady :: "bool list \<Rightarrow> ExecutionEngine \<Rightarrow> ExecutionEngine" where
  "ee_setLaneReady ready s = s\<lparr>ee_lane_ready :=
     map (\<lambda>i. if i < length ready then ready ! i else True) [0..<length (ee_units s)]\<rparr>"

record BrResolve =
  br_slot :: nat
  br_rob_id :: "tag option"
  br_value :: i32
  br_offer_cdb :: bool

definition ee_collectBranchResolves :: "ExecutionEngine \<Rightarrow> BrResolve list" where
  "ee_collectBranchResolves s =
    map (\<lambda>i. let o' = eu_output (ee_units s ! i) in \<lparr>br_slot = i, br_rob_id = sg_rob_id o',
          br_value = sg_value o', br_offer_cdb = sg_offer_cdb o'\<rparr>)
      (filter (\<lambda>i. let o' = eu_output (ee_units s ! i) in sg_valid o' \<and> sg_is_control o')
        [0..<length (ee_units s)])"

text \<open>What happens to one unit at the end of writeback.\<close>

definition eu_retire :: "bool \<Rightarrow> bool \<Rightarrow> ExecutionUnit \<Rightarrow> ExecutionUnit" where
  "eu_retire granted ready u =
    eu_advance ready (if sg_valid (eu_output u) \<and> granted then the (eu_consumeOutput u) else u)"

definition ee_applyCdbAndAdvance :: "nat set \<Rightarrow> ExecutionEngine \<Rightarrow> ExecutionEngine" where
  "ee_applyCdbAndAdvance granted s = s\<lparr>ee_units :=
     map (\<lambda>i. eu_retire (i \<in> granted)
           (if i < length (ee_lane_ready s) then ee_lane_ready s ! i else True) (ee_units s ! i))
       [0..<length (ee_units s)]\<rparr>"

definition ee_tick :: "ExecutionEngine \<Rightarrow> ExecutionEngine" where
  "ee_tick s = ee_applyCdbAndAdvance {} s"

definition ee_releaseSlot :: "nat \<Rightarrow> ExecutionEngine \<Rightarrow> ExecutionEngine option" where
  "ee_releaseSlot i s =
    (if i < length (ee_units s)
     then (case eu_consumeOutput (ee_units s ! i) of None \<Rightarrow> None
       | Some u \<Rightarrow> Some (s\<lparr>ee_units := (ee_units s)[i := u]\<rparr>))
     else None)"

definition squash_stage :: "tag list \<Rightarrow> Stage \<Rightarrow> Stage" where
  "squash_stage tags sg = (if sg_valid sg \<and> sg_rob_id sg \<in> Some ` set tags then stage0 else sg)"

definition ee_squashRobTags :: "tag list \<Rightarrow> ExecutionEngine \<Rightarrow> ExecutionEngine" where
  "ee_squashRobTags tags s = s\<lparr>ee_units :=
     map (\<lambda>u. u\<lparr>eu_pipe := map (squash_stage tags) (eu_pipe u)\<rparr>) (ee_units s)\<rparr>"

section \<open>A unit is a queue of results\<close>

definition eu_wf :: "ExecutionUnit \<Rightarrow> bool" where
  "eu_wf u \<longleftrightarrow> 0 < eu_latency u \<and> length (eu_pipe u) = eu_latency u"

text \<open>The results in the pipeline, the one nearest to the output first.\<close>

definition eu_contents :: "ExecutionUnit \<Rightarrow> Stage list" where
  "eu_contents u = filter sg_valid (rev (eu_pipe u))"

lemma stage0_invalid [simp]: "\<not> sg_valid stage0"
  by (simp add: stage0_def)

lemma eu_pipe_nonempty: "eu_wf u \<Longrightarrow> eu_pipe u \<noteq> []"
  by (auto simp: eu_wf_def)

lemma eu_wf_init [simp]: "eu_wf (eu_init t l)" "eu_contents (eu_init t l) = []"
  by (auto simp: eu_wf_def eu_init_def eu_contents_def Let_def filter_empty_conv)

lemma eu_contents_issue:
  "eu_wf u \<Longrightarrow> \<not> sg_valid (eu_pipe u ! 0) \<Longrightarrow> sg_valid sg \<Longrightarrow>
   eu_contents (u\<lparr>eu_pipe := (eu_pipe u)[0 := sg]\<rparr>) = eu_contents u @ [sg]"
  by (cases "eu_pipe u") (auto simp: eu_contents_def eu_wf_def)

lemma eu_contents_advance: "eu_wf u \<Longrightarrow> eu_contents (eu_advance r u) = eu_contents u"
  using eu_pipe_nonempty [of u]
  by (cases "eu_pipe u" rule: rev_cases) (auto simp: eu_contents_def eu_advance_def eu_output_def)

lemma eu_wf_advance: "eu_wf u \<Longrightarrow> eu_wf (eu_advance r u)"
  by (auto simp: eu_wf_def eu_advance_def)

lemma eu_consume:
  "eu_wf u \<Longrightarrow> sg_valid (eu_output u) \<Longrightarrow>
   \<exists>u'. eu_consumeOutput u = Some u' \<and> eu_wf u' \<and> eu_contents u = eu_output u # eu_contents u'
     \<and> \<not> sg_valid (eu_output u') \<and> eu_type u' = eu_type u"
  using eu_pipe_nonempty [of u]
  by (cases "eu_pipe u" rule: rev_cases) (auto simp: eu_contents_def eu_consumeOutput_def eu_output_def eu_wf_def)

lemma eu_retire_ok:
  assumes "eu_wf u"
  shows "eu_wf (eu_retire g r u)
    \<and> eu_contents u = (if g \<and> sg_valid (eu_output u) then [eu_output u] else []) @ eu_contents (eu_retire g r u)"
proof (cases "sg_valid (eu_output u) \<and> g")
  case True
  then obtain u' where "eu_consumeOutput u = Some u'" "eu_wf u'" "eu_contents u = eu_output u # eu_contents u'"
    using eu_consume [OF assms] by blast
  with True show ?thesis by (simp add: eu_retire_def eu_contents_advance eu_wf_advance)
qed (use assms in \<open>auto simp: eu_retire_def eu_contents_advance eu_wf_advance\<close>)

lemma eu_retire_frozen:
  "sg_valid (eu_output u) \<Longrightarrow> eu_retire False r u = u"
  by (simp add: eu_retire_def eu_advance_def)

lemma eu_contents_squash:
  "eu_contents (u\<lparr>eu_pipe := map (squash_stage tags) (eu_pipe u)\<rparr>)
     = filter (\<lambda>sg. sg_rob_id sg \<notin> Some ` set tags) (eu_contents u)"
proof -
  have "filter sg_valid (map (squash_stage tags) p) = filter (\<lambda>sg. sg_rob_id sg \<notin> Some ` set tags) (filter sg_valid p)" for p
    by (induction p) (auto simp: squash_stage_def)
  then show ?thesis by (simp add: eu_contents_def rev_map)
qed

text \<open>Advancing \<open>k\<close> times with a ready lane.\<close>

fun eu_advance_n :: "nat \<Rightarrow> ExecutionUnit \<Rightarrow> ExecutionUnit" where
  "eu_advance_n 0 u = u"
| "eu_advance_n (Suc k) u = eu_advance_n k (eu_advance True u)"

lemma eu_advance_n_pipe:
  "eu_pipe u = replicate j stage0 @ sg # replicate (k + m) stage0 \<Longrightarrow>
   eu_pipe (eu_advance_n k u) = replicate (j + k) stage0 @ sg # replicate m stage0"
proof (induction k arbitrary: u j)
  case (Suc k)
  have "eu_output u = stage0" by (simp add: eu_output_def Suc.prems flip: replicate_append_same)
  then have "eu_pipe (eu_advance True u) = replicate (Suc j) stage0 @ sg # replicate (k + m) stage0"
    using Suc.prems by (simp add: eu_advance_def butlast_append flip: replicate_append_same)
  from Suc.IH [OF this] show ?case by simp
qed simp

section \<open>The engine as a source of results\<close>

definition ee_wf :: "ExecutionEngine \<Rightarrow> bool" where
  "ee_wf s \<longleftrightarrow> length (ee_lane_ready s) = length (ee_units s) \<and> (\<forall>u \<in> set (ee_units s). eu_wf u)"

definition ee_offers :: "ExecutionEngine \<Rightarrow> nat \<Rightarrow> Stage option" where
  "ee_offers s k = (if k < length (ee_units s) \<and> eu_pipe (ee_units s ! k) \<noteq> [] \<and> sg_valid (eu_output (ee_units s ! k))
     then Some (eu_output (ee_units s ! k)) else None)"

definition ee_release :: "nat \<Rightarrow> ExecutionEngine \<Rightarrow> ExecutionEngine" where
  "ee_release k s = (case ee_releaseSlot k s of None \<Rightarrow> s | Some s' \<Rightarrow> s')"

definition ee_work :: "ExecutionEngine \<Rightarrow> Stage multiset" where
  "ee_work s = (\<Sum>u \<leftarrow> ee_units s. mset (eu_contents u))"

lemma sum_list_update_mset:
  fixes f :: "'a \<Rightarrow> 'b multiset"
  shows "i < length xs \<Longrightarrow> f (xs ! i) = m + f y \<Longrightarrow> sum_list (map f xs) = m + sum_list (map f (xs[i := y]))"
proof (induction xs arbitrary: i)
  case (Cons x xs)
  then show ?case by (cases i) (auto simp: add_ac)
qed simp

lemma eu_consume_contents:
  assumes "eu_pipe u \<noteq> []" "sg_valid (eu_output u)"
  shows "eu_consumeOutput u = Some (u\<lparr>eu_pipe := butlast (eu_pipe u) @ [stage0]\<rparr>)"
    and "eu_contents u = eu_output u # eu_contents (u\<lparr>eu_pipe := butlast (eu_pipe u) @ [stage0]\<rparr>)"
  using assms by (cases "eu_pipe u" rule: rev_cases; auto simp: eu_contents_def eu_consumeOutput_def eu_output_def)+

interpretation ee: lane_source ee_offers ee_release ee_work
proof (unfold_locales, goal_cases)
  case (1 s k r)
  then have k: "k < length (ee_units s)" "eu_pipe (ee_units s ! k) \<noteq> []" "sg_valid (eu_output (ee_units s ! k))"
      "r = eu_output (ee_units s ! k)"
    by (auto simp: ee_offers_def split: if_splits)
  then show ?case
    using sum_list_update_mset [of k "ee_units s" "\<lambda>u. mset (eu_contents u)" "{#r#}"] eu_consume_contents [OF k(2,3)]
    by (simp add: ee_work_def ee_release_def ee_releaseSlot_def)
next
  case (2 j k s)
  then show ?case by (auto simp: ee_offers_def ee_release_def ee_releaseSlot_def split: option.splits)
qed

lemma ee_release_unit:
  "ee_units (ee_release k s) = (if ee_offers s k \<noteq> None
     then (ee_units s)[k := (ee_units s ! k)\<lparr>eu_pipe := butlast (eu_pipe (ee_units s ! k)) @ [stage0]\<rparr>]
     else ee_units (ee_release k s))"
  by (auto simp: ee_offers_def ee_release_def ee_releaseSlot_def eu_consume_contents split: if_splits)

lemma length_ee_release [simp]: "length (ee_units (ee_release k s)) = length (ee_units s)"
  by (simp add: ee_release_def ee_releaseSlot_def split: option.splits)

lemma ee_release_nth_other: "i \<noteq> k \<Longrightarrow> ee_units (ee_release k s) ! i = ee_units s ! i"
  by (auto simp: ee_release_def ee_releaseSlot_def split: option.splits)

lemma ee_release_fold_nth:
  "distinct ks \<Longrightarrow> (\<And>k. k \<in> set ks \<Longrightarrow> ee_offers s k \<noteq> None) \<Longrightarrow>
   length (ee_units (fold ee_release ks s)) = length (ee_units s) \<and>
   (\<forall>i < length (ee_units s). ee_units (fold ee_release ks s) ! i =
     (if i \<in> set ks then the (eu_consumeOutput (ee_units s ! i)) else ee_units s ! i))"
proof (induction ks arbitrary: s)
  case (Cons k ks)
  have "ee_offers (ee_release k s) j \<noteq> None" if "j \<in> set ks" for j
  proof -
    have "j \<noteq> k" using that Cons.prems(1) by auto
    moreover have "ee_offers s j \<noteq> None" using that by (intro Cons.prems(2)) simp
    ultimately show ?thesis using ee.release_other [of j k s] by simp
  qed
  with Cons.IH [of "ee_release k s"] Cons.prems(1)
  have ih: "length (ee_units (fold ee_release ks (ee_release k s))) = length (ee_units s)"
      "\<And>i. i < length (ee_units s) \<Longrightarrow> ee_units (fold ee_release ks (ee_release k s)) ! i =
       (if i \<in> set ks then the (eu_consumeOutput (ee_units (ee_release k s) ! i)) else ee_units (ee_release k s) ! i)"
    by auto
  have "ee_offers s k \<noteq> None" using Cons.prems(2) by simp
  then have k: "ee_units (ee_release k s) ! k = the (eu_consumeOutput (ee_units s ! k))" "k < length (ee_units s)"
    by (auto simp: ee_release_unit [of k s] ee_offers_def eu_consume_contents split: if_splits)
  show ?case
  proof (intro conjI allI impI)
    show "length (ee_units (fold ee_release (k # ks) s)) = length (ee_units s)" using ih(1) by simp
    fix i assume i: "i < length (ee_units s)"
    show "ee_units (fold ee_release (k # ks) s) ! i =
        (if i \<in> set (k # ks) then the (eu_consumeOutput (ee_units s ! i)) else ee_units s ! i)"
      using ih(2) [OF i] k Cons.prems(1) by (cases "i = k") (auto simp: ee_release_nth_other)
  qed
qed simp

lemma ee_work_cong:
  "length (ee_units s) = length (ee_units t) \<Longrightarrow>
   (\<And>i. i < length (ee_units s) \<Longrightarrow> eu_contents (ee_units s ! i) = eu_contents (ee_units t ! i)) \<Longrightarrow>
   ee_work s = ee_work t"
  unfolding ee_work_def by (intro arg_cong [of _ _ sum_list] nth_equalityI) auto

text \<open>The offering units among the granted ones leave, and nothing else does.\<close>

definition ee_leaving :: "nat set \<Rightarrow> ExecutionEngine \<Rightarrow> nat list" where
  "ee_leaving G s = filter (\<lambda>i. i \<in> G \<and> ee_offers s i \<noteq> None) [0..<length (ee_units s)]"

lemma ee_apply_work:
  assumes wf: "ee_wf s"
  shows "ee_work s = mset (map (\<lambda>k. the (ee_offers s k)) (ee_leaving G s)) + ee_work (ee_applyCdbAndAdvance G s)"
proof -
  define ks where "ks = ee_leaving G s"
  note ks_def = ks_def [unfolded ee_leaving_def]
  have d: "distinct ks" "\<And>k. k \<in> set ks \<Longrightarrow> ee_offers s k \<noteq> None" by (auto simp: ks_def)
  note f = ee_release_fold_nth [OF d]
  have u: "eu_wf (ee_units s ! i)" if "i < length (ee_units s)" for i
    using wf that by (simp add: ee_wf_def)
  have "ee_work (ee_applyCdbAndAdvance G s) = ee_work (fold ee_release ks s)"
  proof (rule ee_work_cong)
    show "length (ee_units (ee_applyCdbAndAdvance G s)) = length (ee_units (fold ee_release ks s))"
      using f by (simp add: ee_applyCdbAndAdvance_def)
    fix i assume "i < length (ee_units (ee_applyCdbAndAdvance G s))"
    then have i: "i < length (ee_units s)" by (simp add: ee_applyCdbAndAdvance_def)
    show "eu_contents (ee_units (ee_applyCdbAndAdvance G s) ! i) = eu_contents (ee_units (fold ee_release ks s) ! i)"
    proof (cases "i \<in> set ks")
      case True
      then have "sg_valid (eu_output (ee_units s ! i)) \<and> i \<in> G"
        by (auto simp: ks_def ee_offers_def split: if_splits)
      moreover from this obtain u' where "eu_consumeOutput (ee_units s ! i) = Some u'" "eu_wf u'"
        using eu_consume [OF u [OF i]] by blast
      ultimately show ?thesis
        using f True i by (simp add: ee_applyCdbAndAdvance_def eu_retire_def eu_contents_advance)
    next
      case False
      then have "\<not> (sg_valid (eu_output (ee_units s ! i)) \<and> i \<in> G)"
        using i eu_pipe_nonempty [OF u [OF i]] by (auto simp: ks_def ee_offers_def)
      then show ?thesis
        using f False i u [OF i] by (auto simp: ee_applyCdbAndAdvance_def eu_retire_def eu_contents_advance)
    qed
  qed
  with ee.release_all [OF d] show ?thesis by (simp add: ks_def ee_leaving_def)
qed

section \<open>The engine and the arbiter\<close>

text \<open>
  The arbiter's waiting beats of the engine's lanes mirror the frozen outputs; the other lanes
  hold beats of other sources.
\<close>

definition ee_mirror :: "CdbArbiter \<Rightarrow> ExecutionEngine \<Rightarrow> bool" where
  "ee_mirror a s \<longleftrightarrow> arb_wf a \<and> ee_wf s \<and> length (ee_units s) \<le> arb_num_producers a
     \<and> (\<forall>i < arb_num_producers a. arb_pending_valid a ! i \<longrightarrow>
          (if i < length (ee_units s)
           then arb_pending a ! i = ee_lane i (ee_units s ! i) \<and> cp_valid (arb_pending a ! i)
           else cp_source (arb_pending a ! i) \<noteq> 0))"

text \<open>
  One writeback on the engine: select grants among its lanes and the \<open>others\<close>, tell the lanes
  who may move, take the granted results and the slots \<open>R\<close> drained by the resolve bus, advance,
  and update the waiting beats from the new outputs.
\<close>

definition ee_cycle :: "nat set \<Rightarrow> CdbProducer list \<Rightarrow> CdbProducer list \<Rightarrow> CdbArbiter \<Rightarrow> ExecutionEngine
    \<Rightarrow> (Grants \<times> CdbArbiter \<times> ExecutionEngine) option" where
  "ee_cycle R others others' a s = do {
     (g, a1) \<leftarrow> arb_selectGrants (ee_collectProducersFixed s @ others) a;
     let s1 = ee_setLaneReady (take (length (ee_units s)) (gr_producer_ready g)) s;
     let G = R \<union> {k. \<exists>p \<in> set (gr_lanes g). cp_source p = 0 \<and> cp_slot p = Some k};
     let s2 = ee_applyCdbAndAdvance G s1;
     a2 \<leftarrow> arb_commitPending (ee_collectProducersFixed s2 @ others') a1;
     Some (g, a2, s2) }"

lemma ee_lane_valid: "cp_valid (ee_lane i u) \<longleftrightarrow> sg_valid (eu_output u) \<and> sg_offer_cdb (eu_output u)"
  by (simp add: ee_lane_def cp0_def Let_def)

lemma ee_lane_slot [simp]: "cp_source (ee_lane i u) = 0" "cp_slot (ee_lane i u) = Some i"
  by (simp_all add: ee_lane_def cp0_def Let_def)

lemma ee_lane_result:
  "cp_valid (ee_lane i u) \<Longrightarrow> cp_rob_id (ee_lane i u) = sg_rob_id (eu_output u)
     \<and> cp_value (ee_lane i u) = sg_value (eu_output u)"
  by (simp add: ee_lane_valid) (simp add: ee_lane_def Let_def)

lemma ee_collect_nth:
  "i < length (ee_units s) \<Longrightarrow> (ee_collectProducersFixed s @ others) ! i = ee_lane i (ee_units s ! i)"
  by (simp add: ee_collectProducersFixed_def nth_append)

lemma ee_collect_length [simp]: "length (ee_collectProducersFixed s) = length (ee_units s)"
  by (simp add: ee_collectProducersFixed_def)

lemma ee_setLaneReady_frame [simp]:
  "ee_units (ee_setLaneReady r s) = ee_units s" "ee_offers (ee_setLaneReady r s) = ee_offers s"
  "ee_work (ee_setLaneReady r s) = ee_work s" "ee_wf (ee_setLaneReady r s) \<longleftrightarrow> (\<forall>u \<in> set (ee_units s). eu_wf u)"
  by (auto simp: ee_setLaneReady_def ee_offers_def ee_work_def ee_wf_def fun_eq_iff)

lemma ee_apply_units [simp]:
  "length (ee_units (ee_applyCdbAndAdvance G s)) = length (ee_units s)"
  "length (ee_lane_ready (ee_applyCdbAndAdvance G s)) = length (ee_lane_ready s)"
  by (simp_all add: ee_applyCdbAndAdvance_def)

lemma ee_apply_wf: "ee_wf s \<Longrightarrow> ee_wf (ee_applyCdbAndAdvance G s)"
  by (auto simp: ee_wf_def ee_applyCdbAndAdvance_def eu_retire_ok)

lemma ee_apply_frozen:
  "i < length (ee_units s) \<Longrightarrow> i \<notin> G \<Longrightarrow> sg_valid (eu_output (ee_units s ! i)) \<Longrightarrow>
   ee_units (ee_applyCdbAndAdvance G s) ! i = ee_units s ! i"
  by (simp add: ee_applyCdbAndAdvance_def eu_retire_frozen)

lemma ee_mirrorD:
  "ee_mirror a s \<Longrightarrow> i < length (ee_units s) \<Longrightarrow> arb_pending_valid a ! i \<Longrightarrow>
   arb_pending a ! i = ee_lane i (ee_units s ! i) \<and> cp_valid (ee_lane i (ee_units s ! i))"
  unfolding ee_mirror_def by (metis less_le_trans)

text \<open>The lane of a granted or waiting engine slot is its current output.\<close>

lemma ee_mirror_lane:
  assumes "ee_mirror a s" "i < length (ee_units s)" "arb_request a (ee_collectProducersFixed s @ others) ! i"
  shows "arb_lane a (ee_collectProducersFixed s @ others) ! i = ee_lane i (ee_units s ! i)
    \<and> cp_valid (ee_lane i (ee_units s ! i))"
proof -
  have "i < arb_num_producers a" using assms(1,2) by (simp add: ee_mirror_def)
  with assms show ?thesis
    using ee_mirrorD [OF assms(1,2)] by (auto simp: arb_request_def arb_lane_def ee_collect_nth)
qed

lemma ee_mirror_other:
  assumes "ee_mirror a s" "length (ee_units s) \<le> i" "i < arb_num_producers a"
    and "length (ee_units s) + length others = arb_num_producers a" "\<forall>p \<in> set others. cp_source p \<noteq> 0"
    and "arb_request a (ee_collectProducersFixed s @ others) ! i"
  shows "cp_source (arb_lane a (ee_collectProducersFixed s @ others) ! i) \<noteq> 0"
proof -
  have "(ee_collectProducersFixed s @ others) ! i \<in> set others"
    using assms(2-4) by (simp add: nth_append)
  with assms show ?thesis by (auto simp: ee_mirror_def arb_request_def arb_lane_def)
qed

text \<open>The slots released in a cycle: those drained by the resolve bus and the granted ones.\<close>

definition ee_lanes :: "CdbProducer list \<Rightarrow> ExecutionEngine \<Rightarrow> CdbProducer list" where
  "ee_lanes others s = ee_collectProducersFixed s @ others"

definition ee_won :: "CdbProducer list \<Rightarrow> CdbArbiter \<Rightarrow> ExecutionEngine \<Rightarrow> nat list" where
  "ee_won others a s = filter (\<lambda>i. i < length (ee_units s)) (arb_granted (ee_lanes others s) a)"

definition ee_drain :: "nat set \<Rightarrow> ExecutionEngine \<Rightarrow> bool" where
  "ee_drain R s \<longleftrightarrow> (\<forall>i \<in> R. i < length (ee_units s) \<and> sg_valid (eu_output (ee_units s ! i))
      \<and> \<not> sg_offer_cdb (eu_output (ee_units s ! i)))"

lemma ee_won_lane:
  assumes "ee_mirror a s" "i \<in> set (ee_won others a s)"
  shows "i < length (ee_units s)" "arb_lane a (ee_lanes others s) ! i = ee_lane i (ee_units s ! i)"
    "cp_valid (ee_lane i (ee_units s ! i))"
proof -
  have "arb_wf a" using assms(1) by (simp add: ee_mirror_def)
  then have i: "i < length (ee_units s)" "arb_request a (ee_lanes others s) ! i"
    using assms(2) arb_granted_props(2) [of a "ee_lanes others s"] by (auto simp: ee_won_def)
  then show "i < length (ee_units s)" "arb_lane a (ee_lanes others s) ! i = ee_lane i (ee_units s ! i)"
      "cp_valid (ee_lane i (ee_units s ! i))"
    using ee_mirror_lane [OF assms(1) i(1), of others] by (auto simp: ee_lanes_def)
qed

lemma ee_granted_slots:
  assumes mir: "ee_mirror a s" and len: "length (ee_units s) + length others = arb_num_producers a"
    and src: "\<forall>p \<in> set others. cp_source p \<noteq> 0"
  shows "{k. \<exists>p \<in> set (map (\<lambda>i. arb_lane a (ee_lanes others s) ! i) (arb_granted (ee_lanes others s) a)).
      cp_source p = 0 \<and> cp_slot p = Some k} = set (ee_won others a s)"
proof -
  have wf: "arb_wf a" using mir by (simp add: ee_mirror_def)
  have o: "cp_source (arb_lane a (ee_lanes others s) ! i) \<noteq> 0"
    if "i \<in> set (arb_granted (ee_lanes others s) a)" "i \<notin> set (ee_won others a s)" for i
  proof -
    have "i < arb_num_producers a" "arb_request a (ee_lanes others s) ! i" "length (ee_units s) \<le> i"
      using that arb_granted_props(2) [OF wf, of "ee_lanes others s"] by (auto simp: ee_won_def)
    then show ?thesis using ee_mirror_other [OF mir _ _ len src] by (simp add: ee_lanes_def)
  qed
  have e: "cp_source (arb_lane a (ee_lanes others s) ! i) = 0"
      "cp_slot (arb_lane a (ee_lanes others s) ! i) = Some i" if "i \<in> set (ee_won others a s)" for i
    using ee_won_lane [OF mir that] by auto
  show ?thesis
  proof (intro equalityI subsetI)
    fix k assume "k \<in> {k. \<exists>p \<in> set (map (\<lambda>i. arb_lane a (ee_lanes others s) ! i)
        (arb_granted (ee_lanes others s) a)). cp_source p = 0 \<and> cp_slot p = Some k}"
    then obtain i where i: "i \<in> set (arb_granted (ee_lanes others s) a)"
        "cp_source (arb_lane a (ee_lanes others s) ! i) = 0"
        "cp_slot (arb_lane a (ee_lanes others s) ! i) = Some k" by auto
    then have "i \<in> set (ee_won others a s)" using o by blast
    with e i(3) show "k \<in> set (ee_won others a s)" by auto
  next
    fix k assume k: "k \<in> set (ee_won others a s)"
    then have "k \<in> set (arb_granted (ee_lanes others s) a)" by (simp add: ee_won_def)
    with e [OF k] show "k \<in> {k. \<exists>p \<in> set (map (\<lambda>i. arb_lane a (ee_lanes others s) ! i)
        (arb_granted (ee_lanes others s) a)). cp_source p = 0 \<and> cp_slot p = Some k}" by auto
  qed
qed

text \<open>The released slots leave with their outputs.\<close>

lemma ee_drain_offers:
  assumes "ee_wf s" "i < length (ee_units s)" "sg_valid (eu_output (ee_units s ! i))"
  shows "ee_offers s i = Some (eu_output (ee_units s ! i))"
  using assms eu_pipe_nonempty [of "ee_units s ! i"] by (simp add: ee_offers_def ee_wf_def)

lemma ee_cycle_work:
  assumes mir: "ee_mirror a s" and R: "ee_drain R s" and r: "length rd = length (ee_units s)"
  shows "ee_work s = mset (map (\<lambda>i. eu_output (ee_units s ! i)) (ee_won others a s))
      + image_mset (\<lambda>i. eu_output (ee_units s ! i)) (mset_set R)
      + ee_work (ee_applyCdbAndAdvance (R \<union> set (ee_won others a s)) (ee_setLaneReady rd s))"
proof -
  let ?W = "ee_won others a s" and ?s1 = "ee_setLaneReady rd s"
  let ?G = "R \<union> set ?W"
  have wf: "ee_wf s" "ee_wf ?s1" "arb_wf a"
    using mir by (simp_all add: ee_mirror_def ee_wf_def) (simp add: ee_setLaneReady_def)
  have off: "ee_offers s i = Some (eu_output (ee_units s ! i)) \<and> i < length (ee_units s)" if "i \<in> ?G" for i
    using that R ee_won_lane [OF mir] ee_drain_offers [OF wf(1), of i]
    by (auto simp: ee_drain_def ee_lane_valid)
  have set_l: "set (ee_leaving ?G ?s1) = ?G"
    using off by (auto simp: ee_leaving_def)
  have disj: "R \<inter> set ?W = {}"
    using R ee_won_lane [OF mir] by (auto simp: ee_drain_def ee_lane_valid)
  have fin: "finite R" by (rule finite_subset [of R "{..<length (ee_units s)}"]) (use R in \<open>auto simp: ee_drain_def\<close>)
  have dW: "distinct ?W" using arb_granted_props(1) [OF wf(3)] by (simp add: ee_won_def)
  have "distinct (ee_leaving ?G ?s1)" by (simp add: ee_leaving_def)
  then have "mset (ee_leaving ?G ?s1) = mset_set ?G" using set_l by (metis mset_set_set)
  also have "\<dots> = mset_set R + mset ?W"
    using mset_set_Union [OF fin _ disj] mset_set_set [OF dW] by simp
  finally have m: "mset (ee_leaving ?G ?s1) = mset_set R + mset ?W" .
  have "mset (map (\<lambda>k. the (ee_offers ?s1 k)) (ee_leaving ?G ?s1))
      = image_mset (\<lambda>i. eu_output (ee_units s ! i)) (mset (ee_leaving ?G ?s1))"
    using off set_l by (auto intro!: image_mset_cong)
  with ee_apply_work [OF wf(2), of ?G] show ?thesis by (simp add: m add_ac)
qed

text \<open>The waiting beats mirror the outputs after the cycle.\<close>

lemma ee_mirror_step:
  assumes mir: "ee_mirror a s" and R: "ee_drain R s"
    and len: "length (ee_units s) + length others' = arb_num_producers a"
    and src: "\<forall>p \<in> set others'. cp_source p \<noteq> 0"
    and a2: "arb_wf a2" "arb_num_producers a2 = arb_num_producers a"
    and s2: "s2 = ee_applyCdbAndAdvance (R \<union> set (ee_won others a s)) (ee_setLaneReady rd s)"
    and np: "\<forall>i < arb_num_producers a. (arb_pending_valid a2 ! i, arb_pending a2 ! i)
        = next_pending (arb_pending_valid a ! i) (i \<in> set (arb_granted (ee_lanes others s) a))
            (arb_pending a ! i) (ee_lanes others' s2 ! i)"
  shows "ee_mirror a2 s2"
proof -
  have len2: "length (ee_units s2) = length (ee_units s)" by (simp add: s2)
  have "ee_wf s2" unfolding s2 by (rule ee_apply_wf)
      (use mir in \<open>simp add: ee_mirror_def ee_wf_def, simp add: ee_setLaneReady_def\<close>)
  moreover have "if i < length (ee_units s2)
      then arb_pending a2 ! i = ee_lane i (ee_units s2 ! i) \<and> cp_valid (arb_pending a2 ! i)
      else cp_source (arb_pending a2 ! i) \<noteq> 0"
    if i: "i < arb_num_producers a" "arb_pending_valid a2 ! i" for i
  proof (cases "i < length (ee_units s)")
    case True
    note n = np [rule_format, OF i(1)]
    have c: "ee_lanes others' s2 ! i = ee_lane i (ee_units s2 ! i)"
      using True len2 by (simp add: ee_lanes_def ee_collect_nth)
    show ?thesis
    proof (cases "arb_pending_valid a ! i \<and> i \<notin> set (arb_granted (ee_lanes others s) a)")
      case keep: True
      then have m: "arb_pending a ! i = ee_lane i (ee_units s ! i)" "cp_valid (ee_lane i (ee_units s ! i))"
        using ee_mirrorD [OF mir True] by auto
      moreover have "i \<notin> R \<union> set (ee_won others a s)"
        using keep R m(2) by (auto simp: ee_won_def ee_drain_def ee_lane_valid)
      then have "ee_units s2 ! i = ee_units s ! i"
        using ee_apply_frozen [of i "ee_setLaneReady rd s"] True m(2) by (simp add: s2 ee_lane_valid)
      ultimately show ?thesis using n keep True len2 i(2) by (simp add: next_pending_def)
    next
      case False
      then show ?thesis using n c True len2 i(2) by (auto simp: next_pending_def split: if_splits)
    qed
  next
    case False
    then have "ee_lanes others' s2 ! i \<in> set others'"
      using len len2 i(1) by (simp add: ee_lanes_def nth_append)
    moreover have "cp_source (arb_pending a ! i) \<noteq> 0" if "arb_pending_valid a ! i"
      using mir that False i(1) by (auto simp: ee_mirror_def)
    ultimately show ?thesis using np i src False len2 by (auto simp: next_pending_def split: if_splits)
  qed
  then have "\<forall>i < arb_num_producers a2. arb_pending_valid a2 ! i \<longrightarrow> (if i < length (ee_units s2)
      then arb_pending a2 ! i = ee_lane i (ee_units s2 ! i) \<and> cp_valid (arb_pending a2 ! i)
      else cp_source (arb_pending a2 ! i) \<noteq> 0)"
    unfolding a2(2) by blast
  moreover have "length (ee_units s2) \<le> arb_num_producers a2"
    using mir a2(2) len2 by (simp add: ee_mirror_def)
  ultimately show ?thesis using a2(1) unfolding ee_mirror_def by blast
qed

lemma ee_cycle_ok:
  assumes mir: "ee_mirror a s" and R: "ee_drain R s"
    and len: "length (ee_units s) + length others = arb_num_producers a" "length others' = length others"
    and src: "\<forall>p \<in> set (others @ others'). cp_source p \<noteq> 0"
  shows "\<exists>g a2 s2. ee_cycle R others others' a s = Some (g, a2, s2) \<and> ee_mirror a2 s2
    \<and> gr_indices g = arb_granted (ee_lanes others s) a
    \<and> gr_out g = map (arb_result (ee_lanes others s) a) (gr_indices g)
    \<and> ee_work s = mset (map (\<lambda>i. eu_output (ee_units s ! i)) (ee_won others a s))
        + image_mset (\<lambda>i. eu_output (ee_units s ! i)) (mset_set R) + ee_work s2"
proof -
  let ?ps = "ee_lanes others s" and ?I = "arb_granted (ee_lanes others s) a"
  have wf: "arb_wf a" using mir by (simp add: ee_mirror_def)
  have lps: "length ?ps = arb_num_producers a" using len(1) by (simp add: ee_lanes_def)
  define g where "g = \<lparr>gr_out = map (arb_result ?ps a) ?I, gr_indices = ?I,
       gr_lanes = map (\<lambda>i. arb_lane a ?ps ! i) ?I,
       gr_producer_ready = map (\<lambda>i. \<not> arb_pending_valid a ! i \<or> i \<in> set ?I) [0..<arb_num_producers a]\<rparr>"
  obtain a1 where a1: "arb_selectGrants ?ps a = Some (g, a1)"
      "arb_wf a1" "arb_num_producers a1 = arb_num_producers a"
      "arb_pending_valid a1 = arb_pending_valid a" "arb_pending a1 = arb_pending a"
      "arb_last_grant a1 = map (\<lambda>i. i \<in> set ?I) [0..<arb_num_producers a]"
    using selectGrants_ok [OF wf lps] unfolding g_def by blast
  define rd where "rd = take (length (ee_units s)) (gr_producer_ready g)"
  define s2 where "s2 = ee_applyCdbAndAdvance (R \<union> set (ee_won others a s)) (ee_setLaneReady rd s)"
  have G: "{k. \<exists>p \<in> set (gr_lanes g). cp_source p = 0 \<and> cp_slot p = Some k} = set (ee_won others a s)"
    using ee_granted_slots [OF mir len(1)] src by (simp add: g_def)
  have "length (ee_lanes others' s2) = arb_num_producers a1"
    using len a1(3) by (simp add: ee_lanes_def s2_def)
  then obtain a2 where a2: "arb_commitPending (ee_lanes others' s2) a1 = Some a2" "arb_wf a2"
      "arb_num_producers a2 = arb_num_producers a"
      "\<forall>i < arb_num_producers a. (arb_pending_valid a2 ! i, arb_pending a2 ! i)
        = next_pending (arb_pending_valid a ! i) (i \<in> set ?I) (arb_pending a ! i) (ee_lanes others' s2 ! i)"
    using commitPending_ok [OF a1(2), of "ee_lanes others' s2"] a1(3-6) by auto
  have "ee_cycle R others others' a s = Some (g, a2, s2)"
    using a1(1) a2(1) G by (simp add: ee_cycle_def Let_def s2_def rd_def ee_lanes_def)
  moreover have "ee_mirror a2 s2"
    using ee_mirror_step [OF mir R _ _ a2(2,3) s2_def a2(4)] len src by simp
  moreover have "length rd = length (ee_units s)" using len(1) by (simp add: rd_def g_def)
  then have "ee_work s = mset (map (\<lambda>i. eu_output (ee_units s ! i)) (ee_won others a s))
        + image_mset (\<lambda>i. eu_output (ee_units s ! i)) (mset_set R) + ee_work s2"
    unfolding s2_def by (rule ee_cycle_work [OF mir R])
  ultimately show ?thesis by (auto simp: g_def)
qed

lemma ee_mirror_init:
  "ee_wf s \<Longrightarrow> 0 < w \<Longrightarrow> 0 < n \<Longrightarrow> length (ee_units s) \<le> n \<Longrightarrow> ee_mirror (the (arb_init w n)) s"
  by (auto simp: ee_mirror_def arb_init_def arb_reset_def arb_wf_def)

lemma ee_squash_nth:
  "i < length (ee_units s) \<Longrightarrow> ee_units (ee_squashRobTags tags s) ! i
     = (ee_units s ! i)\<lparr>eu_pipe := map (squash_stage tags) (eu_pipe (ee_units s ! i))\<rparr>"
  by (simp add: ee_squashRobTags_def)

lemma ee_squash_wf: "ee_wf s \<Longrightarrow> ee_wf (ee_squashRobTags tags s)"
  by (auto simp: ee_wf_def ee_squashRobTags_def eu_wf_def)

lemma ee_squash_work:
  "ee_work (ee_squashRobTags tags s) = filter_mset (\<lambda>sg. sg_rob_id sg \<notin> Some ` set tags) (ee_work s)"
proof -
  have "(\<Sum>u \<leftarrow> us. mset (eu_contents (u\<lparr>eu_pipe := map (squash_stage tags) (eu_pipe u)\<rparr>)))
      = filter_mset (\<lambda>sg. sg_rob_id sg \<notin> Some ` set tags) (\<Sum>u \<leftarrow> us. mset (eu_contents u))" for us
    by (induction us) (auto simp: eu_contents_squash)
  then show ?thesis by (simp add: ee_work_def ee_squashRobTags_def comp_def)
qed

lemma ee_mirror_squash:
  assumes "ee_mirror a s"
  shows "ee_mirror (arb_invalidateTags tags a) (ee_squashRobTags tags s)"
proof -
  have len: "length (ee_units (ee_squashRobTags tags s)) = length (ee_units s)"
    by (simp add: ee_squashRobTags_def)
  have wf: "ee_wf s" using assms by (simp add: ee_mirror_def)
  have "arb_pending (arb_invalidateTags tags a) ! i = ee_lane i (ee_units (ee_squashRobTags tags s) ! i)
      \<and> cp_valid (arb_pending (arb_invalidateTags tags a) ! i)"
    if i: "i < length (ee_units s)" "arb_pending_valid (arb_invalidateTags tags a) ! i" for i
  proof -
    have n: "i < arb_num_producers a" using assms i(1) by (simp add: ee_mirror_def)
    with i(2) have p: "arb_pending_valid a ! i" "cp_rob_id (arb_pending a ! i) \<notin> Some ` set tags"
      by (auto simp: arb_invalidateTags_def Let_def)
    note m = ee_mirrorD [OF assms i(1) p(1)]
    have "sg_rob_id (eu_output (ee_units s ! i)) \<notin> Some ` set tags"
      using m p(2) ee_lane_result by metis
    then have "eu_output (ee_units (ee_squashRobTags tags s) ! i) = eu_output (ee_units s ! i)"
      using eu_pipe_nonempty [of "ee_units s ! i"] wf i(1)
      by (simp add: ee_squash_nth eu_output_def last_map squash_stage_def ee_wf_def)
    then have "ee_lane i (ee_units (ee_squashRobTags tags s) ! i) = ee_lane i (ee_units s ! i)"
      by (simp add: ee_lane_def)
    with m p(1,2) n show ?thesis by (auto simp: arb_invalidateTags_def Let_def)
  qed
  with assms len ee_squash_wf [OF wf, of tags] show ?thesis
    by (auto simp: ee_mirror_def arb_invalidateTags_def Let_def arb_wf_def)
qed

section \<open>Properties\<close>

text \<open>
  C27: a functional unit is a first-in first-out queue of results: an instruction enters only
  a unit whose first stage is free, with the value of its operation; advancing neither loses
  nor reorders results; retiring removes the finished result exactly when it is granted, and a
  finished result that is not granted freezes the unit; a squash removes exactly the
  instructions with the squashed tags.
\<close>

theorem unit_is_fifo:
  assumes "eu_wf u"
  shows "(case eu_issue op va vb t imm pc rd u of (ok, u') \<Rightarrow>
       ok = (\<not> sg_valid (eu_pipe u ! 0)) \<and> eu_wf u'
       \<and> map (\<lambda>sg. (sg_rob_id sg, sg_value sg)) (eu_contents u')
          = map (\<lambda>sg. (sg_rob_id sg, sg_value sg)) (eu_contents u)
            @ (if ok then [(Some t, executeOp op va vb imm pc)] else []))
    \<and> eu_contents (eu_advance ready u) = eu_contents u
    \<and> eu_contents u = (if granted \<and> sg_valid (eu_output u) then [eu_output u] else [])
        @ eu_contents (eu_retire granted ready u)
    \<and> (sg_valid (eu_output u) \<longrightarrow> eu_retire False ready u = u)
    \<and> eu_contents (u\<lparr>eu_pipe := map (squash_stage tags) (eu_pipe u)\<rparr>)
        = filter (\<lambda>sg. sg_rob_id sg \<notin> Some ` set tags) (eu_contents u)"
proof -
  have "case eu_issue op va vb t imm pc rd u of (ok, u') \<Rightarrow>
       ok = (\<not> sg_valid (eu_pipe u ! 0)) \<and> eu_wf u'
       \<and> map (\<lambda>sg. (sg_rob_id sg, sg_value sg)) (eu_contents u')
          = map (\<lambda>sg. (sg_rob_id sg, sg_value sg)) (eu_contents u)
            @ (if ok then [(Some t, executeOp op va vb imm pc)] else [])"
    using assms eu_contents_issue [OF assms] by (simp add: eu_issue_def eu_canIssue_def Let_def) (simp add: eu_wf_def)
  then show ?thesis
    using eu_contents_advance [OF assms, of ready] eu_retire_ok [OF assms, of granted ready]
      eu_retire_frozen [of u ready] eu_contents_squash [where u = u and tags = tags]
    by blast
qed

lemma unit_is_fifo_witness:
  "eu_contents (eu_retire True True ((eu_init ''ALU'' 1)\<lparr>eu_pipe := [stage0\<lparr>sg_valid := True\<rparr>]\<rparr>)) = []"
  using unit_is_fifo [of "(eu_init ''ALU'' 1)\<lparr>eu_pipe := [stage0\<lparr>sg_valid := True\<rparr>]\<rparr>", where granted = True and ready = True]
  by (simp add: eu_wf_def eu_init_def eu_output_def eu_contents_def)

text \<open>
  C28: the latency is exact: an instruction issued to an idle unit of latency \<open>l\<close> is at the
  output after \<open>l - 1\<close> advances, with its result, and not before.
\<close>

theorem unit_latency:
  assumes "k < (if l < 1 then 1 else nat l)"
  shows "case eu_issue op va vb t imm pc rd (eu_init ty l) of (ok, u) \<Rightarrow>
     ok \<and> (if k = (if l < 1 then 1 else nat l) - 1
           then sg_valid (eu_output (eu_advance_n k u)) \<and> sg_rob_id (eu_output (eu_advance_n k u)) = Some t
             \<and> sg_value (eu_output (eu_advance_n k u)) = executeOp op va vb imm pc
           else \<not> sg_valid (eu_output (eu_advance_n k u)))"
proof -
  define n where "n = (if l < 1 then 1 else nat l)"
  obtain m where n: "n = Suc (k + m)" using assms less_iff_Suc_add [of k n] by (auto simp: n_def)
  define sg where "sg = \<lparr>sg_valid = True, sg_rob_id = Some t, sg_value = executeOp op va vb imm pc,
      sg_is_control = (fuForOp op = FU_BR),
      sg_offer_cdb = (fuForOp op \<noteq> FU_BR \<or> (op = BR_JAL \<or> op = BR_JALR) \<and> rd)\<rparr>"
  define u where "u = (eu_init ty l)\<lparr>eu_pipe := replicate 0 stage0 @ sg # replicate (k + m) stage0\<rparr>"
  have "eu_pipe (eu_init ty l) = stage0 # replicate (k + m) stage0"
    using n by (simp add: eu_init_def n_def [symmetric] Let_def)
  then have i: "eu_issue op va vb t imm pc rd (eu_init ty l) = (True, u)"
    by (simp add: eu_issue_def eu_canIssue_def Let_def u_def sg_def)
  have p: "eu_pipe (eu_advance_n k u) = replicate (0 + k) stage0 @ sg # replicate m stage0"
    by (rule eu_advance_n_pipe) (simp add: u_def)
  have "eu_output (eu_advance_n k u) = (if m = 0 then sg else stage0)"
    by (cases m) (simp_all add: eu_output_def p flip: replicate_append_same)
  then show ?thesis using n by (auto simp: i n_def [symmetric] sg_def)
qed

lemma unit_latency_witness:
  "case eu_issue MD_MUL 3 5 9 0 0 True (eu_init ''MUL'' 3) of (ok, u) \<Rightarrow>
     sg_value (eu_output (eu_advance_n 2 u)) = 15"
  using unit_latency [of 2 3, where op = MD_MUL and va = 3 and vb = 5 and t = 9 and imm = 0
      and pc = 0 and rd = True and ty = "''MUL''"] by (simp add: case_prod_beta)

text \<open>
  C8: every result is broadcast exactly once: in a writeback cycle the results in the
  functional units are those the arbiter put on the bus (each with its tag and value), those
  the resolve bus drained, and those still in the units, as multisets; and the relation between
  waiting beats and frozen outputs on which this rests is kept, also by a squash.
\<close>

theorem results_broadcast_once:
  assumes "ee_mirror a s" "ee_drain R s"
    and "length (ee_units s) + length others = arb_num_producers a" "length others' = length others"
    and "\<forall>p \<in> set (others @ others'). cp_source p \<noteq> 0"
  shows "\<exists>g a2 s2. ee_cycle R others others' a s = Some (g, a2, s2) \<and> ee_mirror a2 s2
    \<and> gr_out g = map (arb_result (ee_lanes others s) a) (gr_indices g)
    \<and> (\<forall>i \<in> set (gr_indices g). i < length (ee_units s) \<longrightarrow> arb_result (ee_lanes others s) a i
        = \<lparr>cdb_rob_id = sg_rob_id (eu_output (ee_units s ! i)), cdb_value = sg_value (eu_output (ee_units s ! i))\<rparr>)
    \<and> ee_work s = mset (map (\<lambda>i. eu_output (ee_units s ! i)) (filter (\<lambda>i. i < length (ee_units s)) (gr_indices g)))
        + image_mset (\<lambda>i. eu_output (ee_units s ! i)) (mset_set R) + ee_work s2
    \<and> (\<forall>tags. ee_mirror (arb_invalidateTags tags a) (ee_squashRobTags tags s)
        \<and> ee_work (ee_squashRobTags tags s) = filter_mset (\<lambda>sg. sg_rob_id sg \<notin> Some ` set tags) (ee_work s))"
proof -
  have "arb_result (ee_lanes others s) a i
      = \<lparr>cdb_rob_id = sg_rob_id (eu_output (ee_units s ! i)), cdb_value = sg_value (eu_output (ee_units s ! i))\<rparr>"
    if "i \<in> set (ee_won others a s)" for i
    using ee_won_lane [OF assms(1) that] ee_lane_result by (simp add: arb_result_def)
  moreover obtain g a2 s2 where "ee_cycle R others others' a s = Some (g, a2, s2)" "ee_mirror a2 s2"
      "gr_indices g = arb_granted (ee_lanes others s) a"
      "gr_out g = map (arb_result (ee_lanes others s) a) (gr_indices g)"
      "ee_work s = mset (map (\<lambda>i. eu_output (ee_units s ! i)) (ee_won others a s))
        + image_mset (\<lambda>i. eu_output (ee_units s ! i)) (mset_set R) + ee_work s2"
    using ee_cycle_ok [OF assms] by blast
  ultimately show ?thesis
    using ee_mirror_squash [OF assms(1)] ee_squash_work by (simp add: ee_won_def)
qed

lemma results_broadcast_once_witness:
  "\<exists>g a2 s2. ee_cycle {} [cp0\<lparr>cp_source := 1\<rparr>] [cp0\<lparr>cp_source := 1\<rparr>] (the (arb_init 1 2))
       (snd (ee_issue ALU_ADD 3 4 7 0 0 True (ee_init 1 0 0 0 1 1 1 1))) = Some (g, a2, s2)
     \<and> ee_mirror a2 s2"
proof -
  let ?s = "snd (ee_issue ALU_ADD 3 4 7 0 0 True (ee_init 1 0 0 0 1 1 1 1))"
  have s: "ee_wf ?s" "length (ee_units ?s) = 1" by code_simp+
  have "arb_num_producers (the (arb_init 1 2)) = 2" by code_simp
  with results_broadcast_once [OF ee_mirror_init [OF s(1), of 1 2], of "{}" "[cp0\<lparr>cp_source := 1\<rparr>]" "[cp0\<lparr>cp_source := 1\<rparr>]"] s
  show ?thesis by (auto simp: ee_drain_def)
qed

text \<open>
  C29: an instruction is issued to the first unit of the kind its operation requires that can
  accept it, and is refused exactly when there is none or it is a memory operation; issuing
  adds its result to the work of the engine once and changes nothing else.
\<close>

theorem engine_issue:
  assumes "ee_wf s"
  shows "case ee_issue op va vb t imm pc rd s of (ok, s') \<Rightarrow>
     ok = (\<exists>ty. op_unit op = Some ty \<and> (\<exists>i < length (ee_units s). eu_type (ee_units s ! i) = ty
            \<and> eu_canIssue (ee_lane_ready s ! i) (ee_units s ! i)))
     \<and> (if ok then \<exists>i < length (ee_units s). eu_type (ee_units s ! i) = the (op_unit op)
            \<and> (\<forall>j < length (ee_units s). j \<noteq> i \<longrightarrow> ee_units s' ! j = ee_units s ! j)
            \<and> (\<forall>j < i. eu_type (ee_units s ! j) = the (op_unit op) \<longrightarrow>
                 \<not> eu_canIssue (ee_lane_ready s ! j) (ee_units s ! j))
            \<and> eu_contents (ee_units s' ! i) = eu_contents (ee_units s ! i)
               @ [\<lparr>sg_valid = True, sg_rob_id = Some t, sg_value = executeOp op va vb imm pc,
                   sg_is_control = (fuForOp op = FU_BR),
                   sg_offer_cdb = (fuForOp op \<noteq> FU_BR \<or> (op = BR_JAL \<or> op = BR_JALR) \<and> rd)\<rparr>]
        else s' = s)"
proof (cases "op_unit op")
  case None
  then show ?thesis by (simp add: ee_issue_def)
next
  case (Some ty)
  let ?P = "\<lambda>i. eu_type (ee_units s ! i) = ty \<and> eu_canIssue (ee_lane_ready s ! i) (ee_units s ! i)"
  show ?thesis
  proof (cases "ee_find ty s")
    case None
    then have "\<forall>i < length (ee_units s). \<not> ?P i" by (auto simp: ee_find_def slot_simps)
    with None Some show ?thesis by (simp add: ee_issue_def)
  next
    case i: (Some i)
    then have p: "i < length (ee_units s)" "?P i" "\<forall>j < i. \<not> ?P j"
      using first_idx_SomeD [of ?P "[0..<length (ee_units s)]" i] by (auto simp: ee_find_def)
    then have "eu_wf (ee_units s ! i)" using assms by (simp add: ee_wf_def)
    with p Some i eu_contents_issue [of "ee_units s ! i"] show ?thesis
      by (auto simp: ee_issue_def eu_issue_def eu_canIssue_def Let_def)
  qed
qed

lemma engine_issue_witness: "\<not> fst (ee_issue MEM_LW 0 0 3 0 0 True (ee_init 1 1 1 1 1 3 8 1))"
proof -
  have "ee_wf (ee_init 1 1 1 1 1 3 8 1)" by code_simp
  from engine_issue [OF this, where op = MEM_LW and va = 0 and vb = 0 and t = 3 and imm = 0 and pc = 0 and rd = True]
  show ?thesis by (simp add: case_prod_beta op_unit_def)
qed

end
