(* ===== verification/MemTypes.thy ===== *)
theory MemTypes
  imports Types
begin

text \<open>
  What the memory system and the load/store queue share: the request and response structs of
  \<open>include/mem/mem_types.hpp\<close>, the data memory as a vector of words, bytes of words (the
  \<open>memcpy\<close> of a little-endian machine), cache lines as byte vectors, and the split of an
  address into line, set and tag that both caches compute.
\<close>

section \<open>Requests and responses\<close>

record DataMemReq =
  rq_write :: bool
  rq_addr :: u32
  rq_wdata :: u32
  rq_wstrb :: u8
  rq_id :: int
  rq_cookie :: u32

record DataMemResp =
  rp_id :: int
  rp_rdata :: u32
  rp_cookie :: u32
  rp_is_write :: bool

record ImemResp =
  ir_pc :: u32
  ir_count :: nat
  ir_words :: "u32 list"

section \<open>Bytes of a word\<close>

definition byte_of :: "u32 \<Rightarrow> nat \<Rightarrow> u8" where
  "byte_of w b = ucast (drop_bit (8 * b) w)"

text \<open>Replace the byte lanes of \<open>base\<close> that are set in \<open>mask\<close> by those of \<open>overlay\<close>.\<close>

definition merge_lane :: "u32 \<Rightarrow> nat \<Rightarrow> u32 \<Rightarrow> u32" where
  "merge_lane overlay b out =
    (let m = push_bit (8 * b) 0xFF in (out AND NOT m) OR (overlay AND m))"

definition mergeBytes :: "u32 \<Rightarrow> u32 \<Rightarrow> u8 \<Rightarrow> u32" where
  "mergeBytes base overlay msk =
    fold (\<lambda>b out. if bit msk b then merge_lane overlay b out else out) [0..<4] base"

definition le_word :: "u8 \<Rightarrow> u8 \<Rightarrow> u8 \<Rightarrow> u8 \<Rightarrow> u32" where
  "le_word b0 b1 b2 b3 =
    ucast b0 OR push_bit 8 (ucast b1) OR push_bit 16 (ucast b2) OR push_bit 24 (ucast b3)"

named_theorems byte_simps "facts on the bytes of words"

lemma bit_byte_of: "bit (byte_of w b) n \<longleftrightarrow> n < 8 \<and> bit w (8 * b + n)"
  by (simp add: byte_of_def bit_simps)

lemma bit_ff: "bit (push_bit (8 * k) 0xFF :: u32) n \<longleftrightarrow> n < 32 \<and> 8 * k \<le> n \<and> n < 8 * k + 8"
proof -
  have "(0xFF :: u32) = mask 8" by (simp add: mask_eq_exp_minus_1)
  then have "bit (push_bit (8 * k) 0xFF :: u32) n = bit (push_bit (8 * k) (mask 8) :: u32) n"
    by (rule arg_cong)
  also have "\<dots> \<longleftrightarrow> n < 32 \<and> 8 * k \<le> n \<and> n < 8 * k + 8"
    by (auto simp: bit_simps)
  finally show ?thesis .
qed

lemma byte_merge_lane [byte_simps]:
  assumes "k < 4" "b < 4"
  shows "byte_of (merge_lane ov k out) b = (if b = k then byte_of ov b else byte_of out b)"
proof (rule bit_word_eqI)
  fix n assume "n < LENGTH(8)"
  then have n: "n < 8" by simp
  have r: "8 * k \<le> 8 * b + n \<and> 8 * b + n < 8 * k + 8 \<longleftrightarrow> b = k" using n by auto
  have l: "8 * b + n < 32" using assms n by simp
  show "bit (byte_of (merge_lane ov k out) b) n = bit (if b = k then byte_of ov b else byte_of out b) n"
    using n r l unfolding bit_byte_of merge_lane_def Let_def bit_or_iff bit_and_iff bit_not_iff bit_ff
    by (auto simp: bit_byte_of possible_bit_def)
qed

lemma upt_4: "[0..<4] = [0, 1, 2, 3 :: nat]"
  by (simp add: upt_rec)

lemma byte_mergeBytes [byte_simps]:
  "b < 4 \<Longrightarrow> byte_of (mergeBytes base ov msk) b = (if bit msk b then byte_of ov b else byte_of base b)"
  by (auto simp: mergeBytes_def upt_4 byte_merge_lane less_Suc_eq numeral_eq_Suc)

lemma word_eq_bytesI:
  assumes "\<And>b. b < 4 \<Longrightarrow> byte_of w b = byte_of w' b"
  shows "w = w'"
proof (rule bit_word_eqI)
  fix n assume "n < LENGTH(32)"
  then have "n div 8 < 4" "n mod 8 < 8" by auto
  then have "bit (byte_of w (n div 8)) (n mod 8) = bit (byte_of w' (n div 8)) (n mod 8)"
    using assms by simp
  then show "bit w n = bit w' n" by (simp add: bit_byte_of)
qed

lemma byte_le_word [byte_simps]:
  "b < 4 \<Longrightarrow> byte_of (le_word b0 b1 b2 b3) b = [b0, b1, b2, b3] ! b"
proof -
  assume "b < 4"
  moreover have "byte_of (le_word b0 b1 b2 b3) 0 = b0"
    by (rule bit_word_eqI) (auto simp: bit_byte_of le_word_def bit_simps)
  moreover have "byte_of (le_word b0 b1 b2 b3) 1 = b1"
    by (rule bit_word_eqI) (auto simp: bit_byte_of le_word_def bit_simps dest: bit_imp_le_length)
  moreover have "byte_of (le_word b0 b1 b2 b3) 2 = b2"
    by (rule bit_word_eqI) (auto simp: bit_byte_of le_word_def bit_simps dest: bit_imp_le_length)
  moreover have "byte_of (le_word b0 b1 b2 b3) 3 = b3"
    by (rule bit_word_eqI) (auto simp: bit_byte_of le_word_def bit_simps dest: bit_imp_le_length)
  ultimately show ?thesis by (auto simp: less_Suc_eq numeral_eq_Suc)
qed

lemma mergeBytes_all [simp]: "mergeBytes base ov 0xF = ov"
proof (rule word_eq_bytesI)
  fix b :: nat assume b: "b < 4"
  have "bit (0xF :: u8) b" using b by (auto simp: less_Suc_eq numeral_eq_Suc)
  then show "byte_of (mergeBytes base ov 0xF) b = byte_of ov b" using b by (simp add: byte_simps)
qed

lemma mergeBytes_none [simp]: "mergeBytes base ov 0 = base"
  by (rule word_eq_bytesI) (simp add: byte_simps)

section \<open>Lines: vectors of bytes\<close>

text \<open>\<open>memcpy(&w, line + i, 4)\<close>; reading past the end of the line is \<open>None\<close>.\<close>

definition line_word :: "u8 list \<Rightarrow> nat \<Rightarrow> u32" where
  "line_word l i = le_word (l ! i) (l ! (i + 1)) (l ! (i + 2)) (l ! (i + 3))"

definition get_word :: "u8 list \<Rightarrow> nat \<Rightarrow> u32 option" where
  "get_word l i = (if i + 4 \<le> length l then Some (line_word l i) else None)"

definition word_bytes :: "u32 \<Rightarrow> u8 list" where
  "word_bytes w = map (byte_of w) [0..<4]"

text \<open>The loop that copies the words \<open>f 0, f 1, \<dots>\<close> into a line of \<open>lb\<close> bytes.\<close>

definition line_of_words :: "(nat \<Rightarrow> u32) \<Rightarrow> nat \<Rightarrow> u8 list" where
  "line_of_words f lb = concat (map (\<lambda>k. word_bytes (f k)) [0..<lb div 4])"

lemma length_word_bytes [simp]: "length (word_bytes w) = 4"
  by (simp add: word_bytes_def)

lemma length_concat_4: "(\<And>x. x \<in> set xs \<Longrightarrow> length (g x) = 4) \<Longrightarrow> length (concat (map g xs)) = 4 * length xs"
  by (induction xs) auto

lemma length_line_of_words [simp]: "4 dvd lb \<Longrightarrow> length (line_of_words f lb) = lb"
  by (simp add: line_of_words_def length_concat_4)

lemma nth_concat_4:
  "(\<And>x. x \<in> set xs \<Longrightarrow> length (g x) = 4) \<Longrightarrow> k < length xs \<Longrightarrow> b < 4 \<Longrightarrow>
   concat (map g xs) ! (4 * k + b) = g (xs ! k) ! b"
proof (induction xs arbitrary: k)
  case (Cons x xs)
  show ?case
  proof (cases k)
    case 0
    with Cons.prems show ?thesis by (simp add: nth_append)
  next
    case (Suc j)
    with Cons.prems Cons.IH [of j] show ?thesis by (simp add: nth_append)
  qed
qed simp

lemma nth_line_of_words:
  "k < lb div 4 \<Longrightarrow> b < 4 \<Longrightarrow> line_of_words f lb ! (4 * k + b) = byte_of (f k) b"
  by (simp add: line_of_words_def nth_concat_4 del: upt_Suc) (simp add: word_bytes_def del: upt_Suc)

lemma le_word_bytes [simp]:
  "le_word (byte_of w 0) (byte_of w (Suc 0)) (byte_of w 2) (byte_of w 3) = w"
  by (rule word_eq_bytesI) (auto simp: byte_simps less_Suc_eq numeral_eq_Suc)

lemma line_word_of_words: "k < lb div 4 \<Longrightarrow> line_word (line_of_words f lb) (4 * k) = f k"
  using nth_line_of_words [of k lb 0 f] nth_line_of_words [of k lb 1 f]
    nth_line_of_words [of k lb 2 f] nth_line_of_words [of k lb 3 f]
  by (simp add: line_word_def)

lemma get_word_of_words:
  "4 dvd lb \<Longrightarrow> 4 * k + 4 \<le> lb \<Longrightarrow> get_word (line_of_words f lb) (4 * k) = Some (f k)"
  by (simp add: get_word_def line_word_of_words)

section \<open>The memories\<close>

text \<open>
  \<open>MainMemory\<close> is a vector of words, read as zero and written as nothing outside; the
  instruction image reads as all ones outside.
\<close>

definition mem_word :: "i32 list \<Rightarrow> nat \<Rightarrow> u32" where
  "mem_word mem i = (if i < length mem then mem ! i else 0)"

definition imem_word :: "u32 list \<Rightarrow> nat \<Rightarrow> u32" where
  "imem_word im i = (if i < length im then im ! i else 0xFFFFFFFF)"

definition mem_put :: "i32 list \<Rightarrow> nat \<Rightarrow> u32 \<Rightarrow> i32 list" where
  "mem_put mem i w = (if i < length mem then mem[i := w] else mem)"

lemma length_mem_put [simp]: "length (mem_put mem i w) = length mem"
  by (simp add: mem_put_def)

lemma mem_word_put: "mem_word (mem_put mem i w) j = (if i = j \<and> i < length mem then w else mem_word mem j)"
  by (auto simp: mem_put_def mem_word_def)

section \<open>Lines, sets and tags of an address\<close>

definition lineAlign :: "u32 \<Rightarrow> nat \<Rightarrow> u32" where
  "lineAlign addr lb = addr AND NOT (of_nat (lb - 1))"

definition lineOffset :: "u32 \<Rightarrow> nat \<Rightarrow> nat" where
  "lineOffset addr lb = unat (addr AND of_nat (lb - 1))"

definition set_index :: "nat \<Rightarrow> nat \<Rightarrow> u32 \<Rightarrow> nat" where
  "set_index lb sets addr = unat ((addr div of_nat lb) mod of_nat sets)"

definition tag_of :: "nat \<Rightarrow> nat \<Rightarrow> u32 \<Rightarrow> u32" where
  "tag_of lb sets addr = addr div of_nat (lb * sets)"

definition line_addr_of :: "nat \<Rightarrow> nat \<Rightarrow> nat \<Rightarrow> u32 \<Rightarrow> u32" where
  "line_addr_of lb sets st tg = (tg * of_nat sets + of_nat st) * of_nat lb"

text \<open>Geometries for which these computations do not overflow: lines of whole words, a power of two.\<close>

definition geometry :: "nat \<Rightarrow> nat \<Rightarrow> bool" where
  "geometry lb sets \<longleftrightarrow> lb \<in> (\<lambda>k. 2 ^ k) ` {2..<31} \<and> 0 < sets \<and> lb * sets < 2 ^ 31"

lemma geometryE:
  assumes "geometry lb sets"
  obtains k where "lb = 2 ^ k" "2 \<le> k" "k < 31" "0 < sets" "sets < 2 ^ 31" "lb * sets < 2 ^ 31" "4 dvd lb"
proof -
  obtain k where k: "lb = 2 ^ k" "2 \<le> k" "k < 31" and s: "0 < sets" "lb * sets < 2 ^ 31"
    using assms by (auto simp: geometry_def)
  have "4 dvd lb" using k(2) le_imp_power_dvd [of 2 k "2 :: nat"] by (simp add: k(1))
  moreover have "sets \<le> lb * sets" using k by simp
  then have "sets < 2 ^ 31" using s(2) by linarith
  ultimately show ?thesis using that k s by blast
qed

lemma geometry_dvd: "geometry lb sets \<Longrightarrow> 4 dvd lb \<and> 0 < lb"
  by (erule geometryE) simp

lemma unat_of_nat_eq: "n < 2 ^ 32 \<Longrightarrow> unat (of_nat n :: u32) = n"
  by (simp add: unat_of_nat)

lemma of_nat_mask: "k < 32 \<Longrightarrow> (of_nat (2 ^ k - 1) :: u32) = mask k"
  by (simp add: mask_eq_exp_minus_1 of_nat_diff)

lemma unat_lineOffset:
  "geometry lb sets \<Longrightarrow> lineOffset a lb = unat a mod lb"
proof (erule geometryE)
  fix k assume k: "lb = 2 ^ k" "k < 31"
  then have "of_nat (lb - 1) = (mask k :: u32)" using of_nat_mask [of k] by simp
  then show "lineOffset a lb = unat a mod lb"
    by (simp add: lineOffset_def k(1) unsigned_take_bit_eq flip: take_bit_eq_mask)
      (simp add: take_bit_eq_mod)
qed

lemma lineAlign_add: "geometry lb sets \<Longrightarrow> lineAlign a lb = a - of_nat (lineOffset a lb)"
proof -
  have "a - (a AND m) = a AND NOT m" for m :: u32
  proof -
    have "NOT a AND (a AND m) = 0" by (simp add: bit_eq_iff bit_simps)
    then have "a - (a AND m) = a AND NOT (a AND m)" by (rule disjunctive_diff_eq_and_not)
    also have "\<dots> = a AND NOT m" by (auto simp: bit_eq_iff bit_simps)
    finally show ?thesis .
  qed
  then show ?thesis by (simp add: lineAlign_def lineOffset_def)
qed

lemma unat_lineAlign:
  assumes "geometry lb sets"
  shows "unat (lineAlign a lb) = unat a - unat a mod lb"
proof -
  have u: "unat (of_nat (unat a mod lb) :: u32) = unat a mod lb"
  proof (rule unat_of_nat_eq)
    have "unat a < 2 ^ 32" using unsigned_less [of a, where ?'a = nat] by simp
    then show "unat a mod lb < 2 ^ 32" using mod_less_eq_dividend [of "unat a" lb] by linarith
  qed
  then have "of_nat (unat a mod lb) \<le> a" by (simp add: word_le_nat_alt)
  with u show ?thesis
    using assms by (simp add: lineAlign_add [OF assms] unat_lineOffset [OF assms] unat_sub)
qed

lemma unat_of_nat_small: "n < 2 ^ 31 \<Longrightarrow> unat (of_nat n :: u32) = n"
  by (rule unat_of_nat_eq) simp

lemma set_index_nat:
  assumes "geometry lb sets"
  shows "set_index lb sets a = (unat a div lb) mod sets"
proof -
  obtain "lb < 2 ^ 31" "sets < 2 ^ 31" using assms
    by (rule geometryE) (metis power_strict_increasing one_less_numeral_iff semiring_norm(76))
  then show ?thesis by (simp add: set_index_def unat_div unat_mod unat_of_nat_small)
qed

lemma unat_tag_of:
  assumes "geometry lb sets"
  shows "unat (tag_of lb sets a) = unat a div (lb * sets)"
  using assms by (auto elim!: geometryE simp: tag_of_def unat_div unat_of_nat_small simp del: of_nat_mult of_nat_power)

lemma set_index_less: "geometry lb sets \<Longrightarrow> set_index lb sets a < sets"
  by (simp add: set_index_nat geometry_def)

text \<open>Set and tag determine the line, and the line address is recovered from them.\<close>

lemma line_number: "unat a div lb = (unat a div (lb * sets)) * sets + (unat a div lb) mod sets"
  by (simp add: div_mult2_eq)

lemma unat_lineAlign_mult: "geometry lb sets \<Longrightarrow> unat (lineAlign a lb) = (unat a div lb) * lb"
  by (simp add: unat_lineAlign minus_mod_eq_div_mult)

lemma line_addr_of_tag:
  assumes g: "geometry lb sets"
  shows "line_addr_of lb sets (set_index lb sets a) (tag_of lb sets a) = lineAlign a lb"
proof -
  have "line_addr_of lb sets (set_index lb sets a) (tag_of lb sets a)
      = of_nat ((unat a div (lb * sets) * sets + unat a div lb mod sets) * lb)"
    using g by (simp add: line_addr_of_def set_index_nat unat_tag_of [symmetric])
  also have "\<dots> = of_nat ((unat a div lb) * lb)" using line_number [of a lb sets] by simp
  also have "\<dots> = of_nat (unat (lineAlign a lb))" by (simp only: unat_lineAlign_mult [OF g])
  finally show ?thesis by simp
qed

lemma lineAlign_eq_iff:
  assumes g: "geometry lb sets"
  shows "lineAlign a lb = lineAlign b lb \<longleftrightarrow> set_index lb sets a = set_index lb sets b \<and> tag_of lb sets a = tag_of lb sets b"
proof
  assume "lineAlign a lb = lineAlign b lb"
  then have "unat a div lb = unat b div lb"
    using g unat_lineAlign_mult [OF g, of a] unat_lineAlign_mult [OF g, of b] geometry_dvd [OF g] by simp
  then show "set_index lb sets a = set_index lb sets b \<and> tag_of lb sets a = tag_of lb sets b"
    by (simp add: g set_index_nat word_unat_eq_iff unat_tag_of div_mult2_eq)
next
  assume "set_index lb sets a = set_index lb sets b \<and> tag_of lb sets a = tag_of lb sets b"
  then show "lineAlign a lb = lineAlign b lb" by (metis g line_addr_of_tag)
qed

lemma lineAlign_idem: "geometry lb sets \<Longrightarrow> lineAlign (lineAlign a lb) lb = lineAlign a lb"
  by (simp add: word_unat_eq_iff unat_lineAlign_mult)

lemma lineAlign_set_tag:
  assumes "geometry lb sets"
  shows "set_index lb sets (lineAlign a lb) = set_index lb sets a \<and> tag_of lb sets (lineAlign a lb) = tag_of lb sets a"
  using assms lineAlign_eq_iff lineAlign_idem by blast

section \<open>Set-associative arrays\<close>

text \<open>
  Both caches look for a victim in the same way: the first way that is neither valid nor
  reserved, else the first least recently used way among those not reserved.
\<close>

definition lru_step ::
    "('w \<Rightarrow> bool) \<Rightarrow> ('w \<Rightarrow> u64) \<Rightarrow> nat \<times> 'w \<Rightarrow> (nat \<times> u64) option \<Rightarrow> (nat \<times> u64) option" where
  "lru_step reserved lru = (\<lambda>(w, way) v. if reserved way then v
     else (case v of None \<Rightarrow> Some (w, lru way)
       | Some (_, best) \<Rightarrow> if lru way < best then Some (w, lru way) else v))"

definition lru_victim :: "('w \<Rightarrow> bool) \<Rightarrow> ('w \<Rightarrow> bool) \<Rightarrow> ('w \<Rightarrow> u64) \<Rightarrow> 'w list \<Rightarrow> nat option" where
  "lru_victim valid reserved lru ws =
    (case first_idx (\<lambda>w. \<not> valid w \<and> \<not> reserved w) ws of
       Some w \<Rightarrow> Some w
     | None \<Rightarrow> map_option fst (fold (lru_step reserved lru) (enumerate 0 ws) None))"

lemma lru_fold_ok:
  "(\<forall>i l. acc = Some (i, l) \<longrightarrow> i < n \<and> P i) \<Longrightarrow>
   (\<And>j. j < length ws \<Longrightarrow> \<not> reserved (ws ! j) \<Longrightarrow> P (n + j)) \<Longrightarrow>
   fold (lru_step reserved lru) (enumerate n ws) acc = Some (i, l) \<Longrightarrow> i < n + length ws \<and> P i"
proof (induction ws arbitrary: acc n)
  case (Cons w ws)
  let ?acc = "lru_step reserved lru (n, w) acc"
  have "\<forall>i l. ?acc = Some (i, l) \<longrightarrow> i < Suc n \<and> P i"
    using Cons.prems(1) Cons.prems(2) [of 0]
    by (auto simp: lru_step_def less_Suc_eq split: option.splits if_splits)
  moreover have "\<And>j. j < length ws \<Longrightarrow> \<not> reserved (ws ! j) \<Longrightarrow> P (Suc n + j)"
    using Cons.prems(2) [of "Suc j" for j] by simp
  ultimately show ?case
    using Cons.IH [of ?acc "Suc n"] Cons.prems(3) by simp
qed simp

lemma lru_victim_ok:
  assumes "lru_victim valid reserved lru ws = Some i"
  shows "i < length ws \<and> \<not> reserved (ws ! i)"
proof (cases "first_idx (\<lambda>w. \<not> valid w \<and> \<not> reserved w) ws")
  case None
  then obtain l where "fold (lru_step reserved lru) (enumerate 0 ws) None = Some (i, l)"
    using assms by (auto simp: lru_victim_def)
  then show ?thesis
    using lru_fold_ok [of None 0 "\<lambda>i. \<not> reserved (ws ! i)" ws reserved lru i l] by simp
next
  case (Some j)
  then show ?thesis using assms first_idx_SomeD [OF Some] by (simp add: lru_victim_def)
qed

text \<open>Scans of the first \<open>n\<close> elements, and updates of one way in one set.\<close>

lemma first_idx_takeD:
  "first_idx P (take n xs) = Some i \<Longrightarrow> i < n \<and> i < length xs \<and> P (xs ! i)"
  using first_idx_SomeD [of P "take n xs" i] by auto

lemma first_idx_take_NoneD: "first_idx P (take n xs) = None \<Longrightarrow> i < n \<Longrightarrow> i < length xs \<Longrightarrow> \<not> P (xs ! i)"
proof -
  assume a: "first_idx P (take n xs) = None" "i < n" "i < length xs"
  have "take n xs ! i \<in> set (take n xs)" using a(2,3) by (intro nth_mem) simp
  then show "\<not> P (xs ! i)" using a by (simp add: first_idx_None)
qed

lemma nth_row_update:
  "(xss[s := (xss ! s)[w := v]]) ! t = (if t = s \<and> s < length xss then (xss ! s)[w := v] else xss ! t)"
  by (auto simp: nth_list_update list_update_beyond)

lemma row_update_cases:
  assumes "y \<in> set ((xss[s := (xss ! s)[w := v]]) ! t)"
  shows "y \<in> set (xss ! t) \<or> (t = s \<and> s < length xss \<and> w < length (xss ! s) \<and> y = v)"
proof (cases "t = s \<and> s < length xss")
  case True
  then have y: "y \<in> set ((xss ! s)[w := v])" using assms by (simp add: nth_row_update)
  show ?thesis
  proof (cases "w < length (xss ! s)")
    case True
    then show ?thesis using y \<open>t = s \<and> _\<close> set_update_subset_insert [of "xss ! s" w v] by auto
  qed (use y True in \<open>simp add: list_update_beyond\<close>)
qed (use assms in \<open>simp add: nth_row_update split: if_splits\<close>)

end
