(* ===== verification/DramSimple.thy ===== *)
theory DramSimple
  imports MemTypes
begin

text \<open>
  The fixed-latency line memory of \<open>src/mem/dram_simple.cpp\<close>. A request occupies a slot for
  \<open>latency\<close> ticks; a read samples its line when it is accepted, a write reaches
  \<open>MainMemory\<close> when its countdown ends. The global vector \<open>MainMemory\<close> is an explicit argument
  and result. Lines hold whole words (the constructor only asserts a power of two; lines of
  one or two bytes would overrun the byte vector in \<open>memcpy\<close> and are excluded by
  \<open>dram_inv\<close>). Here a line is written to an idle memory and read back; \<open>DramTraffic\<close> states
  what any traffic does.
\<close>

section \<open>State and operations\<close>

record DramSlot =
  ds_valid :: bool
  ds_write :: bool
  ds_line_addr :: u32
  ds_dram_id :: int
  ds_cycles_left :: nat
  ds_data :: "u8 list"

definition ds0 :: DramSlot where
  "ds0 = \<lparr>ds_valid = False, ds_write = False, ds_line_addr = 0, ds_dram_id = -1,
     ds_cycles_left = 0, ds_data = []\<rparr>"

record DramSimple =
  dr_imem :: "u32 list option"
  dr_line_bytes :: nat
  dr_latency :: nat
  dr_slots :: "DramSlot list"
  dr_accepted :: bool

text \<open>The constructor; \<open>None\<close> is its failed assertion.\<close>

definition dram_init :: "nat \<Rightarrow> int \<Rightarrow> int \<Rightarrow> DramSimple option" where
  "dram_init line_bytes outstanding latency_cycles =
    (if 0 < line_bytes \<and> line_bytes AND (line_bytes - 1) = 0
     then Some \<lparr>dr_imem = None, dr_line_bytes = line_bytes,
       dr_latency = (if latency_cycles > 0 then nat latency_cycles else 1),
       dr_slots = replicate (if outstanding > 0 then nat outstanding else 1) ds0,
       dr_accepted = False\<rparr>
     else None)"

definition dram_reset :: "DramSimple \<Rightarrow> DramSimple" where
  "dram_reset d = d\<lparr>dr_slots := map (\<lambda>s. ds0) (dr_slots d), dr_accepted := False\<rparr>"

definition dram_setInstrMem :: "u32 list option \<Rightarrow> DramSimple \<Rightarrow> DramSimple" where
  "dram_setInstrMem im d = d\<lparr>dr_imem := im\<rparr>"

text \<open>The word index of a line: \<open>line_addr >> 2\<close>.\<close>

definition line_base :: "u32 \<Rightarrow> nat" where
  "line_base a = unat (drop_bit 2 a)"

definition dram_commit :: "nat \<Rightarrow> DramSlot \<Rightarrow> i32 list \<Rightarrow> i32 list" where
  "dram_commit lb s mem =
    fold (\<lambda>k m. mem_put m (line_base (ds_line_addr s) + k) (line_word (ds_data s) (4 * k)))
      [0..<lb div 4] mem"

definition slot_countdown :: "DramSlot \<Rightarrow> DramSlot" where
  "slot_countdown s = (if ds_valid s \<and> 0 < ds_cycles_left s
     then s\<lparr>ds_cycles_left := ds_cycles_left s - 1\<rparr> else s)"

definition slot_write_due :: "DramSlot \<Rightarrow> bool" where
  "slot_write_due s \<longleftrightarrow> ds_valid s \<and> ds_cycles_left s = 0 \<and> ds_write s"

fun tick_slots :: "nat \<Rightarrow> DramSlot list \<Rightarrow> i32 list \<Rightarrow> DramSlot list \<times> i32 list" where
  "tick_slots lb [] mem = ([], mem)"
| "tick_slots lb (s # ss) mem =
    (let s' = slot_countdown s;
         mem' = (if slot_write_due s' then dram_commit lb s' mem else mem);
         (ss', mem'') = tick_slots lb ss mem'
     in (s' # ss', mem''))"

definition dram_tick :: "DramSimple \<Rightarrow> i32 list \<Rightarrow> DramSimple \<times> i32 list" where
  "dram_tick d mem = (let (ss, mem') = tick_slots (dr_line_bytes d) (dr_slots d) mem
     in (d\<lparr>dr_slots := ss, dr_accepted := False\<rparr>, mem'))"

text \<open>The bytes a read returns: from the instruction image when there is one, else from memory.\<close>

definition mem_line :: "nat \<Rightarrow> i32 list \<Rightarrow> u32 \<Rightarrow> u8 list" where
  "mem_line lb mem a = line_of_words (\<lambda>k. mem_word mem (line_base a + k)) lb"

definition imem_line :: "nat \<Rightarrow> u32 list \<Rightarrow> u32 \<Rightarrow> u8 list" where
  "imem_line lb im a = line_of_words (\<lambda>k. imem_word im (line_base a + k)) lb"

definition dram_read_line :: "DramSimple \<Rightarrow> i32 list \<Rightarrow> u32 \<Rightarrow> bool \<Rightarrow> u8 list" where
  "dram_read_line d mem a from_imem =
    (case dr_imem d of
       Some im \<Rightarrow> if from_imem then imem_line (dr_line_bytes d) im a else mem_line (dr_line_bytes d) mem a
     | None \<Rightarrow> mem_line (dr_line_bytes d) mem a)"

text \<open>\<open>None\<close> is the failed assertion on the length of the written line.\<close>

definition dram_tryAccept ::
    "bool \<Rightarrow> u32 \<Rightarrow> u8 list \<Rightarrow> int \<Rightarrow> bool \<Rightarrow> i32 list \<Rightarrow> DramSimple \<Rightarrow> (bool \<times> DramSimple) option" where
  "dram_tryAccept wr line_addr wdata dram_id from_imem mem d =
    (if dr_accepted d then Some (False, d)
     else case first_idx (\<lambda>s. \<not> ds_valid s) (dr_slots d) of
       None \<Rightarrow> Some (False, d)
     | Some i \<Rightarrow>
        (if wr \<and> length wdata < dr_line_bytes d then None
         else Some (True, d\<lparr>
           dr_slots := (dr_slots d)[i := \<lparr>ds_valid = True, ds_write = wr, ds_line_addr = line_addr,
             ds_dram_id = dram_id, ds_cycles_left = dr_latency d,
             ds_data = (if wr then take (dr_line_bytes d) wdata
                        else dram_read_line d mem line_addr from_imem)\<rparr>],
           dr_accepted := True\<rparr>)))"

definition slot_done :: "DramSlot \<Rightarrow> bool" where
  "slot_done s \<longleftrightarrow> ds_valid s \<and> ds_cycles_left s = 0"

definition dram_tryPopResp :: "DramSimple \<Rightarrow> (int \<times> u8 list \<times> DramSimple) option" where
  "dram_tryPopResp d = (case first_idx slot_done (dr_slots d) of
     None \<Rightarrow> None
   | Some i \<Rightarrow> Some (ds_dram_id (dr_slots d ! i), ds_data (dr_slots d ! i),
       d\<lparr>dr_slots := (dr_slots d)[i := ds0]\<rparr>))"

section \<open>Writing a line and reading it back\<close>

lemma length_fold_put [simp]: "length (fold (\<lambda>k m. mem_put m (b + k) (f k)) ks mem) = length mem"
  by (induction ks arbitrary: mem) auto

lemma length_dram_commit [simp]: "length (dram_commit lb s mem) = length mem"
  by (simp add: dram_commit_def)

lemma mem_word_fold_put:
  "mem_word (fold (\<lambda>k m. mem_put m (b + k) (f k)) [0..<n] mem) i
     = (if b \<le> i \<and> i < b + n \<and> i < length mem then f (i - b) else mem_word mem i)"
proof (induction n)
  case (Suc n)
  have "mem_word (fold (\<lambda>k m. mem_put m (b + k) (f k)) [0..<Suc n] mem) i
      = (if b + n = i \<and> i < length mem then f n
         else mem_word (fold (\<lambda>k m. mem_put m (b + k) (f k)) [0..<n] mem) i)"
    by (simp add: mem_word_put)
  then show ?case using Suc.IH by auto
qed auto

lemma mem_word_commit:
  "mem_word (dram_commit lb s mem) i =
    (if line_base (ds_line_addr s) \<le> i \<and> i < line_base (ds_line_addr s) + lb div 4 \<and> i < length mem
     then line_word (ds_data s) (4 * (i - line_base (ds_line_addr s))) else mem_word mem i)"
  by (simp add: dram_commit_def mem_word_fold_put)

lemma nth_4_offsets: "b < 4 \<Longrightarrow> [l ! j, l ! (j + 1), l ! (j + 2), l ! (j + 3)] ! b = l ! (j + b)"
  by (auto simp: less_Suc_eq numeral_eq_Suc)

text \<open>A line is determined by its words.\<close>

lemma line_eqI:
  assumes "length l = lb" "4 dvd lb" "\<And>k. k < lb div 4 \<Longrightarrow> f k = line_word l (4 * k)"
  shows "line_of_words f lb = l"
proof (rule nth_equalityI)
  fix i assume "i < length (line_of_words f lb)"
  then have i: "i div 4 < lb div 4" "i mod 4 < 4" "i < lb" using assms(2) by (auto elim!: dvdE)
  have "line_of_words f lb ! (4 * (i div 4) + i mod 4) = byte_of (f (i div 4)) (i mod 4)"
    using i by (intro nth_line_of_words) auto
  also have "\<dots> = byte_of (line_word l (4 * (i div 4))) (i mod 4)" using assms(3) i by simp
  also have "\<dots> = l ! (4 * (i div 4) + i mod 4)"
    using i(2) by (simp only: line_word_def byte_le_word) (rule nth_4_offsets)
  finally show "line_of_words f lb ! i = l ! i" by simp
qed (simp add: assms)

lemma mem_line_commit_same:
  assumes "length (ds_data s) = lb" "4 dvd lb" "line_base (ds_line_addr s) + lb div 4 \<le> length mem"
  shows "mem_line lb (dram_commit lb s mem) (ds_line_addr s) = ds_data s"
  unfolding mem_line_def using assms by (intro line_eqI) (auto simp: mem_word_commit)

section \<open>Invariant\<close>

definition slot_ok :: "nat \<Rightarrow> DramSlot \<Rightarrow> bool" where
  "slot_ok lb s \<longleftrightarrow> (ds_valid s \<longrightarrow> length (ds_data s) = lb)"

definition dram_inv :: "DramSimple \<Rightarrow> bool" where
  "dram_inv d \<longleftrightarrow> 4 dvd dr_line_bytes d \<and> 0 < dr_line_bytes d \<and> 0 < dr_latency d \<and> dr_slots d \<noteq> []
     \<and> list_all (slot_ok (dr_line_bytes d)) (dr_slots d)"

lemma tick_slots_fst: "fst (tick_slots lb ss mem) = map slot_countdown ss"
  by (induction ss arbitrary: mem) (simp_all add: Let_def case_prod_beta)

lemma tick_slots_snd:
  "snd (tick_slots lb ss mem) = fold (\<lambda>s m. if slot_write_due s then dram_commit lb s m else m)
     (map slot_countdown ss) mem"
proof (induction ss arbitrary: mem)
  case (Cons s ss)
  then show ?case by (simp add: Let_def case_prod_beta)
qed simp

lemma dram_tick_eq:
  "dram_tick d mem = (d\<lparr>dr_slots := map slot_countdown (dr_slots d), dr_accepted := False\<rparr>,
     fold (\<lambda>s m. if slot_write_due s then dram_commit (dr_line_bytes d) s m else m)
       (map slot_countdown (dr_slots d)) mem)"
  unfolding dram_tick_def Let_def case_prod_beta by (simp only: tick_slots_fst tick_slots_snd)

lemma slot_ok_countdown: "slot_ok lb s \<Longrightarrow> slot_ok lb (slot_countdown s)"
  by (simp add: slot_ok_def slot_countdown_def)

lemma length_mem_line [simp]: "4 dvd lb \<Longrightarrow> length (mem_line lb mem a) = lb"
  by (simp add: mem_line_def)

lemma length_imem_line [simp]: "4 dvd lb \<Longrightarrow> length (imem_line lb im a) = lb"
  by (simp add: imem_line_def)

lemma length_dram_read_line [simp]:
  "4 dvd dr_line_bytes d \<Longrightarrow> length (dram_read_line d mem a f) = dr_line_bytes d"
  by (simp add: dram_read_line_def split: option.splits)

lemma dram_inv_tick: "dram_inv d \<Longrightarrow> dram_inv (fst (dram_tick d mem))"
  by (auto simp: dram_inv_def dram_tick_eq list_all_iff slot_ok_countdown)

lemma dram_inv_accept: "dram_inv d \<Longrightarrow> dram_tryAccept wr a wd i f mem d = Some (b, d') \<Longrightarrow> dram_inv d'"
  by (auto simp: dram_inv_def dram_tryAccept_def list_all_iff slot_ok_def
      split: option.splits if_splits dest!: subsetD [OF set_update_subset_insert])

lemma dram_inv_pop: "dram_inv d \<Longrightarrow> dram_tryPopResp d = Some (i, l, d') \<Longrightarrow> dram_inv d' \<and> length l = dr_line_bytes d"
  by (auto simp: dram_inv_def dram_tryPopResp_def list_all_iff slot_ok_def ds0_def slot_done_def
      split: option.splits dest!: subsetD [OF set_update_subset_insert] first_idx_SomeD)

lemma dram_inv_init:
  "dram_init lb os lat = Some d \<Longrightarrow> 4 dvd lb \<Longrightarrow> dram_inv d"
  by (auto simp: dram_init_def dram_inv_def list_all_iff slot_ok_def ds0_def split: if_splits)

section \<open>A write and a read of an idle memory\<close>

fun dram_ticks :: "nat \<Rightarrow> DramSimple \<times> i32 list \<Rightarrow> DramSimple \<times> i32 list" where
  "dram_ticks 0 x = x"
| "dram_ticks (Suc n) x = (case dram_ticks n x of (d, m) \<Rightarrow> dram_tick d m)"

definition dram_idle :: "DramSimple \<Rightarrow> bool" where
  "dram_idle d \<longleftrightarrow> (\<forall>s \<in> set (dr_slots d). \<not> ds_valid s)"

text \<open>The state while the only request has \<open>n\<close> ticks behind it.\<close>

definition holds_only :: "DramSlot \<Rightarrow> nat \<Rightarrow> DramSimple \<Rightarrow> bool" where
  "holds_only s i d \<longleftrightarrow> i < length (dr_slots d) \<and> dr_slots d ! i = s
     \<and> (\<forall>j < length (dr_slots d). j \<noteq> i \<longrightarrow> \<not> ds_valid (dr_slots d ! j))"

lemma slot_countdown_simps:
  "ds_valid (slot_countdown s) = ds_valid s" "ds_write (slot_countdown s) = ds_write s"
  "ds_data (slot_countdown s) = ds_data s" "ds_line_addr (slot_countdown s) = ds_line_addr s"
  "ds_dram_id (slot_countdown s) = ds_dram_id s"
  "ds_valid s \<Longrightarrow> ds_cycles_left (slot_countdown s) = ds_cycles_left s - 1"
  by (auto simp: slot_countdown_def)

lemma fold_commit_single:
  assumes "i < length ss" "\<And>j. j < length ss \<Longrightarrow> j \<noteq> i \<Longrightarrow> \<not> ds_valid (ss ! j)"
  shows "fold (\<lambda>s m. if slot_write_due s then dram_commit lb s m else m) ss mem
     = (if slot_write_due (ss ! i) then dram_commit lb (ss ! i) mem else mem)"
proof -
  have nop: "fold (\<lambda>s m. if slot_write_due s then dram_commit lb s m else m) ts m = m"
    if "\<And>t. t \<in> set ts \<Longrightarrow> \<not> ds_valid t" for ts m
    using that by (induction ts arbitrary: m) (auto simp: slot_write_due_def)
  have t: "\<not> ds_valid t" if "t \<in> set (take i ss) \<or> t \<in> set (drop (Suc i) ss)" for t
    using that assms by (auto simp: in_set_conv_nth)
  show ?thesis by (subst id_take_nth_drop [OF assms(1)]) (simp add: nop t)
qed

lemma dram_tick_single:
  assumes h: "holds_only s i d" and v: "ds_valid s"
  shows "holds_only (slot_countdown s) i (fst (dram_tick d mem))"
    and "snd (dram_tick d mem) = (if slot_write_due (slot_countdown s)
           then dram_commit (dr_line_bytes d) (slot_countdown s) mem else mem)"
proof -
  show "holds_only (slot_countdown s) i (fst (dram_tick d mem))"
    using h by (auto simp: holds_only_def dram_tick_eq slot_countdown_simps)
  have "i < length (map slot_countdown (dr_slots d))" using h by (simp add: holds_only_def)
  then show "snd (dram_tick d mem) = (if slot_write_due (slot_countdown s)
           then dram_commit (dr_line_bytes d) (slot_countdown s) mem else mem)"
    using h unfolding dram_tick_eq snd_conv
    by (subst fold_commit_single [of i]) (auto simp: holds_only_def slot_countdown_simps)
qed

lemma dram_ticks_single:
  "holds_only s i d \<Longrightarrow> ds_valid s \<Longrightarrow> n \<le> ds_cycles_left s \<Longrightarrow> 0 < ds_cycles_left s \<Longrightarrow>
   holds_only (s\<lparr>ds_cycles_left := ds_cycles_left s - n\<rparr>) i (fst (dram_ticks n (d, mem)))
   \<and> snd (dram_ticks n (d, mem)) = (if ds_write s \<and> n = ds_cycles_left s
        then dram_commit (dr_line_bytes d) s mem else mem)
   \<and> dr_line_bytes (fst (dram_ticks n (d, mem))) = dr_line_bytes d
   \<and> (0 < n \<longrightarrow> \<not> dr_accepted (fst (dram_ticks n (d, mem))))
   \<and> dr_imem (fst (dram_ticks n (d, mem))) = dr_imem d
   \<and> dr_latency (fst (dram_ticks n (d, mem))) = dr_latency d"
proof (induction n)
  case (Suc n)
  let ?x = "dram_ticks n (d, mem)" and ?s = "s\<lparr>ds_cycles_left := ds_cycles_left s - n\<rparr>"
  have h: "holds_only ?s i (fst ?x)" and m: "snd ?x = mem"
    and r: "dr_line_bytes (fst ?x) = dr_line_bytes d" "dr_imem (fst ?x) = dr_imem d"
      "dr_latency (fst ?x) = dr_latency d"
    using Suc by auto
  have c: "slot_countdown ?s = s\<lparr>ds_cycles_left := ds_cycles_left s - Suc n\<rparr>"
    using Suc.prems by (simp add: slot_countdown_def)
  have k: "dram_commit lb (s\<lparr>ds_cycles_left := x\<rparr>) mm = dram_commit lb s mm" for lb x mm
    by (simp add: dram_commit_def)
  have "holds_only (slot_countdown ?s) i (fst (dram_tick (fst ?x) mem))"
    and "snd (dram_tick (fst ?x) mem) = (if slot_write_due (slot_countdown ?s)
           then dram_commit (dr_line_bytes (fst ?x)) (slot_countdown ?s) mem else mem)"
    using dram_tick_single [OF h] Suc.prems by simp_all
  moreover have "dram_ticks (Suc n) (d, mem) = dram_tick (fst ?x) mem"
    by (simp add: case_prod_beta m)
  ultimately show ?case
    using Suc.prems unfolding c k r
    by (auto simp: slot_write_due_def dram_tick_eq r)
qed (simp add: holds_only_def)

lemma pop_single:
  assumes "holds_only s i d" "ds_valid s"
  shows "dram_tryPopResp d = (if ds_cycles_left s = 0
     then Some (ds_dram_id s, ds_data s, d\<lparr>dr_slots := (dr_slots d)[i := ds0]\<rparr>) else None)"
proof (cases "ds_cycles_left s = 0")
  case True
  have "first_idx slot_done (dr_slots d) = Some i"
    using assms True by (intro first_idx_SomeI) (auto simp: holds_only_def slot_done_def)
  then show ?thesis using assms True by (simp add: dram_tryPopResp_def holds_only_def)
next
  case False
  have "first_idx slot_done (dr_slots d) = None"
    using assms False by (auto simp: slot_simps holds_only_def slot_done_def in_set_conv_nth)
  then show ?thesis using False by (simp add: dram_tryPopResp_def)
qed

lemma accept_idle:
  assumes "dram_idle d" "dram_inv d" "\<not> dr_accepted d" "wr \<longrightarrow> dr_line_bytes d \<le> length wd"
  shows "\<exists>d'. dram_tryAccept wr a wd k f mem d = Some (True, d') \<and> holds_only \<lparr>ds_valid = True,
     ds_write = wr, ds_line_addr = a, ds_dram_id = k, ds_cycles_left = dr_latency d,
     ds_data = (if wr then take (dr_line_bytes d) wd else dram_read_line d mem a f)\<rparr> 0 d'
     \<and> dr_line_bytes d' = dr_line_bytes d \<and> dr_latency d' = dr_latency d \<and> dr_imem d' = dr_imem d
     \<and> dr_accepted d'"
proof -
  have "first_idx (\<lambda>s. \<not> ds_valid s) (dr_slots d) = Some 0"
    using assms by (intro first_idx_SomeI) (auto simp: dram_inv_def dram_idle_def)
  then show ?thesis
    using assms by (auto simp: dram_tryAccept_def holds_only_def dram_idle_def dram_inv_def)
qed

definition dram_ex :: DramSimple where
  "dram_ex = \<lparr>dr_imem = None, dr_line_bytes = 8, dr_latency = 3, dr_slots = [ds0, ds0], dr_accepted = False\<rparr>"

lemma dram_ex_ok:
  "dram_idle dram_ex \<and> dram_inv dram_ex \<and> \<not> dr_accepted dram_ex \<and> dr_line_bytes dram_ex = 8
   \<and> dr_latency dram_ex = 3"
  by (simp add: dram_ex_def dram_idle_def dram_inv_def slot_ok_def ds0_def)

text \<open>
  A line written to an idle memory is read back unchanged: once the write has been
  answered, a read of the same line address is answered with the written bytes.
\<close>

lemma dram_roundtrip:
  assumes "dram_idle d" "dram_inv d" "\<not> dr_accepted d" "dr_line_bytes d \<le> length wd"
    and "line_base a + dr_line_bytes d div 4 \<le> length mem"
  shows "\<exists>d1 d2 d3 d4. dram_tryAccept True a wd k f mem d = Some (True, d1)
    \<and> dram_tryPopResp (fst (dram_ticks (dr_latency d) (d1, mem))) = Some (k, take (dr_line_bytes d) wd, d2)
    \<and> (let mem' = snd (dram_ticks (dr_latency d) (d1, mem)) in
        dram_tryAccept False a [] k' False mem' d2 = Some (True, d3)
      \<and> dram_tryPopResp (fst (dram_ticks (dr_latency d) (d3, mem')))
          = Some (k', take (dr_line_bytes d) wd, d4)
      \<and> snd (dram_ticks (dr_latency d) (d3, mem')) = mem')"
proof -
  let ?lb = "dr_line_bytes d" and ?lat = "dr_latency d"
  let ?s = "\<lambda>wr l n. \<lparr>ds_valid = True, ds_write = wr, ds_line_addr = a, ds_dram_id = (if wr then k else k'),
     ds_cycles_left = n, ds_data = l\<rparr>"
  have lat: "0 < ?lat" "4 dvd ?lb" "0 < ?lb" using assms(2) by (simp_all add: dram_inv_def)
  obtain d1 where d1: "dram_tryAccept True a wd k f mem d = Some (True, d1)"
      "holds_only (?s True (take ?lb wd) ?lat) 0 d1" "dr_line_bytes d1 = ?lb" "dr_latency d1 = ?lat"
    using accept_idle [OF assms(1-3), of True wd a k f mem] assms(4) by auto
  note t1 = dram_ticks_single [OF d1(2), of ?lat mem, simplified]
  let ?x = "fst (dram_ticks ?lat (d1, mem))" and ?m = "snd (dram_ticks ?lat (d1, mem))"
  define d2 where "d2 = ?x\<lparr>dr_slots := (dr_slots ?x)[0 := ds0]\<rparr>"
  have h1: "holds_only (?s True (take ?lb wd) 0) 0 ?x" and m1: "?m = dram_commit ?lb (?s True (take ?lb wd) ?lat) mem"
    using t1 lat d1 by auto
  have p1: "dram_tryPopResp ?x = Some (k, take ?lb wd, d2)"
    using pop_single [OF h1] by (simp add: d2_def)
  have "dram_idle d2" "dram_inv d2" "\<not> dr_accepted d2" and l2: "dr_line_bytes d2 = ?lb" "dr_latency d2 = ?lat"
    using h1 t1 lat d1 by (auto simp: d2_def dram_idle_def dram_inv_def holds_only_def in_set_conv_nth
        nth_list_update ds0_def slot_ok_def list_all_length split: if_splits)
  then obtain d3 where d3: "dram_tryAccept False a [] k' False ?m d2 = Some (True, d3)"
      "holds_only (?s False (dram_read_line d2 ?m a False) ?lat) 0 d3"
    using accept_idle [of d2 False "[]" a k' False ?m] by auto
  have "dram_read_line d2 ?m a False = mem_line ?lb ?m a"
    by (simp add: dram_read_line_def l2 split: option.splits)
  also have "\<dots> = take ?lb wd"
    using mem_line_commit_same [of "?s True (take ?lb wd) ?lat" ?lb mem] assms(4,5) lat by (simp add: m1)
  finally have r: "dram_read_line d2 ?m a False = take ?lb wd" .
  note t3 = dram_ticks_single [OF d3(2), of ?lat ?m, simplified]
  have h3: "holds_only (?s False (take ?lb wd) 0) 0 (fst (dram_ticks ?lat (d3, ?m)))"
    and m3: "snd (dram_ticks ?lat (d3, ?m)) = ?m"
    using t3 lat r by auto
  show ?thesis
    using d1(1) p1 d3(1) pop_single [OF h3] m3 by (auto simp: Let_def)
qed

lemma dram_roundtrip_witness:
  "\<exists>d1 d2 d3 d4. dram_tryAccept True 8 [1, 2, 3, 4, 5, 6, 7, 8] 9 False [0, 0, 0, 0] dram_ex = Some (True, d1)
    \<and> dram_tryPopResp (fst (dram_ticks 3 (d1, [0, 0, 0, 0]))) = Some (9, [1, 2, 3, 4, 5, 6, 7, 8], d2)
    \<and> (let mem' = snd (dram_ticks 3 (d1, [0, 0, 0, 0])) in
        dram_tryAccept False 8 [] 5 False mem' d2 = Some (True, d3)
      \<and> dram_tryPopResp (fst (dram_ticks 3 (d3, mem'))) = Some (5, [1, 2, 3, 4, 5, 6, 7, 8], d4))"
proof -
  have w: "dr_line_bytes dram_ex \<le> length [1, 2, 3, 4, 5, 6, 7, 8 :: u8]"
    "line_base 8 + dr_line_bytes dram_ex div 4 \<le> length [0, 0, 0, 0 :: i32]"
    using dram_ex_ok by (simp_all add: line_base_def)
  show ?thesis
    using dram_roundtrip [of dram_ex "[1, 2, 3, 4, 5, 6, 7, 8]" 8 "[0, 0, 0, 0]" 9 False 5, OF _ _ _ w]
      dram_ex_ok by (auto simp: Let_def)
qed

end
