(* ===== verification/ICache.thy ===== *)
theory ICache
  imports DramSimple
begin

text \<open>
  The non-blocking read-only instruction cache of \<open>src/mem/icache.cpp\<close>. The invariant
  \<open>ic_inv im\<close> ties every line it holds to the instruction image \<open>im\<close>; each operation keeps it,
  and a response delivered under it carries the words of the image.
\<close>

section \<open>State\<close>

record IWay =
  iw_valid :: bool
  iw_reserved :: bool
  iw_tag :: u32
  iw_data :: "u8 list"
  iw_lru :: u64

record IMshr =
  im_valid :: bool
  im_fill_sent :: bool
  im_fill_ready :: bool
  im_drop :: bool
  im_has_waiter :: bool
  im_line_addr :: u32
  im_req_pc :: u32
  im_set :: nat
  im_way :: nat
  im_line :: "u8 list"

record IPipe =
  ip_valid :: bool
  ip_pc :: u32

record IHitPend =
  ih_valid :: bool
  ih_drop :: bool
  ih_cycles_left :: nat
  ih_pc :: u32
  ih_line :: "u8 list"

definition iway0 :: "nat \<Rightarrow> IWay" where
  "iway0 lb = \<lparr>iw_valid = False, iw_reserved = False, iw_tag = 0, iw_data = replicate lb 0, iw_lru = 0\<rparr>"

definition imshr0 :: IMshr where
  "imshr0 = \<lparr>im_valid = False, im_fill_sent = False, im_fill_ready = False, im_drop = False,
     im_has_waiter = False, im_line_addr = 0, im_req_pc = 0, im_set = 0, im_way = 0, im_line = []\<rparr>"

definition ipipe0 :: IPipe where
  "ipipe0 = \<lparr>ip_valid = False, ip_pc = 0\<rparr>"

definition ihit0 :: IHitPend where
  "ihit0 = \<lparr>ih_valid = False, ih_drop = False, ih_cycles_left = 0, ih_pc = 0, ih_line = []\<rparr>"

record ICache =
  ic_line_bytes :: nat
  ic_sets :: nat
  ic_ways :: nat
  ic_mshr_count :: nat
  ic_fetch_width :: nat
  ic_hit_latency :: nat
  ic_lru_clock :: u64
  ic_cache :: "IWay list list"
  ic_mshrs :: "IMshr list"
  ic_pipe :: IPipe
  ic_hit_pend :: IHitPend
  ic_resp :: "ImemResp option"
  ic_dram_mshr :: "nat option"

definition ic_init :: "nat \<Rightarrow> nat \<Rightarrow> nat \<Rightarrow> nat \<Rightarrow> int \<Rightarrow> int \<Rightarrow> ICache" where
  "ic_init lb sets ways mshr_count fetch_width hit_latency =
    \<lparr>ic_line_bytes = lb, ic_sets = sets, ic_ways = ways, ic_mshr_count = mshr_count,
     ic_fetch_width = (if fetch_width > 0 then nat fetch_width else 1),
     ic_hit_latency = (if hit_latency < 1 then 1 else nat hit_latency),
     ic_lru_clock = 1,
     ic_cache = replicate sets (replicate ways (iway0 lb)),
     ic_mshrs = replicate (if mshr_count > 0 then mshr_count else 1) imshr0,
     ic_pipe = ipipe0, ic_hit_pend = ihit0, ic_resp = None, ic_dram_mshr = None\<rparr>"

definition ic_reset :: "ICache \<Rightarrow> ICache" where
  "ic_reset c = c\<lparr>ic_cache := map (map (\<lambda>w. iway0 (ic_line_bytes c))) (ic_cache c),
     ic_mshrs := map (\<lambda>m. imshr0) (ic_mshrs c), ic_pipe := ipipe0, ic_hit_pend := ihit0,
     ic_resp := None, ic_dram_mshr := None, ic_lru_clock := 1\<rparr>"

definition ic_flush :: "ICache \<Rightarrow> ICache" where
  "ic_flush c = c\<lparr>
     ic_hit_pend := (if ih_valid (ic_hit_pend c) then (ic_hit_pend c)\<lparr>ih_drop := True\<rparr> else ic_hit_pend c),
     ic_pipe := ipipe0, ic_resp := None,
     ic_mshrs := map (\<lambda>m. if im_valid m then m\<lparr>im_drop := True, im_has_waiter := False\<rparr> else m) (ic_mshrs c)\<rparr>"

section \<open>Lookups\<close>

definition ic_canAccept :: "ICache \<Rightarrow> bool" where
  "ic_canAccept c \<longleftrightarrow> \<not> ip_valid (ic_pipe c) \<and> \<not> ih_valid (ic_hit_pend c) \<and> ic_resp c = None"

definition ic_setIndex :: "u32 \<Rightarrow> ICache \<Rightarrow> nat" where
  "ic_setIndex addr c = set_index (ic_line_bytes c) (ic_sets c) addr"

definition ic_tagOf :: "u32 \<Rightarrow> ICache \<Rightarrow> u32" where
  "ic_tagOf addr c = tag_of (ic_line_bytes c) (ic_sets c) addr"

definition ic_findHit :: "nat \<Rightarrow> u32 \<Rightarrow> ICache \<Rightarrow> nat option" where
  "ic_findHit s tg c =
    first_idx (\<lambda>w. iw_valid w \<and> \<not> iw_reserved w \<and> iw_tag w = tg) (ic_cache c ! s)"

definition ic_findVictim :: "nat \<Rightarrow> ICache \<Rightarrow> nat option" where
  "ic_findVictim s c = lru_victim iw_valid iw_reserved iw_lru (ic_cache c ! s)"

definition ic_findMshr :: "u32 \<Rightarrow> ICache \<Rightarrow> nat option" where
  "ic_findMshr la c =
    first_idx (\<lambda>m. im_valid m \<and> im_line_addr m = la) (take (ic_mshr_count c) (ic_mshrs c))"

definition ic_allocMshr :: "ICache \<Rightarrow> nat option" where
  "ic_allocMshr c = first_idx (\<lambda>m. \<not> im_valid m) (take (ic_mshr_count c) (ic_mshrs c))"

text \<open>
  The response for a \<open>pc\<close> from its line: the words from \<open>pc\<close> to the end of the line, at most
  the fetch width and at least one. \<open>None\<close> is a read past the end of the line buffer.
\<close>

definition ic_buildResp :: "u32 \<Rightarrow> u8 list \<Rightarrow> ICache \<Rightarrow> ImemResp option" where
  "ic_buildResp pc line c =
    (let lb = ic_line_bytes c;
         off = unat (pc - lineAlign pc lb);
         max_words = (lb - off) div 4;
         count0 = (if max_words < ic_fetch_width c then max_words else ic_fetch_width c);
         count = (if count0 < 1 then 1 else count0);
         ws = map (\<lambda>i. get_word line (off + 4 * i)) [0..<count]
     in if None \<in> set ws then None
        else Some \<lparr>ir_pc = pc, ir_count = count, ir_words = map the ws\<rparr>)"

section \<open>Operations\<close>

definition ic_tryCpuReq :: "u32 \<Rightarrow> ICache \<Rightarrow> bool \<times> ICache" where
  "ic_tryCpuReq pc c = (if \<not> ic_canAccept c then (False, c)
     else (True, c\<lparr>ic_pipe := \<lparr>ip_valid = True, ip_pc = pc\<rparr>\<rparr>))"

definition ic_upd_way :: "nat \<Rightarrow> nat \<Rightarrow> (IWay \<Rightarrow> IWay) \<Rightarrow> ICache \<Rightarrow> ICache" where
  "ic_upd_way s w f c = c\<lparr>ic_cache := (ic_cache c)[s := (ic_cache c ! s)[w := f (ic_cache c ! s ! w)]]\<rparr>"

definition ic_upd_mshr :: "nat \<Rightarrow> (IMshr \<Rightarrow> IMshr) \<Rightarrow> ICache \<Rightarrow> ICache" where
  "ic_upd_mshr i f c = c\<lparr>ic_mshrs := (ic_mshrs c)[i := f (ic_mshrs c ! i)]\<rparr>"

definition ic_hit :: "u32 \<Rightarrow> nat \<Rightarrow> nat \<Rightarrow> ICache \<Rightarrow> ICache" where
  "ic_hit pc s w c =
    (let way = ic_cache c ! s ! w in
     (ic_upd_way s w (\<lambda>x. x\<lparr>iw_lru := ic_lru_clock c\<rparr>) c)\<lparr>
       ic_lru_clock := ic_lru_clock c + 1,
       ic_hit_pend := \<lparr>ih_valid = True, ih_drop = False, ih_cycles_left = ic_hit_latency c,
         ih_pc = pc, ih_line = iw_data way\<rparr>\<rparr>)"

definition ic_miss :: "u32 \<Rightarrow> nat \<Rightarrow> nat \<Rightarrow> nat \<Rightarrow> ICache \<Rightarrow> ICache" where
  "ic_miss pc s mi victim c =
    ic_upd_way s victim (\<lambda>x. x\<lparr>iw_reserved := True\<rparr>)
      (ic_upd_mshr mi (\<lambda>_. \<lparr>im_valid = True, im_fill_sent = False, im_fill_ready = False,
         im_drop = False, im_has_waiter = True, im_line_addr = lineAlign pc (ic_line_bytes c),
         im_req_pc = pc, im_set = s, im_way = victim, im_line = replicate (ic_line_bytes c) 0\<rparr>) c)"

definition ic_processPipe :: "ICache \<Rightarrow> ICache" where
  "ic_processPipe c0 =
    (if \<not> ip_valid (ic_pipe c0) then c0
     else let pc = ip_pc (ic_pipe c0);
              c = c0\<lparr>ic_pipe := ipipe0\<rparr>;
              held = c0\<lparr>ic_pipe := \<lparr>ip_valid = True, ip_pc = pc\<rparr>\<rparr>;
              s = ic_setIndex pc c; tg = ic_tagOf pc c; la = lineAlign pc (ic_line_bytes c)
          in case ic_findHit s tg c of
               Some w \<Rightarrow> ic_hit pc s w c
             | None \<Rightarrow>
              (case ic_findMshr la c of
                 Some i \<Rightarrow>
                  (if im_fill_ready (ic_mshrs c ! i) then held
                   else ic_upd_mshr i (\<lambda>m. m\<lparr>im_has_waiter := True, im_req_pc := pc, im_drop := False\<rparr>) c)
               | None \<Rightarrow>
                (case (ic_allocMshr c, ic_findVictim s c) of
                   (Some mi, Some victim) \<Rightarrow> ic_miss pc s mi victim c
                 | _ \<Rightarrow> held)))"

text \<open>The miss that is asked of the memory next.\<close>

definition ic_dram_pick :: "ICache \<Rightarrow> nat option" where
  "ic_dram_pick c = first_idx (\<lambda>m. im_valid m \<and> \<not> im_fill_sent m) (take (ic_mshr_count c) (ic_mshrs c))"

definition ic_hasDramReq :: "ICache \<Rightarrow> bool" where
  "ic_hasDramReq c \<longleftrightarrow> ic_dram_mshr c = None \<and> ic_dram_pick c \<noteq> None"

definition ic_dramReqAddr :: "ICache \<Rightarrow> u32" where
  "ic_dramReqAddr c = (case ic_dram_pick c of Some i \<Rightarrow> im_line_addr (ic_mshrs c ! i) | None \<Rightarrow> 0)"

definition ic_dramReqId :: "ICache \<Rightarrow> nat" where
  "ic_dramReqId c = (case ic_dram_pick c of Some i \<Rightarrow> i | None \<Rightarrow> 0)"

definition ic_dramReqAccepted :: "ICache \<Rightarrow> ICache" where
  "ic_dramReqAccepted c = (case ic_dram_pick c of None \<Rightarrow> c
     | Some i \<Rightarrow> (ic_upd_mshr i (\<lambda>m. m\<lparr>im_fill_sent := True\<rparr>) c)\<lparr>ic_dram_mshr := Some i\<rparr>)"

text \<open>\<open>None\<close> is the failed assertion on the length of the line.\<close>

definition ic_dramResp :: "nat \<Rightarrow> u8 list \<Rightarrow> ICache \<Rightarrow> ICache option" where
  "ic_dramResp i line c =
    (if \<not> i < ic_mshr_count c then Some c
     else if \<not> im_valid (ic_mshrs c ! i) then Some c
     else if length line < ic_line_bytes c then None
     else Some ((ic_upd_mshr i (\<lambda>m. m\<lparr>im_line := take (ic_line_bytes c) line, im_fill_ready := True\<rparr>) c)
       \<lparr>ic_dram_mshr := (if ic_dram_mshr c = Some i then None else ic_dram_mshr c)\<rparr>))"

definition ic_install :: "nat \<Rightarrow> ICache \<Rightarrow> ICache" where
  "ic_install mi c =
    (let m = ic_mshrs c ! mi; tg = ic_tagOf (im_line_addr m) c;
         w = ic_cache c ! im_set m ! im_way m
     in if iw_reserved w \<or> \<not> iw_valid w \<or> iw_tag w \<noteq> tg
        then (ic_upd_way (im_set m) (im_way m) (\<lambda>_. \<lparr>iw_valid = True, iw_reserved = False, iw_tag = tg,
                iw_data = im_line m, iw_lru = ic_lru_clock c\<rparr>) c)\<lparr>ic_lru_clock := ic_lru_clock c + 1\<rparr>
        else ic_upd_way (im_set m) (im_way m) (\<lambda>x. x\<lparr>iw_reserved := False\<rparr>) c)"

definition ic_completeMshr :: "nat \<Rightarrow> ICache \<Rightarrow> ICache option" where
  "ic_completeMshr mi c0 =
    (if \<not> im_fill_ready (ic_mshrs c0 ! mi) then Some c0
     else let c = ic_install mi c0; m = ic_mshrs c ! mi in
       if im_drop m \<or> \<not> im_has_waiter m then Some (ic_upd_mshr mi (\<lambda>_. imshr0) c)
       else if ic_resp c \<noteq> None \<or> ih_valid (ic_hit_pend c) then Some c
       else (case ic_buildResp (im_req_pc m) (im_line m) c of None \<Rightarrow> None
         | Some r \<Rightarrow> Some ((ic_upd_mshr mi (\<lambda>_. imshr0) c)\<lparr>ic_resp := Some r\<rparr>)))"

definition ic_emitHit :: "ICache \<Rightarrow> ICache option" where
  "ic_emitHit c =
    (let h = ic_hit_pend c in
     if \<not> ih_valid h then Some c
     else let h' = (if 0 < ih_cycles_left h then h\<lparr>ih_cycles_left := ih_cycles_left h - 1\<rparr> else h) in
       if ih_cycles_left h' \<noteq> 0 then Some (c\<lparr>ic_hit_pend := h'\<rparr>)
       else if ih_drop h' then Some (c\<lparr>ic_hit_pend := ihit0\<rparr>)
       else if ic_resp c = None
         then (case ic_buildResp (ih_pc h') (ih_line h') c of None \<Rightarrow> None
           | Some r \<Rightarrow> Some (c\<lparr>ic_resp := Some r, ic_hit_pend := ihit0\<rparr>))
       else Some (c\<lparr>ic_hit_pend := h'\<rparr>))"

text \<open>The completion loop over the miss registers.\<close>

fun ic_completeFrom :: "nat list \<Rightarrow> ICache \<Rightarrow> ICache option" where
  "ic_completeFrom [] c = Some c"
| "ic_completeFrom (i # is) c =
    (if im_valid (ic_mshrs c ! i) \<and> im_fill_ready (ic_mshrs c ! i)
     then (case ic_completeMshr i c of None \<Rightarrow> None | Some c' \<Rightarrow> ic_completeFrom is c')
     else ic_completeFrom is c)"

definition ic_tickEnd :: "ICache \<Rightarrow> ICache option" where
  "ic_tickEnd c = (case ic_emitHit c of None \<Rightarrow> None
     | Some c1 \<Rightarrow> ic_completeFrom [0..<ic_mshr_count c1] (ic_processPipe c1))"

definition ic_popCpuResp :: "ICache \<Rightarrow> ImemResp option \<times> ICache" where
  "ic_popCpuResp c = (ic_resp c, c\<lparr>ic_resp := None\<rparr>)"

section \<open>Invariant: everything held agrees with the instruction image\<close>

definition good_resp :: "u32 list \<Rightarrow> ImemResp \<Rightarrow> bool" where
  "good_resp im r \<longleftrightarrow> 1 \<le> ir_count r
     \<and> ir_words r = map (\<lambda>i. imem_word im (unat (ir_pc r) div 4 + i)) [0..<ir_count r]"

definition ic_geom :: "ICache \<Rightarrow> bool" where
  "ic_geom c \<longleftrightarrow> geometry (ic_line_bytes c) (ic_sets c) \<and> length (ic_cache c) = ic_sets c
     \<and> ic_mshr_count c \<le> length (ic_mshrs c) \<and> 1 \<le> ic_fetch_width c"

definition iway_ok :: "u32 list \<Rightarrow> nat \<Rightarrow> nat \<Rightarrow> nat \<Rightarrow> IWay \<Rightarrow> bool" where
  "iway_ok im lb sets s w \<longleftrightarrow> (iw_valid w \<longrightarrow> (\<forall>pc. set_index lb sets pc = s \<and> tag_of lb sets pc = iw_tag w
     \<longrightarrow> iw_data w = imem_line lb im (lineAlign pc lb)))"

definition ic_ways_ok :: "u32 list \<Rightarrow> ICache \<Rightarrow> bool" where
  "ic_ways_ok im c \<longleftrightarrow> (\<forall>s < length (ic_cache c). \<forall>w \<in> set (ic_cache c ! s).
     iway_ok im (ic_line_bytes c) (ic_sets c) s w)"

definition imshr_ok :: "u32 list \<Rightarrow> nat \<Rightarrow> nat \<Rightarrow> IMshr \<Rightarrow> bool" where
  "imshr_ok im lb sets m \<longleftrightarrow> (im_valid m \<longrightarrow>
     lineAlign (im_line_addr m) lb = im_line_addr m
   \<and> im_set m = set_index lb sets (im_line_addr m)
   \<and> (im_fill_ready m \<longrightarrow> im_fill_sent m \<and> im_line m = imem_line lb im (im_line_addr m))
   \<and> (im_has_waiter m \<longrightarrow> lineAlign (im_req_pc m) lb = im_line_addr m \<and> 4 dvd unat (im_req_pc m)))"

definition ic_front_ok :: "u32 list \<Rightarrow> ICache \<Rightarrow> bool" where
  "ic_front_ok im c \<longleftrightarrow> (ip_valid (ic_pipe c) \<longrightarrow> 4 dvd unat (ip_pc (ic_pipe c)))
     \<and> (ih_valid (ic_hit_pend c) \<longrightarrow> 4 dvd unat (ih_pc (ic_hit_pend c))
          \<and> ih_line (ic_hit_pend c) = imem_line (ic_line_bytes c) im (lineAlign (ih_pc (ic_hit_pend c)) (ic_line_bytes c)))
     \<and> (\<forall>r. ic_resp c = Some r \<longrightarrow> good_resp im r)"

definition ic_inv :: "u32 list \<Rightarrow> ICache \<Rightarrow> bool" where
  "ic_inv im c \<longleftrightarrow> ic_geom c \<and> ic_ways_ok im c
     \<and> (\<forall>m \<in> set (ic_mshrs c). imshr_ok im (ic_line_bytes c) (ic_sets c) m) \<and> ic_front_ok im c"

lemma ic_inv_geometry: "ic_inv im c \<Longrightarrow> geometry (ic_line_bytes c) (ic_sets c)"
  by (simp add: ic_inv_def ic_geom_def)

lemma imshr_ok_nth:
  "ic_inv im c \<Longrightarrow> i < length (ic_mshrs c) \<Longrightarrow> imshr_ok im (ic_line_bytes c) (ic_sets c) (ic_mshrs c ! i)"
  by (simp add: ic_inv_def)

subsection \<open>Responses\<close>

lemma line_base_align:
  assumes g: "geometry lb sets" and "4 dvd unat pc"
  shows "line_base (lineAlign pc lb) + lineOffset pc lb div 4 = unat pc div 4"
    and "4 dvd lineOffset pc lb"
proof -
  have d: "4 dvd lb" using geometry_dvd [OF g] by simp
  have b: "line_base a = unat a div 4" for a
    by (simp add: line_base_def drop_bit_eq_div unat_div)
  have "4 dvd unat pc mod lb" using d assms(2) by (simp add: dvd_mod)
  moreover have "4 dvd unat pc div lb * lb" using d by simp
  ultimately show "line_base (lineAlign pc lb) + lineOffset pc lb div 4 = unat pc div 4"
    by (simp only: b unat_lineAlign_mult [OF g] unat_lineOffset [OF g])
      (metis div_mult_mod_eq div_plus_div_distrib_dvd_left)
  show "4 dvd lineOffset pc lb" using \<open>4 dvd unat pc mod lb\<close> by (simp add: unat_lineOffset [OF g])
qed

lemma lineOffset_less: "geometry lb sets \<Longrightarrow> lineOffset a lb < lb"
  using geometry_dvd by (simp add: unat_lineOffset)

lemma pc_minus_align: "geometry lb sets \<Longrightarrow> unat (pc - lineAlign pc lb) = lineOffset pc lb"
  by (simp add: lineAlign_add) (simp add: lineOffset_def)

lemma get_word_imem_line:
  assumes g: "geometry lb sets" and a: "4 dvd unat pc" and o: "lineOffset pc lb + 4 * i + 4 \<le> lb"
  shows "get_word (imem_line lb im (lineAlign pc lb)) (lineOffset pc lb + 4 * i)
       = Some (imem_word im (unat pc div 4 + i))"
proof -
  obtain q where q: "lineOffset pc lb = 4 * q" using line_base_align(2) [OF g a] by (elim dvdE)
  have "get_word (imem_line lb im (lineAlign pc lb)) (4 * (q + i))
      = Some (imem_word im (line_base (lineAlign pc lb) + (q + i)))"
    unfolding imem_line_def using geometry_dvd [OF g] o q by (intro get_word_of_words) auto
  moreover have "line_base (lineAlign pc lb) + (q + i) = unat pc div 4 + i"
    using line_base_align(1) [OF g a] q by simp
  ultimately show ?thesis by (simp add: q algebra_simps)
qed

lemma ic_buildResp_ok:
  assumes g: "ic_geom c" and a: "4 dvd unat pc"
  shows "\<exists>r. ic_buildResp pc (imem_line (ic_line_bytes c) im (lineAlign pc (ic_line_bytes c))) c = Some r
    \<and> good_resp im r \<and> ir_pc r = pc"
proof -
  let ?lb = "ic_line_bytes c" and ?off = "lineOffset pc (ic_line_bytes c)"
  have gg: "geometry ?lb (ic_sets c)" using g by (simp add: ic_geom_def)
  have o: "?off < ?lb" "4 dvd ?off" "4 dvd ?lb"
    using lineOffset_less [OF gg] line_base_align(2) [OF gg a] geometry_dvd [OF gg] by auto
  then have o4: "?off + 4 \<le> ?lb" by (auto elim!: dvdE)
  define n where "n = (let w = (?lb - ?off) div 4;
    c0 = (if w < ic_fetch_width c then w else ic_fetch_width c) in if c0 < 1 then 1 else c0)"
  have n: "1 \<le> n" "n \<le> (?lb - ?off) div 4"
    using o4 g by (auto simp: n_def Let_def ic_geom_def)
  have w: "map (\<lambda>i. get_word (imem_line ?lb im (lineAlign pc ?lb)) (?off + 4 * i)) [0..<n]
      = map Some (map (\<lambda>i. imem_word im (unat pc div 4 + i)) [0..<n])"
    unfolding map_map comp_def
  proof (rule map_cong [OF refl])
    fix i assume "i \<in> set [0..<n]"
    then have "i < (?lb - ?off) div 4" using n by simp
    then have "?off + 4 * i + 4 \<le> ?lb" using o4 by linarith
    then show "get_word (imem_line ?lb im (lineAlign pc ?lb)) (?off + 4 * i) = Some (imem_word im (unat pc div 4 + i))"
      by (rule get_word_imem_line [OF gg a])
  qed
  have "ic_buildResp pc (imem_line ?lb im (lineAlign pc ?lb)) c = Some \<lparr>ir_pc = pc, ir_count = n,
      ir_words = map (\<lambda>i. imem_word im (unat pc div 4 + i)) [0..<n]\<rparr>"
    unfolding ic_buildResp_def Let_def pc_minus_align [OF gg] n_def [unfolded Let_def, symmetric] w
    by (auto simp: comp_def)
  then show ?thesis using n by (simp add: good_resp_def)
qed

subsection \<open>The operations keep the invariant\<close>

lemma ic_upd_sel [simp]:
  "ic_line_bytes (ic_upd_way s w f c) = ic_line_bytes c" "ic_sets (ic_upd_way s w f c) = ic_sets c"
  "ic_mshrs (ic_upd_way s w f c) = ic_mshrs c" "ic_pipe (ic_upd_way s w f c) = ic_pipe c"
  "ic_hit_pend (ic_upd_way s w f c) = ic_hit_pend c" "ic_resp (ic_upd_way s w f c) = ic_resp c"
  "ic_mshr_count (ic_upd_way s w f c) = ic_mshr_count c" "ic_fetch_width (ic_upd_way s w f c) = ic_fetch_width c"
  "ic_dram_mshr (ic_upd_way s w f c) = ic_dram_mshr c" "ic_lru_clock (ic_upd_way s w f c) = ic_lru_clock c"
  "length (ic_cache (ic_upd_way s w f c)) = length (ic_cache c)"
  "ic_line_bytes (ic_upd_mshr i g c) = ic_line_bytes c" "ic_sets (ic_upd_mshr i g c) = ic_sets c"
  "ic_cache (ic_upd_mshr i g c) = ic_cache c" "ic_pipe (ic_upd_mshr i g c) = ic_pipe c"
  "ic_hit_pend (ic_upd_mshr i g c) = ic_hit_pend c" "ic_resp (ic_upd_mshr i g c) = ic_resp c"
  "ic_mshr_count (ic_upd_mshr i g c) = ic_mshr_count c" "ic_fetch_width (ic_upd_mshr i g c) = ic_fetch_width c"
  "ic_dram_mshr (ic_upd_mshr i g c) = ic_dram_mshr c" "ic_lru_clock (ic_upd_mshr i g c) = ic_lru_clock c"
  "ic_mshrs (ic_upd_mshr i g c) = (ic_mshrs c)[i := g (ic_mshrs c ! i)]"
  by (simp_all add: ic_upd_way_def ic_upd_mshr_def)

lemma ic_ways_ok_upd:
  assumes "ic_ways_ok im c"
    and "s < length (ic_cache c) \<Longrightarrow> w < length (ic_cache c ! s) \<Longrightarrow>
         iway_ok im (ic_line_bytes c) (ic_sets c) s (ic_cache c ! s ! w) \<Longrightarrow>
         iway_ok im (ic_line_bytes c) (ic_sets c) s (f (ic_cache c ! s ! w))"
  shows "ic_ways_ok im (ic_upd_way s w f c)"
proof -
  have "iway_ok im (ic_line_bytes c) (ic_sets c) t y"
    if t: "t < length (ic_cache c)" and y: "y \<in> set (((ic_cache c)[s := (ic_cache c ! s)[w := f (ic_cache c ! s ! w)]]) ! t)"
    for t y
    using row_update_cases [OF y] assms t by (auto simp: ic_ways_ok_def)
  then show ?thesis by (simp add: ic_ways_ok_def ic_upd_way_def)
qed

lemma ic_inv_upd_way:
  assumes "ic_inv im c"
    and "iway_ok im (ic_line_bytes c) (ic_sets c) s (ic_cache c ! s ! w) \<Longrightarrow>
         iway_ok im (ic_line_bytes c) (ic_sets c) s (f (ic_cache c ! s ! w))"
  shows "ic_inv im (ic_upd_way s w f c)"
  using assms ic_ways_ok_upd [of im c s w f] by (simp add: ic_inv_def ic_geom_def ic_front_ok_def)

lemma ic_inv_upd_mshr:
  assumes "ic_inv im c" "i < length (ic_mshrs c) \<Longrightarrow> imshr_ok im (ic_line_bytes c) (ic_sets c) (ic_mshrs c ! i) \<Longrightarrow>
     imshr_ok im (ic_line_bytes c) (ic_sets c) (f (ic_mshrs c ! i))"
  shows "ic_inv im (ic_upd_mshr i f c)"
proof -
  have "\<forall>m \<in> set ((ic_mshrs c)[i := f (ic_mshrs c ! i)]). imshr_ok im (ic_line_bytes c) (ic_sets c) m"
  proof (cases "i < length (ic_mshrs c)")
    case True
    then show ?thesis
      using assms by (auto simp: ic_inv_def dest!: subsetD [OF set_update_subset_insert])
  qed (use assms in \<open>simp add: ic_inv_def list_update_beyond\<close>)
  then show ?thesis using assms(1) by (simp add: ic_inv_def ic_geom_def ic_front_ok_def ic_ways_ok_def)
qed

text \<open>Changes of the front end only.\<close>

lemma ic_inv_front:
  assumes "ic_inv im c" "ic_front_ok im c'"
    and "ic_line_bytes c' = ic_line_bytes c" "ic_sets c' = ic_sets c" "ic_cache c' = ic_cache c"
      "ic_mshrs c' = ic_mshrs c" "ic_mshr_count c' = ic_mshr_count c" "ic_fetch_width c' = ic_fetch_width c"
  shows "ic_inv im c'"
  using assms by (simp add: ic_inv_def ic_geom_def ic_ways_ok_def)


lemma ic_inv_init:
  assumes "geometry lb sets"
  shows "ic_inv im (ic_init lb sets ways mshr_count fw hl)"
  using assms
  by (auto simp: ic_inv_def ic_init_def ic_geom_def ic_ways_ok_def iway_ok_def iway0_def imshr_ok_def imshr0_def
      ic_front_ok_def ipipe0_def ihit0_def)

lemma ic_inv_reset: "ic_inv im c \<Longrightarrow> ic_inv im (ic_reset c)"
  by (auto simp: ic_inv_def ic_reset_def ic_geom_def ic_ways_ok_def iway_ok_def iway0_def imshr_ok_def imshr0_def
      ic_front_ok_def ipipe0_def ihit0_def)

lemma ic_inv_flush: "ic_inv im c \<Longrightarrow> ic_inv im (ic_flush c)"
  by (auto simp: ic_inv_def ic_flush_def ic_geom_def ic_ways_ok_def imshr_ok_def ic_front_ok_def ipipe0_def)

lemma ic_inv_tryCpuReq: "ic_inv im c \<Longrightarrow> 4 dvd unat pc \<Longrightarrow> ic_inv im (snd (ic_tryCpuReq pc c))"
  by (simp add: ic_tryCpuReq_def ic_inv_def ic_geom_def ic_ways_ok_def ic_front_ok_def)

lemma ic_inv_pop: "ic_inv im c \<Longrightarrow> ic_inv im (snd (ic_popCpuResp c)) \<and> (\<forall>r. fst (ic_popCpuResp c) = Some r \<longrightarrow> good_resp im r)"
  by (simp add: ic_popCpuResp_def ic_inv_def ic_geom_def ic_ways_ok_def ic_front_ok_def)

lemma ic_inv_hit:
  assumes i: "ic_inv im c" and a: "4 dvd unat pc" and h: "ic_findHit (ic_setIndex pc c) (ic_tagOf pc c) c = Some w"
  shows "ic_inv im (ic_hit pc (ic_setIndex pc c) w c)"
proof -
  let ?s = "ic_setIndex pc c"
  have g: "geometry (ic_line_bytes c) (ic_sets c)" "length (ic_cache c) = ic_sets c"
    using i by (simp_all add: ic_inv_def ic_geom_def)
  have s: "?s < length (ic_cache c)" using g set_index_less by (simp add: ic_setIndex_def)
  note f = first_idx_SomeD [OF h [unfolded ic_findHit_def]]
  have "iway_ok im (ic_line_bytes c) (ic_sets c) ?s (ic_cache c ! ?s ! w)"
    using i s f by (simp add: ic_inv_def ic_ways_ok_def)
  then have d: "iw_data (ic_cache c ! ?s ! w) = imem_line (ic_line_bytes c) im (lineAlign pc (ic_line_bytes c))"
    using f by (simp add: iway_ok_def ic_setIndex_def ic_tagOf_def)
  have "ic_inv im (ic_upd_way ?s w (\<lambda>x. x\<lparr>iw_lru := ic_lru_clock c\<rparr>) c)"
    using i by (rule ic_inv_upd_way) (simp add: iway_ok_def)
  then show ?thesis
    unfolding ic_hit_def Let_def
    by (rule ic_inv_front) (use i a d in \<open>auto simp: ic_front_ok_def ic_inv_def\<close>)
qed

lemma ic_inv_miss:
  assumes i: "ic_inv im c" and a: "4 dvd unat pc"
  shows "ic_inv im (ic_miss pc (ic_setIndex pc c) mi v c)"
  unfolding ic_miss_def
proof (intro ic_inv_upd_way ic_inv_upd_mshr i)
  note g = ic_inv_geometry [OF i]
  show "imshr_ok im (ic_line_bytes c) (ic_sets c) \<lparr>im_valid = True, im_fill_sent = False, im_fill_ready = False,
      im_drop = False, im_has_waiter = True, im_line_addr = lineAlign pc (ic_line_bytes c), im_req_pc = pc,
      im_set = ic_setIndex pc c, im_way = v, im_line = replicate (ic_line_bytes c) 0\<rparr>"
    using g a lineAlign_idem [OF g] lineAlign_set_tag [OF g]
    by (simp add: imshr_ok_def ic_setIndex_def)
qed (simp add: iway_ok_def)

lemma ic_inv_processPipe:
  assumes i: "ic_inv im c" shows "ic_inv im (ic_processPipe c)"
proof (cases "ip_valid (ic_pipe c)")
  case True
  let ?pc = "ip_pc (ic_pipe c)" and ?c = "c\<lparr>ic_pipe := ipipe0\<rparr>"
  let ?held = "c\<lparr>ic_pipe := \<lparr>ip_valid = True, ip_pc = ip_pc (ic_pipe c)\<rparr>\<rparr>"
  have a: "4 dvd unat ?pc" using i True by (simp add: ic_inv_def ic_front_ok_def)
  have c: "ic_inv im ?c" using i by (rule ic_inv_front) (use i in \<open>auto simp: ic_front_ok_def ic_inv_def ipipe0_def\<close>)
  have h: "ic_inv im ?held" using i by (rule ic_inv_front) (use i a in \<open>auto simp: ic_front_ok_def ic_inv_def\<close>)
  have w: "ic_inv im (ic_upd_mshr k (\<lambda>m. m\<lparr>im_has_waiter := True, im_req_pc := ?pc, im_drop := False\<rparr>) ?c)"
    if "ic_findMshr (lineAlign ?pc (ic_line_bytes c)) ?c = Some k" for k
  proof (rule ic_inv_upd_mshr [OF c])
    have "im_line_addr (ic_mshrs c ! k) = lineAlign ?pc (ic_line_bytes c)"
      using first_idx_takeD [OF that [unfolded ic_findMshr_def]] by simp
    then show "imshr_ok im (ic_line_bytes ?c) (ic_sets ?c)
        ((ic_mshrs ?c ! k)\<lparr>im_has_waiter := True, im_req_pc := ?pc, im_drop := False\<rparr>)"
      if "imshr_ok im (ic_line_bytes ?c) (ic_sets ?c) (ic_mshrs ?c ! k)"
      using that a by (simp add: imshr_ok_def)
  qed
  show ?thesis
    using True h w ic_inv_hit [OF c a] ic_inv_miss [OF c a]
    by (auto simp: ic_processPipe_def Let_def split: option.splits)
qed (use i in \<open>simp add: ic_processPipe_def\<close>)

lemma ic_inv_install:
  assumes i: "ic_inv im c" and m: "mi < length (ic_mshrs c)" "im_valid (ic_mshrs c ! mi)" "im_fill_ready (ic_mshrs c ! mi)"
  shows "ic_inv im (ic_install mi c)"
proof -
  let ?m = "ic_mshrs c ! mi"
  note g = ic_inv_geometry [OF i]
  have ok: "lineAlign (im_line_addr ?m) (ic_line_bytes c) = im_line_addr ?m"
      "im_set ?m = set_index (ic_line_bytes c) (ic_sets c) (im_line_addr ?m)"
      "im_line ?m = imem_line (ic_line_bytes c) im (im_line_addr ?m)"
    using imshr_ok_nth [OF i m(1)] m by (auto simp: imshr_ok_def)
  have new: "iway_ok im (ic_line_bytes c) (ic_sets c) (im_set ?m) \<lparr>iw_valid = True, iw_reserved = False,
      iw_tag = ic_tagOf (im_line_addr ?m) c, iw_data = im_line ?m, iw_lru = l\<rparr>" for l
  proof -
    have "lineAlign pc (ic_line_bytes c) = im_line_addr ?m"
      if "set_index (ic_line_bytes c) (ic_sets c) pc = im_set ?m"
         "tag_of (ic_line_bytes c) (ic_sets c) pc = ic_tagOf (im_line_addr ?m) c" for pc
      using that ok lineAlign_eq_iff [OF g, of pc "im_line_addr ?m"] by (simp add: ic_tagOf_def)
    then show ?thesis by (simp add: iway_ok_def ok(3))
  qed
  have "ic_inv im (c'\<lparr>ic_lru_clock := l\<rparr>)" if "ic_inv im c'" for c' l
    using that by (rule ic_inv_front) (use that in \<open>auto simp: ic_front_ok_def ic_inv_def\<close>)
  moreover have "ic_inv im (ic_upd_way (im_set ?m) (im_way ?m) (\<lambda>_. \<lparr>iw_valid = True, iw_reserved = False,
      iw_tag = ic_tagOf (im_line_addr ?m) c, iw_data = im_line ?m, iw_lru = ic_lru_clock c\<rparr>) c)"
    using i new by (rule ic_inv_upd_way)
  moreover have "ic_inv im (ic_upd_way (im_set ?m) (im_way ?m) (\<lambda>x. x\<lparr>iw_reserved := False\<rparr>) c)"
    using i by (rule ic_inv_upd_way) (simp add: iway_ok_def)
  ultimately show ?thesis by (simp add: ic_install_def Let_def)
qed

lemma ic_install_sel [simp]:
  "ic_mshrs (ic_install mi c) = ic_mshrs c" "ic_line_bytes (ic_install mi c) = ic_line_bytes c"
  "ic_dram_mshr (ic_install mi c) = ic_dram_mshr c" "ic_mshr_count (ic_install mi c) = ic_mshr_count c"
  by (simp_all add: ic_install_def Let_def)

lemma imshr_ok_0 [simp]: "imshr_ok im lb sets imshr0"
  by (simp add: imshr_ok_def imshr0_def)

text \<open>
  A miss register that waits for its line keeps waiting for it: only \<open>ic_dramResp\<close> ends that.
\<close>

definition ic_waits :: "ICache \<Rightarrow> nat \<Rightarrow> u32 \<Rightarrow> bool" where
  "ic_waits c i a \<longleftrightarrow> i < ic_mshr_count c \<and> i < length (ic_mshrs c) \<and> im_valid (ic_mshrs c ! i)
     \<and> im_fill_sent (ic_mshrs c ! i) \<and> \<not> im_fill_ready (ic_mshrs c ! i) \<and> im_line_addr (ic_mshrs c ! i) = a"

definition ic_keeps :: "ICache \<Rightarrow> ICache \<Rightarrow> bool" where
  "ic_keeps c c' \<longleftrightarrow> ic_line_bytes c' = ic_line_bytes c \<and> ic_mshr_count c' = ic_mshr_count c
     \<and> length (ic_mshrs c') = length (ic_mshrs c) \<and> ic_dram_mshr c' = ic_dram_mshr c
     \<and> (\<forall>i a. ic_waits c i a \<longrightarrow> ic_waits c' i a)"

lemma ic_keeps_refl [simp]: "ic_keeps c c"
  by (simp add: ic_keeps_def)

lemma ic_keeps_trans [trans]: "ic_keeps a b \<Longrightarrow> ic_keeps b c \<Longrightarrow> ic_keeps a c"
  by (auto simp: ic_keeps_def)

lemma ic_keeps_front:
  "ic_line_bytes c' = ic_line_bytes c \<Longrightarrow> ic_mshr_count c' = ic_mshr_count c \<Longrightarrow> ic_mshrs c' = ic_mshrs c
   \<Longrightarrow> ic_dram_mshr c' = ic_dram_mshr c \<Longrightarrow> ic_keeps c c'"
  by (simp add: ic_keeps_def ic_waits_def)

lemma ic_keeps_upd_mshr:
  assumes "\<And>m. m = ic_mshrs c ! i \<Longrightarrow> im_valid m \<Longrightarrow> im_fill_sent m \<Longrightarrow> \<not> im_fill_ready m \<Longrightarrow>
    im_valid (f m) \<and> im_fill_sent (f m) \<and> \<not> im_fill_ready (f m) \<and> im_line_addr (f m) = im_line_addr m"
  shows "ic_keeps c (ic_upd_mshr i f c)"
proof -
  have "ic_waits (ic_upd_mshr i f c) j a" if "ic_waits c j a" for j a
    using that assms by (cases "j = i") (auto simp: ic_waits_def)
  then show ?thesis by (simp add: ic_keeps_def)
qed

lemma ic_keeps_upd_way [simp]: "ic_keeps c (ic_upd_way s w f c)"
  by (rule ic_keeps_front) simp_all

lemma ic_keeps_flush: "ic_keeps c (ic_flush c)"
  by (auto simp: ic_keeps_def ic_flush_def ic_waits_def)

lemma ic_keeps_install: "ic_keeps c (ic_install mi c)"
  by (rule ic_keeps_front) (simp_all add: ic_install_def Let_def)

lemma ic_keeps_processPipe: "ic_keeps c (ic_processPipe c)"
proof -
  let ?c = "c\<lparr>ic_pipe := ipipe0\<rparr>"
  have c: "ic_keeps c (c\<lparr>ic_pipe := p\<rparr>)" for p by (rule ic_keeps_front) simp_all
  have "ic_keeps ?c (ic_hit pc s w ?c)" for pc s w
    by (rule ic_keeps_front) (simp_all add: ic_hit_def Let_def)
  moreover have "ic_keeps ?c (ic_miss pc s mi v ?c)" if "ic_allocMshr ?c = Some mi" for pc s mi v
    unfolding ic_miss_def
    by (rule ic_keeps_trans [OF ic_keeps_upd_mshr ic_keeps_upd_way])
      (use first_idx_takeD [OF that [unfolded ic_allocMshr_def]] in auto)
  moreover have "ic_keeps ?c (ic_upd_mshr i (\<lambda>m. m\<lparr>im_has_waiter := True, im_req_pc := pc, im_drop := False\<rparr>) ?c)" for i pc
    by (rule ic_keeps_upd_mshr) simp
  ultimately show ?thesis
    using c ic_keeps_trans [OF c [of ipipe0]]
    by (auto simp: ic_processPipe_def Let_def split: option.splits)
qed

lemma ic_emitHit_ok:
  assumes i: "ic_inv im c"
  shows "\<exists>c'. ic_emitHit c = Some c' \<and> ic_inv im c' \<and> ic_keeps c c'"
proof (cases "ih_valid (ic_hit_pend c)")
  case True
  let ?h = "ic_hit_pend c"
  have h: "4 dvd unat (ih_pc ?h)" "ih_line ?h = imem_line (ic_line_bytes c) im (lineAlign (ih_pc ?h) (ic_line_bytes c))"
    "ic_geom c"
    using i True by (simp_all add: ic_inv_def ic_front_ok_def)
  obtain r where r: "ic_buildResp (ih_pc ?h) (ih_line ?h) c = Some r" "good_resp im r"
    using ic_buildResp_ok [OF h(3,1), of im] h(2) by auto
  have upd: "ic_inv im (c\<lparr>ic_hit_pend := p\<rparr>) \<and> ic_keeps c (c\<lparr>ic_hit_pend := p\<rparr>)"
    if "p = ihit0 \<or> p = ?h \<or> p = ?h\<lparr>ih_cycles_left := n\<rparr>" for p n
    using that i True h by (auto simp: ic_inv_def ic_geom_def ic_ways_ok_def ic_front_ok_def ihit0_def
        intro!: ic_keeps_front)
  moreover have "ic_inv im (c\<lparr>ic_resp := Some r, ic_hit_pend := ihit0\<rparr>) \<and> ic_keeps c (c\<lparr>ic_resp := Some r, ic_hit_pend := ihit0\<rparr>)"
    using i r(2) by (auto simp: ic_inv_def ic_geom_def ic_ways_ok_def ic_front_ok_def ihit0_def
        intro!: ic_keeps_front)
  ultimately show ?thesis using True r(1) i by (auto simp: ic_emitHit_def Let_def)
qed (use i in \<open>simp add: ic_emitHit_def Let_def\<close>)

lemma ic_completeMshr_ok:
  assumes i: "ic_inv im c" and m: "mi < length (ic_mshrs c)" "im_valid (ic_mshrs c ! mi)" "im_fill_ready (ic_mshrs c ! mi)"
  shows "\<exists>c'. ic_completeMshr mi c = Some c' \<and> ic_inv im c' \<and> ic_keeps c c'"
proof -
  let ?c = "ic_install mi c" and ?m = "ic_mshrs c ! mi"
  have c: "ic_inv im ?c" "ic_keeps c ?c" using ic_inv_install [OF i m] ic_keeps_install by auto
  have z: "ic_inv im (ic_upd_mshr mi (\<lambda>_. imshr0) ?c)" "ic_keeps ?c (ic_upd_mshr mi (\<lambda>_. imshr0) ?c)"
    using m by (auto intro: ic_inv_upd_mshr [OF c(1)] ic_keeps_upd_mshr)
  show ?thesis
  proof (cases "im_drop ?m \<or> \<not> im_has_waiter ?m \<or> ic_resp ?c \<noteq> None \<or> ih_valid (ic_hit_pend ?c)")
    case True
    then show ?thesis using m c z ic_keeps_trans [OF c(2) z(2)]
      by (auto simp: ic_completeMshr_def Let_def)
  next
    case False
    have "imshr_ok im (ic_line_bytes ?c) (ic_sets ?c) ?m" using imshr_ok_nth [OF c(1), of mi] m by simp
    then have l: "im_line ?m = imem_line (ic_line_bytes ?c) im (lineAlign (im_req_pc ?m) (ic_line_bytes ?c))"
        "4 dvd unat (im_req_pc ?m)"
      using m False by (auto simp: imshr_ok_def)
    have "ic_geom ?c" using c(1) by (simp add: ic_inv_def)
    then obtain r where r: "ic_buildResp (im_req_pc ?m) (im_line ?m) ?c = Some r" "good_resp im r"
      using ic_buildResp_ok [of ?c "im_req_pc ?m" im] l by auto
    let ?z = "ic_upd_mshr mi (\<lambda>_. imshr0) ?c"
    have "ic_inv im (?z\<lparr>ic_resp := Some r\<rparr>)" "ic_keeps ?z (?z\<lparr>ic_resp := Some r\<rparr>)"
      using z(1) r(2) by (simp_all add: ic_inv_def ic_geom_def ic_ways_ok_def ic_front_ok_def ic_keeps_front)
    then show ?thesis
      using False m r(1) ic_keeps_trans [OF ic_keeps_trans [OF c(2) z(2)]]
      by (simp add: ic_completeMshr_def Let_def)
  qed
qed

lemma ic_completeFrom_ok:
  "ic_inv im c \<Longrightarrow> (\<And>i. i \<in> set is \<Longrightarrow> i < length (ic_mshrs c)) \<Longrightarrow>
   \<exists>c'. ic_completeFrom is c = Some c' \<and> ic_inv im c' \<and> ic_keeps c c'"
proof (induction "is" arbitrary: c)
  case (Cons i "is")
  show ?case
  proof (cases "im_valid (ic_mshrs c ! i) \<and> im_fill_ready (ic_mshrs c ! i)")
    case True
    then obtain c1 where c1: "ic_completeMshr i c = Some c1" "ic_inv im c1" "ic_keeps c c1"
      using ic_completeMshr_ok [OF Cons.prems(1), of i] Cons.prems(2) by auto
    moreover have "\<And>j. j \<in> set is \<Longrightarrow> j < length (ic_mshrs c1)"
      using Cons.prems(2) c1(3) by (simp add: ic_keeps_def)
    ultimately show ?thesis
      using Cons.IH [of c1] True ic_keeps_trans [OF c1(3)] by auto
  next
    case False
    then show ?thesis using Cons.IH [OF Cons.prems(1)] Cons.prems(2) by auto
  qed
qed simp

lemma ic_tickEnd_ok:
  assumes "ic_inv im c"
  shows "\<exists>c'. ic_tickEnd c = Some c' \<and> ic_inv im c' \<and> ic_keeps c c'"
proof -
  obtain c1 where c1: "ic_emitHit c = Some c1" "ic_inv im c1" "ic_keeps c c1"
    using ic_emitHit_ok [OF assms] by auto
  have p: "ic_inv im (ic_processPipe c1)" "ic_keeps c1 (ic_processPipe c1)"
    using c1(2) ic_inv_processPipe ic_keeps_processPipe by auto
  have "i < length (ic_mshrs (ic_processPipe c1))" if "i \<in> set [0..<ic_mshr_count c1]" for i
    using that p(2) c1(2) by (auto simp: ic_keeps_def ic_inv_def ic_geom_def)
  from ic_completeFrom_ok [OF p(1) this] obtain c2
    where c2: "ic_completeFrom [0..<ic_mshr_count c1] (ic_processPipe c1) = Some c2" "ic_inv im c2" "ic_keeps (ic_processPipe c1) c2"
    by blast
  then show ?thesis
    using c1 ic_keeps_trans [OF c1(3) ic_keeps_trans [OF p(2) c2(3)]] by (auto simp: ic_tickEnd_def)
qed

lemma ic_dramResp_ok:
  assumes i: "ic_inv im c" and w: "ic_waits c i a" and l: "line = imem_line (ic_line_bytes c) im a"
  shows "\<exists>c'. ic_dramResp i line c = Some c' \<and> ic_inv im c' \<and> ic_line_bytes c' = ic_line_bytes c
    \<and> ic_mshr_count c' = ic_mshr_count c
    \<and> ic_dram_mshr c' = (if ic_dram_mshr c = Some i then None else ic_dram_mshr c)"
proof -
  let ?c = "ic_upd_mshr i (\<lambda>m. m\<lparr>im_line := take (ic_line_bytes c) line, im_fill_ready := True\<rparr>) c"
  have n: "length line = ic_line_bytes c" using geometry_dvd [OF ic_inv_geometry [OF i]] by (simp add: l)
  have "ic_inv im ?c"
    using i by (rule ic_inv_upd_mshr) (use w l n in \<open>auto simp: imshr_ok_def ic_waits_def\<close>)
  then have "ic_inv im (?c\<lparr>ic_dram_mshr := x\<rparr>)" for x
    by (simp add: ic_inv_def ic_geom_def ic_ways_ok_def ic_front_ok_def)
  then show ?thesis using w n by (simp add: ic_dramResp_def ic_waits_def)
qed

text \<open>Handing the next miss to memory.\<close>

lemma ic_accepted_ok:
  assumes i: "ic_inv im c" and h: "ic_hasDramReq c"
  shows "ic_inv im (ic_dramReqAccepted c)"
    and "ic_waits (ic_dramReqAccepted c) (ic_dramReqId c) (ic_dramReqAddr c)"
    and "ic_dram_mshr (ic_dramReqAccepted c) = Some (ic_dramReqId c)"
    and "ic_line_bytes (ic_dramReqAccepted c) = ic_line_bytes c"
    and "ic_mshr_count (ic_dramReqAccepted c) = ic_mshr_count c"
proof -
  obtain k where k: "ic_dram_pick c = Some k" using h by (auto simp: ic_hasDramReq_def)
  note f = first_idx_takeD [OF k [unfolded ic_dram_pick_def]]
  have "ic_inv im (ic_upd_mshr k (\<lambda>m. m\<lparr>im_fill_sent := True\<rparr>) c)"
    using i by (rule ic_inv_upd_mshr) (simp add: imshr_ok_def)
  then show "ic_inv im (ic_dramReqAccepted c)"
    by (simp add: ic_dramReqAccepted_def k) (simp add: ic_inv_def ic_geom_def ic_ways_ok_def ic_front_ok_def)
  show "ic_waits (ic_dramReqAccepted c) (ic_dramReqId c) (ic_dramReqAddr c)"
    using f imshr_ok_nth [OF i, of k] by (auto simp: imshr_ok_def ic_dramReqAccepted_def ic_dramReqId_def ic_dramReqAddr_def k ic_waits_def)
qed (use h in \<open>auto simp: ic_hasDramReq_def ic_dramReqAccepted_def ic_dramReqId_def split: option.splits\<close>)

end
