(* ===== verification/DCache.thy ===== *)
theory DCache
  imports DramSimple
begin

text \<open>
  The non-blocking write-back, write-allocate data cache of \<open>src/mem/dcache.cpp\<close>: compare
  pipes, tag lookup, miss registers with their queues of waiters, write-back of dirty
  victims, fills and the drain of the waiters.
\<close>

section \<open>State\<close>

record DWay =
  dw_valid :: bool
  dw_dirty :: bool
  dw_reserved :: bool
  dw_tag :: u32
  dw_data :: "u8 list"
  dw_lru :: u64

record Waiter =
  wt_req :: DataMemReq
  wt_drop :: bool

record DMshr =
  dm_valid :: bool
  dm_line_addr :: u32
  dm_set :: nat
  dm_way :: nat
  dm_need_wb :: bool
  dm_wb_sent :: bool
  dm_wb_done :: bool
  dm_wb_addr :: u32
  dm_wb_data :: "u8 list"
  dm_fill_sent :: bool
  dm_fill_ready :: bool
  dm_line :: "u8 list"
  dm_waiters :: "Waiter list"
  dm_draining :: bool
  dm_drain_idx :: nat
  dm_drain_line :: "u8 list"

record DPipe =
  dp_valid :: bool
  dp_req :: DataMemReq

record DHitPend =
  dh_valid :: bool
  dh_drop :: bool
  dh_cycles_left :: nat
  dh_resp :: DataMemResp

definition req0 :: DataMemReq where
  "req0 = \<lparr>rq_write = False, rq_addr = 0, rq_wdata = 0, rq_wstrb = 0xF, rq_id = -1, rq_cookie = 0\<rparr>"

definition resp0 :: DataMemResp where
  "resp0 = \<lparr>rp_id = -1, rp_rdata = 0, rp_cookie = 0, rp_is_write = False\<rparr>"

definition dway0 :: "nat \<Rightarrow> DWay" where
  "dway0 lb = \<lparr>dw_valid = False, dw_dirty = False, dw_reserved = False, dw_tag = 0,
     dw_data = replicate lb 0, dw_lru = 0\<rparr>"

definition dmshr0 :: DMshr where
  "dmshr0 = \<lparr>dm_valid = False, dm_line_addr = 0, dm_set = 0, dm_way = 0, dm_need_wb = False,
     dm_wb_sent = False, dm_wb_done = True, dm_wb_addr = 0, dm_wb_data = [], dm_fill_sent = False,
     dm_fill_ready = False, dm_line = [], dm_waiters = [], dm_draining = False, dm_drain_idx = 0,
     dm_drain_line = []\<rparr>"

definition dpipe0 :: DPipe where
  "dpipe0 = \<lparr>dp_valid = False, dp_req = req0\<rparr>"

definition dhit0 :: DHitPend where
  "dhit0 = \<lparr>dh_valid = False, dh_drop = False, dh_cycles_left = 0, dh_resp = resp0\<rparr>"

record DCache =
  dc_line_bytes :: nat
  dc_sets :: nat
  dc_ways :: nat
  dc_mshr_count :: nat
  dc_ufp_ports :: nat
  dc_mshr_waiters :: nat
  dc_load_hit_latency :: nat
  dc_lru_clock :: u64
  dc_cpu_accepts :: nat
  dc_cache :: "DWay list list"
  dc_mshrs :: "DMshr list"
  dc_pipe :: "DPipe list"
  dc_hit_pend :: "DHitPend list"
  dc_resp_q :: "DataMemResp list"
  dc_dram_mshr :: "nat option"
  dc_dram_is_wb :: bool
  dc_drain_mshr :: "nat option"

text \<open>The constructor; \<open>None\<close> is its failed assertion.\<close>

definition dc_init :: "nat \<Rightarrow> nat \<Rightarrow> nat \<Rightarrow> nat \<Rightarrow> int \<Rightarrow> int \<Rightarrow> int \<Rightarrow> DCache option" where
  "dc_init lb sets ways mshr_count ufp_ports mshr_waiters load_hit_latency =
    (if \<not> (0 < lb \<and> 0 < sets \<and> 0 < ways) then None
     else let ports = (if ufp_ports > 0 then nat ufp_ports else 1) in
       Some \<lparr>dc_line_bytes = lb, dc_sets = sets, dc_ways = ways, dc_mshr_count = mshr_count,
         dc_ufp_ports = ports, dc_mshr_waiters = (if mshr_waiters > 0 then nat mshr_waiters else 1),
         dc_load_hit_latency = (if load_hit_latency < 1 then 1 else nat load_hit_latency),
         dc_lru_clock = 1, dc_cpu_accepts = 0,
         dc_cache = replicate sets (replicate ways (dway0 lb)),
         dc_mshrs = replicate (if mshr_count > 0 then mshr_count else 1) dmshr0,
         dc_pipe = replicate ports dpipe0, dc_hit_pend = replicate ports dhit0,
         dc_resp_q = [], dc_dram_mshr = None, dc_dram_is_wb = False, dc_drain_mshr = None\<rparr>)"

definition dc_reset :: "DCache \<Rightarrow> DCache" where
  "dc_reset c = c\<lparr>dc_cache := map (map (\<lambda>w. dway0 (dc_line_bytes c))) (dc_cache c),
     dc_mshrs := map (\<lambda>m. dmshr0) (dc_mshrs c), dc_pipe := map (\<lambda>p. dpipe0) (dc_pipe c),
     dc_hit_pend := map (\<lambda>h. dhit0) (dc_hit_pend c), dc_resp_q := [], dc_dram_mshr := None,
     dc_dram_is_wb := False, dc_drain_mshr := None, dc_cpu_accepts := 0, dc_lru_clock := 1\<rparr>"

definition drop_load_waiter :: "Waiter \<Rightarrow> Waiter" where
  "drop_load_waiter w = (if \<not> rq_write (wt_req w) then w\<lparr>wt_drop := True\<rparr> else w)"

definition dc_flushLoads :: "DCache \<Rightarrow> DCache" where
  "dc_flushLoads c = c\<lparr>
     dc_hit_pend := map (\<lambda>h. if dh_valid h then h\<lparr>dh_drop := True\<rparr> else h) (dc_hit_pend c),
     dc_pipe := map (\<lambda>p. if dp_valid p \<and> \<not> rq_write (dp_req p) then dpipe0 else p) (dc_pipe c),
     dc_mshrs := map (\<lambda>m. if dm_valid m then m\<lparr>dm_waiters := map drop_load_waiter (dm_waiters m)\<rparr> else m)
       (dc_mshrs c),
     dc_resp_q := filter rp_is_write (dc_resp_q c)\<rparr>"

section \<open>Lookups\<close>

definition dc_setIndex :: "u32 \<Rightarrow> DCache \<Rightarrow> nat" where
  "dc_setIndex addr c = set_index (dc_line_bytes c) (dc_sets c) addr"

definition dc_tagOf :: "u32 \<Rightarrow> DCache \<Rightarrow> u32" where
  "dc_tagOf addr c = tag_of (dc_line_bytes c) (dc_sets c) addr"

definition dc_lineAddrOf :: "nat \<Rightarrow> u32 \<Rightarrow> DCache \<Rightarrow> u32" where
  "dc_lineAddrOf s tg c = line_addr_of (dc_line_bytes c) (dc_sets c) s tg"

definition dc_findHit :: "nat \<Rightarrow> u32 \<Rightarrow> DCache \<Rightarrow> nat option" where
  "dc_findHit s tg c =
    first_idx (\<lambda>w. dw_valid w \<and> \<not> dw_reserved w \<and> dw_tag w = tg) (dc_cache c ! s)"

definition dc_findVictim :: "nat \<Rightarrow> DCache \<Rightarrow> nat option" where
  "dc_findVictim s c = lru_victim dw_valid dw_reserved dw_lru (dc_cache c ! s)"

definition dc_allocMshr :: "DCache \<Rightarrow> nat option" where
  "dc_allocMshr c = first_idx (\<lambda>m. \<not> dm_valid m) (take (dc_mshr_count c) (dc_mshrs c))"

definition dc_findMshr :: "u32 \<Rightarrow> DCache \<Rightarrow> nat option" where
  "dc_findMshr la c =
    first_idx (\<lambda>m. dm_valid m \<and> dm_line_addr m = la) (take (dc_mshr_count c) (dc_mshrs c))"

definition dc_freePipePort :: "DCache \<Rightarrow> nat option" where
  "dc_freePipePort c = first_idx (\<lambda>p. \<not> dp_valid (dc_pipe c ! p) \<and> \<not> dh_valid (dc_hit_pend c ! p))
     [0..<dc_ufp_ports c]"

section \<open>Words and stores in a line\<close>

definition word_offset :: "u32 \<Rightarrow> nat \<Rightarrow> nat" where
  "word_offset addr lb = lineOffset addr lb - lineOffset addr lb mod 4"

definition store_lane :: "DataMemReq \<Rightarrow> nat \<Rightarrow> nat \<Rightarrow> u8 list \<Rightarrow> u8 list" where
  "store_lane req lb b line =
    (if \<not> bit (rq_wstrb req) b then line
     else let idx = word_offset (rq_addr req) lb + b in
       if lb \<le> idx then line
       else line[idx := ucast (drop_bit (8 * b) (rq_wdata req) AND 0xFF)])"

definition applyStoreToLine :: "nat \<Rightarrow> DataMemReq \<Rightarrow> u8 list \<Rightarrow> u8 list" where
  "applyStoreToLine lb req line = fold (store_lane req lb) [0..<4] line"

definition loadWordFromLine :: "nat \<Rightarrow> u8 list \<Rightarrow> u32 \<Rightarrow> u32" where
  "loadWordFromLine lb line addr = (let off = word_offset addr lb in
     if lb < off + 4 then 0 else line_word line off)"

section \<open>Accepting requests and comparing tags\<close>

definition dc_tickBegin :: "DCache \<Rightarrow> DCache" where
  "dc_tickBegin c = c\<lparr>dc_cpu_accepts := 0\<rparr>"

definition dc_tryCpuReq :: "DataMemReq \<Rightarrow> DCache \<Rightarrow> bool \<times> DCache" where
  "dc_tryCpuReq req c =
    (if dc_ufp_ports c \<le> dc_cpu_accepts c then (False, c)
     else case dc_freePipePort c of
       None \<Rightarrow> (False, c)
     | Some p \<Rightarrow> (True, c\<lparr>dc_pipe := (dc_pipe c)[p := \<lparr>dp_valid = True, dp_req = req\<rparr>],
         dc_cpu_accepts := dc_cpu_accepts c + 1\<rparr>))"

definition dc_upd_way :: "nat \<Rightarrow> nat \<Rightarrow> (DWay \<Rightarrow> DWay) \<Rightarrow> DCache \<Rightarrow> DCache" where
  "dc_upd_way s w f c = c\<lparr>dc_cache := (dc_cache c)[s := (dc_cache c ! s)[w := f (dc_cache c ! s ! w)]]\<rparr>"

definition dc_upd_mshr :: "nat \<Rightarrow> (DMshr \<Rightarrow> DMshr) \<Rightarrow> DCache \<Rightarrow> DCache" where
  "dc_upd_mshr i f c = c\<lparr>dc_mshrs := (dc_mshrs c)[i := f (dc_mshrs c ! i)]\<rparr>"

definition dc_set_pipe :: "nat \<Rightarrow> DPipe \<Rightarrow> DCache \<Rightarrow> DCache" where
  "dc_set_pipe p v c = c\<lparr>dc_pipe := (dc_pipe c)[p := v]\<rparr>"

definition resp_of :: "DataMemReq \<Rightarrow> u32 \<Rightarrow> DataMemResp" where
  "resp_of req v = \<lparr>rp_id = rq_id req, rp_rdata = v, rp_cookie = rq_cookie req, rp_is_write = rq_write req\<rparr>"

text \<open>The shadow of the line written by an earlier port in the same cycle: set, way and line.\<close>

type_synonym shadow = "(nat \<times> nat \<times> u8 list) option"

definition shadow_line :: "nat \<Rightarrow> nat \<Rightarrow> shadow \<Rightarrow> u8 list \<Rightarrow> u8 list" where
  "shadow_line s w sh line = (case sh of
     Some (s', w', l) \<Rightarrow> if s' = s \<and> w' = w then l else line | None \<Rightarrow> line)"

definition dc_store_hit :: "DataMemReq \<Rightarrow> nat \<Rightarrow> nat \<Rightarrow> DCache \<times> shadow \<Rightarrow> DCache \<times> shadow" where
  "dc_store_hit req s w = (\<lambda>(c, sh).
    let l = applyStoreToLine (dc_line_bytes c) req (shadow_line s w sh (dw_data (dc_cache c ! s ! w))) in
    ((dc_upd_way s w (\<lambda>x. x\<lparr>dw_lru := dc_lru_clock c, dw_data := l, dw_dirty := True\<rparr>) c)
       \<lparr>dc_lru_clock := dc_lru_clock c + 1, dc_resp_q := dc_resp_q c @ [resp_of req 0]\<rparr>,
     Some (s, w, l)))"

definition dc_load_hit :: "DataMemReq \<Rightarrow> nat \<Rightarrow> nat \<Rightarrow> nat \<Rightarrow> DCache \<times> shadow \<Rightarrow> DCache \<times> shadow" where
  "dc_load_hit req p s w = (\<lambda>(c, sh).
    let v = loadWordFromLine (dc_line_bytes c) (shadow_line s w sh (dw_data (dc_cache c ! s ! w))) (rq_addr req);
        c' = (dc_upd_way s w (\<lambda>x. x\<lparr>dw_lru := dc_lru_clock c\<rparr>) c)\<lparr>dc_lru_clock := dc_lru_clock c + 1\<rparr>
    in (if dh_valid (dc_hit_pend c ! p)
        then dc_set_pipe p \<lparr>dp_valid = True, dp_req = req\<rparr> c'
        else c'\<lparr>dc_hit_pend := (dc_hit_pend c)[p := \<lparr>dh_valid = True, dh_drop = False,
               dh_cycles_left = dc_load_hit_latency c, dh_resp = resp_of req v\<rparr>]\<rparr>, sh))"

definition dc_miss :: "DataMemReq \<Rightarrow> nat \<Rightarrow> nat \<Rightarrow> nat \<Rightarrow> DCache \<Rightarrow> DCache" where
  "dc_miss req s mi victim c =
    (let way = dc_cache c ! s ! victim; need = dw_valid way \<and> dw_dirty way in
     dc_upd_way s victim (\<lambda>x. x\<lparr>dw_reserved := True\<rparr>)
      (dc_upd_mshr mi (\<lambda>_. dmshr0\<lparr>dm_valid := True, dm_line_addr := lineAlign (rq_addr req) (dc_line_bytes c),
         dm_set := s, dm_way := victim, dm_line := replicate (dc_line_bytes c) 0, dm_need_wb := need,
         dm_wb_sent := False, dm_wb_done := \<not> need,
         dm_wb_addr := (if need then dc_lineAddrOf s (dw_tag way) c else 0),
         dm_wb_data := (if need then dw_data way else []), dm_fill_sent := False, dm_fill_ready := False,
         dm_waiters := [\<lparr>wt_req = req, wt_drop = False\<rparr>]\<rparr>) c))"

text \<open>One iteration of the loop over the ports.\<close>

definition dc_port :: "nat \<Rightarrow> DCache \<times> shadow \<Rightarrow> DCache \<times> shadow" where
  "dc_port p = (\<lambda>(c0, sh).
    if \<not> dp_valid (dc_pipe c0 ! p) then (c0, sh)
    else let req = dp_req (dc_pipe c0 ! p);
             c = dc_set_pipe p ((dc_pipe c0 ! p)\<lparr>dp_valid := False\<rparr>) c0;
             held = (c0, sh);
             la = lineAlign (rq_addr req) (dc_line_bytes c);
             s = dc_setIndex (rq_addr req) c; tg = dc_tagOf (rq_addr req) c
         in case dc_findMshr la c of
              Some i \<Rightarrow> (let m = dc_mshrs c ! i in
                if dm_fill_ready m \<or> dm_draining m then held
                else if dc_mshr_waiters c \<le> length (dm_waiters m) then held
                else (dc_upd_mshr i (\<lambda>m. m\<lparr>dm_waiters := dm_waiters m @ [\<lparr>wt_req = req, wt_drop = False\<rparr>]\<rparr>) c, sh))
            | None \<Rightarrow>
              (case dc_findHit s tg c of
                 Some w \<Rightarrow> if rq_write req then dc_store_hit req s w (c, sh) else dc_load_hit req p s w (c, sh)
               | None \<Rightarrow>
                 (case (dc_allocMshr c, dc_findVictim s c) of
                    (Some mi, Some victim) \<Rightarrow> (dc_miss req s mi victim c, sh)
                  | _ \<Rightarrow> held)))"

definition dc_processPipes :: "DCache \<Rightarrow> DCache" where
  "dc_processPipes c = fst (fold dc_port [0..<dc_ufp_ports c] (c, None))"

section \<open>The side of the memory\<close>

definition wb_pending :: "DMshr \<Rightarrow> bool" where
  "wb_pending m \<longleftrightarrow> dm_need_wb m \<and> \<not> dm_wb_done m \<and> \<not> dm_wb_sent m"

definition dc_pickDramMshr :: "DCache \<Rightarrow> nat option" where
  "dc_pickDramMshr c = (let ms = take (dc_mshr_count c) (dc_mshrs c) in
     case first_idx (\<lambda>m. dm_valid m \<and> wb_pending m) ms of
       Some i \<Rightarrow> Some i
     | None \<Rightarrow> first_idx (\<lambda>m. dm_valid m \<and> dm_wb_done m \<and> \<not> dm_fill_sent m) ms)"

definition dc_hasDramReq :: "DCache \<Rightarrow> bool" where
  "dc_hasDramReq c \<longleftrightarrow> dc_dram_mshr c = None \<and> dc_pickDramMshr c \<noteq> None"

definition dc_dramReqIsWrite :: "DCache \<Rightarrow> bool" where
  "dc_dramReqIsWrite c = (case dc_pickDramMshr c of None \<Rightarrow> False | Some i \<Rightarrow> wb_pending (dc_mshrs c ! i))"

definition dc_dramReqAddr :: "DCache \<Rightarrow> u32" where
  "dc_dramReqAddr c = (case dc_pickDramMshr c of None \<Rightarrow> 0
     | Some i \<Rightarrow> (let m = dc_mshrs c ! i in if wb_pending m then dm_wb_addr m else dm_line_addr m))"

definition dc_dramReqData :: "DCache \<Rightarrow> u8 list" where
  "dc_dramReqData c = (case dc_pickDramMshr c of None \<Rightarrow> []
     | Some i \<Rightarrow> (let m = dc_mshrs c ! i in if wb_pending m then dm_wb_data m else []))"

definition dc_dramReqId :: "DCache \<Rightarrow> nat" where
  "dc_dramReqId c = (case dc_pickDramMshr c of None \<Rightarrow> 0 | Some i \<Rightarrow> i)"

definition dc_dramReqAccepted :: "DCache \<Rightarrow> DCache" where
  "dc_dramReqAccepted c = (case dc_pickDramMshr c of None \<Rightarrow> c
     | Some i \<Rightarrow> if wb_pending (dc_mshrs c ! i)
         then (dc_upd_mshr i (\<lambda>m. m\<lparr>dm_wb_sent := True\<rparr>) c)\<lparr>dc_dram_mshr := Some i, dc_dram_is_wb := True\<rparr>
         else (dc_upd_mshr i (\<lambda>m. m\<lparr>dm_fill_sent := True\<rparr>) c)\<lparr>dc_dram_mshr := Some i, dc_dram_is_wb := False\<rparr>)"

definition dc_fill :: "nat \<Rightarrow> u8 list \<Rightarrow> DCache \<Rightarrow> DCache option" where
  "dc_fill i line c = (if length line < dc_line_bytes c then None
     else Some (dc_upd_mshr i (\<lambda>m. m\<lparr>dm_line := take (dc_line_bytes c) line, dm_fill_ready := True\<rparr>) c))"

definition dc_dramResp :: "nat \<Rightarrow> u8 list \<Rightarrow> DCache \<Rightarrow> DCache option" where
  "dc_dramResp i line c =
    (if \<not> i < dc_mshr_count c then Some c
     else if \<not> dm_valid (dc_mshrs c ! i) then Some c
     else let m = dc_mshrs c ! i; wb_arrived = dc_upd_mshr i (\<lambda>m. m\<lparr>dm_wb_done := True\<rparr>) in
       if dc_dram_mshr c = Some i
       then (let c' = c\<lparr>dc_dram_mshr := None, dc_dram_is_wb := False\<rparr> in
             if dc_dram_is_wb c then Some (wb_arrived c') else dc_fill i line c')
       else if dm_wb_sent m \<and> \<not> dm_wb_done m then Some (wb_arrived c)
       else dc_fill i line c)"

section \<open>Fills and drain\<close>

definition dc_startDrain :: "nat \<Rightarrow> DCache \<Rightarrow> DCache" where
  "dc_startDrain i c = (dc_upd_mshr i (\<lambda>m. m\<lparr>dm_draining := True, dm_drain_idx := 0\<rparr>) c)
     \<lparr>dc_drain_mshr := (case dc_drain_mshr c of None \<Rightarrow> Some i | Some j \<Rightarrow> Some j)\<rparr>"

definition waiter_stores :: "nat \<Rightarrow> Waiter list \<Rightarrow> u8 list \<Rightarrow> u8 list" where
  "waiter_stores lb ws line =
    fold (\<lambda>w l. if rq_write (wt_req w) then applyStoreToLine lb (wt_req w) l else l) ws line"

definition dc_completeFill :: "nat \<Rightarrow> DCache \<Rightarrow> DCache" where
  "dc_completeFill mi c =
    (let m = dc_mshrs c ! mi in
     if \<not> dm_fill_ready m \<or> dm_draining m then c
     else let line = waiter_stores (dc_line_bytes c) (dm_waiters m) (dm_line m);
              any_store = list_ex (\<lambda>w. rq_write (wt_req w)) (dm_waiters m);
              c1 = (dc_upd_way (dm_set m) (dm_way m) (\<lambda>_. \<lparr>dw_valid = True, dw_dirty = any_store,
                      dw_reserved = False, dw_tag = dc_tagOf (dm_line_addr m) c, dw_data = line,
                      dw_lru = dc_lru_clock c\<rparr>) c)\<lparr>dc_lru_clock := dc_lru_clock c + 1\<rparr>
          in dc_startDrain mi (dc_upd_mshr mi (\<lambda>m. m\<lparr>dm_fill_ready := False, dm_drain_line := line\<rparr>) c1))"

text \<open>The next waiter that wants an answer, and the index after it.\<close>

fun drain_scan :: "nat \<Rightarrow> Waiter list \<Rightarrow> nat \<times> Waiter option" where
  "drain_scan k [] = (k, None)"
| "drain_scan k (w # ws) = (if wt_drop w then drain_scan (Suc k) ws else (Suc k, Some w))"

definition dc_drain_target :: "DCache \<Rightarrow> nat option" where
  "dc_drain_target c = (case dc_drain_mshr c of Some i \<Rightarrow> Some i
     | None \<Rightarrow> first_idx (\<lambda>m. dm_valid m \<and> dm_draining m) (take (dc_mshr_count c) (dc_mshrs c)))"

definition drain_resp :: "nat \<Rightarrow> DMshr \<Rightarrow> Waiter \<Rightarrow> DataMemResp" where
  "drain_resp lb m w = resp_of (wt_req w)
     (if rq_write (wt_req w) then 0 else loadWordFromLine lb (dm_drain_line m) (rq_addr (wt_req w)))"

definition dc_stepDrain :: "DCache \<Rightarrow> DCache" where
  "dc_stepDrain c0 =
    (case dc_drain_target c0 of None \<Rightarrow> c0
     | Some i \<Rightarrow>
       let c = c0\<lparr>dc_drain_mshr := Some i\<rparr>; m = dc_mshrs c ! i in
       if \<not> dm_valid m \<or> \<not> dm_draining m then c\<lparr>dc_drain_mshr := None\<rparr>
       else let (k, w) = drain_scan (dm_drain_idx m) (drop (dm_drain_idx m) (dm_waiters m));
                c1 = (dc_upd_mshr i (\<lambda>m. m\<lparr>dm_drain_idx := k\<rparr>) c)\<lparr>dc_resp_q := dc_resp_q c @
                  (case w of None \<Rightarrow> [] | Some w \<Rightarrow> [drain_resp (dc_line_bytes c) m w])\<rparr>
            in if length (dm_waiters m) \<le> k
               then (dc_upd_mshr i (\<lambda>_. dmshr0) c1)\<lparr>dc_drain_mshr := None\<rparr> else c1)"

definition dc_emit_port :: "nat \<Rightarrow> DCache \<Rightarrow> DCache" where
  "dc_emit_port p c =
    (let h = dc_hit_pend c ! p in
     if \<not> dh_valid h then c
     else let h' = (if 0 < dh_cycles_left h then h\<lparr>dh_cycles_left := dh_cycles_left h - 1\<rparr> else h) in
       if dh_cycles_left h' \<noteq> 0 then c\<lparr>dc_hit_pend := (dc_hit_pend c)[p := h']\<rparr>
       else c\<lparr>dc_hit_pend := (dc_hit_pend c)[p := dhit0],
              dc_resp_q := dc_resp_q c @ (if dh_drop h' then [] else [dh_resp h'])\<rparr>)"

definition dc_complete_ready :: "nat \<Rightarrow> DCache \<Rightarrow> DCache" where
  "dc_complete_ready i c = (if dm_valid (dc_mshrs c ! i) \<and> dm_fill_ready (dc_mshrs c ! i)
     then dc_completeFill i c else c)"

definition dc_tickEnd :: "DCache \<Rightarrow> DCache" where
  "dc_tickEnd c =
    (let c1 = fold dc_emit_port [0..<length (dc_hit_pend c)] c;
         c2 = dc_processPipes c1;
         c3 = fold dc_complete_ready [0..<dc_mshr_count c2] c2
     in dc_stepDrain c3)"

definition dc_max_resp :: "DCache \<Rightarrow> nat" where
  "dc_max_resp c = (if dc_ufp_ports c \<le> 2 then 4 else dc_ufp_ports c)"

definition dc_popCpuResps :: "DCache \<Rightarrow> DataMemResp list \<times> DCache" where
  "dc_popCpuResps c = (take (dc_max_resp c) (dc_resp_q c), c\<lparr>dc_resp_q := drop (dc_max_resp c) (dc_resp_q c)\<rparr>)"

text \<open>Writing every dirty line to memory, for the architectural dump.\<close>

definition dc_wb_way :: "nat \<Rightarrow> nat \<Rightarrow> DCache \<times> i32 list \<Rightarrow> DCache \<times> i32 list" where
  "dc_wb_way s w = (\<lambda>(c, mem).
    let way = dc_cache c ! s ! w in
    if \<not> dw_valid way \<or> \<not> dw_dirty way then (c, mem)
    else let la = dc_lineAddrOf s (dw_tag way) c in
      (dc_upd_way s w (\<lambda>x. x\<lparr>dw_dirty := False\<rparr>) c,
       fold (\<lambda>i m. mem_put m (unat (drop_bit 2 la + of_nat i)) (line_word (dw_data way) (4 * i)))
         [0..<dc_line_bytes c div 4] mem))"

definition dc_writebackDirtyToMemory :: "DCache \<Rightarrow> i32 list \<Rightarrow> DCache \<times> i32 list" where
  "dc_writebackDirtyToMemory c mem =
    fold (\<lambda>(s, w). dc_wb_way s w) (List.product [0..<dc_sets c] [0..<dc_ways c]) (c, mem)"

section \<open>Conservation: every accepted request is answered exactly once\<close>

text \<open>
  A request and its response carry the same header. \<open>dc_pending\<close> is the multiset of headers of
  the requests that were accepted and whose response has not been popped.
\<close>

type_synonym header = "int \<times> u32 \<times> bool"

definition req_hdr :: "DataMemReq \<Rightarrow> header" where
  "req_hdr r = (rq_id r, rq_cookie r, rq_write r)"

definition resp_hdr :: "DataMemResp \<Rightarrow> header" where
  "resp_hdr r = (rp_id r, rp_cookie r, rp_is_write r)"

definition pipe_hdrs :: "DPipe \<Rightarrow> header multiset" where
  "pipe_hdrs p = (if dp_valid p then {#req_hdr (dp_req p)#} else {#})"

definition hit_hdrs :: "DHitPend \<Rightarrow> header multiset" where
  "hit_hdrs h = (if dh_valid h \<and> \<not> dh_drop h then {#resp_hdr (dh_resp h)#} else {#})"

definition waiter_hdrs :: "Waiter list \<Rightarrow> header multiset" where
  "waiter_hdrs ws = mset (map (req_hdr \<circ> wt_req) (filter (\<lambda>w. \<not> wt_drop w) ws))"

definition mshr_hdrs :: "DMshr \<Rightarrow> header multiset" where
  "mshr_hdrs m = (if \<not> dm_valid m then {#}
     else waiter_hdrs (if dm_draining m then drop (dm_drain_idx m) (dm_waiters m) else dm_waiters m))"

definition dc_pending :: "DCache \<Rightarrow> header multiset" where
  "dc_pending c = sum_list (map pipe_hdrs (dc_pipe c)) + sum_list (map hit_hdrs (dc_hit_pend c))
     + sum_list (map mshr_hdrs (dc_mshrs c)) + mset (map resp_hdr (dc_resp_q c))"

lemma sum_list_update:
  fixes f :: "'a \<Rightarrow> 'b multiset"
  assumes "i < length xs"
  shows "sum_list (map f (xs[i := y])) + f (xs ! i) = sum_list (map f xs) + f y"
  using assms
proof (induction xs arbitrary: i)
  case (Cons x xs)
  then show ?case by (cases i) (auto simp: ac_simps)
qed simp

lemma sum_list_update_same:
  fixes f :: "'a \<Rightarrow> 'b multiset"
  assumes "f y = f (xs ! i)"
  shows "sum_list (map f (xs[i := y])) = sum_list (map f xs)"
proof (cases "i < length xs")
  case True
  then show ?thesis using sum_list_update [OF True, of f y] assms by simp
qed (simp add: list_update_beyond)

lemma resp_hdr_of [simp]: "resp_hdr (resp_of req v) = req_hdr req"
  by (simp add: resp_hdr_def resp_of_def req_hdr_def)

lemma drain_resp_hdr [simp]: "resp_hdr (drain_resp lb m w) = req_hdr (wt_req w)"
  by (simp add: drain_resp_def)

lemma waiter_hdrs_append: "waiter_hdrs (xs @ ys) = waiter_hdrs xs + waiter_hdrs ys"
  by (simp add: waiter_hdrs_def)

text \<open>The sizes the loops rely on; only loads wait for the hit latency.\<close>

definition hit_is_load :: "DHitPend \<Rightarrow> bool" where
  "hit_is_load h \<longleftrightarrow> (dh_valid h \<longrightarrow> \<not> rp_is_write (dh_resp h))"

definition dc_shape :: "DCache \<Rightarrow> bool" where
  "dc_shape c \<longleftrightarrow> length (dc_pipe c) = dc_ufp_ports c \<and> length (dc_hit_pend c) = dc_ufp_ports c
     \<and> dc_mshr_count c \<le> length (dc_mshrs c) \<and> 0 < dc_ufp_ports c
     \<and> (\<forall>i. dc_drain_mshr c = Some i \<longrightarrow> i < length (dc_mshrs c))
     \<and> (\<forall>h \<in> set (dc_hit_pend c). hit_is_load h)"

lemma dc_upd_sel [simp]:
  "dc_line_bytes (dc_upd_way s w f c) = dc_line_bytes c" "dc_sets (dc_upd_way s w f c) = dc_sets c"
  "dc_ways (dc_upd_way s w f c) = dc_ways c" "dc_mshr_waiters (dc_upd_way s w f c) = dc_mshr_waiters c"
  "dc_mshr_count (dc_upd_way s w f c) = dc_mshr_count c" "dc_ufp_ports (dc_upd_way s w f c) = dc_ufp_ports c"
  "dc_load_hit_latency (dc_upd_way s w f c) = dc_load_hit_latency c"
  "dc_lru_clock (dc_upd_way s w f c) = dc_lru_clock c" "dc_mshrs (dc_upd_way s w f c) = dc_mshrs c"
  "dc_pipe (dc_upd_way s w f c) = dc_pipe c" "dc_hit_pend (dc_upd_way s w f c) = dc_hit_pend c"
  "dc_resp_q (dc_upd_way s w f c) = dc_resp_q c" "dc_dram_mshr (dc_upd_way s w f c) = dc_dram_mshr c"
  "dc_dram_is_wb (dc_upd_way s w f c) = dc_dram_is_wb c" "dc_drain_mshr (dc_upd_way s w f c) = dc_drain_mshr c"
  "dc_line_bytes (dc_upd_mshr i g c) = dc_line_bytes c" "dc_sets (dc_upd_mshr i g c) = dc_sets c"
  "dc_ways (dc_upd_mshr i g c) = dc_ways c" "dc_mshr_waiters (dc_upd_mshr i g c) = dc_mshr_waiters c"
  "dc_mshr_count (dc_upd_mshr i g c) = dc_mshr_count c" "dc_ufp_ports (dc_upd_mshr i g c) = dc_ufp_ports c"
  "dc_load_hit_latency (dc_upd_mshr i g c) = dc_load_hit_latency c"
  "dc_lru_clock (dc_upd_mshr i g c) = dc_lru_clock c" "dc_cache (dc_upd_mshr i g c) = dc_cache c"
  "dc_pipe (dc_upd_mshr i g c) = dc_pipe c" "dc_hit_pend (dc_upd_mshr i g c) = dc_hit_pend c"
  "dc_resp_q (dc_upd_mshr i g c) = dc_resp_q c" "dc_dram_mshr (dc_upd_mshr i g c) = dc_dram_mshr c"
  "dc_dram_is_wb (dc_upd_mshr i g c) = dc_dram_is_wb c" "dc_drain_mshr (dc_upd_mshr i g c) = dc_drain_mshr c"
  "dc_mshrs (dc_upd_mshr i g c) = (dc_mshrs c)[i := g (dc_mshrs c ! i)]"
  "dc_cache (dc_upd_way s w f c) = (dc_cache c)[s := (dc_cache c ! s)[w := f (dc_cache c ! s ! w)]]"
  by (simp_all add: dc_upd_way_def dc_upd_mshr_def)

lemma dc_set_pipe_sel [simp]:
  "dc_line_bytes (dc_set_pipe p v c) = dc_line_bytes c" "dc_sets (dc_set_pipe p v c) = dc_sets c"
  "dc_mshr_waiters (dc_set_pipe p v c) = dc_mshr_waiters c" "dc_cache (dc_set_pipe p v c) = dc_cache c"
  "dc_mshr_count (dc_set_pipe p v c) = dc_mshr_count c" "dc_ufp_ports (dc_set_pipe p v c) = dc_ufp_ports c"
  "dc_load_hit_latency (dc_set_pipe p v c) = dc_load_hit_latency c" "dc_ways (dc_set_pipe p v c) = dc_ways c"
  "dc_lru_clock (dc_set_pipe p v c) = dc_lru_clock c" "dc_mshrs (dc_set_pipe p v c) = dc_mshrs c"
  "dc_pipe (dc_set_pipe p v c) = (dc_pipe c)[p := v]" "dc_hit_pend (dc_set_pipe p v c) = dc_hit_pend c"
  "dc_resp_q (dc_set_pipe p v c) = dc_resp_q c" "dc_dram_mshr (dc_set_pipe p v c) = dc_dram_mshr c"
  "dc_dram_is_wb (dc_set_pipe p v c) = dc_dram_is_wb c" "dc_drain_mshr (dc_set_pipe p v c) = dc_drain_mshr c"
  by (simp_all add: dc_set_pipe_def)

text \<open>Updates that leave the pending requests alone.\<close>

lemma dc_pending_upd_mshr:
  "mshr_hdrs (f (dc_mshrs c ! i)) = mshr_hdrs (dc_mshrs c ! i) \<Longrightarrow> dc_pending (dc_upd_mshr i f c) = dc_pending c"
  by (simp add: dc_pending_def sum_list_update_same)

lemma dc_pending_upd_way [simp]: "dc_pending (dc_upd_way s w f c) = dc_pending c"
  by (simp add: dc_pending_def)

lemma dc_pending_frame:
  "dc_pipe c' = dc_pipe c \<Longrightarrow> dc_hit_pend c' = dc_hit_pend c \<Longrightarrow> dc_mshrs c' = dc_mshrs c \<Longrightarrow>
   dc_resp_q c' = dc_resp_q c \<Longrightarrow> dc_pending c' = dc_pending c"
  by (simp add: dc_pending_def)

lemma dc_pending_clear_pipe:
  assumes "p < length (dc_pipe c)" "dp_valid (dc_pipe c ! p)" "\<not> dp_valid v"
  shows "dc_pending c = add_mset (req_hdr (dp_req (dc_pipe c ! p))) (dc_pending (dc_set_pipe p v c))"
  using sum_list_update [OF assms(1), of pipe_hdrs v] assms by (simp add: dc_pending_def pipe_hdrs_def)

lemma dc_pending_push:
  "dc_pending (c\<lparr>dc_resp_q := dc_resp_q c @ rs\<rparr>) = mset (map resp_hdr rs) + dc_pending c"
  by (simp add: dc_pending_def ac_simps)

lemma dc_pending_upd_hit:
  assumes "p < length (dc_hit_pend c)"
  shows "dc_pending (c\<lparr>dc_hit_pend := (dc_hit_pend c)[p := h]\<rparr>) + hit_hdrs (dc_hit_pend c ! p) = dc_pending c + hit_hdrs h"
  using sum_list_update [OF assms, of hit_hdrs h] by (simp add: dc_pending_def ac_simps)

lemma dc_pending_mshr:
  assumes "i < length (dc_mshrs c)"
  shows "dc_pending (dc_upd_mshr i f c) + mshr_hdrs (dc_mshrs c ! i) = dc_pending c + mshr_hdrs (f (dc_mshrs c ! i))"
  using sum_list_update [OF assms, of mshr_hdrs "f (dc_mshrs c ! i)"] by (simp add: dc_pending_def ac_simps)

text \<open>Steps that keep the sizes and the pending requests.\<close>

definition dc_conserves :: "DCache \<Rightarrow> DCache \<Rightarrow> bool" where
  "dc_conserves c c' \<longleftrightarrow> dc_pending c' = dc_pending c \<and> dc_shape c'
     \<and> dc_ufp_ports c' = dc_ufp_ports c \<and> dc_mshr_count c' = dc_mshr_count c
     \<and> length (dc_mshrs c') = length (dc_mshrs c)"

lemma dc_conserves_refl: "dc_shape c \<Longrightarrow> dc_conserves c c"
  by (simp add: dc_conserves_def)

lemma dc_conserves_trans: "dc_conserves a b \<Longrightarrow> dc_conserves b c \<Longrightarrow> dc_conserves a c"
  by (simp add: dc_conserves_def)

lemma dc_conserves_fold:
  assumes "dc_shape c" "\<And>k d. k \<in> set ks \<Longrightarrow> dc_shape d \<Longrightarrow> dc_ufp_ports d = dc_ufp_ports c \<Longrightarrow>
     dc_mshr_count d = dc_mshr_count c \<Longrightarrow> dc_conserves d (f k d)"
  shows "dc_conserves c (fold f ks c)"
  using assms
proof (induction ks arbitrary: c)
  case (Cons k ks)
  have k: "dc_conserves c (f k c)" using Cons.prems by simp
  then have "dc_conserves (f k c) (fold f ks (f k c))"
    using Cons.prems by (intro Cons.IH) (auto simp: dc_conserves_def)
  with k show ?case by (simp add: dc_conserves_trans)
qed (simp add: dc_conserves_refl)

lemma waiter_hdrs_single: "waiter_hdrs [\<lparr>wt_req = req, wt_drop = False\<rparr>] = {#req_hdr req#}"
  by (simp add: waiter_hdrs_def)

lemma dc_miss_pending:
  assumes "mi < length (dc_mshrs c)" "\<not> dm_valid (dc_mshrs c ! mi)"
  shows "dc_pending (dc_miss req s mi v c) = add_mset (req_hdr req) (dc_pending c)"
proof -
  have "dc_pending (dc_upd_mshr mi (\<lambda>_. m) c) = add_mset (req_hdr req) (dc_pending c)"
    if "dm_valid m" "\<not> dm_draining m" "dm_waiters m = [\<lparr>wt_req = req, wt_drop = False\<rparr>]" for m
    using dc_pending_mshr [OF assms(1), of "\<lambda>_. m"] that assms(2)
    by (simp add: mshr_hdrs_def waiter_hdrs_single)
  then show ?thesis by (simp add: dc_miss_def Let_def dmshr0_def)
qed

lemma dc_wait_pending:
  assumes "i < length (dc_mshrs c)" "dm_valid (dc_mshrs c ! i)" "\<not> dm_draining (dc_mshrs c ! i)"
  shows "dc_pending (dc_upd_mshr i (\<lambda>m. m\<lparr>dm_waiters := dm_waiters m @ [\<lparr>wt_req = req, wt_drop = False\<rparr>]\<rparr>) c)
       = add_mset (req_hdr req) (dc_pending c)"
  using dc_pending_mshr [OF assms(1), of "\<lambda>m. m\<lparr>dm_waiters := dm_waiters m @ [\<lparr>wt_req = req, wt_drop = False\<rparr>]\<rparr>"] assms
  by (simp add: mshr_hdrs_def waiter_hdrs_append waiter_hdrs_single add.commute)

lemma dc_store_hit_pending:
  "dc_pending (fst (dc_store_hit req s w (c, sh))) = add_mset (req_hdr req) (dc_pending c)"
  by (simp add: dc_store_hit_def Let_def dc_pending_def)

lemma dc_load_hit_pending:
  assumes "p < length (dc_hit_pend c)" "p < length (dc_pipe c)" "\<not> dp_valid (dc_pipe c ! p)"
  shows "dc_pending (fst (dc_load_hit req p s w (c, sh))) = add_mset (req_hdr req) (dc_pending c)"
proof -
  let ?c = "(dc_upd_way s w (\<lambda>x. x\<lparr>dw_lru := dc_lru_clock c\<rparr>) c)\<lparr>dc_lru_clock := dc_lru_clock c + 1\<rparr>"
  have c: "dc_pending ?c = dc_pending c" by (simp add: dc_pending_def)
  have "dc_pending (dc_set_pipe p \<lparr>dp_valid = True, dp_req = req\<rparr> ?c) = add_mset (req_hdr req) (dc_pending c)"
    using sum_list_update [OF assms(2), of pipe_hdrs "\<lparr>dp_valid = True, dp_req = req\<rparr>"] assms(3)
    by (simp add: dc_pending_def pipe_hdrs_def)
  moreover have "dc_pending (?c\<lparr>dc_hit_pend := (dc_hit_pend c)[p := \<lparr>dh_valid = True, dh_drop = False,
      dh_cycles_left = l, dh_resp = resp_of req v\<rparr>]\<rparr>) = add_mset (req_hdr req) (dc_pending c)"
    if "\<not> dh_valid (dc_hit_pend c ! p)" for l v
    using sum_list_update [OF assms(1), of hit_hdrs "\<lparr>dh_valid = True, dh_drop = False,
      dh_cycles_left = l, dh_resp = resp_of req v\<rparr>"] that
    by (simp add: dc_pending_def hit_hdrs_def)
  ultimately show ?thesis by (simp add: dc_load_hit_def Let_def)
qed

lemma dc_port_conserves:
  assumes s: "dc_shape c0" and p: "p < dc_ufp_ports c0"
  shows "dc_conserves c0 (fst (dc_port p (c0, sh)))"
proof (cases "dp_valid (dc_pipe c0 ! p)")
  case True
  define req where "req = dp_req (dc_pipe c0 ! p)"
  define c where "c = dc_set_pipe p ((dc_pipe c0 ! p)\<lparr>dp_valid := False\<rparr>) c0"
  have len: "p < length (dc_pipe c0)" "p < length (dc_hit_pend c0)" using s p by (simp_all add: dc_shape_def)
  have pend: "dc_pending c0 = add_mset (req_hdr req) (dc_pending c)"
    using dc_pending_clear_pipe [OF len(1) True] by (simp add: c_def req_def)
  have cs: "dc_shape c" "dc_ufp_ports c = dc_ufp_ports c0" "dc_mshr_count c = dc_mshr_count c0"
      "length (dc_mshrs c) = length (dc_mshrs c0)"
    using s by (auto simp: c_def dc_shape_def)
  have cons: "dc_conserves c0 c'"
    if "dc_pending c' = add_mset (req_hdr req) (dc_pending c)" "dc_ufp_ports c' = dc_ufp_ports c"
       "dc_mshr_count c' = dc_mshr_count c" "length (dc_mshrs c') = length (dc_mshrs c)"
       "length (dc_pipe c') = length (dc_pipe c)" "length (dc_hit_pend c') = length (dc_hit_pend c)"
       "dc_drain_mshr c' = dc_drain_mshr c" "\<forall>h \<in> set (dc_hit_pend c'). hit_is_load h" for c'
    using that cs pend by (simp add: dc_conserves_def dc_shape_def)
  have hl: "\<forall>h \<in> set (dc_hit_pend c). hit_is_load h" using cs(1) by (simp add: dc_shape_def)
  have miss: "dc_conserves c0 (dc_miss req st mi v c)" if "dc_allocMshr c = Some mi" for st mi v
    using first_idx_takeD [OF that [unfolded dc_allocMshr_def]]
    by (intro cons dc_miss_pending) (use hl in \<open>auto simp: dc_miss_def Let_def\<close>)
  have wait: "dc_conserves c0 (dc_upd_mshr i (\<lambda>m. m\<lparr>dm_waiters := dm_waiters m @ [\<lparr>wt_req = req, wt_drop = False\<rparr>]\<rparr>) c)"
    if "dc_findMshr la c = Some i" "\<not> dm_draining (dc_mshrs c ! i)" for la i
    using first_idx_takeD [OF that(1) [unfolded dc_findMshr_def]] that(2) hl
    by (intro cons dc_wait_pending) auto
  have st: "dc_conserves c0 (fst (dc_store_hit req i w (c, sh)))" for i w
    by (rule cons [OF dc_store_hit_pending]) (use hl in \<open>simp_all add: dc_store_hit_def Let_def\<close>)
  have ld: "dc_conserves c0 (fst (dc_load_hit req p i w (c, sh)))" if "\<not> rq_write req" for i w
  proof (rule cons [OF dc_load_hit_pending])
    show "\<forall>h \<in> set (dc_hit_pend (fst (dc_load_hit req p i w (c, sh)))). hit_is_load h"
      using hl that by (auto simp: dc_load_hit_def Let_def hit_is_load_def resp_of_def
          dest!: subsetD [OF set_update_subset_insert])
  qed (use len in \<open>simp_all add: dc_load_hit_def Let_def c_def\<close>)
  have step: "dc_port p (c0, sh) =
     (case dc_findMshr (lineAlign (rq_addr req) (dc_line_bytes c)) c of
        Some i \<Rightarrow> (let m = dc_mshrs c ! i in
          if dm_fill_ready m \<or> dm_draining m then (c0, sh)
          else if dc_mshr_waiters c \<le> length (dm_waiters m) then (c0, sh)
          else (dc_upd_mshr i (\<lambda>m. m\<lparr>dm_waiters := dm_waiters m @ [\<lparr>wt_req = req, wt_drop = False\<rparr>]\<rparr>) c, sh))
      | None \<Rightarrow>
        (case dc_findHit (dc_setIndex (rq_addr req) c) (dc_tagOf (rq_addr req) c) c of
           Some w \<Rightarrow> if rq_write req then dc_store_hit req (dc_setIndex (rq_addr req) c) w (c, sh)
             else dc_load_hit req p (dc_setIndex (rq_addr req) c) w (c, sh)
         | None \<Rightarrow>
           (case (dc_allocMshr c, dc_findVictim (dc_setIndex (rq_addr req) c) c) of
              (Some mi, Some victim) \<Rightarrow> (dc_miss req (dc_setIndex (rq_addr req) c) mi victim c, sh)
            | _ \<Rightarrow> (c0, sh))))"
    using True by (simp only: dc_port_def prod.case Let_def req_def c_def if_False not_True_eq_False)
  show ?thesis
    unfolding step using s wait miss st ld
    by (auto simp: Let_def dc_conserves_refl split: option.split)
qed (simp add: dc_port_def dc_conserves_refl [OF s])

lemma dc_processPipes_conserves:
  assumes "dc_shape c" shows "dc_conserves c (dc_processPipes c)"
proof -
  have "dc_conserves c (fst (fold dc_port ks (c, sh)))" if "\<forall>k \<in> set ks. k < dc_ufp_ports c" for ks sh
    using that assms
  proof (induction ks arbitrary: c sh)
    case (Cons k ks)
    obtain c1 sh1 where p: "dc_port k (c, sh) = (c1, sh1)" by (cases "dc_port k (c, sh)")
    have c1: "dc_conserves c c1" using dc_port_conserves [of c k sh] Cons.prems p by simp
    then have "dc_conserves c1 (fst (fold dc_port ks (c1, sh1)))"
      using Cons.prems by (intro Cons.IH) (auto simp: dc_conserves_def)
    with c1 p show ?case by (simp add: dc_conserves_trans)
  qed (simp add: dc_conserves_refl)
  then show ?thesis by (simp add: dc_processPipes_def)
qed

lemma dc_emit_port_conserves:
  assumes "dc_shape c" "p < dc_ufp_ports c"
  shows "dc_conserves c (dc_emit_port p c)"
proof -
  let ?h = "dc_hit_pend c ! p"
  have len: "p < length (dc_hit_pend c)" using assms by (simp add: dc_shape_def)
  have upd: "dc_conserves c (c\<lparr>dc_hit_pend := (dc_hit_pend c)[p := h], dc_resp_q := dc_resp_q c @ rs\<rparr>)"
    if "hit_hdrs ?h = hit_hdrs h + mset (map resp_hdr rs)" "hit_is_load h" for h rs
    using sum_list_update [OF len, of hit_hdrs h] that assms(1)
    by (auto simp: dc_conserves_def dc_pending_def dc_shape_def ac_simps dest!: subsetD [OF set_update_subset_insert])
  show ?thesis
  proof (cases "dh_valid ?h")
    case True
    define h' where "h' = (if 0 < dh_cycles_left ?h then ?h\<lparr>dh_cycles_left := dh_cycles_left ?h - 1\<rparr> else ?h)"
    have h': "hit_hdrs h' = hit_hdrs ?h" "dh_drop h' = dh_drop ?h" "dh_resp h' = dh_resp ?h"
      by (simp_all add: h'_def hit_hdrs_def)
    have "hit_hdrs ?h = hit_hdrs dhit0 + mset (map resp_hdr (if dh_drop h' then [] else [dh_resp h']))"
      using True h' by (simp add: hit_hdrs_def dhit0_def)
    then have b: "dc_conserves c (c\<lparr>dc_hit_pend := (dc_hit_pend c)[p := dhit0],
        dc_resp_q := dc_resp_q c @ (if dh_drop h' then [] else [dh_resp h'])\<rparr>)"
      by (rule upd) (simp add: hit_is_load_def dhit0_def)
    have "hit_is_load ?h" using assms(1) len by (simp add: dc_shape_def)
    then have l: "hit_is_load h'" by (simp add: h'_def hit_is_load_def)
    have a: "dc_conserves c (c\<lparr>dc_hit_pend := (dc_hit_pend c)[p := h'], dc_resp_q := dc_resp_q c @ []\<rparr>)"
      by (rule upd) (simp_all add: h' l)
    have "dc_emit_port p c = (if dh_cycles_left h' \<noteq> 0
       then c\<lparr>dc_hit_pend := (dc_hit_pend c)[p := h'], dc_resp_q := dc_resp_q c @ []\<rparr>
       else c\<lparr>dc_hit_pend := (dc_hit_pend c)[p := dhit0],
              dc_resp_q := dc_resp_q c @ (if dh_drop h' then [] else [dh_resp h'])\<rparr>)"
      using True by (simp add: dc_emit_port_def Let_def h'_def)
    then show ?thesis using a b by (simp only: split: if_split) blast
  qed (simp add: dc_emit_port_def dc_conserves_refl assms)
qed

lemma dc_completeFill_conserves:
  assumes s: "dc_shape c" and i: "i < length (dc_mshrs c)"
  shows "dc_conserves c (dc_completeFill i c)"
proof (cases "\<not> dm_fill_ready (dc_mshrs c ! i) \<or> dm_draining (dc_mshrs c ! i)")
  case True
  then show ?thesis by (simp add: dc_completeFill_def Let_def dc_conserves_refl s)
next
  case False
  then have "dc_pending (dc_completeFill i c) = dc_pending c"
    using i unfolding dc_completeFill_def Let_def dc_startDrain_def
    by (simp add: dc_pending_def sum_list_update_same mshr_hdrs_def)
  then show ?thesis using s i
    by (auto simp: dc_conserves_def dc_shape_def dc_completeFill_def Let_def dc_startDrain_def split: option.splits)
qed

lemma drain_scan_spec:
  "drain_scan k ws = (k', wo) \<Longrightarrow> k \<le> k' \<and> k' \<le> k + length ws
   \<and> waiter_hdrs ws = (case wo of None \<Rightarrow> {#} | Some w \<Rightarrow> {#req_hdr (wt_req w)#}) + waiter_hdrs (drop (k' - k) ws)"
proof (induction ws arbitrary: k)
  case (Cons w ws)
  show ?case
  proof (cases "wt_drop w")
    case True
    with Cons have "Suc k \<le> k'" "k' \<le> Suc k + length ws"
      "waiter_hdrs ws = (case wo of None \<Rightarrow> {#} | Some w \<Rightarrow> {#req_hdr (wt_req w)#}) + waiter_hdrs (drop (k' - Suc k) ws)"
      by fastforce+
    moreover from this have "k' - k = Suc (k' - Suc k)" by simp
    then have "drop (k' - k) (w # ws) = drop (k' - Suc k) ws" by simp
    ultimately show ?thesis using True by (simp add: waiter_hdrs_def)
  qed (use Cons.prems in \<open>auto simp: waiter_hdrs_def\<close>)
qed (auto simp: waiter_hdrs_def)

lemma dc_drain_target_less: "dc_shape c \<Longrightarrow> dc_drain_target c = Some i \<Longrightarrow> i < length (dc_mshrs c)"
  by (auto simp: dc_drain_target_def dc_shape_def split: option.splits dest: first_idx_takeD)

lemma dc_stepDrain_conserves:
  assumes s: "dc_shape c" shows "dc_conserves c (dc_stepDrain c)"
proof (cases "dc_drain_target c")
  case None
  then show ?thesis by (simp add: dc_stepDrain_def dc_conserves_refl s)
next
  case (Some i)
  note i = dc_drain_target_less [OF s Some]
  let ?m = "dc_mshrs c ! i"
  show ?thesis
  proof (cases "dm_valid ?m \<and> dm_draining ?m")
    case False
    then show ?thesis using Some s by (auto simp: dc_stepDrain_def dc_conserves_def dc_pending_def dc_shape_def Let_def)
  next
    case True
    obtain k wo where d: "drain_scan (dm_drain_idx ?m) (drop (dm_drain_idx ?m) (dm_waiters ?m)) = (k, wo)"
      by (cases "drain_scan (dm_drain_idx ?m) (drop (dm_drain_idx ?m) (dm_waiters ?m))")
    let ?out = "case wo of None \<Rightarrow> [] | Some w \<Rightarrow> [drain_resp (dc_line_bytes c) ?m w]"
    have "waiter_hdrs (drop (dm_drain_idx ?m) (dm_waiters ?m)) = mset (map resp_hdr ?out) + waiter_hdrs (drop k (dm_waiters ?m))"
      using drain_scan_spec [OF d] by (cases wo) (simp_all add: drop_drop)
    then have h: "mshr_hdrs ?m = mset (map resp_hdr ?out) + mshr_hdrs (?m\<lparr>dm_drain_idx := k\<rparr>)"
      using True by (simp add: mshr_hdrs_def)
    have z: "mshr_hdrs (?m\<lparr>dm_drain_idx := k\<rparr>) = mshr_hdrs dmshr0" if "length (dm_waiters ?m) \<le> k"
      using that True by (simp add: mshr_hdrs_def dmshr0_def waiter_hdrs_def)
    let ?c1 = "(dc_upd_mshr i (\<lambda>m. m\<lparr>dm_drain_idx := k\<rparr>) (c\<lparr>dc_drain_mshr := Some i\<rparr>))\<lparr>dc_resp_q := dc_resp_q c @ ?out\<rparr>"
    have e: "dc_stepDrain c = (if length (dm_waiters ?m) \<le> k
         then (dc_upd_mshr i (\<lambda>_. dmshr0) ?c1)\<lparr>dc_drain_mshr := None\<rparr> else ?c1)"
      using True by (cases wo) (simp_all add: dc_stepDrain_def Some Let_def d)
    have c1: "dc_pending ?c1 = dc_pending c"
      using sum_list_update [OF i, of mshr_hdrs "?m\<lparr>dm_drain_idx := k\<rparr>"] h
      by (simp add: dc_pending_def ac_simps)
    have "dc_pending (dc_upd_mshr i (\<lambda>_. dmshr0) ?c1) = dc_pending ?c1" if "length (dm_waiters ?m) \<le> k"
      using z [OF that] i by (intro dc_pending_upd_mshr) simp
    then have "dc_pending (dc_stepDrain c) = dc_pending c" using c1 unfolding e by (simp add: dc_pending_def)
    then show ?thesis using s i unfolding e by (auto simp: dc_conserves_def dc_shape_def)
  qed
qed

lemma dc_tickEnd_conserves:
  assumes s: "dc_shape c" shows "dc_conserves c (dc_tickEnd c)"
proof -
  let ?c1 = "fold dc_emit_port [0..<length (dc_hit_pend c)] c"
  have c1: "dc_conserves c ?c1"
    using s by (intro dc_conserves_fold dc_emit_port_conserves) (auto simp: dc_shape_def)
  let ?c2 = "dc_processPipes ?c1"
  have c2: "dc_conserves ?c1 ?c2" using c1 by (intro dc_processPipes_conserves) (simp add: dc_conserves_def)
  have "dc_conserves d (dc_complete_ready k d)"
    if "k \<in> set [0..<dc_mshr_count ?c2]" "dc_shape d" "dc_mshr_count d = dc_mshr_count ?c2" for k d
    using that dc_completeFill_conserves [of d k]
    by (auto simp: dc_complete_ready_def dc_conserves_refl dc_shape_def)
  then have c3: "dc_conserves ?c2 (fold dc_complete_ready [0..<dc_mshr_count ?c2] ?c2)"
    using c2 by (intro dc_conserves_fold) (auto simp: dc_conserves_def)
  then show ?thesis
    using c1 c2 dc_stepDrain_conserves unfolding dc_tickEnd_def Let_def
    by (meson dc_conserves_trans dc_conserves_def)
qed

lemma dc_dramResp_conserves:
  assumes "dc_shape c" "dc_dramResp i l c = Some c'" shows "dc_conserves c c'"
proof -
  have f: "dc_conserves d d'" if "dc_shape d" "dc_fill i l d = Some d'" for d d'
    using that by (auto simp: dc_fill_def dc_conserves_def dc_shape_def dc_pending_upd_mshr mshr_hdrs_def split: if_splits)
  have w: "dc_conserves d (dc_upd_mshr i (\<lambda>m. m\<lparr>dm_wb_done := True\<rparr>) d)" if "dc_shape d" for d
    using that by (auto simp: dc_conserves_def dc_shape_def dc_pending_upd_mshr mshr_hdrs_def)
  let ?d = "c\<lparr>dc_dram_mshr := None, dc_dram_is_wb := False\<rparr>"
  have d: "dc_conserves c ?d" using assms(1) by (simp add: dc_conserves_def dc_shape_def dc_pending_def)
  then have sd: "dc_shape ?d" by (simp add: dc_conserves_def)
  show ?thesis
    using assms f [OF assms(1)] f [OF sd] w [OF assms(1)] w [OF sd] dc_conserves_trans [OF d] dc_conserves_refl
    by (auto simp: dc_dramResp_def Let_def split: if_splits)
qed

lemma dc_dramReqAccepted_conserves: "dc_shape c \<Longrightarrow> dc_conserves c (dc_dramReqAccepted c)"
  by (auto simp: dc_dramReqAccepted_def dc_conserves_def dc_shape_def dc_pending_def sum_list_update_same mshr_hdrs_def
      split: option.splits)

lemma dc_tickBegin_conserves: "dc_shape c \<Longrightarrow> dc_conserves c (dc_tickBegin c)"
  by (simp add: dc_tickBegin_def dc_conserves_def dc_shape_def dc_pending_def)

lemma dc_tryCpuReq_pending:
  assumes s: "dc_shape c"
  shows "dc_shape (snd (dc_tryCpuReq req c))
    \<and> dc_pending (snd (dc_tryCpuReq req c)) = (if fst (dc_tryCpuReq req c) then {#req_hdr req#} else {#}) + dc_pending c"
proof (cases "dc_freePipePort c")
  case (Some p)
  have "p < dc_ufp_ports c" "\<not> dp_valid (dc_pipe c ! p)"
    using first_idx_SomeD [OF Some [unfolded dc_freePipePort_def]] by auto
  moreover from this have "p < length (dc_pipe c)" using s by (simp add: dc_shape_def)
  ultimately show ?thesis
    using s Some sum_list_update [of p "dc_pipe c" pipe_hdrs "\<lparr>dp_valid = True, dp_req = req\<rparr>"]
    by (simp add: dc_tryCpuReq_def dc_shape_def dc_pending_def pipe_hdrs_def)
qed (simp add: dc_tryCpuReq_def s)

lemma dc_pop_pending:
  "dc_shape c \<Longrightarrow> dc_shape (snd (dc_popCpuResps c)) \<and> dc_pending c = mset (map resp_hdr (fst (dc_popCpuResps c))) + dc_pending (snd (dc_popCpuResps c))"
proof -
  assume s: "dc_shape c"
  have "mset (map resp_hdr q) = mset (map resp_hdr (take n q)) + mset (map resp_hdr (drop n q))" for n q
    by (metis append_take_drop_id map_append mset_append)
  from this [of "dc_resp_q c" "dc_max_resp c"] s show ?thesis
    by (simp add: dc_popCpuResps_def dc_shape_def dc_pending_def ac_simps)
qed

text \<open>Flushing loads keeps every store and drops every load that is not yet answered.\<close>

definition store_hdr :: "header \<Rightarrow> bool" where
  "store_hdr h = snd (snd h)"

lemma filter_sum_list: "filter_mset P (sum_list (map f xs)) = sum_list (map (\<lambda>x. filter_mset P (f x)) xs)"
  by (induction xs) auto

lemma waiter_flush:
  "waiter_hdrs (map drop_load_waiter ws) = filter_mset store_hdr (waiter_hdrs ws)"
  by (induction ws) (auto simp: waiter_hdrs_def drop_load_waiter_def store_hdr_def req_hdr_def)

lemma dc_flush_pending:
  assumes s: "dc_shape c"
  shows "dc_shape (dc_flushLoads c) \<and> dc_pending (dc_flushLoads c) = filter_mset store_hdr (dc_pending c)"
proof -
  have p: "pipe_hdrs (if dp_valid p \<and> \<not> rq_write (dp_req p) then dpipe0 else p) = filter_mset store_hdr (pipe_hdrs p)" for p
    by (simp add: pipe_hdrs_def dpipe0_def store_hdr_def req_hdr_def)
  have h: "hit_hdrs (if dh_valid h then h\<lparr>dh_drop := True\<rparr> else h) = filter_mset store_hdr (hit_hdrs h)"
    if "hit_is_load h" for h
    using that by (simp add: hit_hdrs_def hit_is_load_def store_hdr_def resp_hdr_def)
  have m: "mshr_hdrs (if dm_valid m then m\<lparr>dm_waiters := map drop_load_waiter (dm_waiters m)\<rparr> else m)
      = filter_mset store_hdr (mshr_hdrs m)" for m
    by (simp add: mshr_hdrs_def waiter_flush drop_map)
  have q: "mset (map resp_hdr (filter rp_is_write q)) = filter_mset store_hdr (mset (map resp_hdr q))" for q
    by (induction q) (auto simp: store_hdr_def resp_hdr_def)
  have "\<forall>x \<in> set (dc_hit_pend c). hit_is_load x" using s by (simp add: dc_shape_def)
  then have hs: "sum_list (map (hit_hdrs \<circ> (\<lambda>h. if dh_valid h then h\<lparr>dh_drop := True\<rparr> else h)) (dc_hit_pend c))
      = sum_list (map (\<lambda>x. filter_mset store_hdr (hit_hdrs x)) (dc_hit_pend c))"
    using h by (intro arg_cong [of _ _ sum_list] map_cong) auto
  have "dc_pending (dc_flushLoads c) = filter_mset store_hdr (dc_pending c)"
    using hs q [of "dc_resp_q c"]
    by (simp add: dc_pending_def dc_flushLoads_def filter_sum_list comp_def p m)
  moreover have "dc_shape (dc_flushLoads c)"
    using s by (auto simp: dc_shape_def dc_flushLoads_def hit_is_load_def)
  ultimately show ?thesis by simp
qed

text \<open>Any sequence of operations on the cache, whatever the memory answers and when.\<close>

datatype DcOp = DReq DataMemReq | DTickBegin | DTickEnd | DAccepted | DDramResp nat "u8 list" | DPop | DFlush

text \<open>The cache, the headers accepted and the headers answered so far.\<close>

fun dc_op :: "DcOp \<Rightarrow> DCache \<times> header multiset \<times> header multiset \<Rightarrow> (DCache \<times> header multiset \<times> header multiset) option" where
  "dc_op (DReq r) (c, acc, ans) = (case dc_tryCpuReq r c of (ok, c') \<Rightarrow>
     Some (c', (if ok then add_mset (req_hdr r) acc else acc), ans))"
| "dc_op DTickBegin (c, acc, ans) = Some (dc_tickBegin c, acc, ans)"
| "dc_op DTickEnd (c, acc, ans) = Some (dc_tickEnd c, acc, ans)"
| "dc_op DAccepted (c, acc, ans) = Some (dc_dramReqAccepted c, acc, ans)"
| "dc_op (DDramResp i l) (c, acc, ans) = map_option (\<lambda>c'. (c', acc, ans)) (dc_dramResp i l c)"
| "dc_op DPop (c, acc, ans) = (case dc_popCpuResps c of (rs, c') \<Rightarrow> Some (c', acc, ans + mset (map resp_hdr rs)))"
| "dc_op DFlush (c, acc, ans) = Some (dc_flushLoads c, acc, ans)"

fun dc_ops :: "DcOp list \<Rightarrow> DCache \<times> header multiset \<times> header multiset \<Rightarrow> (DCache \<times> header multiset \<times> header multiset) option" where
  "dc_ops [] x = Some x"
| "dc_ops (a # as) x = (case dc_op a x of None \<Rightarrow> None | Some y \<Rightarrow> dc_ops as y)"

definition dc_accounted :: "bool \<Rightarrow> DCache \<times> header multiset \<times> header multiset \<Rightarrow> bool" where
  "dc_accounted flushed = (\<lambda>(c, acc, ans). dc_shape c
     \<and> ans + dc_pending c \<subseteq># acc
     \<and> filter_mset store_hdr (ans + dc_pending c) = filter_mset store_hdr acc
     \<and> (\<not> flushed \<longrightarrow> ans + dc_pending c = acc))"

lemma dc_accounted_op:
  assumes a: "dc_accounted f x" and o: "dc_op a x = Some y"
  shows "dc_accounted (f \<or> a = DFlush) y"
proof -
  obtain c acc ans where x: "x = (c, acc, ans)" by (cases x)
  have s: "dc_shape c" using a by (simp add: dc_accounted_def x)
  have cons: "dc_accounted f (c', acc, ans)" if "dc_conserves c c'" for c'
    using that a by (simp add: dc_accounted_def x dc_conserves_def)
  show ?thesis
  proof (cases a)
    case (DReq r)
    then have y: "y = (snd (dc_tryCpuReq r c), (if fst (dc_tryCpuReq r c) then add_mset (req_hdr r) acc else acc), ans)"
      using o by (simp add: x case_prod_beta)
    show ?thesis using a dc_tryCpuReq_pending [OF s, of r] DReq
      by (auto simp: dc_accounted_def x y)
  next
    case (DDramResp i l)
    then obtain c' where "dc_dramResp i l c = Some c'" "y = (c', acc, ans)" using o by (auto simp: x)
    then show ?thesis using cons dc_dramResp_conserves [OF s] DDramResp by simp
  next
    case DPop
    then have y: "y = (snd (dc_popCpuResps c), acc, ans + mset (map resp_hdr (fst (dc_popCpuResps c))))"
      using o by (simp add: x case_prod_beta)
    show ?thesis using a dc_pop_pending [OF s] DPop by (auto simp: dc_accounted_def x y ac_simps)
  next
    case DFlush
    have le: "ans + filter_mset store_hdr (dc_pending c) \<subseteq># ans + dc_pending c" by simp
    have "ans + filter_mset store_hdr (dc_pending c) \<subseteq># acc"
      using a subset_mset.order_trans [OF le] by (simp add: dc_accounted_def x)
    moreover have "filter_mset store_hdr (filter_mset store_hdr p) = filter_mset store_hdr p" for p
      by (simp add: filter_filter_mset)
    ultimately show ?thesis
      using a o dc_flush_pending [OF s] DFlush by (auto simp: dc_accounted_def x)
  qed (use o cons dc_tickBegin_conserves [OF s] dc_tickEnd_conserves [OF s] dc_dramReqAccepted_conserves [OF s] in
      \<open>simp_all add: x, auto\<close>)
qed

lemma dc_accounted_ops:
  "dc_accounted f x \<Longrightarrow> dc_ops as x = Some y \<Longrightarrow> dc_accounted (f \<or> DFlush \<in> set as) y"
proof (induction as arbitrary: f x)
  case (Cons a as)
  then obtain z where z: "dc_op a x = Some z" "dc_ops as z = Some y" by (auto split: option.splits)
  from Cons.IH [OF dc_accounted_op [OF Cons.prems(1) z(1)] z(2)] show ?case by (simp add: disj_assoc eq_commute)
qed simp

lemma dc_init_shape: "dc_init lb sets ways n p w l = Some c \<Longrightarrow> dc_shape c \<and> dc_pending c = {#}"
proof -
  assume "dc_init lb sets ways n p w l = Some c"
  then have c: "dc_pipe c = replicate (dc_ufp_ports c) dpipe0" "dc_hit_pend c = replicate (dc_ufp_ports c) dhit0"
      "dc_mshrs c = replicate (length (dc_mshrs c)) dmshr0" "dc_resp_q c = []"
      "dc_mshr_count c \<le> length (dc_mshrs c)" "0 < dc_ufp_ports c" "dc_drain_mshr c = None"
    by (auto simp: dc_init_def Let_def split: if_splits)
  have z: "sum_list (replicate k ({#} :: header multiset)) = {#}" for k by (induction k) auto
  have "pipe_hdrs dpipe0 = {#}" "hit_hdrs dhit0 = {#}" "mshr_hdrs dmshr0 = {#}" "hit_is_load dhit0"
    by (simp_all add: dpipe0_def dhit0_def dmshr0_def pipe_hdrs_def hit_hdrs_def mshr_hdrs_def hit_is_load_def)
  then have "\<forall>h \<in> set (dc_hit_pend c). hit_is_load h"
    and "sum_list (map pipe_hdrs (dc_pipe c)) = {#}" "sum_list (map hit_hdrs (dc_hit_pend c)) = {#}"
      "sum_list (map mshr_hdrs (dc_mshrs c)) = {#}"
    using z by (simp_all add: c(2), simp_all add: c(1) c(2), subst c(3), simp)
  then show ?thesis using c(4-7) arg_cong [OF c(1), of length] arg_cong [OF c(2), of length]
    by (simp add: dc_shape_def dc_pending_def)
qed

text \<open>
  C36: The data cache answers every accepted request exactly once. From a fresh cache, after any
  sequence of requests, ticks, memory handshakes, memory responses (arbitrary ones), pops and
  flushes: what has been answered together with what is still pending is exactly what was
  accepted as long as nothing was flushed; flushing only ever drops loads, so the stores
  answered and pending are always exactly the stores accepted, and nothing is ever answered
  that was not asked.
\<close>

theorem dcache_answers_once:
  assumes "dc_init lb sets ways n p w l = Some c0" "dc_ops as (c0, {#}, {#}) = Some (c, acc, ans)"
  shows "ans + dc_pending c \<subseteq># acc
    \<and> filter_mset store_hdr (ans + dc_pending c) = filter_mset store_hdr acc
    \<and> (DFlush \<notin> set as \<longrightarrow> ans + dc_pending c = acc)"
proof -
  have "dc_accounted False (c0, {#}, {#})"
    using dc_init_shape [OF assms(1)] by (simp add: dc_accounted_def)
  from dc_accounted_ops [OF this assms(2)] show ?thesis by (simp add: dc_accounted_def)
qed

lemma dcache_answers_once_witness:
  "\<exists>c0 c acc ans. dc_init 32 16 4 4 2 4 1 = Some c0
    \<and> dc_ops [DReq (req0\<lparr>rq_write := True, rq_id := 7\<rparr>), DTickBegin, DTickEnd, DAccepted, DReq req0, DTickEnd, DPop]
        (c0, {#}, {#}) = Some (c, acc, ans)
    \<and> ans + dc_pending c = acc"
proof -
  obtain c0 where i: "dc_init 32 16 4 4 2 4 1 = Some c0" by (simp add: dc_init_def Let_def)
  let ?as = "[DReq (req0\<lparr>rq_write := True, rq_id := 7\<rparr>), DTickBegin, DTickEnd, DAccepted, DReq req0, DTickEnd, DPop]"
  obtain c acc ans where r: "dc_ops ?as (c0, {#}, {#}) = Some (c, acc, ans)"
    by (simp add: case_prod_beta)
  have "DFlush \<notin> set ?as" by simp
  with dcache_answers_once [OF i r] i r show ?thesis by blast
qed

end
