(* ===== verification/MemorySystem.thy ===== *)
theory MemorySystem
  imports ICache DCache
begin

text \<open>
  The two memory systems of \<open>src/mem/memory_system.cpp\<close>: the ideal one, which answers data
  requests at once out of \<open>MainMemory\<close>, and the cached one, which composes the two caches with
  the DRAM, arbitrates their requests (data before instructions) and routes the responses by
  the client number in the DRAM identifier. \<open>MainMemory\<close> is threaded explicitly.
\<close>

section \<open>Ideal memory\<close>

record IdealMemorySystem =
  id_fetch_width :: nat
  id_imem_pending :: bool
  id_imem_pc :: u32
  id_imem_resp :: "ImemResp option"
  id_data_resps :: "DataMemResp list"

definition ideal_init :: "int \<Rightarrow> IdealMemorySystem" where
  "ideal_init fetch_width = \<lparr>id_fetch_width = (if fetch_width > 0 then nat fetch_width else 1),
     id_imem_pending = False, id_imem_pc = 0, id_imem_resp = None, id_data_resps = []\<rparr>"

definition ideal_reset :: "IdealMemorySystem \<Rightarrow> IdealMemorySystem" where
  "ideal_reset s = s\<lparr>id_imem_pending := False, id_imem_resp := None, id_data_resps := []\<rparr>"

text \<open>A pending instruction request is dropped: the processor fetches from its own image instead.\<close>

definition ideal_tick :: "IdealMemorySystem \<Rightarrow> IdealMemorySystem" where
  "ideal_tick s = (if id_imem_pending s \<and> id_imem_resp s = None then s\<lparr>id_imem_pending := False\<rparr> else s)"

definition ideal_tryDataReq ::
    "DataMemReq \<Rightarrow> IdealMemorySystem \<Rightarrow> i32 list \<Rightarrow> bool \<times> IdealMemorySystem \<times> i32 list" where
  "ideal_tryDataReq req s mem =
    (let idx = unat (drop_bit 2 (rq_addr req));
         mem' = (if rq_write req \<and> idx < length mem
                 then mem[idx := mergeBytes (mem ! idx) (rq_wdata req) (rq_wstrb req)] else mem);
         v = (if rq_write req then 0 else if idx < length mem then mem ! idx else 0)
     in (True, s\<lparr>id_data_resps := id_data_resps s @ [resp_of req v]\<rparr>, mem'))"

definition ideal_popDataResps :: "IdealMemorySystem \<Rightarrow> DataMemResp list \<times> IdealMemorySystem" where
  "ideal_popDataResps s = (id_data_resps s, s\<lparr>id_data_resps := []\<rparr>)"

definition ideal_tryImemReq :: "u32 \<Rightarrow> IdealMemorySystem \<Rightarrow> bool \<times> IdealMemorySystem" where
  "ideal_tryImemReq pc s = (if id_imem_pending s \<or> id_imem_resp s \<noteq> None then (False, s)
     else (True, s\<lparr>id_imem_pending := True, id_imem_pc := pc\<rparr>))"

definition ideal_popImemResp :: "IdealMemorySystem \<Rightarrow> ImemResp option \<times> IdealMemorySystem" where
  "ideal_popImemResp s = (id_imem_resp s, s\<lparr>id_imem_resp := None\<rparr>)"

section \<open>Cached memory\<close>

record CachedMemConfig =
  cf_fetch_width :: int
  cf_line_bytes :: nat
  cf_d_sets :: nat
  cf_d_ways :: nat
  cf_d_mshr :: nat
  cf_d_ufp :: int
  cf_d_mshr_waiters :: int
  cf_i_sets :: nat
  cf_i_ways :: nat
  cf_i_mshr :: nat
  cf_dram_outstanding :: int
  cf_dram_lat :: int
  cf_load_hit_latency :: int
  cf_fetch_hit_latency :: int

definition cached_config0 :: CachedMemConfig where
  "cached_config0 = \<lparr>cf_fetch_width = 4, cf_line_bytes = 32, cf_d_sets = 16, cf_d_ways = 4, cf_d_mshr = 4,
     cf_d_ufp = 2, cf_d_mshr_waiters = 4, cf_i_sets = 16, cf_i_ways = 4, cf_i_mshr = 2,
     cf_dram_outstanding = 4, cf_dram_lat = 10, cf_load_hit_latency = 1, cf_fetch_hit_latency = 1\<rparr>"

record CachedMemorySystem =
  cm_line_bytes :: nat
  cm_dram :: DramSimple
  cm_dcache :: DCache
  cm_icache :: ICache

definition cached_init :: "CachedMemConfig \<Rightarrow> CachedMemorySystem option" where
  "cached_init cfg = do {
     d \<leftarrow> dram_init (cf_line_bytes cfg) (cf_dram_outstanding cfg) (cf_dram_lat cfg);
     dc \<leftarrow> dc_init (cf_line_bytes cfg) (cf_d_sets cfg) (cf_d_ways cfg) (cf_d_mshr cfg) (cf_d_ufp cfg)
            (cf_d_mshr_waiters cfg) (cf_load_hit_latency cfg);
     Some \<lparr>cm_line_bytes = cf_line_bytes cfg, cm_dram = d, cm_dcache = dc,
       cm_icache = ic_init (cf_line_bytes cfg) (cf_i_sets cfg) (cf_i_ways cfg) (cf_i_mshr cfg)
         (cf_fetch_width cfg) (cf_fetch_hit_latency cfg)\<rparr> }"

definition cached_setInstrMem :: "u32 list option \<Rightarrow> CachedMemorySystem \<Rightarrow> CachedMemorySystem" where
  "cached_setInstrMem im s = s\<lparr>cm_dram := dram_setInstrMem im (cm_dram s)\<rparr>"

definition cached_flushOnRedirect :: "CachedMemorySystem \<Rightarrow> CachedMemorySystem" where
  "cached_flushOnRedirect s = s\<lparr>cm_icache := ic_flush (cm_icache s)\<rparr>"

definition cached_flushDcacheLoads :: "CachedMemorySystem \<Rightarrow> CachedMemorySystem" where
  "cached_flushDcacheLoads s = s\<lparr>cm_dcache := dc_flushLoads (cm_dcache s)\<rparr>"

definition cached_writebackDirty :: "CachedMemorySystem \<Rightarrow> i32 list \<Rightarrow> CachedMemorySystem \<times> i32 list" where
  "cached_writebackDirty s mem = (case dc_writebackDirtyToMemory (cm_dcache s) mem of
     (dc, mem') \<Rightarrow> (s\<lparr>cm_dcache := dc\<rparr>, mem'))"

definition cached_reset :: "CachedMemorySystem \<Rightarrow> CachedMemorySystem" where
  "cached_reset s = s\<lparr>cm_dram := dram_reset (cm_dram s), cm_dcache := dc_reset (cm_dcache s),
     cm_icache := ic_reset (cm_icache s)\<rparr>"

text \<open>DRAM identifiers: the client in bits 16 and up, the miss register below.\<close>

definition kDramClientD :: int where "kDramClientD = 0"

definition kDramClientI :: int where "kDramClientI = 1"

definition make_dram_id :: "int \<Rightarrow> nat \<Rightarrow> int" where
  "make_dram_id client mid = push_bit 16 client OR (int mid AND 0xFFFF)"

definition dram_client :: "int \<Rightarrow> int" where
  "dram_client i = drop_bit 16 i AND 0xFFFF"

definition dram_mid :: "int \<Rightarrow> nat" where
  "dram_mid i = nat (i AND 0xFFFF)"

definition arbitrateToDram :: "i32 list \<Rightarrow> CachedMemorySystem \<Rightarrow> CachedMemorySystem option" where
  "arbitrateToDram mem s =
    (if dc_hasDramReq (cm_dcache s)
     then (case dram_tryAccept (dc_dramReqIsWrite (cm_dcache s)) (dc_dramReqAddr (cm_dcache s))
              (dc_dramReqData (cm_dcache s)) (make_dram_id kDramClientD (dc_dramReqId (cm_dcache s)))
              False mem (cm_dram s) of
             None \<Rightarrow> None
           | Some (ok, d) \<Rightarrow> Some (s\<lparr>cm_dram := d,
               cm_dcache := (if ok then dc_dramReqAccepted (cm_dcache s) else cm_dcache s)\<rparr>))
     else if ic_hasDramReq (cm_icache s)
     then (case dram_tryAccept False (ic_dramReqAddr (cm_icache s)) []
              (make_dram_id kDramClientI (ic_dramReqId (cm_icache s))) True mem (cm_dram s) of
             None \<Rightarrow> None
           | Some (ok, d) \<Rightarrow> Some (s\<lparr>cm_dram := d,
               cm_icache := (if ok then ic_dramReqAccepted (cm_icache s) else cm_icache s)\<rparr>))
     else Some s)"

definition routeDramResps :: "CachedMemorySystem \<Rightarrow> CachedMemorySystem option" where
  "routeDramResps s = (case dram_tryPopResp (cm_dram s) of
     None \<Rightarrow> Some s
   | Some (dram_id, line, d) \<Rightarrow>
      (if dram_client dram_id = kDramClientD
       then map_option (\<lambda>c. s\<lparr>cm_dram := d, cm_dcache := c\<rparr>) (dc_dramResp (dram_mid dram_id) line (cm_dcache s))
       else map_option (\<lambda>c. s\<lparr>cm_dram := d, cm_icache := c\<rparr>) (ic_dramResp (dram_mid dram_id) line (cm_icache s))))"

definition cached_tick :: "CachedMemorySystem \<Rightarrow> i32 list \<Rightarrow> (CachedMemorySystem \<times> i32 list) option" where
  "cached_tick s0 mem0 = (let
       s1 = s0\<lparr>cm_dcache := dc_tickBegin (cm_dcache s0)\<rparr>;
       (d, mem) = dram_tick (cm_dram s1) mem0
     in do {
       s2 \<leftarrow> routeDramResps (s1\<lparr>cm_dram := d\<rparr>);
       s3 \<leftarrow> arbitrateToDram mem s2;
       ic \<leftarrow> ic_tickEnd (cm_icache s3);
       Some (s3\<lparr>cm_dcache := dc_tickEnd (cm_dcache s3), cm_icache := ic\<rparr>, mem) })"

definition cached_tryDataReq :: "DataMemReq \<Rightarrow> CachedMemorySystem \<Rightarrow> bool \<times> CachedMemorySystem" where
  "cached_tryDataReq req s = (case dc_tryCpuReq req (cm_dcache s) of (ok, c) \<Rightarrow> (ok, s\<lparr>cm_dcache := c\<rparr>))"

definition cached_popDataResps :: "CachedMemorySystem \<Rightarrow> DataMemResp list \<times> CachedMemorySystem" where
  "cached_popDataResps s = (case dc_popCpuResps (cm_dcache s) of (rs, c) \<Rightarrow> (rs, s\<lparr>cm_dcache := c\<rparr>))"

definition cached_tryImemReq :: "u32 \<Rightarrow> CachedMemorySystem \<Rightarrow> bool \<times> CachedMemorySystem" where
  "cached_tryImemReq pc s = (case ic_tryCpuReq pc (cm_icache s) of (ok, c) \<Rightarrow> (ok, s\<lparr>cm_icache := c\<rparr>))"

definition cached_popImemResp :: "CachedMemorySystem \<Rightarrow> ImemResp option \<times> CachedMemorySystem" where
  "cached_popImemResp s = (case ic_popCpuResp (cm_icache s) of (r, c) \<Rightarrow> (r, s\<lparr>cm_icache := c\<rparr>))"

section \<open>The memory system a processor is given\<close>

datatype MemorySystem = NoMemory | IdealMemory IdealMemorySystem | CachedMemory CachedMemorySystem

text \<open>\<open>None\<close> is a call through the null pointer.\<close>

fun kind :: "MemorySystem \<Rightarrow> MemSystem option" where
  "kind NoMemory = None"
| "kind (IdealMemory s) = Some Ideal"
| "kind (CachedMemory s) = Some Cached"

fun tryDataReq :: "DataMemReq \<Rightarrow> MemorySystem \<Rightarrow> i32 list \<Rightarrow> (bool \<times> MemorySystem \<times> i32 list) option" where
  "tryDataReq req NoMemory mem = None"
| "tryDataReq req (IdealMemory s) mem = (case ideal_tryDataReq req s mem of (ok, s', mem') \<Rightarrow> Some (ok, IdealMemory s', mem'))"
| "tryDataReq req (CachedMemory s) mem = (case cached_tryDataReq req s of (ok, s') \<Rightarrow> Some (ok, CachedMemory s', mem))"

fun popDataResps :: "MemorySystem \<Rightarrow> (DataMemResp list \<times> MemorySystem) option" where
  "popDataResps NoMemory = None"
| "popDataResps (IdealMemory s) = (case ideal_popDataResps s of (rs, s') \<Rightarrow> Some (rs, IdealMemory s'))"
| "popDataResps (CachedMemory s) = (case cached_popDataResps s of (rs, s') \<Rightarrow> Some (rs, CachedMemory s'))"

fun memsys_tick :: "MemorySystem \<Rightarrow> i32 list \<Rightarrow> (MemorySystem \<times> i32 list) option" where
  "memsys_tick NoMemory mem = None"
| "memsys_tick (IdealMemory s) mem = Some (IdealMemory (ideal_tick s), mem)"
| "memsys_tick (CachedMemory s) mem = map_option (\<lambda>(s', mem'). (CachedMemory s', mem')) (cached_tick s mem)"

fun tryImemReq :: "u32 \<Rightarrow> MemorySystem \<Rightarrow> (bool \<times> MemorySystem) option" where
  "tryImemReq pc NoMemory = None"
| "tryImemReq pc (IdealMemory s) = (case ideal_tryImemReq pc s of (ok, s') \<Rightarrow> Some (ok, IdealMemory s'))"
| "tryImemReq pc (CachedMemory s) = (case cached_tryImemReq pc s of (ok, s') \<Rightarrow> Some (ok, CachedMemory s'))"

fun popImemResp :: "MemorySystem \<Rightarrow> (ImemResp option \<times> MemorySystem) option" where
  "popImemResp NoMemory = None"
| "popImemResp (IdealMemory s) = (case ideal_popImemResp s of (r, s') \<Rightarrow> Some (r, IdealMemory s'))"
| "popImemResp (CachedMemory s) = (case cached_popImemResp s of (r, s') \<Rightarrow> Some (r, CachedMemory s'))"

end
