(* ===== verification/MemoryAccess.thy ===== *)
theory MemoryAccess
  imports MemTypes
begin

text \<open>
  The byte-level helpers at the head of \<open>src/load_store_queue.cpp\<close>: word indices, byte-lane
  masks, the placement of store data in its word and the extraction of loads, for both kinds
  of addresses (byte addresses of hex programs, word indices of toy traces). The flag \<open>ba\<close> is
  the global \<open>MainMemoryByteAddressed\<close>.
\<close>

section \<open>Helpers\<close>

definition memWordIndex :: "bool \<Rightarrow> i32 \<Rightarrow> i32 list \<Rightarrow> nat" where
  "memWordIndex ba addr mem =
    (if ba then unat (drop_bit 2 addr)
     else if sint addr < 0 then length mem else nat (sint addr))"

definition memReadWord :: "bool \<Rightarrow> i32 \<Rightarrow> i32 list \<Rightarrow> u32" where
  "memReadWord ba addr mem = (let idx = memWordIndex ba addr mem in
     if length mem \<le> idx then 0 else mem ! idx)"

definition memWriteMasked :: "bool \<Rightarrow> i32 \<Rightarrow> u32 \<Rightarrow> u8 \<Rightarrow> i32 list \<Rightarrow> i32 list" where
  "memWriteMasked ba addr wdata wstrb mem = (let idx = memWordIndex ba addr mem in
     if length mem \<le> idx then mem else mem[idx := mergeBytes (mem ! idx) wdata wstrb])"

definition addrLow :: "bool \<Rightarrow> i32 \<Rightarrow> nat" where
  "addrLow ba addr = (if \<not> ba then 0 else unat (addr AND 3))"

definition sameWord :: "bool \<Rightarrow> i32 \<Rightarrow> i32 \<Rightarrow> bool" where
  "sameWord ba a b = (if \<not> ba then a = b else drop_bit 2 a = drop_bit 2 b)"

definition accessMask :: "bool \<Rightarrow> MemSize \<Rightarrow> i32 \<Rightarrow> u8" where
  "accessMask ba sz addr = (if \<not> ba then 0xF else let low = addrLow ba addr in
     (case sz of
        SZ_B \<Rightarrow> push_bit low 1
      | SZ_H \<Rightarrow> if 3 \<le> low then 8 else push_bit low 3
      | SZ_W \<Rightarrow> 0xF))"

definition storeWdata :: "bool \<Rightarrow> u32 \<Rightarrow> MemSize \<Rightarrow> i32 \<Rightarrow> u32" where
  "storeWdata ba v sz addr = (if \<not> ba then v else let low = addrLow ba addr in
     (case sz of
        SZ_B \<Rightarrow> push_bit (8 * low) (v AND 0xFF)
      | SZ_H \<Rightarrow> (let h = v AND 0xFFFF in if 3 \<le> low then push_bit 24 (h AND 0xFF) else push_bit (8 * low) h)
      | SZ_W \<Rightarrow> v))"

definition loadExtend :: "bool \<Rightarrow> u32 \<Rightarrow> MemSize \<Rightarrow> bool \<Rightarrow> i32 \<Rightarrow> i32" where
  "loadExtend ba word sz is_unsigned addr = (if \<not> ba then word else let low = addrLow ba addr in
     (case sz of
        SZ_B \<Rightarrow> (let b = ucast (drop_bit (8 * low) word) :: u8 in if is_unsigned then ucast b else scast b)
      | SZ_H \<Rightarrow> (let h = (if 3 \<le> low then ucast (drop_bit 24 word AND 0xFF)
                         else ucast (drop_bit (8 * low) word AND 0xFFFF)) :: u16
                in if is_unsigned then ucast h else scast h)
      | SZ_W \<Rightarrow> word))"

definition toMemsysAddr :: "bool \<Rightarrow> i32 \<Rightarrow> u32" where
  "toMemsysAddr ba addr = (if ba then addr else addr * 4)"

section \<open>Facts by byte lane\<close>

lemma addrLow_less: "addrLow ba a < 4"
proof -
  have "unat (a AND 3) < 4"
  proof -
    have "a AND 3 = a mod 4" using take_bit_eq_mask [of 2 a] by (simp add: take_bit_eq_mod mask_eq_exp_minus_1)
    then show ?thesis by (simp add: unat_mod)
  qed
  then show ?thesis by (simp add: addrLow_def)
qed

lemma lane_cases: "(k :: nat) < 4 \<Longrightarrow> k = 0 \<or> k = 1 \<or> k = 2 \<or> k = 3"
  by auto

text \<open>The bytes an access touches.\<close>

definition lanes :: "bool \<Rightarrow> MemSize \<Rightarrow> i32 \<Rightarrow> nat set" where
  "lanes ba sz a = (if \<not> ba then {0..<4} else
     (case sz of SZ_B \<Rightarrow> {addrLow ba a} | SZ_H \<Rightarrow> {addrLow ba a, addrLow ba a + 1} \<inter> {0..<4} | SZ_W \<Rightarrow> {0..<4}))"

lemma bit_mask15: "b < 4 \<Longrightarrow> bit (0xF :: u8) b"
  by (auto dest!: lane_cases simp: bit_1_iff)

lemma accessMask_lanes: "b < 4 \<Longrightarrow> bit (accessMask ba sz a) b \<longleftrightarrow> b \<in> lanes ba sz a"
proof -
  assume b: "b < 4"
  have "bit (push_bit k (1 :: u8)) b \<longleftrightarrow> b = k" "k < 3 \<Longrightarrow> bit (push_bit k (3 :: u8)) b \<longleftrightarrow> b = k \<or> b = k + 1"
    "bit (8 :: u8) b \<longleftrightarrow> b = 3" for k
  proof -
    have "(3 :: u8) = mask 2" by (simp add: mask_eq_exp_minus_1)
    then have three: "bit (push_bit k (3 :: u8)) b = bit (push_bit k (mask 2 :: u8)) b" by (rule arg_cong)
    show "bit (push_bit k (1 :: u8)) b \<longleftrightarrow> b = k" "k < 3 \<Longrightarrow> bit (push_bit k (3 :: u8)) b \<longleftrightarrow> b = k \<or> b = k + 1"
      "bit (8 :: u8) b \<longleftrightarrow> b = 3"
      using b unfolding three by (auto simp: bit_simps dest!: lane_cases)
  qed
  then show ?thesis
    using b addrLow_less [of ba a] bit_mask15 [OF b]
    by (auto simp: accessMask_def lanes_def Let_def not_le split: MemSize.splits)
qed
text \<open>A load depends only on the bytes it touches.\<close>

lemma bit_via_byte: "n < 32 \<Longrightarrow> bit (w :: u32) n \<longleftrightarrow> bit (byte_of w (n div 8)) (n mod 8)"
  by (simp add: bit_byte_of)

definition half_of :: "u32 \<Rightarrow> nat \<Rightarrow> u16" where
  "half_of w low = (if 3 \<le> low then ucast (drop_bit 24 w AND 0xFF) else ucast (drop_bit (8 * low) w AND 0xFFFF))"

lemma and_ff: "x AND 0xFF = take_bit 8 (x :: u32)" "x AND 0xFFFF = take_bit 16 x"
  using take_bit_eq_mask [of 8 x] take_bit_eq_mask [of 16 x] by (simp_all add: mask_eq_exp_minus_1)

lemma bit_half_of:
  assumes "low < 4" "n < 16"
  shows "bit (half_of w low) n \<longleftrightarrow> (if n < 8 then bit (byte_of w low) n
    else low < 3 \<and> bit (byte_of w (low + 1)) (n - 8))"
proof (cases "low = 3")
  case True
  then show ?thesis using assms(2) by (auto simp: half_of_def and_ff bit_simps bit_byte_of)
next
  case False
  then have "low < 3" using assms by simp
  then show ?thesis using assms(2) by (auto simp: half_of_def and_ff bit_simps bit_byte_of)
qed

lemma loadExtend_alt:
  "loadExtend True w sz u a = (let low = addrLow True a in
     (case sz of
        SZ_B \<Rightarrow> (if u then ucast (byte_of w low) else scast (byte_of w low))
      | SZ_H \<Rightarrow> (if u then ucast (half_of w low) else scast (half_of w low))
      | SZ_W \<Rightarrow> w))"
  by (simp add: loadExtend_def byte_of_def half_of_def Let_def split: MemSize.split)

lemma half_of_cong:
  assumes "low < 4" "byte_of w low = byte_of w' low" "low < 3 \<Longrightarrow> byte_of w (low + 1) = byte_of w' (low + 1)"
  shows "half_of w low = half_of w' low"
proof (rule bit_word_eqI)
  fix n assume "n < LENGTH(16)"
  then have "n < 16" by simp
  then show "bit (half_of w low) n = bit (half_of w' low) n"
    using assms by (auto simp: bit_half_of [OF assms(1)])
qed

lemma loadExtend_cong:
  assumes "\<And>b. b < 4 \<Longrightarrow> b \<in> lanes ba sz a \<Longrightarrow> byte_of w b = byte_of w' b"
  shows "loadExtend ba w sz u a = loadExtend ba w' sz u a"
proof (cases "\<not> ba \<or> sz = SZ_W")
  case True
  then have "w = w'" using assms by (intro word_eq_bytesI) (auto simp: lanes_def)
  then show ?thesis by simp
next
  case False
  note l = addrLow_less [of True a]
  show ?thesis
  proof (cases sz)
    case SZ_B
    then show ?thesis using False assms [of "addrLow True a"] l by (simp add: loadExtend_alt lanes_def Let_def)
  next
    case SZ_H
    have "half_of w (addrLow True a) = half_of w' (addrLow True a)"
      using assms [of "addrLow True a"] assms [of "addrLow True a + 1"] l False SZ_H
      by (intro half_of_cong) (auto simp: lanes_def)
    then show ?thesis using False SZ_H by (simp add: loadExtend_alt Let_def)
  qed (use False in simp)
qed

section \<open>A load after a store\<close>

lemma byte_storeWdata:
  assumes "b < 4" "b \<in> lanes True sz a"
  shows "byte_of (storeWdata True v sz a) b = byte_of v (if sz = SZ_W then b else b - addrLow True a)"
proof (rule bit_word_eqI)
  fix n assume "n < LENGTH(8)"
  then have n: "n < 8" by simp
  note l = addrLow_less [of True a]
  show "bit (byte_of (storeWdata True v sz a) b) n = bit (byte_of v (if sz = SZ_W then b else b - addrLow True a)) n"
  proof (cases sz)
    case SZ_B
    then show ?thesis using assms n l
      by (auto simp: bit_byte_of storeWdata_def lanes_def and_ff bit_simps Let_def)
  next
    case SZ_H
    then have b: "b = addrLow True a \<or> b = addrLow True a + 1" using assms by (simp add: lanes_def)
    show ?thesis
    proof (cases "addrLow True a = 3")
      case True
      then show ?thesis using assms n SZ_H b
        by (auto simp: bit_byte_of storeWdata_def lanes_def and_ff bit_simps Let_def)
    next
      case False
      then have "addrLow True a < 3" using l by simp
      then show ?thesis using assms n SZ_H b
        by (auto simp: bit_byte_of storeWdata_def lanes_def and_ff bit_simps Let_def)
    qed
  qed (simp add: storeWdata_def)
qed

definition stored_value :: "bool \<Rightarrow> u32 \<Rightarrow> MemSize \<Rightarrow> bool \<Rightarrow> i32 \<Rightarrow> i32" where
  "stored_value ba v sz u a = (if \<not> ba then v else
     (case sz of
        SZ_B \<Rightarrow> if u then ucast (ucast v :: u8) else scast (ucast v :: u8)
      | SZ_H \<Rightarrow> if addrLow ba a = 3 then ucast (ucast v :: u8)
               else if u then ucast (ucast v :: u16) else scast (ucast v :: u16)
      | SZ_W \<Rightarrow> v))"

lemma half_merge:
  assumes "low < 3"
    "byte_of w low = byte_of v 0" "byte_of w (low + 1) = byte_of v 1"
  shows "half_of w low = ucast v"
proof (rule bit_word_eqI)
  fix n assume "n < LENGTH(16)"
  then have n: "n < 16" by simp
  show "bit (half_of w low) n = bit (ucast v :: u16) n"
    using assms n by (auto simp: bit_half_of bit_byte_of bit_simps)
qed

lemma half_merge3:
  assumes "byte_of w 3 = byte_of v 0"
  shows "ucast (half_of w 3) = (ucast (ucast v :: u8) :: i32)" and "scast (half_of w 3) = (ucast (ucast v :: u8) :: i32)"
proof -
  have h: "half_of w 3 = ucast (ucast v :: u8)"
  proof (rule bit_word_eqI)
    fix n assume "n < LENGTH(16)"
    then have n: "n < 16" by simp
    show "bit (half_of w 3) n = bit (ucast (ucast v :: u8) :: u16) n"
      using assms n by (auto simp: bit_half_of bit_byte_of bit_simps)
  qed
  show "ucast (half_of w 3) = (ucast (ucast v :: u8) :: i32)"
    unfolding h by (rule bit_word_eqI) (auto simp: bit_simps)
  show "scast (half_of w 3) = (ucast (ucast v :: u8) :: i32)"
    unfolding h by (rule bit_word_eqI) (auto simp: bit_simps)
qed

text \<open>The word a store leaves, whatever it merges into.\<close>

lemma load_of_merge:
  "loadExtend ba (mergeBytes w (storeWdata ba v sz a) (accessMask ba sz a)) sz u a = stored_value ba v sz u a"
proof (cases ba)
  case False
  then show ?thesis by (simp add: loadExtend_def storeWdata_def accessMask_def stored_value_def)
next
  case True
  let ?w = "mergeBytes w (storeWdata True v sz a) (accessMask True sz a)"
  note l = addrLow_less [of True a]
  have byte: "byte_of ?w b = byte_of v (if sz = SZ_W then b else b - addrLow True a)"
    if "b < 4" "b \<in> lanes True sz a" for b
    using that by (simp add: byte_simps accessMask_lanes byte_storeWdata)
  have v0: "byte_of v 0 = ucast v" by (simp add: byte_of_def)
  have "loadExtend True ?w sz u a = stored_value True v sz u a"
  proof (cases sz)
    case SZ_B
    then show ?thesis using byte [of "addrLow True a"] l v0
      by (simp add: loadExtend_alt stored_value_def lanes_def)
  next
    case SZ_H
    show ?thesis
    proof (cases "addrLow True a = 3")
      case True
      then have "byte_of ?w 3 = byte_of v 0" using byte [of 3] SZ_H by (simp add: lanes_def)
      from half_merge3 [OF this] show ?thesis using SZ_H True
        by (simp add: loadExtend_alt stored_value_def)
    next
      case False
      then have "addrLow True a < 3" using l by simp
      then have "half_of ?w (addrLow True a) = ucast v"
        using byte [of "addrLow True a"] byte [of "addrLow True a + 1"] SZ_H
        by (intro half_merge) (auto simp: lanes_def)
      then show ?thesis using SZ_H False by (simp add: loadExtend_alt stored_value_def)
    qed
  next
    case SZ_W
    then show ?thesis by (simp add: loadExtend_def storeWdata_def accessMask_def stored_value_def)
  qed
  then show ?thesis using True by simp
qed

text \<open>
  Writing a word under a mask and reading it back, and words that do not share an index.
\<close>

lemma memReadWord_write:
  assumes "memWordIndex ba a mem < length mem"
  shows "memReadWord ba a (memWriteMasked ba a d m mem) = mergeBytes (memReadWord ba a mem) d m"
proof -
  have "memWordIndex ba a (mem[i := x]) = memWordIndex ba a mem" for i x by (simp add: memWordIndex_def)
  then show ?thesis using assms by (simp add: memReadWord_def memWriteMasked_def Let_def)
qed

lemma length_memWriteMasked [simp]: "length (memWriteMasked ba a d m mem) = length mem"
  by (simp add: memWriteMasked_def Let_def)

lemma memWordIndex_write [simp]: "memWordIndex ba b (memWriteMasked ba a d m mem) = memWordIndex ba b mem"
  by (simp add: memWordIndex_def)

lemma sameWord_index:
  "memWordIndex ba a mem < length mem \<Longrightarrow> memWordIndex ba b mem < length mem \<Longrightarrow>
   sameWord ba a b \<longleftrightarrow> memWordIndex ba a mem = memWordIndex ba b mem"
proof (cases ba)
  case True
  then show ?thesis by (simp add: sameWord_def memWordIndex_def word_unat_eq_iff)
next
  case False
  assume "memWordIndex ba a mem < length mem" "memWordIndex ba b mem < length mem"
  moreover have "a = b" if "sint b = sint a" using that [symmetric] by (rule word_eq_iff_signed [THEN iffD2])
  ultimately show ?thesis using False
    by (auto simp: sameWord_def memWordIndex_def nat_eq_iff2 split: if_splits)
qed

section \<open>Memory as bytes\<close>

text \<open>
  The bytes of the memory in little-endian order, and those an access touches: words are aligned
  down, and a halfword at the last byte of a word touches that byte only. Toy traces address
  whole words.
\<close>

definition mem_byte :: "i32 list \<Rightarrow> nat \<Rightarrow> u8" where
  "mem_byte mem n = byte_of (mem ! (n div 4)) (n mod 4)"

definition in_memory :: "bool \<Rightarrow> i32 \<Rightarrow> i32 list \<Rightarrow> bool" where
  "in_memory ba a mem \<longleftrightarrow> (if ba then unat a < 4 * length mem else 0 \<le> sint a \<and> sint a < int (length mem))"

definition first_byte :: "bool \<Rightarrow> MemSize \<Rightarrow> i32 \<Rightarrow> nat" where
  "first_byte ba sz a = (if \<not> ba then 4 * nat (sint a) else if sz = SZ_W then 4 * (unat a div 4) else unat a)"

definition num_bytes :: "bool \<Rightarrow> MemSize \<Rightarrow> i32 \<Rightarrow> nat" where
  "num_bytes ba sz a = (if \<not> ba \<or> sz = SZ_W then 4 else if sz = SZ_B \<or> unat a mod 4 = 3 then 1 else 2)"

lemma addrLow_mod: "addrLow True a = unat a mod 4"
proof -
  have "a AND 3 = take_bit 2 a" using take_bit_eq_mask [of 2 a] by (simp add: mask_eq_exp_minus_1)
  then show ?thesis by (simp add: addrLow_def unsigned_take_bit_eq take_bit_nat_def)
qed

lemma in_memory_index:
  "in_memory ba a mem \<longleftrightarrow> memWordIndex ba a mem < length mem"
  by (auto simp: in_memory_def memWordIndex_def unat_drop_bit_eq drop_bit_nat_def nat_less_iff)

text \<open>A byte lies in the access exactly when its lane is one of those of the mask.\<close>

lemma in_word:
  fixes q y r t :: nat
  assumes "r < 4" "t < 4"
  shows "4 * y + t \<le> 4 * q + r \<and> 4 * q + r < 4 * y + t + 1 \<longleftrightarrow> q = y \<and> r = t"
    "4 * y + t \<le> 4 * q + r \<and> 4 * q + r < 4 * y + t + (if t = 3 then 1 else 2) \<longleftrightarrow> q = y \<and> (r = t \<or> r = t + 1)"
    "4 * y \<le> 4 * q + r \<and> 4 * q + r < 4 * y + 4 \<longleftrightarrow> q = y"
  using assms by (cases q y rule: linorder_cases; auto)+

lemma touched:
  assumes "in_memory ba a mem"
  shows "first_byte ba sz a \<le> n \<and> n < first_byte ba sz a + num_bytes ba sz a
    \<longleftrightarrow> n div 4 = memWordIndex ba a mem \<and> n mod 4 \<in> lanes ba sz a"
proof -
  have n: "4 * (n div 4) + n mod 4 = n" "n mod 4 < 4" by simp_all
  show ?thesis
  proof (cases ba)
    case False
    then have "memWordIndex ba a mem = nat (sint a)" using assms by (simp add: in_memory_def memWordIndex_def)
    with False in_word(3) [OF n(2) n(2), of "nat (sint a)" "n div 4"] show ?thesis
      unfolding n(1) by (simp add: first_byte_def num_bytes_def lanes_def)
  next
    case True
    have x: "memWordIndex True a mem = unat a div 4" by (simp add: memWordIndex_def unat_drop_bit_eq drop_bit_nat_def)
    have a: "4 * (unat a div 4) + unat a mod 4 = unat a" "unat a mod 4 < 4" by simp_all
    note w = in_word [OF n(2) a(2), of "unat a div 4" "n div 4", unfolded n(1) a(1)]
    show ?thesis
    proof (cases sz)
      case SZ_B
      then show ?thesis using True w(1) by (simp add: x first_byte_def num_bytes_def lanes_def addrLow_mod)
    next
      case SZ_H
      have "n mod 4 \<in> lanes True SZ_H a \<longleftrightarrow> n mod 4 = unat a mod 4 \<or> n mod 4 = unat a mod 4 + 1"
        by (simp add: lanes_def addrLow_mod)
      with SZ_H show ?thesis using True w(2) by (simp add: x first_byte_def num_bytes_def)
    next
      case SZ_W
      then show ?thesis using True w(3) by (simp add: x first_byte_def num_bytes_def lanes_def)
    qed
  qed
qed

lemma lane_offset:
  assumes "in_memory ba a mem" "n div 4 = memWordIndex ba a mem" "n mod 4 \<in> lanes ba sz a"
  shows "byte_of (storeWdata ba v sz a) (n mod 4) = byte_of v (n - first_byte ba sz a)"
proof -
  have l: "n mod 4 < 4" by simp
  have n: "n = 4 * (n div 4) + n mod 4" by simp
  show ?thesis
  proof (cases ba)
    case False
    then have "n div 4 = nat (sint a)" using assms by (simp add: in_memory_def memWordIndex_def)
    then have "n - 4 * nat (sint a) = n mod 4" using n by linarith
    then show ?thesis using False by (simp add: first_byte_def storeWdata_def)
  next
    case True
    have q: "n div 4 = unat a div 4" using True assms(2) by (simp add: memWordIndex_def unat_drop_bit_eq drop_bit_nat_def)
    have a: "unat a = 4 * (unat a div 4) + unat a mod 4" by simp
    have "n - 4 * (unat a div 4) = n mod 4" "n - unat a = n mod 4 - unat a mod 4" using q n a by linarith+
    then have "n - first_byte ba sz a = (if sz = SZ_W then n mod 4 else n mod 4 - addrLow True a)"
      unfolding addrLow_mod using True by (simp add: first_byte_def)
    then show ?thesis using byte_storeWdata [OF l, of sz a v] assms(3) True by simp
  qed
qed



end
