(* ===== verification/LoadStoreQueue.thy ===== *)
theory LoadStoreQueue
  imports MemoryAccess MemorySystem CdbArbiter Interfaces
begin

text \<open>
  The load/store queue and committed store buffer of \<open>src/load_store_queue.cpp\<close>: allocation,
  address and data arrival, store-to-load forwarding, the store buffer, requests to the data
  cache, the ideal-memory latency model, and the load lanes offered to the common data bus.

  \<open>memsys_\<close> is the argument \<open>ms\<close>, the globals \<open>MainMemoryByteAddressed\<close> and \<open>MainMemory\<close> are \<open>ba\<close>
  and \<open>mem\<close>. Latencies and countdowns are \<open>int\<close> as in the source; the assertion that a countdown
  is not negative is \<open>None\<close>.
\<close>

section \<open>State\<close>

record LSQEntry =
  le_valid :: bool
  le_is_load :: bool
  le_inst_id :: u32
  le_rob_id :: "tag option"
  le_age :: u16
  le_mem_size :: MemSize
  le_mem_unsigned :: bool
  le_addr_ready :: bool
  le_address :: i32
  le_data_ready :: bool
  le_data :: i32
  le_executed :: bool
  le_accessing :: bool
  le_cycles :: int
  le_buffer :: i32
  le_needs_fill :: bool
  le_partial_en :: bool
  le_partial_word :: u32
  le_partial_mask :: u8
  le_awaiting :: bool
  le_req_sent :: bool
  le_cookie :: u32
  le_cdb_wait :: bool

definition lsq_entry0 :: LSQEntry where
  "lsq_entry0 = \<lparr>le_valid = False, le_is_load = False, le_inst_id = 0, le_rob_id = None, le_age = 0,
     le_mem_size = SZ_W, le_mem_unsigned = False, le_addr_ready = False, le_address = 0,
     le_data_ready = False, le_data = 0, le_executed = False, le_accessing = False, le_cycles = 0,
     le_buffer = 0, le_needs_fill = False, le_partial_en = False, le_partial_word = 0,
     le_partial_mask = 0, le_awaiting = False, le_req_sent = False, le_cookie = 0, le_cdb_wait = False\<rparr>"

record StoreBufferEntry =
  sb_valid :: bool
  sb_issued :: bool
  sb_address :: i32
  sb_wdata :: u32
  sb_wstrb :: u8
  sb_cycles :: int
  sb_awaiting :: bool

definition sb_entry0 :: StoreBufferEntry where
  "sb_entry0 = \<lparr>sb_valid = False, sb_issued = False, sb_address = 0, sb_wdata = 0, sb_wstrb = 0,
     sb_cycles = 0, sb_awaiting = False\<rparr>"

record LoadStoreQueue =
  lq_queue :: "LSQEntry list"
  lq_num_cdb_ports :: nat
  lq_mem_latency :: int
  lq_fwd_latency :: int
  lq_store_forwarding :: bool
  lq_max_mem_ports :: nat
  lq_sb :: "StoreBufferEntry list"
  lq_sb_capacity :: nat
  lq_sb_head :: nat
  lq_sb_tail :: nat
  lq_sb_count :: nat
  lq_next_age :: u16

definition ageBefore :: "u16 \<Rightarrow> u16 \<Rightarrow> bool" where
  "ageBefore a b \<longleftrightarrow> b - a < 0x8000"

definition lsq_init :: "nat \<Rightarrow> nat \<Rightarrow> int \<Rightarrow> int \<Rightarrow> int \<Rightarrow> bool \<Rightarrow> nat \<Rightarrow> LoadStoreQueue" where
  "lsq_init n num_load_cdb_ports store_buf_depth memory_latency forward_latency fwd max_ports =
    (let cap = (if store_buf_depth > 0 then nat store_buf_depth else 1) in
     \<lparr>lq_queue = replicate n lsq_entry0, lq_num_cdb_ports = num_load_cdb_ports,
      lq_mem_latency = memory_latency, lq_fwd_latency = forward_latency,
      lq_store_forwarding = fwd, lq_max_mem_ports = max_ports,
      lq_sb = replicate cap sb_entry0, lq_sb_capacity = cap,
      lq_sb_head = 0, lq_sb_tail = 0, lq_sb_count = 0, lq_next_age = 0\<rparr>)"

definition lsq_usesCachedMem :: "MemorySystem \<Rightarrow> bool" where
  "lsq_usesCachedMem ms \<longleftrightarrow> kind ms = Some Cached"

section \<open>Entries\<close>

text \<open>The arguments of \<open>allocate\<close>: instruction, reorder-buffer tag, load, size, unsigned.\<close>

type_synonym lsq_req = "u32 \<times> tag \<times> bool \<times> MemSize \<times> bool"

definition lsq_allocate :: "lsq_req \<Rightarrow> LoadStoreQueue \<Rightarrow> bool \<times> LoadStoreQueue" where
  "lsq_allocate = (\<lambda>(iid, rob, ld, sz, u) q.
    (case first_idx (\<lambda>e. \<not> le_valid e) (lq_queue q) of
       None \<Rightarrow> (False, q)
     | Some i \<Rightarrow> (True, q\<lparr>lq_queue := (lq_queue q)[i := lsq_entry0\<lparr>le_valid := True, le_is_load := ld,
           le_inst_id := iid, le_rob_id := Some rob, le_age := lq_next_age q, le_mem_size := sz,
           le_mem_unsigned := u\<rparr>],
         lq_next_age := lq_next_age q + 1\<rparr>)))"

definition lsq_hasSpace :: "LoadStoreQueue \<Rightarrow> bool" where
  "lsq_hasSpace q \<longleftrightarrow> (\<exists>e \<in> set (lq_queue q). \<not> le_valid e)"

definition lsq_setAddress :: "u32 \<Rightarrow> i32 \<Rightarrow> LoadStoreQueue \<Rightarrow> LoadStoreQueue" where
  "lsq_setAddress iid addr q = q\<lparr>lq_queue := update_first (\<lambda>e. le_valid e \<and> le_inst_id e = iid)
     (\<lambda>e. e\<lparr>le_address := addr, le_addr_ready := True\<rparr>) (lq_queue q)\<rparr>"

definition lsq_setStoreData :: "u32 \<Rightarrow> i32 \<Rightarrow> LoadStoreQueue \<Rightarrow> LoadStoreQueue" where
  "lsq_setStoreData iid d q = q\<lparr>lq_queue :=
     update_first (\<lambda>e. le_valid e \<and> le_inst_id e = iid \<and> \<not> le_is_load e)
       (\<lambda>e. e\<lparr>le_data := d, le_data_ready := True\<rparr>) (lq_queue q)\<rparr>"

definition lsq_freeLoad :: "u32 \<Rightarrow> LoadStoreQueue \<Rightarrow> LoadStoreQueue" where
  "lsq_freeLoad iid q = q\<lparr>lq_queue :=
     update_first (\<lambda>e. le_valid e \<and> le_inst_id e = iid \<and> le_is_load e) (\<lambda>e. e\<lparr>le_valid := False\<rparr>) (lq_queue q)\<rparr>"

definition lsq_squash :: "u32 \<Rightarrow> LoadStoreQueue \<Rightarrow> LoadStoreQueue" where
  "lsq_squash iid q = q\<lparr>lq_queue :=
     update_first (\<lambda>e. le_valid e \<and> le_inst_id e = iid) (\<lambda>e. e\<lparr>le_valid := False\<rparr>) (lq_queue q)\<rparr>"

definition lsq_squashInstIds :: "u32 list \<Rightarrow> LoadStoreQueue \<Rightarrow> LoadStoreQueue" where
  "lsq_squashInstIds ids q = fold lsq_squash ids q"

definition lsq_flushSpeculative :: "LoadStoreQueue \<Rightarrow> LoadStoreQueue" where
  "lsq_flushSpeculative q = q\<lparr>lq_queue := map (\<lambda>e. e\<lparr>le_valid := False\<rparr>) (lq_queue q)\<rparr>"

definition lsq_isDrained :: "LoadStoreQueue \<Rightarrow> bool" where
  "lsq_isDrained q \<longleftrightarrow> (\<forall>e \<in> set (lq_queue q). \<not> le_valid e) \<and> lq_sb_count q = 0"

section \<open>Store-to-load forwarding\<close>

text \<open>The local variables of \<open>dispatchLoad\<close>.\<close>

record FwdScan =
  fw_blocked :: bool
  fw_overlap :: bool
  fw_cov :: u8
  fw_word :: u32
  fw_age :: "u32 list"

definition fwd0 :: FwdScan where
  "fwd0 = \<lparr>fw_blocked = False, fw_overlap = False, fw_cov = 0, fw_word = 0, fw_age = [0, 0, 0, 0]\<rparr>"

definition fwd_take :: "u32 \<Rightarrow> nat \<Rightarrow> FwdScan \<Rightarrow> FwdScan" where
  "fwd_take d b s = s\<lparr>fw_word := mergeBytes (fw_word s) d (push_bit b 1), fw_cov := fw_cov s OR push_bit b 1\<rparr>"

text \<open>One byte lane of an older store in the queue: the youngest store wins.\<close>

definition fwd_lane :: "u32 \<Rightarrow> u32 \<Rightarrow> u8 \<Rightarrow> nat \<Rightarrow> FwdScan \<Rightarrow> FwdScan" where
  "fwd_lane d iid overlap b s =
    (if \<not> bit overlap b then s
     else if \<not> bit (fw_cov s) b \<or> fw_age s ! b < iid
     then (fwd_take d b s)\<lparr>fw_age := (fw_age s)[b := iid]\<rparr> else s)"

definition fwd_entry :: "bool \<Rightarrow> LSQEntry \<Rightarrow> LSQEntry \<Rightarrow> FwdScan \<Rightarrow> FwdScan" where
  "fwd_entry ba ld e s =
    (if \<not> le_valid e \<or> le_is_load e \<or> le_inst_id ld \<le> le_inst_id e then s
     else if \<not> le_addr_ready e \<or> \<not> le_data_ready e then s\<lparr>fw_blocked := True\<rparr>
     else let smask = accessMask ba (le_mem_size e) (le_address e);
              lmask = accessMask ba (le_mem_size ld) (le_address ld);
              overlap = (if sameWord ba (le_address e) (le_address ld) then smask AND lmask else 0)
          in if overlap = 0 then s
             else fold (fwd_lane (storeWdata ba (le_data e) (le_mem_size e) (le_address e)) (le_inst_id e) overlap)
                    [0..<4] (s\<lparr>fw_overlap := True\<rparr>))"

text \<open>The occupied window of the store buffer, oldest first.\<close>

definition sb_window :: "LoadStoreQueue \<Rightarrow> nat list" where
  "sb_window q = map (\<lambda>s. (lq_sb_head q + s) mod lq_sb_capacity q) [0..<lq_sb_count q]"

text \<open>One byte lane of a store-buffer entry, unless a store of the queue covers it (\<open>keep\<close>).\<close>

definition fwd_sb_lane :: "u32 \<Rightarrow> u8 \<Rightarrow> u8 \<Rightarrow> nat \<Rightarrow> FwdScan \<Rightarrow> FwdScan" where
  "fwd_sb_lane d overlap keep b s = (if bit overlap b \<and> \<not> bit keep b then fwd_take d b s else s)"

definition fwd_sb :: "bool \<Rightarrow> LSQEntry \<Rightarrow> u8 \<Rightarrow> StoreBufferEntry \<Rightarrow> FwdScan \<Rightarrow> FwdScan" where
  "fwd_sb ba ld keep e s =
    (if \<not> sb_valid e then s
     else let overlap = (if sameWord ba (sb_address e) (le_address ld)
                then sb_wstrb e AND accessMask ba (le_mem_size ld) (le_address ld) else 0)
          in if overlap = 0 then s
             else fold (fwd_sb_lane (sb_wdata e) overlap keep) [0..<4] (s\<lparr>fw_overlap := True\<rparr>))"

definition scan_queue :: "bool \<Rightarrow> LSQEntry \<Rightarrow> LoadStoreQueue \<Rightarrow> FwdScan" where
  "scan_queue ba ld q = fold (fwd_entry ba ld) (lq_queue q) fwd0"

definition scan_sb :: "bool \<Rightarrow> LSQEntry \<Rightarrow> u8 \<Rightarrow> LoadStoreQueue \<Rightarrow> FwdScan \<Rightarrow> FwdScan" where
  "scan_sb ba ld keep q s = fold (fwd_sb ba ld keep) (map (\<lambda>i. lq_sb q ! i) (sb_window q)) s"

definition start_full_fwd :: "bool \<Rightarrow> int \<Rightarrow> u32 \<Rightarrow> LSQEntry \<Rightarrow> LSQEntry" where
  "start_full_fwd ba fwd_latency word ld = ld\<lparr>le_accessing := True, le_cycles := fwd_latency,
     le_needs_fill := False, le_partial_en := False, le_awaiting := False, le_req_sent := False,
     le_cdb_wait := (fwd_latency \<le> 0),
     le_buffer := loadExtend ba word (le_mem_size ld) (le_mem_unsigned ld) (le_address ld)\<rparr>"

definition start_mem :: "bool \<Rightarrow> int \<Rightarrow> u32 \<Rightarrow> u8 \<Rightarrow> bool \<Rightarrow> LSQEntry \<Rightarrow> LSQEntry" where
  "start_mem cached mem_latency pword pmask has_partial ld =
    (let l = ld\<lparr>le_accessing := True, le_buffer := 0, le_partial_en := has_partial,
               le_partial_word := pword, le_partial_mask := pmask\<rparr> in
     if cached then l\<lparr>le_cycles := 0, le_needs_fill := False, le_awaiting := True, le_req_sent := False\<rparr>
     else l\<lparr>le_cycles := mem_latency, le_needs_fill := True, le_awaiting := False, le_req_sent := False\<rparr>)"

text \<open>The check made when forwarding is switched off.\<close>

definition no_fwd_conflict :: "bool \<Rightarrow> LSQEntry \<Rightarrow> LSQEntry \<Rightarrow> bool" where
  "no_fwd_conflict ba ld e \<longleftrightarrow> le_valid e \<and> \<not> le_is_load e \<and> le_inst_id e < le_inst_id ld
     \<and> (\<not> le_addr_ready e \<or> sameWord ba (le_address e) (le_address ld))"

text \<open>How the load at index \<open>i\<close> starts, or \<open>None\<close> when it must wait.\<close>

definition load_start :: "bool \<Rightarrow> bool \<Rightarrow> LSQEntry \<Rightarrow> LoadStoreQueue \<Rightarrow> LSQEntry option" where
  "load_start ba cached ld q =
    (let lmask = accessMask ba (le_mem_size ld) (le_address ld); s1 = scan_queue ba ld q in
     if fw_blocked s1 then None
     else let s2 = scan_sb ba ld (fw_cov s1) q s1 in
     if \<not> lq_store_forwarding q
     then (if \<exists>e \<in> set (lq_queue q). no_fwd_conflict ba ld e then None
           else let s3 = scan_sb ba ld 0 q (s2\<lparr>fw_cov := 0, fw_word := 0, fw_overlap := False\<rparr>) in
             if fw_cov s3 AND lmask = lmask then Some (start_full_fwd ba (lq_fwd_latency q) (fw_word s3) ld)
             else Some (start_mem cached (lq_mem_latency q) (fw_word s3) (fw_cov s3 AND lmask)
                    (fw_overlap s3 \<and> fw_cov s3 AND lmask \<noteq> 0) ld))
     else if fw_cov s2 AND lmask = lmask then Some (start_full_fwd ba (lq_fwd_latency q) (fw_word s2) ld)
     else Some (start_mem cached (lq_mem_latency q) (fw_word s2) (fw_cov s2 AND lmask) (fw_overlap s2) ld))"

definition lsq_dispatchLoad :: "bool \<Rightarrow> MemorySystem \<Rightarrow> u32 \<Rightarrow> LoadStoreQueue \<Rightarrow> bool \<times> LoadStoreQueue" where
  "lsq_dispatchLoad ba ms iid q =
    (case first_idx (\<lambda>e. le_valid e \<and> le_inst_id e = iid) (lq_queue q) of
       None \<Rightarrow> (False, q)
     | Some i \<Rightarrow> let ld = lq_queue q ! i in
        if \<not> le_addr_ready ld \<or> le_accessing ld \<or> le_executed ld then (False, q)
        else (case load_start ba (lsq_usesCachedMem ms) ld q of
            None \<Rightarrow> (False, q)
          | Some ld' \<Rightarrow> (True, q\<lparr>lq_queue := (lq_queue q)[i := ld']\<rparr>)))"

section \<open>The store buffer\<close>

definition store_ready :: "LSQEntry \<Rightarrow> bool" where
  "store_ready e \<longleftrightarrow> le_addr_ready e \<and> le_data_ready e"

definition sb_entry_of :: "bool \<Rightarrow> LSQEntry \<Rightarrow> StoreBufferEntry \<Rightarrow> StoreBufferEntry" where
  "sb_entry_of ba e b = b\<lparr>sb_valid := True, sb_issued := False, sb_address := le_address e,
     sb_wdata := storeWdata ba (le_data e) (le_mem_size e) (le_address e),
     sb_wstrb := accessMask ba (le_mem_size e) (le_address e), sb_cycles := 0\<rparr>"

definition enqueue_store :: "bool \<Rightarrow> nat \<Rightarrow> LoadStoreQueue \<Rightarrow> LoadStoreQueue" where
  "enqueue_store ba i q = q\<lparr>
     lq_sb := (lq_sb q)[lq_sb_tail q := sb_entry_of ba (lq_queue q ! i) (lq_sb q ! lq_sb_tail q)],
     lq_sb_tail := (lq_sb_tail q + 1) mod lq_sb_capacity q, lq_sb_count := lq_sb_count q + 1,
     lq_queue := (lq_queue q)[i := (lq_queue q ! i)\<lparr>le_valid := False\<rparr>]\<rparr>"

fun enqueue_loop :: "bool \<Rightarrow> nat \<Rightarrow> tag list \<Rightarrow> LoadStoreQueue \<Rightarrow> tag list \<times> LoadStoreQueue" where
  "enqueue_loop ba n [] q = ([], q)"
| "enqueue_loop ba n (t # ts) q =
    (if lq_max_mem_ports q \<le> n \<or> lq_sb_capacity q \<le> lq_sb_count q then ([], q)
     else case first_idx (\<lambda>e. le_valid e \<and> \<not> le_is_load e \<and> le_rob_id e = Some t) (lq_queue q) of
        None \<Rightarrow> ([], q)
      | Some i \<Rightarrow> if \<not> store_ready (lq_queue q ! i) then ([], q)
          else (case enqueue_loop ba (Suc n) ts (enqueue_store ba i q) of (done_tags, q') \<Rightarrow> (t # done_tags, q')))"

definition lsq_enqueueStores :: "bool \<Rightarrow> tag list \<Rightarrow> LoadStoreQueue \<Rightarrow> tag list \<times> LoadStoreQueue" where
  "lsq_enqueueStores ba tags q = enqueue_loop ba 0 tags q"

section \<open>Requests to memory\<close>

definition upd_sb :: "nat \<Rightarrow> (StoreBufferEntry \<Rightarrow> StoreBufferEntry) \<Rightarrow> LoadStoreQueue \<Rightarrow> LoadStoreQueue" where
  "upd_sb i f q = q\<lparr>lq_sb := (lq_sb q)[i := f (lq_sb q ! i)]\<rparr>"

definition upd_entry :: "nat \<Rightarrow> (LSQEntry \<Rightarrow> LSQEntry) \<Rightarrow> LoadStoreQueue \<Rightarrow> LoadStoreQueue" where
  "upd_entry i f q = q\<lparr>lq_queue := (lq_queue q)[i := f (lq_queue q ! i)]\<rparr>"

definition sb_request :: "bool \<Rightarrow> nat \<Rightarrow> LoadStoreQueue \<Rightarrow> DataMemReq" where
  "sb_request ba i q = (let e = lq_sb q ! i in
     \<lparr>rq_write = True, rq_addr = toMemsysAddr ba (sb_address e), rq_wdata = sb_wdata e,
      rq_wstrb = sb_wstrb e, rq_id = int (length (lq_queue q) + i), rq_cookie = 0\<rparr>)"

definition load_request :: "bool \<Rightarrow> nat \<Rightarrow> LoadStoreQueue \<Rightarrow> DataMemReq" where
  "load_request ba i q = (let e = lq_queue q ! i in
     \<lparr>rq_write = False, rq_addr = toMemsysAddr ba (le_address e), rq_wdata = 0, rq_wstrb = 0xF,
      rq_id = int i, rq_cookie = le_inst_id e\<rparr>)"

type_synonym lsq_world = "LoadStoreQueue \<times> MemorySystem \<times> i32 list"

text \<open>
  The two request loops. The result is the number of request lanes used; a refused request
  leaves its loop. \<open>None\<close> is a call through a null memory system (excluded by \<open>cached\<close>).
\<close>

fun issue_stores :: "bool \<Rightarrow> bool \<Rightarrow> nat list \<Rightarrow> nat \<Rightarrow> lsq_world \<Rightarrow> (nat \<times> lsq_world) option" where
  "issue_stores ba cached [] lane w = Some (lane, w)"
| "issue_stores ba cached (i # is) lane (q, ms, mem) =
    (if lq_max_mem_ports q \<le> lane then Some (lane, q, ms, mem)
     else if \<not> sb_valid (lq_sb q ! i) \<or> sb_issued (lq_sb q ! i) then issue_stores ba cached is lane (q, ms, mem)
     else if cached then
       (case tryDataReq (sb_request ba i q) ms mem of
          None \<Rightarrow> None
        | Some (ok, ms', mem') \<Rightarrow>
            if \<not> ok then Some (lane, q, ms', mem')
            else issue_stores ba cached is (Suc lane)
                   (upd_sb i (\<lambda>e. e\<lparr>sb_issued := True, sb_awaiting := True\<rparr>) q, ms', mem'))
     else issue_stores ba cached is (Suc lane)
            (upd_sb i (\<lambda>e. e\<lparr>sb_issued := True, sb_cycles := lq_mem_latency q\<rparr>) q, ms, mem))"

fun issue_loads :: "bool \<Rightarrow> nat list \<Rightarrow> nat \<Rightarrow> lsq_world \<Rightarrow> lsq_world option" where
  "issue_loads ba [] lane w = Some w"
| "issue_loads ba (i # is) lane (q, ms, mem) =
    (if lq_max_mem_ports q \<le> lane then Some (q, ms, mem)
     else case tryDataReq (load_request ba i q) ms mem of
        None \<Rightarrow> None
      | Some (ok, ms', mem') \<Rightarrow>
          if \<not> ok then Some (q, ms', mem')
          else issue_loads ba is (Suc lane)
                 (upd_entry i (\<lambda>e. e\<lparr>le_req_sent := True, le_cookie := le_inst_id e\<rparr>) q, ms', mem'))"

text \<open>
  \<open>std::sort\<close> of queue indices by \<open>ageBefore\<close>, as an insertion sort: the result of any
  comparison sort when the comparison orders the elements strictly.
\<close>

fun insort_age :: "LSQEntry list \<Rightarrow> nat \<Rightarrow> nat list \<Rightarrow> nat list" where
  "insort_age es i [] = [i]"
| "insort_age es i (j # js) = (if ageBefore (le_age (es ! i)) (le_age (es ! j)) then i # j # js
     else j # insort_age es i js)"

definition sort_age :: "LSQEntry list \<Rightarrow> nat list \<Rightarrow> nat list" where
  "sort_age es is = foldr (insort_age es) is []"

definition load_wants_request :: "LSQEntry \<Rightarrow> bool" where
  "load_wants_request e \<longleftrightarrow> le_valid e \<and> le_is_load e \<and> le_awaiting e \<and> \<not> le_req_sent e"

definition lsq_issueMemoryRequests :: "bool \<Rightarrow> lsq_world \<Rightarrow> lsq_world option" where
  "lsq_issueMemoryRequests ba = (\<lambda>(q, ms, mem).
    let cached = lsq_usesCachedMem ms in
    case issue_stores ba cached (sb_window q) 0 (q, ms, mem) of
      None \<Rightarrow> None
    | Some (lane, q', ms', mem') \<Rightarrow>
        if \<not> cached then Some (q', ms', mem')
        else issue_loads ba (sort_age (lq_queue q')
               (filter (\<lambda>i. load_wants_request (lq_queue q' ! i)) [0..<length (lq_queue q')])) lane (q', ms', mem'))"

section \<open>The clock\<close>

definition dec_pos :: "int \<Rightarrow> int" where
  "dec_pos n = (if 0 < n then n - 1 else n)"

definition tick_ideal_load :: "bool \<Rightarrow> i32 list \<Rightarrow> LSQEntry \<Rightarrow> LSQEntry option" where
  "tick_ideal_load ba mem e0 =
    (if \<not> le_valid e0 \<or> \<not> le_is_load e0 \<or> \<not> le_accessing e0 then Some e0
     else let e = e0\<lparr>le_cycles := dec_pos (le_cycles e0)\<rparr> in
       if le_cycles e < 0 then None
       else if le_cycles e = 0 \<and> le_needs_fill e \<and> \<not> le_executed e
       then (let w0 = memReadWord ba (le_address e) mem;
                 w = (if le_partial_en e then mergeBytes w0 (le_partial_word e) (le_partial_mask e) else w0)
             in Some (e\<lparr>le_buffer := loadExtend ba w (le_mem_size e) (le_mem_unsigned e) (le_address e),
                  le_needs_fill := False, le_partial_en := False\<rparr>))
       else Some e)"

definition tick_cached_load :: "LSQEntry \<Rightarrow> LSQEntry" where
  "tick_cached_load e =
    (if \<not> le_valid e \<or> \<not> le_is_load e \<or> \<not> le_accessing e \<or> le_awaiting e \<or> le_cdb_wait e then e
     else if 0 < le_cycles e
     then e\<lparr>le_cycles := le_cycles e - 1, le_cdb_wait := (le_cycles e - 1 = 0)\<rparr>
     else e)"

text \<open>The store buffer of the ideal memory: count down, write, clear, oldest first.\<close>

fun drain_stores :: "bool \<Rightarrow> nat list \<Rightarrow> LoadStoreQueue \<times> i32 list \<Rightarrow> LoadStoreQueue \<times> i32 list" where
  "drain_stores ba [] w = w"
| "drain_stores ba (i # is) (q, mem) =
    (let e = lq_sb q ! i in
     if \<not> sb_valid e \<or> \<not> sb_issued e then drain_stores ba is (q, mem)
     else let e' = e\<lparr>sb_cycles := dec_pos (sb_cycles e)\<rparr> in
       if sb_cycles e' = 0
       then drain_stores ba is (upd_sb i (\<lambda>_. sb_entry0) q, memWriteMasked ba (sb_address e) (sb_wdata e) (sb_wstrb e) mem)
       else drain_stores ba is (upd_sb i (\<lambda>_. e') q, mem))"

text \<open>Popping completed entries off the head; the loop runs at most \<open>sb_capacity\<close> times.\<close>

fun pop_sb :: "nat \<Rightarrow> LoadStoreQueue \<Rightarrow> LoadStoreQueue" where
  "pop_sb 0 q = q"
| "pop_sb (Suc k) q =
    (if lq_sb_count q = 0 \<or> sb_valid (lq_sb q ! lq_sb_head q) then q
     else pop_sb k (q\<lparr>lq_sb_head := (lq_sb_head q + 1) mod lq_sb_capacity q, lq_sb_count := lq_sb_count q - 1\<rparr>))"

fun map_opt :: "('a \<Rightarrow> 'b option) \<Rightarrow> 'a list \<Rightarrow> 'b list option" where
  "map_opt f [] = Some []"
| "map_opt f (x # xs) = (case f x of None \<Rightarrow> None | Some y \<Rightarrow> map_option (Cons y) (map_opt f xs))"

definition lsq_tick :: "bool \<Rightarrow> lsq_world \<Rightarrow> lsq_world option" where
  "lsq_tick ba = (\<lambda>(q0, ms0, mem0).
    let cached = lsq_usesCachedMem ms0 in do {
      es \<leftarrow> (if cached then Some (map tick_cached_load (lq_queue q0))
             else map_opt (tick_ideal_load ba mem0) (lq_queue q0));
      (q1, ms1, mem1) \<leftarrow> lsq_issueMemoryRequests ba (q0\<lparr>lq_queue := es\<rparr>, ms0, mem0);
      let (q2, mem2) = (if cached then (q1, mem1) else drain_stores ba (sb_window q1) (q1, mem1));
      Some (pop_sb (lq_sb_capacity q2) q2, ms1, mem2) })"

section \<open>Responses and result lanes\<close>

definition apply_load_resp :: "bool \<Rightarrow> DataMemResp \<Rightarrow> LSQEntry \<Rightarrow> LSQEntry" where
  "apply_load_resp ba r e =
    (if \<not> le_valid e \<or> \<not> le_is_load e \<or> \<not> le_awaiting e \<or> \<not> le_req_sent e then e
     else if rp_cookie r \<noteq> le_cookie e then e
     else let w = (if le_partial_en e then mergeBytes (rp_rdata r) (le_partial_word e) (le_partial_mask e)
                   else rp_rdata r)
          in e\<lparr>le_buffer := loadExtend ba w (le_mem_size e) (le_mem_unsigned e) (le_address e),
               le_awaiting := False, le_req_sent := False, le_partial_en := False, le_needs_fill := False,
               le_cycles := 0, le_cdb_wait := True\<rparr>)"

definition apply_resp :: "bool \<Rightarrow> DataMemResp \<Rightarrow> LoadStoreQueue \<Rightarrow> LoadStoreQueue" where
  "apply_resp ba r q =
    (let cap = int (length (lq_queue q)) in
     if 0 \<le> rp_id r \<and> rp_id r < cap then upd_entry (nat (rp_id r)) (apply_load_resp ba r) q
     else if cap \<le> rp_id r \<and> rp_id r < cap + int (lq_sb_capacity q)
     then upd_sb (nat (rp_id r - cap)) (\<lambda>e. if sb_valid e \<and> sb_awaiting e then sb_entry0 else e) q
     else q)"

definition lsq_applyDataResps :: "bool \<Rightarrow> DataMemResp list \<Rightarrow> LoadStoreQueue \<Rightarrow> LoadStoreQueue" where
  "lsq_applyDataResps ba rs q = fold (apply_resp ba) rs q"

definition lsq_promoteCdbWaits :: "LoadStoreQueue \<Rightarrow> LoadStoreQueue" where
  "lsq_promoteCdbWaits q = q\<lparr>lq_queue :=
     map (\<lambda>e. if le_valid e \<and> le_is_load e \<and> le_cdb_wait e then e\<lparr>le_cdb_wait := False\<rparr> else e) (lq_queue q)\<rparr>"

definition load_offered :: "LSQEntry \<Rightarrow> bool" where
  "load_offered e \<longleftrightarrow> le_valid e \<and> le_is_load e \<and> le_accessing e \<and> le_cycles e = 0 \<and> \<not> le_executed e
     \<and> \<not> le_needs_fill e \<and> \<not> le_awaiting e \<and> \<not> le_cdb_wait e"

definition ready_loads :: "LoadStoreQueue \<Rightarrow> nat list" where
  "ready_loads q = sort_age (lq_queue q) (filter (\<lambda>i. load_offered (lq_queue q ! i)) [0..<length (lq_queue q)])"

definition lsq_collectProducersFixed :: "LoadStoreQueue \<Rightarrow> CdbProducer list" where
  "lsq_collectProducersFixed q = (let ready = ready_loads q in
     map (\<lambda>lane. if lane < length ready
        then (let idx = ready ! lane in \<lparr>cp_valid = True, cp_rob_id = le_rob_id (lq_queue q ! idx),
            cp_value = le_buffer (lq_queue q ! idx), cp_source = 1, cp_slot = Some idx\<rparr>)
        else cp0\<lparr>cp_source := 1\<rparr>) [0..<lq_num_cdb_ports q])"

definition lsq_collectProducers :: "LoadStoreQueue \<Rightarrow> CdbProducer list" where
  "lsq_collectProducers q = filter cp_valid (lsq_collectProducersFixed q)"

text \<open>\<open>None\<close> is the failed assertion on the index.\<close>

definition lsq_releaseSlot :: "nat \<Rightarrow> LoadStoreQueue \<Rightarrow> LoadStoreQueue option" where
  "lsq_releaseSlot i q = (if \<not> i < length (lq_queue q) then None
     else if \<not> le_valid (lq_queue q ! i) \<or> \<not> le_is_load (lq_queue q ! i) then Some q
     else Some (upd_entry i (\<lambda>e. e\<lparr>le_executed := True, le_accessing := False\<rparr>) q))"

section \<open>The queue as a pool of entries\<close>

definition lsq_ids :: "LoadStoreQueue \<Rightarrow> u32 multiset" where
  "lsq_ids q = live_ids le_valid le_inst_id (lq_queue q)"

definition lsq_slots :: "LoadStoreQueue \<Rightarrow> nat" where
  "lsq_slots q = length (lq_queue q)"

lemma lsq_allocate_ok:
  assumes "lsq_hasSpace q"
  shows "fst (lsq_allocate r q) \<and> lsq_ids (snd (lsq_allocate r q)) = add_mset (fst r) (lsq_ids q)
    \<and> lsq_slots (snd (lsq_allocate r q)) = lsq_slots q"
proof -
  obtain iid rob ld sz u where r: "r = (iid, rob, ld, sz, u)" by (cases r)
  obtain i where "first_idx (\<lambda>e. \<not> le_valid e) (lq_queue q) = Some i"
    using assms by (auto simp: lsq_hasSpace_def dest: first_idx_ex)
  then show ?thesis
    using first_idx_SomeD by (fastforce simp: r lsq_allocate_def lsq_ids_def lsq_slots_def live_ids_update_invalid)
qed

lemma lsq_allocate_full: "\<not> lsq_hasSpace q \<Longrightarrow> lsq_allocate r q = (False, q)"
proof -
  assume "\<not> lsq_hasSpace q"
  then have "first_idx (\<lambda>e. \<not> le_valid e) (lq_queue q) = None" by (simp add: lsq_hasSpace_def slot_simps)
  then show ?thesis by (simp add: lsq_allocate_def split: prod.split)
qed

interpretation lsq: slot_pool lsq_ids lsq_slots lsq_hasSpace lsq_allocate fst lsq_squash
proof (unfold_locales, goal_cases)
  case (1 q)
  then show ?case by (simp add: lsq_hasSpace_def lsq_ids_def lsq_slots_def has_free_slot_iff)
next
  case (2 q r)
  then show ?case using lsq_allocate_ok by simp
next
  case (3 q r)
  then show ?case by (rule lsq_allocate_full)
next
  case (4 r q)
  then show ?case using lsq_allocate_ok [of q r] lsq_allocate_full [of q r] by (cases "lsq_hasSpace q") simp_all
next
  case (5 k q)
  then show ?case by (simp add: lsq_squash_def lsq_ids_def live_ids_remove_first)
next
  case (6 k q)
  then show ?case by (simp add: lsq_squash_def lsq_slots_def)
next
  case (7 q)
  then show ?case by (simp add: lsq_ids_def lsq_slots_def size_live_ids_le)
qed

lemma update_first_keep_ids:
  assumes "\<And>e. le_valid (f e) = le_valid e" "\<And>e. le_inst_id (f e) = le_inst_id e"
  shows "live_ids le_valid le_inst_id (update_first P f es) = live_ids le_valid le_inst_id es"
  using assms by (auto simp: update_first_def live_ids_update_same first_idx_less split: option.splits)

text \<open>
  C38: The load/store queue loses and invents nothing. An allocation succeeds exactly when a
  slot is free and adds the new instruction, squashing a list of instructions takes away
  exactly them (and frees a slot if one of them was queued), and the arrival of addresses and
  data, the start and the completion of loads leave the set of queued instructions unchanged.
\<close>

theorem lsq_pool:
  "(fst (lsq_allocate r q) \<longleftrightarrow> size (lsq_ids q) < lsq_slots q)
   \<and> lsq_ids (snd (lsq_allocate r q)) = (if lsq_hasSpace q then {#fst r#} else {#}) + lsq_ids q
   \<and> lsq_ids (lsq_squashInstIds ks q) = lsq_ids q - mset ks
   \<and> (k \<in> set ks \<and> k \<in># lsq_ids q \<longrightarrow> lsq_hasSpace (lsq_squashInstIds ks q))
   \<and> lsq_ids (lsq_setAddress i a q) = lsq_ids q \<and> lsq_ids (lsq_setStoreData i d q) = lsq_ids q
   \<and> lsq_ids (snd (lsq_dispatchLoad ba ms i q)) = lsq_ids q
   \<and> (\<forall>q'. lsq_releaseSlot j q = Some q' \<longrightarrow> lsq_ids q' = lsq_ids q)
   \<and> lsq_ids (lsq_promoteCdbWaits q) = lsq_ids q"
proof (intro conjI)
  show "fst (lsq_allocate r q) \<longleftrightarrow> size (lsq_ids q) < lsq_slots q" by (rule lsq.alloc_iff)
  show "lsq_ids (snd (lsq_allocate r q)) = (if lsq_hasSpace q then {#fst r#} else {#}) + lsq_ids q"
    using lsq.alloc_ok lsq.alloc_full by simp
  show "lsq_ids (lsq_squashInstIds ks q) = lsq_ids q - mset ks"
    unfolding lsq_squashInstIds_def by (rule lsq.squash_ids)
  show "k \<in> set ks \<and> k \<in># lsq_ids q \<longrightarrow> lsq_hasSpace (lsq_squashInstIds ks q)"
    unfolding lsq_squashInstIds_def using lsq.squash_frees by blast
  show "lsq_ids (lsq_setAddress i a q) = lsq_ids q"
    by (simp add: lsq_ids_def lsq_setAddress_def update_first_keep_ids)
  show "lsq_ids (lsq_setStoreData i d q) = lsq_ids q"
    by (simp add: lsq_ids_def lsq_setStoreData_def update_first_keep_ids)
  have keep: "le_valid ld' = le_valid ld \<and> le_inst_id ld' = le_inst_id ld"
    if "load_start ba c ld q = Some ld'" for c ld ld'
    using that by (auto simp: load_start_def Let_def start_full_fwd_def start_mem_def split: if_splits)
  show "lsq_ids (snd (lsq_dispatchLoad ba ms i q)) = lsq_ids q"
    using keep by (fastforce simp: lsq_dispatchLoad_def Let_def lsq_ids_def
        intro!: live_ids_update_same dest: first_idx_SomeD split: option.split)
  show "\<forall>q'. lsq_releaseSlot j q = Some q' \<longrightarrow> lsq_ids q' = lsq_ids q"
    by (auto simp: lsq_releaseSlot_def upd_entry_def lsq_ids_def live_ids_update_same)
  show "lsq_ids (lsq_promoteCdbWaits q) = lsq_ids q"
    by (simp add: lsq_promoteCdbWaits_def lsq_ids_def live_ids_map)
qed

section \<open>The result lanes\<close>

definition lsq_offers :: "LoadStoreQueue \<Rightarrow> nat \<Rightarrow> (tag option \<times> i32) option" where
  "lsq_offers q i = (if i < length (lq_queue q) \<and> load_offered (lq_queue q ! i)
     then Some (le_rob_id (lq_queue q ! i), le_buffer (lq_queue q ! i)) else None)"

definition lsq_release :: "nat \<Rightarrow> LoadStoreQueue \<Rightarrow> LoadStoreQueue" where
  "lsq_release i q = (case lsq_releaseSlot i q of Some q' \<Rightarrow> q' | None \<Rightarrow> q)"

definition lsq_work :: "LoadStoreQueue \<Rightarrow> (tag option \<times> i32) multiset" where
  "lsq_work q = live_ids load_offered (\<lambda>e. (le_rob_id e, le_buffer e)) (lq_queue q)"

interpretation ll: lane_source lsq_offers lsq_release lsq_work
proof (unfold_locales, goal_cases)
  case (1 s k r)
  let ?f = "\<lambda>e. (le_rob_id e, le_buffer e)"
  have k: "k < length (lq_queue s)" "load_offered (lq_queue s ! k)" "r = ?f (lq_queue s ! k)"
    using 1 by (auto simp: lsq_offers_def split: if_splits)
  then have "?f (lq_queue s ! k) \<in># lsq_work s" by (auto simp: lsq_work_def in_live_ids intro!: bexI [of _ "lq_queue s ! k"])
  moreover have "lsq_release k s = upd_entry k (\<lambda>e. e\<lparr>le_executed := True, le_accessing := False\<rparr>) s"
    using k by (simp add: lsq_release_def lsq_releaseSlot_def load_offered_def)
  ultimately show ?case
    using k by (simp add: lsq_work_def upd_entry_def live_ids_update load_offered_def)
next
  case (2 j k s)
  then show ?case by (auto simp: lsq_offers_def lsq_release_def lsq_releaseSlot_def upd_entry_def split: option.split)
qed

subsection \<open>Lanes are in age order\<close>

lemma mset_insort_age: "mset (insort_age es i js) = add_mset i (mset js)"
  by (induction js) auto

lemma mset_sort_age: "mset (sort_age es is) = mset is"
  unfolding sort_age_def by (induction "is") (simp_all add: mset_insort_age)

lemma half_window:
  fixes x y :: u16
  assumes "unat x < 2 ^ 15" "unat y < 2 ^ 15"
  shows "y - x < 0x8000 \<longleftrightarrow> unat x \<le> unat y"
  using assms by (auto simp: word_less_nat_alt unat_sub_if_size word_size)

lemma ageBefore_window:
  assumes "unat (a - base) < 2 ^ 15" "unat (b - base) < 2 ^ 15"
  shows "ageBefore a b \<longleftrightarrow> unat (a - base) \<le> unat (b - base)"
  using half_window [OF assms] by (simp add: ageBefore_def)

lemma sorted_insort_age:
  assumes "\<And>j. j \<in> insert i (set js) \<Longrightarrow> unat (le_age (es ! j) - base) < 2 ^ 15"
    and "sorted (map (\<lambda>j. unat (le_age (es ! j) - base)) js)"
  shows "sorted (map (\<lambda>j. unat (le_age (es ! j) - base)) (insort_age es i js))"
  using assms
proof (induction js)
  case (Cons j js)
  have ij: "ageBefore (le_age (es ! i)) (le_age (es ! j))
      \<longleftrightarrow> unat (le_age (es ! i) - base) \<le> unat (le_age (es ! j) - base)"
    using Cons.prems(1) by (intro ageBefore_window) auto
  have "set (insort_age es i js) = insert i (set js)"
    using arg_cong [OF mset_insort_age, of set_mset] by simp
  then show ?case using Cons ij by (auto simp: le_less_trans)
qed simp

lemma sorted_sort_age:
  assumes "\<And>j. j \<in> set is \<Longrightarrow> unat (le_age (es ! j) - base) < 2 ^ 15"
  shows "sorted (map (\<lambda>j. unat (le_age (es ! j) - base)) (sort_age es is))"
  using assms
proof (induction "is")
  case (Cons i "is")
  have s: "set (sort_age es is) = set is" using arg_cong [OF mset_sort_age, of set_mset] by simp
  show ?case
    unfolding sort_age_def foldr.simps comp_apply
    using Cons s by (intro sorted_insort_age) (auto simp: sort_age_def)
qed (simp add: sort_age_def)

lemma ready_loads_set:
  "set (ready_loads q) = {i. i < length (lq_queue q) \<and> load_offered (lq_queue q ! i)}" "distinct (ready_loads q)"
proof -
  let ?xs = "filter (\<lambda>i. load_offered (lq_queue q ! i)) [0..<length (lq_queue q)]"
  have "mset (ready_loads q) = mset ?xs" by (simp add: ready_loads_def mset_sort_age)
  then show "distinct (ready_loads q)" by (metis distinct_filter distinct_upt mset_eq_imp_distinct_iff)
  show "set (ready_loads q) = {i. i < length (lq_queue q) \<and> load_offered (lq_queue q ! i)}"
    using \<open>mset (ready_loads q) = mset ?xs\<close> [THEN mset_eq_setD] by auto
qed

lemma collect_take:
  "lsq_collectProducers q = map (\<lambda>idx. \<lparr>cp_valid = True, cp_rob_id = le_rob_id (lq_queue q ! idx),
     cp_value = le_buffer (lq_queue q ! idx), cp_source = 1, cp_slot = Some idx\<rparr>)
     (take (lq_num_cdb_ports q) (ready_loads q))"
proof -
  let ?p = "\<lambda>idx. \<lparr>cp_valid = True, cp_rob_id = le_rob_id (lq_queue q ! idx),
     cp_value = le_buffer (lq_queue q ! idx), cp_source = 1, cp_slot = Some idx\<rparr>"
  have "filter cp_valid (map (\<lambda>l. if l < length xs then ?p (xs ! l) else cp0\<lparr>cp_source := 1\<rparr>) [0..<n]) = map ?p (take n xs)" for xs n
  proof (induction n)
    case (Suc n)
    then show ?case by (cases "n < length xs") (auto simp: take_Suc_conv_app_nth cp0_def)
  qed simp
  then show ?thesis unfolding lsq_collectProducers_def lsq_collectProducersFixed_def Let_def by blast
qed

text \<open>
  C37: The queue offers its finished loads on the result lanes oldest first. The lanes carry the
  tags and values of distinct offering entries, as many as there are lanes; a load that has to
  wait is not older than any on the lanes, as long as the live ages lie in half of the age
  space; and releasing the slots of the offered lanes takes exactly the offered results away
  and no other.
\<close>

theorem lsq_lanes:
  assumes ages: "\<And>i. i < length (lq_queue q) \<Longrightarrow> unat (le_age (lq_queue q ! i) - base) < 2 ^ 15"
  defines "ps \<equiv> lsq_collectProducers q"
  defines "slots \<equiv> map (\<lambda>p. the (cp_slot p)) ps"
  shows "distinct slots \<and> length ps = min (lq_num_cdb_ports q) (size (lsq_work q))
    \<and> sorted (map (\<lambda>i. unat (le_age (lq_queue q ! i) - base)) slots)
    \<and> (\<forall>i < length (lq_queue q). load_offered (lq_queue q ! i) \<and> i \<notin> set slots \<longrightarrow>
         (\<forall>j \<in> set slots. unat (le_age (lq_queue q ! j) - base) \<le> unat (le_age (lq_queue q ! i) - base)))
    \<and> lsq_work q = mset (map (\<lambda>p. (cp_rob_id p, cp_value p)) ps) + lsq_work (fold lsq_release slots q)"
proof -
  let ?age = "\<lambda>i. unat (le_age (lq_queue q ! i) - base)" and ?r = "ready_loads q"
  have sl: "slots = take (lq_num_cdb_ports q) ?r" by (simp add: slots_def ps_def collect_take comp_def)
  have d: "distinct slots" using ready_loads_set(2) by (simp add: sl)
  have "\<And>i. i \<in> set (filter (\<lambda>i. load_offered (lq_queue q ! i)) [0..<length (lq_queue q)]) \<Longrightarrow> ?age i < 2 ^ 15"
    using ages by simp
  then have s: "sorted (map ?age ?r)" unfolding ready_loads_def by (rule sorted_sort_age)
  then have st: "sorted (map ?age slots)" by (simp add: sl sorted_wrt_take flip: take_map)
  have later: "?age j \<le> ?age i" if "i < length (lq_queue q)" "load_offered (lq_queue q ! i)" "i \<notin> set slots" "j \<in> set slots" for i j
  proof -
    have "i \<in> set ?r" using that ready_loads_set(1) by simp
    then have "i \<in> set (drop (lq_num_cdb_ports q) ?r)"
      using that(3) unfolding sl by (metis UnE append_take_drop_id set_append)
    then have "?age i \<in> set (map ?age (drop (lq_num_cdb_ports q) ?r))" by simp
    moreover have "?age j \<in> set (map ?age (take (lq_num_cdb_ports q) ?r))" using that(4) by (simp add: sl)
    moreover have "sorted (map ?age (take (lq_num_cdb_ports q) ?r) @ map ?age (drop (lq_num_cdb_ports q) ?r))"
      using s by (simp only: append_take_drop_id flip: map_append)
    ultimately show ?thesis unfolding sorted_append by blast
  qed
  have off: "lsq_offers q i = Some (le_rob_id (lq_queue q ! i), le_buffer (lq_queue q ! i))" if "i \<in> set ?r" for i
    using that by (simp add: lsq_offers_def ready_loads_set(1))
  have so: "\<And>i. i \<in> set slots \<Longrightarrow> lsq_offers q i \<noteq> None" using off by (auto simp: sl dest: in_set_takeD)
  have "map (\<lambda>k. the (lsq_offers q k)) slots = map (\<lambda>p. (cp_rob_id p, cp_value p)) ps"
    using off by (auto simp: sl ps_def collect_take dest: in_set_takeD)
  then have w: "lsq_work q = mset (map (\<lambda>p. (cp_rob_id p, cp_value p)) ps) + lsq_work (fold lsq_release slots q)"
    using ll.release_all [OF d so] by simp
  have "size (lsq_work q) = length (filter load_offered (lq_queue q))" by (simp add: lsq_work_def size_live_ids)
  also have "\<dots> = length (filter load_offered (map ((!) (lq_queue q)) [0..<length (lq_queue q)]))"
    by (simp only: map_nth)
  also have "\<dots> = length (filter (\<lambda>i. load_offered (lq_queue q ! i)) [0..<length (lq_queue q)])"
    by (simp only: filter_map length_map comp_def)
  also have "\<dots> = length ?r" unfolding ready_loads_def by (metis mset_sort_age size_mset)
  finally have "length ps = min (lq_num_cdb_ports q) (size (lsq_work q))" by (simp add: ps_def collect_take)
  with d st later w show ?thesis by blast
qed

text \<open>Three finished loads and two lanes.\<close>

definition lanes_ex :: LoadStoreQueue where
  "lanes_ex = (let e = lsq_entry0\<lparr>le_valid := True, le_is_load := True, le_accessing := True\<rparr> in
     (lsq_init 3 2 1 1 1 True 1)\<lparr>lq_queue := [e\<lparr>le_age := 5, le_rob_id := Some 1, le_buffer := 10\<rparr>,
       e\<lparr>le_age := 0xFFFF, le_rob_id := Some 2, le_buffer := 20\<rparr>, e\<lparr>le_age := 1, le_rob_id := Some 3, le_buffer := 30\<rparr>]\<rparr>)"

lemma lsq_lanes_witness:
  "lsq_work lanes_ex = mset (map (\<lambda>p. (cp_rob_id p, cp_value p)) (lsq_collectProducers lanes_ex))
     + lsq_work (fold lsq_release (map (\<lambda>p. the (cp_slot p)) (lsq_collectProducers lanes_ex)) lanes_ex)"
proof -
  have "unat (le_age (lq_queue lanes_ex ! i) - 0xFFFF) < 2 ^ 15" if "i < length (lq_queue lanes_ex)" for i
  proof -
    have "i = 0 \<or> i = 1 \<or> i = 2" using that by (auto simp: lanes_ex_def Let_def)
    then show ?thesis by (auto simp: lanes_ex_def Let_def)
  qed
  from lsq_lanes [OF this] show ?thesis by blast
qed

lemma lsq_pool_witness: "lsq_hasSpace (lsq_squashInstIds [7] (snd (lsq_allocate (7, 0, True, SZ_W, False) (lsq_init 1 1 1 1 1 True 1))))"
proof -
  let ?q = "snd (lsq_allocate (7, 0, True, SZ_W, False) (lsq_init 1 1 1 1 1 True 1))"
  have "7 \<in># lsq_ids ?q"
    by (simp add: lsq_allocate_def lsq_init_def lsq_ids_def live_ids_def lsq_entry0_def Let_def)
  then show ?thesis using lsq_pool [where ks = "[7]" and k = 7 and q = ?q] by auto
qed

end
