(* ===== verification/LsqForwarding.thy ===== *)
theory LsqForwarding
  imports LoadStoreQueue
begin

text \<open>
  Store-to-load forwarding is correct: a load that starts will read, in every byte it touches,
  what memory would hold after the stores of the store buffer (oldest first) and then the older
  stores of the queue (in program order) have been written, whatever the word in memory is; and it
  starts exactly when the older stores allow it.
\<close>

section \<open>The memory a load must see\<close>

text \<open>Writing a sequence of masked stores into the word at address \<open>a\<close>.\<close>

definition put_if :: "('e \<Rightarrow> bool) \<Rightarrow> ('e \<Rightarrow> u32) \<Rightarrow> ('e \<Rightarrow> u8) \<Rightarrow> 'e \<Rightarrow> u32 \<Rightarrow> u32" where
  "put_if g d m e w = (if g e then mergeBytes w (d e) (m e) else w)"

definition sb_hits :: "bool \<Rightarrow> i32 \<Rightarrow> StoreBufferEntry \<Rightarrow> bool" where
  "sb_hits ba a e \<longleftrightarrow> sb_valid e \<and> sameWord ba (sb_address e) a"

definition q_hits :: "bool \<Rightarrow> i32 \<Rightarrow> LSQEntry \<Rightarrow> bool" where
  "q_hits ba a e \<longleftrightarrow> sameWord ba (le_address e) a"

definition st_data :: "bool \<Rightarrow> LSQEntry \<Rightarrow> u32" where
  "st_data ba e = storeWdata ba (le_data e) (le_mem_size e) (le_address e)"

definition st_mask :: "bool \<Rightarrow> LSQEntry \<Rightarrow> u8" where
  "st_mask ba e = accessMask ba (le_mem_size e) (le_address e)"

definition older_store :: "LSQEntry \<Rightarrow> LSQEntry \<Rightarrow> bool" where
  "older_store ld e \<longleftrightarrow> le_valid e \<and> \<not> le_is_load e \<and> le_inst_id e < le_inst_id ld"

definition older_stores :: "LSQEntry \<Rightarrow> LoadStoreQueue \<Rightarrow> LSQEntry list" where
  "older_stores ld q = sort_key le_inst_id (filter (older_store ld) (lq_queue q))"

definition effective_word :: "bool \<Rightarrow> LSQEntry \<Rightarrow> LoadStoreQueue \<Rightarrow> u32 \<Rightarrow> u32" where
  "effective_word ba ld q w =
    fold (put_if (q_hits ba (le_address ld)) (st_data ba) (st_mask ba)) (older_stores ld q)
      (fold (put_if (sb_hits ba (le_address ld)) sb_wdata sb_wstrb) (map (\<lambda>i. lq_sb q ! i) (sb_window q)) w)"

text \<open>What a started load will deliver when memory answers with the word \<open>w\<close>.\<close>

definition load_result :: "bool \<Rightarrow> LSQEntry \<Rightarrow> u32 \<Rightarrow> i32" where
  "load_result ba ld w =
    (if le_awaiting ld \<or> le_needs_fill ld
     then loadExtend ba (if le_partial_en ld then mergeBytes w (le_partial_word ld) (le_partial_mask ld) else w)
            (le_mem_size ld) (le_mem_unsigned ld) (le_address ld)
     else le_buffer ld)"

subsection \<open>Bytes of a sequence of stores\<close>

definition writes_lane :: "('e \<Rightarrow> bool) \<Rightarrow> ('e \<Rightarrow> u8) \<Rightarrow> nat \<Rightarrow> 'e \<Rightarrow> bool" where
  "writes_lane g m b e \<longleftrightarrow> g e \<and> bit (m e) b"

lemma byte_put_if: "b < 4 \<Longrightarrow> byte_of (put_if g d m e w) b = (if writes_lane g m b e then byte_of (d e) b else byte_of w b)"
  by (simp add: put_if_def writes_lane_def byte_simps)

lemma byte_fold_none:
  "b < 4 \<Longrightarrow> (\<And>e. e \<in> set es \<Longrightarrow> \<not> writes_lane g m b e) \<Longrightarrow> byte_of (fold (put_if g d m) es w) b = byte_of w b"
  by (induction es arbitrary: w) (auto simp: byte_put_if)

lemma byte_fold_last:
  assumes "b < 4" "writes_lane g m b e" "\<And>x. x \<in> set zs \<Longrightarrow> \<not> writes_lane g m b x"
  shows "byte_of (fold (put_if g d m) (ys @ e # zs) w) b = byte_of (d e) b"
  using assms by (simp add: byte_fold_none byte_put_if)

text \<open>In a list sorted by distinct keys, the writer with the greatest key decides.\<close>

lemma byte_fold_sorted:
  fixes key :: "'e \<Rightarrow> 'k :: linorder"
  assumes "b < 4" "sorted (map key es)" "distinct (map key es)" "e \<in> set es" "writes_lane g m b e"
    and max: "\<And>x. x \<in> set es \<Longrightarrow> writes_lane g m b x \<Longrightarrow> key x \<le> key e"
  shows "byte_of (fold (put_if g d m) es w) b = byte_of (d e) b"
proof -
  obtain ys zs where s: "es = ys @ e # zs" using assms(4) by (auto simp: in_set_conv_decomp)
  have "\<not> writes_lane g m b x" if "x \<in> set zs" for x
  proof
    assume "writes_lane g m b x"
    then have "key x \<le> key e" using max that s by simp
    moreover have "key e \<le> key x" "key e \<noteq> key x" using assms(2,3) that s by (auto simp: sorted_append)
    ultimately show False by simp
  qed
  then show ?thesis unfolding s using assms(1,5) by (intro byte_fold_last)
qed

section \<open>The scan of the queue\<close>

lemma fwd_lane_frame:
  "fw_blocked (fwd_lane d i ov b s) = fw_blocked s" "fw_overlap (fwd_lane d i ov b s) = fw_overlap s"
  "length (fw_age (fwd_lane d i ov b s)) = length (fw_age s)"
  by (simp_all add: fwd_lane_def fwd_take_def)

lemma bit_lane: "bit (push_bit b 1 :: u8) k \<longleftrightarrow> k = b \<and> k < 8" "bit (2 ^ b :: u8) k \<longleftrightarrow> k = b \<and> k < 8"
  by (auto simp: bit_simps)

definition lane_taken :: "u32 \<Rightarrow> u8 \<Rightarrow> FwdScan \<Rightarrow> nat \<Rightarrow> bool" where
  "lane_taken i ov s b \<longleftrightarrow> bit ov b \<and> (\<not> bit (fw_cov s) b \<or> fw_age s ! b < i)"

lemma fwd_lane_lane:
  assumes "b < 4" "k < 4" "length (fw_age s) = 4"
  shows "bit (fw_cov (fwd_lane d i ov b s)) k \<longleftrightarrow> bit (fw_cov s) k \<or> (k = b \<and> lane_taken i ov s b)"
    and "byte_of (fw_word (fwd_lane d i ov b s)) k = (if k = b \<and> lane_taken i ov s b then byte_of d k else byte_of (fw_word s) k)"
    and "fw_age (fwd_lane d i ov b s) ! k = (if k = b \<and> lane_taken i ov s b then i else fw_age s ! k)"
  using assms by (auto simp: fwd_lane_def fwd_take_def lane_taken_def bit_or_iff bit_lane byte_simps)

lemma lane_taken_other:
  "b < 4 \<Longrightarrow> k < 4 \<Longrightarrow> k \<noteq> b \<Longrightarrow> length (fw_age s) = 4 \<Longrightarrow>
   lane_taken i ov (fwd_lane d i' ov' b s) k = lane_taken i ov s k"
  by (simp add: lane_taken_def fwd_lane_lane)

lemma fwd_lanes:
  assumes "length (fw_age s) = 4" "distinct ks" "\<And>k. k \<in> set ks \<Longrightarrow> k < 4" "k < 4"
  shows "(bit (fw_cov (fold (fwd_lane d i ov) ks s)) k \<longleftrightarrow> bit (fw_cov s) k \<or> (k \<in> set ks \<and> lane_taken i ov s k))
    \<and> byte_of (fw_word (fold (fwd_lane d i ov) ks s)) k = (if k \<in> set ks \<and> lane_taken i ov s k then byte_of d k else byte_of (fw_word s) k)
    \<and> fw_age (fold (fwd_lane d i ov) ks s) ! k = (if k \<in> set ks \<and> lane_taken i ov s k then i else fw_age s ! k)
    \<and> fw_blocked (fold (fwd_lane d i ov) ks s) = fw_blocked s \<and> fw_overlap (fold (fwd_lane d i ov) ks s) = fw_overlap s \<and> length (fw_age (fold (fwd_lane d i ov) ks s)) = 4"
  using assms(1-3) 
proof (induction ks arbitrary: s)
  case (Cons b ks)
  let ?s = "fwd_lane d i ov b s"
  have b: "b < 4" "b \<notin> set ks" using Cons.prems by auto
  have l: "length (fw_age ?s) = 4" using Cons.prems by (simp add: fwd_lane_frame)
  have IH: "(bit (fw_cov (fold (fwd_lane d i ov) ks ?s)) k \<longleftrightarrow> bit (fw_cov ?s) k \<or> (k \<in> set ks \<and> lane_taken i ov ?s k))
    \<and> byte_of (fw_word (fold (fwd_lane d i ov) ks ?s)) k = (if k \<in> set ks \<and> lane_taken i ov ?s k then byte_of d k else byte_of (fw_word ?s) k)
    \<and> fw_age (fold (fwd_lane d i ov) ks ?s) ! k = (if k \<in> set ks \<and> lane_taken i ov ?s k then i else fw_age ?s ! k)
    \<and> fw_blocked (fold (fwd_lane d i ov) ks ?s) = fw_blocked ?s \<and> fw_overlap (fold (fwd_lane d i ov) ks ?s) = fw_overlap ?s
    \<and> length (fw_age (fold (fwd_lane d i ov) ks ?s)) = 4"
    using Cons.prems l by (intro Cons.IH) auto
  show ?case
  proof (cases "k = b")
    case True
    then show ?thesis using IH b assms(4) Cons.prems(1) by (simp add: fwd_lane_lane fwd_lane_frame)
  next
    case False
    then show ?thesis
      using IH b assms(4) Cons.prems(1) by (simp add: fwd_lane_lane fwd_lane_frame lane_taken_other)
  qed
qed (use assms in simp)

text \<open>Which lanes of the load an older store covers.\<close>

definition covers :: "bool \<Rightarrow> LSQEntry \<Rightarrow> nat \<Rightarrow> LSQEntry \<Rightarrow> bool" where
  "covers ba ld b e \<longleftrightarrow> older_store ld e \<and> writes_lane (q_hits ba (le_address ld)) (st_mask ba) b e
     \<and> bit (accessMask ba (le_mem_size ld) (le_address ld)) b"

definition best_cover :: "bool \<Rightarrow> LSQEntry \<Rightarrow> LSQEntry set \<Rightarrow> FwdScan \<Rightarrow> nat \<Rightarrow> bool" where
  "best_cover ba ld S s b \<longleftrightarrow> (\<exists>e \<in> S. covers ba ld b e \<and> (\<forall>x \<in> S. covers ba ld b x \<longrightarrow> le_inst_id x \<le> le_inst_id e)
     \<and> fw_age s ! b = le_inst_id e \<and> byte_of (fw_word s) b = byte_of (st_data ba e) b)"

definition scan_inv :: "bool \<Rightarrow> LSQEntry \<Rightarrow> LSQEntry set \<Rightarrow> FwdScan \<Rightarrow> bool" where
  "scan_inv ba ld S s \<longleftrightarrow> length (fw_age s) = 4
     \<and> (\<not> fw_blocked s \<longrightarrow> (\<forall>e \<in> S. older_store ld e \<longrightarrow> le_addr_ready e \<and> le_data_ready e)
        \<and> (\<forall>b < 4. (bit (fw_cov s) b \<longleftrightarrow> (\<exists>e \<in> S. covers ba ld b e))
             \<and> (bit (fw_cov s) b \<longrightarrow> best_cover ba ld S s b \<and> fw_overlap s)))"

lemma fwd_entry_blocked: "fw_blocked s \<Longrightarrow> fw_blocked (fwd_entry ba ld e s)"
proof -
  have "fw_blocked (fold (fwd_lane d i ov) ks s) = fw_blocked s" for d i ov ks s
    by (induction ks arbitrary: s) (auto simp: fwd_lane_frame)
  then show "fw_blocked s \<Longrightarrow> fw_blocked (fwd_entry ba ld e s)" by (simp add: fwd_entry_def Let_def)
qed

lemma overlap_lane: "b < 4 \<Longrightarrow> bit (m AND n :: u8) b \<Longrightarrow> m AND n \<noteq> 0"
  by (metis bit_0_eq bot_apply bot_bool_def)

lemma scan_inv_skip:
  assumes "scan_inv ba ld S s" "\<And>b. b < 4 \<Longrightarrow> \<not> covers ba ld b e" "older_store ld e \<Longrightarrow> le_addr_ready e \<and> le_data_ready e"
  shows "scan_inv ba ld (insert e S) s"
  using assms by (auto simp: scan_inv_def best_cover_def)
lemma scan_inv_entry:
  assumes inv: "scan_inv ba ld S s"
  shows "scan_inv ba ld (insert e S) (fwd_entry ba ld e s)"
proof (cases "older_store ld e")
  case False
  then have "fwd_entry ba ld e s = s" by (auto simp: fwd_entry_def older_store_def)
  then show ?thesis using scan_inv_skip [OF inv, of e] False by (simp add: covers_def)
next
  case True
  let ?ready = "le_addr_ready e \<and> le_data_ready e"
  define ov where "ov = (if sameWord ba (le_address e) (le_address ld)
    then st_mask ba e AND accessMask ba (le_mem_size ld) (le_address ld) else 0)"
  have cov: "covers ba ld b e \<longleftrightarrow> bit ov b" for b
    using True by (auto simp: covers_def ov_def writes_lane_def q_hits_def bit_and_iff)
  have step: "fwd_entry ba ld e s = (if \<not> ?ready then s\<lparr>fw_blocked := True\<rparr> else if ov = 0 then s
      else fold (fwd_lane (st_data ba e) (le_inst_id e) ov) [0..<4] (s\<lparr>fw_overlap := True\<rparr>))"
    using True by (auto simp: fwd_entry_def older_store_def ov_def st_mask_def st_data_def Let_def)
  show ?thesis
  proof (cases "?ready \<and> ov \<noteq> 0")
    case False
    show ?thesis
    proof (cases ?ready)
      case True
      then have "ov = 0" using False by simp
      then show ?thesis using True scan_inv_skip [OF inv, of e] by (simp add: step cov)
    qed (use inv in \<open>simp add: step scan_inv_def\<close>)
  next
    case ready: True
    let ?ovl = "s\<lparr>fw_overlap := True\<rparr>" and ?d = "st_data ba e" and ?i = "le_inst_id e"
    define s' where "s' = fold (fwd_lane ?d ?i ov) [0..<4] ?ovl"
    let ?s = s'
    have len: "length (fw_age ?ovl) = 4" using inv by (simp add: scan_inv_def)
    note F = fwd_lanes [where s = ?ovl and ks = "[0..<4]" and d = ?d and i = ?i and ov = ov,
        OF len distinct_upt, folded s'_def]
    have lane: "(bit (fw_cov ?s) k \<longleftrightarrow> bit (fw_cov s) k \<or> lane_taken ?i ov s k)
        \<and> byte_of (fw_word ?s) k = (if lane_taken ?i ov s k then byte_of ?d k else byte_of (fw_word s) k)
        \<and> fw_age ?s ! k = (if lane_taken ?i ov s k then ?i else fw_age s ! k)" if "k < 4" for k
    proof -
      have "lane_taken ?i ov ?ovl k = lane_taken ?i ov s k" by (simp add: lane_taken_def)
      then show ?thesis using F [of k] that by simp
    qed
    have rest: "fw_blocked ?s = fw_blocked s" "fw_overlap ?s" "length (fw_age ?s) = 4"
      using F [of 0] by simp_all
    have "best_cover ba ld (insert e S) ?s k \<and> (bit (fw_cov ?s) k \<longleftrightarrow> (\<exists>x \<in> insert e S. covers ba ld k x))
        \<or> \<not> bit (fw_cov ?s) k \<and> (\<forall>x \<in> insert e S. \<not> covers ba ld k x)"
      if nb: "\<not> fw_blocked s" and k: "k < 4" for k
    proof -
      have old: "bit (fw_cov s) k \<longleftrightarrow> (\<exists>x \<in> S. covers ba ld k x)" "bit (fw_cov s) k \<longrightarrow> best_cover ba ld S s k"
        using inv nb k by (auto simp: scan_inv_def)
      show ?thesis
      proof (cases "lane_taken ?i ov s k")
        case taken: True
        then have c: "covers ba ld k e" by (simp add: lane_taken_def cov)
        have "\<forall>x \<in> S. covers ba ld k x \<longrightarrow> le_inst_id x \<le> ?i"
        proof (cases "bit (fw_cov s) k")
          case True
          then obtain y where "y \<in> S" "\<forall>x \<in> S. covers ba ld k x \<longrightarrow> le_inst_id x \<le> le_inst_id y" "fw_age s ! k = le_inst_id y"
            using old(2) by (auto simp: best_cover_def)
          moreover have "fw_age s ! k < ?i" using taken True by (simp add: lane_taken_def)
          ultimately show ?thesis by force
        qed (use old(1) in auto)
        then have "best_cover ba ld (insert e S) ?s k"
          using lane [OF k] taken c by (auto simp: best_cover_def)
        then show ?thesis using lane [OF k] taken c by auto
      next
        case nt: False
        show ?thesis
        proof (cases "bit (fw_cov s) k")
          case True
          then obtain y where y: "y \<in> S" "covers ba ld k y" "\<forall>x \<in> S. covers ba ld k x \<longrightarrow> le_inst_id x \<le> le_inst_id y"
              "fw_age s ! k = le_inst_id y" "byte_of (fw_word s) k = byte_of (st_data ba y) k"
            using old(2) by (auto simp: best_cover_def)
          have "covers ba ld k e \<Longrightarrow> ?i \<le> le_inst_id y" using nt True y(4) by (simp add: lane_taken_def cov)
          then have "best_cover ba ld (insert e S) ?s k"
            using y lane [OF k] nt unfolding best_cover_def by (intro bexI [of _ y]) auto
          then show ?thesis using lane [OF k] nt True y by auto
        next
          case False
          then have "\<not> covers ba ld k e" using nt by (simp add: lane_taken_def cov)
          then show ?thesis using lane [OF k] nt False old(1) by auto
        qed
      qed
    qed
    then show ?thesis
      using inv ready rest unfolding step s'_def [symmetric] scan_inv_def by auto
  qed
qed

lemma scan_queue_inv: "scan_inv ba ld (set (lq_queue q)) (scan_queue ba ld q)"
proof -
  have "scan_inv ba ld (S \<union> set es) (fold (fwd_entry ba ld) es s)" if "scan_inv ba ld S s" for S es s
    using that
  proof (induction es arbitrary: S s)
    case (Cons e es)
    from Cons.IH [OF scan_inv_entry [OF Cons.prems, of e]] show ?case by simp
  qed simp
  moreover have "scan_inv ba ld {} fwd0" by (simp add: scan_inv_def fwd0_def)
  ultimately show ?thesis unfolding scan_queue_def by (metis sup_bot_left)
qed

section \<open>The scan of the store buffer\<close>

lemma fwd_sb_lanes:
  assumes "distinct ks" "k < 4" "\<And>j. j \<in> set ks \<Longrightarrow> j < 4"
  shows "(bit (fw_cov (fold (fwd_sb_lane d ov keep) ks s)) k
        \<longleftrightarrow> bit (fw_cov s) k \<or> (k \<in> set ks \<and> bit ov k \<and> \<not> bit keep k))
    \<and> byte_of (fw_word (fold (fwd_sb_lane d ov keep) ks s)) k
        = (if k \<in> set ks \<and> bit ov k \<and> \<not> bit keep k then byte_of d k else byte_of (fw_word s) k)
    \<and> fw_overlap (fold (fwd_sb_lane d ov keep) ks s) = fw_overlap s"
  using assms(1,3)
proof (induction ks arbitrary: s)
  case (Cons b ks)
  let ?t = "fwd_sb_lane d ov keep b s"
  have "bit (fw_cov ?t) k \<longleftrightarrow> bit (fw_cov s) k \<or> (k = b \<and> bit ov k \<and> \<not> bit keep k)"
    "byte_of (fw_word ?t) k = (if k = b \<and> bit ov k \<and> \<not> bit keep k then byte_of d k else byte_of (fw_word s) k)"
    "fw_overlap ?t = fw_overlap s"
    using assms(2) by (auto simp: fwd_sb_lane_def fwd_take_def bit_or_iff bit_lane byte_simps)
  moreover have "b \<notin> set ks" using Cons.prems by simp
  ultimately show ?case using Cons.IH [of ?t] Cons.prems by auto
qed simp

definition load_lane :: "bool \<Rightarrow> LSQEntry \<Rightarrow> nat \<Rightarrow> bool" where
  "load_lane ba ld k \<longleftrightarrow> bit (accessMask ba (le_mem_size ld) (le_address ld)) k"

abbreviation sb_writes :: "bool \<Rightarrow> LSQEntry \<Rightarrow> nat \<Rightarrow> StoreBufferEntry \<Rightarrow> bool" where
  "sb_writes ba ld k \<equiv> writes_lane (sb_hits ba (le_address ld)) sb_wstrb k"

lemma fwd_sb_entry:
  fixes ba :: bool and ld :: LSQEntry and e :: StoreBufferEntry and keep :: u8
  assumes "k < 4"
  defines "t \<equiv> sb_writes ba ld k e \<and> load_lane ba ld k \<and> \<not> bit keep k"
  shows "bit (fw_cov (fwd_sb ba ld keep e s)) k \<longleftrightarrow> bit (fw_cov s) k \<or> t"
    and "byte_of (fw_word (fwd_sb ba ld keep e s)) k = (if t then byte_of (sb_wdata e) k else byte_of (fw_word s) k)"
    and "fw_overlap s \<or> (sb_writes ba ld k e \<and> load_lane ba ld k) \<Longrightarrow> fw_overlap (fwd_sb ba ld keep e s)"
proof -
  define ov where "ov = (if sameWord ba (sb_address e) (le_address ld)
    then sb_wstrb e AND accessMask ba (le_mem_size ld) (le_address ld) else 0)"
  have t: "t \<longleftrightarrow> sb_valid e \<and> bit ov k \<and> \<not> bit keep k"
    by (auto simp: t_def ov_def writes_lane_def sb_hits_def load_lane_def bit_and_iff)
  have o: "sb_writes ba ld k e \<and> load_lane ba ld k \<longleftrightarrow> sb_valid e \<and> bit ov k"
    by (auto simp: ov_def writes_lane_def sb_hits_def load_lane_def bit_and_iff)
  have step: "fwd_sb ba ld keep e s = (if \<not> sb_valid e \<or> ov = 0 then s
      else fold (fwd_sb_lane (sb_wdata e) ov keep) [0..<4] (s\<lparr>fw_overlap := True\<rparr>))"
    by (simp add: fwd_sb_def ov_def Let_def)
  note F = fwd_sb_lanes [OF distinct_upt assms(1), of 0 4 "sb_wdata e" ov keep "s\<lparr>fw_overlap := True\<rparr>"]
  show "bit (fw_cov (fwd_sb ba ld keep e s)) k \<longleftrightarrow> bit (fw_cov s) k \<or> t"
    using F assms(1) by (auto simp: step t)
  show "byte_of (fw_word (fwd_sb ba ld keep e s)) k = (if t then byte_of (sb_wdata e) k else byte_of (fw_word s) k)"
    using F assms(1) by (auto simp: step t)
  show "fw_overlap (fwd_sb ba ld keep e s)" if "fw_overlap s \<or> (sb_writes ba ld k e \<and> load_lane ba ld k)"
    using F that by (auto simp: step o)
qed

lemma fwd_sb_fold:
  assumes k: "k < 4" and keep: "\<not> bit keep k" and l: "load_lane ba ld k"
  shows "(bit (fw_cov (fold (fwd_sb ba ld keep) es s)) k \<longleftrightarrow> bit (fw_cov s) k \<or> (\<exists>e \<in> set es. sb_writes ba ld k e))
    \<and> byte_of (fw_word (fold (fwd_sb ba ld keep) es s)) k
       = (if \<exists>e \<in> set es. sb_writes ba ld k e
          then byte_of (fold (put_if (sb_hits ba (le_address ld)) sb_wdata sb_wstrb) es w) k else byte_of (fw_word s) k)
    \<and> (fw_overlap s \<or> (\<exists>e \<in> set es. sb_writes ba ld k e) \<longrightarrow> fw_overlap (fold (fwd_sb ba ld keep) es s))"
proof (induction es rule: rev_induct)
  case (snoc e es)
  then show ?case
    using fwd_sb_entry [OF k, where ba = ba and ld = ld and e = e and keep = keep and s = "fold (fwd_sb ba ld keep) es s"] keep l k
    by (auto simp: byte_put_if)
qed simp

lemma fwd_sb_fold_keep:
  assumes k: "k < 4" and keep: "bit keep k \<or> \<not> load_lane ba ld k"
  shows "(bit (fw_cov (fold (fwd_sb ba ld keep) es s)) k \<longleftrightarrow> bit (fw_cov s) k)
    \<and> byte_of (fw_word (fold (fwd_sb ba ld keep) es s)) k = byte_of (fw_word s) k
    \<and> (fw_overlap s \<longrightarrow> fw_overlap (fold (fwd_sb ba ld keep) es s))"
proof (induction es rule: rev_induct)
  case (snoc e es)
  then show ?case
    using fwd_sb_entry [OF k, where ba = ba and ld = ld and e = e and keep = keep and s = "fold (fwd_sb ba ld keep) es s"] keep by auto
qed simp

section \<open>A started load sees the older stores\<close>

text \<open>Under one scan result, each lane of the load is either covered with the effective byte or written by no store.\<close>

definition good_lane :: "bool \<Rightarrow> LSQEntry \<Rightarrow> LoadStoreQueue \<Rightarrow> FwdScan \<Rightarrow> nat \<Rightarrow> bool" where
  "good_lane ba ld q s k \<longleftrightarrow> (\<forall>w. byte_of (effective_word ba ld q w) k
     = (if bit (fw_cov s) k then byte_of (fw_word s) k else byte_of w k)) \<and> (bit (fw_cov s) k \<longrightarrow> fw_overlap s)"

abbreviation q_writes :: "bool \<Rightarrow> LSQEntry \<Rightarrow> nat \<Rightarrow> LSQEntry \<Rightarrow> bool" where
  "q_writes ba ld k \<equiv> writes_lane (q_hits ba (le_address ld)) (st_mask ba) k"

lemma older_stores_set: "set (older_stores ld q) = {e \<in> set (lq_queue q). older_store ld e}"
  by (auto simp: older_stores_def)

lemma effective_lane_sb:
  assumes "k < 4" "\<And>e. e \<in> set (lq_queue q) \<Longrightarrow> older_store ld e \<Longrightarrow> \<not> q_writes ba ld k e"
  shows "byte_of (effective_word ba ld q w) k
    = byte_of (fold (put_if (sb_hits ba (le_address ld)) sb_wdata sb_wstrb) (map (\<lambda>i. lq_sb q ! i) (sb_window q)) w) k"
  unfolding effective_word_def using assms by (intro byte_fold_none) (auto simp: older_stores_set)

lemma good_lane_sb:
  assumes k: "k < 4" "load_lane ba ld k" and keep: "\<not> bit keep k" "\<not> bit (fw_cov s) k"
    and none: "\<And>e. e \<in> set (lq_queue q) \<Longrightarrow> older_store ld e \<Longrightarrow> \<not> q_writes ba ld k e"
  shows "good_lane ba ld q (scan_sb ba ld keep q s) k"
proof -
  define sb where "sb = map (\<lambda>i. lq_sb q ! i) (sb_window q)"
  define F where "F = put_if (sb_hits ba (le_address ld)) sb_wdata sb_wstrb"
  have eff: "byte_of (effective_word ba ld q w) k = byte_of (fold F sb w) k" for w
    unfolding F_def sb_def by (rule effective_lane_sb [OF k(1)]) (rule none)
  have un: "byte_of (fold F sb w) k = byte_of w k" if "\<not> (\<exists>e \<in> set sb. sb_writes ba ld k e)" for w
    unfolding F_def using that by (intro byte_fold_none [OF k(1)]) auto
  show ?thesis
  proof (cases "\<exists>e \<in> set sb. sb_writes ba ld k e")
    case True
    then show ?thesis
      using fwd_sb_fold [OF k(1) keep(1) k(2), of sb s, folded F_def]
      unfolding good_lane_def scan_sb_def sb_def [symmetric] eff by metis
  next
    case False
    then show ?thesis
      using fwd_sb_fold [OF k(1) keep(1) k(2), of sb s, folded F_def] keep(2) un
      unfolding good_lane_def scan_sb_def sb_def [symmetric] eff by metis
  qed
qed

definition distinct_stores :: "LoadStoreQueue \<Rightarrow> bool" where
  "distinct_stores q \<longleftrightarrow> distinct (map le_inst_id (filter (\<lambda>e. le_valid e \<and> \<not> le_is_load e) (lq_queue q)))"

lemma older_stores_sorted:
  assumes "distinct_stores q"
  shows "sorted (map le_inst_id (older_stores ld q))" "distinct (map le_inst_id (older_stores ld q))"
proof -
  let ?P = "\<lambda>e. le_valid e \<and> \<not> le_is_load e"
  have "filter (older_store ld) (lq_queue q) = filter (\<lambda>e. le_inst_id e < le_inst_id ld) (filter ?P (lq_queue q))"
    by (auto simp: older_store_def intro!: filter_cong)
  then have "distinct (map le_inst_id (filter (older_store ld) (lq_queue q)))"
    using assms unfolding distinct_stores_def by (simp only: distinct_map_filter)
  then show "distinct (map le_inst_id (older_stores ld q))"
    by (simp add: older_stores_def) (metis (no_types) distinct_map distinct_sort set_sort)
qed (simp add: older_stores_def)

lemma good_lanes_fwd:
  assumes d: "distinct_stores q" and nb: "\<not> fw_blocked (scan_queue ba ld q)" and k: "k < 4" "load_lane ba ld k"
  defines "s \<equiv> scan_sb ba ld (fw_cov (scan_queue ba ld q)) q (scan_queue ba ld q)"
  shows "good_lane ba ld q s k"
proof -
  let ?a = "scan_queue ba ld q" and ?sb = "map (\<lambda>i. lq_sb q ! i) (sb_window q)"
  have cov: "covers ba ld k e \<longleftrightarrow> older_store ld e \<and> q_writes ba ld k e" for e
    using k(2) by (simp add: covers_def load_lane_def)
  have inv: "bit (fw_cov ?a) k \<longleftrightarrow> (\<exists>e \<in> set (lq_queue q). covers ba ld k e)"
      "bit (fw_cov ?a) k \<Longrightarrow> best_cover ba ld (set (lq_queue q)) ?a k \<and> fw_overlap ?a"
    using scan_queue_inv [of ba ld q] nb k(1) by (auto simp: scan_inv_def)
  show ?thesis
  proof (cases "bit (fw_cov ?a) k")
    case True
    then obtain e where e: "e \<in> set (lq_queue q)" "covers ba ld k e"
        "\<forall>x \<in> set (lq_queue q). covers ba ld k x \<longrightarrow> le_inst_id x \<le> le_inst_id e"
        "byte_of (fw_word ?a) k = byte_of (st_data ba e) k"
      using inv(2) by (auto simp: best_cover_def)
    have "byte_of (effective_word ba ld q w) k = byte_of (st_data ba e) k" for w
      unfolding effective_word_def
      using e older_stores_sorted [OF d, of ld] k(1)
      by (intro byte_fold_sorted [where key = le_inst_id]) (auto simp: older_stores_set cov)
    then show ?thesis
      using fwd_sb_fold_keep [OF k(1), of "fw_cov ?a" ba ld ?sb ?a] True inv(2) e(4)
      by (simp add: good_lane_def s_def scan_sb_def)
  next
    case False
    then have none: "\<not> q_writes ba ld k e" if "e \<in> set (lq_queue q)" "older_store ld e" for e
      using inv(1) that by (auto simp: cov)
    show ?thesis unfolding s_def using none by (intro good_lane_sb k False)
  qed
qed

lemma good_lanes_nofwd:
  assumes nc: "\<not> (\<exists>e \<in> set (lq_queue q). no_fwd_conflict ba ld e)" and k: "k < 4" "load_lane ba ld k"
  shows "good_lane ba ld q (scan_sb ba ld 0 q (s\<lparr>fw_cov := 0, fw_word := 0, fw_overlap := False\<rparr>)) k"
proof -
  have none: "\<not> q_writes ba ld k e" if "e \<in> set (lq_queue q)" "older_store ld e" for e
    using nc that by (auto simp: no_fwd_conflict_def older_store_def writes_lane_def q_hits_def)
  show ?thesis using none by (intro good_lane_sb k) simp_all
qed

lemma good_full:
  assumes g: "\<And>k. k < 4 \<Longrightarrow> load_lane ba ld k \<Longrightarrow> good_lane ba ld q s k"
    and full: "fw_cov s AND accessMask ba (le_mem_size ld) (le_address ld) = accessMask ba (le_mem_size ld) (le_address ld)"
  shows "load_result ba (start_full_fwd ba l (fw_word s) ld) w
    = loadExtend ba (effective_word ba ld q w) (le_mem_size ld) (le_mem_unsigned ld) (le_address ld)"
proof -
  have "loadExtend ba (fw_word s) (le_mem_size ld) (le_mem_unsigned ld) (le_address ld)
      = loadExtend ba (effective_word ba ld q w) (le_mem_size ld) (le_mem_unsigned ld) (le_address ld)"
  proof (rule loadExtend_cong)
    fix b assume b: "b < 4" "b \<in> lanes ba (le_mem_size ld) (le_address ld)"
    then have l: "load_lane ba ld b" by (simp add: load_lane_def accessMask_lanes)
    then have "bit (fw_cov s) b" using full unfolding load_lane_def by (metis bit_and_iff)
    then show "byte_of (fw_word s) b = byte_of (effective_word ba ld q w) b"
      using g [OF b(1) l] by (simp add: good_lane_def)
  qed
  then show ?thesis by (simp add: load_result_def start_full_fwd_def)
qed

lemma good_partial:
  assumes g: "\<And>k. k < 4 \<Longrightarrow> load_lane ba ld k \<Longrightarrow> good_lane ba ld q s k"
    and p: "\<not> p \<Longrightarrow> (\<forall>k < 4. load_lane ba ld k \<longrightarrow> \<not> bit (fw_cov s) k)"
  shows "load_result ba (start_mem cached l (fw_word s) (fw_cov s AND accessMask ba (le_mem_size ld) (le_address ld)) p ld) w
    = loadExtend ba (effective_word ba ld q w) (le_mem_size ld) (le_mem_unsigned ld) (le_address ld)"
proof -
  let ?m = "fw_cov s AND accessMask ba (le_mem_size ld) (le_address ld)"
  have "loadExtend ba (if p then mergeBytes w (fw_word s) ?m else w) (le_mem_size ld) (le_mem_unsigned ld) (le_address ld)
      = loadExtend ba (effective_word ba ld q w) (le_mem_size ld) (le_mem_unsigned ld) (le_address ld)"
  proof (rule loadExtend_cong)
    fix b assume b: "b < 4" "b \<in> lanes ba (le_mem_size ld) (le_address ld)"
    then have l: "load_lane ba ld b" by (simp add: load_lane_def accessMask_lanes)
    then show "byte_of (if p then mergeBytes w (fw_word s) ?m else w) b = byte_of (effective_word ba ld q w) b"
      using g [OF b(1) l] p b(1) by (auto simp: good_lane_def byte_simps bit_and_iff load_lane_def)
  qed
  then show ?thesis by (cases p) (simp_all add: load_result_def start_mem_def Let_def)
qed

text \<open>What a load that starts will deliver.\<close>

lemma load_start_value:
  assumes d: "distinct_stores q" and st: "load_start ba cached ld q = Some ld'"
  shows "load_result ba ld' w
      = loadExtend ba (effective_word ba ld q w) (le_mem_size ld) (le_mem_unsigned ld) (le_address ld)
    \<and> (\<forall>e \<in> set (lq_queue q). older_store ld e \<longrightarrow> le_addr_ready e \<and> le_data_ready e)"
proof -
  let ?a = "scan_queue ba ld q" and ?m = "accessMask ba (le_mem_size ld) (le_address ld)"
  have nb: "\<not> fw_blocked ?a" using st by (auto simp: load_start_def Let_def split: if_splits)
  then have rdy: "\<forall>e \<in> set (lq_queue q). older_store ld e \<longrightarrow> le_addr_ready e \<and> le_data_ready e"
    using scan_queue_inv [of ba ld q] by (simp add: scan_inv_def)
  define s2 where "s2 = scan_sb ba ld (fw_cov ?a) q ?a"
  define s3 where "s3 = scan_sb ba ld 0 q (s2\<lparr>fw_cov := 0, fw_word := 0, fw_overlap := False\<rparr>)"
  note unf = load_start_def [of ba cached ld q, unfolded Let_def, folded s2_def, folded s3_def]
  have z: "\<not> bit c k" if "c AND ?m = 0" "load_lane ba ld k" for c :: u8 and k
    using that unfolding load_lane_def by (metis bit_and_iff bit_0_eq bot_apply bot_bool_def)
  show ?thesis
  proof (cases "lq_store_forwarding q")
    case True
    have g: "good_lane ba ld q s2 k" if "k < 4" "load_lane ba ld k" for k
      unfolding s2_def using good_lanes_fwd [OF d nb that] .
    have e: "ld' = (if fw_cov s2 AND ?m = ?m then start_full_fwd ba (lq_fwd_latency q) (fw_word s2) ld
        else start_mem cached (lq_mem_latency q) (fw_word s2) (fw_cov s2 AND ?m) (fw_overlap s2) ld)"
      using st nb True by (simp add: unf split: if_splits)
    have p: "\<forall>k < 4. load_lane ba ld k \<longrightarrow> \<not> bit (fw_cov s2) k" if "\<not> fw_overlap s2"
      using that g by (auto simp: good_lane_def)
    show ?thesis unfolding e using rdy good_full [OF g] good_partial [OF g p] by simp
  next
    case False
    then have nc: "\<not> (\<exists>e \<in> set (lq_queue q). no_fwd_conflict ba ld e)"
      using st nb by (auto simp: unf split: if_splits)
    have g: "good_lane ba ld q s3 k" if "k < 4" "load_lane ba ld k" for k
      unfolding s3_def using good_lanes_nofwd [OF nc that] .
    have p: "\<forall>k < 4. load_lane ba ld k \<longrightarrow> \<not> bit (fw_cov s3) k" if "\<not> (fw_overlap s3 \<and> fw_cov s3 AND ?m \<noteq> 0)"
      using that g z by (auto simp: good_lane_def)
    have e: "ld' = (if fw_cov s3 AND ?m = ?m then start_full_fwd ba (lq_fwd_latency q) (fw_word s3) ld
        else start_mem cached (lq_mem_latency q) (fw_word s3) (fw_cov s3 AND ?m)
          (fw_overlap s3 \<and> fw_cov s3 AND ?m \<noteq> 0) ld)"
      using st nb nc False by (simp add: unf split: if_splits)
    show ?thesis unfolding e
      using rdy good_full [OF g] good_partial [where p = "fw_overlap s3 \<and> fw_cov s3 AND ?m \<noteq> 0", OF g p] by simp
  qed
qed

text \<open>
  What keeps a load from starting: an older store without its address or data or, with forwarding
  off, an older store to the same word that is still in the queue.
\<close>

lemma scan_not_blocked:
  assumes "\<forall>e \<in> set (lq_queue q). older_store ld e \<longrightarrow> le_addr_ready e \<and> le_data_ready e"
  shows "\<not> fw_blocked (scan_queue ba ld q)"
proof -
  have f: "fw_blocked (fold (fwd_lane d i ov) ks s) = fw_blocked s" for d i ov ks s
    by (induction ks arbitrary: s) (auto simp: fwd_lane_frame)
  have "\<not> fw_blocked (fold (fwd_entry ba ld) es s)"
    if "\<not> fw_blocked s" "\<forall>e \<in> set es. older_store ld e \<longrightarrow> le_addr_ready e \<and> le_data_ready e" for es s
    using that
  proof (induction es arbitrary: s)
    case (Cons e es)
    then have "\<not> fw_blocked (fwd_entry ba ld e s)" by (auto simp: fwd_entry_def older_store_def Let_def f)
    with Cons show ?case by simp
  qed simp
  then show ?thesis using assms by (simp add: scan_queue_def fwd0_def)
qed

definition may_start :: "bool \<Rightarrow> LSQEntry \<Rightarrow> LoadStoreQueue \<Rightarrow> bool" where
  "may_start ba ld q \<longleftrightarrow> (\<forall>e \<in> set (lq_queue q). older_store ld e \<longrightarrow>
     le_addr_ready e \<and> le_data_ready e
     \<and> (lq_store_forwarding q \<or> \<not> sameWord ba (le_address e) (le_address ld)))"

lemma load_starts: "(\<exists>ld'. load_start ba cached ld q = Some ld') \<longleftrightarrow> may_start ba ld q"
proof -
  have b: "fw_blocked (scan_queue ba ld q) \<longleftrightarrow>
      \<not> (\<forall>e \<in> set (lq_queue q). older_store ld e \<longrightarrow> le_addr_ready e \<and> le_data_ready e)"
    using scan_not_blocked [of q ld ba] scan_queue_inv [of ba ld q] by (auto simp: scan_inv_def)
  have c: "no_fwd_conflict ba ld e \<longleftrightarrow> older_store ld e \<and> (\<not> le_addr_ready e \<or> sameWord ba (le_address e) (le_address ld))" for e
    by (auto simp: no_fwd_conflict_def older_store_def)
  show ?thesis
    unfolding may_start_def load_start_def Let_def using b c by (auto split: if_splits)
qed

lemma load_start_accessing: "load_start ba cached ld q = Some ld' \<Longrightarrow> le_accessing ld'"
  by (auto simp: load_start_def Let_def start_full_fwd_def start_mem_def split: if_splits)


text \<open>A byte load past a younger word store, an older half-word store and a store-buffer entry.\<close>

definition fwd_ex_queue :: LoadStoreQueue where
  "fwd_ex_queue = (lsq_init 3 1 2 1 1 True 2)\<lparr>
     lq_queue := [lsq_entry0\<lparr>le_valid := True, le_inst_id := 3, le_addr_ready := True, le_address := 64,
                    le_data_ready := True, le_data := 0x11223344\<rparr>,
                  lsq_entry0\<lparr>le_valid := True, le_inst_id := 4, le_mem_size := SZ_H, le_addr_ready := True,
                    le_address := 66, le_data_ready := True, le_data := 0x5566\<rparr>,
                  lsq_entry0\<lparr>le_valid := True, le_is_load := True, le_inst_id := 9, le_mem_size := SZ_B,
                    le_addr_ready := True, le_address := 67\<rparr>]\<rparr>"


end
