(* ===== verification/ProcessorState.thy ===== *)
theory ProcessorState
  imports Decode Execute Golden Rename ReturnAddressStack GSharePredictor InstructionFetchQueue
    DispatchReg ReorderBuffer ReservationStation CdbArbiter ExecutionEngine LoadStoreQueue
begin

text \<open>
  The state of the processor of \<open>src/processor.cpp\<close>: configuration, counters, the metadata of
  an instruction in flight and the machine that owns every component. The globals
  \<open>MainMemory\<close> and \<open>MainMemoryByteAddressed\<close> are fields of the state. The table of in-flight
  instructions, an \<open>unordered_map\<close> keyed by instruction, is a list in some iteration order.
\<close>

section \<open>Configuration and counters\<close>

datatype BranchPredMode = GShare | AlwaysTaken

record ProcessorConfig =
  cfg_width :: nat
  cfg_num_regs :: nat
  cfg_rob_size :: nat
  cfg_rs_size :: nat
  cfg_lsq_size :: nat
  cfg_ifq_size :: nat
  cfg_cdb_width :: nat
  cfg_ras_size :: nat
  cfg_pht_size :: nat
  cfg_btb_size :: nat
  cfg_bp_mode :: BranchPredMode
  cfg_num_alu :: nat
  cfg_num_mul :: nat
  cfg_num_div :: nat
  cfg_alu_latency :: int
  cfg_mul_latency :: int
  cfg_div_latency :: int
  cfg_mem_latency :: int
  cfg_fwd_latency :: int
  cfg_store_forwarding :: bool
  cfg_initial_pc :: u64
  cfg_max_cycles :: i32
  cfg_num_br :: nat
  cfg_br_latency :: int
  cfg_num_lsq :: nat
  cfg_store_buf_depth :: int
  cfg_mem_system :: MemSystem
  cfg_cache_line_bytes :: nat
  cfg_dcache_sets :: nat
  cfg_dcache_ways :: nat
  cfg_icache_sets :: nat
  cfg_icache_ways :: nat
  cfg_dcache_mshr :: nat
  cfg_icache_mshr :: nat
  cfg_dcache_ufp_ports :: int
  cfg_mshr_waiters :: int
  cfg_load_hit_latency :: int
  cfg_fetch_hit_latency :: int
  cfg_dram_outstanding :: int
  cfg_dram_lat_cycles :: int
  cfg_dram_model :: int

definition config0 :: ProcessorConfig where
  "config0 = \<lparr>cfg_width = 4, cfg_num_regs = 32, cfg_rob_size = 32, cfg_rs_size = 32, cfg_lsq_size = 32,
     cfg_ifq_size = 32, cfg_cdb_width = 4, cfg_ras_size = 16, cfg_pht_size = 1024, cfg_btb_size = 256,
     cfg_bp_mode = GShare, cfg_num_alu = 2, cfg_num_mul = 1, cfg_num_div = 1, cfg_alu_latency = 1,
     cfg_mul_latency = 3, cfg_div_latency = 10, cfg_mem_latency = 1, cfg_fwd_latency = 1,
     cfg_store_forwarding = True, cfg_initial_pc = 0, cfg_max_cycles = 100000, cfg_num_br = 1,
     cfg_br_latency = 1, cfg_num_lsq = 2, cfg_store_buf_depth = 8, cfg_mem_system = Cached,
     cfg_cache_line_bytes = 32, cfg_dcache_sets = 16, cfg_dcache_ways = 4, cfg_icache_sets = 16,
     cfg_icache_ways = 4, cfg_dcache_mshr = 4, cfg_icache_mshr = 2, cfg_dcache_ufp_ports = 2,
     cfg_mshr_waiters = 4, cfg_load_hit_latency = 1, cfg_fetch_hit_latency = 1,
     cfg_dram_outstanding = 4, cfg_dram_lat_cycles = 10, cfg_dram_model = 0\<rparr>"

record ProcessorStats =
  st_cycles :: u64
  st_fetched :: u64
  st_issued :: u64
  st_committed :: u64
  st_committed_alu :: u64
  st_committed_mul :: u64
  st_committed_div :: u64
  st_committed_load :: u64
  st_committed_store :: u64
  st_committed_branch :: u64
  st_branches_resolved :: u64
  st_branch_mispredicts :: u64
  st_flushes :: u64
  st_squashed :: u64
  st_stall_front :: u64
  st_stall_rob :: u64
  st_stall_rs :: u64
  st_stall_lsq :: u64

definition stats0 :: ProcessorStats where
  "stats0 = \<lparr>st_cycles = 0, st_fetched = 0, st_issued = 0, st_committed = 0, st_committed_alu = 0,
     st_committed_mul = 0, st_committed_div = 0, st_committed_load = 0, st_committed_store = 0,
     st_committed_branch = 0, st_branches_resolved = 0, st_branch_mispredicts = 0, st_flushes = 0,
     st_squashed = 0, st_stall_front = 0, st_stall_rob = 0, st_stall_rs = 0, st_stall_lsq = 0\<rparr>"

section \<open>An instruction in flight\<close>

record InstInfo =
  ii_inst_id :: u32
  ii_rob_id :: tag
  ii_opcode :: string
  ii_pc :: u64
  ii_dest_reg :: int
  ii_src1_reg :: int
  ii_src2_reg :: int
  ii_imm :: i32
  ii_is_load :: bool
  ii_is_store :: bool
  ii_is_branch :: bool
  ii_is_call :: bool
  ii_is_ret :: bool
  ii_is_addi :: bool
  ii_mem_size :: MemSize
  ii_mem_unsigned :: bool
  ii_has_uop :: bool
  ii_op :: Op
  ii_fu :: Fu
  ii_src2_is_imm :: bool
  ii_is_jump :: bool
  ii_rd_used :: bool
  ii_src1_ready :: bool
  ii_src1_tag :: "tag option"
  ii_src1_val :: i32
  ii_src2_ready :: bool
  ii_src2_tag :: "tag option"
  ii_src2_val :: i32
  ii_store_data_ready :: bool
  ii_store_data_tag :: "tag option"
  ii_store_data_val :: i32
  ii_addr_computed :: bool
  ii_address :: i32
  ii_dispatched_alu :: bool
  ii_dispatched_load :: bool
  ii_predicted_taken :: bool
  ii_predicted_target :: u64
  ii_fallthrough_pc :: u64
  ii_completed :: bool
  ii_mispredicted :: bool
  ii_recovery_pc :: u64
  ii_br_resolved :: bool
  ii_br_taken :: bool
  ii_br_next_pc :: u64
  ii_rat_snapshot :: "tag option list"
  ii_ras_tos :: nat
  ii_ras_count :: nat
  ii_ras_stack :: "u64 list"
  ii_ras_had_return :: bool
  ii_ras_ret_target :: u64

text \<open>The defaults; the tag \<open>-1\<close> of a fresh record is overwritten before the record is stored.\<close>

definition inst_info0 :: InstInfo where
  "inst_info0 = \<lparr>ii_inst_id = 0, ii_rob_id = 0, ii_opcode = '''', ii_pc = 0, ii_dest_reg = -1,
     ii_src1_reg = -1, ii_src2_reg = -1, ii_imm = 0, ii_is_load = False, ii_is_store = False,
     ii_is_branch = False, ii_is_call = False, ii_is_ret = False, ii_is_addi = False,
     ii_mem_size = SZ_W, ii_mem_unsigned = False, ii_has_uop = False, ii_op = UOP_NOP, ii_fu = FU_ALU,
     ii_src2_is_imm = False, ii_is_jump = False, ii_rd_used = False,
     ii_src1_ready = False, ii_src1_tag = None, ii_src1_val = 0,
     ii_src2_ready = False, ii_src2_tag = None, ii_src2_val = 0,
     ii_store_data_ready = False, ii_store_data_tag = None, ii_store_data_val = 0,
     ii_addr_computed = False, ii_address = 0, ii_dispatched_alu = False, ii_dispatched_load = False,
     ii_predicted_taken = False, ii_predicted_target = 0, ii_fallthrough_pc = 0, ii_completed = False,
     ii_mispredicted = False, ii_recovery_pc = 0, ii_br_resolved = False, ii_br_taken = False,
     ii_br_next_pc = 0, ii_rat_snapshot = [], ii_ras_tos = 0, ii_ras_count = 0, ii_ras_stack = [],
     ii_ras_had_return = False, ii_ras_ret_target = 0\<rparr>"

definition isControl :: "InstInfo \<Rightarrow> bool" where
  "isControl i \<longleftrightarrow> ii_is_branch i \<or> ii_is_jump i \<or> ii_is_call i \<or> ii_is_ret i"

section \<open>The machine\<close>

record FetchBuf =
  fb_valid :: bool
  fb_eop :: bool
  fb_count :: nat
  fb_words :: "u32 list"
  fb_pcs :: "u64 list"
  fb_pred_taken :: "bool list"
  fb_pred_target :: "u64 list"

definition fetch_buf0 :: FetchBuf where
  "fetch_buf0 = \<lparr>fb_valid = False, fb_eop = False, fb_count = 0, fb_words = [], fb_pcs = [],
     fb_pred_taken = [], fb_pred_target = []\<rparr>"

record Processor =
  p_config :: ProcessorConfig
  p_ifq :: InstructionFetchQueue
  p_dispatch_reg :: DispatchReg
  p_rat :: RegisterAliasTable
  p_rat_ckpts :: RatCheckpoints
  p_rs :: ReservationStation
  p_rob :: ReorderBuffer
  p_lsq :: LoadStoreQueue
  p_ee :: ExecutionEngine
  p_cdb_arbiter :: CdbArbiter
  p_predictor :: GSharePredictor
  p_ras :: ReturnAddressStack
  p_memsys :: MemorySystem
  p_arf :: "i32 list"
  p_icache :: "u64 \<rightharpoonup> FetchedInstruction"
  p_hex_mode :: bool
  p_fetch_halted :: bool
  p_imem_req_outstanding :: bool
  p_ideal_fetch_countdown :: nat
  p_ideal_fetch_pc :: u64
  p_imem :: "u32 list"
  p_fetch_buf :: FetchBuf
  p_fetch_req_pred_taken :: "bool list"
  p_fetch_req_pred_target :: "u64 list"
  p_fetch_redirect_hold :: bool
  p_freed_rob_tags :: "tag list"
  p_cdb_wakeup_pending :: "(tag \<times> i32) list"
  p_fetch_pc :: u64
  p_cycle_count :: u64
  p_next_inst_id :: u32
  p_inst_table :: "InstInfo list"
  p_self_check :: bool
  p_stats :: ProcessorStats
  p_mem :: "i32 list"
  p_byte_addressed :: bool

definition memory_config :: "ProcessorConfig \<Rightarrow> CachedMemConfig" where
  "memory_config cfg = \<lparr>cf_fetch_width = int (cfg_width cfg), cf_line_bytes = cfg_cache_line_bytes cfg,
     cf_d_sets = cfg_dcache_sets cfg, cf_d_ways = cfg_dcache_ways cfg, cf_d_mshr = cfg_dcache_mshr cfg,
     cf_d_ufp = cfg_dcache_ufp_ports cfg, cf_d_mshr_waiters = cfg_mshr_waiters cfg,
     cf_i_sets = cfg_icache_sets cfg, cf_i_ways = cfg_icache_ways cfg, cf_i_mshr = cfg_icache_mshr cfg,
     cf_dram_outstanding = cfg_dram_outstanding cfg, cf_dram_lat = cfg_dram_lat_cycles cfg,
     cf_load_hit_latency = cfg_load_hit_latency cfg, cf_fetch_hit_latency = cfg_fetch_hit_latency cfg\<rparr>"

text \<open>The constructor; \<open>None\<close> is a failed assertion of a component's constructor.\<close>

definition proc_init :: "ProcessorConfig \<Rightarrow> i32 list \<Rightarrow> bool \<Rightarrow> Processor option" where
  "proc_init cfg mem byte_addressed = do {
     dr \<leftarrow> dr_init (cfg_width cfg);
     arb \<leftarrow> arb_init (cfg_cdb_width cfg)
       (cfg_num_alu cfg + cfg_num_mul cfg + cfg_num_div cfg + cfg_num_br cfg + cfg_num_lsq cfg);
     ms \<leftarrow> (if cfg_mem_system cfg = Cached then map_option CachedMemory (cached_init (memory_config cfg))
           else Some (IdealMemory (ideal_init (int (cfg_width cfg)))));
     Some \<lparr>p_config = cfg, p_ifq = ifq_init (cfg_ifq_size cfg), p_dispatch_reg = dr,
       p_rat = rat_init (cfg_num_regs cfg), p_rat_ckpts = ck_init (cfg_rob_size cfg) (cfg_num_regs cfg),
       p_rs = rs_init (cfg_rs_size cfg), p_rob = rob_init (cfg_rob_size cfg),
       p_lsq = lsq_init (cfg_lsq_size cfg) (cfg_num_lsq cfg) (cfg_store_buf_depth cfg) (cfg_mem_latency cfg)
         (cfg_fwd_latency cfg) (cfg_store_forwarding cfg) (cfg_width cfg),
       p_ee = ee_init (cfg_num_alu cfg) (cfg_num_mul cfg) (cfg_num_div cfg) (cfg_num_br cfg)
         (cfg_alu_latency cfg) (cfg_mul_latency cfg) (cfg_div_latency cfg) (cfg_br_latency cfg),
       p_cdb_arbiter = arb, p_predictor = gs_init (cfg_pht_size cfg) (cfg_btb_size cfg),
       p_ras = ras_init (cfg_ras_size cfg), p_memsys = ms, p_arf = replicate (cfg_num_regs cfg) 0,
       p_icache = Map.empty, p_hex_mode = False, p_fetch_halted = False, p_imem_req_outstanding = False,
       p_ideal_fetch_countdown = 0, p_ideal_fetch_pc = 0, p_imem = [], p_fetch_buf = fetch_buf0,
       p_fetch_req_pred_taken = [], p_fetch_req_pred_target = [], p_fetch_redirect_hold = False,
       p_freed_rob_tags = [], p_cdb_wakeup_pending = [], p_fetch_pc = cfg_initial_pc cfg,
       p_cycle_count = 0, p_next_inst_id = 0, p_inst_table = [], p_self_check = False,
       p_stats = stats0, p_mem = mem, p_byte_addressed = byte_addressed\<rparr> }"

definition useCachedMem :: "Processor \<Rightarrow> bool" where
  "useCachedMem p \<longleftrightarrow> kind (p_memsys p) = Some Cached"

text \<open>A later instruction with the same pc replaces an earlier one.\<close>

definition loadInstructionCacheFromVector :: "FetchedInstruction list \<Rightarrow> Processor \<Rightarrow> Processor" where
  "loadInstructionCacheFromVector program p =
     p\<lparr>p_icache := map_of (rev (map (\<lambda>i. (f_pc i, i)) program))\<rparr>"

definition mem_init_word :: "i32 \<times> i32 \<Rightarrow> i32 list \<Rightarrow> i32 list" where
  "mem_init_word = (\<lambda>(a, v) m. if 0 \<le> sint a \<and> nat (sint a) < length m then m[nat (sint a) := v] else m)"

definition loadInstructionCache :: "ParsedProgram \<Rightarrow> Processor \<Rightarrow> Processor" where
  "loadInstructionCache prog p = p\<lparr>p_hex_mode := False, p_fetch_halted := False, p_imem := [],
     p_byte_addressed := False, p_ifq := ifq_flush (p_ifq p), p_dispatch_reg := dr_flush (p_dispatch_reg p),
     p_icache := pp_icache prog, p_mem := fold mem_init_word (pp_mem_init prog) (p_mem p)\<rparr>"

text \<open>
  Loading a hex image: \<open>iwords\<close> is the instruction image and \<open>dwords\<close> the data image (empty
  without a data file). The instruction cache reads the image that is loaded here.
\<close>

definition set_cached :: "(CachedMemorySystem \<Rightarrow> CachedMemorySystem) \<Rightarrow> MemorySystem \<Rightarrow> MemorySystem" where
  "set_cached f ms = (case ms of CachedMemory c \<Rightarrow> CachedMemory (f c) | _ \<Rightarrow> ms)"

definition loadHexProgram :: "u32 list \<Rightarrow> u32 list \<Rightarrow> Processor \<Rightarrow> Processor" where
  "loadHexProgram iwords dwords p = p\<lparr>p_hex_mode := True, p_fetch_halted := False, p_icache := Map.empty,
     p_ifq := ifq_flush (p_ifq p), p_dispatch_reg := dr_flush (p_dispatch_reg p),
     p_config := (p_config p)\<lparr>cfg_num_regs := 32, cfg_initial_pc := 0\<rparr>, p_fetch_pc := 0,
     p_arf := replicate 32 0, p_rat := rat_init 32, p_rat_ckpts := ck_init (cfg_rob_size (p_config p)) 32,
     p_imem := iwords, p_imem_req_outstanding := False, p_fetch_buf := fetch_buf0,
     p_fetch_req_pred_taken := [], p_fetch_req_pred_target := [], p_fetch_redirect_hold := False,
     p_memsys := set_cached (\<lambda>c. cached_reset (cached_setInstrMem (Some iwords) c)) (p_memsys p),
     p_byte_addressed := True,
     p_mem := take (length (p_mem p)) dwords @ replicate (length (p_mem p) - length dwords) 0\<rparr>"

definition INSTR_INVALID :: u32 where
  "INSTR_INVALID = 0xFFFFFFFF"

definition imemWord :: "u64 \<Rightarrow> Processor \<Rightarrow> u32 option" where
  "imemWord pc p = (if pc AND 3 \<noteq> 0 then None
     else if length (p_imem p) \<le> unat (drop_bit 2 pc) then None
     else Some (p_imem p ! unat (drop_bit 2 pc)))"

section \<open>Names and classes of operations\<close>

fun opRobName :: "Op \<Rightarrow> string" where
  "opRobName ALU_ADD = ''ADD''" | "opRobName ALU_SUB = ''SUB''" | "opRobName ALU_SLL = ''SLL''"
| "opRobName ALU_SLT = ''SLT''" | "opRobName ALU_SLTU = ''SLTU''" | "opRobName ALU_XOR = ''XOR''"
| "opRobName ALU_SRL = ''SRL''" | "opRobName ALU_SRA = ''SRA''" | "opRobName ALU_OR = ''OR''"
| "opRobName ALU_AND = ''AND''" | "opRobName ALU_LUI = ''LUI''" | "opRobName ALU_AUIPC = ''AUIPC''"
| "opRobName MD_MUL = ''MUL''" | "opRobName MD_MULH = ''MULH''" | "opRobName MD_MULHSU = ''MULHSU''"
| "opRobName MD_MULHU = ''MULHU''" | "opRobName MD_DIV = ''DIV''" | "opRobName MD_DIVU = ''DIVU''"
| "opRobName MD_REM = ''REM''" | "opRobName MD_REMU = ''REMU''"
| "opRobName BR_EQ = ''BEQ''" | "opRobName BR_NE = ''BNE''" | "opRobName BR_LT = ''BLT''"
| "opRobName BR_GE = ''BGE''" | "opRobName BR_LTU = ''BLTU''" | "opRobName BR_GEU = ''BGEU''"
| "opRobName BR_JAL = ''JAL''" | "opRobName BR_JALR = ''JALR''"
| "opRobName MEM_LB = ''LB''" | "opRobName MEM_LH = ''LH''" | "opRobName MEM_LW = ''LW''"
| "opRobName MEM_LBU = ''LBU''" | "opRobName MEM_LHU = ''LHU''"
| "opRobName MEM_SB = ''SB''" | "opRobName MEM_SH = ''SH''" | "opRobName MEM_SW = ''SW''"
| "opRobName UOP_NOP = ''NOP''"

definition isLinkReg :: "int \<Rightarrow> bool" where
  "isLinkReg r \<longleftrightarrow> r = 1 \<or> r = 5"

definition isJalrReturn :: "Uop \<Rightarrow> bool" where
  "isJalrReturn u \<longleftrightarrow> u_op u = BR_JALR \<and> u_rd u = 0 \<and> isLinkReg (u_rs1 u)"

definition isJalrCall :: "Uop \<Rightarrow> bool" where
  "isJalrCall u \<longleftrightarrow> u_op u = BR_JALR \<and> isLinkReg (u_rd u)"

definition isMemoryOp :: "string \<Rightarrow> bool" where
  "isMemoryOp op \<longleftrightarrow> iequals op ''LOAD'' \<or> iequals op ''STORE''"

definition isBranchOp :: "string \<Rightarrow> bool" where
  "isBranchOp op \<longleftrightarrow> iequals op ''BEQ'' \<or> iequals op ''BNE'' \<or> iequals op ''CALL'' \<or> iequals op ''RET''"

section \<open>The table of instructions in flight\<close>

definition findInstById :: "u32 \<Rightarrow> Processor \<Rightarrow> InstInfo option" where
  "findInstById iid p = find (\<lambda>i. ii_inst_id i = iid) (p_inst_table p)"

definition findInstByRobId :: "tag \<Rightarrow> Processor \<Rightarrow> InstInfo option" where
  "findInstByRobId t p = find (\<lambda>i. ii_rob_id i = t) (p_inst_table p)"

text \<open>Writing through a pointer into the table, insertion and erasure.\<close>

definition upd_inst :: "u32 \<Rightarrow> (InstInfo \<Rightarrow> InstInfo) \<Rightarrow> Processor \<Rightarrow> Processor" where
  "upd_inst iid f p = p\<lparr>p_inst_table := map (\<lambda>i. if ii_inst_id i = iid then f i else i) (p_inst_table p)\<rparr>"

definition table_put :: "InstInfo \<Rightarrow> InstInfo list \<Rightarrow> InstInfo list" where
  "table_put i ts = (if ii_inst_id i \<in> ii_inst_id ` set ts
     then map (\<lambda>j. if ii_inst_id j = ii_inst_id i then i else j) ts else ts @ [i])"

definition table_erase :: "u32 \<Rightarrow> InstInfo list \<Rightarrow> InstInfo list" where
  "table_erase iid ts = filter (\<lambda>i. ii_inst_id i \<noteq> iid) ts"

definition upd_stats :: "(ProcessorStats \<Rightarrow> ProcessorStats) \<Rightarrow> Processor \<Rightarrow> Processor" where
  "upd_stats f p = p\<lparr>p_stats := f (p_stats p)\<rparr>"

section \<open>Reading an operand\<close>

text \<open>Ready, tag and value of a source register at rename.\<close>

definition resolveOperand :: "int \<Rightarrow> Processor \<Rightarrow> bool \<times> tag option \<times> i32" where
  "resolveOperand r p =
    (if r \<le> 0 \<or> int (cfg_num_regs (p_config p)) \<le> r then (True, None, 0)
     else case rat_lookup (p_rat p) r of
        None \<Rightarrow> (True, None, p_arf p ! nat r)
      | Some t \<Rightarrow> if rob_isReady (p_rob p) t then (True, Some t, rob_getValue (p_rob p) t)
                  else (False, Some t, 0))"

end
