(* ===== verification/ProcessorFront.thy ===== *)
theory ProcessorFront
  imports ProcessorState
begin

text \<open>
  The front end of \<open>src/processor.cpp\<close>: branch prediction at fetch, the three fetch paths
  (toy trace, ideal instruction memory, instruction cache with its skid buffer) and decode.
  \<open>None\<close> is a failed assertion or a read outside a vector.
\<close>

section \<open>Prediction\<close>

abbreviation set_prediction :: "bool \<Rightarrow> u64 \<Rightarrow> FetchedInstruction \<Rightarrow> FetchedInstruction" where
  "set_prediction tk tg inst \<equiv> inst\<lparr>f_predicted_taken := tk, f_predicted_target := tg\<rparr>"

abbreviation set_snapshot :: "ReturnAddressStack \<Rightarrow> FetchedInstruction \<Rightarrow> FetchedInstruction" where
  "set_snapshot s inst \<equiv> inst\<lparr>f_ras_tos := fst (ras_getFullSnapshot s),
     f_ras_count := fst (snd (ras_getFullSnapshot s)), f_ras_stack := snd (snd (ras_getFullSnapshot s))\<rparr>"

text \<open>The start of both prediction functions.\<close>

definition reset_prediction :: "u64 \<Rightarrow> FetchedInstruction \<Rightarrow> FetchedInstruction" where
  "reset_prediction pc inst =
     (set_prediction False (pc + INSTR_SIZE) inst)\<lparr>f_ras_had_return := False, f_ras_ret_target := 0\<rparr>"

definition predictGShare :: "u64 \<Rightarrow> FetchedInstruction \<Rightarrow> Processor \<Rightarrow> FetchedInstruction option" where
  "predictGShare pc inst p = (case gs_predict (p_predictor p) pc of
     None \<Rightarrow> None
   | Some (pt, target) \<Rightarrow> Some (set_prediction pt (if pt then target else pc + INSTR_SIZE) inst))"

definition predictHexControl ::
    "u64 \<Rightarrow> Uop \<Rightarrow> FetchedInstruction \<Rightarrow> bool \<Rightarrow> Processor \<Rightarrow> (FetchedInstruction \<times> Processor) option" where
  "predictHexControl pc peek inst0 apply_ras p =
    (let inst = reset_prediction pc inst0 in
     if \<not> (u_is_branch peek \<or> u_is_jump peek) then Some (inst, p)
     else if cfg_bp_mode (p_config p) = AlwaysTaken then
       (let inst1 = (if apply_ras then set_snapshot (p_ras p) inst else inst) in
        if u_op peek = BR_JAL then
          Some (set_prediction True (pc + scast (u_imm peek)) inst1,
            if apply_ras \<and> isLinkReg (u_rd peek) then p\<lparr>p_ras := ras_push (pc + INSTR_SIZE) (p_ras p)\<rparr> else p)
        else if u_op peek = BR_JALR then
          (if isJalrReturn peek then
             (let popped = (if apply_ras then ras_pop (p_ras p)
                            else map_option (\<lambda>t. (t, p_ras p)) (ras_peek (p_ras p))) in
              case popped of
                None \<Rightarrow> Some (inst1, p)
              | Some (ret_target, s) \<Rightarrow>
                  Some ((set_prediction True ret_target inst1)\<lparr>f_ras_had_return := True, f_ras_ret_target := ret_target\<rparr>,
                    p\<lparr>p_ras := s\<rparr>))
           else if isJalrCall peek then
             Some (inst1, if apply_ras then p\<lparr>p_ras := ras_push (pc + INSTR_SIZE) (p_ras p)\<rparr> else p)
           else Some (inst1, p))
        else Some (set_prediction True (pc + scast (u_imm peek)) inst1, p))
     else map_option (\<lambda>i. (i, p)) (predictGShare pc inst p))"

definition predictToyControl :: "FetchedInstruction \<Rightarrow> Processor \<Rightarrow> (FetchedInstruction \<times> Processor) option" where
  "predictToyControl inst0 p =
    (let pc = f_pc inst0; inst = set_snapshot (p_ras p) (reset_prediction pc inst0) in
     if iequals (f_opcode inst) ''CALL'' then
       Some (set_prediction True (if f_imm inst \<noteq> 0 then scast (f_imm inst) else word_of_int (f_src1_reg inst)) inst,
         p\<lparr>p_ras := ras_push (pc + INSTR_SIZE) (p_ras p)\<rparr>)
     else if iequals (f_opcode inst) ''RET'' then
       (case ras_pop (p_ras p) of
          None \<Rightarrow> Some (inst, p)
        | Some (ret_target, s) \<Rightarrow>
            (let inst1 = inst\<lparr>f_ras_had_return := True, f_ras_ret_target := ret_target\<rparr> in
             Some (if cfg_bp_mode (p_config p) = AlwaysTaken then set_prediction True ret_target inst1 else inst1,
               p\<lparr>p_ras := s\<rparr>)))
     else if \<not> isBranchOp (f_opcode inst) then Some (inst, p)
     else if cfg_bp_mode (p_config p) = AlwaysTaken then
       Some (set_prediction True (scast (f_imm inst)) inst, p)
     else map_option (\<lambda>i. (i, p)) (predictGShare pc inst p))"

section \<open>Fetch\<close>

text \<open>Result: accepted, redirected, state.\<close>

definition fetchEnqueueHexWord :: "u32 \<Rightarrow> u64 \<Rightarrow> Processor \<Rightarrow> (bool \<times> bool \<times> Processor) option" where
  "fetchEnqueueHexWord w pc p =
    (if w = INSTR_INVALID then Some (False, False, p\<lparr>p_fetch_halted := True\<rparr>)
     else if ifq_isFull (p_ifq p) then Some (False, False, p)
     else do {
       (inst, p1) \<leftarrow> predictHexControl pc (decodeInstruction w pc)
          (fetched0\<lparr>f_pc := pc, f_raw_instr := w, f_has_uop := False\<rparr>) True p;
       (case ifq_enqueue inst (p_ifq p1) of
          None \<Rightarrow> Some (False, False, p1)
        | Some q \<Rightarrow>
            (let p2 = upd_stats (\<lambda>s. s\<lparr>st_fetched := st_fetched s + 1\<rparr>) (p1\<lparr>p_ifq := q\<rparr>) in
             if f_predicted_taken inst then Some (True, True, p2\<lparr>p_fetch_pc := f_predicted_target inst\<rparr>)
             else Some (True, False, p2\<lparr>p_fetch_pc := pc + INSTR_SIZE\<rparr>))) })"

text \<open>
  Capturing an instruction-cache response into the skid buffer: the words from index \<open>i\<close> on
  with the predictions made at the request. The flag of the result says that a taken
  prediction ended the bundle, with its target.
\<close>

fun capture_words :: "bool list \<Rightarrow> u64 list \<Rightarrow> u64 \<Rightarrow> nat \<Rightarrow> u32 list \<Rightarrow> FetchBuf \<Rightarrow> FetchBuf \<times> u64 option" where
  "capture_words pts tgts pc0 i [] b = (b, None)"
| "capture_words pts tgts pc0 i (w # ws) b =
    (if w = INSTR_INVALID then (b\<lparr>fb_eop := True\<rparr>, None)
     else let pc = pc0 + of_nat (4 * i);
              pt = (if i < length pts then pts ! i else False);
              tg = (if i < length tgts then tgts ! i else pc + INSTR_SIZE);
              b' = b\<lparr>fb_words := fb_words b @ [w], fb_pcs := fb_pcs b @ [pc],
                     fb_pred_taken := fb_pred_taken b @ [pt], fb_pred_target := fb_pred_target b @ [tg],
                     fb_count := fb_count b + 1\<rparr>
          in if pt then (b', Some tg) else capture_words pts tgts pc0 (Suc i) ws b')"

definition capture_response :: "ImemResp \<Rightarrow> Processor \<Rightarrow> Processor" where
  "capture_response r p =
    (let (b, tk) = capture_words (p_fetch_req_pred_taken p) (p_fetch_req_pred_target p)
           (ucast (ir_pc r)) 0 (take (ir_count r) (ir_words r)) (fetch_buf0\<lparr>fb_valid := True\<rparr>);
         next_pc = (case tk of Some tg \<Rightarrow> tg
           | None \<Rightarrow> if fb_eop b then p_fetch_pc p else ucast (ir_pc r) + of_nat (4 * fb_count b))
     in p\<lparr>p_imem_req_outstanding := False, p_fetch_pc := next_pc, p_fetch_buf := b,
          p_fetch_req_pred_taken := [], p_fetch_req_pred_target := []\<rparr>)"

text \<open>Draining the skid buffer into the queue, from index \<open>i\<close> on.\<close>

definition drain_one :: "FetchBuf \<Rightarrow> nat \<Rightarrow> Processor \<Rightarrow> (FetchedInstruction \<times> Processor) option" where
  "drain_one b i p =
    (let inst = fetched0\<lparr>f_pc := fb_pcs b ! i, f_raw_instr := fb_words b ! i, f_has_uop := False\<rparr> in
     if cfg_bp_mode (p_config p) = AlwaysTaken
     then predictHexControl (f_pc inst) (decodeInstruction (f_raw_instr inst) (f_pc inst)) inst True p
     else Some (set_prediction (fb_pred_taken b ! i) (fb_pred_target b ! i) inst, p))"

fun drain_words :: "FetchBuf \<Rightarrow> nat list \<Rightarrow> Processor \<Rightarrow> Processor option" where
  "drain_words b [] p = Some p"
| "drain_words b (i # is) p = do {
     (inst, p1) \<leftarrow> drain_one b i p;
     (case ifq_enqueue inst (p_ifq p1) of
        None \<Rightarrow> Some p1
      | Some q \<Rightarrow>
          (let p2 = upd_stats (\<lambda>s. s\<lparr>st_fetched := st_fetched s + 1\<rparr>) (p1\<lparr>p_ifq := q\<rparr>) in
           if f_predicted_taken inst then Some p2 else drain_words b is p2)) }"

text \<open>The predictions captured with a request, for the words from index \<open>i\<close> on.\<close>

fun request_preds :: "nat list \<Rightarrow> Processor \<Rightarrow> bool list \<times> u64 list \<Rightarrow> (bool list \<times> u64 list) option" where
  "request_preds [] p r = Some r"
| "request_preds (i # is) p (pts, tgts) =
    (let pc = p_fetch_pc p + of_nat (4 * i); tgts1 = tgts[i := pc + INSTR_SIZE] in
     case imemWord pc p of
       None \<Rightarrow> request_preds is p (pts, tgts1)
     | Some w \<Rightarrow>
         if w = INSTR_INVALID then request_preds is p (pts, tgts1)
         else (case predictHexControl pc (decodeInstruction w pc) fetched0 False p of
             None \<Rightarrow> None
           | Some (tmp, _) \<Rightarrow>
               (let r = (pts[i := f_predicted_taken tmp], tgts1[i := f_predicted_target tmp]) in
                if f_predicted_taken tmp then Some r else request_preds is p r)))"

definition fetch_cached :: "Processor \<Rightarrow> Processor option" where
  "fetch_cached p0 =
    (let skip_req = p_fetch_redirect_hold p0;
         p = p0\<lparr>p_fetch_redirect_hold := False\<rparr>;
         buf_was_valid = fb_valid (p_fetch_buf p);
         can_request = (\<not> skip_req \<and> \<not> p_fetch_halted p \<and> \<not> p_imem_req_outstanding p \<and> \<not> buf_was_valid)
     in do {
       p1 \<leftarrow> (if p_imem_req_outstanding p \<and> \<not> buf_was_valid
             then do { (r, ms) \<leftarrow> popImemResp (p_memsys p);
                       (let p' = p\<lparr>p_memsys := ms\<rparr> in
                        case r of None \<Rightarrow> Some p' | Some resp \<Rightarrow> Some (capture_response resp p')) }
             else Some p);
       p2 \<leftarrow> (let b = p_fetch_buf p1 in
             if buf_was_valid \<and> (fb_count b = 0 \<or>
                 ifq_getOccupancy (p_ifq p1) + fb_count b \<le> cfg_ifq_size (p_config p1))
             then do { p' \<leftarrow> drain_words b [0..<fb_count b] p1;
                       Some (let p'' = p'\<lparr>p_fetch_buf := fetch_buf0\<rparr> in
                             if fb_eop b then p''\<lparr>p_fetch_halted := True\<rparr> else p'') }
             else Some p1);
       (if can_request
        then do {
          let w = cfg_width (p_config p2);
          (pts, tgts) \<leftarrow> request_preds [0..<w] p2 (replicate w False, replicate w 0);
          let p3 = p2\<lparr>p_fetch_req_pred_taken := pts, p_fetch_req_pred_target := tgts\<rparr>;
          (ok, ms) \<leftarrow> tryImemReq (ucast (p_fetch_pc p3)) (p_memsys p3);
          (let p4 = p3\<lparr>p_memsys := ms\<rparr> in
           Some (if ok then p4\<lparr>p_imem_req_outstanding := True\<rparr> else p4)) }
        else Some p2) })"

text \<open>The words of a registered ideal fetch, from index \<open>i\<close> on.\<close>

fun ideal_words :: "nat list \<Rightarrow> Processor \<Rightarrow> Processor option" where
  "ideal_words [] p = Some p"
| "ideal_words (i # is) p =
    (let pc = p_ideal_fetch_pc p + of_nat (4 * i) in
     case imemWord pc p of
       None \<Rightarrow> Some (p\<lparr>p_fetch_halted := True\<rparr>)
     | Some w \<Rightarrow>
         if w = INSTR_INVALID then Some (p\<lparr>p_fetch_halted := True\<rparr>)
         else do {
           (ok, redirected, p') \<leftarrow> fetchEnqueueHexWord w pc p;
           (if \<not> ok \<or> redirected then Some p' else ideal_words is p') })"

definition ideal_request :: "Processor \<Rightarrow> Processor" where
  "ideal_request p =
    (if \<not> p_imem_req_outstanding p \<and> \<not> p_fetch_halted p \<and>
        ifq_getOccupancy (p_ifq p) + cfg_width (p_config p) \<le> cfg_ifq_size (p_config p)
     then (case imemWord (p_fetch_pc p) p of
             None \<Rightarrow> p\<lparr>p_fetch_halted := True\<rparr>
           | Some w \<Rightarrow> if w = INSTR_INVALID then p\<lparr>p_fetch_halted := True\<rparr>
               else p\<lparr>p_imem_req_outstanding := True, p_ideal_fetch_pc := p_fetch_pc p,
                      p_ideal_fetch_countdown := 1\<rparr>)
     else p)"

definition fetch_ideal :: "Processor \<Rightarrow> Processor option" where
  "fetch_ideal p = do {
     p1 \<leftarrow> (if p_imem_req_outstanding p \<and> p_ideal_fetch_countdown p = 0
           then do { p' \<leftarrow> ideal_words [0..<cfg_width (p_config p)] p;
                     Some (p'\<lparr>p_imem_req_outstanding := False\<rparr>) }
           else Some p);
     let p2 = ideal_request p1;
     Some (if p_imem_req_outstanding p2 \<and> 0 < p_ideal_fetch_countdown p2
           then p2\<lparr>p_ideal_fetch_countdown := p_ideal_fetch_countdown p2 - 1\<rparr> else p2) }"

text \<open>
  The trace loop, with \<open>n\<close> iterations left. Its branch for a hex image is not reached: the two
  hex paths above return first.
\<close>

fun fetch_toy :: "nat \<Rightarrow> Processor \<Rightarrow> Processor option" where
  "fetch_toy 0 p = Some p"
| "fetch_toy (Suc n) p =
    (if ifq_isFull (p_ifq p) then Some p
     else case p_icache p (p_fetch_pc p) of
        None \<Rightarrow> Some p
      | Some i0 \<Rightarrow> do {
          (inst, p1) \<leftarrow> predictToyControl (i0\<lparr>f_pc := p_fetch_pc p\<rparr>) p;
          (case ifq_enqueue inst (p_ifq p1) of
             None \<Rightarrow> Some p1
           | Some q \<Rightarrow>
               (let p2 = upd_stats (\<lambda>s. s\<lparr>st_fetched := st_fetched s + 1\<rparr>) (p1\<lparr>p_ifq := q\<rparr>) in
                if f_predicted_taken inst then Some (p2\<lparr>p_fetch_pc := f_predicted_target inst\<rparr>)
                else fetch_toy n (p2\<lparr>p_fetch_pc := p_fetch_pc p2 + INSTR_SIZE\<rparr>))) })"

definition fetchStage :: "Processor \<Rightarrow> Processor option" where
  "fetchStage p =
    (if p_hex_mode p \<and> p_fetch_halted p then Some p
     else if p_hex_mode p \<and> useCachedMem p then fetch_cached p
     else if p_hex_mode p then fetch_ideal p
     else fetch_toy (cfg_width (p_config p)) p)"

section \<open>Decode\<close>

definition decodeForDispatch :: "FetchedInstruction \<Rightarrow> Processor \<Rightarrow> FetchedInstruction" where
  "decodeForDispatch fetched p =
    (if \<not> p_hex_mode p \<or> f_has_uop fetched then fetched
     else let uop = (decodeInstruction (f_raw_instr fetched) (f_pc fetched))
                \<lparr>u_pred_taken := f_predicted_taken fetched, u_pred_target := f_predicted_target fetched\<rparr>
          in fetched\<lparr>f_has_uop := True, f_uop := uop, f_opcode := opRobName (u_op uop),
               f_dest_reg := (if u_rd_used uop then u_rd uop else 0), f_src1_reg := u_rs1 uop,
               f_src2_reg := u_rs2 uop, f_imm := u_imm uop\<rparr>)"

fun decode_bundle :: "nat \<Rightarrow> Processor \<Rightarrow> FetchedInstruction list \<times> Processor" where
  "decode_bundle 0 p = ([], p)"
| "decode_bundle (Suc n) p = (case ifq_dequeue (p_ifq p) of
     None \<Rightarrow> ([], p)
   | Some (fetched, q) \<Rightarrow>
      (let (b, p') = decode_bundle n (p\<lparr>p_ifq := q\<rparr>) in (decodeForDispatch fetched p # b, p')))"

definition decodeStage :: "Processor \<Rightarrow> Processor option" where
  "decodeStage p =
    (if \<not> dr_canCapture (p_dispatch_reg p) then Some p
     else let (bundle, p') = decode_bundle (cfg_width (p_config p)) p in
       map_option (\<lambda>d. p'\<lparr>p_dispatch_reg := d\<rparr>) (dr_capture bundle (p_dispatch_reg p')))"

end
