(* ===== verification/ProcessorBack.thy ===== *)
theory ProcessorBack
  imports ProcessorState
begin

text \<open>
  The back end of \<open>src/processor.cpp\<close>: rename, operand wake-up, issue to the functional units,
  the resolve bus with early recovery, the common data bus and in-order commit.
\<close>

section \<open>Wake-up\<close>

definition wake_src :: "tag \<Rightarrow> i32 \<Rightarrow> InstInfo \<Rightarrow> InstInfo" where
  "wake_src t v i =
    (let i1 = (if \<not> ii_src1_ready i \<and> ii_src1_tag i = Some t
               then i\<lparr>ii_src1_ready := True, ii_src1_val := v\<rparr> else i)
     in if \<not> ii_src2_ready i1 \<and> ii_src2_tag i1 = Some t
        then i1\<lparr>ii_src2_ready := True, ii_src2_val := v\<rparr> else i1)"

definition wakes_store :: "tag \<Rightarrow> InstInfo \<Rightarrow> bool" where
  "wakes_store t i \<longleftrightarrow> \<not> ii_completed i \<and> ii_is_store i \<and> \<not> ii_store_data_ready i \<and> ii_store_data_tag i = Some t"

definition wake_info :: "tag \<Rightarrow> i32 \<Rightarrow> InstInfo \<Rightarrow> InstInfo" where
  "wake_info t v i = (if ii_completed i then i
     else if wakes_store t i then (wake_src t v i)\<lparr>ii_store_data_ready := True, ii_store_data_val := v\<rparr>
     else wake_src t v i)"

definition updateInstOperandsFromCDB :: "tag \<Rightarrow> i32 \<Rightarrow> Processor \<Rightarrow> Processor" where
  "updateInstOperandsFromCDB t v p = p\<lparr>
     p_inst_table := map (wake_info t v) (p_inst_table p),
     p_lsq := fold (\<lambda>i. lsq_setStoreData (ii_inst_id i) v) (filter (wakes_store t) (p_inst_table p)) (p_lsq p)\<rparr>"

definition apply_wakeup :: "tag \<times> i32 \<Rightarrow> Processor \<Rightarrow> Processor" where
  "apply_wakeup = (\<lambda>(t, v) p. updateInstOperandsFromCDB t v (p\<lparr>p_rs := rs_updateFromCDB t v (p_rs p)\<rparr>))"

section \<open>Recovery\<close>

text \<open>The instructions younger than the branch; \<open>None\<close> is an assertion on a tag.\<close>

definition killed :: "tag \<Rightarrow> Processor \<Rightarrow> InstInfo list option" where
  "killed squash_tag p = do {
     fs \<leftarrow> map_opt (\<lambda>i. rob_isYounger (p_rob p) (ii_rob_id i) squash_tag) (p_inst_table p);
     Some (map fst (filter snd (zip (p_inst_table p) fs))) }"

definition recover_rat :: "InstInfo \<Rightarrow> tag list \<Rightarrow> Processor \<Rightarrow> RegisterAliasTable" where
  "recover_rat br freed p = (case ck_restore (ii_rob_id br) (p_rat_ckpts p) of
     Some restored \<Rightarrow> rat_restoreStateScrub restored freed (p_rat p)
   | None \<Rightarrow> (let r = rat_restoreStateScrub (ii_rat_snapshot br) freed (p_rat p) in
       if ii_rd_used br \<and> 0 < ii_dest_reg br then rat_rename (ii_dest_reg br) (ii_rob_id br) r else r))"

text \<open>Squashing the instructions \<open>kill\<close> in every component.\<close>

definition squash_all :: "InstInfo list \<Rightarrow> Processor \<Rightarrow> Processor" where
  "squash_all kill p = (let ids = map ii_inst_id kill; robs = map ii_rob_id kill in
     p\<lparr>p_rs := rs_squashInstIds ids (p_rs p), p_lsq := lsq_squashInstIds ids (p_lsq p),
       p_ee := ee_squashRobTags robs (p_ee p), p_cdb_arbiter := arb_invalidateTags robs (p_cdb_arbiter p),
       p_cdb_wakeup_pending := filter (\<lambda>w. fst w \<notin> set robs) (p_cdb_wakeup_pending p),
       p_rat_ckpts := fold ck_invalidate robs (p_rat_ckpts p)\<rparr>)"

text \<open>Redirecting the front end.\<close>

definition redirect :: "u64 \<Rightarrow> Processor \<Rightarrow> Processor" where
  "redirect pc p = p\<lparr>p_ifq := ifq_flush (p_ifq p), p_dispatch_reg := dr_flush (p_dispatch_reg p),
     p_fetch_pc := pc, p_fetch_halted := False, p_imem_req_outstanding := False,
     p_ideal_fetch_countdown := 0, p_fetch_buf := fetch_buf0, p_fetch_req_pred_taken := [],
     p_fetch_req_pred_target := [], p_fetch_redirect_hold := True,
     p_memsys := set_cached cached_flushOnRedirect (p_memsys p)\<rparr>"

definition earlyRecover :: "InstInfo \<Rightarrow> Processor \<Rightarrow> Processor option" where
  "earlyRecover br p0 = do {
     let p = upd_stats (\<lambda>s. s\<lparr>st_flushes := st_flushes s + 1\<rparr>) p0;
     let squash_tag = ii_rob_id br;
     kill \<leftarrow> killed squash_tag p;
     let p1 = upd_stats (\<lambda>s. s\<lparr>st_squashed := st_squashed s + of_nat (length kill)\<rparr>) p;
     let freed = p_freed_rob_tags p1 @ map ii_rob_id kill;
     let p2 = p1\<lparr>p_rat := recover_rat br freed p1,
                 p_ras := ras_restoreFull (ii_ras_tos br) (ii_ras_count br) (ii_ras_stack br) (p_ras p1)\<rparr>;
     let p3 = squash_all kill p2;
     (_, rob) \<leftarrow> rob_squashYoungerThan squash_tag (p_rob p3);
     Some (redirect (ii_recovery_pc br) (p3\<lparr>p_rob := rob,
       p_inst_table := fold (\<lambda>i. table_erase (ii_inst_id i)) kill (p_inst_table p3)\<rparr>)) }"

section \<open>Branch resolution\<close>

definition branch_outcome :: "InstInfo \<Rightarrow> i32 \<Rightarrow> bool \<times> u64" where
  "branch_outcome i fu_value =
    (if ii_has_uop i then
       (ii_is_jump i \<or> branchTaken (ii_op i) (ii_src1_val i) (ii_src2_val i),
        ucast (branchTarget (ii_op i) (ucast (ii_pc i)) (ii_src1_val i) (ii_imm i)))
     else if ii_is_call i then
       (True, if ii_imm i \<noteq> 0 then scast (ii_imm i) else word_of_int (ii_src1_reg i))
     else if ii_is_ret i then
       (if ii_ras_had_return i then (True, ii_ras_ret_target i) else (False, ii_fallthrough_pc i))
     else (fu_value \<noteq> 0, scast (ii_imm i)))"

definition resolved :: "InstInfo \<Rightarrow> i32 \<Rightarrow> InstInfo" where
  "resolved i v = (let (taken, target) = branch_outcome i v in
     i\<lparr>ii_br_resolved := True, ii_br_taken := taken,
       ii_br_next_pc := (if taken then target else ii_fallthrough_pc i)\<rparr>)"

definition prediction_wrong :: "InstInfo \<Rightarrow> i32 \<Rightarrow> bool" where
  "prediction_wrong i v = (let (taken, target) = branch_outcome i v in
     taken \<noteq> ii_predicted_taken i \<or> (taken \<and> ii_predicted_target i \<noteq> target))"

definition resolveBranch :: "InstInfo \<Rightarrow> i32 \<Rightarrow> Processor \<Rightarrow> Processor option" where
  "resolveBranch info fu_value p =
    (if ii_br_resolved info then Some p
     else let p1 = upd_stats (\<lambda>s. s\<lparr>st_branches_resolved := st_branches_resolved s + 1\<rparr>) p;
              info1 = resolved info fu_value in
       if prediction_wrong info fu_value then
         (let info2 = info1\<lparr>ii_mispredicted := True, ii_recovery_pc := ii_br_next_pc info1\<rparr> in
          earlyRecover info2 (upd_stats (\<lambda>s. s\<lparr>st_branch_mispredicts := st_branch_mispredicts s + 1\<rparr>)
            (upd_inst (ii_inst_id info) (\<lambda>_. info2) p1)))
       else Some (upd_inst (ii_inst_id info) (\<lambda>_. info1) p1))"

section \<open>Results\<close>

text \<open>A result of a tag that is no longer in flight is dropped.\<close>

definition broadcastCDB :: "CDBResult \<Rightarrow> Processor \<Rightarrow> Processor option" where
  "broadcastCDB r p = (case cdb_rob_id r of
     None \<Rightarrow> Some p
   | Some t \<Rightarrow> (case findInstByRobId t p of
       None \<Rightarrow> Some p
     | Some info \<Rightarrow> do {
         rob \<leftarrow> rob_writeResult t (cdb_value r) (p_rob p);
         let p1 = p\<lparr>p_rob := rob, p_cdb_wakeup_pending := p_cdb_wakeup_pending p @ [(t, cdb_value r)]\<rparr>;
         Some (if isControl info then upd_inst (ii_inst_id info) (\<lambda>i. i\<lparr>ii_completed := True\<rparr>) p1 else p1) }))"

section \<open>Stores that may leave\<close>

fun store_permissions :: "tag list \<Rightarrow> Processor \<Rightarrow> tag list" where
  "store_permissions [] p = []"
| "store_permissions (t # ts) p = (case findInstByRobId t p of
     None \<Rightarrow> []
   | Some i \<Rightarrow>
       if rob_isReady (p_rob p) t then
         (if isControl i \<and> ii_mispredicted i then [] else store_permissions ts p)
       else if ii_is_store i then t # store_permissions ts p
       else [])"

definition storeCommitPermissions :: "Processor \<Rightarrow> tag list" where
  "storeCommitPermissions p = (let r = p_rob p in
     store_permissions (map (\<lambda>lane. (rob_head r + lane) mod rob_capacity r)
       [0..<min (cfg_width (p_config p)) (rob_active_count r)]) p)"

definition store_done :: "tag \<Rightarrow> Processor \<Rightarrow> Processor option" where
  "store_done t p = do {
     rob \<leftarrow> rob_writeResult t 0 (p_rob p);
     let p1 = p\<lparr>p_rob := rob\<rparr>;
     Some (case findInstByRobId t p1 of None \<Rightarrow> p1
       | Some i \<Rightarrow> upd_inst (ii_inst_id i) (\<lambda>i. i\<lparr>ii_completed := True\<rparr>) p1) }"

fun stores_done :: "tag list \<Rightarrow> Processor \<Rightarrow> Processor option" where
  "stores_done [] p = Some p"
| "stores_done (t # ts) p = do { p' \<leftarrow> store_done t p; stores_done ts p' }"

definition processStoreBuffer :: "Processor \<Rightarrow> Processor option" where
  "processStoreBuffer p =
    (let (done_tags, q) = lsq_enqueueStores (p_byte_addressed p) (storeCommitPermissions p) (p_lsq p)
     in stores_done done_tags (p\<lparr>p_lsq := q\<rparr>))"

section \<open>Rename\<close>

definition lane_is_nop :: "FetchedInstruction \<Rightarrow> bool" where
  "lane_is_nop inst \<longleftrightarrow> f_has_uop inst \<and> (let u = f_uop inst in
     u_op u = UOP_NOP \<or> (\<not> u_rd_used u \<and> (u_fu u = FU_ALU \<or> u_fu u = FU_MUL \<or> u_fu u = FU_DIV)))"

definition needs_mem :: "FetchedInstruction \<Rightarrow> bool" where
  "needs_mem inst = (if f_has_uop inst then u_is_load (f_uop inst) \<or> u_is_store (f_uop inst)
     else isMemoryOp (f_opcode inst))"

definition dest_for_rob :: "FetchedInstruction \<Rightarrow> int" where
  "dest_for_rob inst = (if f_has_uop inst then (if u_rd_used (f_uop inst) then u_rd (f_uop inst) else 0)
     else f_dest_reg inst)"

text \<open>The return-address stack to restore: as at fetch, or else as it is now.\<close>

definition inst_ras :: "FetchedInstruction \<Rightarrow> Processor \<Rightarrow> InstInfo \<Rightarrow> InstInfo" where
  "inst_ras inst p i =
    (if f_ras_stack inst \<noteq> [] \<or> f_ras_had_return inst \<or> f_ras_count inst \<noteq> 0 \<or> f_ras_tos inst \<noteq> 0
     then i\<lparr>ii_ras_tos := f_ras_tos inst, ii_ras_count := f_ras_count inst, ii_ras_stack := f_ras_stack inst,
            ii_ras_had_return := f_ras_had_return inst, ii_ras_ret_target := f_ras_ret_target inst\<rparr>
     else let (tos, cnt, stack) = ras_getFullSnapshot (p_ras p) in
       i\<lparr>ii_ras_tos := tos, ii_ras_count := cnt, ii_ras_stack := stack\<rparr>)"

definition set_src1 :: "bool \<times> tag option \<times> i32 \<Rightarrow> InstInfo \<Rightarrow> InstInfo" where
  "set_src1 = (\<lambda>(r, t, v) i. i\<lparr>ii_src1_ready := r, ii_src1_tag := t, ii_src1_val := v\<rparr>)"

definition set_src2 :: "bool \<times> tag option \<times> i32 \<Rightarrow> InstInfo \<Rightarrow> InstInfo" where
  "set_src2 = (\<lambda>(r, t, v) i. i\<lparr>ii_src2_ready := r, ii_src2_tag := t, ii_src2_val := v\<rparr>)"

definition inst_common :: "FetchedInstruction \<Rightarrow> u32 \<Rightarrow> tag \<Rightarrow> Processor \<Rightarrow> InstInfo" where
  "inst_common inst iid rob_id p = inst_ras inst p (inst_info0\<lparr>ii_inst_id := iid, ii_rob_id := rob_id,
     ii_opcode := f_opcode inst, ii_pc := f_pc inst, ii_dest_reg := dest_for_rob inst,
     ii_src1_reg := f_src1_reg inst, ii_src2_reg := f_src2_reg inst, ii_imm := f_imm inst,
     ii_predicted_taken := f_predicted_taken inst, ii_predicted_target := f_predicted_target inst,
     ii_fallthrough_pc := f_pc inst + INSTR_SIZE, ii_rat_snapshot := rat_getState (p_rat p)\<rparr>)"

definition inst_of_uop :: "Uop \<Rightarrow> Processor \<Rightarrow> InstInfo \<Rightarrow> InstInfo" where
  "inst_of_uop u p i = set_src2
     (if u_src2_is_imm u then (True, None, u_imm u)
      else if u_rs2_used u \<and> \<not> u_is_store u then resolveOperand (u_rs2 u) p
      else (True, None, 0))
     (set_src1 (if u_rs1_used u then resolveOperand (u_rs1 u) p else (True, None, 0))
       (i\<lparr>ii_has_uop := True, ii_op := u_op u, ii_fu := u_fu u, ii_src2_is_imm := u_src2_is_imm u,
          ii_is_load := u_is_load u, ii_is_store := u_is_store u, ii_is_branch := u_is_branch u,
          ii_is_jump := u_is_jump u, ii_rd_used := u_rd_used u, ii_mem_size := u_mem_size u,
          ii_mem_unsigned := u_mem_unsigned u, ii_is_call := False, ii_is_ret := False,
          ii_is_addi := False\<rparr>))"

definition inst_of_toy :: "FetchedInstruction \<Rightarrow> Processor \<Rightarrow> InstInfo \<Rightarrow> InstInfo" where
  "inst_of_toy inst p i = (let op = f_opcode inst in set_src2
     (if iequals op ''ADDI'' then (True, None, ii_imm i) else resolveOperand (f_src2_reg inst) p)
     (set_src1 (resolveOperand (f_src1_reg inst) p)
       (i\<lparr>ii_is_load := iequals op ''LOAD'', ii_is_store := iequals op ''STORE'',
          ii_is_branch := (iequals op ''BEQ'' \<or> iequals op ''BNE''), ii_is_call := iequals op ''CALL'',
          ii_is_ret := iequals op ''RET'', ii_is_addi := iequals op ''ADDI'', ii_mem_size := SZ_W,
          ii_mem_unsigned := False\<rparr>)))"

definition make_info :: "FetchedInstruction \<Rightarrow> u32 \<Rightarrow> tag \<Rightarrow> Processor \<Rightarrow> InstInfo" where
  "make_info inst iid rob_id p = (let i = inst_common inst iid rob_id p in
     if f_has_uop inst then inst_of_uop (f_uop inst) p i else inst_of_toy inst p i)"

text \<open>Giving the instruction its entry in the load/store queue or the reservation station.\<close>

definition allocate_entry :: "InstInfo \<Rightarrow> Processor \<Rightarrow> bool \<times> Processor" where
  "allocate_entry i p =
    (if ii_is_load i \<or> ii_is_store i
     then (let (ok, q) = lsq_allocate (ii_inst_id i, ii_rob_id i, ii_is_load i, ii_mem_size i, ii_mem_unsigned i) (p_lsq p)
           in (ok, p\<lparr>p_lsq := q\<rparr>))
     else (let (ok, q) = rs_allocate (ii_inst_id i) (ii_src1_ready i, ii_src1_tag i, ii_src1_val i,
               ii_src2_ready i, ii_src2_tag i, ii_src2_val i) (p_rs p)
           in (ok, p\<lparr>p_rs := q\<rparr>)))"

text \<open>The data operand of a store, handed to the queue when it is ready.\<close>

definition take_store_data :: "int \<Rightarrow> InstInfo \<Rightarrow> Processor \<Rightarrow> InstInfo \<times> Processor" where
  "take_store_data r i p = (let (rdy, t, v) = resolveOperand r p;
       i' = i\<lparr>ii_store_data_ready := rdy, ii_store_data_tag := t, ii_store_data_val := v\<rparr>
     in (i', if rdy then p\<lparr>p_lsq := lsq_setStoreData (ii_inst_id i) v (p_lsq p)\<rparr> else p))"

definition rename_dest :: "InstInfo \<Rightarrow> Processor \<Rightarrow> InstInfo \<times> Processor" where
  "rename_dest i p =
    (let rename = (\<lambda>p. p\<lparr>p_rat := rat_rename (ii_dest_reg i) (ii_rob_id i) (p_rat p)\<rparr>) in
     if ii_has_uop i then
       (let p1 = (if ii_rd_used i then rename p else p) in
        if ii_is_store i then take_store_data (ii_src2_reg i) i p1 else (i, p1))
     else
       (let p1 = (if 0 < ii_dest_reg i \<and> \<not> ii_is_store i then rename p else p) in
        if ii_is_store i \<and> 0 < ii_dest_reg i then take_store_data (ii_dest_reg i) i p1 else (i, p1)))"

definition record_inst :: "InstInfo \<Rightarrow> Processor \<Rightarrow> Processor option" where
  "record_inst i p = do {
     ck \<leftarrow> (if isControl i then ck_save (ii_rob_id i) (rat_getState (p_rat p)) (p_rat_ckpts p)
           else Some (p_rat_ckpts p));
     Some (upd_stats (\<lambda>s. s\<lparr>st_issued := st_issued s + 1\<rparr>)
       (p\<lparr>p_rat_ckpts := ck, p_inst_table := table_put i (p_inst_table p)\<rparr>)) }"

definition tryRenameOne :: "FetchedInstruction \<Rightarrow> Processor \<Rightarrow> (bool \<times> Processor) option" where
  "tryRenameOne inst p =
    (if lane_is_nop inst then Some (True, p)
     else if \<not> rob_hasSpace (p_rob p) then Some (False, upd_stats (\<lambda>s. s\<lparr>st_stall_rob := st_stall_rob s + 1\<rparr>) p)
     else if needs_mem inst \<and> \<not> lsq_hasSpace (p_lsq p)
     then Some (False, upd_stats (\<lambda>s. s\<lparr>st_stall_lsq := st_stall_lsq s + 1\<rparr>) p)
     else if \<not> needs_mem inst \<and> \<not> rs_hasSpace (p_rs p)
     then Some (False, upd_stats (\<lambda>s. s\<lparr>st_stall_rs := st_stall_rs s + 1\<rparr>) p)
     else do {
       (t, rob) \<leftarrow> rob_dispatch (f_opcode inst) (dest_for_rob inst) (p_rob p);
       (case t of
          None \<Rightarrow> Some (False, upd_stats (\<lambda>s. s\<lparr>st_stall_rob := st_stall_rob s + 1\<rparr>) (p\<lparr>p_rob := rob\<rparr>))
        | Some rob_id \<Rightarrow>
            (let iid = p_next_inst_id p;
                 p1 = p\<lparr>p_rob := rob, p_next_inst_id := iid + 1\<rparr>;
                 i = make_info inst iid rob_id p1;
                 (ok, p2) = allocate_entry i p1
             in if \<not> ok then Some (False, p2\<lparr>p_rob := snd (rob_undispatch rob_id (p_rob p2))\<rparr>)
                else let (i', p3) = rename_dest i p2 in map_option (\<lambda>p4. (True, p4)) (record_inst i' p3))) })"

text \<open>The lanes from \<open>i\<close> to \<open>held\<close>; the result counts the accepted ones.\<close>

fun rename_lanes :: "nat list \<Rightarrow> Processor \<Rightarrow> (nat \<times> Processor) option" where
  "rename_lanes [] p = Some (0, p)"
| "rename_lanes (i # is) p =
    (if \<not> dr_laneValid (p_dispatch_reg p) i then Some (0, p)
     else do {
       inst \<leftarrow> dr_lane (p_dispatch_reg p) i;
       (ok, p1) \<leftarrow> tryRenameOne inst p;
       (if \<not> ok then Some (0, p1)
        else do { (n, p2) \<leftarrow> rename_lanes is p1; Some (Suc n, p2) }) })"

definition upstream :: "Processor \<Rightarrow> bool" where
  "upstream p \<longleftrightarrow> \<not> ifq_isEmpty (p_ifq p) \<or>
     (if p_hex_mode p then \<not> p_fetch_halted p \<and> (case imemWord (p_fetch_pc p) p of None \<Rightarrow> False
        | Some w \<Rightarrow> w \<noteq> INSTR_INVALID)
      else p_icache p (p_fetch_pc p) \<noteq> None)"

definition issueStage :: "Processor \<Rightarrow> Processor option" where
  "issueStage p0 = do {
     let held = dr_count (p_dispatch_reg p0);
     (accept, p) \<leftarrow> rename_lanes [0..<held] p0;
     p1 \<leftarrow> (if 0 < accept
           then map_option (\<lambda>d. p\<lparr>p_dispatch_reg := d\<rparr>) (dr_acceptPrefix accept (p_dispatch_reg p))
           else Some p);
     Some (if accept = 0 \<and> held = 0 \<and> upstream p1
           then upd_stats (\<lambda>s. s\<lparr>st_stall_front := st_stall_front s + 1\<rparr>) p1 else p1) }"

end
