(* ===== verification/Pipeline.thy ===== *)
theory Pipeline
  imports ProcessorFront ProcessorBack
begin

text \<open>
  The stages of \<open>src/processor.cpp\<close> that work on every component, and the clock: dispatch to
  the functional units, writeback, commit, the self-check, one cycle and the run.
\<close>

section \<open>Dispatch to execution\<close>

text \<open>Computing addresses and handing store data to the queue, over the whole table.\<close>

definition agen_inst :: "InstInfo \<Rightarrow> LoadStoreQueue \<Rightarrow> InstInfo \<times> LoadStoreQueue" where
  "agen_inst i q =
    (if ii_completed i then (i, q)
     else if (ii_is_load i \<or> ii_is_store i) \<and> \<not> ii_addr_computed i \<and> \<not> ii_src1_ready i then (i, q)
     else
       (let (i1, q1) = (if (ii_is_load i \<or> ii_is_store i) \<and> \<not> ii_addr_computed i
              then (let a = ii_src1_val i + ii_imm i;
                        qa = lsq_setAddress (ii_inst_id i) a q
                    in (i\<lparr>ii_address := a, ii_addr_computed := True\<rparr>,
                        if ii_is_store i \<and> ii_store_data_ready i
                        then lsq_setStoreData (ii_inst_id i) (ii_store_data_val i) qa else qa))
              else (i, q))
        in (i1, if ii_is_store i1 \<and> ii_addr_computed i1 \<and> ii_store_data_ready i1
                then lsq_setStoreData (ii_inst_id i1) (ii_store_data_val i1) q1 else q1)))"

fun agen_table :: "InstInfo list \<Rightarrow> LoadStoreQueue \<Rightarrow> InstInfo list \<times> LoadStoreQueue" where
  "agen_table [] q = ([], q)"
| "agen_table (i # is) q = (let (i', q1) = agen_inst i q; (is', q2) = agen_table is q1 in (i' # is', q2))"

text \<open>The kind of functional unit an instruction counts against.\<close>

definition issue_class :: "InstInfo \<Rightarrow> Fu" where
  "issue_class i = (if ii_has_uop i
     then (if ii_fu i = FU_MUL then FU_MUL else if ii_fu i = FU_DIV then FU_DIV
           else if ii_fu i = FU_BR then FU_BR else FU_ALU)
     else if iequals (ii_opcode i) ''MUL'' then FU_MUL
     else if iequals (ii_opcode i) ''DIV'' then FU_DIV
     else if ii_is_branch i \<or> ii_is_call i \<or> ii_is_ret i then FU_BR
     else FU_ALU)"

definition class_limit :: "Fu \<Rightarrow> ProcessorConfig \<Rightarrow> nat" where
  "class_limit f cfg = (case f of FU_MUL \<Rightarrow> cfg_num_mul cfg | FU_DIV \<Rightarrow> cfg_num_div cfg
     | FU_BR \<Rightarrow> cfg_num_br cfg | _ \<Rightarrow> cfg_num_alu cfg)"

definition issue_inst :: "InstInfo \<Rightarrow> ExecutionEngine \<Rightarrow> (bool \<times> ExecutionEngine) option" where
  "issue_inst i ee = (if ii_has_uop i
     then Some (ee_issue (ii_op i) (ii_src1_val i) (ii_src2_val i) (ii_rob_id i) (ii_imm i) (ucast (ii_pc i))
            (ii_rd_used i) ee)
     else ee_issue_toy (if ii_is_addi i then ''ADD'' else ii_opcode i) (ii_src1_val i) (ii_src2_val i)
            (ii_rob_id i) ee)"

text \<open>The loop over the ready instructions; \<open>cnt\<close> counts the issues of each kind so far.\<close>

fun issue_ready :: "u32 list \<Rightarrow> (Fu \<Rightarrow> nat) \<Rightarrow> Processor \<Rightarrow> Processor option" where
  "issue_ready [] cnt p = Some p"
| "issue_ready (iid # ids) cnt p =
    (case findInstById iid p of
       None \<Rightarrow> issue_ready ids cnt (p\<lparr>p_rs := rs_removeInstruction iid (p_rs p)\<rparr>)
     | Some i \<Rightarrow>
        if ii_dispatched_alu i then issue_ready ids cnt (p\<lparr>p_rs := rs_removeInstruction iid (p_rs p)\<rparr>)
        else let c = issue_class i in
          if \<not> cnt c < class_limit c (p_config p) then issue_ready ids cnt p
          else (case issue_inst i (p_ee p) of
              None \<Rightarrow> None
            | Some (ok, ee) \<Rightarrow>
                (let p1 = p\<lparr>p_ee := ee\<rparr> in
                 if ok
                 then issue_ready ids (cnt(c := Suc (cnt c)))
                   (upd_inst iid (\<lambda>i. i\<lparr>ii_dispatched_alu := True\<rparr>) (p1\<lparr>p_rs := rs_removeInstruction iid (p_rs p1)\<rparr>))
                 else issue_ready ids cnt p1)))"

definition load_candidates :: "Processor \<Rightarrow> u32 list" where
  "load_candidates p = map ii_inst_id (sort_key ii_inst_id
     (filter (\<lambda>i. ii_is_load i \<and> \<not> ii_dispatched_load i \<and> ii_addr_computed i \<and> \<not> ii_completed i) (p_inst_table p)))"

text \<open>\<open>n\<close> loads may still start.\<close>

fun dispatch_loads :: "u32 list \<Rightarrow> nat \<Rightarrow> Processor \<Rightarrow> Processor" where
  "dispatch_loads [] n p = p"
| "dispatch_loads (iid # ids) n p =
    (if n = 0 then p
     else let (ok, q) = lsq_dispatchLoad (p_byte_addressed p) (p_memsys p) iid (p_lsq p); p1 = p\<lparr>p_lsq := q\<rparr> in
       if ok then dispatch_loads ids (n - 1) (upd_inst iid (\<lambda>i. i\<lparr>ii_dispatched_load := True\<rparr>) p1)
       else dispatch_loads ids n p1)"

definition dispatchStage :: "Processor \<Rightarrow> Processor option" where
  "dispatchStage p = do {
     let (ts, q) = agen_table (p_inst_table p) (p_lsq p);
     let p1 = p\<lparr>p_inst_table := ts, p_lsq := q\<rparr>;
     p2 \<leftarrow> issue_ready (rs_collectReadyInstructions (p_rs p1)) (\<lambda>_. 0) p1;
     Some (dispatch_loads (load_candidates p2) (cfg_width (p_config p2)) p2) }"

section \<open>Writeback\<close>

definition memory_cycle :: "Processor \<Rightarrow> Processor option" where
  "memory_cycle p0 =
    (let p = p0\<lparr>p_lsq := lsq_promoteCdbWaits (p_lsq p0)\<rparr>; ba = p_byte_addressed p in
     if useCachedMem p then do {
       (ms, mem) \<leftarrow> memsys_tick (p_memsys p) (p_mem p);
       (rs, ms') \<leftarrow> popDataResps ms;
       (q, ms'', mem') \<leftarrow> lsq_tick ba (lsq_applyDataResps ba rs (p_lsq p), ms', mem);
       Some (p\<lparr>p_lsq := q, p_memsys := ms'', p_mem := mem'\<rparr>) }
     else do {
       (q, ms, mem) \<leftarrow> lsq_tick ba (p_lsq p, p_memsys p, p_mem p);
       Some (p\<lparr>p_lsq := q, p_memsys := ms, p_mem := mem\<rparr>) })"

text \<open>
  The resolving branches, oldest first. Comparing two of them asserts that both tags are in
  range; the ages of distinct tags differ, so the order is that of any sort.
\<close>

definition resolve_age :: "ReorderBuffer \<Rightarrow> BrResolve \<Rightarrow> nat option" where
  "resolve_age r b = (case br_rob_id b of None \<Rightarrow> None | Some t \<Rightarrow> rob_ageFromHead r t)"

definition sorted_resolves :: "ReorderBuffer \<Rightarrow> BrResolve list \<Rightarrow> BrResolve list option" where
  "sorted_resolves r bs = (if 2 \<le> length bs \<and> (\<exists>b \<in> set bs. resolve_age r b = None) then None
     else Some (sort_key (\<lambda>b. case resolve_age r b of None \<Rightarrow> 0 | Some a \<Rightarrow> a) bs))"

definition resolve_one :: "BrResolve \<Rightarrow> Processor \<times> nat set \<Rightarrow> (Processor \<times> nat set) option" where
  "resolve_one b = (\<lambda>(p, granted). case br_rob_id b of None \<Rightarrow> Some (p, granted) | Some t \<Rightarrow>
     (case findInstByRobId t p of
        None \<Rightarrow> Some (p, granted)
      | Some info \<Rightarrow>
         (let first = (\<not> ii_br_resolved info) in do {
            p1 \<leftarrow> (if first then resolveBranch info (br_value b) p else Some p);
            (if br_offer_cdb b then Some (p1, granted)
             else if first \<or> \<not> ii_completed info then do {
               rob \<leftarrow> rob_writeResult t (br_value b) (p_rob p1);
               Some (upd_inst (ii_inst_id info) (\<lambda>i. i\<lparr>ii_completed := True\<rparr>) (p1\<lparr>p_rob := rob\<rparr>),
                 insert (br_slot b) granted) }
             else Some (p1, insert (br_slot b) granted)) })))"

fun resolve_all :: "BrResolve list \<Rightarrow> Processor \<times> nat set \<Rightarrow> (Processor \<times> nat set) option" where
  "resolve_all [] s = Some s"
| "resolve_all (b # bs) s = do { s' \<leftarrow> resolve_one b s; resolve_all bs s' }"

text \<open>One grant: broadcast, mark completed, release the lane that was granted.\<close>

definition grant_one :: "CDBResult \<times> CdbProducer \<Rightarrow> Processor \<times> nat set \<Rightarrow> (Processor \<times> nat set) option" where
  "grant_one = (\<lambda>(r, lane) (p, granted). do {
     p1 \<leftarrow> broadcastCDB r p;
     let p2 = (case cdb_rob_id r of None \<Rightarrow> p1 | Some t \<Rightarrow> (case findInstByRobId t p1 of None \<Rightarrow> p1
         | Some i \<Rightarrow> upd_inst (ii_inst_id i) (\<lambda>i. i\<lparr>ii_completed := True\<rparr>) p1));
     (if cp_source lane = 0
      then Some (p2, case cp_slot lane of None \<Rightarrow> granted | Some k \<Rightarrow> insert k granted)
      else do {
        k \<leftarrow> cp_slot lane;
        q \<leftarrow> lsq_releaseSlot k (p_lsq p2);
        Some (p2\<lparr>p_lsq := q\<rparr>, granted) }) })"

fun grant_all :: "(CDBResult \<times> CdbProducer) list \<Rightarrow> Processor \<times> nat set \<Rightarrow> (Processor \<times> nat set) option" where
  "grant_all [] s = Some s"
| "grant_all (g # gs) s = do { s' \<leftarrow> grant_one g s; grant_all gs s' }"

definition producers :: "Processor \<Rightarrow> CdbProducer list" where
  "producers p = ee_collectProducersFixed (p_ee p) @ lsq_collectProducersFixed (p_lsq p)"

definition writebackStage :: "Processor \<Rightarrow> Processor option" where
  "writebackStage p0 = do {
     p1 \<leftarrow> memory_cycle p0;
     bs \<leftarrow> sorted_resolves (p_rob p1) (ee_collectBranchResolves (p_ee p1));
     (p2, granted) \<leftarrow> resolve_all bs (p1, {});
     (g, arb) \<leftarrow> arb_selectGrants (producers p2) (p_cdb_arbiter p2);
     let p3 = p2\<lparr>p_cdb_arbiter := arb,
           p_ee := ee_setLaneReady (take (length (ee_units (p_ee p2))) (gr_producer_ready g)) (p_ee p2)\<rparr>;
     (p4, granted') \<leftarrow> grant_all (zip (gr_out g) (gr_lanes g)) (p3, granted);
     let p5 = p4\<lparr>p_ee := ee_applyCdbAndAdvance granted' (p_ee p4)\<rparr>;
     arb' \<leftarrow> arb_commitPending (producers p5) (p_cdb_arbiter p5);
     Some (p5\<lparr>p_cdb_arbiter := arb'\<rparr>) }"

section \<open>Commit\<close>

definition commit_dest :: "int \<Rightarrow> i32 \<Rightarrow> tag \<Rightarrow> Processor \<Rightarrow> Processor" where
  "commit_dest d v t p = (if 0 < d \<and> d < int (cfg_num_regs (p_config p))
     then p\<lparr>p_arf := (p_arf p)[nat d := v], p_rat := rat_commit d t (p_rat p),
            p_rat_ckpts := ck_onCommitClear d t (p_rat_ckpts p)\<rparr>
     else p)"

text \<open>Training the predictor at commit; \<open>None\<close> is an index outside a table.\<close>

definition commit_control :: "InstInfo \<Rightarrow> tag \<Rightarrow> Processor \<Rightarrow> Processor option" where
  "commit_control i t p = do {
     let p1 = upd_stats (\<lambda>s. s\<lparr>st_committed_branch := st_committed_branch s + 1\<rparr>) p;
     g \<leftarrow> (if ii_br_resolved i \<and> cfg_bp_mode (p_config p1) = GShare
          then gs_update (ii_pc i) (ii_br_taken i) (ii_br_next_pc i) (p_predictor p1)
          else Some (p_predictor p1));
     Some (p1\<lparr>p_predictor := g, p_rat_ckpts := ck_invalidate t (p_rat_ckpts p1)\<rparr>) }"

definition count_alu :: "InstInfo \<Rightarrow> ProcessorStats \<Rightarrow> ProcessorStats" where
  "count_alu i s =
    (let is_mul = (if ii_has_uop i then ii_fu i = FU_MUL else iequals (ii_opcode i) ''MUL'');
         is_div = (if ii_has_uop i then ii_fu i = FU_DIV else iequals (ii_opcode i) ''DIV'')
     in if is_mul then s\<lparr>st_committed_mul := st_committed_mul s + 1\<rparr>
        else if is_div then s\<lparr>st_committed_div := st_committed_div s + 1\<rparr>
        else s\<lparr>st_committed_alu := st_committed_alu s + 1\<rparr>)"

definition commit_inst :: "InstInfo \<Rightarrow> int \<Rightarrow> i32 \<Rightarrow> tag \<Rightarrow> Processor \<Rightarrow> Processor option" where
  "commit_inst i d v t p =
    (if ii_is_store i then Some (upd_stats (\<lambda>s. s\<lparr>st_committed_store := st_committed_store s + 1\<rparr>) p)
     else if ii_is_load i then
       Some (upd_stats (\<lambda>s. s\<lparr>st_committed_load := st_committed_load s + 1\<rparr>)
         (commit_dest d v t (p\<lparr>p_lsq := lsq_freeLoad (ii_inst_id i) (p_lsq p)\<rparr>)))
     else (let p1 = commit_dest d v t p in
       if isControl i then commit_control i t p1 else Some (upd_stats (count_alu i) p1)))"

fun commit_loop :: "nat \<Rightarrow> Processor \<Rightarrow> Processor option" where
  "commit_loop 0 p = Some p"
| "commit_loop (Suc n) p = (case rob_commit (p_rob p) of
     None \<Rightarrow> Some p
   | Some ((d, v, t), rob) \<Rightarrow>
      (let p1 = p\<lparr>p_rob := rob, p_freed_rob_tags := p_freed_rob_tags p @ [t]\<rparr> in
       case findInstByRobId t p1 of
         None \<Rightarrow> commit_loop n p1
       | Some i \<Rightarrow> do {
           p2 \<leftarrow> commit_inst i d v t p1;
           commit_loop n (upd_stats (\<lambda>s. s\<lparr>st_committed := st_committed s + 1\<rparr>)
             (p2\<lparr>p_inst_table := table_erase (ii_inst_id i) (p_inst_table p2)\<rparr>)) }))"

definition commitStage :: "Processor \<Rightarrow> Processor option" where
  "commitStage p = do { p1 \<leftarrow> processStoreBuffer p; commit_loop (cfg_width (p_config p1)) p1 }"

section \<open>The self-check\<close>

definition info_in_range :: "InstInfo \<Rightarrow> Processor \<Rightarrow> bool" where
  "info_in_range i p \<longleftrightarrow> ii_rob_id i < cfg_rob_size (p_config p)
     \<and> ii_dest_reg i < int (cfg_num_regs (p_config p))
     \<and> ii_src1_reg i < int (cfg_num_regs (p_config p)) \<and> ii_src2_reg i < int (cfg_num_regs (p_config p))"

definition max_cycle_count :: "Processor \<Rightarrow> u64" where
  "max_cycle_count p = scast (cfg_max_cycles (p_config p))"

definition checkInvariants :: "Processor \<Rightarrow> bool" where
  "checkInvariants p \<longleftrightarrow> rob_checkInvariant (p_rob p)
     \<and> length (p_inst_table p) \<le> rob_active_count (p_rob p)
     \<and> (\<forall>i \<in> set (p_inst_table p). info_in_range i p)
     \<and> distinct (map ii_rob_id (p_inst_table p))
     \<and> p_cycle_count p \<le> max_cycle_count p"

section \<open>The clock\<close>

text \<open>The stages of a cycle after the wake-ups, in order.\<close>

definition cycle_stages :: "Processor \<Rightarrow> Processor option" where
  "cycle_stages p = do {
     p1 \<leftarrow> commitStage p;
     p2 \<leftarrow> writebackStage p1;
     p3 \<leftarrow> dispatchStage p2;
     p4 \<leftarrow> (if useCachedMem p3
           then map_option (\<lambda>(q, ms, mem). p3\<lparr>p_lsq := q, p_memsys := ms, p_mem := mem\<rparr>)
                  (lsq_issueMemoryRequests (p_byte_addressed p3) (p_lsq p3, p_memsys p3, p_mem p3))
           else Some p3);
     p5 \<leftarrow> issueStage p4;
     p6 \<leftarrow> decodeStage p5;
     fetchStage p6 }"

definition start_cycle :: "Processor \<Rightarrow> Processor" where
  "start_cycle p0 =
    (let c = p_cycle_count p0 + 1;
         p = upd_stats (\<lambda>s. s\<lparr>st_cycles := c\<rparr>) (p0\<lparr>p_cycle_count := c\<rparr>)
     in (fold apply_wakeup (p_cdb_wakeup_pending p) p)\<lparr>p_cdb_wakeup_pending := [], p_freed_rob_tags := []\<rparr>)"

definition proc_tick :: "Processor \<Rightarrow> Processor option" where
  "proc_tick p0 = do {
     p \<leftarrow> cycle_stages (start_cycle p0);
     (if p_self_check p \<and> \<not> checkInvariants p then None else Some p) }"

definition isFinished :: "Processor \<Rightarrow> bool" where
  "isFinished p \<longleftrightarrow>
    (if max_cycle_count p \<le> p_cycle_count p then True
     else
       (if p_hex_mode p then p_fetch_halted p \<and> \<not> p_imem_req_outstanding p \<and> \<not> fb_valid (p_fetch_buf p)
        else p_icache p (p_fetch_pc p) = None)
       \<and> \<not> fb_valid (p_fetch_buf p) \<and> ifq_isEmpty (p_ifq p) \<and> dr_empty (p_dispatch_reg p)
       \<and> p_inst_table p = [] \<and> rob_isEmpty (p_rob p) \<and> lsq_isDrained (p_lsq p))"

text \<open>\<open>None\<close> is a cycle that fails, or a run that does not end.\<close>

partial_function (option) proc_run :: "Processor \<Rightarrow> Processor option" where
  "proc_run p = (if isFinished p then Some p else (case proc_tick p of None \<Rightarrow> None | Some p' \<Rightarrow> proc_run p'))"

text \<open>The architectural state that is printed: dirty lines are written back first.\<close>

definition archState :: "Processor \<Rightarrow> i32 list \<times> i32 list" where
  "archState p = (p_arf p, case p_memsys p of
     CachedMemory c \<Rightarrow> snd (cached_writebackDirty c (p_mem p)) | _ \<Rightarrow> p_mem p)"

end
