(* ===== verification/PipelineParts.thy ===== *)
theory PipelineParts
  imports Pipeline
begin

text \<open>
  What each component of the processor keeps over its operations, in the form the pipeline
  invariant needs: the busy tags of the reorder buffer, the shape of the load/store queue, the
  tags in the functional units and the lanes waiting in the arbiter. \<open>fine B Q m\<close> says that the
  computation \<open>m\<close>, when it returns, satisfies \<open>Q\<close>, and that it does return when \<open>B\<close> holds.
\<close>

section \<open>Computations that may fail\<close>

definition fine :: "bool \<Rightarrow> ('a \<Rightarrow> bool) \<Rightarrow> 'a option \<Rightarrow> bool" where
  "fine B Q m \<longleftrightarrow> (case m of None \<Rightarrow> \<not> B | Some x \<Rightarrow> Q x)"

lemma fine_Some [simp]: "fine B Q (Some x) \<longleftrightarrow> Q x"
  by (simp add: fine_def)

lemma fine_None [simp]: "fine B Q None \<longleftrightarrow> \<not> B"
  by (simp add: fine_def)

lemma fine_bind: "fine B P m \<Longrightarrow> (\<And>x. P x \<Longrightarrow> fine B Q (f x)) \<Longrightarrow> fine B Q (m \<bind> f)"
  by (cases m) (auto simp: fine_def)

lemma fine_map: "fine B (\<lambda>x. Q (f x)) m \<Longrightarrow> fine B Q (map_option f m)"
  by (cases m) auto

lemma fine_mono: "fine B P m \<Longrightarrow> (\<And>x. P x \<Longrightarrow> Q x) \<Longrightarrow> fine B Q m"
  by (cases m) auto

lemma fine_total: "m = Some x \<Longrightarrow> Q x \<Longrightarrow> fine B Q m"
  by simp

lemma fineD: "fine B Q m \<Longrightarrow> B \<Longrightarrow> \<exists>x. m = Some x \<and> Q x"
  by (cases m) auto

lemma fine_SomeD: "fine B Q m \<Longrightarrow> m = Some x \<Longrightarrow> Q x"
  by simp

section \<open>Occupied tags\<close>

definition occupied :: "ReorderBuffer \<Rightarrow> tag \<Rightarrow> bool" where
  "occupied r t \<longleftrightarrow> t < rob_capacity r \<and> re_busy (rob_buffer r ! t)"

lemma occupied_slot: "rob_wf r \<Longrightarrow> occupied r t \<longleftrightarrow> (\<exists>k < rob_active_count r. t = rob_slot r k)"
proof
  assume wf: "rob_wf r"
  then have le: "rob_active_count r \<le> rob_capacity r" by (simp add: rob_wf_def)
  {
    assume o: "occupied r t"
    then have t: "t < rob_capacity r" "ring_age (rob_capacity r) (rob_head r) t < rob_active_count r"
      using wf by (auto simp: occupied_def rob_wf_def)
    with rob_slot_of_age [OF wf t(1)] show "\<exists>k < rob_active_count r. t = rob_slot r k" by metis
  }
  assume "\<exists>k < rob_active_count r. t = rob_slot r k"
  then obtain k where "k < rob_active_count r" "t = rob_slot r k" by blast
  with le rob_busy_slot [OF wf, of k] rob_slot_less [OF wf, of k]
  show "occupied r t" by (simp add: occupied_def)
qed

lemma occupied_write:
  assumes "rob_wf r" "t < rob_capacity r"
  shows "\<exists>r'. rob_writeResult t v r = Some r' \<and> rob_wf r' \<and> rob_capacity r' = rob_capacity r
    \<and> rob_active_count r' = rob_active_count r \<and> (\<forall>x. occupied r' x \<longleftrightarrow> occupied r x)"
proof -
  obtain r' where r': "rob_writeResult t v r = Some r'" "rob_wf r'" "rob_capacity r' = rob_capacity r"
    using rob_write_ok [OF assms] by blast
  moreover have "rob_active_count r' = rob_active_count r" "\<forall>x. occupied r' x \<longleftrightarrow> occupied r x"
    using r'(1) assms by (auto simp: rob_writeResult_def occupied_def nth_list_update rob_wf_def split: if_splits)
  ultimately show ?thesis by blast
qed

lemma occupied_commit:
  assumes "rob_wf r" "rob_commit r = Some ((d, v, t), r')"
  shows "rob_wf r' \<and> rob_capacity r' = rob_capacity r \<and> t < rob_capacity r
    \<and> (\<forall>x. occupied r x \<and> x \<noteq> t \<longrightarrow> occupied r' x)"
proof -
  have "rob_wf r' \<and> rob_capacity r' = rob_capacity r"
    using rob_commit_ok [OF assms(1)] assms(2) by (auto split: list.splits option.splits prod.splits)
  then show ?thesis
    using assms by (auto simp: rob_commit_def occupied_def Let_def rob_wf_def nth_list_update split: if_splits)
qed

lemma occupied_dispatch:
  assumes "rob_wf r" "rob_hasSpace r"
  shows "\<exists>r' t. rob_dispatch op d r = Some (Some t, r') \<and> rob_wf r' \<and> rob_capacity r' = rob_capacity r
    \<and> \<not> occupied r t \<and> occupied r' t \<and> t < rob_capacity r \<and> (\<forall>x. occupied r x \<longrightarrow> occupied r' x)"
proof -
  have n: "rob_active_count r < rob_capacity r" using assms by (simp add: rob_hasSpace_def)
  obtain r' where r': "rob_dispatch op d r = Some (Some (rob_tail r), r')" "rob_wf r'" "rob_capacity r' = rob_capacity r"
    using rob_dispatch_ok [OF assms(1) n] by blast
  then have "\<not> occupied r (rob_tail r)" "occupied r' (rob_tail r)" "rob_tail r < rob_capacity r"
      "\<forall>x. occupied r x \<longrightarrow> occupied r' x"
    using n assms(1) by (auto simp: rob_dispatch_def occupied_def Let_def rob_wf_def nth_list_update split: if_splits)
  with r' show ?thesis by blast
qed

lemma occupied_squash:
  assumes "rob_wf r" "occupied r t"
  shows "\<exists>n r'. rob_squashYoungerThan t r = Some (n, r') \<and> rob_wf r' \<and> rob_capacity r' = rob_capacity r
    \<and> (\<forall>x. occupied r x \<and> rob_isYounger r x t = Some False \<longrightarrow> occupied r' x)"
proof -
  obtain k where k: "k < rob_active_count r" "t = rob_slot r k"
    using assms occupied_slot by blast
  then obtain n r' where r': "rob_squashYoungerThan t r = Some (n, r')" "rob_wf r'" "rob_capacity r' = rob_capacity r"
    using rob_squash_ok [OF assms(1) k(1)] by blast
  moreover have "occupied r' x" if "occupied r x" "rob_isYounger r x t = Some False" for x
    using r'(1) that by (auto simp: rob_squashYoungerThan_def occupied_def Let_def split: if_splits bind_splits)
  ultimately show ?thesis by blast
qed

lemma isYounger_some:
  "x < rob_capacity r \<Longrightarrow> t < rob_capacity r \<Longrightarrow> \<exists>b. rob_isYounger r x t = Some b"
  by (simp add: rob_isYounger_def rob_ageFromHead_def)

section \<open>What the components keep\<close>

text \<open>The load/store queue: its shape, and countdowns that never run below zero.\<close>

definition cycles_ok :: "LSQEntry list \<Rightarrow> bool" where
  "cycles_ok es \<longleftrightarrow> (\<forall>e \<in> set es. 0 \<le> le_cycles e)"

definition lsq_keeps :: "LoadStoreQueue \<Rightarrow> LoadStoreQueue \<Rightarrow> bool" where
  "lsq_keeps q q' \<longleftrightarrow> length (lq_queue q') = length (lq_queue q) \<and> lq_num_cdb_ports q' = lq_num_cdb_ports q
     \<and> lq_mem_latency q' = lq_mem_latency q \<and> lq_fwd_latency q' = lq_fwd_latency q
     \<and> (0 \<le> lq_mem_latency q \<and> 0 \<le> lq_fwd_latency q \<and> cycles_ok (lq_queue q) \<longrightarrow> cycles_ok (lq_queue q'))"

lemma lsq_keeps_refl [simp]: "lsq_keeps q q"
  by (simp add: lsq_keeps_def)

lemma lsq_keeps_trans: "lsq_keeps a b \<Longrightarrow> lsq_keeps b c \<Longrightarrow> lsq_keeps a c"
  by (simp add: lsq_keeps_def)

lemma cycles_ok_nth: "cycles_ok es \<longleftrightarrow> (\<forall>i < length es. 0 \<le> le_cycles (es ! i))"
  by (auto simp: cycles_ok_def all_set_conv_all_nth)

lemma cycles_ok_update_first:
  "(\<And>e. le_cycles (f e) = le_cycles e) \<Longrightarrow> cycles_ok es \<Longrightarrow> cycles_ok (update_first P f es)"
  by (simp add: cycles_ok_nth nth_update_first)

lemma cycles_ok_update: "cycles_ok es \<Longrightarrow> 0 \<le> le_cycles x \<Longrightarrow> cycles_ok (es[i := x])"
  by (cases "i < length es") (auto simp: cycles_ok_nth nth_list_update list_update_beyond)

lemma cycles_ok_update_same: "cycles_ok es \<Longrightarrow> le_cycles x = le_cycles (es ! i) \<Longrightarrow> cycles_ok (es[i := x])"
  by (cases "i < length es") (auto simp: cycles_ok_nth nth_list_update list_update_beyond)

lemma cycles_ok_map: "cycles_ok es \<Longrightarrow> (\<And>e. 0 \<le> le_cycles e \<Longrightarrow> 0 \<le> le_cycles (f e)) \<Longrightarrow> cycles_ok (map f es)"
  by (simp add: cycles_ok_def)

named_theorems lsq_kept "operations that keep the shape of the load/store queue"

lemma lsq_keeps_first [lsq_kept]:
  "lsq_keeps q (lsq_setAddress iid a q)" "lsq_keeps q (lsq_setStoreData iid d q)"
  "lsq_keeps q (lsq_freeLoad iid q)" "lsq_keeps q (lsq_squash iid q)"
  by (simp_all add: lsq_keeps_def lsq_setAddress_def lsq_setStoreData_def lsq_freeLoad_def lsq_squash_def
      cycles_ok_update_first)

lemma lsq_keeps_fold: "(\<And>x q. lsq_keeps q (f x q)) \<Longrightarrow> lsq_keeps q (fold f xs q)"
proof (induction xs arbitrary: q)
  case (Cons x xs)
  from lsq_keeps_trans [OF Cons.prems(1) Cons.IH [OF Cons.prems(1)]] show ?case by simp
qed simp

lemma lsq_keeps_squashInstIds [lsq_kept]: "lsq_keeps q (lsq_squashInstIds ids q)"
  unfolding lsq_squashInstIds_def by (intro lsq_keeps_fold lsq_kept)

lemma lsq_keeps_allocate [lsq_kept]: "lsq_allocate r q = (ok, q') \<Longrightarrow> lsq_keeps q q'"
  by (cases r) (auto simp: lsq_allocate_def lsq_keeps_def lsq_entry0_def intro!: cycles_ok_update
      split: option.splits)

lemma load_start_cycles:
  "load_start ba cached e q = Some e' \<Longrightarrow> le_cycles e' \<in> {0, lq_mem_latency q, lq_fwd_latency q}"
  by (auto simp: load_start_def start_full_fwd_def start_mem_def Let_def split: if_splits)

lemma lsq_keeps_dispatchLoad [lsq_kept]: "lsq_dispatchLoad ba ms iid q = (ok, q') \<Longrightarrow> lsq_keeps q q'"
  using load_start_cycles
  by (fastforce simp: lsq_dispatchLoad_def lsq_keeps_def Let_def intro!: cycles_ok_update
      split: option.splits if_splits)

lemma lsq_keeps_enqueue_loop: "enqueue_loop ba n ts q = (ds, q') \<Longrightarrow> lsq_keeps q q'"
proof (induction ts arbitrary: n q ds)
  case (Cons t ts)
  have "lsq_keeps q (enqueue_store ba i q)" for i
    by (auto simp: lsq_keeps_def enqueue_store_def intro!: cycles_ok_update_same)
  from lsq_keeps_trans [OF this] Cons.prems show ?case by (auto split: if_splits option.splits prod.splits dest!: Cons.IH)
qed simp

lemma lsq_keeps_enqueueStores [lsq_kept]: "lsq_enqueueStores ba ts q = (ds, q') \<Longrightarrow> lsq_keeps q q'"
  unfolding lsq_enqueueStores_def by (rule lsq_keeps_enqueue_loop)

lemma lsq_keeps_upd_sb: "lsq_keeps q (upd_sb i f q)"
  by (simp add: lsq_keeps_def upd_sb_def)

lemma lsq_keeps_upd_entry: "(\<And>e. le_cycles (f e) = le_cycles e \<or> le_cycles (f e) = 0) \<Longrightarrow> lsq_keeps q (upd_entry i f q)"
proof -
  assume f: "\<And>e. le_cycles (f e) = le_cycles e \<or> le_cycles (f e) = 0"
  show ?thesis
  proof (cases "le_cycles (f (lq_queue q ! i)) = 0")
    case True
    then show ?thesis by (auto simp: lsq_keeps_def upd_entry_def intro!: cycles_ok_update)
  next
    case False
    with f [of "lq_queue q ! i"] show ?thesis
      by (auto simp: lsq_keeps_def upd_entry_def intro!: cycles_ok_update_same)
  qed
qed

lemma lsq_keeps_applyDataResps [lsq_kept]: "lsq_keeps q (lsq_applyDataResps ba rs q)"
  unfolding lsq_applyDataResps_def
proof (rule lsq_keeps_fold)
  fix r q
  show "lsq_keeps q (apply_resp ba r q)"
    by (auto simp: apply_resp_def Let_def lsq_keeps_upd_sb apply_load_resp_def intro!: lsq_keeps_upd_entry)
qed

lemma lsq_keeps_promote [lsq_kept]: "lsq_keeps q (lsq_promoteCdbWaits q)"
  by (simp add: lsq_keeps_def lsq_promoteCdbWaits_def cycles_ok_map)

lemma lsq_keeps_release [lsq_kept]: "lsq_releaseSlot k q = Some q' \<Longrightarrow> lsq_keeps q q'"
  by (auto simp: lsq_releaseSlot_def intro!: lsq_keeps_upd_entry split: if_splits)

lemma lsq_keeps_issue_stores: "issue_stores ba cached is n (q, ms, mem) = Some (n', q', ms', mem') \<Longrightarrow> lsq_keeps q q'"
proof (induction "is" arbitrary: cached n q ms mem)
  case (Cons i "is")
  from Cons.prems show ?case
    by (auto split: if_splits option.splits intro: lsq_keeps_trans [OF lsq_keeps_upd_sb] dest!: Cons.IH)
qed simp

lemma lsq_keeps_issue_loads: "issue_loads ba is n (q, ms, mem) = Some (q', ms', mem') \<Longrightarrow> lsq_keeps q q'"
proof (induction "is" arbitrary: n q ms mem)
  case (Cons i "is")
  have "lsq_keeps q (upd_entry i (\<lambda>e. e\<lparr>le_req_sent := True, le_cookie := le_inst_id e\<rparr>) q)"
    by (rule lsq_keeps_upd_entry) simp
  from lsq_keeps_trans [OF this] Cons.prems show ?case by (auto split: if_splits option.splits dest!: Cons.IH)
qed simp

lemma lsq_keeps_issueMemoryRequests [lsq_kept]:
  "lsq_issueMemoryRequests ba (q, ms, mem) = Some (q', ms', mem') \<Longrightarrow> lsq_keeps q q'"
  by (auto simp: lsq_issueMemoryRequests_def Let_def split: option.splits if_splits
      intro: lsq_keeps_trans dest!: lsq_keeps_issue_stores lsq_keeps_issue_loads)

lemma map_opt_length: "map_opt f xs = Some ys \<Longrightarrow> length ys = length xs"
  by (induction xs arbitrary: ys) (auto split: option.splits)

lemma map_opt_nth: "map_opt f xs = Some ys \<Longrightarrow> i < length xs \<Longrightarrow> f (xs ! i) = Some (ys ! i)"
proof (induction xs arbitrary: ys i)
  case (Cons x xs)
  then show ?case by (cases i) (auto split: option.splits)
qed simp

lemma map_opt_some: "(\<And>x. x \<in> set xs \<Longrightarrow> f x \<noteq> None) \<Longrightarrow> map_opt f xs \<noteq> None"
proof (induction xs)
  case (Cons x xs)
  then have "f x \<noteq> None" "map_opt f xs \<noteq> None" by simp_all
  then show ?case by auto
qed simp

lemma tick_ideal_load_cycles:
  "0 \<le> le_cycles e \<Longrightarrow> \<exists>e'. tick_ideal_load ba mem e = Some e' \<and> 0 \<le> le_cycles e'"
  by (simp add: tick_ideal_load_def dec_pos_def Let_def)

lemma lsq_keeps_drain: "drain_stores ba is (q, mem) = (q', mem') \<Longrightarrow> lsq_keeps q q'"
proof (induction "is" arbitrary: q mem)
  case (Cons i "is")
  from Cons.prems show ?case
    by (auto simp: Let_def split: if_splits intro: lsq_keeps_trans [OF lsq_keeps_upd_sb] dest!: Cons.IH)
qed simp

lemma lsq_keeps_pop: "lsq_keeps q (pop_sb n q)"
proof (induction n arbitrary: q)
  case (Suc n)
  have "lsq_keeps q (q\<lparr>lq_sb_head := h, lq_sb_count := c\<rparr>)" for h c by (simp add: lsq_keeps_def)
  from lsq_keeps_trans [OF this Suc.IH] show ?case by simp
qed simp

lemma tick_loads_keep:
  assumes "(if cached then Some (map tick_cached_load (lq_queue q)) else map_opt (tick_ideal_load ba mem) (lq_queue q)) = Some es"
  shows "lsq_keeps q (q\<lparr>lq_queue := es\<rparr>)"
proof (cases cached)
  case True
  then show ?thesis using assms
    by (auto simp: lsq_keeps_def tick_cached_load_def intro!: cycles_ok_map)
next
  case False
  then have m: "map_opt (tick_ideal_load ba mem) (lq_queue q) = Some es" using assms by simp
  have "cycles_ok es" if "cycles_ok (lq_queue q)"
    unfolding cycles_ok_nth
  proof (intro allI impI)
    fix i assume "i < length es"
    then have i: "i < length (lq_queue q)" using map_opt_length [OF m] by simp
    with that map_opt_nth [OF m i] tick_ideal_load_cycles [of "lq_queue q ! i" ba mem]
    show "0 \<le> le_cycles (es ! i)" by (auto simp: cycles_ok_nth)
  qed
  then show ?thesis using map_opt_length [OF m] by (simp add: lsq_keeps_def)
qed

lemma lsq_keeps_tick [lsq_kept]: "lsq_tick ba (q, ms, mem) = Some (q', ms', mem') \<Longrightarrow> lsq_keeps q q'"
proof -
  assume t: "lsq_tick ba (q, ms, mem) = Some (q', ms', mem')"
  obtain es where es: "(if lsq_usesCachedMem ms then Some (map tick_cached_load (lq_queue q))
      else map_opt (tick_ideal_load ba mem) (lq_queue q)) = Some es"
    using t by (cases "if lsq_usesCachedMem ms then Some (map tick_cached_load (lq_queue q))
      else map_opt (tick_ideal_load ba mem) (lq_queue q)") (auto simp: lsq_tick_def Let_def)
  obtain q1 ms1 mem1 where iq: "lsq_issueMemoryRequests ba (q\<lparr>lq_queue := es\<rparr>, ms, mem) = Some (q1, ms1, mem1)"
    using t es by (cases "lsq_issueMemoryRequests ba (q\<lparr>lq_queue := es\<rparr>, ms, mem)") (auto simp: lsq_tick_def Let_def)
  obtain q2 mem2 where d: "(if lsq_usesCachedMem ms then (q1, mem1)
      else drain_stores ba (sb_window q1) (q1, mem1)) = (q2, mem2)"
    by (cases "if lsq_usesCachedMem ms then (q1, mem1) else drain_stores ba (sb_window q1) (q1, mem1)") auto
  have "q' = pop_sb (lq_sb_capacity q2) q2"
    using t unfolding lsq_tick_def Let_def by (simp add: es iq d)
  moreover have "lsq_keeps q1 q2" using d lsq_keeps_drain by (auto split: if_splits)
  ultimately show ?thesis
    using lsq_keeps_trans [OF tick_loads_keep [OF es]] lsq_keeps_issueMemoryRequests [OF iq]
      lsq_keeps_pop lsq_keeps_trans by metis
qed

text \<open>With the ideal memory the queue's clock never fails, and leaves the memory system alone.\<close>

lemma issue_stores_ideal:
  "\<exists>n' q'. issue_stores ba False is n (q, ms, mem) = Some (n', q', ms, mem)"
  by (induction "is" arbitrary: n q) auto

lemma lsq_tick_ideal:
  assumes "\<not> lsq_usesCachedMem ms" "cycles_ok (lq_queue q)"
  shows "\<exists>q' mem'. lsq_tick ba (q, ms, mem) = Some (q', ms, mem')"
proof -
  have "map_opt (tick_ideal_load ba mem) (lq_queue q) \<noteq> None"
    using assms(2) tick_ideal_load_cycles by (intro map_opt_some) (fastforce simp: cycles_ok_def)
  then obtain es where "map_opt (tick_ideal_load ba mem) (lq_queue q) = Some es" by blast
  moreover obtain n' q' where "issue_stores ba False (sb_window (q\<lparr>lq_queue := es\<rparr>)) 0 (q\<lparr>lq_queue := es\<rparr>, ms, mem)
      = Some (n', q', ms, mem)" using issue_stores_ideal by blast
  ultimately show ?thesis
    using assms(1) by (simp add: lsq_tick_def lsq_issueMemoryRequests_def Let_def split_beta)
qed

text \<open>The execution engine: every result in it carries a tag in range.\<close>

definition stage_ok :: "nat \<Rightarrow> Stage \<Rightarrow> bool" where
  "stage_ok cap sg \<longleftrightarrow> (sg_valid sg \<longrightarrow> (\<exists>t < cap. sg_rob_id sg = Some t))"

definition unit_ok :: "nat \<Rightarrow> ExecutionUnit \<Rightarrow> bool" where
  "unit_ok cap u \<longleftrightarrow> eu_pipe u \<noteq> [] \<and> (\<forall>sg \<in> set (eu_pipe u). stage_ok cap sg)"

definition engine_ok :: "nat \<Rightarrow> nat \<Rightarrow> ExecutionEngine \<Rightarrow> bool" where
  "engine_ok cap n e \<longleftrightarrow> length (ee_units e) = n \<and> (\<forall>u \<in> set (ee_units e). unit_ok cap u)"

lemma stage_ok_stage0 [simp]: "stage_ok cap stage0"
  by (simp add: stage_ok_def)

lemma unit_ok_output: "unit_ok cap u \<Longrightarrow> stage_ok cap (eu_output u)"
  by (simp add: unit_ok_def eu_output_def)

lemma unit_ok_advance: "unit_ok cap u \<Longrightarrow> unit_ok cap (eu_advance r u)"
  by (auto simp: unit_ok_def eu_advance_def dest: in_set_butlastD)

lemma unit_ok_retire: "unit_ok cap u \<Longrightarrow> unit_ok cap (eu_retire g r u)"
proof -
  assume u: "unit_ok cap u"
  then have "unit_ok cap (u\<lparr>eu_pipe := butlast (eu_pipe u) @ [stage0]\<rparr>)"
    by (auto simp: unit_ok_def dest: in_set_butlastD)
  with u show ?thesis by (simp add: eu_retire_def eu_consumeOutput_def unit_ok_advance)
qed

lemma unit_ok_stage0_update: "unit_ok cap u \<Longrightarrow> stage_ok cap sg \<Longrightarrow> unit_ok cap (u\<lparr>eu_pipe := (eu_pipe u)[0 := sg]\<rparr>)"
  by (auto simp: unit_ok_def dest!: subsetD [OF set_update_subset_insert])

lemma engine_ok_update: "engine_ok cap n e \<Longrightarrow> unit_ok cap u \<Longrightarrow> engine_ok cap n (e\<lparr>ee_units := (ee_units e)[i := u]\<rparr>)"
  by (auto simp: engine_ok_def dest!: subsetD [OF set_update_subset_insert])

lemma engine_ok_setLaneReady [simp]: "engine_ok cap n (ee_setLaneReady r e) = engine_ok cap n e"
  by (simp add: engine_ok_def)

lemma engine_ok_apply: "engine_ok cap n e \<Longrightarrow> engine_ok cap n (ee_applyCdbAndAdvance G e)"
  by (auto simp: engine_ok_def ee_applyCdbAndAdvance_def intro!: unit_ok_retire)

lemma engine_ok_squash: "engine_ok cap n e \<Longrightarrow> engine_ok cap n (ee_squashRobTags tags e)"
  by (auto simp: engine_ok_def ee_squashRobTags_def unit_ok_def squash_stage_def)

lemma engine_find_less: "ee_find ty e = Some i \<Longrightarrow> i < length (ee_units e)"
  by (auto simp: ee_find_def dest: first_idx_less)

lemma engine_ok_issue:
  assumes "engine_ok cap n e" "t < cap"
  shows "engine_ok cap n (snd (ee_issue op a b t imm pc rd e))"
proof -
  have "unit_ok cap (snd (eu_issue op a b t imm pc rd (ee_units e ! i)))" if "i < length (ee_units e)" for i
  proof -
    have "unit_ok cap (ee_units e ! i)" using assms(1) that by (simp add: engine_ok_def)
    then show ?thesis using assms(2)
      by (simp add: eu_issue_def Let_def unit_ok_stage0_update stage_ok_def)
  qed
  then show ?thesis using assms(1) engine_find_less
    by (simp add: ee_issue_def split_beta Let_def engine_ok_update split: option.split)
qed

lemma engine_ok_issue_toy:
  assumes "engine_ok cap n e" "t < cap" "ee_issue_toy op a b t e = Some (ok, e')"
  shows "engine_ok cap n e'"
proof (cases "ee_find (toy_unit op) e")
  case (Some i)
  then have i: "i < length (ee_units e)" by (rule engine_find_less)
  then have u: "unit_ok cap (ee_units e ! i)" using assms(1) by (simp add: engine_ok_def)
  from assms(3) Some obtain u' where u': "eu_issue_toy op a b t (ee_units e ! i) = Some (ok, u')"
      "e' = e\<lparr>ee_units := (ee_units e)[i := u']\<rparr>" by (auto simp: ee_issue_toy_def split: option.splits)
  have "unit_ok cap u'" using u'(1) u assms(2)
    by (auto simp: eu_issue_toy_def stage_ok_def split: if_splits option.splits intro!: unit_ok_stage0_update)
  then show ?thesis using u'(2) assms(1) by (simp add: engine_ok_update)
qed (use assms in \<open>simp add: ee_issue_toy_def\<close>)

lemma issue_toy_total: "op \<noteq> ''DIV'' \<Longrightarrow> ee_issue_toy op a b t e \<noteq> None"
proof -
  assume "op \<noteq> ''DIV''"
  then have "\<exists>v. toy_value op a b = Some v"
    unfolding toy_value_def by (cases "op = ''ADD''"; cases "op = ''SUB''"; cases "op = ''MUL''"; cases "op = ''BEQ''";
        cases "op = ''BNE''"; simp)
  then obtain v where "toy_value op a b = Some v" ..
  then have "eu_issue_toy op a b t u \<noteq> None" for u by (simp add: eu_issue_toy_def ex_bool_eq)
  show ?thesis
  proof (cases "ee_find (toy_unit op) e")
    case (Some i)
    obtain ok u where "eu_issue_toy op a b t (ee_units e ! i) = Some (ok, u)"
      using \<open>\<And>u. eu_issue_toy op a b t u \<noteq> None\<close> by fastforce
    with Some show ?thesis by (simp add: ee_issue_toy_def)
  qed (simp add: ee_issue_toy_def)
qed

lemma resolves_in_range:
  "engine_ok cap n e \<Longrightarrow> b \<in> set (ee_collectBranchResolves e) \<Longrightarrow> \<exists>t < cap. br_rob_id b = Some t"
  using unit_ok_output [of cap]
  by (fastforce simp: ee_collectBranchResolves_def engine_ok_def Let_def stage_ok_def)

text \<open>The arbiter: a waiting beat names a unit or an entry of the load/store queue.\<close>

definition lane_ok :: "nat \<Rightarrow> CdbProducer \<Rightarrow> bool" where
  "lane_ok sz l \<longleftrightarrow> cp_source l = 0 \<or> (\<exists>k < sz. cp_slot l = Some k)"

definition arbiter_ok :: "nat \<Rightarrow> nat \<Rightarrow> CdbArbiter \<Rightarrow> bool" where
  "arbiter_ok sz n a \<longleftrightarrow> arb_wf a \<and> arb_num_producers a = n
     \<and> (\<forall>i < n. arb_pending_valid a ! i \<longrightarrow> lane_ok sz (arb_pending a ! i))"

definition producers_ok :: "nat \<Rightarrow> nat \<Rightarrow> CdbProducer list \<Rightarrow> bool" where
  "producers_ok sz n ps \<longleftrightarrow> length ps = n \<and> (\<forall>l \<in> set ps. cp_valid l \<longrightarrow> lane_ok sz l)"

lemma arbiter_ok_select:
  assumes a: "arbiter_ok sz n a" and ps: "producers_ok sz n ps"
  shows "\<exists>g a'. arb_selectGrants ps a = Some (g, a') \<and> arbiter_ok sz n a'
    \<and> (\<forall>l \<in> set (gr_lanes g). lane_ok sz l) \<and> length (gr_out g) = length (gr_lanes g)"
proof -
  have wf: "arb_wf a" "length ps = arb_num_producers a" using a ps by (auto simp: arbiter_ok_def producers_ok_def)
  have "lane_ok sz (arb_lane a ps ! i)" if "i \<in> set (arb_granted ps a)" for i
  proof -
    have i: "i < arb_num_producers a" "arb_request a ps ! i"
      using that arb_granted_props(2) [OF wf(1)] by auto
    then show ?thesis using a ps wf
      by (auto simp: arb_lane_def arb_request_def arbiter_ok_def producers_ok_def)
  qed
  with selectGrants_ok [OF wf] a show ?thesis by (fastforce simp: arbiter_ok_def)
qed

lemma arbiter_ok_commit:
  assumes a: "arbiter_ok sz n a" and ps: "producers_ok sz n ps"
  shows "\<exists>a'. arb_commitPending ps a = Some a' \<and> arbiter_ok sz n a'"
proof -
  have "lane_ok sz (snd nx)" if "i < n" "nx = next_pending (arb_pending_valid a ! i) g (arb_pending a ! i) (ps ! i)"
      "fst nx" for i g nx
    using that a ps by (auto simp: next_pending_def arbiter_ok_def producers_ok_def split: if_splits)
  then show ?thesis using a ps
    by (auto simp: arb_commitPending_def Let_def arbiter_ok_def producers_ok_def arb_wf_def)
qed

lemma arbiter_ok_invalidate: "arbiter_ok sz n a \<Longrightarrow> arbiter_ok sz n (arb_invalidateTags tags a)"
  by (auto simp: arbiter_ok_def arb_invalidateTags_def Let_def arb_wf_def)

lemma ready_loads_less: "i \<in> set (ready_loads q) \<Longrightarrow> i < length (lq_queue q)"
proof -
  have "set (sort_age es xs) = set xs" for es xs by (metis mset_sort_age set_mset_mset)
  then show "i \<in> set (ready_loads q) \<Longrightarrow> i < length (lq_queue q)" by (auto simp: ready_loads_def)
qed

lemma producers_ok_producers:
  assumes "length (ee_units (p_ee p)) + lq_num_cdb_ports (p_lsq p) = n" "length (lq_queue (p_lsq p)) = sz"
  shows "producers_ok sz n (producers p)"
proof -
  have "lane_ok sz l" if "l \<in> set (lsq_collectProducersFixed (p_lsq p))" "cp_valid l" for l
    using that ready_loads_less [OF nth_mem] assms(2)
    by (auto simp: lsq_collectProducersFixed_def Let_def lane_ok_def cp0_def split: if_splits)
  moreover have "lane_ok sz l" if "l \<in> set (ee_collectProducersFixed (p_ee p))" for l
    using that by (auto simp: ee_collectProducersFixed_def lane_ok_def)
  ultimately show ?thesis using assms(1)
    by (auto simp: producers_ok_def producers_def) (simp add: lsq_collectProducersFixed_def Let_def)
qed

end
