(* ===== verification/PipelineInv.thy ===== *)
theory PipelineInv
  imports PipelineParts Decode_Spec
begin

text \<open>
  The invariant of the processor and its preservation by every stage. The flag \<open>B\<close> names the
  circumstances in which no failure is possible: the ideal memory and no trapping division.
\<close>

section \<open>The invariant\<close>

text \<open>
  Instructions on their way to rename. \<open>B\<close> also excludes the toy division, the one toy operation
  that can trap.
\<close>

definition fetched_ok :: "bool \<Rightarrow> ProcessorConfig \<Rightarrow> FetchedInstruction \<Rightarrow> bool" where
  "fetched_ok B cfg inst \<longleftrightarrow> dest_for_rob inst < int (cfg_num_regs cfg)
     \<and> f_src1_reg inst < int (cfg_num_regs cfg) \<and> f_src2_reg inst < int (cfg_num_regs cfg)
     \<and> (B \<longrightarrow> f_has_uop inst \<or> f_opcode inst \<noteq> ''DIV'')"

definition raw_ok :: "bool \<Rightarrow> ProcessorConfig \<Rightarrow> bool \<Rightarrow> FetchedInstruction \<Rightarrow> bool" where
  "raw_ok B cfg hex inst \<longleftrightarrow> (if hex then \<not> f_has_uop inst else fetched_ok B cfg inst)"

definition info_ok :: "bool \<Rightarrow> ProcessorConfig \<Rightarrow> InstInfo \<Rightarrow> bool" where
  "info_ok B cfg i \<longleftrightarrow> ii_dest_reg i < int (cfg_num_regs cfg)
     \<and> ii_src1_reg i < int (cfg_num_regs cfg) \<and> ii_src2_reg i < int (cfg_num_regs cfg)
     \<and> (B \<longrightarrow> ii_has_uop i \<or> ii_opcode i \<noteq> ''DIV'')"

text \<open>The table: keys and tags are unique, and every tag is that of a busy entry.\<close>

definition table_ok :: "bool \<Rightarrow> ProcessorConfig \<Rightarrow> ReorderBuffer \<Rightarrow> InstInfo list \<Rightarrow> bool" where
  "table_ok B cfg r ts \<longleftrightarrow> distinct (map ii_inst_id ts) \<and> distinct (map ii_rob_id ts)
     \<and> (\<forall>i \<in> set ts. occupied r (ii_rob_id i) \<and> info_ok B cfg i)"

definition lsq_ok :: "ProcessorConfig \<Rightarrow> LoadStoreQueue \<Rightarrow> bool" where
  "lsq_ok cfg q \<longleftrightarrow> length (lq_queue q) = cfg_lsq_size cfg \<and> lq_num_cdb_ports q = cfg_num_lsq cfg
     \<and> 0 \<le> lq_mem_latency q \<and> 0 \<le> lq_fwd_latency q \<and> cycles_ok (lq_queue q)"

definition num_units :: "ProcessorConfig \<Rightarrow> nat" where
  "num_units cfg = cfg_num_alu cfg + cfg_num_mul cfg + cfg_num_div cfg + cfg_num_br cfg"

definition rename_ok :: "ProcessorConfig \<Rightarrow> RegisterAliasTable \<Rightarrow> RatCheckpoints \<Rightarrow> bool" where
  "rename_ok cfg t c \<longleftrightarrow> length (rat_map t) = cfg_num_regs cfg \<and> rat_num_logical_regs t = cfg_num_regs cfg
     \<and> ck_rob_depth c = cfg_rob_size cfg \<and> ck_num_regs c = cfg_num_regs cfg"

definition dispatch_ok :: "bool \<Rightarrow> ProcessorConfig \<Rightarrow> DispatchReg \<Rightarrow> bool" where
  "dispatch_ok B cfg d \<longleftrightarrow> dr_wf d \<and> dr_width d = cfg_width cfg \<and> (\<forall>i \<in> set (dr_contents d). fetched_ok B cfg i)"

definition ifq_ok :: "bool \<Rightarrow> ProcessorConfig \<Rightarrow> bool \<Rightarrow> InstructionFetchQueue \<Rightarrow> bool" where
  "ifq_ok B cfg hex q \<longleftrightarrow> ifq_wf q \<and> (\<forall>i \<in> set (ifq_contents q). raw_ok B cfg hex i)"

definition prest :: "bool \<Rightarrow> ProcessorConfig \<Rightarrow> u64 \<Rightarrow> Processor \<Rightarrow> bool" where
  "prest B cfg c p \<longleftrightarrow> p_config p = cfg \<and> p_cycle_count p = c
     \<and> rob_wf (p_rob p) \<and> rob_capacity (p_rob p) = cfg_rob_size cfg
     \<and> rename_ok cfg (p_rat p) (p_rat_ckpts p) \<and> gs_wf (p_predictor p) \<and> lsq_ok cfg (p_lsq p)
     \<and> engine_ok (cfg_rob_size cfg) (num_units cfg) (p_ee p)
     \<and> arbiter_ok (cfg_lsq_size cfg) (num_units cfg + cfg_num_lsq cfg) (p_cdb_arbiter p)
     \<and> dispatch_ok B cfg (p_dispatch_reg p) \<and> ifq_ok B cfg (p_hex_mode p) (p_ifq p)
     \<and> (p_hex_mode p \<longrightarrow> cfg_num_regs cfg = 32)
     \<and> (\<not> p_hex_mode p \<longrightarrow> (\<forall>i \<in> ran (p_icache p). fetched_ok B cfg i))
     \<and> (B \<longrightarrow> kind (p_memsys p) = Some Ideal)"

definition pinv :: "bool \<Rightarrow> ProcessorConfig \<Rightarrow> u64 \<Rightarrow> Processor \<Rightarrow> bool" where
  "pinv B cfg c p \<longleftrightarrow> prest B cfg c p \<and> table_ok B cfg (p_rob p) (p_inst_table p)"

lemmas pinv_defs = pinv_def prest_def

lemma prest_table [simp]: "prest B cfg c (p\<lparr>p_inst_table := ts\<rparr>) = prest B cfg c p"
  by (simp add: prest_def)

lemma prest_stats [simp]: "prest B cfg c (upd_stats f p) = prest B cfg c p"
  by (simp add: prest_def upd_stats_def)

lemma pinv_stats [simp]: "pinv B cfg c (upd_stats f p) = pinv B cfg c p"
  by (simp add: pinv_defs upd_stats_def)

lemma lsq_ok_keeps: "lsq_ok cfg q \<Longrightarrow> lsq_keeps q q' \<Longrightarrow> lsq_ok cfg q'"
  by (auto simp: lsq_ok_def lsq_keeps_def)

lemma pinv_lsq: "pinv B cfg c p \<Longrightarrow> lsq_keeps (p_lsq p) q \<Longrightarrow> pinv B cfg c (p\<lparr>p_lsq := q\<rparr>)"
  by (simp add: pinv_defs lsq_ok_keeps [of _ "p_lsq p"])

text \<open>What the invariant gives, and changing one part of the state.\<close>

lemma pinvD:
  assumes "pinv B cfg c p"
  shows "p_config p = cfg" "p_cycle_count p = c" "rob_wf (p_rob p)" "rob_capacity (p_rob p) = cfg_rob_size cfg"
    "table_ok B cfg (p_rob p) (p_inst_table p)" "rename_ok cfg (p_rat p) (p_rat_ckpts p)" "gs_wf (p_predictor p)"
    "lsq_ok cfg (p_lsq p)" "engine_ok (cfg_rob_size cfg) (num_units cfg) (p_ee p)"
    "arbiter_ok (cfg_lsq_size cfg) (num_units cfg + cfg_num_lsq cfg) (p_cdb_arbiter p)"
    "dispatch_ok B cfg (p_dispatch_reg p)" "ifq_ok B cfg (p_hex_mode p) (p_ifq p)"
    "B \<Longrightarrow> kind (p_memsys p) = Some Ideal"
  using assms by (simp_all add: pinv_defs)

lemma pinv_table: "pinv B cfg c p \<Longrightarrow> table_ok B cfg (p_rob p) ts \<Longrightarrow> pinv B cfg c (p\<lparr>p_inst_table := ts\<rparr>)"
  by (simp add: pinv_defs)

lemma pinv_rob:
  "pinv B cfg c p \<Longrightarrow> rob_wf r \<Longrightarrow> rob_capacity r = cfg_rob_size cfg \<Longrightarrow> table_ok B cfg r (p_inst_table p) \<Longrightarrow>
   pinv B cfg c (p\<lparr>p_rob := r\<rparr>)"
  by (simp add: pinv_defs)

lemma pinv_rename: "pinv B cfg c p \<Longrightarrow> rename_ok cfg t k \<Longrightarrow> pinv B cfg c (p\<lparr>p_rat := t, p_rat_ckpts := k\<rparr>)"
  by (simp add: pinv_defs)

lemma pinv_engine:
  "pinv B cfg c p \<Longrightarrow> engine_ok (cfg_rob_size cfg) (num_units cfg) e \<Longrightarrow> pinv B cfg c (p\<lparr>p_ee := e\<rparr>)"
  by (simp add: pinv_defs)

lemma pinv_arbiter:
  "pinv B cfg c p \<Longrightarrow> arbiter_ok (cfg_lsq_size cfg) (num_units cfg + cfg_num_lsq cfg) a \<Longrightarrow>
   pinv B cfg c (p\<lparr>p_cdb_arbiter := a\<rparr>)"
  by (simp add: pinv_defs)

lemma pinv_memsys:
  "pinv B cfg c p \<Longrightarrow> (B \<Longrightarrow> kind ms = Some Ideal) \<Longrightarrow> pinv B cfg c (p\<lparr>p_memsys := ms\<rparr>)"
  by (simp add: pinv_defs)

text \<open>Fields the invariant says nothing about.\<close>

lemma pinv_other [simp]:
  "pinv B cfg c (p\<lparr>p_rs := a\<rparr>) = pinv B cfg c p" "pinv B cfg c (p\<lparr>p_ras := s\<rparr>) = pinv B cfg c p"
  "pinv B cfg c (p\<lparr>p_arf := f\<rparr>) = pinv B cfg c p" "pinv B cfg c (p\<lparr>p_fetch_halted := h\<rparr>) = pinv B cfg c p"
  "pinv B cfg c (p\<lparr>p_imem_req_outstanding := h\<rparr>) = pinv B cfg c p"
  "pinv B cfg c (p\<lparr>p_ideal_fetch_countdown := n\<rparr>) = pinv B cfg c p"
  "pinv B cfg c (p\<lparr>p_ideal_fetch_pc := a'\<rparr>) = pinv B cfg c p"
  "pinv B cfg c (p\<lparr>p_fetch_buf := b\<rparr>) = pinv B cfg c p"
  "pinv B cfg c (p\<lparr>p_fetch_req_pred_taken := pt\<rparr>) = pinv B cfg c p"
  "pinv B cfg c (p\<lparr>p_fetch_req_pred_target := tg\<rparr>) = pinv B cfg c p"
  "pinv B cfg c (p\<lparr>p_fetch_redirect_hold := h\<rparr>) = pinv B cfg c p"
  "pinv B cfg c (p\<lparr>p_freed_rob_tags := fr\<rparr>) = pinv B cfg c p"
  "pinv B cfg c (p\<lparr>p_cdb_wakeup_pending := w\<rparr>) = pinv B cfg c p"
  "pinv B cfg c (p\<lparr>p_fetch_pc := a'\<rparr>) = pinv B cfg c p" "pinv B cfg c (p\<lparr>p_next_inst_id := k\<rparr>) = pinv B cfg c p"
  "pinv B cfg c (p\<lparr>p_mem := m\<rparr>) = pinv B cfg c p"
  by (simp_all add: pinv_defs)

section \<open>The table\<close>

abbreviation core :: "InstInfo \<Rightarrow> u32 \<times> tag \<times> int \<times> int \<times> int \<times> bool \<times> string" where
  "core i \<equiv> (ii_inst_id i, ii_rob_id i, ii_dest_reg i, ii_src1_reg i, ii_src2_reg i, ii_has_uop i, ii_opcode i)"

lemma info_ok_core: "core j = core i \<Longrightarrow> info_ok B cfg j = info_ok B cfg i"
  by (simp add: info_ok_def)

lemma table_ok_map:
  assumes "table_ok B cfg r ts" "\<And>i. i \<in> set ts \<Longrightarrow> core (f i) = core i"
  shows "table_ok B cfg r (map f ts)"
proof -
  have "map ii_inst_id (map f ts) = map ii_inst_id ts" "map ii_rob_id (map f ts) = map ii_rob_id ts"
    using assms(2) by auto
  moreover have "occupied r (ii_rob_id (f i)) \<and> info_ok B cfg (f i)" if "i \<in> set ts" for i
    using that assms info_ok_core [of "f i" i] by (auto simp: table_ok_def)
  ultimately show ?thesis using assms(1) unfolding table_ok_def by (auto simp del: map_map)
qed

lemma table_ok_filter: "table_ok B cfg r ts \<Longrightarrow> table_ok B cfg r (filter P ts)"
  by (simp add: table_ok_def distinct_map_filter)

lemma table_ok_rob:
  "table_ok B cfg r ts \<Longrightarrow> (\<And>i. i \<in> set ts \<Longrightarrow> occupied r (ii_rob_id i) \<Longrightarrow> occupied r' (ii_rob_id i)) \<Longrightarrow>
   table_ok B cfg r' ts"
  by (auto simp: table_ok_def)

lemma table_ok_unique: "table_ok B cfg r ts \<Longrightarrow> i \<in> set ts \<Longrightarrow> j \<in> set ts \<Longrightarrow> ii_inst_id i = ii_inst_id j \<Longrightarrow> i = j"
  by (auto simp: table_ok_def distinct_map inj_on_def)

lemma table_ok_put:
  assumes ts: "table_ok B cfg r ts" and i: "occupied r (ii_rob_id i)" "info_ok B cfg i"
    and fresh: "\<And>j. j \<in> set ts \<Longrightarrow> ii_rob_id j \<noteq> ii_rob_id i"
  shows "table_ok B cfg r (table_put i ts)"
proof (cases "ii_inst_id i \<in> ii_inst_id ` set ts")
  case True
  let ?f = "\<lambda>j. if ii_inst_id j = ii_inst_id i then i else j"
  have ids: "map ii_inst_id (map ?f ts) = map ii_inst_id ts" by auto
  have "inj_on (\<lambda>j. ii_rob_id (?f j)) (set ts)"
  proof (rule inj_onI)
    fix a b assume ab: "a \<in> set ts" "b \<in> set ts" "ii_rob_id (?f a) = ii_rob_id (?f b)"
    have inj: "inj_on ii_rob_id (set ts)" "inj_on ii_inst_id (set ts)" using ts by (simp_all add: table_ok_def distinct_map)
    show "a = b"
    proof (cases "ii_inst_id a = ii_inst_id i")
      case True
      with ab fresh [of b] have "ii_inst_id b = ii_inst_id i" by (cases "ii_inst_id b = ii_inst_id i") simp_all
      with True ab inj(2) show ?thesis by (simp add: inj_on_def)
    next
      case False
      with ab fresh [of a] have "ii_inst_id b \<noteq> ii_inst_id i" by (cases "ii_inst_id b = ii_inst_id i") simp_all
      with False ab inj(1) show ?thesis by (simp add: inj_on_def)
    qed
  qed
  then have "distinct (map ii_rob_id (map ?f ts))"
    using ts by (simp add: distinct_map table_ok_def comp_def)
  with True ts i ids show ?thesis by (auto simp: table_put_def table_ok_def simp del: map_map)
next
  case False
  have "ii_rob_id i \<notin> ii_rob_id ` set ts" using fresh by (metis imageE)
  with False ts i show ?thesis by (simp add: table_put_def table_ok_def)
qed

lemma found_id: "findInstById iid p = Some i \<Longrightarrow> i \<in> set (p_inst_table p) \<and> ii_inst_id i = iid"
  by (auto simp: findInstById_def find_Some_iff)

lemma found_rob: "findInstByRobId t p = Some i \<Longrightarrow> i \<in> set (p_inst_table p) \<and> ii_rob_id i = t"
  by (auto simp: findInstByRobId_def find_Some_iff)

lemma not_found_rob: "findInstByRobId t p = None \<Longrightarrow> i \<in> set (p_inst_table p) \<Longrightarrow> ii_rob_id i \<noteq> t"
  by (auto simp: findInstByRobId_def find_None_iff)

lemma pinv_found: "pinv B cfg c p \<Longrightarrow> findInstByRobId t p = Some i \<Longrightarrow> occupied (p_rob p) t \<and> info_ok B cfg i"
  by (drule pinvD(5), drule found_rob) (simp add: table_ok_def, blast)

lemma pinv_upd_inst:
  assumes "pinv B cfg c p" "\<And>i. i \<in> set (p_inst_table p) \<Longrightarrow> ii_inst_id i = iid \<Longrightarrow> core (f i) = core i"
  shows "pinv B cfg c (upd_inst iid f p)"
  unfolding upd_inst_def
proof (rule pinv_table [OF assms(1)], rule table_ok_map [OF pinvD(5) [OF assms(1)]])
  fix i assume "i \<in> set (p_inst_table p)"
  then show "core (if ii_inst_id i = iid then f i else i) = core i" using assms(2) by (cases "ii_inst_id i = iid") simp_all
qed

lemma pinv_set_inst:
  assumes "pinv B cfg c p" "i \<in> set (p_inst_table p)" "core j = core i"
  shows "pinv B cfg c (upd_inst (ii_inst_id i) (\<lambda>_. j) p)"
proof (rule pinv_upd_inst [OF assms(1)])
  fix k assume "k \<in> set (p_inst_table p)" "ii_inst_id k = ii_inst_id i"
  then have "k = i" using table_ok_unique [OF pinvD(5) [OF assms(1)]] assms(2) by blast
  then show "core j = core k" using assms(3) by simp
qed

text \<open>Writing a result changes no occupancy.\<close>

lemma pinv_write:
  assumes "pinv B cfg c p" "t < cfg_rob_size cfg"
  shows "\<exists>r'. rob_writeResult t v (p_rob p) = Some r' \<and> pinv B cfg c (p\<lparr>p_rob := r'\<rparr>)
    \<and> (\<forall>x. occupied r' x \<longleftrightarrow> occupied (p_rob p) x)"
proof -
  obtain r' where r': "rob_writeResult t v (p_rob p) = Some r'" "rob_wf r'" "rob_capacity r' = rob_capacity (p_rob p)"
      "\<forall>x. occupied r' x \<longleftrightarrow> occupied (p_rob p) x"
    using occupied_write [of "p_rob p" t v] assms(2) pinvD(3,4) [OF assms(1)] by auto
  have "table_ok B cfg r' (p_inst_table p)"
    by (rule table_ok_rob [OF pinvD(5) [OF assms(1)]]) (use r'(4) in simp)
  then have "pinv B cfg c (p\<lparr>p_rob := r'\<rparr>)"
    using r' pinvD(4) [OF assms(1)] by (intro pinv_rob [OF assms(1)]) simp_all
  with r' show ?thesis by blast
qed

lemma occupied_less: "pinv B cfg c p \<Longrightarrow> occupied (p_rob p) t \<Longrightarrow> t < cfg_rob_size cfg"
  by (simp add: pinv_defs occupied_def)

section \<open>Commit\<close>

lemma pinv_store_done:
  assumes p: "pinv B cfg c p" and t: "t < cfg_rob_size cfg"
  shows "\<exists>p'. store_done t p = Some p' \<and> pinv B cfg c p'"
proof -
  obtain r' where r': "rob_writeResult t 0 (p_rob p) = Some r'" "pinv B cfg c (p\<lparr>p_rob := r'\<rparr>)"
    using pinv_write [OF p t] by blast
  have "pinv B cfg c (upd_inst iid (\<lambda>i. i\<lparr>ii_completed := True\<rparr>) (p\<lparr>p_rob := r'\<rparr>))" for iid
    by (rule pinv_upd_inst [OF r'(2)]) simp
  with r' show ?thesis by (simp add: store_done_def Let_def split: option.split)
qed

lemma pinv_stores_done:
  "pinv B cfg c p \<Longrightarrow> (\<And>t. t \<in> set ts \<Longrightarrow> t < cfg_rob_size cfg) \<Longrightarrow> \<exists>p'. stores_done ts p = Some p' \<and> pinv B cfg c p'"
proof (induction ts arbitrary: p)
  case (Cons t ts)
  obtain p1 where p1: "store_done t p = Some p1" "pinv B cfg c p1"
    using pinv_store_done [OF Cons.prems(1), of t] Cons.prems(2) by auto
  obtain p' where "stores_done ts p1 = Some p'" "pinv B cfg c p'"
    using Cons.IH [OF p1(2)] Cons.prems(2) by auto
  with p1(1) show ?case by simp
qed simp

lemma store_permissions_subset: "set (store_permissions ts p) \<subseteq> set ts"
proof (induction ts)
  case (Cons t ts)
  then show ?case by (cases "findInstByRobId t p") auto
qed simp

lemma enqueue_loop_subset: "enqueue_loop ba n ts q = (ds, q') \<Longrightarrow> set ds \<subseteq> set ts"
proof (induction ts arbitrary: n q ds)
  case (Cons t ts)
  from Cons.prems show ?case by (auto split: if_splits option.splits prod.splits dest!: Cons.IH)
qed simp

lemma pinv_processStoreBuffer:
  assumes p: "pinv B cfg c p"
  shows "\<exists>p'. processStoreBuffer p = Some p' \<and> pinv B cfg c p'"
proof -
  obtain ds q where e: "lsq_enqueueStores (p_byte_addressed p) (storeCommitPermissions p) (p_lsq p) = (ds, q)"
    by force
  have "0 < rob_capacity (p_rob p)" using pinvD(3) [OF p] by (auto simp: rob_wf_def)
  then have "t < cfg_rob_size cfg" if "t \<in> set ds" for t
    using that e enqueue_loop_subset store_permissions_subset pinvD(4) [OF p]
    by (fastforce simp: lsq_enqueueStores_def storeCommitPermissions_def Let_def)
  moreover have "pinv B cfg c (p\<lparr>p_lsq := q\<rparr>)" by (rule pinv_lsq [OF p lsq_keeps_enqueueStores [OF e]])
  ultimately show ?thesis using pinv_stores_done by (simp add: processStoreBuffer_def e)
qed

lemma rename_ok_ck: "rename_ok cfg t k \<Longrightarrow> rename_ok cfg t (ck_invalidate x k)"
    "rename_ok cfg t k \<Longrightarrow> rename_ok cfg (rat_commit d x t) (ck_onCommitClear d x k)"
    "rename_ok cfg t k \<Longrightarrow> rename_ok cfg (rat_rename d x t) k"
  by (simp_all add: rename_ok_def ck_invalidate_def rat_commit_def ck_onCommitClear_def rat_rename_def)

lemma prest_commit_dest: "prest B cfg c p \<Longrightarrow> prest B cfg c (commit_dest d v t p)"
  by (simp add: prest_def commit_dest_def rename_ok_ck(2))

lemma commit_frame [simp]:
  "p_rob (commit_dest d v t x) = p_rob x" "p_inst_table (commit_dest d v t x) = p_inst_table x"
  "p_rob (upd_stats f x) = p_rob x" "p_inst_table (upd_stats f x) = p_inst_table x"
  by (simp_all add: commit_dest_def upd_stats_def)

lemma prest_commit_control:
  assumes x: "prest B cfg c x"
  shows "\<exists>p'. commit_control i t x = Some p' \<and> prest B cfg c p' \<and> p_rob p' = p_rob x \<and> p_inst_table p' = p_inst_table x"
proof -
  let ?x = "upd_stats (\<lambda>s. s\<lparr>st_committed_branch := st_committed_branch s + 1\<rparr>) x"
  have wf: "gs_wf (p_predictor ?x)" using x by (simp add: prest_def upd_stats_def)
  have "\<exists>g. (if ii_br_resolved i \<and> cfg_bp_mode (p_config ?x) = GShare
        then gs_update (ii_pc i) (ii_br_taken i) (ii_br_next_pc i) (p_predictor ?x)
        else Some (p_predictor ?x)) = Some g \<and> gs_wf g"
  proof (cases "ii_br_resolved i \<and> cfg_bp_mode (p_config ?x) = GShare")
    case True
    obtain g where "gs_update (ii_pc i) (ii_br_taken i) (ii_br_next_pc i) (p_predictor ?x) = Some g" "gs_wf g"
      using gs_update_ok [OF wf, of "ii_pc i" "ii_br_taken i" "ii_br_next_pc i"] by metis
    with True show ?thesis by simp
  next
    case False
    show ?thesis unfolding if_not_P [OF False] using wf by blast
  qed
  then obtain g where g: "(if ii_br_resolved i \<and> cfg_bp_mode (p_config ?x) = GShare
        then gs_update (ii_pc i) (ii_br_taken i) (ii_br_next_pc i) (p_predictor ?x)
        else Some (p_predictor ?x)) = Some g" "gs_wf g" by blast
  have "prest B cfg c (?x\<lparr>p_predictor := g, p_rat_ckpts := ck_invalidate t (p_rat_ckpts ?x)\<rparr>)"
    using x g(2) by (simp add: prest_def upd_stats_def rename_ok_ck(1))
  then show ?thesis unfolding commit_control_def Let_def by (simp add: g(1))
qed

lemma prest_commit_inst:
  assumes p: "prest B cfg c p"
  shows "\<exists>p'. commit_inst i d v t p = Some p' \<and> prest B cfg c p' \<and> p_rob p' = p_rob p \<and> p_inst_table p' = p_inst_table p"
proof -
  have "lsq_ok cfg (lsq_freeLoad (ii_inst_id i) (p_lsq p))"
    using p lsq_ok_keeps [OF _ lsq_keeps_first(3)] by (simp add: prest_def)
  then have l: "prest B cfg c (p\<lparr>p_lsq := lsq_freeLoad (ii_inst_id i) (p_lsq p)\<rparr>)"
    using p by (simp add: prest_def)
  show ?thesis
    using p prest_commit_control [OF prest_commit_dest [OF p], of i t d v t] prest_commit_dest [OF l]
      prest_commit_dest [OF p]
    by (simp add: commit_inst_def Let_def)
qed

text \<open>Retiring an entry: its tag becomes free, and it leaves the table.\<close>

lemma table_ok_retire:
  assumes "table_ok B cfg r ts" "\<And>x. occupied r x \<Longrightarrow> x \<noteq> t \<Longrightarrow> occupied r' x"
    and "\<And>i. i \<in> set ts' \<Longrightarrow> i \<in> set ts \<and> ii_rob_id i \<noteq> t" "table_ok B cfg r ts'"
  shows "table_ok B cfg r' ts'"
  using assms by (intro table_ok_rob [OF assms(4)]) blast

lemma pinv_commit_loop: "pinv B cfg c p \<Longrightarrow> \<exists>p'. commit_loop n p = Some p' \<and> pinv B cfg c p'"
proof (induction n arbitrary: p)
  case (Suc n)
  note p = Suc.prems
  show ?case
  proof (cases "rob_commit (p_rob p)")
    case (Some x)
    then obtain d v t r where x: "rob_commit (p_rob p) = Some ((d, v, t), r)" by (cases x) auto
    note oc = occupied_commit [OF pinvD(3) [OF p] x]
    note ts = pinvD(5) [OF p]
    have r: "rob_wf r" "rob_capacity r = cfg_rob_size cfg" using oc pinvD(4) [OF p] by auto
    have occ: "occupied r y" if "occupied (p_rob p) y" "y \<noteq> t" for y using oc that by blast
    let ?p1 = "p\<lparr>p_rob := r, p_freed_rob_tags := p_freed_rob_tags p @ [t]\<rparr>"
    show ?thesis
    proof (cases "findInstByRobId t ?p1")
      case None
      then have nf: "ii_rob_id i \<noteq> t" if "i \<in> set (p_inst_table p)" for i using not_found_rob [OF None] that by simp
      have "table_ok B cfg r (p_inst_table p)"
        by (rule table_ok_retire [OF ts occ _ ts]) (use nf in auto)
      then have "pinv B cfg c ?p1" using pinv_rob [OF p r] by simp
      with None x Suc.IH [of ?p1] show ?thesis by simp
    next
      case (Some i)
      then have i: "i \<in> set (p_inst_table p)" "ii_rob_id i = t" using found_rob [OF Some] by auto
      let ?ts = "table_erase (ii_inst_id i) (p_inst_table p)"
      have gone: "ii_rob_id j \<noteq> t" if "j \<in> set ?ts" for j
      proof
        assume "ii_rob_id j = t"
        with i that ts have "j = i" by (auto simp: table_erase_def table_ok_def distinct_map inj_on_def)
        with that show False by (simp add: table_erase_def)
      qed
      have ts': "table_ok B cfg (p_rob p) ?ts" using ts by (simp add: table_erase_def table_ok_filter)
      have tr: "table_ok B cfg r ?ts"
        by (rule table_ok_retire [OF ts occ _ ts']) (use gone in \<open>auto simp: table_erase_def\<close>)
      have "prest B cfg c ?p1"
        using pinv_rob [OF pinv_table [OF p ts'] r] tr by (simp add: pinv_defs)
      then obtain p2 where p2: "commit_inst i d v t ?p1 = Some p2" "prest B cfg c p2" "p_rob p2 = r"
          "p_inst_table p2 = p_inst_table p" using prest_commit_inst [of B cfg c ?p1 i d v t] by auto
      let ?p3 = "upd_stats (\<lambda>s. s\<lparr>st_committed := st_committed s + 1\<rparr>) (p2\<lparr>p_inst_table := ?ts\<rparr>)"
      have "pinv B cfg c ?p3" using p2 tr by (simp add: pinv_def)
      then obtain p' where "commit_loop n ?p3 = Some p'" "pinv B cfg c p'" using Suc.IH by blast
      with Some x p2 show ?thesis by (simp add: Let_def)
    qed
  qed (use p in simp)
qed simp

lemma pinv_commitStage: "pinv B cfg c p \<Longrightarrow> \<exists>p'. commitStage p = Some p' \<and> pinv B cfg c p'"
  using pinv_processStoreBuffer [of B cfg c p] pinv_commit_loop by (fastforce simp: commitStage_def)

end
