(* ===== verification/PipelineStages.thy ===== *)
theory PipelineStages
  imports PipelineInv
begin

text \<open>
  Writeback keeps the invariant: early recovery, branch resolution, the memory's turn, the
  granted results and the functional units.
\<close>

section \<open>Early recovery\<close>

lemma rename_ok_scrub: "rename_ok cfg t k \<Longrightarrow> rename_ok cfg (rat_restoreStateScrub st fr t) k"
  by (auto simp: rename_ok_def rat_restoreStateScrub_def split: list.split)

lemma rename_ok_recover: "rename_ok cfg (p_rat p) k \<Longrightarrow> rename_ok cfg (recover_rat br fr p) k"
  by (simp add: recover_rat_def Let_def rename_ok_scrub rename_ok_ck(3) split: option.split)

lemma rename_ok_fold: "rename_ok cfg t k \<Longrightarrow> rename_ok cfg t (fold ck_invalidate ts k)"
  by (induction ts arbitrary: k) (simp_all add: rename_ok_ck(1))

lemma killed_ok:
  assumes p: "pinv B cfg c p" and t: "t < cfg_rob_size cfg"
  shows "\<exists>kill. killed t p = Some kill \<and>
    (\<forall>i \<in> set (p_inst_table p). i \<in> set kill \<or> rob_isYounger (p_rob p) (ii_rob_id i) t = Some False)"
proof -
  let ?f = "\<lambda>i. rob_isYounger (p_rob p) (ii_rob_id i) t"
  have y: "\<exists>b. ?f i = Some b" if "i \<in> set (p_inst_table p)" for i
    using that pinvD(4,5) [OF p] t isYounger_some [of "ii_rob_id i" "p_rob p" t]
    by (simp add: table_ok_def occupied_def)
  then have "map_opt ?f (p_inst_table p) \<noteq> None" by (intro map_opt_some) fastforce
  then obtain fs where fs: "map_opt ?f (p_inst_table p) = Some fs" by blast
  have "i \<in> set (map fst (filter snd (zip (p_inst_table p) fs))) \<or> ?f i = Some False"
    if i: "i \<in> set (p_inst_table p)" for i
  proof -
    obtain k where k: "k < length (p_inst_table p)" "p_inst_table p ! k = i" using i by (auto simp: in_set_conv_nth)
    have fk: "?f i = Some (fs ! k)" using map_opt_nth [OF fs k(1)] k(2) by simp
    have "(i, fs ! k) \<in> set (zip (p_inst_table p) fs)"
      using k map_opt_length [OF fs] by (auto simp: in_set_zip)
    with fk show ?thesis by (cases "fs ! k") force+
  qed
  with fs show ?thesis by (simp add: killed_def)
qed

lemma fold_table_erase: "fold (\<lambda>i. table_erase (ii_inst_id i)) ks ts = filter (\<lambda>i. ii_inst_id i \<notin> ii_inst_id ` set ks) ts"
  by (induction ks arbitrary: ts) (auto simp: table_erase_def intro!: filter_cong)

lemma ifq_ok_flush: "ifq_ok B cfg h q \<Longrightarrow> ifq_ok B cfg h (ifq_flush q)"
  by (simp add: ifq_ok_def ifq_flush_ok)

lemma dispatch_ok_flush: "dispatch_ok B cfg d \<Longrightarrow> dispatch_ok B cfg (dr_flush d)"
  by (simp add: dispatch_ok_def dr_flush_wf dr_contents_def)

lemma kind_set_cached [simp]: "kind (set_cached f ms) = kind ms"
  by (cases ms) (simp_all add: set_cached_def)

lemma prest_redirect: "prest B cfg c p \<Longrightarrow> prest B cfg c (redirect pc p)"
  by (simp add: prest_def redirect_def ifq_ok_flush dispatch_ok_flush)

lemma redirect_frame [simp]: "p_rob (redirect pc p) = p_rob p" "p_inst_table (redirect pc p) = p_inst_table p"
  by (simp_all add: redirect_def)

lemma prest_squash_all: "prest B cfg c p \<Longrightarrow> prest B cfg c (squash_all kill p)"
  using lsq_ok_keeps [OF _ lsq_keeps_squashInstIds]
  by (simp add: prest_def squash_all_def Let_def engine_ok_squash arbiter_ok_invalidate rename_ok_fold)

lemma squash_all_frame [simp]: "p_rob (squash_all kill p) = p_rob p" "p_inst_table (squash_all kill p) = p_inst_table p"
  by (simp_all add: squash_all_def Let_def)

lemma prest_rename: "prest B cfg c p \<Longrightarrow> rename_ok cfg t (p_rat_ckpts p) \<Longrightarrow> prest B cfg c (p\<lparr>p_rat := t, p_ras := s\<rparr>)"
  by (simp add: prest_def)

lemma prest_rob: "prest B cfg c p \<Longrightarrow> rob_wf r \<Longrightarrow> rob_capacity r = cfg_rob_size cfg \<Longrightarrow>
    prest B cfg c (p\<lparr>p_rob := r, p_inst_table := ts\<rparr>)"
  by (simp add: prest_def)

text \<open>
  The entries that survive are those that are not younger than the branch, and these keep their
  tags in the reorder buffer.
\<close>

lemma pinv_earlyRecover:
  assumes p: "pinv B cfg c p" and br: "occupied (p_rob p) (ii_rob_id br)"
  shows "\<exists>p'. earlyRecover br p = Some p' \<and> pinv B cfg c p'"
proof -
  let ?st = "\<lambda>s. s\<lparr>st_flushes := st_flushes s + 1\<rparr>"
  let ?p = "upd_stats ?st p"
  have pi: "pinv B cfg c ?p" using p by simp
  obtain kill where kill: "killed (ii_rob_id br) ?p = Some kill"
      "\<forall>i \<in> set (p_inst_table p). i \<in> set kill \<or> rob_isYounger (p_rob p) (ii_rob_id i) (ii_rob_id br) = Some False"
    using killed_ok [OF pi occupied_less [OF p br]] by auto
  obtain n r where r: "rob_squashYoungerThan (ii_rob_id br) (p_rob p) = Some (n, r)" "rob_wf r"
      "rob_capacity r = cfg_rob_size cfg"
      "\<And>x. occupied (p_rob p) x \<Longrightarrow> rob_isYounger (p_rob p) x (ii_rob_id br) = Some False \<Longrightarrow> occupied r x"
    using occupied_squash [OF pinvD(3) [OF p] br] pinvD(4) [OF p] by auto
  let ?p1 = "upd_stats (\<lambda>s. s\<lparr>st_squashed := st_squashed s + of_nat (length kill)\<rparr>) ?p"
  let ?fr = "p_freed_rob_tags ?p1 @ map ii_rob_id kill"
  let ?p2 = "?p1\<lparr>p_rat := recover_rat br ?fr ?p1,
      p_ras := ras_restoreFull (ii_ras_tos br) (ii_ras_count br) (ii_ras_stack br) (p_ras ?p1)\<rparr>"
  let ?ts = "fold (\<lambda>i. table_erase (ii_inst_id i)) kill (p_inst_table p)"
  have p1: "prest B cfg c ?p1" using p by (simp add: pinv_def)
  then have "rename_ok cfg (p_rat ?p1) (p_rat_ckpts ?p1)" by (simp add: prest_def)
  then have "prest B cfg c ?p2" by (intro prest_rename [OF p1] rename_ok_recover)
  then have "prest B cfg c (squash_all kill ?p2)" by (rule prest_squash_all)
  then have rest: "prest B cfg c (redirect (ii_recovery_pc br) ((squash_all kill ?p2)\<lparr>p_rob := r, p_inst_table := ?ts\<rparr>))"
    using r(2,3) by (intro prest_redirect prest_rob)
  have "table_ok B cfg r ?ts"
    unfolding fold_table_erase
  proof (rule table_ok_rob [OF table_ok_filter [OF pinvD(5) [OF p]]])
    fix i assume "i \<in> set (filter (\<lambda>i. ii_inst_id i \<notin> ii_inst_id ` set kill) (p_inst_table p))"
      and "occupied (p_rob p) (ii_rob_id i)"
    then show "occupied r (ii_rob_id i)" using kill(2) r(4) by auto
  qed
  with rest have "pinv B cfg c (redirect (ii_recovery_pc br) ((squash_all kill ?p2)\<lparr>p_rob := r, p_inst_table := ?ts\<rparr>))"
    by (simp add: pinv_def)
  then show ?thesis using kill(1) r(1) by (simp add: earlyRecover_def Let_def)
qed

section \<open>Branch resolution and results\<close>

lemma resolved_core [simp]: "core (resolved i v) = core i"
  by (simp add: resolved_def split_beta Let_def)

lemma resolved_rob [simp]: "ii_rob_id (resolved i v) = ii_rob_id i"
  by (simp add: resolved_def split_beta Let_def)

lemma pinv_resolveBranch:
  assumes p: "pinv B cfg c p" and i: "i \<in> set (p_inst_table p)"
  shows "\<exists>p'. resolveBranch i v p = Some p' \<and> pinv B cfg c p'"
proof -
  let ?p1 = "upd_stats (\<lambda>s. s\<lparr>st_branches_resolved := st_branches_resolved s + 1\<rparr>) p"
  let ?j = "(resolved i v)\<lparr>ii_mispredicted := True, ii_recovery_pc := ii_br_next_pc (resolved i v)\<rparr>"
  have p1: "pinv B cfg c ?p1" "i \<in> set (p_inst_table ?p1)" using p i by simp_all
  have cj: "core ?j = core i" using resolved_core [of i v] by simp
  have a: "pinv B cfg c (upd_inst (ii_inst_id i) (\<lambda>_. resolved i v) ?p1)"
    by (rule pinv_set_inst [OF p1 resolved_core])
  have "pinv B cfg c (upd_inst (ii_inst_id i) (\<lambda>_. ?j) ?p1)" by (rule pinv_set_inst [OF p1 cj])
  then have b: "pinv B cfg c (upd_stats (\<lambda>s. s\<lparr>st_branch_mispredicts := st_branch_mispredicts s + 1\<rparr>)
      (upd_inst (ii_inst_id i) (\<lambda>_. ?j) ?p1))" (is "pinv B cfg c ?p2") by simp
  have "occupied (p_rob p) (ii_rob_id i)" using pinvD(5) [OF p] i by (simp add: table_ok_def)
  then have "occupied (p_rob ?p2) (ii_rob_id ?j)" by (simp add: upd_inst_def)
  from pinv_earlyRecover [OF b this] a p show ?thesis by (auto simp: resolveBranch_def Let_def)
qed

lemma core_completed [simp]: "core (i\<lparr>ii_completed := b\<rparr>) = core i"
  by simp

lemma pinv_complete: "pinv B cfg c p \<Longrightarrow> pinv B cfg c (upd_inst iid (\<lambda>i. i\<lparr>ii_completed := True\<rparr>) p)"
  by (rule pinv_upd_inst) simp_all

lemma pinv_broadcastCDB: "pinv B cfg c p \<Longrightarrow> \<exists>p'. broadcastCDB r p = Some p' \<and> pinv B cfg c p'"
proof (cases "cdb_rob_id r")
  case (Some t)
  assume p: "pinv B cfg c p"
  show ?thesis
  proof (cases "findInstByRobId t p")
    case None
    with Some p show ?thesis by (simp add: broadcastCDB_def)
  next
    case (Some i)
    then have "t < cfg_rob_size cfg" using pinv_found [OF p Some] occupied_less [OF p] by blast
    then obtain r' where r': "rob_writeResult t (cdb_value r) (p_rob p) = Some r'" "pinv B cfg c (p\<lparr>p_rob := r'\<rparr>)"
      using pinv_write [OF p] by blast
    have "pinv B cfg c ((p\<lparr>p_rob := r'\<rparr>)\<lparr>p_cdb_wakeup_pending := p_cdb_wakeup_pending p @ [(t, cdb_value r)]\<rparr>)"
      using r'(2) by (simp only: pinv_other)
    then show ?thesis using Some \<open>cdb_rob_id r = Some t\<close> r'(1) pinv_complete
      by (simp add: broadcastCDB_def Let_def)
  qed
qed (simp add: broadcastCDB_def)

lemma pinv_resolve_one:
  assumes p: "pinv B cfg c p" and b: "br_rob_id b = Some t" "t < cfg_rob_size cfg"
  shows "\<exists>p' G'. resolve_one b (p, G) = Some (p', G') \<and> pinv B cfg c p'"
proof (cases "findInstByRobId t p")
  case None
  with p b show ?thesis by (simp add: resolve_one_def)
next
  case (Some i)
  have i: "i \<in> set (p_inst_table p)" using found_rob [OF Some] by simp
  let ?first = "\<not> ii_br_resolved i"
  obtain p1 where p1: "(if ?first then resolveBranch i (br_value b) p else Some p) = Some p1" "pinv B cfg c p1"
    using pinv_resolveBranch [OF p i, of "br_value b"] p by (cases ?first) auto
  obtain r' where r': "rob_writeResult t (br_value b) (p_rob p1) = Some r'" "pinv B cfg c (p1\<lparr>p_rob := r'\<rparr>)"
    using pinv_write [OF p1(2) b(2)] by blast
  have "pinv B cfg c (upd_inst (ii_inst_id i) (\<lambda>i. i\<lparr>ii_completed := True\<rparr>) (p1\<lparr>p_rob := r'\<rparr>))"
    by (rule pinv_complete [OF r'(2)])
  then show ?thesis using Some b(1) p1 r'(1) by (auto simp: resolve_one_def Let_def)
qed

lemma pinv_resolve_all:
  "pinv B cfg c p \<Longrightarrow> (\<And>b. b \<in> set bs \<Longrightarrow> \<exists>t < cfg_rob_size cfg. br_rob_id b = Some t) \<Longrightarrow>
   \<exists>p' G'. resolve_all bs (p, G) = Some (p', G') \<and> pinv B cfg c p'"
proof (induction bs arbitrary: p G)
  case (Cons b bs)
  obtain t where t: "br_rob_id b = Some t" "t < cfg_rob_size cfg" using Cons.prems(2) [of b] by auto
  obtain p1 G1 where p1: "resolve_one b (p, G) = Some (p1, G1)" "pinv B cfg c p1"
    using pinv_resolve_one [OF Cons.prems(1) t] by blast
  then show ?case using Cons.IH [OF p1(2), of G1] Cons.prems(2) by simp
qed simp

text \<open>The granted results; a lane of the load/store queue names an entry of the queue.\<close>

lemma pinv_grant_one:
  assumes p: "pinv B cfg c p" and l: "lane_ok (cfg_lsq_size cfg) l"
  shows "\<exists>p' G'. grant_one (r, l) (p, G) = Some (p', G') \<and> pinv B cfg c p'"
proof -
  obtain p1 where p1: "broadcastCDB r p = Some p1" "pinv B cfg c p1" using pinv_broadcastCDB [OF p] by blast
  define p2 where "p2 = (case cdb_rob_id r of None \<Rightarrow> p1 | Some t \<Rightarrow> (case findInstByRobId t p1 of None \<Rightarrow> p1
         | Some i \<Rightarrow> upd_inst (ii_inst_id i) (\<lambda>i. i\<lparr>ii_completed := True\<rparr>) p1))"
  have p2: "pinv B cfg c p2" unfolding p2_def using p1(2) pinv_complete by (simp split: option.split)
  show ?thesis
  proof (cases "cp_source l = 0")
    case True
    then show ?thesis using p1(1) p2 by (simp add: grant_one_def p2_def)
  next
    case False
    then obtain k where k: "k < cfg_lsq_size cfg" "cp_slot l = Some k" using l by (auto simp: lane_ok_def)
    then have "k < length (lq_queue (p_lsq p2))" using pinvD(8) [OF p2] by (simp add: lsq_ok_def)
    then have "lsq_releaseSlot k (p_lsq p2) \<noteq> None" by (simp add: lsq_releaseSlot_def)
    then obtain q where q: "lsq_releaseSlot k (p_lsq p2) = Some q" by blast
    have "pinv B cfg c (p2\<lparr>p_lsq := q\<rparr>)" by (rule pinv_lsq [OF p2 lsq_keeps_release [OF q]])
    then show ?thesis using False k(2) p1(1) q by (simp add: grant_one_def p2_def)
  qed
qed

lemma pinv_grant_all:
  "pinv B cfg c p \<Longrightarrow> (\<And>r l. (r, l) \<in> set gs \<Longrightarrow> lane_ok (cfg_lsq_size cfg) l) \<Longrightarrow>
   \<exists>p' G'. grant_all gs (p, G) = Some (p', G') \<and> pinv B cfg c p'"
proof (induction gs arbitrary: p G)
  case (Cons g gs)
  obtain r l where g: "g = (r, l)" by fastforce
  obtain p1 G1 where p1: "grant_one g (p, G) = Some (p1, G1)" "pinv B cfg c p1"
    using pinv_grant_one [OF Cons.prems(1) Cons.prems(2) [of r l], of r G] g by auto
  have "lane_ok (cfg_lsq_size cfg) l" if "(r, l) \<in> set gs" for r l using Cons.prems(2) [of r l] that by simp
  from Cons.IH [OF p1(2), of G1, OF this] p1(1) show ?case by simp
qed simp

section \<open>Memory\<close>

lemma pinv_memory:
  assumes "pinv B cfg c p" "lsq_keeps (p_lsq p) q" "B \<Longrightarrow> kind ms = Some Ideal"
  shows "pinv B cfg c (p\<lparr>p_lsq := q, p_memsys := ms, p_mem := mem\<rparr>)"
proof -
  have "pinv B cfg c ((p\<lparr>p_lsq := q\<rparr>)\<lparr>p_memsys := ms\<rparr>)" by (intro pinv_memsys pinv_lsq assms)
  then have "pinv B cfg c ((p\<lparr>p_lsq := q\<rparr>)\<lparr>p_memsys := ms\<rparr>\<lparr>p_mem := mem\<rparr>)" by (simp only: pinv_other)
  then show ?thesis by simp
qed

lemma fine_memory_cycle:
  assumes p0: "pinv B cfg c p0"
  shows "fine B (pinv B cfg c) (memory_cycle p0)"
proof -
  let ?p = "p0\<lparr>p_lsq := lsq_promoteCdbWaits (p_lsq p0)\<rparr>"
  have p: "pinv B cfg c ?p" by (rule pinv_lsq [OF p0 lsq_keeps_promote])
  show ?thesis
  proof (cases "useCachedMem ?p")
    case True
    then have nB: "\<not> B" using pinvD(13) [OF p] by (auto simp: useCachedMem_def)
    show ?thesis
    proof (cases "memory_cycle p0")
      case (Some p')
      with True obtain ms mem rs ms' q ms'' mem' where
          q: "lsq_tick (p_byte_addressed ?p) (lsq_applyDataResps (p_byte_addressed ?p) rs (p_lsq ?p), ms', mem) = Some (q, ms'', mem')"
          "p' = ?p\<lparr>p_lsq := q, p_memsys := ms'', p_mem := mem'\<rparr>"
        by (auto simp: memory_cycle_def Let_def split: bind_splits)
      have "lsq_keeps (p_lsq ?p) q"
        by (rule lsq_keeps_trans [OF lsq_keeps_applyDataResps lsq_keeps_tick [OF q(1)]])
      with Some q(2) show ?thesis using pinv_memory [OF p] nB by simp
    qed (simp add: nB)
  next
    case False
    show ?thesis
    proof (cases "lsq_tick (p_byte_addressed ?p) (p_lsq ?p, p_memsys ?p, p_mem ?p)")
      case None
      have "\<not> B"
      proof
        assume B
        then have "\<not> lsq_usesCachedMem (p_memsys ?p)" "cycles_ok (lq_queue (p_lsq ?p))"
          using pinvD(8,13) [OF p] by (simp_all add: lsq_usesCachedMem_def lsq_ok_def)
        from lsq_tick_ideal [OF this, of "p_byte_addressed ?p" "p_mem ?p"] None show False by simp
      qed
      with None False show ?thesis by (simp add: memory_cycle_def Let_def)
    next
      case (Some x)
      then obtain q ms mem where x: "lsq_tick (p_byte_addressed ?p) (p_lsq ?p, p_memsys ?p, p_mem ?p) = Some (q, ms, mem)"
        by (cases x) auto
      have "kind ms = Some Ideal" if B
      proof -
        have "\<not> lsq_usesCachedMem (p_memsys ?p)" "cycles_ok (lq_queue (p_lsq ?p))" "kind (p_memsys ?p) = Some Ideal"
          using pinvD(8,13) [OF p] that by (simp_all add: lsq_usesCachedMem_def lsq_ok_def)
        then show ?thesis using lsq_tick_ideal [of "p_memsys ?p" "p_lsq ?p" "p_byte_addressed ?p" "p_mem ?p"] x by auto
      qed
      then have "pinv B cfg c (?p\<lparr>p_lsq := q, p_memsys := ms, p_mem := mem\<rparr>)"
        by (rule pinv_memory [OF p lsq_keeps_tick [OF x]])
      with x False show ?thesis by (simp add: memory_cycle_def Let_def)
    qed
  qed
qed

section \<open>Writeback\<close>

lemma sorted_resolves_ok:
  assumes p: "pinv B cfg c p"
  shows "\<exists>bs. sorted_resolves (p_rob p) (ee_collectBranchResolves (p_ee p)) = Some bs
    \<and> (\<forall>b \<in> set bs. \<exists>t < cfg_rob_size cfg. br_rob_id b = Some t)"
proof -
  have r: "\<exists>t < cfg_rob_size cfg. br_rob_id b = Some t" if "b \<in> set (ee_collectBranchResolves (p_ee p))" for b
    using resolves_in_range [OF pinvD(9) [OF p] that] .
  then have "resolve_age (p_rob p) b \<noteq> None" if "b \<in> set (ee_collectBranchResolves (p_ee p))" for b
    using that pinvD(4) [OF p] by (fastforce simp: resolve_age_def rob_ageFromHead_def)
  with r show ?thesis by (auto simp: sorted_resolves_def)
qed

lemma pinv_producers: "pinv B cfg c p \<Longrightarrow> producers_ok (cfg_lsq_size cfg) (num_units cfg + cfg_num_lsq cfg) (producers p)"
  by (rule producers_ok_producers) (use pinvD(8,9) in \<open>fastforce simp: lsq_ok_def engine_ok_def\<close>)+

lemma fine_writebackStage:
  assumes p0: "pinv B cfg c p0"
  shows "fine B (pinv B cfg c) (writebackStage p0)"
  unfolding writebackStage_def
proof (rule fine_bind [OF fine_memory_cycle [OF p0]])
  fix p1 assume p1: "pinv B cfg c p1"
  obtain bs where bs: "sorted_resolves (p_rob p1) (ee_collectBranchResolves (p_ee p1)) = Some bs"
      "\<And>b. b \<in> set bs \<Longrightarrow> \<exists>t < cfg_rob_size cfg. br_rob_id b = Some t"
    using sorted_resolves_ok [OF p1] by blast
  obtain p2 G where p2: "resolve_all bs (p1, {}) = Some (p2, G)" "pinv B cfg c p2"
    using pinv_resolve_all [OF p1 bs(2)] by blast
  obtain g arb where g: "arb_selectGrants (producers p2) (p_cdb_arbiter p2) = Some (g, arb)"
      "arbiter_ok (cfg_lsq_size cfg) (num_units cfg + cfg_num_lsq cfg) arb"
      "\<forall>l \<in> set (gr_lanes g). lane_ok (cfg_lsq_size cfg) l"
    using arbiter_ok_select [OF pinvD(10) [OF p2(2)] pinv_producers [OF p2(2)]] by blast
  let ?p3 = "p2\<lparr>p_cdb_arbiter := arb,
      p_ee := ee_setLaneReady (take (length (ee_units (p_ee p2))) (gr_producer_ready g)) (p_ee p2)\<rparr>"
  have "pinv B cfg c ((p2\<lparr>p_cdb_arbiter := arb\<rparr>)
      \<lparr>p_ee := ee_setLaneReady (take (length (ee_units (p_ee p2))) (gr_producer_ready g)) (p_ee p2)\<rparr>)"
    using pinvD(9) [OF p2(2)] by (intro pinv_engine pinv_arbiter p2(2) g(2)) simp
  then have p3: "pinv B cfg c ?p3" by simp
  have "lane_ok (cfg_lsq_size cfg) l" if "(r, l) \<in> set (zip (gr_out g) (gr_lanes g))" for r l
    using that g(3) by (meson set_zip_rightD)
  then obtain p4 G' where p4: "grant_all (zip (gr_out g) (gr_lanes g)) (?p3, G) = Some (p4, G')" "pinv B cfg c p4"
    using pinv_grant_all [OF p3] by blast
  let ?p5 = "p4\<lparr>p_ee := ee_applyCdbAndAdvance G' (p_ee p4)\<rparr>"
  have p5: "pinv B cfg c ?p5" by (intro pinv_engine p4(2) engine_ok_apply pinvD(9) [OF p4(2)])
  obtain arb' where arb': "arb_commitPending (producers ?p5) (p_cdb_arbiter ?p5) = Some arb'"
      "arbiter_ok (cfg_lsq_size cfg) (num_units cfg + cfg_num_lsq cfg) arb'"
    using arbiter_ok_commit [OF pinvD(10) [OF p5] pinv_producers [OF p5]] by blast
  have "pinv B cfg c (?p5\<lparr>p_cdb_arbiter := arb'\<rparr>)" by (rule pinv_arbiter [OF p5 arb'(2)])
  then show "fine B (pinv B cfg c) (do {
     bs \<leftarrow> sorted_resolves (p_rob p1) (ee_collectBranchResolves (p_ee p1));
     (p2, granted) \<leftarrow> resolve_all bs (p1, {});
     (g, arb) \<leftarrow> arb_selectGrants (producers p2) (p_cdb_arbiter p2);
     let p3 = p2\<lparr>p_cdb_arbiter := arb,
           p_ee := ee_setLaneReady (take (length (ee_units (p_ee p2))) (gr_producer_ready g)) (p_ee p2)\<rparr>;
     (p4, granted') \<leftarrow> grant_all (zip (gr_out g) (gr_lanes g)) (p3, granted);
     let p5 = p4\<lparr>p_ee := ee_applyCdbAndAdvance granted' (p_ee p4)\<rparr>;
     arb' \<leftarrow> arb_commitPending (producers p5) (p_cdb_arbiter p5);
     Some (p5\<lparr>p_cdb_arbiter := arb'\<rparr>) })"
    using bs(1) p2(1) g(1) p4(1) arb'(1) by (simp add: Let_def)
qed

end
