(* ===== verification/PipelineIssue.thy ===== *)
theory PipelineIssue
  imports PipelineStages
begin

text \<open>
  Dispatch to the functional units, rename, decode and fetch keep the invariant, and so does the
  start of a cycle.
\<close>

section \<open>Dispatch to execution\<close>

lemma agen_inst_core: "agen_inst i q = (i', q') \<Longrightarrow> core i' = core i \<and> lsq_keeps q q'"
proof -
  assume a: "agen_inst i q = (i', q')"
  have st: "lsq_keeps q (lsq_setStoreData x d q'')" if "lsq_keeps q q''" for x d q''
    using lsq_keeps_trans [OF that lsq_keeps_first(2)] .
  have "lsq_keeps q (lsq_setAddress x y q)" for x y by (rule lsq_keeps_first(1))
  with st a show ?thesis by (auto simp: agen_inst_def Let_def split: if_splits)
qed

lemma agen_table_core:
  "agen_table ts q = (ts', q') \<Longrightarrow> map core ts' = map core ts \<and> lsq_keeps q q'"
proof (induction ts arbitrary: q ts' q')
  case (Cons i ts)
  obtain i1 q1 where a: "agen_inst i q = (i1, q1)" by fastforce
  obtain ts1 q2 where b: "agen_table ts q1 = (ts1, q2)" by fastforce
  have "ts' = i1 # ts1" "q' = q2" using Cons.prems a b by simp_all
  with agen_inst_core [OF a] Cons.IH [OF b] show ?case using lsq_keeps_trans by auto
qed simp

lemma table_ok_core: "map core ts' = map core ts \<Longrightarrow> table_ok B cfg r ts' = table_ok B cfg r ts"
proof -
  assume m: "map core ts' = map core ts"
  have "map fst (map core ts') = map fst (map core ts)" "map (fst \<circ> snd) (map core ts') = map (fst \<circ> snd) (map core ts)"
    by (simp_all only: m)
  then have ids: "map ii_inst_id ts' = map ii_inst_id ts" "map ii_rob_id ts' = map ii_rob_id ts"
    by (simp_all add: comp_def)
  have all: "(\<forall>i \<in> set xs. occupied r (ii_rob_id i) \<and> info_ok B cfg i) =
    (\<forall>(a, t, d, s1, s2, u, op) \<in> set (map core xs). occupied r t \<and> d < int (cfg_num_regs cfg) \<and> s1 < int (cfg_num_regs cfg)
       \<and> s2 < int (cfg_num_regs cfg) \<and> (B \<longrightarrow> u \<or> op \<noteq> ''DIV''))" for xs
    by (simp add: info_ok_def)
  show ?thesis unfolding table_ok_def all m ids ..
qed

lemma fine_issue_inst:
  assumes e: "engine_ok cap n e" "ii_rob_id i < cap" and i: "info_ok B cfg i"
  shows "fine B (\<lambda>(ok, e'). engine_ok cap n e') (issue_inst i e)"
proof (cases "ii_has_uop i")
  case True
  then show ?thesis using engine_ok_issue [OF e] by (simp add: issue_inst_def split_beta)
next
  case False
  let ?op = "if ii_is_addi i then ''ADD'' else ii_opcode i"
  have "?op \<noteq> ''DIV''" if B using i that False by (simp add: info_ok_def)
  then have "ee_issue_toy ?op (ii_src1_val i) (ii_src2_val i) (ii_rob_id i) e \<noteq> None" if B
    using that issue_toy_total by blast
  then show ?thesis using engine_ok_issue_toy [OF e] False
    by (cases "ee_issue_toy ?op (ii_src1_val i) (ii_src2_val i) (ii_rob_id i) e") (auto simp: issue_inst_def)
qed

lemma pinv_dispatched:
  assumes p: "pinv B cfg c p" and e: "engine_ok (cfg_rob_size cfg) (num_units cfg) e"
  shows "pinv B cfg c (upd_inst iid (\<lambda>i. i\<lparr>ii_dispatched_alu := True\<rparr>) (p\<lparr>p_ee := e, p_rs := rs\<rparr>))"
proof -
  have "pinv B cfg c ((p\<lparr>p_ee := e\<rparr>)\<lparr>p_rs := rs\<rparr>)" unfolding pinv_other by (rule pinv_engine [OF p e])
  then show ?thesis by (intro pinv_upd_inst) simp_all
qed

lemma fine_issue_ready: "pinv B cfg c p \<Longrightarrow> fine B (pinv B cfg c) (issue_ready ids cnt p)"
proof (induction ids arbitrary: cnt p)
  case (Cons iid ids)
  note p = Cons.prems
  have rs: "pinv B cfg c (p\<lparr>p_rs := rs\<rparr>)" for rs using p by simp
  show ?case
  proof (cases "findInstById iid p")
    case None
    then show ?thesis using Cons.IH [OF rs] by simp
  next
    case (Some i)
    then have "i \<in> set (p_inst_table p)" using found_id by blast
    then have i: "occupied (p_rob p) (ii_rob_id i)" "info_ok B cfg i" using pinvD(5) [OF p] by (simp_all add: table_ok_def)
    note f = fine_issue_inst [OF pinvD(9) [OF p] occupied_less [OF p i(1)] i(2)]
    show ?thesis
    proof (cases "issue_inst i (p_ee p)")
      case None
      then show ?thesis using f Some Cons.IH [OF rs] Cons.IH [OF p] by (simp add: Let_def)
    next
      case (Some x)
      obtain ok e where x: "x = (ok, e)" by fastforce
      have e: "engine_ok (cfg_rob_size cfg) (num_units cfg) e" using f Some x by simp
      show ?thesis using Some x \<open>findInstById iid p = Some i\<close> Cons.IH [OF rs] Cons.IH [OF p]
          Cons.IH [OF pinv_dispatched [OF p e]] Cons.IH [OF pinv_engine [OF p e]] by (simp add: Let_def)
    qed
  qed
qed simp

lemma pinv_dispatch_loads: "pinv B cfg c p \<Longrightarrow> pinv B cfg c (dispatch_loads ids n p)"
proof (induction ids arbitrary: n p)
  case (Cons iid ids)
  obtain ok q where q: "lsq_dispatchLoad (p_byte_addressed p) (p_memsys p) iid (p_lsq p) = (ok, q)" by fastforce
  have p1: "pinv B cfg c (p\<lparr>p_lsq := q\<rparr>)" by (rule pinv_lsq [OF Cons.prems lsq_keeps_dispatchLoad [OF q]])
  then have "pinv B cfg c (upd_inst iid (\<lambda>i. i\<lparr>ii_dispatched_load := True\<rparr>) (p\<lparr>p_lsq := q\<rparr>))"
    by (rule pinv_upd_inst) simp
  with p1 q Cons.prems Cons.IH show ?case by (simp add: Let_def)
qed simp

lemma fine_dispatchStage:
  assumes p: "pinv B cfg c p"
  shows "fine B (pinv B cfg c) (dispatchStage p)"
proof -
  obtain ts q where a: "agen_table (p_inst_table p) (p_lsq p) = (ts, q)" by fastforce
  have "table_ok B cfg (p_rob p) ts" using agen_table_core [OF a] table_ok_core pinvD(5) [OF p] by blast
  then have "pinv B cfg c (p\<lparr>p_inst_table := ts\<rparr>)" by (rule pinv_table [OF p])
  then have "pinv B cfg c ((p\<lparr>p_inst_table := ts\<rparr>)\<lparr>p_lsq := q\<rparr>)"
    by (rule pinv_lsq) (use agen_table_core [OF a] in simp)
  then have p1: "pinv B cfg c (p\<lparr>p_inst_table := ts, p_lsq := q\<rparr>)" by simp
  show ?thesis unfolding dispatchStage_def
    by (simp add: a Let_def) (rule fine_bind [OF fine_issue_ready [OF p1]], simp add: pinv_dispatch_loads)
qed

section \<open>Rename\<close>

lemma make_info_core:
  "ii_inst_id (make_info inst iid t p) = iid" "ii_rob_id (make_info inst iid t p) = t"
  "ii_dest_reg (make_info inst iid t p) = dest_for_rob inst"
  "ii_src1_reg (make_info inst iid t p) = f_src1_reg inst" "ii_src2_reg (make_info inst iid t p) = f_src2_reg inst"
  "ii_opcode (make_info inst iid t p) = f_opcode inst" "ii_has_uop (make_info inst iid t p) = f_has_uop inst"
  by (simp_all add: make_info_def inst_of_uop_def inst_of_toy_def inst_common_def inst_ras_def set_src1_def set_src2_def
      inst_info0_def split_beta Let_def)

lemma pinv_allocate: "pinv B cfg c p \<Longrightarrow> allocate_entry i p = (ok, p') \<Longrightarrow>
    pinv B cfg c p' \<and> p_rob p' = p_rob p \<and> p_inst_table p' = p_inst_table p"
  by (auto simp: allocate_entry_def split_beta Let_def split: if_splits
      intro!: pinv_lsq lsq_keeps_allocate [OF surjective_pairing])

lemma take_store_data_keep: "pinv B cfg c p \<Longrightarrow> take_store_data r i p = (i', p') \<Longrightarrow>
    pinv B cfg c p' \<and> p_rob p' = p_rob p \<and> p_inst_table p' = p_inst_table p \<and> core i' = core i"
  by (auto simp: take_store_data_def split_beta Let_def intro!: pinv_lsq lsq_keeps_first)

lemma pinv_rat_rename: "pinv B cfg c p \<Longrightarrow> pinv B cfg c (p\<lparr>p_rat := rat_rename d t (p_rat p)\<rparr>)"
  using rename_ok_ck(3) by (simp add: pinv_defs)

lemma rename_dest_keep: "pinv B cfg c p \<Longrightarrow> rename_dest i p = (i', p') \<Longrightarrow>
    pinv B cfg c p' \<and> p_rob p' = p_rob p \<and> p_inst_table p' = p_inst_table p \<and> core i' = core i"
proof -
  assume p: "pinv B cfg c p" and r: "rename_dest i p = (i', p')"
  define p1 where "p1 = (if (if ii_has_uop i then ii_rd_used i else 0 < ii_dest_reg i \<and> \<not> ii_is_store i)
    then p\<lparr>p_rat := rat_rename (ii_dest_reg i) (ii_rob_id i) (p_rat p)\<rparr> else p)"
  have p1: "pinv B cfg c p1" "p_rob p1 = p_rob p" "p_inst_table p1 = p_inst_table p"
    using p pinv_rat_rename by (simp_all add: p1_def)
  have "(i', p') = (i, p1) \<or> (\<exists>x. take_store_data x i p1 = (i', p'))"
    using r by (auto simp: rename_dest_def Let_def p1_def split: if_splits)
  with p1 take_store_data_keep [OF p1(1)] show ?thesis by (elim disjE exE) (simp, metis)
qed

lemma fine_record_inst:
  assumes p: "pinv B cfg c p" and i: "occupied (p_rob p) (ii_rob_id i)" "info_ok B cfg i"
    and fresh: "\<And>j. j \<in> set (p_inst_table p) \<Longrightarrow> ii_rob_id j \<noteq> ii_rob_id i"
  shows "\<exists>p'. record_inst i p = Some p' \<and> pinv B cfg c p'"
proof -
  obtain ck where ck: "(if isControl i then ck_save (ii_rob_id i) (rat_getState (p_rat p)) (p_rat_ckpts p)
      else Some (p_rat_ckpts p)) = Some ck" "rename_ok cfg (p_rat p) ck"
    using pinvD(6) [OF p] occupied_less [OF p i(1)]
    by (cases "isControl i") (simp_all add: ck_save_def rename_ok_def rat_getState_def)
  have "table_ok B cfg (p_rob p) (table_put i (p_inst_table p))"
    by (rule table_ok_put [OF pinvD(5) [OF p] i fresh])
  then have "pinv B cfg c (p\<lparr>p_inst_table := table_put i (p_inst_table p)\<rparr>)" by (rule pinv_table [OF p])
  then have "pinv B cfg c (p\<lparr>p_rat_ckpts := ck, p_inst_table := table_put i (p_inst_table p)\<rparr>)"
    using ck(2) by (simp add: pinv_defs)
  with ck(1) show ?thesis by (simp add: record_inst_def)
qed

text \<open>
  Allocation succeeds because the space was checked first, so the entry of the reorder buffer is
  never given back.
\<close>

lemma make_info_mem:
  "ii_is_load (make_info inst iid t p) \<or> ii_is_store (make_info inst iid t p) \<longleftrightarrow> needs_mem inst"
  by (simp add: make_info_def inst_of_uop_def inst_of_toy_def inst_common_def inst_ras_def set_src1_def set_src2_def
      split_beta Let_def needs_mem_def isMemoryOp_def)

lemma lsq_allocate_space: "lsq_hasSpace q \<Longrightarrow> fst (lsq_allocate r q)"
  by (cases r) (auto simp: lsq_allocate_def lsq_hasSpace_def first_idx_None split: option.split)

lemma rs_allocate_space: "rs_hasSpace q \<Longrightarrow> fst (rs_allocate iid r q)"
  by (auto simp: rs_allocate_def rs_hasSpace_def first_idx_None split: option.split)

lemma allocate_entry_ok:
  "(if ii_is_load i \<or> ii_is_store i then lsq_hasSpace (p_lsq p) else rs_hasSpace (p_rs p)) \<Longrightarrow> fst (allocate_entry i p)"
  by (auto simp: allocate_entry_def split_beta Let_def lsq_allocate_space rs_allocate_space split: if_splits)

lemma reg_frame [simp]:
  "p_dispatch_reg (upd_stats f p) = p_dispatch_reg p" "p_dispatch_reg (snd (allocate_entry i p)) = p_dispatch_reg p"
  "p_dispatch_reg (snd (rename_dest i p)) = p_dispatch_reg p"
  "record_inst i p = Some p' \<Longrightarrow> p_dispatch_reg p' = p_dispatch_reg p"
  by (auto simp: upd_stats_def allocate_entry_def rename_dest_def take_store_data_def record_inst_def split_beta Let_def
      split: bind_splits)

lemma pinv_dispatch_rob:
  assumes p: "pinv B cfg c p" and r: "rob_wf r" "rob_capacity r = rob_capacity (p_rob p)"
    "\<forall>x. occupied (p_rob p) x \<longrightarrow> occupied r x"
  shows "pinv B cfg c (p\<lparr>p_rob := r, p_next_inst_id := k\<rparr>)"
proof -
  have "table_ok B cfg r (p_inst_table p)" by (rule table_ok_rob [OF pinvD(5) [OF p]]) (use r in blast)
  then have "pinv B cfg c ((p\<lparr>p_rob := r\<rparr>)\<lparr>p_next_inst_id := k\<rparr>)"
    unfolding pinv_other using r pinvD(4) [OF p] by (intro pinv_rob [OF p]) simp_all
  then show ?thesis by simp
qed

lemma pinv_tryRenameOne:
  assumes p: "pinv B cfg c p" and inst: "fetched_ok B cfg inst"
  shows "\<exists>ok p'. tryRenameOne inst p = Some (ok, p') \<and> pinv B cfg c p' \<and> p_dispatch_reg p' = p_dispatch_reg p"
proof (cases "lane_is_nop inst \<or> \<not> rob_hasSpace (p_rob p) \<or> (needs_mem inst \<and> \<not> lsq_hasSpace (p_lsq p))
    \<or> (\<not> needs_mem inst \<and> \<not> rs_hasSpace (p_rs p))")
  case True
  then show ?thesis using p by (auto simp: tryRenameOne_def)
next
  case False
  then have space: "rob_hasSpace (p_rob p)" and
    room: "if needs_mem inst then lsq_hasSpace (p_lsq p) else rs_hasSpace (p_rs p)" by auto
  obtain r t where r: "rob_dispatch (f_opcode inst) (dest_for_rob inst) (p_rob p) = Some (Some t, r)" "rob_wf r"
      "rob_capacity r = rob_capacity (p_rob p)" "\<not> occupied (p_rob p) t" "occupied r t"
      "\<forall>x. occupied (p_rob p) x \<longrightarrow> occupied r x"
    using occupied_dispatch [OF pinvD(3) [OF p] space] by blast
  let ?iid = "p_next_inst_id p"
  let ?p1 = "p\<lparr>p_rob := r, p_next_inst_id := ?iid + 1\<rparr>"
  let ?i = "make_info inst ?iid t ?p1"
  have p1: "pinv B cfg c ?p1" by (rule pinv_dispatch_rob [OF p r(2,3,6)])
  obtain ok p2 where a: "allocate_entry ?i ?p1 = (ok, p2)" by fastforce
  have "fst (allocate_entry ?i ?p1)"
    by (rule allocate_entry_ok) (use room make_info_mem [of inst ?iid t ?p1] in simp)
  then have ok: ok using a by simp
  note p2 = pinv_allocate [OF p1 a]
  obtain i' p3 where b: "rename_dest ?i p2 = (i', p3)" by fastforce
  have p3: "pinv B cfg c p3" "p_rob p3 = r" "p_inst_table p3 = p_inst_table p" "core i' = core ?i"
    using rename_dest_keep [OF conjunct1 [OF p2] b] p2 by auto
  have "info_ok B cfg ?i" using inst by (simp add: info_ok_def make_info_core fetched_ok_def)
  then have i': "ii_rob_id i' = t" "info_ok B cfg i'" using p3(4) info_ok_core [OF p3(4)] by (simp_all add: make_info_core)
  have "ii_rob_id j \<noteq> t" if "j \<in> set (p_inst_table p)" for j
    using that pinvD(5) [OF p] r(4) by (auto simp: table_ok_def)
  then obtain p4 where p4: "record_inst i' p3 = Some p4" "pinv B cfg c p4"
    using fine_record_inst [OF p3(1), of i'] i' p3(2,3) r(5) by auto
  have "p_dispatch_reg p4 = p_dispatch_reg p"
    using p4(1) reg_frame(2) [of ?i ?p1] reg_frame(3) [of ?i p2] a b by simp
  then show ?thesis using False r(1) a ok b p4 by (auto simp: tryRenameOne_def Let_def)
qed

lemma dr_lane_contents: "dr_wf d \<Longrightarrow> dr_laneValid d i \<Longrightarrow> DispatchReg.dr_slots d ! i \<in> set (dr_contents d)"
proof -
  assume wf: "dr_wf d" and v: "dr_laneValid d i"
  have l: "dr_count d \<le> length (DispatchReg.dr_slots d)" "dr_width d = length (DispatchReg.dr_slots d)" using wf by (simp_all add: dr_wf_def)
  have "i < dr_count d"
  proof (rule ccontr)
    assume "\<not> i < dr_count d"
    moreover have "dr_valid d = replicate (dr_count d) True @ replicate (dr_width d - dr_count d) False"
      using wf by (simp add: dr_wf_def)
    ultimately show False using v l by (auto simp: dr_laneValid_def nth_append)
  qed
  with l show ?thesis unfolding dr_contents_def in_set_conv_nth by (intro exI [of _ i]) simp
qed

lemma pinv_rename_lanes:
  "pinv B cfg c p \<Longrightarrow> \<exists>n p'. rename_lanes is p = Some (n, p') \<and> pinv B cfg c p' \<and> n \<le> length is
     \<and> p_dispatch_reg p' = p_dispatch_reg p"
proof (induction "is" arbitrary: p)
  case (Cons i "is")
  show ?case
  proof (cases "dr_laneValid (p_dispatch_reg p) i")
    case True
    note d = pinvD(11) [OF Cons.prems, unfolded dispatch_ok_def]
    have "fetched_ok B cfg (DispatchReg.dr_slots (p_dispatch_reg p) ! i)" using dr_lane_contents True d by blast
    then obtain ok p1 where p1: "tryRenameOne (DispatchReg.dr_slots (p_dispatch_reg p) ! i) p = Some (ok, p1)" "pinv B cfg c p1"
        "p_dispatch_reg p1 = p_dispatch_reg p"
      using pinv_tryRenameOne [OF Cons.prems] by blast
    obtain n p' where "rename_lanes is p1 = Some (n, p')" "pinv B cfg c p'" "n \<le> length is"
        "p_dispatch_reg p' = p_dispatch_reg p1" using Cons.IH [OF p1(2)] by blast
    with True p1 show ?thesis by (simp add: dr_lane_def)
  qed (use Cons.prems in simp)
qed simp

lemma pinv_issueStage: "pinv B cfg c p \<Longrightarrow> \<exists>p'. issueStage p = Some p' \<and> pinv B cfg c p'"
proof -
  assume p: "pinv B cfg c p"
  let ?h = "dr_count (p_dispatch_reg p)"
  obtain n p1 where p1: "rename_lanes [0..<?h] p = Some (n, p1)" "pinv B cfg c p1" "n \<le> ?h"
      "p_dispatch_reg p1 = p_dispatch_reg p" using pinv_rename_lanes [OF p, of "[0..<?h]"] by auto
  note d = pinvD(11) [OF p1(2), unfolded dispatch_ok_def]
  obtain d' where d': "dr_acceptPrefix n (p_dispatch_reg p1) = Some d'" "dr_wf d'"
      "dr_contents d' = drop n (dr_contents (p_dispatch_reg p1))" "dr_width d' = dr_width (p_dispatch_reg p1)"
    using dr_accept_ok [of "p_dispatch_reg p1" n] d p1(3,4) by auto
  have "dispatch_ok B cfg d'" using d d' by (auto simp: dispatch_ok_def dest: in_set_dropD)
  then have "pinv B cfg c (p1\<lparr>p_dispatch_reg := d'\<rparr>)" using p1(2) by (simp add: pinv_defs)
  then show ?thesis using p1(1,2) d'(1) by (simp add: issueStage_def)
qed

end
