(* ===== verification/PipelineFetch.thy ===== *)
theory PipelineFetch
  imports PipelineIssue
begin

text \<open>
  The front end keeps the invariant: decode, the three fetch paths and the wake-ups at the start
  of a cycle.
\<close>

section \<open>Decode\<close>

lemma fetched_ok_decode:
  assumes "raw_ok B cfg (p_hex_mode p) inst" "p_hex_mode p \<longrightarrow> cfg_num_regs cfg = 32"
  shows "fetched_ok B cfg (decodeForDispatch inst p)"
proof (cases "p_hex_mode p")
  case True
  let ?u = "decodeInstruction (f_raw_instr inst) (f_pc inst)"
  have "u_rd ?u \<in> {0..31}" "u_rs1 ?u \<in> {0..31}" "u_rs2 ?u \<in> {0..31}"
    using decode_is_wf [of "f_raw_instr inst" "f_pc inst"] unfolding uop_wf_def by blast+
  with True assms show ?thesis by (simp add: raw_ok_def decodeForDispatch_def fetched_ok_def dest_for_rob_def Let_def)
qed (use assms in \<open>simp add: raw_ok_def decodeForDispatch_def\<close>)

lemma ifq_ok_dequeue: "ifq_ok B cfg h q \<Longrightarrow> ifq_dequeue q = Some (a, q') \<Longrightarrow> ifq_ok B cfg h q' \<and> raw_ok B cfg h a"
proof -
  assume q: "ifq_ok B cfg h q" and d: "ifq_dequeue q = Some (a, q')"
  have wf: "ifq_wf q" using q by (simp add: ifq_ok_def)
  from q ifq_dequeue_ok [OF wf d] show ?thesis by (simp add: ifq_ok_def)
qed

lemma ifq_ok_enqueue: "ifq_ok B cfg h q \<Longrightarrow> raw_ok B cfg h a \<Longrightarrow> ifq_enqueue a q = Some q' \<Longrightarrow> ifq_ok B cfg h q'"
proof -
  assume q: "ifq_ok B cfg h q" "raw_ok B cfg h a" "ifq_enqueue a q = Some q'"
  have "ifq_active_count q < ifq_capacity q"
    using q by (cases "ifq_active_count q = ifq_capacity q") (simp_all add: ifq_enqueue_def ifq_ok_def ifq_wf_def)
  from ifq_enqueue_ok [OF _ this, of a] q show ?thesis by (auto simp: ifq_ok_def)
qed

lemma pinv_ifq: "pinv B cfg c p \<Longrightarrow> ifq_ok B cfg (p_hex_mode p) q \<Longrightarrow> pinv B cfg c (p\<lparr>p_ifq := q\<rparr>)"
  by (simp add: pinv_defs)

lemma pinv_hex: "pinv B cfg c p \<Longrightarrow> p_hex_mode p \<Longrightarrow> cfg_num_regs cfg = 32"
  by (simp add: pinv_defs)

lemma pinv_bundle:
  "pinv B cfg c p \<Longrightarrow> decode_bundle n p = (b, p') \<Longrightarrow>
   pinv B cfg c p' \<and> p_dispatch_reg p' = p_dispatch_reg p \<and> length b \<le> n \<and> (\<forall>x \<in> set b. fetched_ok B cfg x)"
proof (induction n arbitrary: p b)
  case (Suc n)
  show ?case
  proof (cases "ifq_dequeue (p_ifq p)")
    case (Some x)
    obtain a q where x: "x = (a, q)" by fastforce
    have q: "ifq_ok B cfg (p_hex_mode p) q" "raw_ok B cfg (p_hex_mode p) a"
      using ifq_ok_dequeue [OF pinvD(12) [OF Suc.prems(1)], of a q] Some x by simp_all
    obtain b' p1 where b1: "decode_bundle n (p\<lparr>p_ifq := q\<rparr>) = (b', p1)" by fastforce
    then have b': "decode_bundle n (p\<lparr>p_ifq := q\<rparr>) = (b', p')" "b = decodeForDispatch a p # b'"
      using Suc.prems(2) Some x by simp_all
    have "fetched_ok B cfg (decodeForDispatch a p)"
      using fetched_ok_decode [OF q(2)] pinv_hex [OF Suc.prems(1)] by blast
    with Suc.IH [OF pinv_ifq [OF Suc.prems(1) q(1)] b'(1)] b'(2) show ?thesis by simp
  qed (use Suc.prems in simp)
qed simp

lemma pinv_decodeStage: "pinv B cfg c p \<Longrightarrow> \<exists>p'. decodeStage p = Some p' \<and> pinv B cfg c p'"
proof (cases "dr_canCapture (p_dispatch_reg p)")
  assume p: "pinv B cfg c p"
  case True
  obtain b p1 where b: "decode_bundle (cfg_width (p_config p)) p = (b, p1)" by fastforce
  note p1 = pinv_bundle [OF p b]
  note d = pinvD(11) [OF conjunct1 [OF p1], unfolded dispatch_ok_def]
  have "dr_contents (p_dispatch_reg p1) = []" using True p1 d by (simp add: dr_canCapture_def dr_wf_def dr_contents_def)
  moreover have "length b \<le> dr_width (p_dispatch_reg p1)" using p1 d pinvD(1) [OF p] by simp
  ultimately obtain d' where d': "dr_capture b (p_dispatch_reg p1) = Some d'" "dr_wf d'" "dr_contents d' = b"
      "dr_width d' = dr_width (p_dispatch_reg p1)" using dr_capture_ok d by blast
  have "dispatch_ok B cfg d'" using d d' p1 by (simp add: dispatch_ok_def)
  then have "pinv B cfg c (p1\<lparr>p_dispatch_reg := d'\<rparr>)" using p1 by (simp add: pinv_defs)
  with True b d'(1) show ?thesis by (simp add: decodeStage_def)
qed (simp add: decodeStage_def)

section \<open>Prediction\<close>

text \<open>Prediction changes the return-address stack only, and of the instruction only the prediction.\<close>

abbreviation shell :: "FetchedInstruction \<Rightarrow> string \<times> int \<times> int \<times> int \<times> bool \<times> Uop" where
  "shell i \<equiv> (f_opcode i, f_dest_reg i, f_src1_reg i, f_src2_reg i, f_has_uop i, f_uop i)"

lemma raw_ok_shell: "shell j = shell i \<Longrightarrow> raw_ok B cfg h j = raw_ok B cfg h i"
  by (simp add: raw_ok_def fetched_ok_def dest_for_rob_def)

definition predicted :: "Processor \<Rightarrow> FetchedInstruction \<Rightarrow> (FetchedInstruction \<times> Processor) option \<Rightarrow> bool" where
  "predicted p i m \<longleftrightarrow> (\<exists>j s. m = Some (j, p\<lparr>p_ras := s\<rparr>) \<and> shell j = shell i)"

lemma predicted_same: "shell j = shell i \<Longrightarrow> predicted p i (Some (j, p))"
  unfolding predicted_def by (intro exI [of _ j] exI [of _ "p_ras p"]) simp

lemma predicted_push: "shell j = shell i \<Longrightarrow> predicted p i (Some (j, p\<lparr>p_ras := s\<rparr>))"
  by (auto simp: predicted_def)

lemma predicted_if: "(b \<Longrightarrow> predicted p i x) \<Longrightarrow> (\<not> b \<Longrightarrow> predicted p i y) \<Longrightarrow> predicted p i (if b then x else y)"
  by simp

lemma predicted_gshare:
  "gs_wf (p_predictor p) \<Longrightarrow> shell j = shell i \<Longrightarrow> predicted p i (map_option (\<lambda>i. (i, p)) (predictGShare pc j p))"
  using phtIndex_less [of "p_predictor p"] btbIndex_less [of "p_predictor p"]
  by (auto simp: predictGShare_def gs_predict_def Let_def not_le [symmetric] intro!: predicted_same)

lemma reset_shell [simp]:
  "f_opcode (reset_prediction pc i) = f_opcode i" "f_dest_reg (reset_prediction pc i) = f_dest_reg i"
  "f_src1_reg (reset_prediction pc i) = f_src1_reg i" "f_src2_reg (reset_prediction pc i) = f_src2_reg i"
  "f_has_uop (reset_prediction pc i) = f_has_uop i" "f_uop (reset_prediction pc i) = f_uop i"
  by (simp_all add: reset_prediction_def)

lemma predicted_hex: "gs_wf (p_predictor p) \<Longrightarrow> predicted p i (predictHexControl pc u i ar p)"
proof -
  assume wf: "gs_wf (p_predictor p)"
  show ?thesis
    unfolding predictHexControl_def Let_def
    using wf
    by (intro predicted_if) (auto simp: split_beta intro!: predicted_same predicted_push predicted_gshare
        split: option.splits if_splits)
qed

lemma predicted_toy: "gs_wf (p_predictor p) \<Longrightarrow> predicted p i (predictToyControl i p)"
  unfolding predictToyControl_def Let_def
  by (intro predicted_if) (auto simp: split_beta intro!: predicted_same predicted_push predicted_gshare
      split: option.splits if_splits)

lemma pinv_predicted:
  assumes "pinv B cfg c p" "predicted p i m"
  shows "\<exists>j p'. m = Some (j, p') \<and> pinv B cfg c p' \<and> p_hex_mode p' = p_hex_mode p \<and> shell j = shell i"
  using assms by (auto simp: predicted_def)

section \<open>Fetch\<close>

definition hinv :: "bool \<Rightarrow> ProcessorConfig \<Rightarrow> u64 \<Rightarrow> Processor \<Rightarrow> bool" where
  "hinv B cfg c p \<longleftrightarrow> pinv B cfg c p \<and> p_hex_mode p"

lemma pinv_enqueued:
  assumes p: "pinv B cfg c p" and a: "raw_ok B cfg (p_hex_mode p) a" and q: "ifq_enqueue a (p_ifq p) = Some q"
  shows "pinv B cfg c (upd_stats f (p\<lparr>p_ifq := q\<rparr>))"
  using pinv_ifq [OF p ifq_ok_enqueue [OF pinvD(12) [OF p] a q]] by simp

lemma hinv_enqueued:
  "hinv B cfg c p \<Longrightarrow> \<not> f_has_uop a \<Longrightarrow> ifq_enqueue a (p_ifq p) = Some q \<Longrightarrow> hinv B cfg c (upd_stats f (p\<lparr>p_ifq := q\<rparr>))"
  using pinv_enqueued [of B cfg c p a q f] by (simp add: hinv_def raw_ok_def upd_stats_def)

lemma hinv_predicted:
  assumes p: "hinv B cfg c p" and i: "\<not> f_has_uop i"
  shows "\<exists>j p'. predictHexControl pc u i ar p = Some (j, p') \<and> hinv B cfg c p' \<and> \<not> f_has_uop j"
proof -
  have pi: "pinv B cfg c p" using p by (simp add: hinv_def)
  from pinv_predicted [OF pi predicted_hex [OF pinvD(7) [OF pi]]] p i show ?thesis
    by (fastforce simp: hinv_def)
qed

lemma hinv_other [simp]:
  "hinv B cfg c (p\<lparr>p_fetch_halted := h\<rparr>) = hinv B cfg c p" "hinv B cfg c (p\<lparr>p_fetch_pc := a\<rparr>) = hinv B cfg c p"
  "hinv B cfg c (p\<lparr>p_imem_req_outstanding := h\<rparr>) = hinv B cfg c p" "hinv B cfg c (p\<lparr>p_fetch_buf := b\<rparr>) = hinv B cfg c p"
  "hinv B cfg c (p\<lparr>p_fetch_req_pred_taken := pt\<rparr>) = hinv B cfg c p"
  "hinv B cfg c (p\<lparr>p_fetch_req_pred_target := tg\<rparr>) = hinv B cfg c p"
  "hinv B cfg c (p\<lparr>p_fetch_redirect_hold := h\<rparr>) = hinv B cfg c p"
  "hinv B cfg c (p\<lparr>p_ideal_fetch_countdown := n\<rparr>) = hinv B cfg c p" "hinv B cfg c (p\<lparr>p_ideal_fetch_pc := a\<rparr>) = hinv B cfg c p"
  by (simp_all add: hinv_def)

lemma hinv_fetchEnqueue:
  assumes p: "hinv B cfg c p"
  shows "\<exists>ok rd p'. fetchEnqueueHexWord w pc p = Some (ok, rd, p') \<and> hinv B cfg c p'"
proof (cases "w = INSTR_INVALID \<or> ifq_isFull (p_ifq p)")
  case True
  then show ?thesis using p by (auto simp: fetchEnqueueHexWord_def)
next
  case False
  let ?i = "fetched0\<lparr>f_pc := pc, f_raw_instr := w, f_has_uop := False\<rparr>"
  have nf: "\<not> f_has_uop ?i" by simp
  obtain j p1 where j: "predictHexControl pc (decodeInstruction w pc) ?i True p = Some (j, p1)" "hinv B cfg c p1"
      "\<not> f_has_uop j" using hinv_predicted [OF p nf, of pc "decodeInstruction w pc" True] by blast
  show ?thesis
  proof (cases "ifq_enqueue j (p_ifq p1)")
    case None
    with False j show ?thesis by (simp add: fetchEnqueueHexWord_def ex_bool_eq)
  next
    case (Some q)
    from hinv_enqueued [OF j(2,3) Some] False j(1) Some show ?thesis
      by (simp add: fetchEnqueueHexWord_def Let_def ex_bool_eq)
  qed
qed

lemma hinv_ideal_words: "hinv B cfg c p \<Longrightarrow> \<exists>p'. ideal_words is p = Some p' \<and> hinv B cfg c p'"
proof (induction "is" arbitrary: p)
  case (Cons i "is")
  let ?pc = "p_ideal_fetch_pc p + of_nat (4 * i)"
  show ?case
  proof (cases "imemWord ?pc p")
    case (Some w)
    obtain ok rd p1 where p1: "fetchEnqueueHexWord w ?pc p = Some (ok, rd, p1)" "hinv B cfg c p1"
      using hinv_fetchEnqueue [OF Cons.prems] by blast
    from Cons.IH [OF p1(2)] Some p1 Cons.prems show ?thesis by (simp add: Let_def)
  qed (use Cons.prems in \<open>simp add: Let_def\<close>)
qed simp

lemma hinv_ideal_request: "hinv B cfg c p \<Longrightarrow> hinv B cfg c (ideal_request p)"
  by (simp add: ideal_request_def split: option.split)

lemma hinv_fetch_ideal:
  assumes p: "hinv B cfg c p"
  shows "\<exists>p'. fetch_ideal p = Some p' \<and> hinv B cfg c p'"
proof -
  obtain p1 where "ideal_words [0..<cfg_width (p_config p)] p = Some p1" "hinv B cfg c p1"
    using hinv_ideal_words [OF p] by blast
  then have "\<exists>p1. (if p_imem_req_outstanding p \<and> p_ideal_fetch_countdown p = 0
           then do { p' \<leftarrow> ideal_words [0..<cfg_width (p_config p)] p;
                     Some (p'\<lparr>p_imem_req_outstanding := False\<rparr>) }
           else Some p) = Some p1 \<and> hinv B cfg c p1" using p by simp
  then obtain p1 where p1: "(if p_imem_req_outstanding p \<and> p_ideal_fetch_countdown p = 0
           then do { p' \<leftarrow> ideal_words [0..<cfg_width (p_config p)] p;
                     Some (p'\<lparr>p_imem_req_outstanding := False\<rparr>) }
           else Some p) = Some p1" "hinv B cfg c p1" by blast
  show ?thesis unfolding fetch_ideal_def p1(1) using hinv_ideal_request [OF p1(2)] by (simp add: Let_def)
qed

lemma hinv_drain_words: "hinv B cfg c p \<Longrightarrow> \<exists>p'. drain_words b is p = Some p' \<and> hinv B cfg c p'"
proof (induction "is" arbitrary: p)
  case (Cons i "is")
  have "\<exists>j p1. drain_one b i p = Some (j, p1) \<and> hinv B cfg c p1 \<and> \<not> f_has_uop j"
    using hinv_predicted [OF Cons.prems] Cons.prems by (simp add: drain_one_def Let_def)
  then obtain j p1 where j: "drain_one b i p = Some (j, p1)" "hinv B cfg c p1" "\<not> f_has_uop j" by blast
  show ?case
  proof (cases "ifq_enqueue j (p_ifq p1)")
    case (Some q)
    from hinv_enqueued [OF j(2,3) Some] Cons.IH j(1) Some show ?thesis by (simp add: Let_def)
  qed (use j in simp)
qed simp

lemma hinv_capture: "hinv B cfg c p \<Longrightarrow> hinv B cfg c (capture_response r p)"
  by (simp add: capture_response_def split_beta Let_def)

lemma hinv_memsys: "hinv B cfg c p \<Longrightarrow> \<not> B \<Longrightarrow> hinv B cfg c (p\<lparr>p_memsys := ms\<rparr>)"
  by (simp add: hinv_def pinv_memsys)

lemma fine_triv: "\<not> B \<Longrightarrow> fine B (\<lambda>_. True) m"
  by (cases m) simp_all

text \<open>The instruction cache answers with no failure the model excludes, so only what is returned counts.\<close>

lemma fine_fetch_cached:
  assumes p0: "hinv B cfg c p0" and nB: "\<not> B"
  shows "fine B (hinv B cfg c) (fetch_cached p0)"
proof -
  let ?p = "p0\<lparr>p_fetch_redirect_hold := False\<rparr>"
  have p: "hinv B cfg c ?p" using p0 by simp
  have one: "fine B (hinv B cfg c) (if p_imem_req_outstanding ?p \<and> \<not> fb_valid (p_fetch_buf ?p)
             then do { (r, ms) \<leftarrow> popImemResp (p_memsys ?p);
                       (let p' = ?p\<lparr>p_memsys := ms\<rparr> in
                        case r of None \<Rightarrow> Some p' | Some resp \<Rightarrow> Some (capture_response resp p')) }
             else Some ?p)"
  proof (cases "p_imem_req_outstanding ?p \<and> \<not> fb_valid (p_fetch_buf ?p)")
    case True
    have "hinv B cfg c (?p\<lparr>p_memsys := ms\<rparr>)" for ms by (rule hinv_memsys [OF p nB])
    then show ?thesis unfolding if_P [OF True] by (intro fine_bind [OF fine_triv [OF nB]])
        (auto simp: Let_def hinv_capture split: option.split)
  next
    case False
    show ?thesis unfolding if_not_P [OF False] using p by simp
  qed
  have two: "fine B (hinv B cfg c) (let b = p_fetch_buf p1 in if x \<and> (fb_count b = 0 \<or> y b)
             then do { p' \<leftarrow> drain_words b [0..<fb_count b] p1;
                       Some (let p'' = p'\<lparr>p_fetch_buf := fetch_buf0\<rparr> in
                             if fb_eop b then p''\<lparr>p_fetch_halted := True\<rparr> else p'') }
             else Some p1)" if "hinv B cfg c p1" for p1 x y
    using hinv_drain_words [OF that, of "p_fetch_buf p1" "[0..<fb_count (p_fetch_buf p1)]"] that
    by (auto simp: Let_def)
  have three: "fine B (hinv B cfg c) (if x then do {
          let w = cfg_width (p_config p2);
          (pts, tgts) \<leftarrow> request_preds [0..<w] p2 (replicate w False, replicate w 0);
          let p3 = p2\<lparr>p_fetch_req_pred_taken := pts, p_fetch_req_pred_target := tgts\<rparr>;
          (ok, ms) \<leftarrow> tryImemReq (ucast (p_fetch_pc p3)) (p_memsys p3);
          (let p4 = p3\<lparr>p_memsys := ms\<rparr> in
           Some (if ok then p4\<lparr>p_imem_req_outstanding := True\<rparr> else p4)) }
        else Some p2)" if p2: "hinv B cfg c p2" for p2 x
  proof (cases x)
    case True
    have p3: "hinv B cfg c (p2\<lparr>p_fetch_req_pred_taken := pts, p_fetch_req_pred_target := tgts, p_memsys := ms\<rparr>)"
      for pts tgts ms
      using hinv_memsys [OF _ nB, of cfg c "p2\<lparr>p_fetch_req_pred_taken := pts\<rparr>\<lparr>p_fetch_req_pred_target := tgts\<rparr>" ms] p2
      by simp
    show ?thesis unfolding if_P [OF True] Let_def
      by (rule fine_bind [OF fine_triv [OF nB]], simp only: split_beta, rule fine_bind [OF fine_triv [OF nB]])
        (simp add: split_beta p3)
  qed (use p2 in simp)
  show ?thesis unfolding fetch_cached_def Let_def [of p0] Let_def [of ?p] Let_def [where s = "p_fetch_redirect_hold p0"]
    using fine_bind [OF one fine_bind [OF two three]] by (simp only: Let_def)
qed

lemma pinv_fetch_toy: "pinv B cfg c p \<Longrightarrow> \<not> p_hex_mode p \<Longrightarrow> \<exists>p'. fetch_toy n p = Some p' \<and> pinv B cfg c p'"
proof (induction n arbitrary: p)
  case (Suc n)
  show ?case
  proof (cases "ifq_isFull (p_ifq p) \<or> p_icache p (p_fetch_pc p) = None")
    case False
    then obtain i0 where i0: "p_icache p (p_fetch_pc p) = Some i0" "\<not> ifq_isFull (p_ifq p)" by blast
    let ?i = "i0\<lparr>f_pc := p_fetch_pc p\<rparr>"
    have "fetched_ok B cfg i0" using Suc.prems i0(1) by (auto simp: pinv_defs ran_def)
    then have "raw_ok B cfg (p_hex_mode p) i0" using Suc.prems(2) by (simp add: raw_ok_def)
    then have i: "raw_ok B cfg (p_hex_mode p) ?i" using raw_ok_shell [of ?i i0] by simp
    obtain j p1 where j: "predictToyControl ?i p = Some (j, p1)" "pinv B cfg c p1" "p_hex_mode p1 = p_hex_mode p"
        "shell j = shell ?i"
      using pinv_predicted [OF Suc.prems(1) predicted_toy [OF pinvD(7) [OF Suc.prems(1)]]] by blast
    have jr: "raw_ok B cfg (p_hex_mode p1) j" using raw_ok_shell [OF j(4)] i j(3) by simp
    show ?thesis
    proof (cases "ifq_enqueue j (p_ifq p1)")
      case None
      with i0 j show ?thesis by simp
    next
      case (Some q)
      let ?p2 = "upd_stats (\<lambda>s. s\<lparr>st_fetched := st_fetched s + 1\<rparr>) (p1\<lparr>p_ifq := q\<rparr>)"
      have p2: "pinv B cfg c (?p2\<lparr>p_fetch_pc := x\<rparr>)" for x unfolding pinv_other by (rule pinv_enqueued [OF j(2) jr Some])
      have h: "\<not> p_hex_mode (?p2\<lparr>p_fetch_pc := x\<rparr>)" for x using j(3) Suc.prems(2) by (simp add: upd_stats_def)
      show ?thesis using Suc.IH [OF p2 h] p2 i0 j(1) Some by (simp add: Let_def)
    qed
  qed (use Suc.prems in auto)
qed simp

lemma fine_fetchStage:
  assumes p: "pinv B cfg c p"
  shows "fine B (pinv B cfg c) (fetchStage p)"
proof (cases "p_hex_mode p")
  case True
  then have h: "hinv B cfg c p" using p by (simp add: hinv_def)
  have cached: "fine B (pinv B cfg c) (fetch_cached p)" if "useCachedMem p"
  proof -
    have "\<not> B" using that pinvD(13) [OF p] by (auto simp: useCachedMem_def)
    from fine_fetch_cached [OF h this] show ?thesis by (rule fine_mono) (simp add: hinv_def)
  qed
  obtain p1 where "fetch_ideal p = Some p1" "hinv B cfg c p1" using hinv_fetch_ideal [OF h] by blast
  then have "fine B (pinv B cfg c) (fetch_ideal p)" by (simp add: hinv_def)
  with True cached p show ?thesis by (simp add: fetchStage_def)
next
  case False
  from pinv_fetch_toy [OF p this, of "cfg_width (p_config p)"] False show ?thesis by (auto simp: fetchStage_def)
qed

section \<open>The start of a cycle\<close>

lemma wake_info_core: "core (wake_info t v i) = core i"
  by (simp add: wake_info_def wake_src_def Let_def)

lemma pinv_wakeup: "pinv B cfg c p \<Longrightarrow> pinv B cfg c (apply_wakeup w p)"
proof -
  assume p: "pinv B cfg c p"
  obtain t v where w: "w = (t, v)" by fastforce
  let ?p = "p\<lparr>p_rs := rs_updateFromCDB t v (p_rs p)\<rparr>"
  let ?f = "\<lambda>i. lsq_setStoreData (ii_inst_id i) v"
  have p1: "pinv B cfg c ?p" using p by simp
  have "pinv B cfg c (?p\<lparr>p_inst_table := map (wake_info t v) (p_inst_table ?p)\<rparr>)"
    by (rule pinv_table [OF p1 table_ok_map [OF pinvD(5) [OF p1] wake_info_core]])
  then have "pinv B cfg c (?p\<lparr>p_inst_table := map (wake_info t v) (p_inst_table ?p)\<rparr>
      \<lparr>p_lsq := fold ?f (filter (wakes_store t) (p_inst_table ?p)) (p_lsq ?p)\<rparr>)"
    by (rule pinv_lsq) (simp add: lsq_keeps_fold lsq_keeps_first)
  then show ?thesis by (simp add: apply_wakeup_def w updateInstOperandsFromCDB_def)
qed

lemma pinv_wakeups: "pinv B cfg c p \<Longrightarrow> pinv B cfg c (fold apply_wakeup ws p)"
  by (induction ws arbitrary: p) (simp_all add: pinv_wakeup)

lemma pinv_start_cycle:
  assumes p: "pinv B cfg c p"
  shows "pinv B cfg (c + 1) (start_cycle p)"
proof -
  have "pinv B cfg (c + 1) (p\<lparr>p_cycle_count := c + 1\<rparr>)" using p by (simp add: pinv_defs)
  moreover have "p_cycle_count p = c" by (rule pinvD(2) [OF p])
  ultimately show ?thesis by (simp add: start_cycle_def Let_def pinv_wakeups)
qed

text \<open>One cycle, before the self-check.\<close>

lemma fine_cycle_stages:
  assumes p: "pinv B cfg c p"
  shows "fine B (pinv B cfg c) (cycle_stages p)"
proof -
  have mem: "fine B (pinv B cfg c) (if useCachedMem q
           then map_option (\<lambda>(q', ms, mem). q\<lparr>p_lsq := q', p_memsys := ms, p_mem := mem\<rparr>)
                  (lsq_issueMemoryRequests (p_byte_addressed q) (p_lsq q, p_memsys q, p_mem q))
           else Some q)" if q: "pinv B cfg c q" for q
  proof (cases "useCachedMem q")
    case True
    then have nB: "\<not> B" using pinvD(13) [OF q] by (auto simp: useCachedMem_def)
    show ?thesis
    proof (cases "lsq_issueMemoryRequests (p_byte_addressed q) (p_lsq q, p_memsys q, p_mem q)")
      case (Some x)
      obtain q' ms mem where x: "x = (q', ms, mem)" by (cases x) auto
      have "pinv B cfg c (q\<lparr>p_lsq := q', p_memsys := ms, p_mem := mem\<rparr>)"
        using pinv_memory [OF q lsq_keeps_issueMemoryRequests] Some x nB by blast
      then show ?thesis using True Some x by simp
    qed (use True nB in simp)
  qed (use q in simp)
  have total: "fine B (pinv B cfg c) m" if "\<exists>q. m = Some q \<and> pinv B cfg c q" for m using that by auto
  show ?thesis unfolding cycle_stages_def
    by (rule fine_bind [OF total [OF pinv_commitStage [OF p]]], rule fine_bind [OF fine_writebackStage], assumption,
        rule fine_bind [OF fine_dispatchStage], assumption, rule fine_bind [OF mem], assumption,
        rule fine_bind [OF total [OF pinv_issueStage]], assumption, rule fine_bind [OF total [OF pinv_decodeStage]],
        assumption, rule fine_fetchStage)
qed

end
