(* ===== verification/PipelineSafety.thy ===== *)
theory PipelineSafety
  imports PipelineFetch
begin

text \<open>
  What the invariant of the pipeline gives: the self-check never fails, and with the ideal memory
  every run returns.
\<close>

section \<open>Loaded machines and their runs\<close>

definition valid_config :: "ProcessorConfig \<Rightarrow> bool" where
  "valid_config cfg \<longleftrightarrow> 0 < cfg_rob_size cfg \<and> 0 < cfg_ifq_size cfg \<and> 0 < cfg_pht_size cfg \<and> 0 < cfg_btb_size cfg
     \<and> 0 \<le> cfg_mem_latency cfg \<and> 0 \<le> cfg_fwd_latency cfg"

text \<open>
  A machine with a program: a hex image, or a trace whose registers exist and, when \<open>B\<close> is set,
  that does not divide.
\<close>

inductive loaded :: "bool \<Rightarrow> ProcessorConfig \<Rightarrow> Processor \<Rightarrow> bool" for B cfg where
  hex: "proc_init cfg mem ba = Some p \<Longrightarrow> loaded B cfg ((loadHexProgram iwords dwords p)\<lparr>p_self_check := sc\<rparr>)"
| toy: "proc_init cfg mem ba = Some p \<Longrightarrow> \<forall>i \<in> ran (pp_icache prog). fetched_ok B cfg i \<Longrightarrow>
     loaded B cfg ((loadInstructionCache prog p)\<lparr>p_self_check := sc\<rparr>)"

text \<open>The states at the start of a cycle of \<open>run\<close>.\<close>

inductive proc_reach :: "Processor \<Rightarrow> Processor \<Rightarrow> bool" for p0 where
  start: "proc_reach p0 p0"
| tick: "proc_reach p0 p \<Longrightarrow> \<not> isFinished p \<Longrightarrow> proc_tick p = Some p' \<Longrightarrow> proc_reach p0 p'"

section \<open>The initial state\<close>

lemma pinv_self_check [simp]: "pinv B cfg c (p\<lparr>p_self_check := sc\<rparr>) = pinv B cfg c p"
  by (simp add: pinv_defs)

lemma unit_ok_init: "unit_ok cap (eu_init t l)"
  by (simp add: unit_ok_def eu_init_def Let_def)

lemma engine_ok_init: "engine_ok cap (na + nm + nd + nb) (ee_init na nm nd nb al ml dl bl)"
  by (auto simp: engine_ok_def ee_init_def Let_def unit_ok_init)

lemma arbiter_ok_init: "arb_init w n = Some a \<Longrightarrow> arbiter_ok sz n a"
proof -
  assume a: "arb_init w n = Some a"
  then have "0 < w" "0 < n" by (simp_all add: arb_init_def split: if_splits)
  with arb_init_wf [of w n] a have "arb_wf a" by simp
  with a show ?thesis by (auto simp: arbiter_ok_def arb_init_def arb_reset_def split: if_splits)
qed

lemma rename_ok_init: "cfg_num_regs cfg = n \<Longrightarrow> cfg_rob_size cfg = r \<Longrightarrow> rename_ok cfg (rat_init n) (ck_init r n)"
  by (simp add: rename_ok_def rat_init_def ck_init_def ck_reset_def)

lemma lsq_ok_init:
  "0 \<le> ml \<Longrightarrow> 0 \<le> fl \<Longrightarrow> cfg_lsq_size cfg = n \<Longrightarrow> cfg_num_lsq cfg = k \<Longrightarrow> lsq_ok cfg (lsq_init n k d ml fl fwd w)"
  by (simp add: lsq_ok_def lsq_init_def Let_def cycles_ok_def lsq_entry0_def)

text \<open>The parts of a fresh machine that loading a program does not replace.\<close>

lemma proc_init_parts:
  assumes cfg: "valid_config cfg" and p: "proc_init cfg mem ba = Some p"
  shows "p_config p = cfg" "p_cycle_count p = 0" "p_inst_table p = []" "rob_wf (p_rob p)" "rob_capacity (p_rob p) = cfg_rob_size cfg"
    "rename_ok cfg (p_rat p) (p_rat_ckpts p)" "gs_wf (p_predictor p)" "lsq_ok cfg (p_lsq p)"
    "engine_ok (cfg_rob_size cfg) (num_units cfg) (p_ee p)"
    "arbiter_ok (cfg_lsq_size cfg) (num_units cfg + cfg_num_lsq cfg) (p_cdb_arbiter p)"
    "dr_wf (p_dispatch_reg p)" "dr_width (p_dispatch_reg p) = cfg_width cfg" "ifq_wf (p_ifq p)"
    "cfg_mem_system cfg = Ideal \<Longrightarrow> kind (p_memsys p) = Some Ideal"
  using cfg p rob_wf_init [of "cfg_rob_size cfg"] gs_wf_init [of "cfg_pht_size cfg" "cfg_btb_size cfg"]
    ifq_wf_init [of "cfg_ifq_size cfg"] rename_ok_init [of cfg] lsq_ok_init [of _ _ cfg] engine_ok_init arbiter_ok_init
    dr_init_wf
  by (auto simp: proc_init_def valid_config_def num_units_def rob_init_def split: bind_splits)

lemma config_parts:
  "rename_ok (cfg\<lparr>cfg_num_regs := n, cfg_initial_pc := a\<rparr>) t k = (length (rat_map t) = n \<and> rat_num_logical_regs t = n
     \<and> ck_rob_depth k = cfg_rob_size cfg \<and> ck_num_regs k = n)"
  "lsq_ok (cfg\<lparr>cfg_num_regs := n, cfg_initial_pc := a\<rparr>) q = lsq_ok cfg q"
  "num_units (cfg\<lparr>cfg_num_regs := n, cfg_initial_pc := a\<rparr>) = num_units cfg"
  by (simp_all add: rename_ok_def lsq_ok_def num_units_def)

lemma loaded_pinv:
  assumes l: "loaded B cfg p" and cfg: "valid_config cfg" "B \<Longrightarrow> cfg_mem_system cfg = Ideal"
  shows "pinv B (p_config p) 0 p"
  using l
proof cases
  case (hex mem ba q iwords dwords sc)
  note q = proc_init_parts [OF cfg(1) hex(2)]
  have "dr_contents (dr_flush (p_dispatch_reg q)) = []" using dr_flush_wf by (simp add: dr_contents_def)
  with q cfg(2) dr_flush_wf ifq_flush_ok show ?thesis
    unfolding hex(1) by (simp add: loadHexProgram_def pinv_defs config_parts rename_ok_def rat_init_def ck_init_def ck_reset_def
        table_ok_def dispatch_ok_def ifq_ok_def ran_def)
next
  case (toy mem ba q prog sc)
  note q = proc_init_parts [OF cfg(1) toy(2)]
  have "dr_contents (dr_flush (p_dispatch_reg q)) = []" using dr_flush_wf by (simp add: dr_contents_def)
  with q cfg(2) dr_flush_wf ifq_flush_ok toy(3) show ?thesis
    unfolding toy(1) by (simp add: loadInstructionCache_def pinv_defs table_ok_def dispatch_ok_def ifq_ok_def)
qed

section \<open>The self-check\<close>

lemma table_length:
  assumes p: "pinv B cfg c p"
  shows "length (p_inst_table p) \<le> rob_active_count (p_rob p)"
proof -
  let ?ts = "map ii_rob_id (p_inst_table p)"
  have d: "distinct ?ts" using pinvD(5) [OF p] by (simp add: table_ok_def)
  have "set ?ts \<subseteq> rob_slot (p_rob p) ` {..<rob_active_count (p_rob p)}"
    using pinvD(5) [OF p] occupied_slot [OF pinvD(3) [OF p]] by (auto simp: table_ok_def)
  then have "card (set ?ts) \<le> card (rob_slot (p_rob p) ` {..<rob_active_count (p_rob p)})" by (intro card_mono) simp_all
  also have "\<dots> \<le> rob_active_count (p_rob p)" using card_image_le [of "{..<rob_active_count (p_rob p)}"] by simp
  finally show ?thesis using distinct_card [OF d] by simp
qed

lemma pinv_check:
  assumes p: "pinv B cfg c p" and c: "c \<le> scast (cfg_max_cycles cfg)"
  shows "checkInvariants p"
proof -
  have "rob_checkInvariant (p_rob p)"
    using pinvD(3) [OF p] rob_busy_count_wf [OF pinvD(3) [OF p]] by (auto simp: rob_checkInvariant_def rob_wf_def)
  moreover have "info_in_range i p" if "i \<in> set (p_inst_table p)" for i
    using that pinvD(1,5) [OF p] occupied_less [OF p] by (simp add: info_in_range_def table_ok_def info_ok_def)
  ultimately show ?thesis using table_length [OF p] pinvD(1,2,5) [OF p] c
    by (simp add: checkInvariants_def max_cycle_count_def table_ok_def)
qed

text \<open>A cycle that starts before the limit.\<close>

lemma next_cycle_le: "c < (m :: u64) \<Longrightarrow> c + 1 \<le> m"
  by (rule inc_le)

lemma fine_cycle:
  assumes p: "pinv B cfg c p" and nf: "\<not> isFinished p"
  shows "fine B (\<lambda>p'. pinv B cfg (c + 1) p' \<and> checkInvariants p' \<and> c + 1 \<le> scast (cfg_max_cycles cfg))
    (cycle_stages (start_cycle p))"
proof -
  have "c < scast (cfg_max_cycles cfg)"
    using nf pinvD(1,2) [OF p] by (simp add: isFinished_def max_cycle_count_def not_le split: if_splits)
  then have c: "c + 1 \<le> scast (cfg_max_cycles cfg)" by (rule next_cycle_le)
  show ?thesis by (rule fine_mono [OF fine_cycle_stages [OF pinv_start_cycle [OF p]]]) (use c pinv_check in blast)
qed

lemma reach_pinv: "proc_reach p0 p \<Longrightarrow> pinv B cfg 0 p0 \<Longrightarrow> pinv B cfg (p_cycle_count p) p"
proof (induction rule: proc_reach.induct)
  case start
  then show ?case using pinvD(2) by fastforce
next
  case (tick p p')
  then obtain q where q: "cycle_stages (start_cycle p) = Some q" "p' = q"
    by (auto simp: proc_tick_def split: bind_splits if_splits)
  have "pinv B cfg (p_cycle_count p + 1) q" using fine_cycle [OF _ tick.hyps(2)] tick.IH [OF tick.prems] q(1) by fastforce
  with q(2) show ?case using pinvD(2) by fastforce
qed

text \<open>The run: each cycle brings the counter closer to its limit.\<close>

lemma run_step:
  assumes p: "pinv True cfg c p" and nf: "\<not> isFinished p"
  shows "\<exists>p'. proc_tick p = Some p' \<and> pinv True cfg (c + 1) p' \<and> c + 1 \<le> scast (cfg_max_cycles cfg)"
proof -
  obtain p' where p': "cycle_stages (start_cycle p) = Some p'" "pinv True cfg (c + 1) p'" "checkInvariants p'"
      "c + 1 \<le> scast (cfg_max_cycles cfg)"
    using fineD [OF fine_cycle [OF p nf]] by blast
  then show ?thesis by (simp add: proc_tick_def)
qed

lemma run_returns:
  "pinv True cfg c p \<Longrightarrow> c \<le> scast (cfg_max_cycles cfg) \<Longrightarrow> n = unat (scast (cfg_max_cycles cfg) - c :: u64) \<Longrightarrow>
   proc_reach p0 p \<Longrightarrow>
   \<exists>p' c'. proc_run p = Some p' \<and> isFinished p' \<and> pinv True cfg c' p' \<and> proc_reach p0 p' \<and> c' \<le> scast (cfg_max_cycles cfg)"
proof (induction n arbitrary: c p rule: less_induct)
  case (less n)
  show ?case
  proof (cases "isFinished p")
    case True
    then show ?thesis using less.prems by (subst proc_run.simps) auto
  next
    case False
    obtain p1 where p1: "proc_tick p = Some p1" "pinv True cfg (c + 1) p1" "c + 1 \<le> scast (cfg_max_cycles cfg)"
      using run_step [OF less.prems(1) False] by blast
    have "c < scast (cfg_max_cycles cfg)"
      using False pinvD(1,2) [OF less.prems(1)] by (simp add: isFinished_def max_cycle_count_def not_le split: if_splits)
    then have "unat (scast (cfg_max_cycles cfg) - (c + 1) :: u64) < n"
      using p1(3) less.prems(2,3) by unat_arith
    then obtain p' c' where "proc_run p1 = Some p'" "isFinished p'" "pinv True cfg c' p'" "proc_reach p0 p'"
        "c' \<le> scast (cfg_max_cycles cfg)"
      using less.IH [OF _ p1(2,3) refl proc_reach.tick [OF less.prems(4) False p1(1)]] by blast
    with False p1(1) show ?thesis by (subst proc_run.simps) auto
  qed
qed

section \<open>A concrete machine\<close>

definition demo_config :: ProcessorConfig where
  "demo_config = config0\<lparr>cfg_mem_system := Ideal, cfg_max_cycles := 300\<rparr>"

definition demo_program :: "u32 list" where
  "demo_program = [0x00500093, 0x00708113, 0x022081B3, 0x00302423, 0x00802203, 0x00320463, 0x00100293, 0x00200313]"

definition demo_machine :: "Processor option" where
  "demo_machine = map_option (\<lambda>p. (loadHexProgram demo_program [] p)\<lparr>p_self_check := True\<rparr>)
     (proc_init demo_config (replicate 64 0) True)"

lemma demo_valid: "valid_config demo_config \<and> cfg_mem_system demo_config = Ideal"
  by (simp add: demo_config_def config0_def valid_config_def)

lemma demo_loaded: "\<exists>p. demo_machine = Some p \<and> loaded B demo_config p \<and> \<not> isFinished p"
proof -
  obtain q where q: "proc_init demo_config (replicate 64 0) True = Some q"
    by (simp add: proc_init_def demo_config_def config0_def dr_init_def arb_init_def)
  let ?p = "(loadHexProgram demo_program [] q)\<lparr>p_self_check := True\<rparr>"
  have l: "loaded B demo_config ?p" by (rule loaded.hex [OF q])
  have "p_config q = demo_config" "p_cycle_count q = 0" using proc_init_parts [OF _ q] demo_valid by auto
  then have "\<not> isFinished ?p"
    by (simp add: isFinished_def max_cycle_count_def loadHexProgram_def demo_config_def)
  with l q show ?thesis by (simp add: demo_machine_def)
qed

section \<open>Properties\<close>

text \<open>
  C3: the self-check of the processor never fails: in every cycle that completes, of every run of
  a machine of a valid configuration that was loaded with a hex image, or with a trace all of whose
  instructions name registers below the configured number (\<open>fetched_ok\<close>; the check asserts just
  that, so a trace with another register fails it), with the ideal memory or the caches, the
  reorder buffer's counts agree, the instructions in flight have distinct tags that are no more
  than the busy entries, their registers and tags are in range and the cycle counter is within
  its limit; so switching the check on never turns a completed cycle into a failure.
\<close>

theorem self_check_never_fails:
  assumes "valid_config cfg" "loaded False cfg p0" "proc_reach p0 p" "\<not> isFinished p"
    and "cycle_stages (start_cycle p) = Some p'"
  shows "checkInvariants p' \<and> proc_tick p = Some p'"
proof -
  have "pinv False (p_config p0) (p_cycle_count p) p"
    by (rule reach_pinv [OF assms(3)], rule loaded_pinv [OF assms(2,1)]) simp
  from fine_cycle [OF this assms(4)] assms(5) have "checkInvariants p'" by simp
  with assms(5) show ?thesis by (simp add: proc_tick_def)
qed

lemma self_check_never_fails_witness:
  "\<exists>p p'. demo_machine = Some p \<and> cycle_stages (start_cycle p) = Some p' \<and> checkInvariants p' \<and> proc_tick p = Some p'"
proof -
  obtain p where p: "demo_machine = Some p" "loaded True demo_config p" "\<not> isFinished p"
    using demo_loaded by blast
  have l: "loaded False demo_config p" using p(1) demo_loaded [of False] by (metis option.inject)
  obtain p' where "cycle_stages (start_cycle p) = Some p'"
    using fineD [OF fine_cycle [OF loaded_pinv [OF p(2)] p(3)]] demo_valid by blast
  with self_check_never_fails [OF _ l proc_reach.start p(3)] demo_valid p(1) show ?thesis by blast
qed

text \<open>
  C4: with the ideal memory a run always returns: from every machine of a valid configuration
  loaded with a hex image, or with a trace all of whose instructions name registers below the
  configured number and none of which is a \<open>DIV\<close> (that division traps on the most negative integer
  by \<open>-1\<close>, and the self-check refuses other registers), no assertion of any component fails in any cycle, every cycle passes the self-check, and \<open>run\<close> ends in a state that is
  finished and reached within the configured number of cycles.
\<close>

theorem ideal_run_returns:
  assumes "valid_config cfg" "cfg_mem_system cfg = Ideal" "loaded True cfg p0"
  shows "\<exists>p. proc_run p0 = Some p \<and> isFinished p \<and> proc_reach p0 p \<and> p_cycle_count p \<le> max_cycle_count p0"
proof -
  have i: "pinv True (p_config p0) 0 p0" by (rule loaded_pinv [OF assms(3,1)]) (rule assms(2))
  obtain p c where "proc_run p0 = Some p" "isFinished p" "pinv True (p_config p0) c p" "proc_reach p0 p"
      "c \<le> scast (cfg_max_cycles (p_config p0))"
    using run_returns [OF i _ refl proc_reach.start] by auto
  then show ?thesis using pinvD(2) [of True "p_config p0" c p] by (auto simp: max_cycle_count_def)
qed

lemma ideal_run_returns_witness: "\<exists>p0 p. demo_machine = Some p0 \<and> \<not> isFinished p0 \<and> proc_run p0 = Some p \<and> isFinished p"
proof -
  obtain p0 where p0: "demo_machine = Some p0" "loaded True demo_config p0" "\<not> isFinished p0"
    using demo_loaded by blast
  with ideal_run_returns [OF _ _ p0(2)] demo_valid show ?thesis by blast
qed

end
