(* ===== verification/InOrder.thy ===== *)
theory InOrder
  imports ProcessorBack Decode_Spec
begin

text \<open>
  The reference for the out-of-order core on a hex image without memory instructions: an in-order
  interpreter of the decoded image, and what it computes along a list of instructions in flight.
  Registers are a list, as in the code; register 0 reads as zero.
\<close>

section \<open>The image\<close>

definition img_word :: "u32 list \<Rightarrow> u64 \<Rightarrow> u32 option" where
  "img_word iw pc = (if pc AND 3 \<noteq> 0 \<or> length iw \<le> unat (drop_bit 2 pc) then None
     else let w = iw ! unat (drop_bit 2 pc) in if w = INSTR_INVALID then None else Some w)"

definition img :: "u32 list \<Rightarrow> u64 \<Rightarrow> Uop option" where
  "img iw pc = map_option (\<lambda>w. decodeInstruction w pc) (img_word iw pc)"

definition memory_free :: "u32 list \<Rightarrow> bool" where
  "memory_free iw \<longleftrightarrow> (\<forall>w \<in> set iw. \<not> u_is_load (decodeInstruction w 0) \<and> \<not> u_is_store (decodeInstruction w 0))"

definition nop_uop :: "Uop \<Rightarrow> bool" where
  "nop_uop u \<longleftrightarrow> u_op u = UOP_NOP \<or> (\<not> u_rd_used u \<and> (u_fu u = FU_ALU \<or> u_fu u = FU_MUL \<or> u_fu u = FU_DIV))"

abbreviation control_uop :: "Uop \<Rightarrow> bool" where
  "control_uop u \<equiv> u_is_branch u \<or> u_is_jump u"

section \<open>The interpreter\<close>

definition reg :: "i32 list \<Rightarrow> int \<Rightarrow> i32" where
  "reg rs r = (if r \<le> 0 \<or> int (length rs) \<le> r then 0 else rs ! nat r)"

definition src1 :: "Uop \<Rightarrow> i32 list \<Rightarrow> i32" where
  "src1 u rs = (if u_rs1_used u then reg rs (u_rs1 u) else 0)"

definition src2 :: "Uop \<Rightarrow> i32 list \<Rightarrow> i32" where
  "src2 u rs = (if u_src2_is_imm u then u_imm u else if u_rs2_used u \<and> \<not> u_is_store u then reg rs (u_rs2 u) else 0)"

definition uvalue :: "Uop \<Rightarrow> u64 \<Rightarrow> i32 list \<Rightarrow> i32" where
  "uvalue u pc rs = executeOp (u_op u) (src1 u rs) (src2 u rs) (u_imm u) (ucast pc)"

definition uexec :: "Uop \<Rightarrow> u64 \<Rightarrow> i32 list \<Rightarrow> i32 list" where
  "uexec u pc rs = (if u_rd_used u then rs[nat (u_rd u) := uvalue u pc rs] else rs)"

definition utaken :: "Uop \<Rightarrow> i32 list \<Rightarrow> bool" where
  "utaken u rs \<longleftrightarrow> u_is_jump u \<or> branchTaken (u_op u) (src1 u rs) (src2 u rs)"

definition utarget :: "Uop \<Rightarrow> u64 \<Rightarrow> i32 list \<Rightarrow> u64" where
  "utarget u pc rs = ucast (branchTarget (u_op u) (ucast pc) (src1 u rs) (u_imm u))"

definition unext :: "Uop \<Rightarrow> u64 \<Rightarrow> i32 list \<Rightarrow> u64" where
  "unext u pc rs = (if control_uop u \<and> utaken u rs then utarget u pc rs else pc + INSTR_SIZE)"

definition seq_step :: "u32 list \<Rightarrow> i32 list \<times> u64 \<Rightarrow> (i32 list \<times> u64) option" where
  "seq_step iw = (\<lambda>(rs, pc). map_option (\<lambda>u. (uexec u pc rs, unext u pc rs)) (img iw pc))"

text \<open>\<open>k\<close> steps; \<open>None\<close> when the program leaves the image earlier.\<close>

fun seq_steps :: "u32 list \<Rightarrow> nat \<Rightarrow> i32 list \<times> u64 \<Rightarrow> (i32 list \<times> u64) option" where
  "seq_steps iw 0 s = Some s"
| "seq_steps iw (Suc k) s = (case seq_steps iw k s of None \<Rightarrow> None | Some s' \<Rightarrow> seq_step iw s')"

lemma length_uexec [simp]: "length (uexec u pc rs) = length rs"
  by (simp add: uexec_def)

section \<open>Decoded micro-ops\<close>

lemma img_wf: "img iw pc = Some u \<Longrightarrow> uop_wf u"
  by (auto simp: img_def decode_is_wf)

lemma pre_nop: "nop_uop u \<Longrightarrow> uop_wf u \<Longrightarrow> \<not> u_is_load u \<Longrightarrow> \<not> u_is_store u \<Longrightarrow> \<not> u_rd_used u \<and> \<not> control_uop u"
  by (auto simp: nop_uop_def uop_wf_def)

lemma nop_step: "nop_uop u \<Longrightarrow> uop_wf u \<Longrightarrow> \<not> u_is_load u \<Longrightarrow> \<not> u_is_store u \<Longrightarrow>
    uexec u pc rs = rs \<and> unext u pc rs = pc + INSTR_SIZE"
  using pre_nop [of u] by (simp add: uexec_def unext_def)

text \<open>Whether a word accesses memory does not depend on where it is.\<close>

definition mem_alike :: "Uop \<Rightarrow> Uop \<Rightarrow> bool" where
  "mem_alike u v \<longleftrightarrow> u_is_load u = u_is_load v \<and> u_is_store u = u_is_store v \<and> u_rd u = u_rd v"

lemma alike_if: "mem_alike x x' \<Longrightarrow> mem_alike y y' \<Longrightarrow> mem_alike (if b then x else y) (if b then x' else y')"
  by simp

lemma alike_parts:
  assumes "mem_alike u v"
  shows "mem_alike (decode_opimm w u) (decode_opimm w v)" "mem_alike (decode_op w u) (decode_op w v)"
    "mem_alike (decode_load w u) (decode_load w v)" "mem_alike (decode_store w u) (decode_store w v)"
    "mem_alike (decode_branch w u) (decode_branch w v)"
  unfolding decode_opimm_def decode_op_def decode_load_def decode_store_def decode_branch_def Let_def
  by (intro alike_if; use assms in \<open>simp add: mem_alike_def makeNop_def\<close>)+

lemma alike_final: "mem_alike u v \<Longrightarrow>
    mem_alike (if u_rd u = 0 then u\<lparr>u_rd_used := False\<rparr> else u) (if u_rd v = 0 then v\<lparr>u_rd_used := False\<rparr> else v)"
  by (simp add: mem_alike_def)

lemma decode_memory_pc: "mem_alike (decodeInstruction w pc) (decodeInstruction w 0)"
  unfolding decodeInstruction_def Let_def
  by (intro alike_final alike_if alike_parts) (simp_all add: mem_alike_def)

lemma img_memory_free: "memory_free iw \<Longrightarrow> img iw pc = Some u \<Longrightarrow> \<not> u_is_load u \<and> \<not> u_is_store u"
proof -
  assume m: "memory_free iw" and u: "img iw pc = Some u"
  then obtain w where w: "img_word iw pc = Some w" "u = decodeInstruction w pc" by (auto simp: img_def)
  then have "w \<in> set iw" by (auto simp: img_word_def Let_def split: if_splits)
  with m w(2) decode_memory_pc [of w pc] show ?thesis by (simp add: memory_free_def mem_alike_def)
qed

section \<open>Runs of no-operations\<close>

inductive nops :: "u32 list \<Rightarrow> u64 \<Rightarrow> u64 \<Rightarrow> bool" for iw where
  nops_refl: "nops iw x x"
| nops_step: "nops iw x y \<Longrightarrow> img iw y = Some u \<Longrightarrow> nop_uop u \<Longrightarrow> nops iw x (y + INSTR_SIZE)"

lemma nops_trans: "nops iw y z \<Longrightarrow> nops iw x y \<Longrightarrow> nops iw x z"
  by (induction rule: nops.induct) (auto intro: nops.intros)

lemma seq_nops:
  "nops iw x y \<Longrightarrow> memory_free iw \<Longrightarrow> seq_steps iw k s0 = Some (rs, x) \<Longrightarrow> \<exists>k'. seq_steps iw k' s0 = Some (rs, y)"
proof (induction rule: nops.induct)
  case (nops_step x y u)
  then obtain k' where k': "seq_steps iw k' s0 = Some (rs, y)" by blast
  have "uexec u y rs = rs \<and> unext u y rs = y + INSTR_SIZE"
    using nop_step img_wf img_memory_free nops_step.hyps nops_step.prems(1) by blast
  then have "seq_steps iw (Suc k') s0 = Some (rs, y + INSTR_SIZE)" using k' nops_step.hyps(2) by (simp add: seq_step_def)
  then show ?case by blast
qed blast

end
