(* ===== verification/Dataflow.thy ===== *)
theory Dataflow
  imports InOrder
begin

text \<open>
  The data flow through the instructions in flight, oldest first, apart from the machine that
  holds them: every operand is the value the in-order interpreter reads or waits for the
  instruction that produces it, and every result is the interpreter's.
\<close>

section \<open>The window\<close>

definition uo :: "u32 list \<Rightarrow> InstInfo \<Rightarrow> Uop" where
  "uo iw i = the (img iw (ii_pc i))"

definition entry_ok :: "u32 list \<Rightarrow> InstInfo \<Rightarrow> bool" where
  "entry_ok iw i \<longleftrightarrow> img iw (ii_pc i) \<noteq> None \<and> (let u = uo iw i in
     \<not> nop_uop u \<and> ii_has_uop i \<and> ii_op i = u_op u \<and> ii_fu i = u_fu u \<and> ii_imm i = u_imm u
     \<and> ii_is_branch i = u_is_branch u \<and> ii_is_jump i = u_is_jump u \<and> \<not> ii_is_call i \<and> \<not> ii_is_ret i
     \<and> \<not> ii_is_load i \<and> \<not> ii_is_store i \<and> ii_rd_used i = u_rd_used u
     \<and> ii_dest_reg i = (if u_rd_used u then u_rd u else 0) \<and> ii_fallthrough_pc i = ii_pc i + INSTR_SIZE
     \<and> (\<not> control_uop u \<longrightarrow> \<not> ii_predicted_taken i))"

definition regs_at :: "u32 list \<Rightarrow> i32 list \<Rightarrow> InstInfo list \<Rightarrow> i32 list" where
  "regs_at iw A ws = fold (\<lambda>i. uexec (uo iw i) (ii_pc i)) ws A"

definition val_at :: "u32 list \<Rightarrow> i32 list \<Rightarrow> InstInfo list \<Rightarrow> nat \<Rightarrow> i32" where
  "val_at iw A ws m = uvalue (uo iw (ws ! m)) (ii_pc (ws ! m)) (regs_at iw A (take m ws))"

definition writes :: "InstInfo \<Rightarrow> int \<Rightarrow> bool" where
  "writes i r \<longleftrightarrow> ii_rd_used i \<and> ii_dest_reg i = r"

text \<open>\<open>m\<close> is the youngest writer of \<open>r\<close> older than \<open>j\<close>.\<close>

definition feeder :: "InstInfo list \<Rightarrow> nat \<Rightarrow> int \<Rightarrow> nat \<Rightarrow> bool" where
  "feeder ws j r m \<longleftrightarrow> m < j \<and> writes (ws ! m) r \<and> (\<forall>m'. m < m' \<and> m' < j \<longrightarrow> \<not> writes (ws ! m') r)"

type_synonym results = "i32 option list"
type_synonym wakeups = "(tag \<times> i32) list"

definition waits ::
    "u32 list \<Rightarrow> i32 list \<Rightarrow> InstInfo list \<Rightarrow> results \<Rightarrow> wakeups \<Rightarrow> nat \<Rightarrow> int \<Rightarrow> tag option \<Rightarrow> bool" where
  "waits iw A ws rs P j r t \<longleftrightarrow> (\<exists>m. feeder ws j r m \<and> t = Some (ii_rob_id (ws ! m))
     \<and> (rs ! m = None \<or> (ii_rob_id (ws ! m), val_at iw A ws m) \<in> set P))"

definition operands ::
    "u32 list \<Rightarrow> i32 list \<Rightarrow> InstInfo list \<Rightarrow> results \<Rightarrow> wakeups \<Rightarrow> nat \<Rightarrow> InstInfo \<Rightarrow> bool" where
  "operands iw A ws rs P j i \<longleftrightarrow> (let u = uo iw i; E = regs_at iw A (take j ws) in
     (if ii_src1_ready i then ii_src1_val i = src1 u E
      else u_rs1_used u \<and> waits iw A ws rs P j (u_rs1 u) (ii_src1_tag i)) \<and>
     (if ii_src2_ready i then ii_src2_val i = src2 u E
      else \<not> u_src2_is_imm u \<and> u_rs2_used u \<and> \<not> u_is_store u \<and> waits iw A ws rs P j (u_rs2 u) (ii_src2_tag i)))"

definition progress :: "u32 list \<Rightarrow> i32 list \<Rightarrow> InstInfo list \<Rightarrow> results \<Rightarrow> nat \<Rightarrow> InstInfo \<Rightarrow> bool" where
  "progress iw A ws rs j i \<longleftrightarrow>
     (ii_dispatched_alu i \<longrightarrow> ii_src1_ready i \<and> ii_src2_ready i)
     \<and> (rs ! j \<noteq> None \<longrightarrow> ii_dispatched_alu i) \<and> (ii_completed i \<longrightarrow> rs ! j \<noteq> None)
     \<and> (\<forall>v. rs ! j = Some v \<longrightarrow> v = val_at iw A ws j)
     \<and> (ii_br_resolved i \<longrightarrow> ii_dispatched_alu i \<and> isControl i
          \<and> ii_br_next_pc i = unext (uo iw i) (ii_pc i) (regs_at iw A (take j ws)))
     \<and> (isControl i \<and> rs ! j \<noteq> None \<longrightarrow> ii_br_resolved i)"

definition wakeups_ok :: "u32 list \<Rightarrow> i32 list \<Rightarrow> InstInfo list \<Rightarrow> results \<Rightarrow> wakeups \<Rightarrow> bool" where
  "wakeups_ok iw A ws rs P \<longleftrightarrow> (\<forall>(t, v) \<in> set P. \<exists>m < length ws. t = ii_rob_id (ws ! m) \<and> rs ! m \<noteq> None
     \<and> v = val_at iw A ws m)"

definition dataflow :: "u32 list \<Rightarrow> i32 list \<Rightarrow> InstInfo list \<Rightarrow> results \<Rightarrow> wakeups \<Rightarrow> bool" where
  "dataflow iw A ws rs P \<longleftrightarrow> length A = 32 \<and> length rs = length ws \<and> distinct (map ii_rob_id ws)
     \<and> (\<forall>i \<in> set ws. entry_ok iw i)
     \<and> (\<forall>j < length ws. operands iw A ws rs P j (ws ! j) \<and> progress iw A ws rs j (ws ! j))
     \<and> wakeups_ok iw A ws rs P"

lemma wakeups_okD:
  "wakeups_ok iw A ws rs P \<Longrightarrow> (t, v) \<in> set P \<Longrightarrow>
   \<exists>m < length ws. t = ii_rob_id (ws ! m) \<and> rs ! m \<noteq> None \<and> v = val_at iw A ws m"
  by (auto simp: wakeups_ok_def)

lemma dataflowD:
  assumes "dataflow iw A ws rs P"
  shows "length A = 32" "length rs = length ws" "distinct (map ii_rob_id ws)" "wakeups_ok iw A ws rs P"
    "i \<in> set ws \<Longrightarrow> entry_ok iw i" "j < length ws \<Longrightarrow> operands iw A ws rs P j (ws ! j)"
    "j < length ws \<Longrightarrow> progress iw A ws rs j (ws ! j)" "j < length ws \<Longrightarrow> entry_ok iw (ws ! j)"
  using assms by (simp_all add: dataflow_def)

section \<open>Register values along the window\<close>

lemma length_regs_at [simp]: "length (regs_at iw A ws) = length A"
  by (induction ws arbitrary: A) (simp_all add: regs_at_def)

lemma regs_at_simps: "regs_at iw A [] = A" "regs_at iw A (i # ws) = regs_at iw (uexec (uo iw i) (ii_pc i) A) ws"
  "regs_at iw A (ws @ [i]) = uexec (uo iw i) (ii_pc i) (regs_at iw A ws)"
  by (simp_all add: regs_at_def)

lemma regs_at_Suc: "j < length ws \<Longrightarrow> regs_at iw A (take (Suc j) ws) =
    uexec (uo iw (ws ! j)) (ii_pc (ws ! j)) (regs_at iw A (take j ws))"
  by (simp add: take_Suc_conv_app_nth regs_at_simps)

lemma entry_wf: "entry_ok iw i \<Longrightarrow> uop_wf (uo iw i)"
  using img_wf by (fastforce simp: entry_ok_def uo_def)

lemma entry_dest: "entry_ok iw i \<Longrightarrow>
    ii_rd_used i = u_rd_used (uo iw i) \<and> ii_dest_reg i = (if u_rd_used (uo iw i) then u_rd (uo iw i) else 0)"
  unfolding entry_ok_def Let_def by blast

lemma wf_rd: "uop_wf u \<Longrightarrow> u_rd_used u \<Longrightarrow> 0 < u_rd u \<and> u_rd u < 32"
  by (simp add: uop_wf_def)

lemma entry_writes:
  "entry_ok iw i \<Longrightarrow> writes i r \<Longrightarrow> u_rd_used (uo iw i) \<and> u_rd (uo iw i) = r \<and> 0 < r \<and> r < 32"
  using entry_dest [of iw i] wf_rd [OF entry_wf, of iw i] by (auto simp: writes_def)

lemma entry_not_writes: "entry_ok iw i \<Longrightarrow> \<not> writes i r \<Longrightarrow> u_rd_used (uo iw i) \<Longrightarrow> u_rd (uo iw i) \<noteq> r"
  using entry_dest [of iw i] by (auto simp: writes_def)

lemma reg_uexec_write:
  assumes "entry_ok iw i" "writes i r" "length A = 32"
  shows "reg (uexec (uo iw i) pc A) r = uvalue (uo iw i) pc A"
proof -
  have "u_rd_used (uo iw i)" "u_rd (uo iw i) = r" "0 < r" "r < 32" using entry_writes [OF assms(1,2)] by simp_all
  moreover have "nat r < length A" using calculation assms(3) by simp
  ultimately show ?thesis using assms(3) by (simp add: reg_def uexec_def)
qed

lemma reg_uexec_other:
  assumes "entry_ok iw i" "\<not> writes i r"
  shows "reg (uexec (uo iw i) pc A) r = reg A r"
proof (cases "u_rd_used (uo iw i)")
  case True
  have d: "0 < u_rd (uo iw i)" using wf_rd [OF entry_wf [OF assms(1)] True] by simp
  show ?thesis
  proof (cases "0 < r \<and> r < int (length A)")
    case True
    then have "nat (u_rd (uo iw i)) \<noteq> nat r" using entry_not_writes [OF assms \<open>u_rd_used (uo iw i)\<close>] d by simp
    then show ?thesis by (simp add: reg_def uexec_def)
  qed (auto simp: reg_def)
qed (simp add: uexec_def)

text \<open>A register that is not written since \<open>k\<close> has the value it had there.\<close>

lemma reg_unwritten:
  assumes "\<forall>i \<in> set ws. entry_ok iw i" "k \<le> j" "j \<le> length ws" "\<forall>m. k \<le> m \<and> m < j \<longrightarrow> \<not> writes (ws ! m) r"
  shows "reg (regs_at iw A (take j ws)) r = reg (regs_at iw A (take k ws)) r"
  using assms(2-4)
proof (induction j)
  case (Suc j)
  show ?case
  proof (cases "k = Suc j")
    case False
    then have k: "k \<le> j" "j < length ws" using Suc.prems by simp_all
    then have "entry_ok iw (ws ! j)" "\<not> writes (ws ! j) r" using assms(1) Suc.prems(3) by simp_all
    with reg_uexec_other k Suc show ?thesis by (simp add: regs_at_Suc)
  qed simp
qed simp

lemma reg_feeder:
  assumes "\<forall>i \<in> set ws. entry_ok iw i" "length A = 32" "feeder ws j r m" "j \<le> length ws"
  shows "reg (regs_at iw A (take j ws)) r = val_at iw A ws m"
proof -
  have m: "m < length ws" "Suc m \<le> j" using assms(3,4) by (simp_all add: feeder_def)
  have "reg (regs_at iw A (take j ws)) r = reg (regs_at iw A (take (Suc m) ws)) r"
    by (rule reg_unwritten [OF assms(1) m(2) assms(4)]) (use assms(3) in \<open>simp add: feeder_def\<close>)
  also have "\<dots> = val_at iw A ws m"
    using reg_uexec_write [of iw "ws ! m" r "regs_at iw A (take m ws)" "ii_pc (ws ! m)"] assms m(1)
    by (simp add: regs_at_Suc val_at_def feeder_def)
  finally show ?thesis .
qed

lemma reg_no_writer:
  assumes "\<forall>i \<in> set ws. entry_ok iw i" "\<forall>i \<in> set ws. \<not> writes i r"
  shows "reg (regs_at iw A ws) r = reg A r"
  using reg_unwritten [OF assms(1), of 0 "length ws" r A] assms(2) by (simp add: regs_at_simps)

text \<open>Tags identify the members of the window.\<close>

lemma same_tag: "distinct (map ii_rob_id ws) \<Longrightarrow> a < length ws \<Longrightarrow> b < length ws \<Longrightarrow>
    ii_rob_id (ws ! a) = ii_rob_id (ws ! b) \<Longrightarrow> a = b"
  by (simp add: distinct_conv_nth) metis

section \<open>Changing fields that do not matter\<close>

text \<open>What the register values and the producers depend on.\<close>

abbreviation stat :: "InstInfo \<Rightarrow> tag \<times> u64 \<times> bool \<times> int" where
  "stat i \<equiv> (ii_rob_id i, ii_pc i, ii_rd_used i, ii_dest_reg i)"

lemma stat_nth:
  assumes "map stat ws' = map stat ws" "m < length ws"
  shows "ii_rob_id (ws' ! m) = ii_rob_id (ws ! m)" "ii_pc (ws' ! m) = ii_pc (ws ! m)"
    "ii_rd_used (ws' ! m) = ii_rd_used (ws ! m)" "ii_dest_reg (ws' ! m) = ii_dest_reg (ws ! m)"
proof -
  have "length ws' = length ws" using map_eq_imp_length_eq [OF assms(1)] .
  then have "map stat ws' ! m = stat (ws' ! m)" "map stat ws ! m = stat (ws ! m)" using assms(2) by simp_all
  then have "stat (ws' ! m) = stat (ws ! m)" using assms(1) by metis
  then show "ii_rob_id (ws' ! m) = ii_rob_id (ws ! m)" "ii_pc (ws' ! m) = ii_pc (ws ! m)"
    "ii_rd_used (ws' ! m) = ii_rd_used (ws ! m)" "ii_dest_reg (ws' ! m) = ii_dest_reg (ws ! m)" by simp_all
qed

lemma stat_take: "map stat ws' = map stat ws \<Longrightarrow> map stat (take m ws') = map stat (take m ws)"
  by (simp only: take_map [symmetric])

lemma regs_at_stat: "map stat ws' = map stat ws \<Longrightarrow> regs_at iw A ws' = regs_at iw A ws"
proof (induction ws' arbitrary: ws A)
  case (Cons i ws')
  then obtain k vs where k: "ws = k # vs" "ii_pc i = ii_pc k" "map stat ws' = map stat vs" by (cases ws) auto
  with Cons.IH [OF k(3)] show ?case by (simp add: regs_at_simps uo_def)
qed simp

lemma val_at_stat: "map stat ws' = map stat ws \<Longrightarrow> m < length ws \<Longrightarrow> val_at iw A ws' m = val_at iw A ws m"
proof -
  assume a: "map stat ws' = map stat ws" "m < length ws"
  have "regs_at iw A (take m ws') = regs_at iw A (take m ws)" by (rule regs_at_stat [OF stat_take [OF a(1)]])
  then show ?thesis using stat_nth(2) [OF a] by (simp only: val_at_def uo_def)
qed

lemma writes_stat: "map stat ws' = map stat ws \<Longrightarrow> m < length ws \<Longrightarrow> writes (ws' ! m) r = writes (ws ! m) r"
  using stat_nth(3,4) [of ws' ws m] by (simp add: writes_def)

lemma feeder_stat:
  assumes "map stat ws' = map stat ws" "j \<le> length ws"
  shows "feeder ws' j r m = feeder ws j r m"
proof -
  have w: "writes (ws' ! x) r = writes (ws ! x) r" if "x < j" for x
    by (rule writes_stat [OF assms(1)]) (use that assms(2) in simp)
  have "(\<forall>x. m < x \<and> x < j \<longrightarrow> \<not> writes (ws' ! x) r) = (\<forall>x. m < x \<and> x < j \<longrightarrow> \<not> writes (ws ! x) r)"
    using w by blast
  then show ?thesis using w [of m] unfolding feeder_def by blast
qed

lemma waits_stat:
  assumes "map stat ws' = map stat ws" "j \<le> length ws"
  shows "waits iw A ws' rs P j r t = waits iw A ws rs P j r t"
  unfolding waits_def
proof (rule arg_cong [where f = Ex], rule ext)
  fix m
  show "(feeder ws' j r m \<and> t = Some (ii_rob_id (ws' ! m)) \<and> (rs ! m = None \<or> (ii_rob_id (ws' ! m), val_at iw A ws' m) \<in> set P))
    = (feeder ws j r m \<and> t = Some (ii_rob_id (ws ! m)) \<and> (rs ! m = None \<or> (ii_rob_id (ws ! m), val_at iw A ws m) \<in> set P))"
  proof (cases "feeder ws j r m")
    case True
    then have m: "m < length ws" using assms(2) by (simp add: feeder_def)
    have "ii_rob_id (ws' ! m) = ii_rob_id (ws ! m)" by (rule stat_nth(1) [OF assms(1) m])
    with feeder_stat [OF assms] val_at_stat [OF assms(1) m] show ?thesis by simp
  qed (simp add: feeder_stat [OF assms])
qed

section \<open>Keeping the data flow\<close>

lemma dataflowI:
  assumes "length A = 32" "length rs = length ws" "distinct (map ii_rob_id ws)"
    and "\<And>j. j < length ws \<Longrightarrow> entry_ok iw (ws ! j) \<and> operands iw A ws rs P j (ws ! j) \<and> progress iw A ws rs j (ws ! j)"
    and "wakeups_ok iw A ws rs P"
  shows "dataflow iw A ws rs P"
  using assms by (auto simp: dataflow_def in_set_conv_nth)

text \<open>The fields fixed at rename.\<close>

abbreviation shape :: "InstInfo \<Rightarrow> u32 \<times> tag \<times> u64 \<times> bool \<times> Op \<times> Fu \<times> i32 \<times> bool \<times> bool \<times> bool \<times> bool \<times> bool
    \<times> bool \<times> bool \<times> int \<times> u64 \<times> bool \<times> u64" where
  "shape i \<equiv> (ii_inst_id i, ii_rob_id i, ii_pc i, ii_has_uop i, ii_op i, ii_fu i, ii_imm i, ii_is_branch i, ii_is_jump i,
     ii_is_call i, ii_is_ret i, ii_is_load i, ii_is_store i, ii_rd_used i, ii_dest_reg i, ii_fallthrough_pc i,
     ii_predicted_taken i, ii_predicted_target i)"

lemma entry_ok_shape: "shape i' = shape i \<Longrightarrow> entry_ok iw i' = entry_ok iw i"
  by (simp add: entry_ok_def uo_def)

lemma stat_map: "(\<And>i. i \<in> set ws \<Longrightarrow> stat (f i) = stat i) \<Longrightarrow> map stat (map f ws) = map stat ws"
  by simp

lemma tags_stat: "map stat ws' = map stat ws \<Longrightarrow> map ii_rob_id ws' = map ii_rob_id ws"
proof -
  assume a: "map stat ws' = map stat ws"
  have "map fst (map stat ws') = map fst (map stat ws)" by (simp only: a)
  then show ?thesis by (simp add: comp_def)
qed

lemma isControl_shape: "shape i' = shape i \<Longrightarrow> isControl i' = isControl i"
  by (simp add: isControl_def)

text \<open>A wake-up delivers the value that is waited for.\<close>

lemma waits_other: "waits iw A ws rs ((t, v) # P) j r tg \<Longrightarrow> tg \<noteq> Some t \<Longrightarrow> waits iw A ws rs P j r tg"
  by (auto simp: waits_def)

lemma waits_value:
  assumes df: "dataflow iw A ws rs P" and w: "waits iw A ws rs P j r (Some t)" and j: "j \<le> length ws"
    and v: "(t, v) \<in> set P"
  shows "v = reg (regs_at iw A (take j ws)) r"
proof -
  obtain m where m: "feeder ws j r m" "t = ii_rob_id (ws ! m)" using w by (auto simp: waits_def)
  obtain m' where m': "m' < length ws" "t = ii_rob_id (ws ! m')" "v = val_at iw A ws m'"
    using dataflowD(4) [OF df] v by (auto simp: wakeups_ok_def)
  have "m < length ws" using m(1) j by (simp add: feeder_def)
  then have "m = m'" using same_tag [OF dataflowD(3) [OF df]] m(2) m'(1,2) by simp
  with reg_feeder [OF _ dataflowD(1) [OF df] m(1) j] dataflowD(5) [OF df] m'(3) show ?thesis by simp
qed

lemma wake_info_shape: "shape (wake_info t v i) = shape i"
  by (simp add: wake_info_def wake_src_def Let_def)

lemma wake_info_flags:
  "ii_dispatched_alu (wake_info t v i) = ii_dispatched_alu i" "ii_completed (wake_info t v i) = ii_completed i"
  "ii_br_resolved (wake_info t v i) = ii_br_resolved i" "ii_br_next_pc (wake_info t v i) = ii_br_next_pc i"
  "ii_inst_id (wake_info t v i) = ii_inst_id i" "ii_pc (wake_info t v i) = ii_pc i"
  "ii_src1_ready i \<Longrightarrow> ii_src1_ready (wake_info t v i)" "ii_src2_ready i \<Longrightarrow> ii_src2_ready (wake_info t v i)"
  by (simp_all add: wake_info_def wake_src_def Let_def)

lemma operands_wake:
  assumes df: "dataflow iw A ws rs ((t, v) # P)" and j: "j < length ws"
  shows "operands iw A ws rs P j (wake_info t v (ws ! j))"
proof -
  let ?i = "ws ! j" and ?E = "regs_at iw A (take j ws)"
  note op = dataflowD(6) [OF df j, unfolded operands_def Let_def]
  have w: "v = reg ?E r" if "waits iw A ws rs ((t, v) # P) j r (Some t)" for r
    by (rule waits_value [OF df that]) (use j in simp_all)
  show ?thesis
  proof (cases "ii_completed ?i")
    case True
    then have "ii_src1_ready ?i" "ii_src2_ready ?i" using dataflowD(7) [OF df j] by (simp_all add: progress_def)
    with op True show ?thesis by (simp add: operands_def wake_info_def)
  next
    case False
    have u: "uo iw (wake_info t v ?i) = uo iw ?i" by (simp add: uo_def wake_info_flags)
    have one: "if ii_src1_ready (wake_info t v ?i) then ii_src1_val (wake_info t v ?i) = src1 (uo iw ?i) ?E
      else u_rs1_used (uo iw ?i) \<and> waits iw A ws rs P j (u_rs1 (uo iw ?i)) (ii_src1_tag (wake_info t v ?i))"
      using op False w [of "u_rs1 (uo iw ?i)"] waits_other [of iw A ws rs t v P j "u_rs1 (uo iw ?i)" "ii_src1_tag ?i"]
      by (cases "ii_src1_ready ?i"; cases "ii_src1_tag ?i = Some t")
        (simp_all add: wake_info_def wake_src_def Let_def src1_def)
    have two: "if ii_src2_ready (wake_info t v ?i) then ii_src2_val (wake_info t v ?i) = src2 (uo iw ?i) ?E
      else \<not> u_src2_is_imm (uo iw ?i) \<and> u_rs2_used (uo iw ?i) \<and> \<not> u_is_store (uo iw ?i)
        \<and> waits iw A ws rs P j (u_rs2 (uo iw ?i)) (ii_src2_tag (wake_info t v ?i))"
      using op False w [of "u_rs2 (uo iw ?i)"] waits_other [of iw A ws rs t v P j "u_rs2 (uo iw ?i)" "ii_src2_tag ?i"]
      by (cases "ii_src2_ready ?i"; cases "ii_src2_tag ?i = Some t")
        (simp_all add: wake_info_def wake_src_def Let_def src2_def)
    from one two show ?thesis unfolding operands_def Let_def u by blast
  qed
qed

lemma operands_stat:
  assumes "map stat ws' = map stat ws" "j < length ws"
  shows "operands iw A ws' rs P j i = operands iw A ws rs P j i"
  using waits_stat [OF assms(1)] regs_at_stat [OF stat_take [OF assms(1)]] assms(2) by (simp add: operands_def)

lemma progress_stat:
  assumes "map stat ws' = map stat ws" "j < length ws"
  shows "progress iw A ws' rs j i = progress iw A ws rs j i"
  using val_at_stat [OF assms] regs_at_stat [OF stat_take [OF assms(1)]] by (simp add: progress_def)

lemma wakeups_stat:
  assumes "map stat ws' = map stat ws"
  shows "wakeups_ok iw A ws' rs P = wakeups_ok iw A ws rs P"
proof -
  have l: "length ws' = length ws" using map_eq_imp_length_eq [OF assms] .
  have "(\<exists>m < length ws'. t = ii_rob_id (ws' ! m) \<and> rs ! m \<noteq> None \<and> v = val_at iw A ws' m)
      = (\<exists>m < length ws. t = ii_rob_id (ws ! m) \<and> rs ! m \<noteq> None \<and> v = val_at iw A ws m)" for t v
    using stat_nth(1) [OF assms] val_at_stat [OF assms] l by metis
  then show ?thesis unfolding wakeups_ok_def by simp
qed

lemma dataflow_stat:
  assumes df: "dataflow iw A ws rs P" and st: "map stat ws' = map stat ws" and rs: "length rs' = length rs"
    and P: "wakeups_ok iw A ws rs' P'"
    and each: "\<And>j. j < length ws \<Longrightarrow> entry_ok iw (ws' ! j) \<and> operands iw A ws rs' P' j (ws' ! j) \<and> progress iw A ws rs' j (ws' ! j)"
  shows "dataflow iw A ws' rs' P'"
proof (rule dataflowI)
  have l: "length ws' = length ws" using map_eq_imp_length_eq [OF st] .
  show "length A = 32" "length rs' = length ws'" using dataflowD(1,2) [OF df] rs l by simp_all
  show "distinct (map ii_rob_id ws')" using dataflowD(3) [OF df] by (simp only: tags_stat [OF st])
  show "wakeups_ok iw A ws' rs' P'" using P by (simp only: wakeups_stat [OF st])
  fix j assume "j < length ws'"
  then have j: "j < length ws" using l by simp
  show "entry_ok iw (ws' ! j) \<and> operands iw A ws' rs' P' j (ws' ! j) \<and> progress iw A ws' rs' j (ws' ! j)"
    using each [OF j] by (simp only: operands_stat [OF st j] progress_stat [OF st j])
qed

lemma dataflow_wake:
  assumes df: "dataflow iw A ws rs ((t, v) # P)"
  shows "dataflow iw A (map (wake_info t v) ws) rs P"
proof (rule dataflow_stat [OF df])
  show "map stat (map (wake_info t v) ws) = map stat ws" using wake_info_shape by simp
  show "wakeups_ok iw A ws rs P" using dataflowD(4) [OF df] by (simp add: wakeups_ok_def)
  fix j assume j: "j < length ws"
  have "progress iw A ws rs j (wake_info t v (ws ! j))"
    using dataflowD(7) [OF df j] isControl_shape [OF wake_info_shape, of t v "ws ! j"]
    by (simp add: progress_def wake_info_flags uo_def)
  then show "entry_ok iw (map (wake_info t v) ws ! j) \<and> operands iw A ws rs P j (map (wake_info t v) ws ! j)
      \<and> progress iw A ws rs j (map (wake_info t v) ws ! j)"
    using operands_wake [OF df j] dataflowD(8) [OF df j] entry_ok_shape [OF wake_info_shape] j by simp
qed simp

text \<open>A result arrives; unless the instruction writes no register, a wake-up is registered.\<close>

lemma waits_result:
  assumes w: "waits iw A ws rs P j r t" and m: "m < length rs" and j: "j \<le> length rs"
    and Q: "Q = P @ [(ii_rob_id (ws ! m), val_at iw A ws m)] \<or> Q = P \<and> \<not> ii_rd_used (ws ! m)"
  shows "waits iw A ws (rs[m := Some v]) Q j r t"
proof -
  obtain k where k: "feeder ws j r k" "t = Some (ii_rob_id (ws ! k))"
      "rs ! k = None \<or> (ii_rob_id (ws ! k), val_at iw A ws k) \<in> set P" using w by (auto simp: waits_def)
  have "rs[m := Some v] ! k = None \<or> (ii_rob_id (ws ! k), val_at iw A ws k) \<in> set Q"
  proof (cases "k = m")
    case True
    then have "ii_rd_used (ws ! m)" using k(1) by (simp add: feeder_def writes_def)
    with Q True show ?thesis by auto
  next
    case False
    then show ?thesis using k(3) Q by auto
  qed
  with k show ?thesis by (auto simp: waits_def)
qed

lemma dataflow_result:
  assumes df: "dataflow iw A ws rs P" and m: "m < length ws" "ii_dispatched_alu (ws ! m)"
    "isControl (ws ! m) \<Longrightarrow> ii_br_resolved (ws ! m)" "v = val_at iw A ws m"
    and Q: "Q = P @ [(ii_rob_id (ws ! m), v)] \<or> Q = P \<and> \<not> ii_rd_used (ws ! m)"
  shows "dataflow iw A ws (rs[m := Some v]) Q"
proof (rule dataflow_stat [OF df])
  have l: "length rs = length ws" by (rule dataflowD(2) [OF df])
  have keep: "rs ! x \<noteq> None \<Longrightarrow> rs[m := Some v] ! x \<noteq> None" for x
    using m(1) l by (cases "x = m") simp_all
  have old: "\<exists>x < length ws. t = ii_rob_id (ws ! x) \<and> rs[m := Some v] ! x \<noteq> None \<and> u = val_at iw A ws x"
    if "(t, u) \<in> set P" for t u using that dataflowD(4) [OF df] keep unfolding wakeups_ok_def by blast
  have new: "\<exists>x < length ws. ii_rob_id (ws ! m) = ii_rob_id (ws ! x) \<and> rs[m := Some v] ! x \<noteq> None \<and> v = val_at iw A ws x"
    using m l by (intro exI [of _ m]) simp
  have "set Q \<subseteq> insert (ii_rob_id (ws ! m), v) (set P)" using Q by auto
  then show "wakeups_ok iw A ws (rs[m := Some v]) Q" using old new unfolding wakeups_ok_def by blast
  fix j assume j: "j < length ws"
  have "operands iw A ws (rs[m := Some v]) Q j (ws ! j)"
    using dataflowD(6) [OF df j] waits_result [of iw A ws rs P j _ _ m Q v] Q m j l
    by (simp add: operands_def Let_def)
  moreover have "progress iw A ws (rs[m := Some v]) j (ws ! j)"
    using dataflowD(7) [OF df j] m l by (cases "j = m") (simp_all add: progress_def)
  ultimately show "entry_ok iw (ws ! j) \<and> operands iw A ws (rs[m := Some v]) Q j (ws ! j)
      \<and> progress iw A ws (rs[m := Some v]) j (ws ! j)" using dataflowD(8) [OF df j] by simp
qed simp_all

text \<open>Flags of one instruction change; its operands and everything fixed at rename stay.\<close>

abbreviation opview :: "InstInfo \<Rightarrow> bool \<times> tag option \<times> i32 \<times> bool \<times> tag option \<times> i32" where
  "opview i \<equiv> (ii_src1_ready i, ii_src1_tag i, ii_src1_val i, ii_src2_ready i, ii_src2_tag i, ii_src2_val i)"

lemma dataflow_flags:
  assumes df: "dataflow iw A ws rs P" and m: "m < length ws" "shape i' = shape (ws ! m)" "opview i' = opview (ws ! m)"
    "progress iw A ws rs m i'"
  shows "dataflow iw A (ws[m := i']) rs P"
proof (rule dataflow_stat [OF df])
  have "stat i' = stat (ws ! m)" using m(2) by simp
  then show "map stat (ws[m := i']) = map stat ws" using m(1) by (simp add: map_update list_update_same_conv)
  show "wakeups_ok iw A ws rs P" by (rule dataflowD(4) [OF df])
  fix j assume j: "j < length ws"
  show "entry_ok iw (ws[m := i'] ! j) \<and> operands iw A ws rs P j (ws[m := i'] ! j) \<and> progress iw A ws rs j (ws[m := i'] ! j)"
  proof (cases "j = m")
    case True
    have "operands iw A ws rs P m i' = operands iw A ws rs P m (ws ! m)" using m(2,3) by (simp add: operands_def uo_def)
    with True m entry_ok_shape [OF m(2)] dataflowD(6,8) [OF df m(1)] show ?thesis by simp
  next
    case False
    then show ?thesis using dataflowD(6,7,8) [OF df j] by simp
  qed
qed simp

text \<open>The oldest instruction retires: its result becomes architectural.\<close>

lemma feeder_Cons: "feeder (i # ws) (Suc j) r (Suc m) = feeder ws j r m"
proof
  assume a: "feeder (i # ws) (Suc j) r (Suc m)"
  have "\<not> writes (ws ! x) r" if "m < x" "x < j" for x
    using a that unfolding feeder_def by (metis Suc_less_eq nth_Cons_Suc)
  with a show "feeder ws j r m" by (simp add: feeder_def)
next
  assume a: "feeder ws j r m"
  have "\<not> writes ((i # ws) ! x) r" if "Suc m < x" "x < Suc j" for x
    using a that by (cases x) (simp_all add: feeder_def)
  with a show "feeder (i # ws) (Suc j) r (Suc m)" by (simp add: feeder_def)
qed

lemma val_at_Cons: "val_at iw A (i # ws) (Suc m) = val_at iw (uexec (uo iw i) (ii_pc i) A) ws m"
  by (simp add: val_at_def regs_at_simps)

lemma waits_Cons:
  assumes "waits iw A (i # ws) (Some v # rs) [] (Suc j) r t"
  shows "waits iw (uexec (uo iw i) (ii_pc i) A) ws rs [] j r t"
proof -
  obtain m where m: "feeder (i # ws) (Suc j) r m" "t = Some (ii_rob_id ((i # ws) ! m))" "(Some v # rs) ! m = None"
    using assms by (auto simp: waits_def)
  then obtain m' where "m = Suc m'" by (cases m) simp_all
  with m feeder_Cons show ?thesis by (auto simp: waits_def)
qed

lemma dataflow_commit:
  assumes df: "dataflow iw A (i # ws) (Some v # rs) []"
  shows "dataflow iw (uexec (uo iw i) (ii_pc i) A) ws rs []" "v = val_at iw A (i # ws) 0"
    "isControl i \<Longrightarrow> ii_br_resolved i" "entry_ok iw i"
proof -
  let ?A = "uexec (uo iw i) (ii_pc i) A"
  show "v = val_at iw A (i # ws) 0" "isControl i \<Longrightarrow> ii_br_resolved i" "entry_ok iw i"
    using dataflowD(7,8) [OF df, of 0] by (simp_all add: progress_def)
  show "dataflow iw ?A ws rs []"
  proof (rule dataflowI)
    fix j assume j: "j < length ws"
    have "operands iw ?A ws rs [] j (ws ! j)"
      using dataflowD(6) [OF df, of "Suc j"] j waits_Cons [of iw A i ws v rs j] by (simp add: operands_def Let_def regs_at_simps)
    moreover have "progress iw ?A ws rs j (ws ! j)"
      using dataflowD(7) [OF df, of "Suc j"] j by (simp add: progress_def regs_at_simps val_at_Cons)
    ultimately show "entry_ok iw (ws ! j) \<and> operands iw ?A ws rs [] j (ws ! j) \<and> progress iw ?A ws rs j (ws ! j)"
      using dataflowD(8) [OF df, of "Suc j"] j by simp
  qed (use dataflowD(1-3) [OF df] in \<open>simp_all add: wakeups_ok_def\<close>)
qed

text \<open>A suffix of the window is squashed.\<close>

lemma val_at_take: "m < k \<Longrightarrow> val_at iw A (take k ws) m = val_at iw A ws m"
  by (simp add: val_at_def min_absorb1)

lemma feeder_take: "j \<le> k \<Longrightarrow> feeder (take k ws) j r m = feeder ws j r m"
proof -
  assume j: "j \<le> k"
  have n: "take k ws ! x = ws ! x" if "x < j" for x using that j by simp
  have "(\<forall>x. m < x \<and> x < j \<longrightarrow> \<not> writes (take k ws ! x) r) = (\<forall>x. m < x \<and> x < j \<longrightarrow> \<not> writes (ws ! x) r)"
    using n by auto
  then show ?thesis using n [of m] unfolding feeder_def by auto
qed

lemma dataflow_take:
  assumes df: "dataflow iw A ws rs P" and k: "k \<le> length ws"
  shows "dataflow iw A (take k ws) (take k rs) (filter (\<lambda>w. fst w \<notin> ii_rob_id ` set (drop k ws)) P)"
    (is "dataflow iw A ?ws ?rs ?P")
proof -
  have l: "length rs = length ws" by (rule dataflowD(2) [OF df])
  have keep: "ii_rob_id (ws ! m) \<notin> ii_rob_id ` set (drop k ws)" if "m < k" for m
  proof
    assume "ii_rob_id (ws ! m) \<in> ii_rob_id ` set (drop k ws)"
    then obtain x where x: "x < length ws - k" "ii_rob_id (ws ! m) = ii_rob_id (ws ! (k + x))" by (auto simp: in_set_conv_nth)
    have "k + x < length ws" using x(1) by linarith
    with same_tag [OF dataflowD(3) [OF df], of m "k + x"] x(2) that k show False by simp
  qed
  have w: "waits iw A ?ws ?rs ?P j r t" if "waits iw A ws rs P j r t" "j \<le> k" for j r t
  proof -
    obtain m where m: "feeder ws j r m" "t = Some (ii_rob_id (ws ! m))" "rs ! m = None \<or> (ii_rob_id (ws ! m), val_at iw A ws m) \<in> set P"
      using \<open>waits iw A ws rs P j r t\<close> by (auto simp: waits_def)
    then have "m < k" using \<open>j \<le> k\<close> by (simp add: feeder_def)
    with m keep [of m] feeder_take [OF \<open>j \<le> k\<close>] val_at_take [of m k iw A ws] show ?thesis
      unfolding waits_def by (intro exI [of _ m]) auto
  qed
  have "distinct (map ii_rob_id ?ws)" using dataflowD(3) [OF df] by (simp add: take_map [symmetric])
  moreover have "wakeups_ok iw A ?ws ?rs ?P"
  proof (unfold wakeups_ok_def, safe)
    fix t v assume tv: "(t, v) \<in> set ?P"
    then obtain m where m: "m < length ws" "t = ii_rob_id (ws ! m)" "rs ! m \<noteq> None" "v = val_at iw A ws m"
      using dataflowD(4) [OF df] by (auto simp: wakeups_ok_def)
    have "m < k"
    proof (rule ccontr)
      assume "\<not> m < k"
      then have "ws ! m \<in> set (drop k ws)" using m(1) by (auto simp: in_set_conv_nth intro!: exI [of _ "m - k"])
      with tv m(2) show False by auto
    qed
    with m k show "\<exists>m < length ?ws. t = ii_rob_id (?ws ! m) \<and> ?rs ! m \<noteq> None \<and> v = val_at iw A ?ws m"
      by (intro exI [of _ m]) (simp add: val_at_take)
  qed
  moreover have "entry_ok iw (?ws ! j) \<and> operands iw A ?ws ?rs ?P j (?ws ! j) \<and> progress iw A ?ws ?rs j (?ws ! j)"
    if "j < length ?ws" for j
  proof -
    have j: "j < k" "j < length ws" using that by simp_all
    have t: "take j ?ws = take j ws" using j by (simp add: min_absorb1)
    have "operands iw A ?ws ?rs ?P j (ws ! j)"
      using dataflowD(6) [OF df j(2)] w [of j] j by (simp add: operands_def Let_def t)
    moreover have "progress iw A ?ws ?rs j (ws ! j)"
      using dataflowD(7) [OF df j(2)] j by (simp add: progress_def t val_at_take)
    ultimately show ?thesis using dataflowD(8) [OF df j(2)] j by simp
  qed
  ultimately show ?thesis using dataflowD(1,2) [OF df] by (intro dataflowI) simp_all
qed

text \<open>A renamed instruction is appended.\<close>

lemma val_at_append: "m < length ws \<Longrightarrow> val_at iw A (ws @ vs) m = val_at iw A ws m"
  by (simp add: val_at_def nth_append)

lemma feeder_append: "j \<le> length ws \<Longrightarrow> feeder (ws @ vs) j r m = feeder ws j r m"
  using feeder_take [of j "length ws" "ws @ vs" r m] by simp

lemma waits_append:
  assumes "waits iw A ws rs P j r t" "j \<le> length ws" "length rs = length ws"
  shows "waits iw A (ws @ vs) (rs @ qs) P j r t"
proof -
  obtain m where m: "feeder ws j r m" "t = Some (ii_rob_id (ws ! m))" "rs ! m = None \<or> (ii_rob_id (ws ! m), val_at iw A ws m) \<in> set P"
    using assms(1) by (auto simp: waits_def)
  then have "m < length ws" using assms(2) by (simp add: feeder_def)
  with m assms feeder_append [of j ws vs r m] val_at_append [of m ws iw A vs] show ?thesis
    unfolding waits_def by (intro exI [of _ m]) (auto simp: nth_append)
qed

lemma dataflow_append:
  assumes df: "dataflow iw A ws rs P" and i: "entry_ok iw i" "ii_rob_id i \<notin> ii_rob_id ` set ws"
    "operands iw A ws rs P (length ws) i" "\<not> ii_dispatched_alu i" "\<not> ii_completed i" "\<not> ii_br_resolved i"
  shows "dataflow iw A (ws @ [i]) (rs @ [None]) P" (is "dataflow iw A ?ws ?rs P")
proof (rule dataflowI)
  have l: "length rs = length ws" by (rule dataflowD(2) [OF df])
  show "length A = 32" "length ?rs = length ?ws" "distinct (map ii_rob_id ?ws)" using dataflowD(1-3) [OF df] i(2) by simp_all
  have "\<exists>m < length ?ws. t = ii_rob_id (?ws ! m) \<and> ?rs ! m \<noteq> None \<and> v = val_at iw A ?ws m" if tv: "(t, v) \<in> set P" for t v
  proof -
    obtain m where "m < length ws" "t = ii_rob_id (ws ! m)" "rs ! m \<noteq> None" "v = val_at iw A ws m"
      using wakeups_okD [OF dataflowD(4) [OF df] tv] by blast
    then show ?thesis using l val_at_append [of m ws iw A "[i]"] by (intro exI [of _ m]) (simp add: nth_append)
  qed
  then show "wakeups_ok iw A ?ws ?rs P" unfolding wakeups_ok_def by blast
  fix j assume "j < length ?ws"
  then consider "j < length ws" | "j = length ws" by fastforce
  then show "entry_ok iw (?ws ! j) \<and> operands iw A ?ws ?rs P j (?ws ! j) \<and> progress iw A ?ws ?rs j (?ws ! j)"
  proof cases
    case 1
    have "operands iw A ?ws ?rs P j (ws ! j)"
      using dataflowD(6) [OF df 1] waits_append [OF _ _ l, of iw A P j] 1 by (simp add: operands_def Let_def)
    moreover have "progress iw A ?ws ?rs j (ws ! j)"
      using dataflowD(7) [OF df 1] 1 l by (simp add: progress_def nth_append val_at_append)
    ultimately show ?thesis using 1 dataflowD(8) [OF df 1] by (simp add: nth_append)
  next
    case 2
    have "operands iw A ?ws ?rs P (length ws) i"
      using i(3) waits_append [OF _ _ l, of iw A P "length ws"] by (simp add: operands_def Let_def)
    moreover have "?rs ! length ws = None" using l by (simp add: nth_append)
    ultimately show ?thesis using 2 i l by (simp add: progress_def)
  qed
qed

end
