(* ===== verification/FlowInv.thy ===== *)
theory FlowInv
  imports Dataflow PipelineSafety
begin

text \<open>
  The invariant that ties the out-of-order core to the in-order interpreter: the table of
  instructions in flight is the reorder buffer's queue, its data flow is the interpreter's, the
  renaming state is that of its writers, every result on its way has the right value, and the
  instructions in flight and in the front end follow each other as fetched or as resolved.
\<close>

section \<open>The parts\<close>

definition results :: "ReorderBuffer \<Rightarrow> results" where
  "results r = map (\<lambda>x. snd (snd (snd x))) (rob_abs r)"

definition in_order :: "nat \<Rightarrow> ReorderBuffer \<Rightarrow> InstInfo list \<Rightarrow> bool" where
  "in_order depth r ts \<longleftrightarrow> rob_wf r \<and> rob_capacity r = depth
     \<and> map (\<lambda>x. (fst x, fst (snd (snd x)))) (rob_abs r) = map (\<lambda>i. (ii_rob_id i, ii_dest_reg i)) ts"

definition flight :: "InstInfo \<Rightarrow> flight" where
  "flight i = (ii_rob_id i, ii_dest_reg i, isControl i)"

definition renamed :: "nat \<Rightarrow> RegisterAliasTable \<Rightarrow> RatCheckpoints \<Rightarrow> InstInfo list \<Rightarrow> bool" where
  "renamed depth rt ck ts \<longleftrightarrow> rn_inv depth 32 \<lparr>rn_rat = rt, rn_ck = ck, rn_win = map flight ts\<rparr>"

text \<open>Identifiers are below the next one, of which at most \<open>n\<close> were given.\<close>

definition ids_ok :: "nat \<Rightarrow> u32 \<Rightarrow> InstInfo list \<Rightarrow> bool" where
  "ids_ok n nx ts \<longleftrightarrow> unat nx \<le> n \<and> distinct (map ii_inst_id ts) \<and> (\<forall>i \<in> set ts. ii_inst_id i < nx)"

text \<open>
  A result in a functional unit is that of an instruction in flight, sent but without a result
  in the reorder buffer unless its slot is one of \<open>G\<close>, about to be drained.
\<close>

definition token :: "u32 list \<Rightarrow> i32 list \<Rightarrow> InstInfo list \<Rightarrow> nat \<Rightarrow> Stage \<Rightarrow> bool" where
  "token iw A ts m sg \<longleftrightarrow> m < length ts \<and> sg_rob_id sg = Some (ii_rob_id (ts ! m)) \<and> ii_dispatched_alu (ts ! m)
     \<and> sg_value sg = val_at iw A ts m \<and> sg_is_control sg = isControl (ts ! m)
     \<and> sg_offer_cdb sg = (\<not> isControl (ts ! m) \<or> ii_is_jump (ts ! m) \<and> ii_rd_used (ts ! m))"

definition leaving :: "nat set \<Rightarrow> ExecutionEngine \<Rightarrow> Stage \<Rightarrow> bool" where
  "leaving G s sg \<longleftrightarrow> (\<exists>k \<in> G. ee_offers s k = Some sg)"

definition tokens :: "u32 list \<Rightarrow> i32 list \<Rightarrow> InstInfo list \<Rightarrow> results \<Rightarrow> nat set \<Rightarrow> ExecutionEngine \<Rightarrow> bool" where
  "tokens iw A ts rs G s \<longleftrightarrow>
     (\<forall>sg \<in># ee_work s. \<exists>m. token iw A ts m sg \<and> (rs ! m = None \<or> leaving G s sg))
     \<and> (\<forall>t. count (image_mset sg_rob_id (ee_work s)) t \<le> 1)"

definition lanes_ok :: "CdbArbiter \<Rightarrow> ExecutionEngine \<Rightarrow> LoadStoreQueue \<Rightarrow> bool" where
  "lanes_ok a s q \<longleftrightarrow> ee_mirror a s \<and> arb_num_producers a = length (ee_units s) + lq_num_cdb_ports q
     \<and> (\<forall>i < arb_num_producers a. arb_pending_valid a ! i \<longrightarrow> i < length (ee_units s))"

definition lsq_idle :: "LoadStoreQueue \<Rightarrow> bool" where
  "lsq_idle q \<longleftrightarrow> (\<forall>e \<in> set (lq_queue q). \<not> le_valid e)"

text \<open>An occupied station shows the operands of an instruction in flight that is not sent yet.\<close>

definition mirrors :: "RSEntry \<Rightarrow> InstInfo \<Rightarrow> bool" where
  "mirrors e i \<longleftrightarrow> ii_inst_id i = rse_inst_id e \<and> \<not> ii_dispatched_alu i
     \<and> rse_src1_ready e = ii_src1_ready i \<and> rse_src1_tag e = ii_src1_tag i
     \<and> rse_src2_ready e = ii_src2_ready i \<and> rse_src2_tag e = ii_src2_tag i"

definition stations :: "InstInfo list \<Rightarrow> ReservationStation \<Rightarrow> bool" where
  "stations ts q \<longleftrightarrow> (\<forall>e \<in> set (rs_stations q). rse_valid e \<longrightarrow> (\<exists>i \<in> set ts. mirrors e i))
     \<and> (\<forall>k. count (rs_ids q) k \<le> 1)"

text \<open>Where control goes after an instruction in flight, and after one in the front end.\<close>

definition ilink :: "InstInfo \<Rightarrow> u64 \<times> u64" where
  "ilink i = (ii_pc i, if ii_br_resolved i then ii_br_next_pc i
     else if ii_predicted_taken i then ii_predicted_target i else ii_fallthrough_pc i)"

definition flink :: "FetchedInstruction \<Rightarrow> u64 \<times> u64" where
  "flink f = (f_pc f, if f_predicted_taken f then f_predicted_target f else f_pc f + INSTR_SIZE)"

fun chain :: "u32 list \<Rightarrow> u64 \<Rightarrow> (u64 \<times> u64) list \<Rightarrow> u64 \<Rightarrow> bool" where
  "chain iw x [] q = nops iw x q"
| "chain iw x ((a, b) # xs) q = (nops iw x a \<and> chain iw b xs q)"

definition program_order :: "u32 list \<Rightarrow> i32 list \<Rightarrow> InstInfo list \<Rightarrow> FetchedInstruction list \<Rightarrow> u64 \<Rightarrow> bool" where
  "program_order iw A ts fs q \<longleftrightarrow> (\<exists>k pc. seq_steps iw k (replicate 32 0, 0) = Some (A, pc)
     \<and> chain iw pc (map ilink ts @ map flink fs) q)"

text \<open>A fetched word, before and after decode.\<close>

definition fetched :: "u32 list \<Rightarrow> FetchedInstruction \<Rightarrow> bool" where
  "fetched iw f \<longleftrightarrow> img_word iw (f_pc f) = Some (f_raw_instr f)
     \<and> (let u = decodeInstruction (f_raw_instr f) (f_pc f) in
       (f_predicted_taken f \<longrightarrow> control_uop u)
       \<and> (f_has_uop f \<longrightarrow> f_imm f = u_imm u
           \<and> f_uop f = u\<lparr>u_pred_taken := f_predicted_taken f, u_pred_target := f_predicted_target f\<rparr>))"

definition front_ok :: "u32 list \<Rightarrow> DispatchReg \<Rightarrow> InstructionFetchQueue \<Rightarrow> bool" where
  "front_ok iw d q \<longleftrightarrow> dr_wf d \<and> ifq_wf q \<and> (\<forall>f \<in> set (dr_contents d). fetched iw f \<and> f_has_uop f)
     \<and> (\<forall>f \<in> set (ifq_contents q). fetched iw f \<and> \<not> f_has_uop f)"

definition fetch_ok :: "u32 list \<Rightarrow> Processor \<Rightarrow> bool" where
  "fetch_ok iw p \<longleftrightarrow> (p_fetch_halted p \<longrightarrow> img iw (p_fetch_pc p) = None)
     \<and> (p_imem_req_outstanding p \<longrightarrow> \<not> p_fetch_halted p \<and> p_ideal_fetch_pc p = p_fetch_pc p)"

definition hex_env :: "u32 list \<Rightarrow> Processor \<Rightarrow> bool" where
  "hex_env iw p \<longleftrightarrow> p_hex_mode p \<and> p_imem p = iw \<and> kind (p_memsys p) = Some Ideal \<and> cfg_num_regs (p_config p) = 32"

text \<open>
  The instructions in flight: \<open>P\<close> are the wake-ups still to come, \<open>G\<close> the slots about to be
  drained. The whole adds the arbiter, the instructions \<open>fs\<close> of the front end and fetch.
\<close>

definition inflight :: "u32 list \<Rightarrow> nat \<Rightarrow> wakeups \<Rightarrow> nat set \<Rightarrow> Processor \<Rightarrow> bool" where
  "inflight iw n P G p \<longleftrightarrow> memory_free iw \<and> hex_env iw p
     \<and> in_order (cfg_rob_size (p_config p)) (p_rob p) (p_inst_table p)
     \<and> dataflow iw (p_arf p) (p_inst_table p) (results (p_rob p)) P
     \<and> ids_ok n (p_next_inst_id p) (p_inst_table p)
     \<and> renamed (cfg_rob_size (p_config p)) (p_rat p) (p_rat_ckpts p) (p_inst_table p)
     \<and> tokens iw (p_arf p) (p_inst_table p) (results (p_rob p)) G (p_ee p)
     \<and> lsq_idle (p_lsq p) \<and> stations (p_inst_table p) (p_rs p)"

definition flow :: "u32 list \<Rightarrow> nat \<Rightarrow> wakeups \<Rightarrow> nat set \<Rightarrow> FetchedInstruction list \<Rightarrow> Processor \<Rightarrow> bool" where
  "flow iw n P G fs p \<longleftrightarrow> inflight iw n P G p \<and> lanes_ok (p_cdb_arbiter p) (p_ee p) (p_lsq p)
     \<and> program_order iw (p_arf p) (p_inst_table p) fs (p_fetch_pc p)
     \<and> front_ok iw (p_dispatch_reg p) (p_ifq p) \<and> fetch_ok iw p"

lemmas flow_defs = flow_def inflight_def

abbreviation front :: "Processor \<Rightarrow> FetchedInstruction list" where
  "front p \<equiv> dr_contents (p_dispatch_reg p) @ ifq_contents (p_ifq p)"

text \<open>Tags freed in this cycle are not in flight; this holds until rename may use them again.\<close>

definition freed_ok :: "Processor \<Rightarrow> bool" where
  "freed_ok p \<longleftrightarrow> (\<forall>i \<in> set (p_inst_table p). ii_rob_id i \<notin> set (p_freed_rob_tags p))"

section \<open>Chains\<close>

lemma chain_nops: "nops iw x y \<Longrightarrow> chain iw y xs q \<Longrightarrow> chain iw x xs q"
  by (cases xs) (auto intro: nops_trans)

lemma chain_append: "chain iw x (xs @ ys) q \<longleftrightarrow> (\<exists>y. chain iw x xs y \<and> chain iw y ys q)"
proof (induction xs arbitrary: x)
  case Nil
  show ?case by (simp, blast intro: chain_nops nops_refl)
next
  case (Cons a xs)
  then show ?case by (cases a) auto
qed

lemma chain_snoc: "chain iw x xs a \<Longrightarrow> chain iw x (xs @ [(a, b)]) b"
  by (auto simp: chain_append intro: nops_refl)

section \<open>The reorder buffer and the table\<close>

lemma in_orderD:
  assumes "in_order depth r ts"
  shows "rob_wf r" "rob_capacity r = depth" "length (rob_abs r) = length ts" "rob_active_count r = length ts"
    "length (results r) = length ts" "j < length ts \<Longrightarrow> fst (rob_abs r ! j) = ii_rob_id (ts ! j)"
    "j < length ts \<Longrightarrow> fst (snd (snd (rob_abs r ! j))) = ii_dest_reg (ts ! j)"
    "j < length ts \<Longrightarrow> rob_slot r j = ii_rob_id (ts ! j)"
proof -
  have m: "map (\<lambda>x. (fst x, fst (snd (snd x)))) (rob_abs r) = map (\<lambda>i. (ii_rob_id i, ii_dest_reg i)) ts"
    using assms by (simp add: in_order_def)
  show l: "length (rob_abs r) = length ts" using map_eq_imp_length_eq [OF m] .
  then show "rob_active_count r = length ts" "length (results r) = length ts" by (simp_all add: results_def)
  have "(fst (rob_abs r ! j), fst (snd (snd (rob_abs r ! j)))) = (ii_rob_id (ts ! j), ii_dest_reg (ts ! j))"
    if "j < length ts" for j
    using arg_cong [OF m, of "\<lambda>xs. xs ! j"] that l by simp
  then show "j < length ts \<Longrightarrow> fst (rob_abs r ! j) = ii_rob_id (ts ! j)"
      "j < length ts \<Longrightarrow> fst (snd (snd (rob_abs r ! j))) = ii_dest_reg (ts ! j)" by simp_all
  then show "j < length ts \<Longrightarrow> rob_slot r j = ii_rob_id (ts ! j)"
    using fst_nth_rob_abs [of j r] l by simp
qed (use assms in \<open>simp_all add: in_order_def\<close>)

lemma in_order_same: "in_order depth r ts \<Longrightarrow>
    map (\<lambda>i. (ii_rob_id i, ii_dest_reg i)) ts' = map (\<lambda>i. (ii_rob_id i, ii_dest_reg i)) ts \<Longrightarrow> in_order depth r ts'"
  by (simp add: in_order_def)

lemma results_nth:
  assumes "in_order depth r ts" "j < length ts"
  shows "results r ! j = (if rob_isReady r (ii_rob_id (ts ! j)) then Some (rob_getValue r (ii_rob_id (ts ! j))) else None)"
proof -
  have j: "j < rob_active_count r" using in_orderD(4) [OF assms(1)] assms(2) by simp
  have "results r ! j = snd (snd (snd (rob_abs r ! j)))" using j by (simp add: results_def)
  then show ?thesis
    using nth_rob_abs [OF j] in_orderD(8) [OF assms] by (simp add: Let_def rob_isReady_def rob_getValue_def)
qed

lemma in_order_write:
  assumes io: "in_order depth r ts" and m: "m < length ts" and w: "rob_writeResult (ii_rob_id (ts ! m)) v r = Some r'"
  shows "in_order depth r' ts" "results r' = (results r)[m := Some v]"
proof -
  note d = in_orderD [OF io]
  have t: "ii_rob_id (ts ! m) < rob_capacity r" using d(8) [OF m] rob_slot_less [OF d(1), of m] by simp
  obtain r1 where r1: "rob_writeResult (ii_rob_id (ts ! m)) v r = Some r1" "rob_wf r1"
      "rob_abs r1 = set_result (ii_rob_id (ts ! m)) v (rob_abs r)" "rob_capacity r1 = rob_capacity r"
    using rob_write_ok [OF d(1) t] by blast
  then have r': "rob_wf r'" "rob_abs r' = set_result (ii_rob_id (ts ! m)) v (rob_abs r)" "rob_capacity r' = rob_capacity r"
    using w by simp_all
  have "map (\<lambda>x. (fst x, fst (snd (snd x)))) (rob_abs r') = map (\<lambda>x. (fst x, fst (snd (snd x)))) (rob_abs r)"
    by (simp add: r'(2) set_result_def case_prod_beta)
  with io r' show "in_order depth r' ts" by (simp add: in_order_def)
  show "results r' = (results r)[m := Some v]"
  proof (rule nth_equalityI)
    fix j assume "j < length (results r')"
    then have j: "j < length ts" "j < length (rob_abs r)" using d(3) by (simp_all add: results_def r'(2) set_result_def)
    have c: "length ts \<le> rob_capacity r" using d(1,4) by (simp add: rob_wf_def)
    have "ii_rob_id (ts ! j) = ii_rob_id (ts ! m) \<longleftrightarrow> j = m"
      using rob_slot_inj [OF d(1), of j m] d(8) [OF m] d(8) [OF j(1)] j(1) m c by simp
    then have e: "fst (rob_abs r ! j) = ii_rob_id (ts ! m) \<longleftrightarrow> j = m" using d(6) [OF j(1)] by simp
    show "results r' ! j = (results r)[m := Some v] ! j"
      using e j m d(3) by (cases "j = m") (simp_all add: results_def r'(2) set_result_def case_prod_beta)
  qed (simp add: results_def r'(2) set_result_def)
qed

lemma in_order_commit:
  assumes io: "in_order depth r ts" and c: "rob_commit r = Some ((d, v, t), r')"
  shows "\<exists>i ts' rs. ts = i # ts' \<and> ii_rob_id i = t \<and> ii_dest_reg i = d \<and> in_order depth r' ts'
    \<and> results r = Some v # rs \<and> results r' = rs"
proof -
  note wf = in_orderD(1,2) [OF io]
  obtain x q where q: "rob_abs r = x # q" using rob_commit_ok [OF wf(1)] c by (cases "rob_abs r") simp_all
  obtain t1 op d1 y where x: "x = (t1, op, d1, y)" by (cases x)
  obtain v1 where y: "y = Some v1" using rob_commit_ok [OF wf(1)] c q x by (cases y) simp_all
  then have "rob_commit r = Some ((d1, v1, t1), r') \<and> rob_wf r' \<and> rob_abs r' = q \<and> rob_capacity r' = rob_capacity r"
    using rob_commit_ok [OF wf(1)] c q x by auto
  then have r': "d1 = d" "v1 = v" "t1 = t" "rob_wf r'" "rob_abs r' = q" "rob_capacity r' = rob_capacity r" using c by simp_all
  obtain i ts' where ts: "ts = i # ts'" using in_orderD(3) [OF io] q by (cases ts) simp_all
  show ?thesis using io r' q x y wf ts by (simp add: in_order_def results_def)
qed

lemma in_order_dispatch:
  assumes io: "in_order depth r ts" and s: "rob_hasSpace r" and d: "rob_dispatch op d r = Some (Some t, r')"
  shows "t < depth" "t \<notin> ii_rob_id ` set ts" "results r' = results r @ [None]"
    "ii_rob_id i = t \<Longrightarrow> ii_dest_reg i = d \<Longrightarrow> in_order depth r' (ts @ [i])"
    "\<forall>x. x \<in> ii_rob_id ` set ts \<longrightarrow> rob_isReady r' x = rob_isReady r x \<and> rob_getValue r' x = rob_getValue r x"
proof -
  note wf = in_orderD [OF io]
  have n: "rob_active_count r < rob_capacity r" using s by (simp add: rob_hasSpace_def)
  obtain r1 where "rob_dispatch op d r = Some (Some (rob_tail r), r1)" "rob_wf r1"
      "rob_abs r1 = rob_abs r @ [(rob_tail r, op, d, None)]" "rob_capacity r1 = rob_capacity r"
    using rob_dispatch_ok [OF wf(1) n] by blast
  with d have r': "rob_tail r = t" "rob_wf r'" "rob_abs r' = rob_abs r @ [(t, op, d, None)]" "rob_capacity r' = rob_capacity r"
    by simp_all
  show "results r' = results r @ [None]" by (simp add: results_def r'(3))
  have t: "t = rob_slot r (length ts)" using r'(1) wf(1,4) by (simp add: rob_wf_def rob_slot_def)
  show "t < depth" using t rob_slot_less [OF wf(1)] wf(2) by simp
  have c: "length ts < rob_capacity r" using n wf(4) by simp
  have ne: "ii_rob_id (ts ! j) \<noteq> t" if "j < length ts" for j
    using that rob_slot_inj [OF wf(1), of j "length ts"] wf(8) [OF that] c t by simp
  then show nt: "t \<notin> ii_rob_id ` set ts" by (metis imageE in_set_conv_nth)
  show "ii_rob_id i = t \<Longrightarrow> ii_dest_reg i = d \<Longrightarrow> in_order depth r' (ts @ [i])"
    using io r' by (simp add: in_order_def)
  have "rob_isReady r' x = rob_isReady r x \<and> rob_getValue r' x = rob_getValue r x" if "x \<noteq> t" for x
    using d that r'(1) by (auto simp: rob_dispatch_def Let_def rob_isReady_def rob_getValue_def split: if_splits)
  then show "\<forall>x. x \<in> ii_rob_id ` set ts \<longrightarrow> rob_isReady r' x = rob_isReady r x \<and> rob_getValue r' x = rob_getValue r x"
    using nt by metis
qed

lemma take_map_eq: "map f xs = map g ys \<Longrightarrow> map f (take k xs) = map g (take k ys)"
  by (simp only: take_map [symmetric])

lemma in_order_squash:
  assumes io: "in_order depth r ts" and m: "m < length ts"
    and s: "rob_squashYoungerThan (ii_rob_id (ts ! m)) r = Some (k, r')"
  shows "in_order depth r' (take (Suc m) ts)" "results r' = take (Suc m) (results r)"
proof -
  note wf = in_orderD [OF io]
  obtain r1 where "rob_squashYoungerThan (rob_slot r m) r = Some (rob_active_count r - Suc m, r1)" "rob_wf r1"
      "rob_abs r1 = take (Suc m) (rob_abs r)" "rob_capacity r1 = rob_capacity r"
    using rob_squash_ok [OF wf(1), of m] m wf(4) by auto
  with s wf(8) [OF m] have r': "rob_wf r'" "rob_abs r' = take (Suc m) (rob_abs r)" "rob_capacity r' = rob_capacity r" by simp_all
  show "results r' = take (Suc m) (results r)" by (simp add: results_def r'(2) take_map)
  have "map (\<lambda>x. (fst x, fst (snd (snd x)))) (rob_abs r) = map (\<lambda>i. (ii_rob_id i, ii_dest_reg i)) ts"
    using io by (simp add: in_order_def)
  from take_map_eq [OF this] r' wf(2) show "in_order depth r' (take (Suc m) ts)" by (simp add: in_order_def)
qed

lemma younger_index:
  assumes io: "in_order depth r ts" and j: "j < length ts" "m < length ts"
  shows "rob_isYounger r (ii_rob_id (ts ! j)) (ii_rob_id (ts ! m)) = Some (m < j)"
proof -
  note wf = in_orderD [OF io]
  have c: "length ts \<le> rob_capacity r" using wf(1,4) by (simp add: rob_wf_def)
  show ?thesis
    using j c rob_slot_less [OF wf(1)] rob_slot_age [OF wf(1), of j] rob_slot_age [OF wf(1), of m]
    by (simp add: wf(8) [OF j(1), symmetric] wf(8) [OF j(2), symmetric] rob_isYounger_def ageFromHead_ring)
qed

section \<open>Renaming\<close>

lemma feeder_snoc: "feeder (ws @ [i]) (Suc (length ws)) r m \<longleftrightarrow>
    (if writes i r then m = length ws else feeder ws (length ws) r m)"
proof -
  let ?n = "length ws"
  have l: "(ws @ [i]) ! ?n = i" by simp
  have "feeder (ws @ [i]) (Suc ?n) r m \<longleftrightarrow> (if m = ?n then writes i r else feeder (ws @ [i]) ?n r m \<and> \<not> writes i r)"
  proof (cases "m = ?n")
    case True
    then show ?thesis by (auto simp: feeder_def)
  next
    case False
    have "(\<forall>x. m < x \<and> x < Suc ?n \<longrightarrow> \<not> writes ((ws @ [i]) ! x) r)
      \<longleftrightarrow> (\<forall>x. m < x \<and> x < ?n \<longrightarrow> \<not> writes ((ws @ [i]) ! x) r) \<and> (m < ?n \<longrightarrow> \<not> writes i r)"
      using l by (metis less_Suc_eq)
    moreover have "m < Suc ?n \<longleftrightarrow> m < ?n" using False by linarith
    ultimately show ?thesis using False by (auto simp: feeder_def)
  qed
  moreover have "\<not> feeder ws ?n r ?n" by (simp add: feeder_def)
  ultimately show ?thesis by (simp add: feeder_append)
qed

lemma writer_feeder:
  assumes "\<forall>i \<in> set ws. entry_ok iw i" "0 < r"
  shows "case writer (nat r) (map flight ws) of
      None \<Rightarrow> \<forall>i \<in> set ws. \<not> writes i r
    | Some t \<Rightarrow> \<exists>m. feeder ws (length ws) r m \<and> t = ii_rob_id (ws ! m)"
  using assms(1)
proof (induction ws rule: rev_induct)
  case (snoc i ws)
  have w: "0 < ii_dest_reg i \<and> ii_dest_reg i = int (nat r) \<longleftrightarrow> writes i r"
    using snoc.prems entry_dest [of iw i] assms(2) by (auto simp: writes_def)
  have wr: "writer (nat r) (map flight (ws @ [i])) = (if writes i r then Some (ii_rob_id i) else writer (nat r) (map flight ws))"
    using w writer_snoc [of "nat r" "map flight ws" "ii_rob_id i" "ii_dest_reg i" "isControl i"] by (simp add: flight_def)
  have f: "feeder (ws @ [i]) (length (ws @ [i])) r m \<longleftrightarrow> (if writes i r then m = length ws else feeder ws (length ws) r m)" for m
    using feeder_snoc by simp
  show ?case
  proof (cases "writes i r")
    case True
    then show ?thesis unfolding wr f by simp
  next
    case False
    have ih: "case writer (nat r) (map flight ws) of None \<Rightarrow> \<forall>i \<in> set ws. \<not> writes i r
      | Some t \<Rightarrow> \<exists>m. feeder ws (length ws) r m \<and> t = ii_rob_id (ws ! m)" using snoc by simp
    show ?thesis
    proof (cases "writer (nat r) (map flight ws)")
      case None
      with ih False wr show ?thesis by simp
    next
      case (Some t)
      then obtain m where m: "feeder ws (length ws) r m" "t = ii_rob_id (ws ! m)" using ih by auto
      then have "(ws @ [i]) ! m = ws ! m" by (simp add: feeder_def nth_append)
      moreover have "feeder (ws @ [i]) (length (ws @ [i])) r m" unfolding f using False m(1) by simp
      ultimately have "\<exists>m. feeder (ws @ [i]) (length (ws @ [i])) r m \<and> t = ii_rob_id ((ws @ [i]) ! m)" using m(2) by metis
      with Some False wr show ?thesis by simp
    qed
  qed
qed simp

lemma renamed_lookup:
  assumes rn: "renamed depth rt ck ts" and df: "dataflow iw A ts rs P" and r: "0 < r" "r < 32"
  shows "case rat_lookup rt r of
      None \<Rightarrow> reg (regs_at iw A ts) r = A ! nat r
    | Some t \<Rightarrow> \<exists>m. feeder ts (length ts) r m \<and> t = ii_rob_id (ts ! m)"
proof -
  have e: "\<forall>i \<in> set ts. entry_ok iw i" using dataflowD(5) [OF df] by blast
  have l: "rat_lookup rt r = writer (nat r) (map flight ts)"
    using rn r by (simp add: renamed_def rn_inv_def rat_lookup_def)
  note w = writer_feeder [OF e r(1)]
  show ?thesis
  proof (cases "rat_lookup rt r")
    case None
    then have "\<forall>i \<in> set ts. \<not> writes i r" using w l by simp
    then have "reg (regs_at iw A ts) r = reg A r" by (rule reg_no_writer [OF e])
    with None r dataflowD(1) [OF df] show ?thesis by (simp add: reg_def)
  next
    case (Some t)
    then show ?thesis using w l by simp
  qed
qed

text \<open>An operand read at rename is the interpreter's value, or waits for its producer.\<close>

lemma resolve_ok:
  assumes rn: "renamed depth (p_rat p) ck ts" and df: "dataflow iw (p_arf p) ts rs P"
    and nr: "cfg_num_regs (p_config p) = 32" and r: "r < 32"
    and rob: "\<And>j. j < length ts \<Longrightarrow> rs ! j = (if rob_isReady (p_rob p) (ii_rob_id (ts ! j))
       then Some (rob_getValue (p_rob p) (ii_rob_id (ts ! j))) else None)"
  shows "case resolveOperand r p of (rdy, t, v) \<Rightarrow>
    (if rdy then v = reg (regs_at iw (p_arf p) ts) r else waits iw (p_arf p) ts rs P (length ts) r t)"
proof (cases "r \<le> 0")
  case True
  then show ?thesis by (simp add: resolveOperand_def reg_def)
next
  case False
  then have r0: "0 < r" by simp
  note lk = renamed_lookup [OF rn df r0 r]
  have res: "resolveOperand r p = (case rat_lookup (p_rat p) r of
        None \<Rightarrow> (True, None, p_arf p ! nat r)
      | Some t \<Rightarrow> if rob_isReady (p_rob p) t then (True, Some t, rob_getValue (p_rob p) t) else (False, Some t, 0))"
    using False r nr by (simp add: resolveOperand_def)
  show ?thesis
  proof (cases "rat_lookup (p_rat p) r")
    case None
    with lk res show ?thesis by simp
  next
    case (Some t)
    then obtain m where m: "feeder ts (length ts) r m" "t = ii_rob_id (ts ! m)" using lk by auto
    then have ml: "m < length ts" by (simp add: feeder_def)
    show ?thesis
    proof (cases "rob_isReady (p_rob p) t")
      case True
      then have "rs ! m = Some (rob_getValue (p_rob p) t)" using rob [OF ml] m(2) by simp
      then have "rob_getValue (p_rob p) t = val_at iw (p_arf p) ts m" using dataflowD(7) [OF df ml] by (simp add: progress_def)
      also have "\<dots> = reg (regs_at iw (p_arf p) ts) r"
        using reg_feeder [OF _ dataflowD(1) [OF df] m(1) order_refl] dataflowD(5) [OF df] by simp
      finally show ?thesis using True Some res by simp
    next
      case False
      then have "rs ! m = None" using rob [OF ml] m(2) by simp
      with m False Some res show ?thesis by (auto simp: waits_def)
    qed
  qed
qed

end
