(* ===== verification/FlowCommit.thy ===== *)
theory FlowCommit
  imports FlowInv
begin

text \<open>
  The start of a cycle and commit keep the invariant of the data flow: wake-ups deliver values
  that are waited for, and an instruction that retires writes what the interpreter writes.
\<close>

section \<open>Changing fields of the table\<close>

lemma flowD:
  assumes "flow iw n P G fs p"
  shows "memory_free iw" "hex_env iw p" "in_order (cfg_rob_size (p_config p)) (p_rob p) (p_inst_table p)"
    "dataflow iw (p_arf p) (p_inst_table p) (results (p_rob p)) P" "ids_ok n (p_next_inst_id p) (p_inst_table p)"
    "renamed (cfg_rob_size (p_config p)) (p_rat p) (p_rat_ckpts p) (p_inst_table p)"
    "tokens iw (p_arf p) (p_inst_table p) (results (p_rob p)) G (p_ee p)"
    "lanes_ok (p_cdb_arbiter p) (p_ee p) (p_lsq p)" "lsq_idle (p_lsq p)" "stations (p_inst_table p) (p_rs p)"
    "program_order iw (p_arf p) (p_inst_table p) fs (p_fetch_pc p)" "front_ok iw (p_dispatch_reg p) (p_ifq p)" "fetch_ok iw p"
  using assms by (simp_all add: flow_defs)

lemma inflightD:
  assumes "inflight iw n P G p"
  shows "memory_free iw" "hex_env iw p" "in_order (cfg_rob_size (p_config p)) (p_rob p) (p_inst_table p)"
    "dataflow iw (p_arf p) (p_inst_table p) (results (p_rob p)) P" "ids_ok n (p_next_inst_id p) (p_inst_table p)"
    "renamed (cfg_rob_size (p_config p)) (p_rat p) (p_rat_ckpts p) (p_inst_table p)"
    "tokens iw (p_arf p) (p_inst_table p) (results (p_rob p)) G (p_ee p)"
    "lsq_idle (p_lsq p)" "stations (p_inst_table p) (p_rs p)"
  using assms by (simp_all add: inflight_def)

lemma flow_stats [simp]: "flow iw n P G fs (upd_stats f p) = flow iw n P G fs p"
  by (simp add: flow_defs upd_stats_def hex_env_def fetch_ok_def)

lemma flow_other [simp]:
  "flow iw n P G fs (p\<lparr>p_freed_rob_tags := fr\<rparr>) = flow iw n P G fs p"
  "flow iw n P G fs (p\<lparr>p_cdb_wakeup_pending := w\<rparr>) = flow iw n P G fs p"
  "flow iw n P G fs (p\<lparr>p_predictor := g\<rparr>) = flow iw n P G fs p"
  "flow iw n P G fs (p\<lparr>p_ras := s\<rparr>) = flow iw n P G fs p"
  "flow iw n P G fs (p\<lparr>p_mem := mm\<rparr>) = flow iw n P G fs p"
  "flow iw n P G fs (p\<lparr>p_stats := st\<rparr>) = flow iw n P G fs p"
  "flow iw n P G fs (p\<lparr>p_cycle_count := c\<rparr>) = flow iw n P G fs p"
  by (simp_all add: flow_defs hex_env_def fetch_ok_def)

lemma entry_flags: "entry_ok iw i \<Longrightarrow> \<not> ii_is_load i \<and> \<not> ii_is_store i \<and> ii_has_uop i \<and> isControl i = control_uop (uo iw i)"
  by (simp add: entry_ok_def isControl_def Let_def)

lemma ids_ok_same: "ids_ok n nx ts \<Longrightarrow> map ii_inst_id ts' = map ii_inst_id ts \<Longrightarrow> ids_ok n nx ts'"
proof -
  assume a: "ids_ok n nx ts" "map ii_inst_id ts' = map ii_inst_id ts"
  have all: "(\<forall>i \<in> set xs. ii_inst_id i < nx) \<longleftrightarrow> (\<forall>x \<in> set (map ii_inst_id xs). x < nx)" for xs by simp
  show ?thesis using a(1) unfolding ids_ok_def all a(2) .
qed

lemma renamed_same: "renamed depth rt ck ts \<Longrightarrow> map flight ts' = map flight ts \<Longrightarrow> renamed depth rt ck ts'"
  by (simp add: renamed_def)

lemma program_order_same: "program_order iw A ts fs q \<Longrightarrow> map ilink ts' = map ilink ts \<Longrightarrow> program_order iw A ts' fs q"
  by (simp add: program_order_def)

lemma tokens_table:
  assumes tk: "tokens iw A ts rs G s" and st: "map stat ts' = map stat ts"
    and same: "\<And>m. m < length ts \<Longrightarrow> (ii_dispatched_alu (ts ! m) \<longrightarrow> ii_dispatched_alu (ts' ! m))
      \<and> isControl (ts' ! m) = isControl (ts ! m) \<and> ii_is_jump (ts' ! m) = ii_is_jump (ts ! m)"
  shows "tokens iw A ts' rs G s"
proof -
  have l: "length ts' = length ts" using map_eq_imp_length_eq [OF st] .
  have "token iw A ts' m sg" if t: "token iw A ts m sg" for m sg
  proof -
    have m: "m < length ts" using t by (simp add: token_def)
    show ?thesis
      using t same [OF m] stat_nth [OF st m] val_at_stat [OF st m, of iw A] l by (simp add: token_def)
  qed
  then show ?thesis using tk unfolding tokens_def by blast
qed

section \<open>Wake-up\<close>

lemma stations_wake:
  assumes st: "stations ts q" and nc: "\<And>i. i \<in> set ts \<Longrightarrow> ii_completed i \<Longrightarrow> ii_dispatched_alu i"
  shows "stations (map (wake_info t v) ts) (rs_updateFromCDB t v q)"
proof -
  have m: "mirrors (wake2 t v (wake1 t v e)) (wake_info t v i)" if "mirrors e i" "i \<in> set ts" for e i
    using that nc [of i] by (auto simp: mirrors_def wake_info_def wake_src_def wake1_def wake2_def Let_def)
  have "\<exists>i \<in> set (map (wake_info t v) ts). mirrors e i"
    if e: "e \<in> set (rs_stations (rs_updateFromCDB t v q))" "rse_valid e" for e
  proof -
    obtain e0 where e0: "e0 \<in> set (rs_stations q)" "e = (if rse_valid e0 then wake2 t v (wake1 t v e0) else e0)"
      using e(1) by (auto simp: rs_updateFromCDB_def)
    then have "rse_valid e0" using e(2) by (simp split: if_splits)
    then obtain i where "i \<in> set ts" "mirrors e0 i" using st e0(1) by (auto simp: stations_def)
    with m e0(2) \<open>rse_valid e0\<close> show ?thesis by auto
  qed
  then show ?thesis using st by (simp add: stations_def)
qed

lemma flow_wake:
  assumes fl: "flow iw n ((t, v) # P) G fs p"
  shows "flow iw n P G fs (apply_wakeup (t, v) p)"
proof -
  note d = flowD [OF fl]
  let ?ts = "p_inst_table p" and ?ts' = "map (wake_info t v) (p_inst_table p)"
  note sh = wake_info_shape [where t = t and v = v] and fg = wake_info_flags [where t = t and v = v]
  have "filter (wakes_store t) ?ts = []"
    using entry_flags dataflowD(5) [OF d(4)] by (fastforce simp: filter_empty_conv wakes_store_def)
  then have p': "apply_wakeup (t, v) p = p\<lparr>p_rs := rs_updateFromCDB t v (p_rs p), p_inst_table := ?ts'\<rparr>"
    by (simp add: apply_wakeup_def updateInstOperandsFromCDB_def)
  have "map (\<lambda>i. (ii_rob_id i, ii_dest_reg i)) ?ts' = map (\<lambda>i. (ii_rob_id i, ii_dest_reg i)) ?ts" using sh by simp
  note 1 = in_order_same [OF d(3) this]
  have "map ii_inst_id ?ts' = map ii_inst_id ?ts" using sh by simp
  note 2 = ids_ok_same [OF d(5) this]
  have "flight (wake_info t v i) = flight i" for i using sh [where i = i] isControl_shape [OF sh [where i = i]] by (simp add: flight_def)
  then have "map flight ?ts' = map flight ?ts" by simp
  note 3 = renamed_same [OF d(6) this]
  have "ilink (wake_info t v i) = ilink i" for i using sh [where i = i] fg [where i = i] by (simp add: ilink_def)
  then have "map ilink ?ts' = map ilink ?ts" by simp
  note 4 = program_order_same [OF d(11) this]
  have "map stat ?ts' = map stat ?ts" using sh by simp
  then have 5: "tokens iw (p_arf p) ?ts' (results (p_rob p)) G (p_ee p)"
  proof (rule tokens_table [OF d(7)])
    fix m assume "m < length ?ts"
    then show "(ii_dispatched_alu (?ts ! m) \<longrightarrow> ii_dispatched_alu (?ts' ! m))
      \<and> isControl (?ts' ! m) = isControl (?ts ! m) \<and> ii_is_jump (?ts' ! m) = ii_is_jump (?ts ! m)"
      using fg(1) sh [where i = "?ts ! m"] isControl_shape [OF sh [where i = "?ts ! m"]] by simp
  qed
  have "ii_dispatched_alu i" if "i \<in> set ?ts" "ii_completed i" for i
    using that dataflowD(7) [OF d(4)] by (auto simp: in_set_conv_nth progress_def)
  note 6 = stations_wake [OF d(10) this]
  note 7 = dataflow_wake [OF d(4)]
  have "hex_env iw (apply_wakeup (t, v) p)" "fetch_ok iw (apply_wakeup (t, v) p)" 
    using d(2,13) by (simp_all add: p' hex_env_def fetch_ok_def)
  with 1 2 3 4 5 6 7 d(1,8,9,12) show ?thesis by (simp add: flow_defs p')
qed

lemma flow_wakes: "flow iw n (P @ P') G fs p \<Longrightarrow> flow iw n P' G fs (fold apply_wakeup P p)"
proof (induction P arbitrary: p)
  case (Cons w P)
  obtain t v where w: "w = (t, v)" by fastforce
  have "flow iw n (P @ P') G fs (apply_wakeup (t, v) p)" by (rule flow_wake) (use Cons.prems w in simp)
  from Cons.IH [OF this] show ?case by (simp add: w)
qed simp

lemma wake_frame_front:
  "p_dispatch_reg (fold apply_wakeup P p) = p_dispatch_reg p \<and> p_ifq (fold apply_wakeup P p) = p_ifq p"
  by (induction P arbitrary: p) (simp_all add: apply_wakeup_def updateInstOperandsFromCDB_def case_prod_beta)

lemma flow_start_cycle:
  assumes "flow iw n (p_cdb_wakeup_pending p) {} (front p) p"
  shows "flow iw n [] {} (front (start_cycle p)) (start_cycle p) \<and> freed_ok (start_cycle p)
    \<and> p_cdb_wakeup_pending (start_cycle p) = []"
proof -
  let ?p = "upd_stats (\<lambda>s. s\<lparr>st_cycles := p_cycle_count p + 1\<rparr>) (p\<lparr>p_cycle_count := p_cycle_count p + 1\<rparr>)"
  have q: "p_cdb_wakeup_pending ?p = p_cdb_wakeup_pending p" "p_dispatch_reg ?p = p_dispatch_reg p" "p_ifq ?p = p_ifq p"
    by (simp_all add: upd_stats_def)
  have "flow iw n (p_cdb_wakeup_pending p @ []) {} (front p) ?p" using assms by simp
  note f = flow_wakes [OF this]
  have "front (start_cycle p) = front p"
    using wake_frame_front [of "p_cdb_wakeup_pending p" ?p] q by (simp add: start_cycle_def Let_def)
  moreover have "flow iw n [] {} (front p) (start_cycle p)" using f q(1) by (simp add: start_cycle_def Let_def)
  ultimately show ?thesis by (simp add: start_cycle_def Let_def freed_ok_def)
qed
section \<open>Commit\<close>

lemma no_store_permissions: "\<forall>i \<in> set (p_inst_table p). \<not> ii_is_store i \<Longrightarrow> store_permissions ts p = []"
  using found_rob by (induction ts) (fastforce split: option.split)+

lemma flow_no_stores: "flow iw n P G fs p \<Longrightarrow> \<forall>i \<in> set (p_inst_table p). \<not> ii_is_store i"
  using entry_flags dataflowD(5) flowD(4) by blast

lemma flow_store_buffer: "flow iw n P G fs p \<Longrightarrow> processStoreBuffer p = Some p"
  using no_store_permissions [OF flow_no_stores]
  by (simp add: processStoreBuffer_def storeCommitPermissions_def lsq_enqueueStores_def)

lemma renamed_commit:
  assumes rn: "renamed depth rt ck (i # ts)"
    and c: "c = (if 0 < ii_dest_reg i \<and> ii_dest_reg i < 32 then ck_onCommitClear (ii_dest_reg i) (ii_rob_id i) ck else ck)"
  shows "renamed depth (if 0 < ii_dest_reg i \<and> ii_dest_reg i < 32 then rat_commit (ii_dest_reg i) (ii_rob_id i) rt else rt)
      (if isControl i then ck_invalidate (ii_rob_id i) c else c) ts"
proof -
  let ?s = "\<lparr>rn_rat = rt, rn_ck = ck, rn_win = map flight (i # ts)\<rparr>"
  have "rat_num_logical_regs rt = 32" using rn by (simp add: renamed_def rn_inv_def)
  then have "rn_commit ?s = Some \<lparr>rn_rat =
      (if 0 < ii_dest_reg i \<and> ii_dest_reg i < 32 then rat_commit (ii_dest_reg i) (ii_rob_id i) rt else rt),
      rn_ck = (if isControl i then ck_invalidate (ii_rob_id i) c else c), rn_win = map flight ts\<rparr>"
    unfolding c by (simp only: rn_commit_def flight_def list.simps prod.case RenameSys.select_convs Let_def of_nat_numeral)
  from rn_inv_commit [OF rn [unfolded renamed_def] this] show ?thesis unfolding renamed_def .
qed

text \<open>Retiring the oldest instruction is a step of the interpreter.\<close>

lemma order_commit:
  assumes po: "program_order iw A (i # ts) fs q" and mf: "memory_free iw"
    and df: "dataflow iw A (i # ts) (Some v # rs) []"
  shows "program_order iw (uexec (uo iw i) (ii_pc i) A) ts fs q"
proof -
  note c = dataflow_commit [OF df]
  have pr: "progress iw A (i # ts) (Some v # rs) 0 i" using dataflowD(7) [OF df, of 0] by simp
  note e = c(4) [unfolded entry_ok_def Let_def]
  obtain k pc where k: "seq_steps iw k (replicate 32 0, 0) = Some (A, pc)"
      "chain iw pc (map ilink (i # ts) @ map flink fs) q" using po by (auto simp: program_order_def)
  then have ch: "nops iw pc (ii_pc i)" "chain iw (snd (ilink i)) (map ilink ts @ map flink fs) q"
    by (simp_all add: ilink_def)
  obtain k' where k': "seq_steps iw k' (replicate 32 0, 0) = Some (A, ii_pc i)"
    using seq_nops [OF ch(1) mf k(1)] by blast
  have u: "img iw (ii_pc i) = Some (uo iw i)" using e by (auto simp: uo_def)
  have "snd (ilink i) = unext (uo iw i) (ii_pc i) A"
  proof (cases "isControl i")
    case True
    then show ?thesis using pr c(3) by (simp add: ilink_def progress_def regs_at_simps)
  next
    case False
    then have "\<not> control_uop (uo iw i)" using entry_flags [OF c(4)] by simp
    moreover have "\<not> ii_br_resolved i" using pr False by (simp add: progress_def)
    ultimately show ?thesis using e by (simp add: ilink_def unext_def)
  qed
  with ch(2) have "chain iw (unext (uo iw i) (ii_pc i) A) (map ilink ts @ map flink fs) q" by simp
  moreover have "seq_steps iw (Suc k') (replicate 32 0, 0) = Some (uexec (uo iw i) (ii_pc i) A, unext (uo iw i) (ii_pc i) A)"
    using k' u by (simp add: seq_step_def)
  ultimately show ?thesis unfolding program_order_def by blast
qed

lemma tokens_commit:
  assumes tk: "tokens iw A (i # ts) (Some v # rs) {} s"
  shows "tokens iw (uexec (uo iw i) (ii_pc i) A) ts rs {} s"
proof -
  have "\<exists>m'. token iw (uexec (uo iw i) (ii_pc i) A) ts m' sg \<and> rs ! m' = None"
    if "token iw A (i # ts) m sg" "(Some v # rs) ! m = None" for m sg
    using that by (cases m) (auto simp: token_def val_at_Cons)
  then show ?thesis using tk by (fastforce simp: tokens_def leaving_def)
qed

lemma stations_commit: "stations (i # ts) q \<Longrightarrow> ii_dispatched_alu i \<Longrightarrow> stations ts q"
  by (auto simp: stations_def mirrors_def)

lemma commit_value:
  assumes df: "dataflow iw A (i # ts) (Some v # rs) []"
  shows "(if 0 < ii_dest_reg i \<and> ii_dest_reg i < 32 then A[nat (ii_dest_reg i) := v] else A) = uexec (uo iw i) (ii_pc i) A"
proof -
  note c = dataflow_commit [OF df]
  have "v = uvalue (uo iw i) (ii_pc i) A" using c(2) by (simp add: val_at_def regs_at_simps)
  with entry_dest [OF c(4)] wf_rd [OF entry_wf [OF c(4)]] show ?thesis by (auto simp: uexec_def)
qed

lemma commit_inst_fields:
  assumes c: "commit_inst i d v t p = Some p'" and i: "\<not> ii_is_load i" "\<not> ii_is_store i"
    and hit: "hit \<longleftrightarrow> 0 < d \<and> d < int (cfg_num_regs (p_config p))"
    and ck: "ck = (if hit then ck_onCommitClear d t (p_rat_ckpts p) else p_rat_ckpts p)"
  shows "\<exists>g st. p' = p\<lparr>p_arf := (if hit then (p_arf p)[nat d := v] else p_arf p),
      p_rat := (if hit then rat_commit d t (p_rat p) else p_rat p),
      p_rat_ckpts := (if isControl i then ck_invalidate t ck else ck), p_predictor := g, p_stats := st\<rparr>"
proof -
  have cd: "commit_dest d v t p = p\<lparr>p_arf := (if hit then (p_arf p)[nat d := v] else p_arf p),
      p_rat := (if hit then rat_commit d t (p_rat p) else p_rat p), p_rat_ckpts := ck\<rparr>"
    by (simp add: commit_dest_def hit ck)
  show ?thesis
  proof (cases "isControl i")
    case True
    then have "commit_control i t (commit_dest d v t p) = Some p'" using c i by (simp add: commit_inst_def Let_def)
    then obtain g where g: "p' = (upd_stats (\<lambda>s. s\<lparr>st_committed_branch := st_committed_branch s + 1\<rparr>) (commit_dest d v t p))
        \<lparr>p_predictor := g, p_rat_ckpts := ck_invalidate t (p_rat_ckpts (commit_dest d v t p))\<rparr>"
      by (auto simp: commit_control_def Let_def upd_stats_def split: bind_splits)
    show ?thesis
      by (rule exI [of _ g], rule exI [of _ "p_stats p'"]) (simp add: g cd upd_stats_def True)
  next
    case False
    then have p': "p' = upd_stats (count_alu i) (commit_dest d v t p)" using c i by (simp add: commit_inst_def Let_def)
    show ?thesis
      by (rule exI [of _ "p_predictor p"], rule exI [of _ "p_stats p'"]) (simp add: p' cd upd_stats_def False)
  qed
qed

lemma flow_commit_step:
  assumes fl: "flow iw n [] {} fs p" and fr: "freed_ok p" and rc: "rob_commit (p_rob p) = Some ((d, v, t), r)"
    and p1: "p1 = p\<lparr>p_rob := r, p_freed_rob_tags := p_freed_rob_tags p @ [t]\<rparr>"
  shows "\<exists>i. findInstByRobId t p1 = Some i \<and> (\<forall>p2. commit_inst i d v t p1 = Some p2 \<longrightarrow>
    (let p3 = p2\<lparr>p_inst_table := table_erase (ii_inst_id i) (p_inst_table p2)\<rparr> in
      flow iw n [] {} fs p3 \<and> freed_ok p3 \<and> p_dispatch_reg p3 = p_dispatch_reg p \<and> p_ifq p3 = p_ifq p
      \<and> p_cdb_wakeup_pending p3 = p_cdb_wakeup_pending p))"
proof -
  note D = flowD [OF fl]
  obtain i ts rs where ts: "p_inst_table p = i # ts" "ii_rob_id i = t" "ii_dest_reg i = d"
      and r: "in_order (cfg_rob_size (p_config p)) r ts" "results (p_rob p) = Some v # rs" "results r = rs"
    using in_order_commit [OF D(3) rc] by blast
  have df: "dataflow iw (p_arf p) (i # ts) (Some v # rs) []" using D(4) ts(1) r(2) by simp
  note c = dataflow_commit [OF df]
  have ids: "distinct (map ii_inst_id (i # ts))" "distinct (map ii_rob_id (i # ts))"
    using D(5) dataflowD(3) [OF df] ts(1) by (simp_all add: ids_ok_def)
  have f: "findInstByRobId t p1 = Some i" by (simp add: findInstByRobId_def p1 ts)
  have er: "table_erase (ii_inst_id i) (i # ts) = ts"
    using ids(1) by (auto simp: table_erase_def image_iff intro!: filter_True)
  have nr: "cfg_num_regs (p_config p) = 32" using D(2) by (simp add: hex_env_def)
  have dsp: "ii_dispatched_alu i" using dataflowD(7) [OF df, of 0] by (simp add: progress_def)
  have "let p3 = p2\<lparr>p_inst_table := table_erase (ii_inst_id i) (p_inst_table p2)\<rparr> in
      flow iw n [] {} fs p3 \<and> freed_ok p3 \<and> p_dispatch_reg p3 = p_dispatch_reg p \<and> p_ifq p3 = p_ifq p
      \<and> p_cdb_wakeup_pending p3 = p_cdb_wakeup_pending p"
    if p2: "commit_inst i d v t p1 = Some p2" for p2
  proof -
    let ?hit = "0 < d \<and> d < 32"
    let ?c = "if ?hit then ck_onCommitClear d t (p_rat_ckpts p) else p_rat_ckpts p"
    obtain g st where e: "p2 = p1\<lparr>p_arf := (if ?hit then (p_arf p)[nat d := v] else p_arf p),
        p_rat := (if ?hit then rat_commit d t (p_rat p) else p_rat p),
        p_rat_ckpts := (if isControl i then ck_invalidate t ?c else ?c), p_predictor := g, p_stats := st\<rparr>"
    proof -
      have h: "?hit \<longleftrightarrow> 0 < d \<and> d < int (cfg_num_regs (p_config p1))" by (simp add: p1 nr)
      have k: "?c = (if ?hit then ck_onCommitClear d t (p_rat_ckpts p1) else p_rat_ckpts p1)" by (simp add: p1)
      have il: "\<not> ii_is_load i" "\<not> ii_is_store i" using entry_flags [OF c(4)] by simp_all
      have "p_arf p1 = p_arf p" "p_rat p1 = p_rat p" by (simp_all add: p1)
      with commit_inst_fields [OF p2 il h k] that show ?thesis by metis
    qed
    let ?p3 = "p2\<lparr>p_inst_table := table_erase (ii_inst_id i) (p_inst_table p2)\<rparr>"
    have "p_arf ?p3 = (if ?hit then (p_arf p)[nat d := v] else p_arf p)" by (simp add: e)
    then have A: "p_arf ?p3 = uexec (uo iw i) (ii_pc i) (p_arf p)" using commit_value [OF df] unfolding ts(3) by (rule trans)
    have tb: "p_inst_table ?p3 = ts" using er ts(1) by (simp add: e p1)
    have rn: "renamed (cfg_rob_size (p_config p)) (p_rat ?p3) (p_rat_ckpts ?p3) ts"
    proof -
      have "p_rat ?p3 = (if ?hit then rat_commit d t (p_rat p) else p_rat p)"
          "p_rat_ckpts ?p3 = (if isControl i then ck_invalidate t ?c else ?c)" by (simp_all add: e)
      then show ?thesis using renamed_commit [OF D(6) [unfolded ts(1)] refl] unfolding ts(2,3) by (simp only:)
    qed
    have env: "hex_env iw ?p3" "fetch_ok iw ?p3" using D(2,13) by (simp_all add: e p1 hex_env_def fetch_ok_def)
    have io: "ids_ok n (p_next_inst_id p) ts" using D(5) ts(1) by (simp add: ids_ok_def)
    have "dataflow iw (p_arf ?p3) ts (results r) []" using c(1) A r(3) by simp
    moreover have "tokens iw (p_arf ?p3) ts (results r) {} (p_ee p)" using tokens_commit D(7) ts(1) r A by simp
    moreover have "program_order iw (p_arf ?p3) ts fs (p_fetch_pc p)"
      using order_commit [OF _ D(1) df] D(11) ts(1) A by simp
    moreover have "stations ts (p_rs p)" using stations_commit D(10) dsp ts(1) by simp
    ultimately have "flow iw n [] {} fs ?p3" using D(1,8,9,12) rn env io r(1) unfolding flow_defs tb by (simp add: e p1)
    moreover have "\<forall>j \<in> set ts. ii_rob_id j \<noteq> t" using ids(2) ts(2) by (metis distinct.simps(2) image_eqI list.set_map list.simps(9))
    then have "freed_ok ?p3" using fr ts(1) unfolding freed_ok_def tb by (simp add: e p1)
    ultimately show ?thesis by (simp add: e p1 Let_def)
  qed
  with f show ?thesis by blast
qed

lemma flow_commit_loop:
  "flow iw n [] {} (front p) p \<Longrightarrow> freed_ok p \<Longrightarrow> p_cdb_wakeup_pending p = [] \<Longrightarrow> commit_loop k p = Some p' \<Longrightarrow>
   flow iw n [] {} (front p') p' \<and> freed_ok p' \<and> p_cdb_wakeup_pending p' = []"
proof (induction k arbitrary: p)
  case (Suc k)
  show ?case
  proof (cases "rob_commit (p_rob p)")
    case (Some x)
    then obtain d v t r where x: "rob_commit (p_rob p) = Some ((d, v, t), r)" by (cases x) auto
    define p1 where "p1 = p\<lparr>p_rob := r, p_freed_rob_tags := p_freed_rob_tags p @ [t]\<rparr>"
    obtain i where i: "findInstByRobId t p1 = Some i"
        "\<And>p2. commit_inst i d v t p1 = Some p2 \<Longrightarrow> (let p3 = p2\<lparr>p_inst_table := table_erase (ii_inst_id i) (p_inst_table p2)\<rparr> in
          flow iw n [] {} (front p) p3 \<and> freed_ok p3 \<and> p_dispatch_reg p3 = p_dispatch_reg p \<and> p_ifq p3 = p_ifq p
          \<and> p_cdb_wakeup_pending p3 = p_cdb_wakeup_pending p)"
      using flow_commit_step [OF Suc.prems(1,2) x p1_def] by blast
    obtain p2 where p2: "commit_inst i d v t p1 = Some p2"
      using Suc.prems(4) x i(1) by (cases "commit_inst i d v t p1") (simp_all add: p1_def)
    let ?p3 = "p2\<lparr>p_inst_table := table_erase (ii_inst_id i) (p_inst_table p2)\<rparr>"
    let ?p4 = "upd_stats (\<lambda>s. s\<lparr>st_committed := st_committed s + 1\<rparr>) ?p3"
    have p3: "flow iw n [] {} (front p) ?p3" "freed_ok ?p3" "p_dispatch_reg ?p3 = p_dispatch_reg p" "p_ifq ?p3 = p_ifq p"
        "p_cdb_wakeup_pending ?p3 = []" using i(2) [OF p2] Suc.prems(3) by (simp_all add: Let_def)
    have "commit_loop k ?p4 = Some p'" using Suc.prems(4) x i(1) p2 by (simp add: p1_def Let_def)
    moreover have "flow iw n [] {} (front ?p4) ?p4"
    proof -
      have "front ?p4 = front p" using p3(3,4) by (simp add: upd_stats_def)
      then show ?thesis using p3(1) by simp
    qed
    moreover have "freed_ok ?p4" "p_cdb_wakeup_pending ?p4 = []"
      using p3(2,5) by (simp_all add: freed_ok_def upd_stats_def)
    ultimately show ?thesis using Suc.IH by blast
  qed (use Suc.prems in simp)
qed simp

lemma flow_commitStage:
  assumes "flow iw n [] {} (front p) p" "freed_ok p" "p_cdb_wakeup_pending p = []" "commitStage p = Some p'"
  shows "flow iw n [] {} (front p') p' \<and> freed_ok p' \<and> p_cdb_wakeup_pending p' = []"
proof -
  have "commit_loop (cfg_width (p_config p)) p = Some p'"
    using flow_store_buffer [OF assms(1)] assms(4) by (simp add: commitStage_def)
  then show ?thesis by (rule flow_commit_loop [OF assms(1-3)])
qed

end
