(* ===== verification/FlowRecover.thy ===== *)
theory FlowRecover
  imports FlowCommit
begin

text \<open>
  Early recovery keeps the data flow: it cuts the window behind the branch and restarts the front
  end where the interpreter goes.
\<close>

section \<open>The parts under a squash\<close>

lemma killed_drop:
  assumes io: "in_order depth (p_rob p) (p_inst_table p)" and m: "m < length (p_inst_table p)"
    and k: "killed (ii_rob_id (p_inst_table p ! m)) p = Some kill"
  shows "kill = drop (Suc m) (p_inst_table p)"
proof -
  let ?ts = "p_inst_table p" and ?n = "length (p_inst_table p)"
  obtain fs where fs: "map_opt (\<lambda>i. rob_isYounger (p_rob p) (ii_rob_id i) (ii_rob_id (?ts ! m))) ?ts = Some fs"
      "kill = map fst (filter snd (zip ?ts fs))" using k by (auto simp: killed_def split: bind_splits)
  have l: "length fs = ?n" using map_opt_length [OF fs(1)] .
  have "fs = replicate (Suc m) False @ replicate (?n - Suc m) True"
  proof (rule nth_equalityI)
    show "length fs = length (replicate (Suc m) False @ replicate (?n - Suc m) True)" using l m by simp
    fix j assume "j < length fs"
    then have j: "j < ?n" using l by simp
    have "fs ! j = (m < j)" using map_opt_nth [OF fs(1) j] younger_index [OF io j m] by simp
    then show "fs ! j = (replicate (Suc m) False @ replicate (?n - Suc m) True) ! j"
      using j by (auto simp: nth_append less_Suc_eq_le simp del: replicate.simps)
  qed
  then have "zip ?ts fs = zip (take (Suc m) ?ts) (replicate (Suc m) False) @ zip (drop (Suc m) ?ts) (replicate (?n - Suc m) True)"
    using m by (simp add: zip_append2 del: replicate.simps)
  moreover have "filter snd (zip xs (replicate k False)) = []" for xs :: "InstInfo list" and k
    by (auto simp: filter_empty_conv set_zip)
  moreover have "map fst (filter snd (zip xs (replicate (length xs) True))) = xs" for xs :: "InstInfo list"
    by (induction xs) simp_all
  from this [of "drop (Suc m) ?ts"] have "map fst (filter snd (zip (drop (Suc m) ?ts) (replicate (?n - Suc m) True))) = drop (Suc m) ?ts"
    by simp
  ultimately show ?thesis using fs(2) by (simp del: replicate.simps)
qed

lemma ee_offers_squash: "ee_offers (ee_squashRobTags tags s) k =
    (case ee_offers s k of None \<Rightarrow> None | Some sg \<Rightarrow> if sg_rob_id sg \<in> Some ` set tags then None else Some sg)"
proof (cases "k < length (ee_units s) \<and> eu_pipe (ee_units s ! k) \<noteq> []")
  case True
  then have "eu_output (ee_units (ee_squashRobTags tags s) ! k) = squash_stage tags (eu_output (ee_units s ! k))"
    by (simp add: ee_squash_nth eu_output_def last_map)
  with True show ?thesis by (auto simp: ee_offers_def ee_squash_nth squash_stage_def ee_squashRobTags_def)
next
  case False
  then show ?thesis by (auto simp: ee_offers_def ee_squashRobTags_def)
qed

text \<open>A stage in the units and the stage at a slot with the same tag are the same.\<close>

lemma offers_work: "ee_offers s k = Some sg \<Longrightarrow> sg \<in># ee_work s"
  using ee.release_work [of s k sg] by simp

lemma unique_tag:
  assumes "count (image_mset f M) (f x) \<le> 1" "x \<in># M" "y \<in># M" "f x = f y"
  shows "x = y"
proof (rule ccontr)
  assume "x \<noteq> y"
  then have "y \<in># M - {#x#}" using assms(3) by (simp add: in_diff_count)
  then have "{#x#} + {#y#} \<subseteq># M" using assms(2) by (metis add_mset_add_single insert_DiffM mset_subset_eq_add_mset_cancel single_subset_iff union_commute)
  then have "image_mset f ({#x#} + {#y#}) \<subseteq># image_mset f M" by (rule image_mset_subseteq_mono)
  then have "count (image_mset f ({#x#} + {#y#})) (f x) \<le> count (image_mset f M) (f x)" by (rule mset_subset_eq_count)
  with assms(1,4) show False by simp
qed

lemma tokens_squash:
  assumes tk: "tokens iw A ts rs G s" and d: "distinct (map ii_rob_id ts)" and k: "k \<le> length ts" "length rs = length ts"
  shows "tokens iw A (take k ts) (take k rs) G (ee_squashRobTags (map ii_rob_id (drop k ts)) s)"
proof -
  let ?kill = "map ii_rob_id (drop k ts)"
  have "\<exists>m. token iw A (take k ts) m sg \<and> (take k rs ! m = None \<or> leaving G (ee_squashRobTags ?kill s) sg)"
    if sg: "sg \<in># ee_work s" "sg_rob_id sg \<notin> Some ` set ?kill" for sg
  proof -
    obtain m where m: "token iw A ts m sg" "rs ! m = None \<or> leaving G s sg" using tk sg(1) by (auto simp: tokens_def)
    have "m < k"
    proof (rule ccontr)
      assume "\<not> m < k"
      then have "ts ! m \<in> set (drop k ts)" using m(1) by (auto simp: token_def in_set_conv_nth intro!: exI [of _ "m - k"])
      with sg(2) m(1) show False by (auto simp: token_def)
    qed
    moreover have "ee_offers (ee_squashRobTags ?kill s) j = Some sg" if "ee_offers s j = Some sg" for j
      using that sg(2) by (simp add: ee_offers_squash)
    then have "leaving G (ee_squashRobTags ?kill s) sg" if "leaving G s sg"
      using that unfolding leaving_def by blast
    ultimately have "token iw A (take k ts) m sg \<and> (take k rs ! m = None \<or> leaving G (ee_squashRobTags ?kill s) sg)"
      using m k by (auto simp: token_def val_at_take)
    then show ?thesis by blast
  qed
  moreover have "count (image_mset sg_rob_id (filter_mset Q (ee_work s))) t \<le> 1" for Q t
  proof -
    have "image_mset sg_rob_id (filter_mset Q (ee_work s)) \<subseteq># image_mset sg_rob_id (ee_work s)"
      by (intro image_mset_subseteq_mono multiset_filter_subset)
    then have "count (image_mset sg_rob_id (filter_mset Q (ee_work s))) t \<le> count (image_mset sg_rob_id (ee_work s)) t"
      by (rule mset_subset_eq_count)
    also have "\<dots> \<le> 1" using tk by (simp add: tokens_def)
    finally show ?thesis .
  qed
  ultimately show ?thesis by (simp add: tokens_def ee_squash_work)
qed

lemma squash_stations_subset:
  "e \<in> set (rs_stations (rs_squashInstIds ids q)) \<Longrightarrow> rse_valid e \<Longrightarrow> e \<in> set (rs_stations q)"
proof (induction ids arbitrary: q)
  case (Cons x ids)
  have "e \<in> set (rs_stations q)" if "e \<in> set (rs_stations (rs_removeInstruction x q))"
    using that Cons.prems(2) by (auto simp: rs_removeInstruction_def in_set_conv_nth nth_update_first split: if_splits)
  then show ?case using Cons.IH [of "rs_removeInstruction x q"] Cons.prems by (simp add: rs_squashInstIds_def)
qed (simp add: rs_squashInstIds_def)

lemma valid_rs_ids: "e \<in> set (rs_stations q) \<Longrightarrow> rse_valid e \<Longrightarrow> rse_inst_id e \<in># rs_ids q"
  by (auto simp: rs_ids_def live_ids_def)

lemma stations_squash:
  assumes st: "stations ts q"
  shows "stations (take k ts) (rs_squashInstIds (map ii_inst_id (drop k ts)) q)"
proof -
  let ?ids = "map ii_inst_id (drop k ts)" and ?q = "rs_squashInstIds (map ii_inst_id (drop k ts)) q"
  have r: "rs_ids ?q = rs_ids q - mset ?ids" using rs.squash_ids [of ?ids q] by (simp add: rs_squashInstIds_def)
  have c: "count (rs_ids q) x \<le> 1" for x using st by (simp add: stations_def)
  have "count (rs_ids ?q) x \<le> 1" for x using c [of x] by (simp add: r)
  moreover have "\<exists>i \<in> set (take k ts). mirrors e i" if e: "e \<in> set (rs_stations ?q)" "rse_valid e" for e
  proof -
    have "e \<in> set (rs_stations q)" by (rule squash_stations_subset [OF e])
    then obtain i where i: "i \<in> set ts" "mirrors e i" using st e(2) by (auto simp: stations_def)
    have "0 < count (rs_ids ?q) (rse_inst_id e)" using valid_rs_ids [OF e] by simp
    then have "count (mset ?ids) (rse_inst_id e) = 0" using c [of "rse_inst_id e"] by (simp add: r)
    then have "rse_inst_id e \<notin> set ?ids" by (simp add: count_eq_zero_iff del: mset_map)
    moreover have "ii_inst_id i = rse_inst_id e" using i(2) by (simp add: mirrors_def)
    ultimately have "i \<notin> set (drop k ts)" by (metis image_eqI set_map)
    then have "i \<in> set (take k ts)" using i(1) by (metis Un_iff append_take_drop_id set_append)
    with i(2) show ?thesis by blast
  qed
  ultimately show ?thesis by (simp add: stations_def)
qed

lemma lsq_idle_same: "lq_queue q' = lq_queue q \<Longrightarrow> lsq_idle q' = lsq_idle q"
  by (simp add: lsq_idle_def)

lemma idle_squash: "lsq_idle q \<Longrightarrow> lsq_squashInstIds ids q = q"
proof (induction ids)
  case (Cons x ids)
  have "update_first (\<lambda>e. le_valid e \<and> le_inst_id e = x) f (lq_queue q) = lq_queue q" for f
    by (rule update_first_none) (use Cons.prems in \<open>simp add: lsq_idle_def\<close>)
  then have "lsq_squash x q = q" by (simp add: lsq_squash_def)
  with Cons show ?case by (simp add: lsq_squashInstIds_def)
qed (simp add: lsq_squashInstIds_def)

lemma lanes_squash:
  assumes "lanes_ok a s q"
  shows "lanes_ok (arb_invalidateTags tags a) (ee_squashRobTags tags s) q"
proof -
  have "length (ee_units (ee_squashRobTags tags s)) = length (ee_units s)" by (simp add: ee_squashRobTags_def)
  with assms ee_mirror_squash [of a s tags] show ?thesis
    by (auto simp: lanes_ok_def arb_invalidateTags_def Let_def)
qed

lemma renamed_recover:
  assumes rn: "renamed depth (p_rat p) (p_rat_ckpts p) ts" and m: "m < length ts" "isControl (ts ! m)"
    and fr: "\<forall>i \<in> set ts. ii_rob_id i \<notin> set freed" and br: "ii_rob_id br = ii_rob_id (ts ! m)"
  shows "renamed depth (recover_rat br (freed @ map ii_rob_id (drop (Suc m) ts)) p)
    (fold ck_invalidate (map ii_rob_id (drop (Suc m) ts)) (p_rat_ckpts p)) (take (Suc m) ts)"
proof -
  let ?s = "\<lparr>rn_rat = p_rat p, rn_ck = p_rat_ckpts p, rn_win = map flight ts\<rparr>"
  have k: "m < length (rn_win ?s)" "snd (snd (rn_win ?s ! m))" using m by (simp_all add: flight_def)
  have f: "set freed \<inter> ftag ` set (take (Suc m) (rn_win ?s)) = {}"
    using fr by (auto simp: flight_def take_map dest!: in_set_takeD)
  obtain s' where s': "rn_recover freed m ?s = Some s'" "rn_inv depth 32 s'" "rn_win s' = take (Suc m) (rn_win ?s)"
    using rn_recover_some [OF rn [unfolded renamed_def] k f] by blast
  have t: "map ftag (drop (Suc m) (map flight ts)) = map ii_rob_id (drop (Suc m) ts)"
    by (simp add: drop_map flight_def comp_def)
  have h: "ftag (rn_win ?s ! m) = ii_rob_id br" using m(1) br by (simp add: flight_def)
  obtain mp where mp: "ck_restore (ii_rob_id br) (p_rat_ckpts p) = Some mp"
      "s' = \<lparr>rn_rat = rat_restoreStateScrub mp (freed @ map ii_rob_id (drop (Suc m) ts)) (p_rat p),
         rn_ck = fold ck_invalidate (map ii_rob_id (drop (Suc m) ts)) (p_rat_ckpts p), rn_win = take (Suc m) (map flight ts)\<rparr>"
    using s'(1) h t by (auto simp: rn_recover_def Let_def split: bind_splits)
  then show ?thesis using s'(2) by (simp add: renamed_def recover_rat_def take_map)
qed

lemma chain_prefix: "chain iw x (xs @ (a, b) # ys) q \<Longrightarrow> chain iw x xs a"
  by (induction xs arbitrary: x) auto

section \<open>One instruction changes its flags\<close>

lemma inflight_other [simp]:
  "inflight iw n P G (upd_stats f p) = inflight iw n P G p"
  "inflight iw n P G (p\<lparr>p_cdb_wakeup_pending := w\<rparr>) = inflight iw n P G p"
  "inflight iw n P G (p\<lparr>p_cdb_arbiter := a\<rparr>) = inflight iw n P G p"
  "inflight iw n P G (p\<lparr>p_stats := st\<rparr>) = inflight iw n P G p"
  by (simp_all add: inflight_def hex_env_def upd_stats_def)

lemma upd_inst_nth:
  assumes "distinct (map ii_inst_id (p_inst_table p))" "m < length (p_inst_table p)"
  shows "upd_inst (ii_inst_id (p_inst_table p ! m)) f p = p\<lparr>p_inst_table := (p_inst_table p)[m := f (p_inst_table p ! m)]\<rparr>"
proof -
  have "ii_inst_id (p_inst_table p ! j) = ii_inst_id (p_inst_table p ! m) \<longleftrightarrow> j = m" if "j < length (p_inst_table p)" for j
    using assms that nth_eq_iff_index_eq [of "map ii_inst_id (p_inst_table p)" j m] by simp
  then have "map (\<lambda>i. if ii_inst_id i = ii_inst_id (p_inst_table p ! m) then f i else i) (p_inst_table p)
      = (p_inst_table p)[m := f (p_inst_table p ! m)]"
    by (intro nth_equalityI) (simp_all add: nth_list_update)
  then show ?thesis by (simp add: upd_inst_def)
qed

lemma map_update_same: "m < length xs \<Longrightarrow> f x = f (xs ! m) \<Longrightarrow> map f (xs[m := x]) = map f xs"
  by (simp add: map_update list_update_same_conv)

lemma stations_set:
  assumes st: "stations ts q" and m: "m < length ts" "\<And>e. mirrors e (ts ! m) \<Longrightarrow> mirrors e i'"
  shows "stations (ts[m := i']) q"
proof -
  have "\<exists>i \<in> set (ts[m := i']). mirrors e i" if i: "i \<in> set ts" "mirrors e i" for e i
  proof -
    obtain j where j: "j < length ts" "i = ts ! j" using i(1) by (auto simp: in_set_conv_nth)
    show ?thesis
    proof (cases "j = m")
      case True
      then have "mirrors e i'" using m(2) i(2) j(2) by simp
      then show ?thesis using set_update_memI [OF m(1)] by blast
    next
      case False
      then have "ts[m := i'] ! j = i" using j by simp
      then have "i \<in> set (ts[m := i'])" using j(1) by (metis length_list_update nth_mem)
      with i(2) show ?thesis by blast
    qed
  qed
  with st show ?thesis unfolding stations_def by blast
qed

lemma inflight_set:
  assumes fl: "inflight iw n P G p" and m: "m < length (p_inst_table p)"
    and i': "shape i' = shape (p_inst_table p ! m)" "opview i' = opview (p_inst_table p ! m)"
    and d: "ii_dispatched_alu i' = ii_dispatched_alu (p_inst_table p ! m)"
    and pr: "progress iw (p_arf p) (p_inst_table p) (results (p_rob p)) m i'"
  shows "inflight iw n P G (p\<lparr>p_inst_table := (p_inst_table p)[m := i']\<rparr>)"
proof -
  note D = inflightD [OF fl]
  let ?ts = "p_inst_table p" and ?ts' = "(p_inst_table p)[m := i']"
  note c = isControl_shape [OF i'(1)]
  have s: "stat i' = stat (?ts ! m)" "flight i' = flight (?ts ! m)" "ii_inst_id i' = ii_inst_id (?ts ! m)"
      "(ii_rob_id i', ii_dest_reg i') = (ii_rob_id (?ts ! m), ii_dest_reg (?ts ! m))"
    using i'(1) c by (simp_all add: flight_def)
  note 1 = in_order_same [OF D(3) map_update_same [where f = "\<lambda>i. (ii_rob_id i, ii_dest_reg i)", OF m s(4)]]
  note 2 = ids_ok_same [OF D(5) map_update_same [where f = ii_inst_id, OF m s(3)]]
  note 3 = renamed_same [OF D(6) map_update_same [where f = flight, OF m s(2)]]
  note 4 = dataflow_flags [OF D(4) m i' pr]
  have 5: "tokens iw (p_arf p) ?ts' (results (p_rob p)) G (p_ee p)"
  proof (rule tokens_table [OF D(7) map_update_same [where f = stat, OF m s(1)]])
    fix k assume "k < length ?ts"
    then show "(ii_dispatched_alu (?ts ! k) \<longrightarrow> ii_dispatched_alu (?ts' ! k))
      \<and> isControl (?ts' ! k) = isControl (?ts ! k) \<and> ii_is_jump (?ts' ! k) = ii_is_jump (?ts ! k)"
      using d c i'(1) by (cases "k = m") simp_all
  qed
  have 6: "stations ?ts' (p_rs p)"
    by (rule stations_set [OF D(9) m]) (use d i' in \<open>simp add: mirrors_def\<close>)
  have "hex_env iw (p\<lparr>p_inst_table := ?ts'\<rparr>)" using D(2) by (simp add: hex_env_def)
  with 1 2 3 4 5 6 D(1,8) show ?thesis by (simp add: inflight_def)
qed

lemma inflight_more: "inflight iw n P G p \<Longrightarrow> G \<subseteq> G' \<Longrightarrow> inflight iw n P G' p"
proof -
  assume a: "inflight iw n P G p" "G \<subseteq> G'"
  have "tokens iw A ts rs G s \<Longrightarrow> tokens iw A ts rs G' s" for A ts rs s
    using a(2) unfolding tokens_def leaving_def by blast
  with a(1) show ?thesis by (simp add: inflight_def)
qed

section \<open>Early recovery\<close>

lemma filter_not_dropped:
  "distinct (map f ts) \<Longrightarrow> filter (\<lambda>i. f i \<notin> f ` set (drop k ts)) ts = take k ts"
proof -
  assume d: "distinct (map f ts)"
  then have "distinct (map f (take k ts) @ map f (drop k ts))" by (metis append_take_drop_id map_append)
  then have disj: "f i \<notin> f ` set (drop k ts)" if "i \<in> set (take k ts)" for i
    using that by (metis disjoint_iff distinct_append image_eqI set_map)
  have "filter (\<lambda>i. f i \<notin> f ` set (drop k ts)) (take k ts) = take k ts" using disj by (intro filter_True) blast
  moreover have "filter (\<lambda>i. f i \<notin> f ` set (drop k ts)) (drop k ts) = []" by (simp add: filter_empty_conv)
  ultimately show ?thesis by (metis append.right_neutral append_take_drop_id filter_append)
qed

lemma flow_recover:
  assumes fl: "inflight iw n (p_cdb_wakeup_pending p) G p" and la: "lanes_ok (p_cdb_arbiter p) (p_ee p) (p_lsq p)"
    and fo: "front_ok iw (p_dispatch_reg p) (p_ifq p)" and fr: "freed_ok p"
    and m: "m < length (p_inst_table p)" and br: "br = p_inst_table p ! m" "isControl br" "ii_br_resolved br"
      "ii_recovery_pc br = ii_br_next_pc br"
    and or: "seq_steps iw k (replicate 32 0, 0) = Some (p_arf p, pc)"
      "chain iw pc (map ilink (take m (p_inst_table p))) (ii_pc br)"
    and er: "earlyRecover br p = Some p'"
  shows "flow iw n (p_cdb_wakeup_pending p') G (front p') p' \<and> freed_ok p'
    \<and> p_inst_table p' = take (Suc m) (p_inst_table p)
    \<and> p_ee p' = ee_squashRobTags (map ii_rob_id (drop (Suc m) (p_inst_table p))) (p_ee p)"
proof -
  note D = inflightD [OF fl]
  let ?ts = "p_inst_table p" and ?kill = "drop (Suc m) (p_inst_table p)" and ?T = "take (Suc m) (p_inst_table p)"
  have dt: "distinct (map ii_rob_id ?ts)" "distinct (map ii_inst_id ?ts)" "length (results (p_rob p)) = length ?ts"
    using dataflowD(2,3) [OF D(4)] D(5) by (simp_all add: ids_ok_def)
  obtain kill where k: "killed (ii_rob_id br) p = Some kill"
    using er by (auto simp: earlyRecover_def Let_def killed_def upd_stats_def split: bind_splits)
  then have kl: "kill = ?kill" using killed_drop [OF D(3) m] br(1) by simp
  have ku: "killed (ii_rob_id br) (upd_stats f p) = Some ?kill" for f using k kl by (simp add: killed_def upd_stats_def)
  obtain x r where r: "rob_squashYoungerThan (ii_rob_id br) (p_rob p) = Some (x, r)"
    using er by (cases "rob_squashYoungerThan (ii_rob_id br) (p_rob p)")
      (auto simp: earlyRecover_def Let_def ku upd_stats_def squash_all_def)
  let ?rat = "recover_rat br (p_freed_rob_tags p @ map ii_rob_id ?kill) p"
  have rt: "recover_rat br fs (upd_stats f q) = recover_rat br fs q" for fs f q
    by (simp add: recover_rat_def upd_stats_def split: option.split)
  have tb: "fold (\<lambda>i. table_erase (ii_inst_id i)) ?kill ?ts = ?T"
    using filter_not_dropped [OF dt(2), of "Suc m"] by (simp add: fold_table_erase)
  have p': "p' = redirect (ii_recovery_pc br) (squash_all ?kill ((upd_stats (\<lambda>s. s\<lparr>st_squashed := st_squashed s + of_nat (length ?kill)\<rparr>)
      (upd_stats (\<lambda>s. s\<lparr>st_flushes := st_flushes s + 1\<rparr>) p))\<lparr>p_rat := ?rat,
        p_ras := ras_restoreFull (ii_ras_tos br) (ii_ras_count br) (ii_ras_stack br) (p_ras p)\<rparr>)
      \<lparr>p_rob := r, p_inst_table := ?T\<rparr>)"
    using er tb by (simp add: earlyRecover_def Let_def ku r rt) (simp add: upd_stats_def squash_all_def Let_def r)
  let ?robs = "map ii_rob_id ?kill"
  have fld: "p_rob p' = r" "p_inst_table p' = ?T" "p_arf p' = p_arf p" "p_rat p' = ?rat"
      "p_rat_ckpts p' = fold ck_invalidate ?robs (p_rat_ckpts p)" "p_ee p' = ee_squashRobTags ?robs (p_ee p)"
      "p_cdb_arbiter p' = arb_invalidateTags ?robs (p_cdb_arbiter p)"
      "p_cdb_wakeup_pending p' = filter (\<lambda>w. fst w \<notin> set ?robs) (p_cdb_wakeup_pending p)"
      "p_lsq p' = lsq_squashInstIds (map ii_inst_id ?kill) (p_lsq p)"
      "p_rs p' = rs_squashInstIds (map ii_inst_id ?kill) (p_rs p)" "p_config p' = p_config p"
      "p_next_inst_id p' = p_next_inst_id p" "p_freed_rob_tags p' = p_freed_rob_tags p"
      "p_ifq p' = ifq_flush (p_ifq p)" "p_dispatch_reg p' = dr_flush (p_dispatch_reg p)"
      "p_fetch_pc p' = ii_br_next_pc br" "\<not> p_fetch_halted p'" "\<not> p_imem_req_outstanding p'"
      "p_hex_mode p' = p_hex_mode p" "p_imem p' = p_imem p" "p_memsys p' = set_cached cached_flushOnRedirect (p_memsys p)"
    using br(4) by (simp_all add: p' redirect_def squash_all_def Let_def upd_stats_def)
  note io = in_order_squash [OF D(3) m, of x r, folded br(1), OF r]
  have 1: "dataflow iw (p_arf p) ?T (results r) (p_cdb_wakeup_pending p')"
    using dataflow_take [OF D(4), of "Suc m"] m by (simp add: io(2) fld(8))
  have 2: "ids_ok n (p_next_inst_id p) ?T"
    using D(5) by (auto simp: ids_ok_def take_map [symmetric] dest: in_set_takeD)
  have 3: "renamed (cfg_rob_size (p_config p)) ?rat (fold ck_invalidate ?robs (p_rat_ckpts p)) ?T"
    by (rule renamed_recover [OF D(6) m]) (use fr br in \<open>simp_all add: freed_ok_def\<close>)
  have 4: "tokens iw (p_arf p) ?T (results r) G (p_ee p')"
    using tokens_squash [OF D(7) dt(1), of "Suc m"] m dt(3) by (simp add: io(2) fld(6))
  have 5: "stations ?T (p_rs p')" unfolding fld(10) by (rule stations_squash [OF D(9)])
  have 6: "hex_env iw p'" using D(2) by (simp add: hex_env_def fld)
  have 7: "lanes_ok (p_cdb_arbiter p') (p_ee p') (p_lsq p')"
    using lanes_squash [OF la] idle_squash [OF D(8)] by (simp add: fld)
  have T: "?T = take m ?ts @ [br]" using m br(1) by (simp add: take_Suc_conv_app_nth)
  have ilk: "ilink br = (ii_pc br, ii_br_next_pc br)" using br(3) by (simp add: ilink_def)
  have "chain iw pc (map ilink ?T) (ii_br_next_pc br)" unfolding T using chain_snoc [OF or(2)] by (simp add: ilk)
  then have 8: "program_order iw (p_arf p) ?T [] (ii_br_next_pc br)" using or(1) by (auto simp: program_order_def)
  have fe: "dr_contents (dr_flush (p_dispatch_reg p)) = []" "ifq_contents (ifq_flush (p_ifq p)) = []"
      "dr_wf (dr_flush (p_dispatch_reg p))" "ifq_wf (ifq_flush (p_ifq p))"
    using dr_flush_wf ifq_flush_ok fo by (simp_all add: dr_contents_def front_ok_def)
  have "front_ok iw (p_dispatch_reg p') (p_ifq p')" using fe by (simp add: front_ok_def fld)
  moreover have "fetch_ok iw p'" by (simp add: fetch_ok_def fld)
  moreover have "front p' = []" using fe by (simp add: fld)
  moreover have "freed_ok p'" using fr by (auto simp: freed_ok_def fld dest: in_set_takeD)
  ultimately show ?thesis
    using 1 2 3 4 5 6 7 8 D(1,8) io(1) idle_squash [OF D(8)] fld by (simp add: flow_def inflight_def)
qed

end
