(* ===== verification/FlowResolve.thy ===== *)
theory FlowResolve
  imports FlowRecover
begin

text \<open>
  Branch resolution keeps the data flow: a branch that was predicted right keeps the chain of
  instructions, and one that was not is recovered from at once.
\<close>

section \<open>Branch resolution\<close>

lemma resolved_shape: "shape (resolved i v) = shape i" "opview (resolved i v) = opview i"
    "ii_dispatched_alu (resolved i v) = ii_dispatched_alu i" "ii_completed (resolved i v) = ii_completed i"
    "ii_br_resolved (resolved i v)"
  by (simp_all add: resolved_def split_beta Let_def)

lemma resolved_next:
  assumes df: "dataflow iw A ts rs P" and m: "m < length ts" "ii_dispatched_alu (ts ! m)" "isControl (ts ! m)"
  shows "ii_br_next_pc (resolved (ts ! m) v) = unext (uo iw (ts ! m)) (ii_pc (ts ! m)) (regs_at iw A (take m ts))"
proof -
  let ?i = "ts ! m" and ?E = "regs_at iw A (take m ts)"
  note e = dataflowD(8) [OF df m(1)]
  have "ii_src1_ready ?i" "ii_src2_ready ?i" using dataflowD(7) [OF df m(1)] m(2) by (simp_all add: progress_def)
  then have s: "ii_src1_val ?i = src1 (uo iw ?i) ?E" "ii_src2_val ?i = src2 (uo iw ?i) ?E"
    using dataflowD(6) [OF df m(1)] by (simp_all add: operands_def Let_def)
  have "control_uop (uo iw ?i)" using entry_flags [OF e] m(3) by simp
  then show ?thesis using e s
    by (simp add: resolved_def branch_outcome_def entry_ok_def Let_def unext_def utaken_def utarget_def)
qed

lemma progress_resolved:
  assumes df: "dataflow iw A ts rs P" and m: "m < length ts" "ii_dispatched_alu (ts ! m)" "isControl (ts ! m)"
  shows "progress iw A ts rs m (resolved (ts ! m) v)"
proof -
  have "isControl (resolved (ts ! m) v)" "uo iw (resolved (ts ! m) v) = uo iw (ts ! m)"
      "ii_pc (resolved (ts ! m) v) = ii_pc (ts ! m)"
    using isControl_shape [OF resolved_shape(1)] m(3) resolved_shape(1) [of "ts ! m" v] by (simp_all add: uo_def)
  then show ?thesis
    using dataflowD(7) [OF df m(1)] m resolved_next [OF df m, of v] resolved_shape [of "ts ! m" v] by (simp add: progress_def)
qed

lemma right_prediction:
  "\<not> prediction_wrong i v \<Longrightarrow> \<not> ii_br_resolved i \<Longrightarrow> ilink (resolved i v) = ilink i"
  by (auto simp: prediction_wrong_def resolved_def ilink_def split_beta Let_def)

text \<open>What the stages of a writeback keep, and how they narrow the state.\<close>

definition wb :: "u32 list \<Rightarrow> nat \<Rightarrow> nat set \<Rightarrow> Processor \<Rightarrow> bool" where
  "wb iw n G p \<longleftrightarrow> flow iw n (p_cdb_wakeup_pending p) G (front p) p \<and> freed_ok p
     \<and> (\<forall>k \<in> G. \<forall>sg. ee_offers (p_ee p) k = Some sg \<longrightarrow> \<not> sg_offer_cdb sg)"

definition narrows :: "Processor \<Rightarrow> Processor \<Rightarrow> bool" where
  "narrows p p' \<longleftrightarrow> (\<forall>k sg. ee_offers (p_ee p') k = Some sg \<longrightarrow> ee_offers (p_ee p) k = Some sg)
     \<and> (\<forall>k sg. ee_offers (p_ee p) k = Some sg \<and> sg_rob_id sg \<in> Some ` ii_rob_id ` set (p_inst_table p')
          \<longrightarrow> ee_offers (p_ee p') k = Some sg)
     \<and> (\<forall>i' \<in> set (p_inst_table p'). \<exists>i \<in> set (p_inst_table p). ii_rob_id i = ii_rob_id i'
          \<and> (ii_br_resolved i \<longrightarrow> ii_br_resolved i'))"

lemma narrows_refl: "narrows p p"
  by (auto simp: narrows_def)

lemma narrowsD:
  assumes "narrows p p'"
  shows "ee_offers (p_ee p') k = Some sg \<Longrightarrow> ee_offers (p_ee p) k = Some sg"
    "ee_offers (p_ee p) k = Some sg \<Longrightarrow> sg_rob_id sg = Some (ii_rob_id i') \<Longrightarrow> i' \<in> set (p_inst_table p') \<Longrightarrow>
      ee_offers (p_ee p') k = Some sg"
    "i' \<in> set (p_inst_table p') \<Longrightarrow> \<exists>i \<in> set (p_inst_table p). ii_rob_id i = ii_rob_id i' \<and> (ii_br_resolved i \<longrightarrow> ii_br_resolved i')"
proof -
  note n = assms [unfolded narrows_def]
  show "ee_offers (p_ee p') k = Some sg \<Longrightarrow> ee_offers (p_ee p) k = Some sg" using n [THEN conjunct1] by simp
  show "ee_offers (p_ee p) k = Some sg \<Longrightarrow> sg_rob_id sg = Some (ii_rob_id i') \<Longrightarrow> i' \<in> set (p_inst_table p') \<Longrightarrow>
      ee_offers (p_ee p') k = Some sg" using n [THEN conjunct2, THEN conjunct1] by simp
  show "i' \<in> set (p_inst_table p') \<Longrightarrow> \<exists>i \<in> set (p_inst_table p). ii_rob_id i = ii_rob_id i' \<and> (ii_br_resolved i \<longrightarrow> ii_br_resolved i')"
    using n [THEN conjunct2, THEN conjunct2] by (rule bspec)
qed

lemma narrowsI:
  assumes "\<And>k sg. ee_offers (p_ee p') k = Some sg \<Longrightarrow> ee_offers (p_ee p) k = Some sg"
    and "\<And>k sg i'. ee_offers (p_ee p) k = Some sg \<Longrightarrow> sg_rob_id sg = Some (ii_rob_id i') \<Longrightarrow> i' \<in> set (p_inst_table p') \<Longrightarrow>
      ee_offers (p_ee p') k = Some sg"
    and "\<And>i'. i' \<in> set (p_inst_table p') \<Longrightarrow>
      \<exists>i \<in> set (p_inst_table p). ii_rob_id i = ii_rob_id i' \<and> (ii_br_resolved i \<longrightarrow> ii_br_resolved i')"
  shows "narrows p p'"
proof -
  have 1: "\<forall>k sg. ee_offers (p_ee p') k = Some sg \<longrightarrow> ee_offers (p_ee p) k = Some sg" using assms(1) by blast
  have "ee_offers (p_ee p') k = Some sg"
    if k: "ee_offers (p_ee p) k = Some sg" "sg_rob_id sg \<in> Some ` ii_rob_id ` set (p_inst_table p')" for k sg
  proof -
    obtain i' where "i' \<in> set (p_inst_table p')" "sg_rob_id sg = Some (ii_rob_id i')" using k(2) by (auto simp only: image_iff)
    with assms(2) [OF k(1)] show ?thesis by simp
  qed
  then have 2: "\<forall>k sg. ee_offers (p_ee p) k = Some sg \<and> sg_rob_id sg \<in> Some ` ii_rob_id ` set (p_inst_table p')
      \<longrightarrow> ee_offers (p_ee p') k = Some sg" by blast
  have 3: "\<forall>i' \<in> set (p_inst_table p'). \<exists>i \<in> set (p_inst_table p). ii_rob_id i = ii_rob_id i'
      \<and> (ii_br_resolved i \<longrightarrow> ii_br_resolved i')" using assms(3) by blast
  from 1 2 3 show ?thesis unfolding narrows_def by (intro conjI)
qed

lemma narrows_trans:
  assumes "narrows p q" "narrows q r"
  shows "narrows p r"
proof (rule narrowsI)
  note a = narrowsD [OF assms(1)] and b = narrowsD [OF assms(2)]
  show "ee_offers (p_ee r) k = Some sg \<Longrightarrow> ee_offers (p_ee p) k = Some sg" for k sg using a(1) b(1) by blast
  fix i' assume i: "i' \<in> set (p_inst_table r)"
  obtain j where j: "j \<in> set (p_inst_table q)" "ii_rob_id j = ii_rob_id i'" "ii_br_resolved j \<longrightarrow> ii_br_resolved i'"
    using b(3) [OF i] by blast
  obtain h where "h \<in> set (p_inst_table p)" "ii_rob_id h = ii_rob_id j" "ii_br_resolved h \<longrightarrow> ii_br_resolved j"
    using a(3) [OF j(1)] by blast
  with j show "\<exists>i \<in> set (p_inst_table p). ii_rob_id i = ii_rob_id i' \<and> (ii_br_resolved i \<longrightarrow> ii_br_resolved i')" by auto
  show "ee_offers (p_ee r) k = Some sg" if "ee_offers (p_ee p) k = Some sg" "sg_rob_id sg = Some (ii_rob_id i')" for k sg
    using b(2) [OF a(2) [OF that(1) _ j(1)] that(2) i] that(2) j(2) by simp
qed

lemma table_index: "i \<in> set (p_inst_table p) \<Longrightarrow> \<exists>m < length (p_inst_table p). i = p_inst_table p ! m"
  by (auto simp: in_set_conv_nth)

lemma narrows_set:
  assumes "m < length (p_inst_table p)" "ii_rob_id i' = ii_rob_id (p_inst_table p ! m)"
    and "ii_br_resolved (p_inst_table p ! m) \<longrightarrow> ii_br_resolved i'"
    and "p_inst_table p' = (p_inst_table p)[m := i']" "p_ee p' = p_ee p"
  shows "narrows p p'"
proof -
  have "\<exists>i \<in> set (p_inst_table p). ii_rob_id i = ii_rob_id j \<and> (ii_br_resolved i \<longrightarrow> ii_br_resolved j)"
    if "j \<in> set ((p_inst_table p)[m := i'])" for j
  proof -
    have "j = i' \<or> j \<in> set (p_inst_table p)" using that set_update_subset_insert by fast
    then show ?thesis using assms(1-3) nth_mem by metis
  qed
  then show ?thesis by (intro narrowsI) (simp_all only: assms(4,5))
qed

lemma freed_ok_set:
  assumes "freed_ok p" "m < length (p_inst_table p)" "ii_rob_id i' = ii_rob_id (p_inst_table p ! m)"
    and "p_inst_table p' = (p_inst_table p)[m := i']" "p_freed_rob_tags p' = p_freed_rob_tags p"
  shows "freed_ok p'"
proof -
  have "ii_rob_id j \<notin> set (p_freed_rob_tags p)" if "j \<in> set ((p_inst_table p)[m := i'])" for j
  proof -
    have "j = i' \<or> j \<in> set (p_inst_table p)" using that set_update_subset_insert by fast
    then show ?thesis using assms(1) assms(3) nth_mem [OF assms(2)] by (auto simp: freed_ok_def)
  qed
  then show ?thesis unfolding freed_ok_def assms(4,5) by blast
qed

lemma resolve_branch_ok:
  assumes w: "wb iw n G p" and m: "m < length (p_inst_table p)" "ii_dispatched_alu (p_inst_table p ! m)"
      "isControl (p_inst_table p ! m)" "\<not> ii_br_resolved (p_inst_table p ! m)"
    and r: "resolveBranch (p_inst_table p ! m) v p = Some p'"
  shows "wb iw n G p' \<and> narrows p p' \<and> m < length (p_inst_table p')
    \<and> ii_inst_id (p_inst_table p' ! m) = ii_inst_id (p_inst_table p ! m)
    \<and> ii_rob_id (p_inst_table p' ! m) = ii_rob_id (p_inst_table p ! m) \<and> ii_br_resolved (p_inst_table p' ! m)
    \<and> ii_dispatched_alu (p_inst_table p' ! m) \<and> ii_rd_used (p_inst_table p' ! m) = ii_rd_used (p_inst_table p ! m)"
proof -
  let ?ts = "p_inst_table p" and ?i = "p_inst_table p ! m" and ?P = "p_cdb_wakeup_pending p"
  have fl: "flow iw n ?P G (front p) p" "freed_ok p" using w by (simp_all add: wb_def)
  have inf: "inflight iw n ?P G p" and la: "lanes_ok (p_cdb_arbiter p) (p_ee p) (p_lsq p)"
      and po: "program_order iw (p_arf p) ?ts (front p) (p_fetch_pc p)"
      and fo: "front_ok iw (p_dispatch_reg p) (p_ifq p)" and fe: "fetch_ok iw p"
    using fl(1) by (simp_all add: flow_def)
  note D = inflightD [OF inf]
  have ids: "distinct (map ii_inst_id ?ts)" using D(5) by (simp add: ids_ok_def)
  define q where "q = upd_stats (\<lambda>s. s\<lparr>st_branches_resolved := st_branches_resolved s + 1\<rparr>) p"
  have q: "p_inst_table q = ?ts" "inflight iw n ?P G q" "p_arf q = p_arf p" "p_rob q = p_rob p" "p_ee q = p_ee p"
      "p_cdb_arbiter q = p_cdb_arbiter p" "p_lsq q = p_lsq p" "p_dispatch_reg q = p_dispatch_reg p" "p_ifq q = p_ifq p"
      "p_cdb_wakeup_pending q = ?P" "p_freed_rob_tags q = p_freed_rob_tags p"
    using inf by (simp_all add: q_def upd_stats_def)
  have ui: "upd_inst (ii_inst_id ?i) f q = q\<lparr>p_inst_table := ?ts[m := f ?i]\<rparr>" for f
    using upd_inst_nth [of q m f] ids m(1) q(1) by simp
  note sh = resolved_shape [of ?i v] and pr = progress_resolved [OF D(4) m(1-3), of v]
  show ?thesis
  proof (cases "prediction_wrong ?i v")
    case False
    let ?p = "q\<lparr>p_inst_table := ?ts[m := resolved ?i v]\<rparr>"
    have p': "p' = ?p" using r False m(4) ui by (simp add: resolveBranch_def Let_def q_def)
    have "inflight iw n ?P G ?p"
      using inflight_set [OF q(2), of m "resolved ?i v"] m(1) sh pr q by simp
    moreover have "map ilink (?ts[m := resolved ?i v]) = map ilink ?ts"
      by (rule map_update_same [OF m(1) right_prediction [OF False m(4)]])
    then have "program_order iw (p_arf p) (?ts[m := resolved ?i v]) (front p) (p_fetch_pc p)"
      by (rule program_order_same [OF po])
    moreover have fr: "freed_ok ?p" by (rule freed_ok_set [OF fl(2) m(1)]) (use sh(1) q in simp_all)
    moreover have "p_fetch_pc ?p = p_fetch_pc p" "fetch_ok iw ?p" using fe by (simp_all add: q_def upd_stats_def fetch_ok_def)
    ultimately have "flow iw n ?P G (front p) ?p" using la fo by (simp add: flow_def q del: inflight_other)
    then have "wb iw n G p'" using w fr by (simp add: wb_def p' q)
    moreover have "narrows p p'"
      by (rule narrows_set [OF m(1)]) (use sh m(4) q in \<open>simp_all add: p'\<close>)
    ultimately show ?thesis using sh m(1,2) by (simp add: p')
  next
    case True
    let ?b = "(resolved ?i v)\<lparr>ii_mispredicted := True, ii_recovery_pc := ii_br_next_pc (resolved ?i v)\<rparr>"
    let ?s = "upd_stats (\<lambda>s. s\<lparr>st_branch_mispredicts := st_branch_mispredicts s + 1\<rparr>) (q\<lparr>p_inst_table := ?ts[m := ?b]\<rparr>)"
    have er: "earlyRecover ?b ?s = Some p'" using r True m(4) ui by (simp add: resolveBranch_def Let_def q_def)
    have sb: "shape ?b = shape ?i" "opview ?b = opview ?i" using sh(1,2) by simp_all
    have "isControl (resolved ?i v)" using isControl_shape [OF sh(1)] m(3) by simp
    then have cb: "isControl ?b" by (simp add: isControl_def)
    have "progress iw (p_arf q) ?ts (results (p_rob q)) m ?b"
      using pr cb q by (simp add: progress_def isControl_def uo_def)
    then have "inflight iw n ?P G (q\<lparr>p_inst_table := ?ts[m := ?b]\<rparr>)"
      using inflight_set [OF q(2), of m ?b] m(1) sb sh(3) q(1) by simp
    then have 1: "inflight iw n (p_cdb_wakeup_pending ?s) G ?s" by (simp add: upd_stats_def q)
    have tb: "p_inst_table ?s = ?ts[m := ?b]" by (simp add: upd_stats_def)
    obtain k pc where k: "seq_steps iw k (replicate 32 0, 0) = Some (p_arf p, pc)"
        "chain iw pc (map ilink ?ts @ map flink (front p)) (p_fetch_pc p)" using po by (auto simp: program_order_def)
    have "map ilink ?ts = map ilink (take m ?ts) @ (ii_pc ?i, snd (ilink ?i)) # map ilink (drop (Suc m) ?ts)"
      using id_take_nth_drop [OF m(1)] by (metis ilink_def list.simps(9) map_append snd_conv)
    then have "chain iw pc (map ilink (take m ?ts)) (ii_pc ?i)"
      using k(2) chain_prefix [of iw pc "map ilink (take m ?ts)" "ii_pc ?i" "snd (ilink ?i)"] by simp
    then have 2: "chain iw pc (map ilink (take m (p_inst_table ?s))) (ii_pc ?b)" using sh(1) by (simp add: tb)
    have 3: "freed_ok ?s" by (rule freed_ok_set [OF fl(2) m(1)]) (use sh(1) q in \<open>simp_all add: upd_stats_def\<close>)
    have 4: "lanes_ok (p_cdb_arbiter ?s) (p_ee ?s) (p_lsq ?s)" "front_ok iw (p_dispatch_reg ?s) (p_ifq ?s)"
      using la fo by (simp_all add: upd_stats_def q)
    have R: "flow iw n (p_cdb_wakeup_pending p') G (front p') p' \<and> freed_ok p'
        \<and> p_inst_table p' = take (Suc m) (p_inst_table ?s)
        \<and> p_ee p' = ee_squashRobTags (map ii_rob_id (drop (Suc m) (p_inst_table ?s))) (p_ee ?s)"
    proof (rule flow_recover [OF 1 4 3 _ _ cb _ _ _ 2 er])
      show "m < length (p_inst_table ?s)" "?b = p_inst_table ?s ! m" using m(1) by (simp_all add: tb)
      show "ii_br_resolved ?b" "ii_recovery_pc ?b = ii_br_next_pc ?b" using sh(5) by simp_all
      show "seq_steps iw k (replicate 32 0, 0) = Some (p_arf ?s, pc)" using k(1) by (simp add: upd_stats_def q)
    qed
    have tb': "p_inst_table p' = take m ?ts @ [?b]" using R m(1) by (simp add: tb take_Suc_conv_app_nth)
    let ?tags = "map ii_rob_id (drop (Suc m) ?ts)"
    have ee: "p_ee p' = ee_squashRobTags ?tags (p_ee p)" using R m(1) by (simp add: tb upd_stats_def q)
    have d: "distinct (map ii_rob_id ?ts)" by (rule dataflowD(3) [OF D(4)])
    have ids': "ii_rob_id ` set (p_inst_table p') = ii_rob_id ` set (take (Suc m) ?ts)"
      using sh(1) m(1) by (simp add: tb' take_Suc_conv_app_nth)
    have "distinct (map ii_rob_id (take (Suc m) ?ts) @ ?tags)" using d by (metis append_take_drop_id map_append)
    then have disj: "ii_rob_id ` set (p_inst_table p') \<inter> set ?tags = {}" unfolding ids' by (metis distinct_append set_map)
    have "\<exists>i \<in> set ?ts. ii_rob_id i = ii_rob_id j \<and> (ii_br_resolved i \<longrightarrow> ii_br_resolved j)"
      if "j \<in> set (p_inst_table p')" for j
    proof (cases "j = ?b")
      case True
      then show ?thesis using m(1,4) sh(1) nth_mem [OF m(1)] by (intro bexI [of _ ?i]) simp_all
    next
      case False
      then have "j \<in> set ?ts" using that by (auto simp: tb' dest: in_set_takeD)
      then show ?thesis by blast
    qed
    moreover have old: "ee_offers (p_ee p) k = Some sg" if "ee_offers (p_ee p') k = Some sg" for k sg
      using that by (simp add: ee ee_offers_squash split: option.splits if_splits)
    moreover have "ee_offers (p_ee p') k = Some sg"
      if o: "ee_offers (p_ee p) k = Some sg" "sg_rob_id sg = Some (ii_rob_id i')" "i' \<in> set (p_inst_table p')" for k sg i'
    proof -
      have "ii_rob_id i' \<in> ii_rob_id ` set (p_inst_table p')" using o(3) by blast
      then have "sg_rob_id sg \<notin> Some ` set ?tags" using o(2) disj by auto
      with o(1) show ?thesis by (simp add: ee ee_offers_squash)
    qed
    ultimately have "narrows p p'" by (intro narrowsI)
    moreover have "wb iw n G p'" using R w old unfolding wb_def by blast
    ultimately show ?thesis using sh m(1,2) by (simp add: tb' nth_append)
  qed
qed

end
