(* ===== verification/FlowWriteback.thy ===== *)
theory FlowWriteback
  imports FlowResolve
begin

text \<open>
  Writeback keeps the data flow: a result that reaches the reorder buffer is the interpreter's
  value, the wake-up of its tag is registered, and the unit that held it is drained.
\<close>

section \<open>Finished results\<close>

lemma inflight_complete:
  assumes fl: "inflight iw n P G p" and m: "m < length (p_inst_table p)" "results (p_rob p) ! m \<noteq> None"
  shows "inflight iw n P G (p\<lparr>p_inst_table := (p_inst_table p)[m := (p_inst_table p ! m)\<lparr>ii_completed := True\<rparr>]\<rparr>)"
proof (rule inflight_set [OF fl m(1)])
  show "progress iw (p_arf p) (p_inst_table p) (results (p_rob p)) m ((p_inst_table p ! m)\<lparr>ii_completed := True\<rparr>)"
    using dataflowD(7) [OF inflightD(4) [OF fl] m(1)] m(2) by (simp add: progress_def isControl_def uo_def)
qed simp_all

lemma inflight_write:
  assumes fl: "inflight iw n P G p" and m: "m < length (p_inst_table p)" "ii_dispatched_alu (p_inst_table p ! m)"
      "isControl (p_inst_table p ! m) \<Longrightarrow> ii_br_resolved (p_inst_table p ! m)"
      "v = val_at iw (p_arf p) (p_inst_table p) m"
    and w: "rob_writeResult (ii_rob_id (p_inst_table p ! m)) v (p_rob p) = Some r"
    and o: "ee_offers (p_ee p) k = Some sg" "sg_rob_id sg = Some (ii_rob_id (p_inst_table p ! m))"
    and Q: "Q = P @ [(ii_rob_id (p_inst_table p ! m), v)] \<or> Q = P \<and> \<not> ii_rd_used (p_inst_table p ! m)"
  shows "inflight iw n Q (insert k G) (p\<lparr>p_rob := r\<rparr>)" "results r ! m = Some v"
proof -
  note D = inflightD [OF fl]
  let ?ts = "p_inst_table p" and ?rs = "results (p_rob p)"
  note io = in_order_write [OF D(3) m(1) w]
  have l: "length ?rs = length ?ts" by (rule dataflowD(2) [OF D(4)])
  show "results r ! m = Some v" using l m(1) by (simp add: io(2))
  have df: "dataflow iw (p_arf p) ?ts (?rs[m := Some v]) Q" by (rule dataflow_result [OF D(4) m Q])
  have "\<exists>m'. token iw (p_arf p) ?ts m' sg' \<and> (?rs[m := Some v] ! m' = None \<or> leaving (insert k G) (p_ee p) sg')"
    if sg': "sg' \<in># ee_work (p_ee p)" for sg'
  proof -
    obtain m' where m': "token iw (p_arf p) ?ts m' sg'" "?rs ! m' = None \<or> leaving G (p_ee p) sg'"
      using D(7) sg' by (auto simp: tokens_def)
    show ?thesis
    proof (cases "m' = m")
      case True
      then have "sg_rob_id sg' = sg_rob_id sg" using m'(1) o(2) by (simp add: token_def)
      then have "sg' = sg"
        using unique_tag [of sg_rob_id "ee_work (p_ee p)" sg' sg] sg' offers_work [OF o(1)] D(7) by (simp add: tokens_def)
      then have "leaving (insert k G) (p_ee p) sg'" using o(1) by (auto simp: leaving_def)
      with m'(1) show ?thesis by blast
    next
      case False
      then show ?thesis using m' by (intro exI [of _ m']) (auto simp: leaving_def)
    qed
  qed
  then have tk: "tokens iw (p_arf p) ?ts (?rs[m := Some v]) (insert k G) (p_ee p)" using D(7) by (simp add: tokens_def)
  show "inflight iw n Q (insert k G) (p\<lparr>p_rob := r\<rparr>)"
    using D io df tk by (simp add: inflight_def hex_env_def)
qed

text \<open>A finished output is that of an instruction that was sent.\<close>

lemma offer_token:
  assumes tk: "tokens iw A ts rs G s" and o: "ee_offers s k = Some sg"
  shows "\<exists>m. token iw A ts m sg"
  using tk offers_work [OF o] by (auto simp: tokens_def)

lemma token_at:
  assumes t: "token iw A ts m' sg" and d: "distinct (map ii_rob_id ts)"
    and m: "m < length ts" "sg_rob_id sg = Some (ii_rob_id (ts ! m))"
  shows "token iw A ts m sg"
proof -
  have "m' < length ts" "Some (ii_rob_id (ts ! m')) = Some (ii_rob_id (ts ! m))" using t m(2) unfolding token_def by metis+
  then have "m' = m" using same_tag [OF d _ m(1)] by blast
  with t show ?thesis by blast
qed

lemma find_index:
  assumes "findInstByRobId t p = Some i" "distinct (map ii_rob_id (p_inst_table p))"
    and "m < length (p_inst_table p)" "ii_rob_id (p_inst_table p ! m) = t"
  shows "i = p_inst_table p ! m"
proof -
  obtain j where j: "j < length (p_inst_table p)" "i = p_inst_table p ! j"
    using found_rob [OF assms(1)] table_index by blast
  then show ?thesis using same_tag [OF assms(2) j(1) assms(3)] found_rob [OF assms(1)] assms(4) by simp
qed

lemma flow_same:
  assumes fl: "flow iw n P G fs p" and inf: "inflight iw n Q G' p'"
    and "map ilink (p_inst_table p') = map ilink (p_inst_table p)" "p_arf p' = p_arf p" "p_ee p' = p_ee p"
      "p_cdb_arbiter p' = p_cdb_arbiter p" "p_lsq p' = p_lsq p" "p_dispatch_reg p' = p_dispatch_reg p" "p_ifq p' = p_ifq p"
      "p_fetch_pc p' = p_fetch_pc p" "p_fetch_halted p' = p_fetch_halted p" "p_ideal_fetch_pc p' = p_ideal_fetch_pc p"
      "p_imem_req_outstanding p' = p_imem_req_outstanding p"
  shows "flow iw n Q G' fs p'"
proof -
  have "program_order iw (p_arf p) (p_inst_table p') fs (p_fetch_pc p)"
    using program_order_same flowD(11) [OF fl] assms(3) by blast
  with assms show ?thesis by (simp add: flow_def fetch_ok_def)
qed

lemma wb_flow: "wb iw n G p \<Longrightarrow> flow iw n (p_cdb_wakeup_pending p) G (front p) p"
  by (simp add: wb_def)

lemma wb_inflight: "wb iw n G p \<Longrightarrow> inflight iw n (p_cdb_wakeup_pending p) G p"
  by (simp add: wb_def flow_def)

lemma wb_more:
  assumes w: "wb iw n G p" and k: "\<And>sg. ee_offers (p_ee p) k = Some sg \<Longrightarrow> \<not> sg_offer_cdb sg"
  shows "wb iw n (insert k G) p"
proof -
  have "inflight iw n (p_cdb_wakeup_pending p) (insert k G) p" by (rule inflight_more [OF wb_inflight [OF w]]) blast
  then have "flow iw n (p_cdb_wakeup_pending p) (insert k G) (front p) p" by (rule flow_same [OF wb_flow [OF w]]) simp_all
  with w k show ?thesis by (auto simp: wb_def)
qed

section \<open>The resolve bus\<close>

lemma branch_no_result:
  assumes e: "entry_ok iw i" and t: "isControl i" "\<not> (ii_is_jump i \<and> ii_rd_used i)"
  shows "\<not> ii_rd_used i"
proof -
  have "control_uop (uo iw i)" "ii_is_jump i = u_is_jump (uo iw i)" using entry_flags [OF e] t(1) e by (simp_all add: entry_ok_def Let_def)
  then show ?thesis using entry_wf [OF e] entry_dest [OF e] t(2) by (auto simp: uop_wf_def)
qed

lemma narrows_index:
  assumes n: "narrows p q" and d: "distinct (map ii_rob_id (p_inst_table p))"
    and m: "m < length (p_inst_table p)" "m < length (p_inst_table q)"
    and "ii_rob_id (p_inst_table q ! m) = ii_rob_id (p_inst_table p ! m)" "ee_offers (p_ee p) k = Some sg"
      "sg_rob_id sg = Some (ii_rob_id (p_inst_table p ! m))"
  shows "ee_offers (p_ee q) k = Some sg"
  using narrowsD(2) [OF n assms(6), of "p_inst_table q ! m"] assms m by simp

text \<open>A resolved branch without a result for the bus is finished here.\<close>

lemma finish_branch:
  assumes w: "wb iw n G p" and m: "m < length (p_inst_table p)" "ii_br_resolved (p_inst_table p ! m)"
      "ii_dispatched_alu (p_inst_table p ! m)" "\<not> ii_rd_used (p_inst_table p ! m)"
    and o: "ee_offers (p_ee p) k = Some sg" "sg_rob_id sg = Some (ii_rob_id (p_inst_table p ! m))" "\<not> sg_offer_cdb sg"
    and r: "rob_writeResult (ii_rob_id (p_inst_table p ! m)) (sg_value sg) (p_rob p) = Some r"
    and p': "p' = upd_inst (ii_inst_id (p_inst_table p ! m)) (\<lambda>i. i\<lparr>ii_completed := True\<rparr>) (p\<lparr>p_rob := r\<rparr>)"
  shows "wb iw n (insert k G) p' \<and> narrows p p'"
proof -
  let ?ts = "p_inst_table p" and ?P = "p_cdb_wakeup_pending p"
  have inf: "inflight iw n ?P G p" by (rule wb_inflight [OF w])
  note D = inflightD [OF inf]
  have ids: "distinct (map ii_inst_id ?ts)" using D(5) by (simp add: ids_ok_def)
  obtain m' where m': "token iw (p_arf p) ?ts m' sg" using offer_token [OF D(7) o(1)] by blast
  then have v: "sg_value sg = val_at iw (p_arf p) ?ts m"
    using token_at [OF m' dataflowD(3) [OF D(4)] m(1) o(2)] by (simp add: token_def)
  have Q: "?P = ?P @ [(ii_rob_id (?ts ! m), sg_value sg)] \<or> ?P = ?P \<and> \<not> ii_rd_used (?ts ! m)" using m(4) by simp
  note wr = inflight_write [OF inf m(1,3) m(2) v r o(1,2) Q]
  note 1 = wr(1)
  have rs: "results r ! m \<noteq> None" using wr(2) by simp
  note 2 = inflight_complete [OF 1, of m]
  have e: "p' = p\<lparr>p_rob := r, p_inst_table := ?ts[m := (?ts ! m)\<lparr>ii_completed := True\<rparr>]\<rparr>"
    unfolding p' using upd_inst_nth [of "p\<lparr>p_rob := r\<rparr>" m "\<lambda>i. i\<lparr>ii_completed := True\<rparr>"] ids m(1) by simp
  then have 3: "inflight iw n ?P (insert k G) p'" using 2 m(1) rs by simp
  have il: "map ilink (p_inst_table p') = map ilink ?ts"
    using map_update_same [OF m(1), of ilink "(?ts ! m)\<lparr>ii_completed := True\<rparr>"] by (simp add: e ilink_def)
  have "flow iw n ?P (insert k G) (front p) p'" by (rule flow_same [OF wb_flow [OF w] 3 il]) (simp_all add: e)
  moreover have "freed_ok p'" by (rule freed_ok_set [OF _ m(1)]) (use w in \<open>simp_all add: e wb_def\<close>)
  moreover have "\<not> sg_offer_cdb x" if "j \<in> insert k G" "ee_offers (p_ee p') j = Some x" for j x
    using that w o by (auto simp: wb_def e)
  moreover have "narrows p p'" by (rule narrows_set [OF m(1)]) (simp_all add: e)
  ultimately show ?thesis by (simp add: wb_def e)
qed

definition offered :: "Processor \<Rightarrow> BrResolve \<Rightarrow> Stage \<Rightarrow> bool" where
  "offered p b sg \<longleftrightarrow> ee_offers (p_ee p) (br_slot b) = Some sg \<and> sg_is_control sg \<and> br_rob_id b = sg_rob_id sg
     \<and> br_value b = sg_value sg \<and> br_offer_cdb b = sg_offer_cdb sg"

definition settled :: "Processor \<Rightarrow> BrResolve \<Rightarrow> bool" where
  "settled p b \<longleftrightarrow> (\<forall>i \<in> set (p_inst_table p). br_rob_id b = Some (ii_rob_id i) \<longrightarrow> ii_br_resolved i)"

lemma settled_narrows: "settled p b \<Longrightarrow> narrows p q \<Longrightarrow> settled q b"
  unfolding settled_def using narrowsD(3) by metis

lemma settled_at:
  assumes d: "distinct (map ii_rob_id (p_inst_table p))" and m: "m < length (p_inst_table p)"
    "br_rob_id b = Some (ii_rob_id (p_inst_table p ! m))" "ii_br_resolved (p_inst_table p ! m)"
  shows "settled p b"
  unfolding settled_def
proof (intro ballI impI)
  fix i assume i: "i \<in> set (p_inst_table p)" "br_rob_id b = Some (ii_rob_id i)"
  then obtain j where j: "j < length (p_inst_table p)" "i = p_inst_table p ! j" using table_index by blast
  then have "j = m" using same_tag [OF d j(1) m(1)] i(2) m(2) by simp
  then show "ii_br_resolved i" using j m(3) by simp
qed

lemma wb_tags: "wb iw n G p \<Longrightarrow> distinct (map ii_rob_id (p_inst_table p))"
  using dataflowD(3) inflightD(4) wb_inflight by blast

lemma resolve_one_ok:
  assumes w: "wb iw n G p" and b: "offered p0 b sg" "narrows p0 p" and r: "resolve_one b (p, G) = Some (p', G')"
  shows "wb iw n G' p' \<and> narrows p p' \<and> settled p' b"
proof (cases "br_rob_id b")
  case None
  then show ?thesis using r w by (simp add: resolve_one_def narrows_refl settled_def)
next
  case (Some t)
  show ?thesis
  proof (cases "findInstByRobId t p")
    case None
    then show ?thesis using r w Some not_found_rob [OF None] by (auto simp: resolve_one_def narrows_refl settled_def)
  next
    case (Some info)
    let ?ts = "p_inst_table p"
    obtain m where m: "m < length ?ts" "info = ?ts ! m" "ii_rob_id (?ts ! m) = t"
      using found_rob [OF Some] table_index by metis
    note d = wb_tags [OF w] and D = inflightD [OF wb_inflight [OF w]]
    have sg: "sg_rob_id sg = Some (ii_rob_id (?ts ! m))" "ee_offers (p_ee p0) (br_slot b) = Some sg"
      using b(1) \<open>br_rob_id b = Some t\<close> m(3) by (simp_all add: offered_def)
    have o: "ee_offers (p_ee p) (br_slot b) = Some sg"
      by (rule narrowsD(2) [OF b(2) sg(2,1)]) (use m(1) in simp)
    obtain x where "token iw (p_arf p) ?ts x sg" using offer_token [OF D(7) o] by blast
    then have tk: "token iw (p_arf p) ?ts m sg" by (rule token_at [OF _ d m(1) sg(1)])
    have c: "isControl (?ts ! m)" "ii_dispatched_alu (?ts ! m)"
        "sg_offer_cdb sg = (ii_is_jump (?ts ! m) \<and> ii_rd_used (?ts ! m))"
      using tk b(1) by (auto simp: token_def offered_def)
    let ?first = "\<not> ii_br_resolved (?ts ! m)"
    obtain p1 where p1: "(if ?first then resolveBranch (?ts ! m) (br_value b) p else Some p) = Some p1"
      using r Some \<open>br_rob_id b = Some t\<close> m(2) by (auto simp: resolve_one_def Let_def split: bind_splits)
    have F: "wb iw n G p1 \<and> narrows p p1 \<and> m < length (p_inst_table p1)
      \<and> ii_inst_id (p_inst_table p1 ! m) = ii_inst_id (?ts ! m)
      \<and> ii_rob_id (p_inst_table p1 ! m) = ii_rob_id (?ts ! m) \<and> ii_br_resolved (p_inst_table p1 ! m)
      \<and> ii_dispatched_alu (p_inst_table p1 ! m) \<and> ii_rd_used (p_inst_table p1 ! m) = ii_rd_used (?ts ! m)"
    proof (cases ?first)
      case True
      then have "resolveBranch (?ts ! m) (br_value b) p = Some p1" using p1 by simp
      then show ?thesis using resolve_branch_ok [OF w m(1) c(2,1) True] by blast
    next
      case False
      then show ?thesis using p1 w m(1) c(2) narrows_refl by simp
    qed
    then have w1: "wb iw n G p1" and n1: "narrows p p1" by blast+
    have s1: "settled p1 b" using settled_at [OF wb_tags [OF w1], of m b] F \<open>br_rob_id b = Some t\<close> m(3) by simp
    have o1: "ee_offers (p_ee p1) (br_slot b) = Some sg"
      using narrows_index [OF n1 d m(1) _ _ o sg(1)] F by blast
    have val: "br_value b = sg_value sg" "br_offer_cdb b = sg_offer_cdb sg" using b(1) by (simp_all add: offered_def)
    show ?thesis
    proof (cases "sg_offer_cdb sg")
      case True
      then have "p' = p1" "G' = G" using r Some \<open>br_rob_id b = Some t\<close> m(2) p1 val by (simp_all add: resolve_one_def Let_def)
      with w1 n1 s1 show ?thesis by simp
    next
      case no: False
      have nd: "\<not> ii_rd_used (?ts ! m)"
        by (rule branch_no_result [OF dataflowD(8) [OF D(4) m(1)] c(1)]) (use no c(3) in simp)
      show ?thesis
      proof (cases "?first \<or> \<not> ii_completed (?ts ! m)")
        case True
        then obtain rob where rob: "rob_writeResult t (sg_value sg) (p_rob p1) = Some rob"
            "p' = upd_inst (ii_inst_id (?ts ! m)) (\<lambda>i. i\<lparr>ii_completed := True\<rparr>) (p1\<lparr>p_rob := rob\<rparr>)"
            "G' = insert (br_slot b) G"
          using r Some \<open>br_rob_id b = Some t\<close> m(2) p1 val no by (auto simp: resolve_one_def Let_def split: bind_splits)
        have "wb iw n (insert (br_slot b) G) p' \<and> narrows p1 p'"
          by (rule finish_branch [OF w1, of m _ sg rob]) (use F nd o1 sg(1) no rob m(3) in simp_all)
        then show ?thesis using narrows_trans [OF n1] settled_narrows [OF s1] rob(3) by blast
      next
        case False
        then have "p' = p1" "G' = insert (br_slot b) G"
          using r Some \<open>br_rob_id b = Some t\<close> m(2) p1 val no by (simp_all add: resolve_one_def Let_def)
        moreover have "wb iw n (insert (br_slot b) G) p1" by (rule wb_more [OF w1]) (use o1 no in simp)
        ultimately show ?thesis using n1 s1 by blast
      qed
    qed
  qed
qed

lemma resolve_all_ok:
  "wb iw n G p \<Longrightarrow> narrows p0 p \<Longrightarrow> (\<And>b. b \<in> set bs \<Longrightarrow> \<exists>sg. offered p0 b sg) \<Longrightarrow>
   resolve_all bs (p, G) = Some (p', G') \<Longrightarrow> wb iw n G' p' \<and> narrows p p' \<and> (\<forall>b \<in> set bs. settled p' b)"
proof (induction bs arbitrary: p G)
  case Nil
  then show ?case by (simp add: narrows_refl)
next
  case (Cons b bs)
  obtain p1 G1 where s: "resolve_one b (p, G) = Some (p1, G1)" "resolve_all bs (p1, G1) = Some (p', G')"
    using Cons.prems(4) by (auto split: bind_splits)
  obtain sg where sg: "offered p0 b sg" using Cons.prems(3) [of b] by auto
  have 1: "wb iw n G1 p1 \<and> narrows p p1 \<and> settled p1 b" by (rule resolve_one_ok [OF Cons.prems(1) sg Cons.prems(2) s(1)])
  have "wb iw n G' p' \<and> narrows p1 p' \<and> (\<forall>b \<in> set bs. settled p' b)"
    by (rule Cons.IH) (use 1 Cons.prems(3) s(2) narrows_trans [OF Cons.prems(2)] in auto)
  then show ?case using 1 narrows_trans settled_narrows by auto
qed

section \<open>The idle load/store queue\<close>

lemma issue_stores_queue: "issue_stores ba False is n (q, ms, mem) = Some (n', q', ms', mem') \<Longrightarrow> lq_queue q' = lq_queue q \<and> ms' = ms"
  by (induction "is" arbitrary: n q) (auto simp: upd_sb_def split: if_splits)

lemma drain_stores_queue: "lq_queue (fst (drain_stores ba is (q, mem))) = lq_queue q"
  by (induction "is" arbitrary: q mem) (simp_all add: upd_sb_def Let_def)

lemma pop_sb_queue: "lq_queue (pop_sb k q) = lq_queue q"
  by (induction k arbitrary: q) (simp_all add: Let_def)

lemma tick_ideal_idle:
  assumes "map_opt (tick_ideal_load ba mem) es = Some es'" "\<forall>e \<in> set es. \<not> le_valid e"
  shows "\<forall>e \<in> set es'. \<not> le_valid e"
proof
  fix e assume "e \<in> set es'"
  then obtain i where i: "i < length es" "e = es' ! i" using map_opt_length [OF assms(1)] by (metis in_set_conv_nth)
  then have "tick_ideal_load ba mem (es ! i) = Some e" using map_opt_nth [OF assms(1) i(1)] by simp
  moreover have "\<not> le_valid (es ! i)" using assms(2) i(1) by simp
  ultimately show "\<not> le_valid e" by (simp add: tick_ideal_load_def Let_def split: if_splits)
qed

lemma idle_tick:
  assumes t: "lsq_tick ba (q, ms, mem) = Some (q', ms', mem')" and i: "lsq_idle q" "\<not> lsq_usesCachedMem ms"
  shows "lsq_idle q' \<and> ms' = ms"
proof -
  obtain es where es: "map_opt (tick_ideal_load ba mem) (lq_queue q) = Some es"
    using t i(2) by (cases "map_opt (tick_ideal_load ba mem) (lq_queue q)") (auto simp: lsq_tick_def Let_def)
  have idle: "\<forall>e \<in> set es. \<not> le_valid e" using tick_ideal_idle [OF es] i(1) by (simp add: lsq_idle_def)
  obtain k q1 where iq: "issue_stores ba False (sb_window (q\<lparr>lq_queue := es\<rparr>)) 0 (q\<lparr>lq_queue := es\<rparr>, ms, mem) = Some (k, q1, ms, mem)"
    using issue_stores_ideal by blast
  obtain q2 mem2 where d: "drain_stores ba (sb_window q1) (q1, mem) = (q2, mem2)" by fastforce
  have "q' = pop_sb (lq_sb_capacity q2) q2 \<and> ms' = ms"
    using t i(2) unfolding lsq_tick_def Let_def by (simp add: es iq d lsq_issueMemoryRequests_def)
  moreover have "lq_queue q1 = es" using issue_stores_queue [OF iq] by simp
  moreover have "lq_queue q2 = lq_queue q1" using drain_stores_queue [of ba "sb_window q1" q1 mem] d by simp
  ultimately show ?thesis using idle by (simp add: lsq_idle_def pop_sb_queue)
qed

lemma idle_producers:
  assumes "lsq_idle q"
  shows "\<forall>l \<in> set (lsq_collectProducersFixed q). \<not> cp_valid l \<and> cp_source l \<noteq> 0"
    "length (lsq_collectProducersFixed q) = lq_num_cdb_ports q"
proof -
  have "ready_loads q = []" using assms by (auto simp: ready_loads_def sort_age_def load_offered_def lsq_idle_def)
  then show "\<forall>l \<in> set (lsq_collectProducersFixed q). \<not> cp_valid l \<and> cp_source l \<noteq> 0"
    by (auto simp: lsq_collectProducersFixed_def cp0_def)
qed (simp add: lsq_collectProducersFixed_def Let_def)

lemma ideal_uncached: "hex_env iw p \<Longrightarrow> \<not> useCachedMem p \<and> \<not> lsq_usesCachedMem (p_memsys p)"
  by (simp add: hex_env_def useCachedMem_def lsq_usesCachedMem_def)

lemma memory_cycle_idle:
  assumes e: "hex_env iw p" and i: "lsq_idle (p_lsq p)" and r: "memory_cycle p = Some p'"
  shows "\<exists>q mem. p' = p\<lparr>p_lsq := q, p_mem := mem\<rparr> \<and> lsq_idle q \<and> lq_num_cdb_ports q = lq_num_cdb_ports (p_lsq p)"
proof -
  let ?q = "lsq_promoteCdbWaits (p_lsq p)"
  have iq: "lsq_idle ?q" using i by (auto simp: lsq_idle_def lsq_promoteCdbWaits_def)
  obtain q ms mem where t: "lsq_tick (p_byte_addressed p) (?q, p_memsys p, p_mem p) = Some (q, ms, mem)"
      "p' = p\<lparr>p_lsq := q, p_memsys := ms, p_mem := mem\<rparr>"
    using r ideal_uncached [OF e] by (auto simp: memory_cycle_def Let_def useCachedMem_def split: bind_splits)
  have "lsq_keeps (p_lsq p) q" by (rule lsq_keeps_trans [OF lsq_keeps_promote lsq_keeps_tick [OF t(1)]])
  moreover have "lsq_idle q \<and> ms = p_memsys p" using idle_tick [OF t(1) iq] ideal_uncached [OF e] by simp
  ultimately show ?thesis using t(2) by (intro exI [of _ q] exI [of _ mem]) (simp add: lsq_keeps_def)
qed

lemma wb_memory:
  assumes w: "wb iw n G p" and r: "memory_cycle p = Some p'"
  shows "wb iw n G p' \<and> p_ee p' = p_ee p"
proof -
  note D = inflightD [OF wb_inflight [OF w]]
  obtain q mem where q: "p' = p\<lparr>p_lsq := q, p_mem := mem\<rparr>" "lsq_idle q" "lq_num_cdb_ports q = lq_num_cdb_ports (p_lsq p)"
    using memory_cycle_idle [OF D(2,8) r] by blast
  have "flow iw n (p_cdb_wakeup_pending p) G (front p) p'"
    using wb_flow [OF w] q by (simp add: flow_defs hex_env_def fetch_ok_def lanes_ok_def)
  with w show ?thesis by (simp add: wb_def q freed_ok_def)
qed

section \<open>Grants\<close>

definition branches_settled :: "Processor \<Rightarrow> bool" where
  "branches_settled p \<longleftrightarrow> (\<forall>k sg. ee_offers (p_ee p) k = Some sg \<and> sg_is_control sg \<longrightarrow>
     (\<forall>i \<in> set (p_inst_table p). sg_rob_id sg = Some (ii_rob_id i) \<longrightarrow> ii_br_resolved i))"

abbreviation link_view :: "InstInfo \<Rightarrow> (u64 \<times> u64) \<times> tag \<times> bool" where
  "link_view i \<equiv> (ilink i, ii_rob_id i, ii_br_resolved i)"

lemma find_nth:
  assumes "distinct (map ii_rob_id (p_inst_table p))" "m < length (p_inst_table p)"
  shows "findInstByRobId (ii_rob_id (p_inst_table p ! m)) p = Some (p_inst_table p ! m)"
proof (cases "findInstByRobId (ii_rob_id (p_inst_table p ! m)) p")
  case None
  then show ?thesis using not_found_rob [OF None, of "p_inst_table p ! m"] assms(2) by simp
next
  case (Some i)
  then show ?thesis using find_index [OF Some assms refl] by simp
qed

lemma settled_map:
  assumes "branches_settled p" "map link_view (p_inst_table p') = map link_view (p_inst_table p)" "p_ee p' = p_ee p"
  shows "branches_settled p'"
proof -
  have "(\<forall>i \<in> set xs. x = Some (ii_rob_id i) \<longrightarrow> ii_br_resolved i)
      \<longleftrightarrow> (\<forall>(l, t, r) \<in> set (map link_view xs). x = Some t \<longrightarrow> r)" for xs x by simp
  with assms show ?thesis unfolding branches_settled_def by (simp only:)
qed

lemma grant_one_ok:
  assumes inf: "inflight iw n (p_cdb_wakeup_pending p) G p" and bs: "branches_settled p"
    and o: "ee_offers (p_ee p) k = Some sg" and r: "cdb_rob_id r = sg_rob_id sg" "cdb_value r = sg_value sg"
    and l: "cp_source l = 0" "cp_slot l = Some k" and g: "grant_one (r, l) (p, G) = Some (p', G')"
  shows "\<exists>rob pend ts. p' = p\<lparr>p_rob := rob, p_cdb_wakeup_pending := pend, p_inst_table := ts\<rparr>
    \<and> map link_view ts = map link_view (p_inst_table p) \<and> inflight iw n pend (insert k G) p' \<and> G' = insert k G"
proof -
  let ?ts = "p_inst_table p" and ?P = "p_cdb_wakeup_pending p"
  note D = inflightD [OF inf]
  note d = dataflowD(3) [OF D(4)]
  obtain m where tk: "token iw (p_arf p) ?ts m sg" using offer_token [OF D(7) o] by blast
  then have m: "m < length ?ts" "sg_rob_id sg = Some (ii_rob_id (?ts ! m))" "ii_dispatched_alu (?ts ! m)"
      "sg_value sg = val_at iw (p_arf p) ?ts m" "sg_is_control sg = isControl (?ts ! m)"
    by (simp_all only: token_def)
  have br: "isControl (?ts ! m) \<Longrightarrow> ii_br_resolved (?ts ! m)" using bs o m(1,2,5) unfolding branches_settled_def by (metis nth_mem)
  let ?c = "(?ts ! m)\<lparr>ii_completed := True\<rparr>" and ?t = "ii_rob_id (?ts ! m)"
  note f = find_nth [OF d m(1)]
  have ids: "distinct (map ii_inst_id ?ts)" using D(5) by (simp add: ids_ok_def)
  have rm: "cdb_rob_id r = Some ?t" using r(1) m(2) by simp
  obtain p1 where p1: "broadcastCDB r p = Some p1" using g by (cases "broadcastCDB r p") (auto simp: grant_one_def)
  then obtain rob where rob: "rob_writeResult ?t (sg_value sg) (p_rob p) = Some rob"
      "p1 = (let q = p\<lparr>p_rob := rob, p_cdb_wakeup_pending := ?P @ [(?t, sg_value sg)]\<rparr> in
         if isControl (?ts ! m) then upd_inst (ii_inst_id (?ts ! m)) (\<lambda>i. i\<lparr>ii_completed := True\<rparr>) q else q)"
    using f r(2) by (auto simp: broadcastCDB_def rm Let_def split: bind_splits)
  let ?q = "p\<lparr>p_rob := rob, p_cdb_wakeup_pending := ?P @ [(?t, sg_value sg)]\<rparr>"
  let ?q' = "?q\<lparr>p_inst_table := ?ts[m := ?c]\<rparr>"
  have u: "upd_inst (ii_inst_id (?ts ! m)) (\<lambda>i. i\<lparr>ii_completed := True\<rparr>) ?q = ?q'"
    using upd_inst_nth [of ?q m "\<lambda>i. i\<lparr>ii_completed := True\<rparr>"] ids m(1) by simp
  have p1e: "p1 = (if isControl (?ts ! m) then ?q' else ?q)" using rob(2) u by (simp add: Let_def)
  have "findInstByRobId ?t p1 = Some (p_inst_table p1 ! m)"
  proof -
    have "map ii_rob_id (?ts[m := ?c]) = map ii_rob_id ?ts" by (rule map_update_same [OF m(1)]) simp
    then have t: "map ii_rob_id (p_inst_table p1) = map ii_rob_id ?ts" by (simp add: p1e)
    have l: "m < length (p_inst_table p1)" "ii_rob_id (p_inst_table p1 ! m) = ?t" using m(1) by (simp_all add: p1e)
    have "distinct (map ii_rob_id (p_inst_table p1))" using d unfolding t .
    from find_nth [OF this l(1)] show ?thesis unfolding l(2) .
  qed
  moreover have "ii_inst_id (p_inst_table p1 ! m) = ii_inst_id (?ts ! m)" using m(1) by (simp add: p1e)
  moreover have "upd_inst (ii_inst_id (?ts ! m)) (\<lambda>i. i\<lparr>ii_completed := True\<rparr>) p1 = ?q'"
  proof (cases "isControl (?ts ! m)")
    case True
    have "map ii_inst_id (?ts[m := ?c]) = map ii_inst_id ?ts" by (rule map_update_same [OF m(1)]) simp
    then have "distinct (map ii_inst_id (p_inst_table ?q'))" using ids by simp
    from upd_inst_nth [OF this, of m "\<lambda>i. i\<lparr>ii_completed := True\<rparr>"] m(1) True show ?thesis by (simp add: p1e)
  next
    case False
    then show ?thesis using u by (simp add: p1e)
  qed
  ultimately have e: "p' = ?q'" "G' = insert k G" using g p1 l by (simp_all add: grant_one_def rm)
  note wr = inflight_write [OF inf m(1,3) br m(4) rob(1) o m(2) disjI1 [OF refl]]
  have "results rob ! m \<noteq> None" using wr(2) by simp
  then have "inflight iw n (?P @ [(?t, sg_value sg)]) (insert k G) (p\<lparr>p_rob := rob, p_inst_table := ?ts[m := ?c]\<rparr>)"
    using inflight_complete [OF wr(1), of m] m(1) by simp
  then have "inflight iw n (?P @ [(?t, sg_value sg)]) (insert k G) p'" by (simp add: e inflight_def hex_env_def)
  moreover have "map link_view (?ts[m := ?c]) = map link_view ?ts" by (rule map_update_same [OF m(1)]) (simp add: ilink_def)
  ultimately show ?thesis using e by blast
qed

definition grantable :: "Processor \<Rightarrow> CDBResult \<times> CdbProducer \<Rightarrow> nat \<Rightarrow> bool" where
  "grantable p g k \<longleftrightarrow> (\<exists>sg. ee_offers (p_ee p) k = Some sg \<and> cdb_rob_id (fst g) = sg_rob_id sg \<and> cdb_value (fst g) = sg_value sg)
     \<and> cp_source (snd g) = 0 \<and> cp_slot (snd g) = Some k"

lemma grant_all_ok:
  "inflight iw n (p_cdb_wakeup_pending p) G p \<Longrightarrow> branches_settled p \<Longrightarrow> (\<And>g. g \<in> set gs \<Longrightarrow> \<exists>k. grantable p g k) \<Longrightarrow>
   grant_all gs (p, G) = Some (p', G') \<Longrightarrow>
   \<exists>rob pend ts. p' = p\<lparr>p_rob := rob, p_cdb_wakeup_pending := pend, p_inst_table := ts\<rparr>
    \<and> map link_view ts = map link_view (p_inst_table p) \<and> inflight iw n pend G' p'
    \<and> G' = G \<union> {k. \<exists>g \<in> set gs. cp_slot (snd g) = Some k}"
proof (induction gs arbitrary: p G)
  case Nil
  then show ?case
    by (intro exI [of _ "p_rob p"] exI [of _ "p_cdb_wakeup_pending p"] exI [of _ "p_inst_table p"]) simp
next
  case (Cons g gs)
  obtain r l where g: "g = (r, l)" by fastforce
  obtain k sg where k: "ee_offers (p_ee p) k = Some sg" "cdb_rob_id r = sg_rob_id sg" "cdb_value r = sg_value sg"
      "cp_source l = 0" "cp_slot l = Some k"
    using Cons.prems(3) [of g] by (auto simp: grantable_def g)
  obtain p1 G1 where s: "grant_one (r, l) (p, G) = Some (p1, G1)" "grant_all gs (p1, G1) = Some (p', G')"
    using Cons.prems(4) g by (auto split: bind_splits)
  obtain rob pend ts where p1: "p1 = p\<lparr>p_rob := rob, p_cdb_wakeup_pending := pend, p_inst_table := ts\<rparr>"
      "map link_view ts = map link_view (p_inst_table p)" "inflight iw n pend (insert k G) p1" "G1 = insert k G"
    using grant_one_ok [OF Cons.prems(1,2) k s(1)] by blast
  have 1: "inflight iw n (p_cdb_wakeup_pending p1) G1 p1" using p1(1,3,4) by simp
  have 2: "branches_settled p1" by (rule settled_map [OF Cons.prems(2)]) (use p1 in simp_all)
  have 3: "\<exists>k. grantable p1 g k" if "g \<in> set gs" for g
    using Cons.prems(3) [of g] that p1(1) by (simp add: grantable_def)
  obtain rob' pend' ts' where q: "p' = p1\<lparr>p_rob := rob', p_cdb_wakeup_pending := pend', p_inst_table := ts'\<rparr>"
      "map link_view ts' = map link_view (p_inst_table p1)" "inflight iw n pend' G' p'"
      "G' = G1 \<union> {k. \<exists>g \<in> set gs. cp_slot (snd g) = Some k}"
    using Cons.IH [OF 1 2 3 s(2)] by blast
  have "p' = p\<lparr>p_rob := rob', p_cdb_wakeup_pending := pend', p_inst_table := ts'\<rparr>" using q(1) p1(1) by simp
  moreover have "map link_view ts' = map link_view (p_inst_table p)" using q(2) p1(1,2) by simp
  moreover have "G' = G \<union> {k. \<exists>g \<in> set (g # gs). cp_slot (snd g) = Some k}" using q(4) p1(4) k(5) g by auto
  ultimately show ?case using q(3) by blast
qed

section \<open>The end of the cycle\<close>

lemma ee_apply_cong:
  assumes "\<And>i. i < length (ee_units s) \<Longrightarrow> sg_valid (eu_output (ee_units s ! i)) \<Longrightarrow> i \<in> G \<longleftrightarrow> i \<in> G'"
  shows "ee_applyCdbAndAdvance G s = ee_applyCdbAndAdvance G' s"
proof -
  have "eu_retire (i \<in> G) r (ee_units s ! i) = eu_retire (i \<in> G') r (ee_units s ! i)" if "i < length (ee_units s)" for i r
    using assms [OF that] by (auto simp: eu_retire_def)
  then show ?thesis by (simp add: ee_applyCdbAndAdvance_def)
qed

lemma tokens_drain:
  assumes tk: "tokens iw A ts rs G s" and wf: "ee_wf s"
  shows "tokens iw A ts rs {} (ee_applyCdbAndAdvance G s)"
proof -
  let ?M = "mset (map (\<lambda>k. the (ee_offers s k)) (ee_leaving G s))" and ?s = "ee_applyCdbAndAdvance G s"
  note w = ee_apply_work [OF wf, of G]
  have c: "count (image_mset sg_rob_id (ee_work s)) t \<le> 1" for t using tk by (simp add: tokens_def)
  have cc: "count (image_mset sg_rob_id (ee_work s)) t
      = count (image_mset sg_rob_id ?M) t + count (image_mset sg_rob_id (ee_work ?s)) t" for t
    by (subst w) (simp add: image_mset_union)
  have "\<exists>m. token iw A ts m sg \<and> rs ! m = None" if sg: "sg \<in># ee_work ?s" for sg
  proof -
    have "sg \<in># ee_work s" by (subst w) (use sg in simp)
    then obtain m where m: "token iw A ts m sg" "rs ! m = None \<or> leaving G s sg" using tk by (auto simp: tokens_def)
    have "\<not> leaving G s sg"
    proof
      assume "leaving G s sg"
      then obtain k where k: "k \<in> G" "ee_offers s k = Some sg" by (auto simp: leaving_def)
      then have "k \<in> set (ee_leaving G s)" by (auto simp: ee_leaving_def ee_offers_def split: if_splits)
      then have "sg \<in># ?M" using k(2) by force
      then have "sg_rob_id sg \<in># image_mset sg_rob_id ?M" "sg_rob_id sg \<in># image_mset sg_rob_id (ee_work ?s)"
        using sg by simp_all
      then have "0 < count (image_mset sg_rob_id ?M) (sg_rob_id sg)" "0 < count (image_mset sg_rob_id (ee_work ?s)) (sg_rob_id sg)"
        by (simp_all only: count_greater_zero_iff)
      with c [of "sg_rob_id sg"] cc [of "sg_rob_id sg"] show False by linarith
    qed
    with m show ?thesis by blast
  qed
  moreover have "count (image_mset sg_rob_id (ee_work ?s)) t \<le> 1" for t using c [of t] cc [of t] by linarith
  ultimately show ?thesis unfolding tokens_def leaving_def by blast
qed

lemma granted_lane:
  assumes la: "lanes_ok a s q" and id: "lsq_idle q" and ps: "ps = ee_collectProducersFixed s @ lsq_collectProducersFixed q"
    and i: "i \<in> set (arb_granted ps a)"
  shows "i < length (ee_units s)" "arb_lane a ps ! i = ee_lane i (ee_units s ! i)"
    "ee_offers s i = Some (eu_output (ee_units s ! i))" "sg_offer_cdb (eu_output (ee_units s ! i))"
proof -
  have mir: "ee_mirror a s" and np: "arb_num_producers a = length (ee_units s) + lq_num_cdb_ports q"
    using la by (simp_all add: lanes_ok_def)
  then have wf: "arb_wf a" "ee_wf s" by (simp_all add: ee_mirror_def)
  have r: "i < arb_num_producers a" "arb_request a ps ! i" using arb_granted_props(2) [OF wf(1)] i by auto
  show l: "i < length (ee_units s)"
  proof (rule ccontr)
    assume n: "\<not> i < length (ee_units s)"
    then have "\<not> arb_pending_valid a ! i" using la r(1) by (auto simp: lanes_ok_def)
    moreover have "ps ! i \<in> set (lsq_collectProducersFixed q)"
      using n r(1) np idle_producers(2) [OF id] by (simp add: ps nth_append)
    then have "\<not> cp_valid (ps ! i)" using idle_producers(1) [OF id] by blast
    ultimately show False using r by (simp add: arb_request_def)
  qed
  note ml = ee_mirror_lane [OF mir l r(2) [unfolded ps]]
  then show "arb_lane a ps ! i = ee_lane i (ee_units s ! i)" by (simp add: ps)
  have "sg_valid (eu_output (ee_units s ! i)) \<and> sg_offer_cdb (eu_output (ee_units s ! i))" using ml by (simp add: ee_lane_valid)
  then show "ee_offers s i = Some (eu_output (ee_units s ! i))" "sg_offer_cdb (eu_output (ee_units s ! i))"
    using ee_drain_offers [OF wf(2) l] by simp_all
qed

lemma lanes_cycle:
  assumes la: "lanes_ok a s q" and id: "lsq_idle q" and ps: "ps = ee_collectProducersFixed s @ lsq_collectProducersFixed q"
    and sel: "arb_selectGrants ps a = Some (g, a1)"
    and G: "\<And>k sg. k \<in> G \<Longrightarrow> ee_offers s k = Some sg \<Longrightarrow> \<not> sg_offer_cdb sg"
    and G': "G' = G \<union> set (arb_granted ps a)"
    and s2: "s2 = ee_applyCdbAndAdvance G' (ee_setLaneReady rd s)"
    and com: "arb_commitPending (ee_collectProducersFixed s2 @ lsq_collectProducersFixed q) a1 = Some a2"
  shows "lanes_ok a2 s2 q"
proof -
  let ?o = "lsq_collectProducersFixed q" and ?I = "arb_granted ps a"
  let ?R = "{k \<in> G. ee_offers s k \<noteq> None}"
  have mir: "ee_mirror a s" and np: "arb_num_producers a = length (ee_units s) + lq_num_cdb_ports q"
    using la by (simp_all add: lanes_ok_def)
  then have wf: "arb_wf a" "ee_wf s" by (simp_all add: ee_mirror_def)
  have ps': "ps = ee_lanes ?o s" by (simp add: ps ee_lanes_def)
  have lp: "length ps = arb_num_producers a" using np idle_producers(2) [OF id] by (simp add: ps)
  obtain a1' where "arb_selectGrants ps a = Some (\<lparr>gr_out = map (arb_result ps a) ?I,
       gr_indices = ?I, gr_lanes = map (\<lambda>i. arb_lane a ps ! i) ?I,
       gr_producer_ready = map (\<lambda>i. \<not> arb_pending_valid a ! i \<or> i \<in> set ?I) [0..<arb_num_producers a]\<rparr>, a1')"
      "arb_wf a1'" "arb_num_producers a1' = arb_num_producers a" "arb_pending_valid a1' = arb_pending_valid a"
      "arb_pending a1' = arb_pending a" "arb_last_grant a1' = map (\<lambda>i. i \<in> set ?I) [0..<arb_num_producers a]"
    using selectGrants_ok [OF wf(1) lp] by blast
  with sel have a1: "arb_wf a1" "arb_num_producers a1 = arb_num_producers a" "arb_pending_valid a1 = arb_pending_valid a"
      "arb_pending a1 = arb_pending a" "arb_last_grant a1 = map (\<lambda>i. i \<in> set ?I) [0..<arb_num_producers a]" by simp_all
  have len2: "length (ee_units s2) = length (ee_units s)" by (simp add: s2)
  then have "length (ee_collectProducersFixed s2 @ ?o) = arb_num_producers a1"
    using np idle_producers(2) [OF id] a1(2) by simp
  from commitPending_ok [OF a1(1) this] com have a2: "arb_wf a2" "arb_num_producers a2 = arb_num_producers a"
      "\<forall>i < arb_num_producers a. (arb_pending_valid a2 ! i, arb_pending a2 ! i) = next_pending (arb_pending_valid a ! i)
        (i \<in> set ?I) (arb_pending a ! i) (ee_lanes ?o s2 ! i)"
    using a1 by (auto simp: ee_lanes_def)
  have won: "ee_won ?o a s = ?I"
  proof -
    have "filter (\<lambda>i. i < length (ee_units s)) ?I = ?I" using granted_lane(1) [OF la id ps] by (intro filter_True) blast
    then show ?thesis by (simp add: ee_won_def ps')
  qed
  have R: "ee_drain ?R s" using G by (auto simp: ee_drain_def ee_offers_def split: if_splits)
  have valid: "ee_offers s i \<noteq> None" if "i < length (ee_units s)" "sg_valid (eu_output (ee_units s ! i))" for i
    using ee_drain_offers [OF wf(2) that] by simp
  have "s2 = ee_applyCdbAndAdvance (?R \<union> set (ee_won ?o a s)) (ee_setLaneReady rd s)"
    unfolding s2 won G' by (rule ee_apply_cong) (use valid in auto)
  then have m2: "ee_mirror a2 s2"
    using ee_mirror_step [OF mir R _ _ a2(1,2) _ a2(3) [unfolded ps']] np idle_producers [OF id] by simp
  have "i < length (ee_units s2)" if i: "i < arb_num_producers a2" "arb_pending_valid a2 ! i" for i
  proof (rule ccontr)
    assume n: "\<not> i < length (ee_units s2)"
    have ia: "i < arb_num_producers a" using i(1) a2(2) by simp
    have "\<not> arb_pending_valid a ! i" using la ia n len2 by (auto simp: lanes_ok_def)
    moreover have "ee_lanes ?o s2 ! i \<in> set ?o"
      using n ia np len2 idle_producers(2) [OF id] by (simp add: ee_lanes_def nth_append)
    then have "\<not> cp_valid (ee_lanes ?o s2 ! i)" using idle_producers(1) [OF id] by blast
    ultimately show False using a2(3) [rule_format, OF ia] i(2) by (simp add: next_pending_def)
  qed
  then show ?thesis using m2 a2(2) np len2 by (simp add: lanes_ok_def)
qed

lemma resolves_offered:
  assumes wf: "ee_wf (p_ee p)" and b: "b \<in> set (ee_collectBranchResolves (p_ee p))"
  shows "\<exists>sg. offered p b sg"
  using b ee_drain_offers [OF wf] by (auto simp: ee_collectBranchResolves_def offered_def Let_def)

lemma offered_resolves:
  assumes "ee_offers s k = Some sg" "sg_is_control sg"
  shows "\<exists>b \<in> set (ee_collectBranchResolves s). br_slot b = k \<and> br_rob_id b = sg_rob_id sg"
proof -
  have k: "k < length (ee_units s)" "sg = eu_output (ee_units s ! k)" "sg_valid sg"
    using assms(1) by (auto simp: ee_offers_def split: if_splits)
  then show ?thesis using assms(2) by (force simp: ee_collectBranchResolves_def Let_def)
qed

lemma flow_writebackStage:
  assumes fl: "flow iw n (p_cdb_wakeup_pending p) {} (front p) p" "freed_ok p" and r: "writebackStage p = Some p'"
  shows "flow iw n (p_cdb_wakeup_pending p') {} (front p') p' \<and> freed_ok p'"
proof -
  obtain p1 where p1: "memory_cycle p = Some p1" using r by (auto simp: writebackStage_def split: bind_splits)
  obtain bs where bs: "sorted_resolves (p_rob p1) (ee_collectBranchResolves (p_ee p1)) = Some bs"
    using r p1 by (auto simp: writebackStage_def split: bind_splits)
  obtain p2 G where p2: "resolve_all bs (p1, {}) = Some (p2, G)"
    using r p1 bs by (auto simp: writebackStage_def split: bind_splits)
  let ?ps = "producers p2"
  obtain g a1 where g: "arb_selectGrants ?ps (p_cdb_arbiter p2) = Some (g, a1)"
    using r p1 bs p2 by (auto simp: writebackStage_def split: bind_splits)
  let ?s1 = "ee_setLaneReady (take (length (ee_units (p_ee p2))) (gr_producer_ready g)) (p_ee p2)"
  let ?p3 = "p2\<lparr>p_cdb_arbiter := a1, p_ee := ?s1\<rparr>"
  obtain p4 G' where p4: "grant_all (zip (gr_out g) (gr_lanes g)) (?p3, G) = Some (p4, G')"
    using r p1 bs p2 g by (auto simp: writebackStage_def Let_def split: bind_splits)
  let ?p5 = "p4\<lparr>p_ee := ee_applyCdbAndAdvance G' (p_ee p4)\<rparr>"
  obtain a2 where a2: "arb_commitPending (producers ?p5) (p_cdb_arbiter ?p5) = Some a2" "p' = ?p5\<lparr>p_cdb_arbiter := a2\<rparr>"
    using r p1 bs p2 g p4 by (auto simp: writebackStage_def Let_def split: bind_splits)
  have w0: "wb iw n {} p" using fl by (simp add: wb_def)
  have w1: "wb iw n {} p1" using wb_memory [OF w0 p1] by blast
  have wf1: "ee_wf (p_ee p1)" using flowD(8) [OF wb_flow [OF w1]] by (simp add: lanes_ok_def ee_mirror_def)
  have sb: "set bs = set (ee_collectBranchResolves (p_ee p1))" using bs by (auto simp: sorted_resolves_def split: if_splits)
  have ob: "\<exists>sg. offered p1 b sg" if "b \<in> set bs" for b using resolves_offered [OF wf1] that sb by simp
  have R: "wb iw n G p2" "narrows p1 p2" "\<forall>b \<in> set bs. settled p2 b"
    using resolve_all_ok [OF w1 narrows_refl ob p2] by blast+
  have st2: "branches_settled p2"
    unfolding branches_settled_def
  proof (intro allI impI ballI)
    fix k sg i assume k: "ee_offers (p_ee p2) k = Some sg \<and> sg_is_control sg"
      and i: "i \<in> set (p_inst_table p2)" "sg_rob_id sg = Some (ii_rob_id i)"
    have "ee_offers (p_ee p1) k = Some sg" using narrowsD(1) [OF R(2)] k by blast
    then obtain b where b: "b \<in> set bs" "br_rob_id b = sg_rob_id sg" using offered_resolves k sb by metis
    then have "settled p2 b" using R(3) by blast
    then show "ii_br_resolved i" unfolding settled_def using i b(2) by simp
  qed
  note fl2 = wb_flow [OF R(1)]
  note D = flowD [OF fl2] and inf2 = wb_inflight [OF R(1)]
  have la: "lanes_ok (p_cdb_arbiter p2) (p_ee p2) (p_lsq p2)" and id: "lsq_idle (p_lsq p2)" by (rule D(8), rule D(9))
  have wf2: "ee_wf (p_ee p2)" "arb_wf (p_cdb_arbiter p2)" using la by (simp_all add: lanes_ok_def ee_mirror_def)
  let ?I = "arb_granted ?ps (p_cdb_arbiter p2)"
  note gl = granted_lane [OF la id producers_def]
  have lp: "length ?ps = arb_num_producers (p_cdb_arbiter p2)"
    using la idle_producers(2) [OF id] by (simp add: producers_def lanes_ok_def)
  have gg: "gr_out g = map (arb_result ?ps (p_cdb_arbiter p2)) ?I" "gr_lanes g = map (\<lambda>i. arb_lane (p_cdb_arbiter p2) ?ps ! i) ?I"
    using selectGrants_ok [OF wf2(2) lp] g by auto
  have z: "zip (gr_out g) (gr_lanes g) = map (\<lambda>i. (arb_result ?ps (p_cdb_arbiter p2) i, arb_lane (p_cdb_arbiter p2) ?ps ! i)) ?I"
    by (simp add: gg zip_map1 zip_map2 zip_same_conv_map)
  have gr: "grantable ?p3 (arb_result ?ps (p_cdb_arbiter p2) i, arb_lane (p_cdb_arbiter p2) ?ps ! i) i" if "i \<in> set ?I" for i
  proof -
    note o = gl [OF that]
    have "cp_valid (ee_lane i (ee_units (p_ee p2) ! i))" using o(3,4) by (auto simp: ee_lane_valid ee_offers_def split: if_splits)
    from ee_lane_result [OF this] o show ?thesis by (simp add: grantable_def arb_result_def)
  qed
  have inf3: "inflight iw n (p_cdb_wakeup_pending ?p3) G ?p3"
    using inf2 by (simp add: inflight_def hex_env_def tokens_def leaving_def)
  have st3: "branches_settled ?p3" using st2 by (simp add: branches_settled_def)
  have "\<exists>k. grantable ?p3 x k" if "x \<in> set (zip (gr_out g) (gr_lanes g))" for x using that gr z by auto
  from grant_all_ok [OF inf3 st3 this p4] obtain rob pend ts where
      e4: "p4 = ?p3\<lparr>p_rob := rob, p_cdb_wakeup_pending := pend, p_inst_table := ts\<rparr>"
      "map link_view ts = map link_view (p_inst_table p2)" "inflight iw n pend G' p4"
      "G' = G \<union> {k. \<exists>x \<in> set (zip (gr_out g) (gr_lanes g)). cp_slot (snd x) = Some k}" by auto
  have slots: "{k. \<exists>x \<in> set (zip (gr_out g) (gr_lanes g)). cp_slot (snd x) = Some k} = set ?I"
  proof -
    have "cp_slot (arb_lane (p_cdb_arbiter p2) ?ps ! i) = Some i" if "i \<in> set ?I" for i using gr [OF that] by (simp add: grantable_def)
    then show ?thesis unfolding z by auto
  qed
  have G': "G' = G \<union> set ?I" using e4(4) slots by simp
  let ?s2 = "ee_applyCdbAndAdvance G' ?s1"
  have "lanes_ok a2 ?s2 (p_lsq p2)"
  proof (rule lanes_cycle [OF la id producers_def g _ G' refl])
    show "k \<in> G \<Longrightarrow> ee_offers (p_ee p2) k = Some sg \<Longrightarrow> \<not> sg_offer_cdb sg" for k sg using R(1) by (simp add: wb_def)
    show "arb_commitPending (ee_collectProducersFixed ?s2 @ lsq_collectProducersFixed (p_lsq p2)) a1 = Some a2"
      using a2(1) by (simp add: e4(1) producers_def)
  qed
  moreover have "tokens iw (p_arf p4) (p_inst_table p4) (results (p_rob p4)) {} ?s2"
  proof (rule tokens_drain)
    show "tokens iw (p_arf p4) (p_inst_table p4) (results (p_rob p4)) G' ?s1" using inflightD(7) [OF e4(3)] by (simp add: e4(1))
    show "ee_wf ?s1" using wf2(1) unfolding ee_setLaneReady_frame by (simp add: ee_wf_def)
  qed
  then have "inflight iw n pend {} p'" using e4(3) by (simp add: a2(2) e4(1) inflight_def hex_env_def)
  moreover have "program_order iw (p_arf p2) ts (front p2) (p_fetch_pc p2)"
  proof (rule program_order_same [OF D(11)])
    have "map fst (map link_view ts) = map fst (map link_view (p_inst_table p2))" by (simp only: e4(2))
    then show "map ilink ts = map ilink (p_inst_table p2)" by (simp add: comp_def)
  qed
  ultimately have "flow iw n pend {} (front p') p'"
    using D(12,13) by (simp add: flow_def a2(2) e4(1) fetch_ok_def)
  moreover have "freed_ok p'"
  proof -
    have "(\<lambda>x. fst (snd x)) ` set (map link_view ts) = (\<lambda>x. fst (snd x)) ` set (map link_view (p_inst_table p2))"
      by (simp only: e4(2))
    then have "ii_rob_id ` set ts = ii_rob_id ` set (p_inst_table p2)" by (simp add: image_image)
    moreover have "\<forall>t \<in> ii_rob_id ` set (p_inst_table p2). t \<notin> set (p_freed_rob_tags p2)"
      using R(1) by (simp add: wb_def freed_ok_def)
    ultimately have "\<forall>t \<in> ii_rob_id ` set ts. t \<notin> set (p_freed_rob_tags p2)" by (simp only:)
    then show ?thesis by (simp add: freed_ok_def a2(2) e4(1))
  qed
  ultimately show ?thesis by (simp add: a2(2) e4(1))
qed

end
