(* ===== verification/FlowIssue.thy ===== *)
theory FlowIssue
  imports FlowWriteback
begin

text \<open>
  Dispatch to the functional units keeps the data flow: an instruction is sent with its operands
  ready, so the value that enters the unit is the interpreter's.
\<close>

section \<open>Jumps\<close>

definition jump_op :: "Uop \<Rightarrow> bool" where
  "jump_op u \<longleftrightarrow> (u_is_jump u \<longleftrightarrow> u_op u = BR_JAL \<or> u_op u = BR_JALR)"

lemma jump_op_parts:
  assumes "\<not> u_is_jump u" "u_op u = UOP_NOP"
  shows "jump_op (decode_opimm w u)" "jump_op (decode_op w u)" "jump_op (decode_load w u)"
    "jump_op (decode_store w u)" "jump_op (decode_branch w u)"
  using assms by (simp_all add: jump_op_def decode_opimm_def decode_op_def decode_load_def decode_store_def
    decode_branch_def Let_def makeNop_def)

lemma jump_op_if: "jump_op x \<Longrightarrow> jump_op y \<Longrightarrow> jump_op (if b then x else y)"
  by simp

lemma jump_op_final: "jump_op u \<Longrightarrow> jump_op (if b then u\<lparr>u_rd_used := False\<rparr> else u)"
  by (simp add: jump_op_def)

lemma img_jump: "img iw pc = Some u \<Longrightarrow> u_is_jump u \<longleftrightarrow> u_op u = BR_JAL \<or> u_op u = BR_JALR"
proof -
  have "jump_op (decodeInstruction w pc)" for w
    unfolding decodeInstruction_def Let_def
    by (rule jump_op_final, intro jump_op_if jump_op_parts) (simp_all add: jump_op_def uop0_def)
  then show "img iw pc = Some u \<Longrightarrow> ?thesis" by (auto simp: img_def jump_op_def)
qed

section \<open>Issue to the units\<close>

lemma eu_contents_stage0:
  "eu_pipe u \<noteq> [] \<Longrightarrow> \<not> sg_valid (eu_pipe u ! 0) \<Longrightarrow>
   mset (eu_contents (u\<lparr>eu_pipe := (eu_pipe u)[0 := sg]\<rparr>)) = (if sg_valid sg then {#sg#} else {#}) + mset (eu_contents u)"
  by (cases "eu_pipe u") (simp_all add: eu_contents_def)

lemma eu_output_stage0:
  "\<not> sg_valid (eu_pipe u ! 0) \<Longrightarrow> sg_valid (eu_output u) \<Longrightarrow> eu_pipe u \<noteq> [] \<Longrightarrow>
   eu_output (u\<lparr>eu_pipe := (eu_pipe u)[0 := sg]\<rparr>) = eu_output u"
  by (cases "eu_pipe u") (auto simp: eu_output_def)

lemma issue_fails: "ee_issue op a b t imm pc rd s = (False, s') \<Longrightarrow> s' = s"
proof -
  assume i: "ee_issue op a b t imm pc rd s = (False, s')"
  show ?thesis
  proof (cases "op_unit op")
    case None
    with i show ?thesis by (simp add: ee_issue_def)
  next
    case (Some ty)
    show ?thesis
    proof (cases "ee_find ty s")
      case None
      with i Some show ?thesis by (simp add: ee_issue_def)
    next
      case f: (Some k)
      then have "eu_canIssue True (ee_units s ! k)"
        using first_idx_SomeD [OF f [unfolded ee_find_def]] by (auto simp: eu_canIssue_def)
      with i Some f show ?thesis by (simp add: ee_issue_def eu_issue_def Let_def)
    qed
  qed
qed

lemma issue_ok:
  assumes m: "ee_mirror a s" and i: "ee_issue op va vb t imm pc rd s = (True, s')"
  shows "ee_work s' = add_mset \<lparr>sg_valid = True, sg_rob_id = Some t, sg_value = executeOp op va vb imm pc,
      sg_is_control = (fuForOp op = FU_BR),
      sg_offer_cdb = (\<not> fuForOp op = FU_BR \<or> ((op = BR_JAL \<or> op = BR_JALR) \<and> rd))\<rparr> (ee_work s)"
    "ee_mirror a s'" "length (ee_units s') = length (ee_units s)"
proof -
  let ?sg = "\<lparr>sg_valid = True, sg_rob_id = Some t, sg_value = executeOp op va vb imm pc,
      sg_is_control = (fuForOp op = FU_BR), sg_offer_cdb = (\<not> fuForOp op = FU_BR \<or> ((op = BR_JAL \<or> op = BR_JALR) \<and> rd))\<rparr>"
  obtain ty where ty: "op_unit op = Some ty" using i by (cases "op_unit op") (simp_all add: ee_issue_def)
  obtain k where f: "ee_find ty s = Some k" using i ty by (cases "ee_find ty s") (simp_all add: ee_issue_def)
  let ?u = "ee_units s ! k" and ?us = "ee_units s"
  have k: "k < length ?us" "\<not> sg_valid (eu_pipe ?u ! 0)"
    using first_idx_SomeD [OF f [unfolded ee_find_def]] by (auto simp: eu_canIssue_def)
  let ?u' = "?u\<lparr>eu_pipe := (eu_pipe ?u)[0 := ?sg]\<rparr>"
  have s': "s' = s\<lparr>ee_units := ?us[k := ?u']\<rparr>"
    using i ty f k(2) by (simp add: ee_issue_def eu_issue_def eu_canIssue_def Let_def)
  then show l: "length (ee_units s') = length ?us" by simp
  have wf: "ee_wf s" "arb_wf a" using m by (simp_all add: ee_mirror_def)
  have uk: "eu_wf ?u" "eu_pipe ?u \<noteq> []" using wf(1) k(1) eu_pipe_nonempty by (simp_all add: ee_wf_def)
  have "mset (eu_contents ?u') = {#?sg#} + mset (eu_contents ?u)" using eu_contents_stage0 [OF uk(2) k(2), of ?sg] by simp
  then have "sum_list (map (\<lambda>u. mset (eu_contents u)) (?us[k := ?u'])) = {#?sg#} + sum_list (map (\<lambda>u. mset (eu_contents u)) ?us)"
    using sum_list_update_mset [of k "?us[k := ?u']" "\<lambda>u. mset (eu_contents u)" "{#?sg#}" ?u] k(1) by simp
  then show "ee_work s' = add_mset ?sg (ee_work s)" by (simp add: ee_work_def s')
  have "eu_wf ?u'" using uk(1) by (simp add: eu_wf_def)
  then have wf': "ee_wf s'" using wf(1) by (auto simp: ee_wf_def s' dest!: subsetD [OF set_update_subset_insert])
  have "arb_pending a ! j = ee_lane j (ee_units s' ! j) \<and> cp_valid (arb_pending a ! j)"
    if j: "j < length ?us" "arb_pending_valid a ! j" for j
  proof -
    note p = ee_mirrorD [OF m j]
    then have v: "sg_valid (eu_output (?us ! j))" by (simp add: ee_lane_valid)
    have "eu_output (ee_units s' ! j) = eu_output (?us ! j)"
    proof (cases "j = k")
      case True
      then show ?thesis using eu_output_stage0 [OF k(2) _ uk(2)] v k(1) by (simp add: s')
    next
      case False
      then show ?thesis by (simp add: s')
    qed
    then have "ee_lane j (ee_units s' ! j) = ee_lane j (?us ! j)" by (simp add: ee_lane_def)
    with p show ?thesis by simp
  qed
  then have "\<forall>j < arb_num_producers a. arb_pending_valid a ! j \<longrightarrow> (if j < length (ee_units s')
      then arb_pending a ! j = ee_lane j (ee_units s' ! j) \<and> cp_valid (arb_pending a ! j)
      else cp_source (arb_pending a ! j) \<noteq> 0)"
    using m unfolding ee_mirror_def l by meson
  moreover have "length ?us \<le> arb_num_producers a" using m by (simp add: ee_mirror_def)
  ultimately show "ee_mirror a s'" using wf(2) wf' unfolding ee_mirror_def l by blast
qed

section \<open>The reservation station\<close>

lemma remove_stations:
  "e \<in> set (rs_stations (rs_removeInstruction x q)) \<Longrightarrow> rse_valid e \<Longrightarrow> e \<in> set (rs_stations q)"
  using squash_stations_subset [of e "[x]" q] by (simp add: rs_squashInstIds_def)

lemma remove_ids: "rs_ids (rs_removeInstruction x q) = rs_ids q - {#x#}"
  using rs.squash_ids [of "[x]" q] by simp

lemma stations_remove:
  assumes st: "stations ts q"
  shows "stations ts (rs_removeInstruction x q)"
    "e \<in> set (rs_stations (rs_removeInstruction x q)) \<Longrightarrow> rse_valid e \<Longrightarrow> rse_inst_id e \<noteq> x"
proof -
  have c: "count (rs_ids q) y \<le> 1" for y using st by (simp add: stations_def)
  have "count (rs_ids (rs_removeInstruction x q)) y \<le> 1" for y using c [of y] by (simp add: remove_ids)
  moreover have "\<exists>i \<in> set ts. mirrors e i" if "e \<in> set (rs_stations (rs_removeInstruction x q))" "rse_valid e" for e
    using remove_stations [OF that] that(2) st by (simp add: stations_def)
  ultimately show "stations ts (rs_removeInstruction x q)" by (simp add: stations_def)
  have "count (rs_ids (rs_removeInstruction x q)) x = 0" using c [of x] by (simp add: remove_ids)
  moreover assume "e \<in> set (rs_stations (rs_removeInstruction x q))" "rse_valid e"
  then have "0 < count (rs_ids (rs_removeInstruction x q)) (rse_inst_id e)" using valid_rs_ids by simp
  ultimately show "rse_inst_id e \<noteq> x" by (metis less_irrefl)
qed

lemma stations_sent:
  assumes st: "stations ts q" and m: "m < length ts"
  shows "stations (ts[m := i']) (rs_removeInstruction (ii_inst_id (ts ! m)) q)"
proof -
  let ?q = "rs_removeInstruction (ii_inst_id (ts ! m)) q"
  note r = stations_remove [OF st, where x = "ii_inst_id (ts ! m)"]
  have "\<exists>i \<in> set (ts[m := i']). mirrors e i" if e: "e \<in> set (rs_stations ?q)" "rse_valid e" for e
  proof -
    obtain i where i: "i \<in> set ts" "mirrors e i" using r(1) e by (auto simp: stations_def)
    then obtain j where j: "j < length ts" "i = ts ! j" by (auto simp: in_set_conv_nth)
    have "ii_inst_id i \<noteq> ii_inst_id (ts ! m)" using r(2) [OF e] i(2) by (simp add: mirrors_def)
    then have "j \<noteq> m" using j(2) by auto
    then have "ts[m := i'] ! j = i" using j by simp
    then have "i \<in> set (ts[m := i'])" using j(1) by (metis length_list_update nth_mem)
    with i(2) show ?thesis by blast
  qed
  with r(1) show ?thesis by (simp add: stations_def)
qed

section \<open>An instruction is sent\<close>

lemma tokens_add:
  assumes tk: "tokens iw A ts rs {} s" and w: "ee_work s' = add_mset sg (ee_work s)"
    and t: "token iw A ts m sg" "rs ! m = None" and new: "\<And>sg'. sg' \<in># ee_work s \<Longrightarrow> sg_rob_id sg' \<noteq> sg_rob_id sg"
  shows "tokens iw A ts rs {} s'"
proof -
  have "count (image_mset sg_rob_id (ee_work s)) (sg_rob_id sg) = 0" using new by (fastforce simp: count_eq_zero_iff)
  then have "count (image_mset sg_rob_id (ee_work s')) x \<le> 1" for x
    using tk unfolding w tokens_def by (cases "x = sg_rob_id sg") simp_all
  moreover have "\<exists>m. token iw A ts m sg' \<and> rs ! m = None" if "sg' \<in># ee_work s'" for sg'
  proof (cases "sg' = sg")
    case True
    with t show ?thesis by blast
  next
    case False
    then have "sg' \<in># ee_work s" using that w by simp
    then show ?thesis using tk by (auto simp: tokens_def leaving_def)
  qed
  ultimately show ?thesis unfolding tokens_def by blast
qed

lemma issued_value:
  assumes df: "dataflow iw A ts rs P" and m: "m < length ts" "ii_src1_ready (ts ! m)" "ii_src2_ready (ts ! m)"
  shows "executeOp (ii_op (ts ! m)) (ii_src1_val (ts ! m)) (ii_src2_val (ts ! m)) (ii_imm (ts ! m)) (ucast (ii_pc (ts ! m)))
      = val_at iw A ts m"
    "fuForOp (ii_op (ts ! m)) = FU_BR \<longleftrightarrow> isControl (ts ! m)"
    "ii_op (ts ! m) = BR_JAL \<or> ii_op (ts ! m) = BR_JALR \<longleftrightarrow> ii_is_jump (ts ! m)"
proof -
  let ?i = "ts ! m"
  note e = dataflowD(8) [OF df m(1)]
  note e' = e [unfolded entry_ok_def Let_def]
  have s: "ii_src1_val ?i = src1 (uo iw ?i) (regs_at iw A (take m ts))" "ii_src2_val ?i = src2 (uo iw ?i) (regs_at iw A (take m ts))"
    using dataflowD(6) [OF df m(1)] m(2,3) by (simp_all add: operands_def Let_def)
  show "executeOp (ii_op ?i) (ii_src1_val ?i) (ii_src2_val ?i) (ii_imm ?i) (ucast (ii_pc ?i)) = val_at iw A ts m"
    using e' s by (simp add: val_at_def uvalue_def)
  have u: "img iw (ii_pc ?i) = Some (uo iw ?i)" using e' by (auto simp: uo_def)
  show "ii_op ?i = BR_JAL \<or> ii_op ?i = BR_JALR \<longleftrightarrow> ii_is_jump ?i" using img_jump [OF u] e' by simp
  show "fuForOp (ii_op ?i) = FU_BR \<longleftrightarrow> isControl ?i"
  proof -
    have "u_fu (uo iw ?i) = fuForOp (u_op (uo iw ?i))" "u_fu (uo iw ?i) = FU_BR \<longleftrightarrow> control_uop (uo iw ?i)"
      using entry_wf [OF e] unfolding uop_wf_def by blast+
    moreover have "isControl ?i = control_uop (uo iw ?i)" "ii_op ?i = u_op (uo iw ?i)" using entry_flags [OF e] e' by blast+
    ultimately show ?thesis by metis
  qed
qed

lemma flow_sent:
  assumes fl: "flow iw n P {} fs p" and m: "m < length (p_inst_table p)" "\<not> ii_dispatched_alu (p_inst_table p ! m)"
      "ii_src1_ready (p_inst_table p ! m)" "ii_src2_ready (p_inst_table p ! m)"
    and i: "i = p_inst_table p ! m"
    and s': "ee_issue (ii_op i) (ii_src1_val i) (ii_src2_val i) (ii_rob_id i) (ii_imm i) (ucast (ii_pc i))
      (ii_rd_used i) (p_ee p) = (True, s')"
  shows "flow iw n P {} fs (p\<lparr>p_ee := s', p_rs := rs_removeInstruction (ii_inst_id i) (p_rs p),
    p_inst_table := (p_inst_table p)[m := i\<lparr>ii_dispatched_alu := True\<rparr>]\<rparr>)" (is "flow iw n P {} fs ?p")
proof -
  note D = flowD [OF fl]
  let ?ts = "p_inst_table p" and ?i = "i\<lparr>ii_dispatched_alu := True\<rparr>" and ?rs = "results (p_rob p)"
  let ?ts' = "?ts[m := ?i]"
  have mir: "ee_mirror (p_cdb_arbiter p) (p_ee p)" using D(8) by (simp add: lanes_ok_def)
  note ok = issue_ok [OF mir s']
  note d = dataflowD(3) [OF D(4)] and pr = dataflowD(7) [OF D(4) m(1)]
  have none: "?rs ! m = None" using pr m(2) by (auto simp: progress_def)
  have sh: "stat ?i = stat (?ts ! m)" "flight ?i = flight (?ts ! m)" "ii_inst_id ?i = ii_inst_id (?ts ! m)"
      "(ii_rob_id ?i, ii_dest_reg ?i) = (ii_rob_id (?ts ! m), ii_dest_reg (?ts ! m))" "ilink ?i = ilink (?ts ! m)"
    by (simp_all add: i flight_def isControl_def ilink_def)
  note 1 = in_order_same [OF D(3) map_update_same [where f = "\<lambda>i. (ii_rob_id i, ii_dest_reg i)", OF m(1) sh(4)]]
  note 2 = ids_ok_same [OF D(5) map_update_same [where f = ii_inst_id, OF m(1) sh(3)]]
  note 3 = renamed_same [OF D(6) map_update_same [where f = flight, OF m(1) sh(2)]]
  note 4 = program_order_same [OF D(11) map_update_same [where f = ilink, OF m(1) sh(5)]]
  have "progress iw (p_arf p) ?ts ?rs m ?i" using pr m none by (auto simp: progress_def isControl_def uo_def i)
  then have 5: "dataflow iw (p_arf p) ?ts' ?rs P" by (intro dataflow_flags [OF D(4) m(1)]) (simp_all add: i)
  note st = map_update_same [where f = stat, OF m(1) sh(1)]
  have tk: "tokens iw (p_arf p) ?ts' ?rs {} (p_ee p)"
  proof (rule tokens_table [OF D(7) st])
    fix k assume "k < length ?ts"
    then show "(ii_dispatched_alu (?ts ! k) \<longrightarrow> ii_dispatched_alu (?ts' ! k))
      \<and> isControl (?ts' ! k) = isControl (?ts ! k) \<and> ii_is_jump (?ts' ! k) = ii_is_jump (?ts ! k)"
      by (cases "k = m") (simp_all add: i isControl_def)
  qed
  have 6: "tokens iw (p_arf p) ?ts' ?rs {} s'"
  proof (rule tokens_add [OF tk ok(1) _ none])
    have "?ts' ! m = ?i" using m(1) by simp
    moreover have "val_at iw (p_arf p) ?ts' m = val_at iw (p_arf p) ?ts m" by (rule val_at_stat [OF st m(1)])
    ultimately show "token iw (p_arf p) ?ts' m \<lparr>sg_valid = True, sg_rob_id = Some (ii_rob_id i),
        sg_value = executeOp (ii_op i) (ii_src1_val i) (ii_src2_val i) (ii_imm i) (ucast (ii_pc i)),
        sg_is_control = (fuForOp (ii_op i) = FU_BR),
        sg_offer_cdb = (\<not> fuForOp (ii_op i) = FU_BR \<or> ((ii_op i = BR_JAL \<or> ii_op i = BR_JALR) \<and> ii_rd_used i))\<rparr>"
      using issued_value [OF D(4) m(1,3,4)] m(1) by (simp add: token_def i isControl_def)
    fix sg' assume "sg' \<in># ee_work (p_ee p)"
    then obtain k where k: "token iw (p_arf p) ?ts k sg'" using D(7) by (auto simp: tokens_def)
    have kl: "k < length ?ts" "sg_rob_id sg' = Some (ii_rob_id (?ts ! k))" "ii_dispatched_alu (?ts ! k)"
      using k by (simp_all only: token_def)
    then have "k \<noteq> m" using m(2) by auto
    then have "ii_rob_id (?ts ! k) \<noteq> ii_rob_id i" using same_tag [OF d kl(1) m(1)] i by blast
    with kl(2) show "sg_rob_id sg' \<noteq> sg_rob_id \<lparr>sg_valid = True, sg_rob_id = Some (ii_rob_id i),
        sg_value = executeOp (ii_op i) (ii_src1_val i) (ii_src2_val i) (ii_imm i) (ucast (ii_pc i)),
        sg_is_control = (fuForOp (ii_op i) = FU_BR),
        sg_offer_cdb = (\<not> fuForOp (ii_op i) = FU_BR \<or> ((ii_op i = BR_JAL \<or> ii_op i = BR_JALR) \<and> ii_rd_used i))\<rparr>" by simp
  qed
  have 7: "stations ?ts' (rs_removeInstruction (ii_inst_id i) (p_rs p))" using stations_sent [OF D(10) m(1)] i by simp
  have 8: "lanes_ok (p_cdb_arbiter p) s' (p_lsq p)" using D(8) ok(2,3) by (simp add: lanes_ok_def)
  have "hex_env iw ?p" "fetch_ok iw ?p" using D(2,13) by (simp_all add: hex_env_def fetch_ok_def)
  with 1 2 3 4 5 6 7 8 D(1,9,12) show ?thesis by (simp add: flow_defs)
qed

lemma flow_removed:
  assumes fl: "flow iw n P G fs p"
  shows "flow iw n P G fs (p\<lparr>p_rs := rs_removeInstruction x (p_rs p)\<rparr>)"
  using fl stations_remove(1) [OF flowD(10) [OF fl], of x] by (simp add: flow_defs hex_env_def fetch_ok_def)

section \<open>The dispatch stage\<close>

definition steady :: "u32 list \<Rightarrow> nat \<Rightarrow> Processor \<Rightarrow> bool" where
  "steady iw n p \<longleftrightarrow> flow iw n (p_cdb_wakeup_pending p) {} (front p) p \<and> freed_ok p"

definition all_ready :: "u32 list \<Rightarrow> InstInfo list \<Rightarrow> bool" where
  "all_ready ids ts \<longleftrightarrow> (\<forall>i \<in> set ts. ii_inst_id i \<in> set ids \<longrightarrow> ii_src1_ready i \<and> ii_src2_ready i)"

lemma all_ready_tl: "all_ready (x # ids) ts \<Longrightarrow> all_ready ids ts"
  by (auto simp: all_ready_def)

lemma steady_issue_ready:
  "steady iw n p \<Longrightarrow> all_ready ids (p_inst_table p) \<Longrightarrow> issue_ready ids cnt p = Some p' \<Longrightarrow> steady iw n p'"
proof (induction ids arbitrary: cnt p)
  case (Cons x ids)
  note rd = all_ready_tl [OF Cons.prems(2)]
  let ?r = "p\<lparr>p_rs := rs_removeInstruction x (p_rs p)\<rparr>"
  have fl: "flow iw n (p_cdb_wakeup_pending p) {} (front p) p" "freed_ok p" using Cons.prems(1) by (simp_all add: steady_def)
  have sr: "steady iw n ?r" using flow_removed [OF fl(1)] fl(2) by (simp add: steady_def freed_ok_def)
  have ar: "all_ready ids (p_inst_table ?r)" using rd by simp
  show ?case
  proof (cases "findInstById x p")
    case None
    then have "issue_ready ids cnt ?r = Some p'" using Cons.prems(3) by simp
    then show ?thesis by (rule Cons.IH [OF sr ar])
  next
    case (Some i)
    show ?thesis
    proof (cases "ii_dispatched_alu i")
      case True
      then have "issue_ready ids cnt ?r = Some p'" using Cons.prems(3) Some by simp
      then show ?thesis by (rule Cons.IH [OF sr ar])
    next
      case nd: False
      let ?c = "issue_class i"
      show ?thesis
      proof (cases "cnt ?c < class_limit ?c (p_config p)")
        case False
        then have "issue_ready ids cnt p = Some p'" using Cons.prems(3) Some nd by (simp add: Let_def)
        then show ?thesis by (rule Cons.IH [OF Cons.prems(1) rd])
      next
        case lim: True
        note D = flowD [OF fl(1)]
        obtain m where m: "m < length (p_inst_table p)" "i = p_inst_table p ! m" and ix: "ii_inst_id i = x"
          using found_id [OF Some] table_index by blast
        have r: "ii_src1_ready i" "ii_src2_ready i"
          using Cons.prems(2) m ix nth_mem [OF m(1)] by (auto simp: all_ready_def)
        have hu: "ii_has_uop i" using entry_flags [OF dataflowD(8) [OF D(4) m(1)]] m(2) by simp
        obtain ok s' where is': "ee_issue (ii_op i) (ii_src1_val i) (ii_src2_val i) (ii_rob_id i) (ii_imm i) (ucast (ii_pc i))
            (ii_rd_used i) (p_ee p) = (ok, s')" by fastforce
        show ?thesis
        proof (cases ok)
          case False
          with is' have "s' = p_ee p" using issue_fails by simp
          then have "issue_ready ids cnt p = Some p'"
            using Cons.prems(3) Some nd lim False is' hu by (simp add: Let_def issue_inst_def)
          then show ?thesis by (rule Cons.IH [OF Cons.prems(1) rd])
        next
          case True
          let ?ts' = "(p_inst_table p)[m := i\<lparr>ii_dispatched_alu := True\<rparr>]"
          let ?q = "p\<lparr>p_ee := s', p_rs := rs_removeInstruction (ii_inst_id i) (p_rs p), p_inst_table := ?ts'\<rparr>"
          have ids: "distinct (map ii_inst_id (p_inst_table p))" using D(5) by (simp add: ids_ok_def)
          have "upd_inst x (\<lambda>i. i\<lparr>ii_dispatched_alu := True\<rparr>) (p\<lparr>p_ee := s', p_rs := rs_removeInstruction x (p_rs p)\<rparr>) = ?q"
            using upd_inst_nth [of "p\<lparr>p_ee := s', p_rs := rs_removeInstruction x (p_rs p)\<rparr>" m
              "\<lambda>i. i\<lparr>ii_dispatched_alu := True\<rparr>"] ids m ix by simp
          then have go: "issue_ready ids (cnt(?c := Suc (cnt ?c))) ?q = Some p'"
            using Cons.prems(3) Some nd lim True is' hu by (simp add: Let_def issue_inst_def)
          have "flow iw n (p_cdb_wakeup_pending p) {} (front p) ?q"
            using flow_sent [OF fl(1) m(1) _ _ _ m(2)] is' True nd r m(2) by simp
          moreover have "freed_ok ?q" by (rule freed_ok_set [OF fl(2) m(1)]) (use m(2) in simp_all)
          ultimately have "steady iw n ?q" by (simp add: steady_def)
          moreover have "all_ready ids (p_inst_table ?q)"
          proof -
            have "j = i\<lparr>ii_dispatched_alu := True\<rparr> \<or> j \<in> set (p_inst_table p)" if "j \<in> set ?ts'" for j
              using that set_update_subset_insert by fast
            then show ?thesis using rd r unfolding all_ready_def by fastforce
          qed
          ultimately show ?thesis using Cons.IH go by blast
        qed
      qed
    qed
  qed
qed simp

lemma agen_idle: "\<forall>i \<in> set ts. \<not> ii_is_load i \<and> \<not> ii_is_store i \<Longrightarrow> agen_table ts q = (ts, q)"
  by (induction ts) (simp_all add: agen_inst_def)

lemma stations_ready:
  assumes st: "stations ts q" and d: "distinct (map ii_inst_id ts)"
  shows "all_ready (rs_collectReadyInstructions q) ts"
  unfolding all_ready_def
proof (intro ballI impI)
  fix i assume i: "i \<in> set ts" "ii_inst_id i \<in> set (rs_collectReadyInstructions q)"
  then obtain e where e: "e \<in> set (rs_stations q)" "rse_ready e" "ii_inst_id i = rse_inst_id e"
    by (auto simp: rs_collectReadyInstructions_def)
  then have "rse_valid e" by (simp add: rse_ready_def)
  then obtain j where j: "j \<in> set ts" "mirrors e j" using st e(1) by (auto simp: stations_def)
  then have "ii_inst_id j = ii_inst_id i" using e(3) by (simp add: mirrors_def)
  then have "j = i" using d i(1) j(1) by (simp add: distinct_map inj_on_def)
  then show "ii_src1_ready i \<and> ii_src2_ready i" using j(2) e(2) by (simp add: mirrors_def rse_ready_def)
qed

lemma flow_no_memory: "flow iw n P G fs p \<Longrightarrow> \<forall>i \<in> set (p_inst_table p). \<not> ii_is_load i \<and> \<not> ii_is_store i"
  using entry_flags dataflowD(5) flowD(4) by blast

lemma steady_dispatchStage:
  assumes s: "steady iw n p" and r: "dispatchStage p = Some p'"
  shows "steady iw n p'"
proof -
  have fl: "flow iw n (p_cdb_wakeup_pending p) {} (front p) p" using s by (simp add: steady_def)
  note D = flowD [OF fl]
  have ag: "agen_table (p_inst_table p) (p_lsq p) = (p_inst_table p, p_lsq p)" by (rule agen_idle [OF flow_no_memory [OF fl]])
  obtain p2 where p2: "issue_ready (rs_collectReadyInstructions (p_rs p)) (\<lambda>_. 0) p = Some p2"
      "p' = dispatch_loads (load_candidates p2) (cfg_width (p_config p2)) p2"
    using r ag by (auto simp: dispatchStage_def split: bind_splits)
  have "distinct (map ii_inst_id (p_inst_table p))" using D(5) by (simp add: ids_ok_def)
  then have s2: "steady iw n p2" using steady_issue_ready [OF s stations_ready [OF D(10)] p2(1)] by blast
  then have "\<forall>i \<in> set (p_inst_table p2). \<not> ii_is_load i" using flow_no_memory by (auto simp: steady_def)
  then have "load_candidates p2 = []" by (simp add: load_candidates_def)
  with p2(2) s2 show ?thesis by simp
qed

end
