(* ===== verification/FlowRename.thy ===== *)
theory FlowRename
  imports FlowIssue
begin

text \<open>
  Rename keeps the data flow: the instruction that enters the window is the next one of the front
  end, and each of its operands is the interpreter's value or names the producer it waits for.
\<close>

section \<open>The instruction record\<close>

lemma make_info_fields:
  assumes "f_has_uop inst" "f_uop inst = u"
  shows "ii_has_uop (make_info inst iid t p)" "ii_op (make_info inst iid t p) = u_op u" "ii_fu (make_info inst iid t p) = u_fu u"
    "ii_imm (make_info inst iid t p) = f_imm inst" "ii_is_branch (make_info inst iid t p) = u_is_branch u"
    "ii_is_jump (make_info inst iid t p) = u_is_jump u" "\<not> ii_is_call (make_info inst iid t p)"
    "\<not> ii_is_ret (make_info inst iid t p)" "ii_is_load (make_info inst iid t p) = u_is_load u"
    "ii_is_store (make_info inst iid t p) = u_is_store u" "ii_rd_used (make_info inst iid t p) = u_rd_used u"
    "ii_pc (make_info inst iid t p) = f_pc inst" "ii_fallthrough_pc (make_info inst iid t p) = f_pc inst + INSTR_SIZE"
    "ii_predicted_taken (make_info inst iid t p) = f_predicted_taken inst"
    "ii_predicted_target (make_info inst iid t p) = f_predicted_target inst"
    "\<not> ii_dispatched_alu (make_info inst iid t p)" "\<not> ii_completed (make_info inst iid t p)"
    "\<not> ii_br_resolved (make_info inst iid t p)"
  using assms by (simp_all add: make_info_def inst_of_uop_def inst_common_def inst_ras_def set_src1_def set_src2_def
      inst_info0_def split_beta Let_def)

lemma make_info_operands:
  assumes "f_has_uop inst" "f_uop inst = u"
  shows "(ii_src1_ready (make_info inst iid t p), ii_src1_tag (make_info inst iid t p), ii_src1_val (make_info inst iid t p))
      = (if u_rs1_used u then resolveOperand (u_rs1 u) p else (True, None, 0))"
    "(ii_src2_ready (make_info inst iid t p), ii_src2_tag (make_info inst iid t p), ii_src2_val (make_info inst iid t p))
      = (if u_src2_is_imm u then (True, None, u_imm u)
         else if u_rs2_used u \<and> \<not> u_is_store u then resolveOperand (u_rs2 u) p else (True, None, 0))"
  using assms by (simp_all add: make_info_def inst_of_uop_def inst_common_def inst_ras_def set_src1_def set_src2_def
      split_beta Let_def)

lemma fetched_img:
  assumes "fetched iw f" "f_has_uop f"
  shows "\<exists>u. img iw (f_pc f) = Some u \<and> (f_predicted_taken f \<longrightarrow> control_uop u) \<and> f_imm f = u_imm u
    \<and> f_uop f = u\<lparr>u_pred_taken := f_predicted_taken f, u_pred_target := f_predicted_target f\<rparr>"
  using assms by (simp add: fetched_def img_def Let_def)

lemma renamed_entry:
  assumes f: "f_has_uop inst" "img iw (f_pc inst) = Some u" "f_predicted_taken inst \<longrightarrow> control_uop u" "f_imm inst = u_imm u"
      "f_uop inst = u\<lparr>u_pred_taken := pt, u_pred_target := tg\<rparr>"
    and n: "\<not> nop_uop u" "\<not> u_is_load u" "\<not> u_is_store u"
  shows "entry_ok iw (make_info inst iid t p)"
  using f n make_info_fields [OF f(1,5)]
  by (auto simp: entry_ok_def uo_def Let_def make_info_core dest_for_rob_def)

lemma resolved_operands:
  assumes f: "f_has_uop inst" "f_uop inst = u'" and u: "uo iw (make_info inst iid t p) = u" "uop_wf u"
      "u' = u\<lparr>u_pred_taken := pt, u_pred_target := tg\<rparr>"
    and res: "\<And>r. r < 32 \<Longrightarrow> case resolveOperand r p of (rdy, t, v) \<Rightarrow>
      (if rdy then v = reg (regs_at iw A ts) r else waits iw A ts rs P (length ts) r t)"
  shows "operands iw A ts rs P (length ts) (make_info inst iid t p)"
proof -
  let ?i = "make_info inst iid t p"
  have r: "u_rs1 u < 32" "u_rs2 u < 32" using u(2) by (simp_all add: uop_wf_def)
  have 1: "if ii_src1_ready ?i then ii_src1_val ?i = src1 u (regs_at iw A ts)
      else u_rs1_used u \<and> waits iw A ts rs P (length ts) (u_rs1 u) (ii_src1_tag ?i)"
  proof (cases "u_rs1_used u")
    case True
    obtain a b c where x: "resolveOperand (u_rs1 u) p = (a, b, c)" by (cases "resolveOperand (u_rs1 u) p")
    then have "ii_src1_ready ?i = a" "ii_src1_tag ?i = b" "ii_src1_val ?i = c"
      using make_info_operands(1) [OF f, of iid t p] True u(3) by simp_all
    with res [OF r(1)] x True show ?thesis by (simp add: src1_def)
  next
    case False
    then show ?thesis using make_info_operands(1) [OF f, of iid t p] u(3) by (simp add: src1_def)
  qed
  have 2: "if ii_src2_ready ?i then ii_src2_val ?i = src2 u (regs_at iw A ts)
      else \<not> u_src2_is_imm u \<and> u_rs2_used u \<and> \<not> u_is_store u \<and> waits iw A ts rs P (length ts) (u_rs2 u) (ii_src2_tag ?i)"
  proof (cases "\<not> u_src2_is_imm u \<and> u_rs2_used u \<and> \<not> u_is_store u")
    case True
    obtain a b c where x: "resolveOperand (u_rs2 u) p = (a, b, c)" by (cases "resolveOperand (u_rs2 u) p")
    then have "ii_src2_ready ?i = a" "ii_src2_tag ?i = b" "ii_src2_val ?i = c"
      using make_info_operands(2) [OF f, of iid t p] True u(3) by simp_all
    with res [OF r(2)] x True show ?thesis by (simp add: src2_def)
  next
    case False
    then show ?thesis using make_info_operands(2) [OF f, of iid t p] u(3) by (auto simp: src2_def split: if_splits)
  qed
  from 1 2 show ?thesis by (simp add: operands_def u(1))
qed

section \<open>Parts of the invariant\<close>

lemma ids_append:
  assumes ids: "ids_ok n nx ts" and b: "Suc n < 2 ^ 32" and i: "ii_inst_id i = nx"
  shows "ids_ok (Suc n) (nx + 1) (ts @ [i])" "nx \<notin> ii_inst_id ` set ts"
proof -
  have lt: "unat nx \<le> n" "\<And>j. j \<in> set ts \<Longrightarrow> ii_inst_id j < nx" "distinct (map ii_inst_id ts)" using ids by (auto simp: ids_ok_def)
  then show n: "nx \<notin> ii_inst_id ` set ts" by fastforce
  have "unat nx + 1 < 2 ^ 32" using lt(1) b by simp
  then have u: "unat (nx + 1) = unat nx + 1" by (simp add: unat_word_ariths)
  then have "nx < nx + 1" by (simp add: word_less_nat_alt)
  then have "ii_inst_id j < nx + 1" if "j \<in> set (ts @ [i])" for j using that lt(2) i by fastforce
  with n lt u i show "ids_ok (Suc n) (nx + 1) (ts @ [i])" by (simp add: ids_ok_def)
qed

lemma tokens_append:
  assumes tk: "tokens iw A ts rs {} s" and l: "length rs = length ts"
  shows "tokens iw A (ts @ [i]) (rs @ [None]) {} s"
proof -
  have "token iw A (ts @ [i]) m sg \<and> (rs @ [None]) ! m = rs ! m" if "token iw A ts m sg" for m sg
    using that l by (simp add: token_def nth_append val_at_append)
  with tk show ?thesis unfolding tokens_def leaving_def by (metis empty_iff)
qed

lemma stations_append:
  assumes st: "stations ts q" and sp: "rs_hasSpace q" and id: "ii_inst_id i \<notin> ii_inst_id ` set ts" and nd: "\<not> ii_dispatched_alu i"
    and a: "rs_allocate (ii_inst_id i) (ii_src1_ready i, ii_src1_tag i, ii_src1_val i, ii_src2_ready i, ii_src2_tag i, ii_src2_val i) q
      = (ok, q')"
  shows "stations (ts @ [i]) q'"
proof -
  let ?ops = "(ii_src1_ready i, ii_src1_tag i, ii_src1_val i, ii_src2_ready i, ii_src2_tag i, ii_src2_val i)"
  obtain k where k: "first_idx (\<lambda>e. \<not> rse_valid e) (rs_stations q) = Some k"
    using sp unfolding rs_hasSpace_def using first_idx_ex by metis
  let ?e = "set_operands ?ops ((rs_stations q ! k)\<lparr>rse_valid := True, rse_inst_id := ii_inst_id i\<rparr>)"
  have q': "q' = q\<lparr>rs_stations := (rs_stations q)[k := ?e]\<rparr>" using a k by (simp add: rs_allocate_def)
  have m: "mirrors ?e i" using nd by (simp add: mirrors_def)
  have "\<exists>j \<in> set (ts @ [i]). mirrors e j" if e: "e \<in> set (rs_stations q')" "rse_valid e" for e
  proof -
    have "e = ?e \<or> e \<in> set (rs_stations q)" using e(1) set_update_subset_insert by (fastforce simp: q')
    then show ?thesis using m e(2) st by (auto simp: stations_def)
  qed
  moreover have "rs_ids q' = add_mset (ii_inst_id i) (rs_ids q)" using rs_allocate_ok [OF sp, of "ii_inst_id i" ?ops] a by simp
  moreover have "ii_inst_id i \<notin># rs_ids q"
  proof
    assume "ii_inst_id i \<in># rs_ids q"
    then obtain e where "e \<in> set (rs_stations q)" "rse_valid e" "rse_inst_id e = ii_inst_id i"
      by (auto simp: rs_ids_def live_ids_def)
    then obtain j where "j \<in> set ts" "ii_inst_id j = ii_inst_id i" using st by (auto simp: stations_def mirrors_def)
    with id show False by (metis imageI)
  qed
  ultimately show ?thesis using st by (auto simp: stations_def count_eq_zero_iff split: if_splits)
qed

lemma renamed_append:
  assumes rn: "renamed depth rt ck ts" and t: "ii_rob_id i < depth" "ii_rob_id i \<notin> ii_rob_id ` set ts"
    and c: "(if isControl i then ck_save (ii_rob_id i) (rat_getState r) ck else Some ck) = Some c"
    and r: "r = (if 0 < ii_dest_reg i then rat_rename (ii_dest_reg i) (ii_rob_id i) rt else rt)"
  shows "renamed depth r c (ts @ [i])"
proof -
  let ?s = "\<lparr>rn_rat = rt, rn_ck = ck, rn_win = map flight ts\<rparr>"
  have "rn_dispatch (flight i) ?s = Some \<lparr>rn_rat = r, rn_ck = c, rn_win = map flight ts @ [flight i]\<rparr>"
    unfolding rn_dispatch_def flight_def by (simp only: prod.case RenameSys.select_convs Let_def r [symmetric] c Option.bind.simps)
  moreover have "ftag (flight i) < depth" "ftag (flight i) \<notin> ftag ` set (rn_win ?s)"
    using t by (auto simp: flight_def image_iff)
  ultimately show ?thesis using rn_inv_dispatch [OF rn [unfolded renamed_def]] by (simp add: renamed_def)
qed

lemma chain_skip:
  "chain iw x (xs @ (a, b) # ys) q \<Longrightarrow> (\<And>y. nops iw y a \<Longrightarrow> nops iw y b) \<Longrightarrow> chain iw x (xs @ ys) q"
  by (induction xs arbitrary: x) (auto intro: chain_nops)

section \<open>One lane\<close>

lemma flow_more: "flow iw n P G fs p \<Longrightarrow> n \<le> k \<Longrightarrow> flow iw k P G fs p"
  by (auto simp: flow_defs ids_ok_def)

lemma flow_drop_nop:
  assumes fl: "flow iw n P {} (inst # fs) p" and f: "fetched iw inst" "f_has_uop inst" "lane_is_nop inst"
  shows "flow iw n P {} fs p"
proof -
  note D = flowD [OF fl]
  obtain u where u: "img iw (f_pc inst) = Some u" "f_predicted_taken inst \<longrightarrow> control_uop u"
      "f_uop inst = u\<lparr>u_pred_taken := f_predicted_taken inst, u_pred_target := f_predicted_target inst\<rparr>"
    using fetched_img [OF f(1,2)] by blast
  have n: "nop_uop u" using f(3) u(3) by (simp add: lane_is_nop_def nop_uop_def Let_def)
  then have "\<not> control_uop u" using pre_nop [OF n img_wf [OF u(1)]] img_memory_free [OF D(1) u(1)] by blast
  then have fk: "flink inst = (f_pc inst, f_pc inst + INSTR_SIZE)" using u(2) by (auto simp: flink_def)
  obtain k pc where k: "seq_steps iw k (replicate 32 0, 0) = Some (p_arf p, pc)"
      "chain iw pc (map ilink (p_inst_table p) @ map flink (inst # fs)) (p_fetch_pc p)"
    using D(11) unfolding program_order_def by blast
  have "chain iw pc (map ilink (p_inst_table p) @ map flink fs) (p_fetch_pc p)"
    using chain_skip [OF _ nops_step [OF _ u(1) n]] k(2) fk by simp
  with k(1) have "program_order iw (p_arf p) (p_inst_table p) fs (p_fetch_pc p)" unfolding program_order_def by blast
  with fl show ?thesis by (simp add: flow_def)
qed

lemma flow_rename_step:
  assumes fl: "flow iw n P {} (inst # fs) p" and f: "fetched iw inst" "f_has_uop inst" "\<not> lane_is_nop inst"
    and b: "Suc n < 2 ^ 32" and sp: "rob_hasSpace (p_rob p)" "rs_hasSpace (p_rs p)"
    and d: "rob_dispatch (f_opcode inst) (dest_for_rob inst) (p_rob p) = Some (Some t, r)"
    and p1: "p1 = p\<lparr>p_rob := r, p_next_inst_id := p_next_inst_id p + 1\<rparr>"
    and i: "i = make_info inst (p_next_inst_id p) t p1"
    and al: "allocate_entry i p1 = (ok, p2)" and rd: "rename_dest i p2 = (i', p3)" and rec: "record_inst i' p3 = Some p'"
  shows "flow iw (Suc n) P {} fs p' \<and> p_cdb_wakeup_pending p' = p_cdb_wakeup_pending p
    \<and> p_dispatch_reg p' = p_dispatch_reg p \<and> p_ifq p' = p_ifq p \<and> p_config p' = p_config p"
proof -
  note D = flowD [OF fl]
  let ?ts = "p_inst_table p" and ?rs = "results (p_rob p)" and ?depth = "cfg_rob_size (p_config p)"
  obtain u where u: "img iw (f_pc inst) = Some u" "f_predicted_taken inst \<longrightarrow> control_uop u" "f_imm inst = u_imm u"
      "f_uop inst = u\<lparr>u_pred_taken := f_predicted_taken inst, u_pred_target := f_predicted_target inst\<rparr>"
    using fetched_img [OF f(1,2)] by blast
  have nn: "\<not> nop_uop u" using f(2,3) u(4) by (simp add: lane_is_nop_def nop_uop_def Let_def)
  have nm: "\<not> u_is_load u" "\<not> u_is_store u" using img_memory_free [OF D(1) u(1)] by simp_all
  note F = make_info_fields [OF f(2) u(4), of "p_next_inst_id p" t p1, folded i]
  note C = make_info_core [of inst "p_next_inst_id p" t p1, folded i]
  have e: "entry_ok iw i" unfolding i by (rule renamed_entry [OF f(2) u nn nm])
  have mem: "\<not> ii_is_load i" "\<not> ii_is_store i" using F(9,10) nm by simp_all
  note io = in_order_dispatch [OF D(3) sp(1) d]
  have l: "length ?rs = length ?ts" by (rule dataflowD(2) [OF D(4)])
  have io4: "in_order ?depth r (?ts @ [i])" by (rule io(4)) (simp_all add: C)
  have ids: "ids_ok (Suc n) (p_next_inst_id p + 1) (?ts @ [i])" "p_next_inst_id p \<notin> ii_inst_id ` set ?ts"
    using ids_append [OF D(5) b, of i] C(1) by simp_all
  have uo: "uo iw i = u" using u(1) F(12) by (simp add: uo_def)
  have op: "operands iw (p_arf p) ?ts ?rs P (length ?ts) i"
    unfolding i
  proof (rule resolved_operands [OF f(2) refl, where u = u and pt = "f_predicted_taken inst" and tg = "f_predicted_target inst"])
    show "uo iw (make_info inst (p_next_inst_id p) t p1) = u" using uo i by simp
    show "uop_wf u" by (rule img_wf [OF u(1)])
    show "f_uop inst = u\<lparr>u_pred_taken := f_predicted_taken inst, u_pred_target := f_predicted_target inst\<rparr>" by (rule u(4))
    fix x :: int assume x: "x < 32"
    have q: "p_rat p1 = p_rat p" "p_arf p1 = p_arf p" "p_rob p1 = r" "p_config p1 = p_config p" by (simp_all add: p1)
    have rr: "?rs ! j = (if rob_isReady r (ii_rob_id (?ts ! j)) then Some (rob_getValue r (ii_rob_id (?ts ! j))) else None)"
      if j: "j < length ?ts" for j
      using results_nth [OF D(3) j] io(5) nth_mem [OF j] by simp
    have nr: "cfg_num_regs (p_config p) = 32" using D(2) by (simp add: hex_env_def)
    show "case resolveOperand x p1 of (rdy, t, v) \<Rightarrow>
        (if rdy then v = reg (regs_at iw (p_arf p) ?ts) x else waits iw (p_arf p) ?ts ?rs P (length ?ts) x t)"
      by (rule resolve_ok [of ?depth p1 "p_rat_ckpts p" ?ts iw ?rs P x, unfolded q, OF D(6,4) nr x rr])
  qed
  have df: "dataflow iw (p_arf p) (?ts @ [i]) (?rs @ [None]) P"
    by (rule dataflow_append [OF D(4) e _ op F(16-18)]) (use io(2) C(2) in simp)
  obtain q where q: "rs_allocate (ii_inst_id i) (ii_src1_ready i, ii_src1_tag i, ii_src1_val i, ii_src2_ready i, ii_src2_tag i, ii_src2_val i)
      (p_rs p) = (ok, q)" "p2 = p1\<lparr>p_rs := q\<rparr>"
    using al mem by (auto simp: allocate_entry_def p1 Let_def split: prod.splits)
  have sta: "stations (?ts @ [i]) q"
    by (rule stations_append [OF D(10) sp(2) _ F(16) q(1)]) (use ids(2) C(1) in simp)
  let ?rat = "if 0 < ii_dest_reg i then rat_rename (ii_dest_reg i) (ii_rob_id i) (p_rat p) else p_rat p"
  have "ii_rd_used i \<longleftrightarrow> 0 < ii_dest_reg i" using entry_dest [OF e] wf_rd [OF entry_wf [OF e]] by auto
  then have p3: "i' = i" "p3 = p2\<lparr>p_rat := ?rat\<rparr>" using rd F(1) mem(2) by (auto simp: rename_dest_def q(2) p1)
  obtain ck where ck: "(if isControl i then ck_save (ii_rob_id i) (rat_getState ?rat) (p_rat_ckpts p) else Some (p_rat_ckpts p)) = Some ck"
      "p' = upd_stats (\<lambda>s. s\<lparr>st_issued := st_issued s + 1\<rparr>) (p3\<lparr>p_rat_ckpts := ck, p_inst_table := table_put i (p_inst_table p3)\<rparr>)"
  proof -
    have x: "p_rat p3 = ?rat" "p_rat_ckpts p3 = p_rat_ckpts p" by (simp_all add: p3 q(2) p1)
    obtain c where "(if isControl i then ck_save (ii_rob_id i) (rat_getState (p_rat p3)) (p_rat_ckpts p3) else Some (p_rat_ckpts p3)) = Some c"
        "p' = upd_stats (\<lambda>s. s\<lparr>st_issued := st_issued s + 1\<rparr>) (p3\<lparr>p_rat_ckpts := c, p_inst_table := table_put i (p_inst_table p3)\<rparr>)"
      using rec unfolding record_inst_def p3(1) by (auto simp only: bind_eq_Some_conv option.inject)
    then show thesis using that unfolding x by blast
  qed
  have rn: "renamed ?depth ?rat ck (?ts @ [i])"
    by (rule renamed_append [OF D(6) _ _ ck(1) refl]) (use io(1,2) C(2) in simp_all)
  have tb: "table_put i (p_inst_table p3) = ?ts @ [i]" using ids(2) C(1) by (simp add: table_put_def p3 q(2) p1)
  have tk: "tokens iw (p_arf p) (?ts @ [i]) (?rs @ [None]) {} (p_ee p)" by (rule tokens_append [OF D(7) l])
  have "ilink i = flink inst" using F(12-15,18) by (simp add: ilink_def flink_def)
  then have po: "program_order iw (p_arf p) (?ts @ [i]) fs (p_fetch_pc p)" using D(11) by (simp add: program_order_def)
  let ?p = "p\<lparr>p_rob := r, p_next_inst_id := p_next_inst_id p + 1, p_rs := q, p_rat := ?rat, p_rat_ckpts := ck, p_inst_table := ?ts @ [i]\<rparr>"
  have p': "p' = upd_stats (\<lambda>s. s\<lparr>st_issued := st_issued s + 1\<rparr>) ?p" using ck(2) tb by (simp add: p3 q(2) p1)
  have "hex_env iw ?p" "fetch_ok iw ?p" using D(2,13) by (simp_all add: hex_env_def fetch_ok_def)
  moreover have fld: "p_inst_table ?p = ?ts @ [i]" "p_arf ?p = p_arf p" "p_rob ?p = r" "p_rat ?p = ?rat" "p_rat_ckpts ?p = ck"
      "p_config ?p = p_config p" "p_next_inst_id ?p = p_next_inst_id p + 1" "p_ee ?p = p_ee p" "p_lsq ?p = p_lsq p" "p_rs ?p = q"
      "p_cdb_arbiter ?p = p_cdb_arbiter p" "p_fetch_pc ?p = p_fetch_pc p" "p_dispatch_reg ?p = p_dispatch_reg p" "p_ifq ?p = p_ifq p"
    by simp_all
  ultimately have "flow iw (Suc n) P {} fs ?p"
    unfolding flow_defs fld io(3) using D(1,8,9,12) io4 df ids(1) rn tk sta po by blast
  then have "flow iw (Suc n) P {} fs p'" unfolding p' by (simp only: flow_stats)
  then show ?thesis by (simp add: p') (simp add: upd_stats_def)
qed

lemma flow_tryRename:
  assumes fl: "flow iw n P {} (inst # fs) p" and f: "fetched iw inst" "f_has_uop inst" and b: "Suc n < 2 ^ 32"
    and r: "tryRenameOne inst p = Some (ok, p')"
  shows "flow iw (Suc n) P {} (if ok then fs else inst # fs) p' \<and> p_cdb_wakeup_pending p' = p_cdb_wakeup_pending p
    \<and> p_dispatch_reg p' = p_dispatch_reg p \<and> p_ifq p' = p_ifq p \<and> p_config p' = p_config p"
proof -
  note D = flowD [OF fl] and fl' = flow_more [OF fl, of "Suc n"]
  obtain u where u: "img iw (f_pc inst) = Some u"
      "f_uop inst = u\<lparr>u_pred_taken := f_predicted_taken inst, u_pred_target := f_predicted_target inst\<rparr>"
    using fetched_img [OF f] by blast
  have nm: "\<not> needs_mem inst" using img_memory_free [OF D(1) u(1)] u(2) f(2) by (simp add: needs_mem_def)
  show ?thesis
  proof (cases "lane_is_nop inst")
    case True
    then have "ok" "p' = p" using r by (simp_all add: tryRenameOne_def)
    then show ?thesis using flow_more [OF flow_drop_nop [OF fl f True], of "Suc n"] by simp
  next
    case nn: False
    show ?thesis
    proof (cases "rob_hasSpace (p_rob p) \<and> rs_hasSpace (p_rs p)")
      case False
      then have "\<not> ok \<and> (\<exists>g. p' = upd_stats g p)" using r nn nm by (auto simp: tryRenameOne_def split: if_splits)
      then show ?thesis using fl' by (auto simp: upd_stats_def [of _ p] flow_other)
    next
      case sp: True
      have "rob_active_count (p_rob p) < rob_capacity (p_rob p)" using sp by (simp add: rob_hasSpace_def)
      then obtain t rob where d: "rob_dispatch (f_opcode inst) (dest_for_rob inst) (p_rob p) = Some (Some t, rob)"
        using rob_dispatch_ok [OF in_orderD(1) [OF D(3)]] by blast
      define p1 where "p1 = p\<lparr>p_rob := rob, p_next_inst_id := p_next_inst_id p + 1\<rparr>"
      define i where "i = make_info inst (p_next_inst_id p) t p1"
      obtain ok' p2 where al: "allocate_entry i p1 = (ok', p2)" by fastforce
      have "fst (allocate_entry i p1)"
        by (rule allocate_entry_ok) (use sp nm make_info_mem [of inst "p_next_inst_id p" t p1] in \<open>simp add: i_def p1_def\<close>)
      then have ok': ok' using al by simp
      obtain i' p3 where rd: "rename_dest i p2 = (i', p3)" by fastforce
      have "tryRenameOne inst p = map_option (\<lambda>p4. (True, p4)) (record_inst i' p3)"
        using nn sp nm d al rd ok' by (simp add: tryRenameOne_def Let_def p1_def [symmetric] i_def [symmetric])
      then have "map_option (\<lambda>p4. (True, p4)) (record_inst i' p3) = Some (ok, p')" using r by (simp only:)
      then have rec: "record_inst i' p3 = Some p'" "ok" by auto
      then show ?thesis using flow_rename_step [OF fl f nn b _ _ d p1_def i_def al rd rec(1)] sp by simp
    qed
  qed
qed

lemma flow_rename_lanes:
  "flow iw n P {} (drop j (dr_contents (p_dispatch_reg p)) @ F) p \<Longrightarrow> j + m = dr_count (p_dispatch_reg p) \<Longrightarrow> n + m < 2 ^ 32 \<Longrightarrow>
   rename_lanes [j..<j + m] p = Some (a, p') \<Longrightarrow>
   flow iw (n + m) P {} (drop (j + a) (dr_contents (p_dispatch_reg p)) @ F) p' \<and> a \<le> m
     \<and> p_cdb_wakeup_pending p' = p_cdb_wakeup_pending p \<and> p_dispatch_reg p' = p_dispatch_reg p \<and> p_ifq p' = p_ifq p
     \<and> p_config p' = p_config p"
proof (induction m arbitrary: n j a p)
  case (Suc m)
  let ?d = "p_dispatch_reg p"
  note D = flowD [OF Suc.prems(1)]
  have wf: "dr_wf ?d" using D(12) by (simp add: front_ok_def)
  have j: "j < dr_count ?d" "j < dr_width ?d" using Suc.prems(2) wf by (simp_all add: dr_wf_def)
  have v: "dr_laneValid ?d j" using dr_valid_nth [OF wf j(2)] j by (simp add: dr_laneValid_def)
  let ?inst = "dr_contents ?d ! j"
  have c: "DispatchReg.dr_slots ?d ! j = ?inst" using j by (simp add: dr_contents_def)
  have jl: "j < length (dr_contents ?d)" using j(1) by (simp add: length_dr_contents [OF wf])
  have fs: "drop j (dr_contents ?d) @ F = ?inst # drop (Suc j) (dr_contents ?d) @ F" using Cons_nth_drop_Suc [OF jl] by simp
  have f: "fetched iw ?inst" "f_has_uop ?inst" using D(12) nth_mem [OF jl] by (simp_all add: front_ok_def)
  have up: "[j..<j + Suc m] = j # [Suc j..<Suc j + m]" by (simp add: upt_conv_Cons)
  obtain ok p1 where p1: "tryRenameOne ?inst p = Some (ok, p1)"
      "(if \<not> ok then a = 0 \<and> p' = p1 else (\<exists>b. rename_lanes [Suc j..<Suc j + m] p1 = Some (b, p') \<and> a = Suc b))"
    using Suc.prems(4) v unfolding up by (auto simp: dr_lane_def c split: bind_splits if_splits)
  have s: "flow iw (Suc n) P {} (if ok then drop (Suc j) (dr_contents ?d) @ F else ?inst # drop (Suc j) (dr_contents ?d) @ F) p1
      \<and> p_cdb_wakeup_pending p1 = p_cdb_wakeup_pending p \<and> p_dispatch_reg p1 = ?d \<and> p_ifq p1 = p_ifq p \<and> p_config p1 = p_config p"
    by (rule flow_tryRename [OF Suc.prems(1) [unfolded fs] f _ p1(1)]) (use Suc.prems(3) in simp)
  show ?case
  proof (cases ok)
    case False
    then have "flow iw (Suc n) P {} (drop j (dr_contents ?d) @ F) p1" using s fs by simp
    then have "flow iw (n + Suc m) P {} (drop j (dr_contents ?d) @ F) p1" by (rule flow_more) simp
    then show ?thesis using False p1(2) s by simp
  next
    case True
    then obtain b where b: "rename_lanes [Suc j..<Suc j + m] p1 = Some (b, p')" "a = Suc b" using p1(2) by auto
    have "flow iw (Suc n) P {} (drop (Suc j) (dr_contents (p_dispatch_reg p1)) @ F) p1" using True s by simp
    from Suc.IH [OF this _ _ b(1)] Suc.prems(2,3) s b(2) show ?thesis by simp
  qed
qed simp

lemma flow_issueStage:
  assumes fl: "flow iw n (p_cdb_wakeup_pending p) {} (front p) p" and b: "n + dr_width (p_dispatch_reg p) < 2 ^ 32"
    and r: "issueStage p = Some p'"
  shows "flow iw (n + dr_width (p_dispatch_reg p)) (p_cdb_wakeup_pending p') {} (front p') p'"
proof -
  let ?d = "p_dispatch_reg p" and ?P = "p_cdb_wakeup_pending p"
  have wf: "dr_wf ?d" using flowD(12) [OF fl] by (simp add: front_ok_def)
  then have c: "dr_count ?d \<le> dr_width ?d" by (simp add: dr_wf_def)
  obtain a p1 where p1: "rename_lanes [0..<dr_count ?d] p = Some (a, p1)"
    using r by (auto simp: issueStage_def Let_def split: bind_splits)
  have "flow iw (n + dr_count ?d) ?P {} (drop (0 + a) (dr_contents ?d) @ ifq_contents (p_ifq p)) p1 \<and> a \<le> dr_count ?d
     \<and> p_cdb_wakeup_pending p1 = ?P \<and> p_dispatch_reg p1 = ?d \<and> p_ifq p1 = p_ifq p \<and> p_config p1 = p_config p"
    by (rule flow_rename_lanes [where j = 0]) (use fl b c p1 in simp_all)
  then have s: "flow iw (n + dr_width ?d) ?P {} (drop a (dr_contents ?d) @ ifq_contents (p_ifq p)) p1" "a \<le> dr_count ?d"
      "p_cdb_wakeup_pending p1 = ?P" "p_dispatch_reg p1 = ?d" "p_ifq p1 = p_ifq p"
    using flow_more c by auto
  obtain d' where d': "dr_acceptPrefix a ?d = Some d'" "dr_wf d'" "dr_contents d' = drop a (dr_contents ?d)"
    using dr_accept_ok [OF wf s(2)] by blast
  let ?p2 = "if 0 < a then p1\<lparr>p_dispatch_reg := d'\<rparr> else p1"
  have acc: "(if 0 < a then map_option (\<lambda>d. p1\<lparr>p_dispatch_reg := d\<rparr>) (dr_acceptPrefix a (p_dispatch_reg p1)) else Some p1) = Some ?p2"
    using d'(1) s(4) by simp
  let ?stall = "upd_stats (\<lambda>s. s\<lparr>st_stall_front := st_stall_front s + 1\<rparr>) ?p2"
  have "issueStage p = Some (if a = 0 \<and> dr_count ?d = 0 \<and> upstream ?p2 then ?stall else ?p2)"
    unfolding issueStage_def Let_def p1 by (simp only: Option.bind.simps prod.case acc)
  then have "p' = (if a = 0 \<and> dr_count ?d = 0 \<and> upstream ?p2 then ?stall else ?p2)" using r by (simp only: option.inject)
  then have "p' = ?stall \<or> p' = ?p2" by presburger
  moreover have "flow iw (n + dr_width ?d) (p_cdb_wakeup_pending ?p2) {} (front ?p2) ?p2"
  proof (cases "0 < a")
    case True
    have "front_ok iw d' (p_ifq p1)" using flowD(12) [OF s(1)] d'(2,3) s(4) by (auto simp: front_ok_def dest: in_set_dropD)
    then have "flow iw (n + dr_width ?d) ?P {} (drop a (dr_contents ?d) @ ifq_contents (p_ifq p)) (p1\<lparr>p_dispatch_reg := d'\<rparr>)"
      using s(1) by (simp add: flow_defs hex_env_def fetch_ok_def)
    with True d'(3) s(3,5) show ?thesis by simp
  next
    case False
    then show ?thesis using s by simp
  qed
  moreover have "flow iw k (p_cdb_wakeup_pending (upd_stats g q)) {} (front (upd_stats g q)) (upd_stats g q)
      = flow iw k (p_cdb_wakeup_pending q) {} (front q) q" for k g q
    by (simp only: flow_stats) (simp add: upd_stats_def)
  ultimately show ?thesis by (elim disjE) (simp_all only:)
qed

end
