(* ===== verification/FlowFetch.thy ===== *)
theory FlowFetch
  imports FlowRename
begin

text \<open>
  Decode and fetch keep the data flow: what enters the front end is the word of the image at the
  program counter, and the next program counter follows its prediction.
\<close>

section \<open>Decode\<close>

lemma flink_decoded [simp]: "flink (decodeForDispatch f p) = flink f"
  by (simp add: decodeForDispatch_def flink_def Let_def)

lemma fetched_decoded:
  assumes "p_hex_mode p" "fetched iw f" "\<not> f_has_uop f"
  shows "fetched iw (decodeForDispatch f p) \<and> f_has_uop (decodeForDispatch f p)"
  using assms by (simp add: decodeForDispatch_def fetched_def Let_def)

lemma decode_bundle_ok:
  "ifq_wf (p_ifq p) \<Longrightarrow> decode_bundle k p = (b, p') \<Longrightarrow>
   \<exists>q xs. p' = p\<lparr>p_ifq := q\<rparr> \<and> ifq_wf q \<and> ifq_contents (p_ifq p) = xs @ ifq_contents q
     \<and> b = map (\<lambda>f. decodeForDispatch f p) xs"
proof (induction k arbitrary: p b)
  case 0
  then show ?case by (intro exI [of _ "p_ifq p"] exI [of _ "[]"]) simp
next
  case (Suc k)
  show ?case
  proof (cases "ifq_dequeue (p_ifq p)")
    case None
    then show ?thesis using Suc.prems by (intro exI [of _ "p_ifq p"] exI [of _ "[]"]) simp
  next
    case (Some x)
    then obtain f q where f: "ifq_dequeue (p_ifq p) = Some (f, q)" by (cases x) auto
    note d = ifq_dequeue_ok [OF Suc.prems(1) f]
    obtain b' where b: "decode_bundle k (p\<lparr>p_ifq := q\<rparr>) = (b', p')" "b = decodeForDispatch f p # b'"
      using Suc.prems(2) f by (auto split: prod.splits)
    have "ifq_wf (p_ifq (p\<lparr>p_ifq := q\<rparr>))" using d by simp
    from Suc.IH [OF this b(1)] obtain q' xs where x: "p' = p\<lparr>p_ifq := q'\<rparr>" "ifq_wf q'" "ifq_contents q = xs @ ifq_contents q'"
        "b' = map (\<lambda>g. decodeForDispatch g (p\<lparr>p_ifq := q\<rparr>)) xs" by auto
    have "decodeForDispatch g (p\<lparr>p_ifq := q\<rparr>) = decodeForDispatch g p" for g by (simp add: decodeForDispatch_def)
    with x b(2) d show ?thesis by (intro exI [of _ q'] exI [of _ "f # xs"]) simp
  qed
qed

lemma flow_decodeStage:
  assumes fl: "flow iw n (p_cdb_wakeup_pending p) {} (front p) p" and r: "decodeStage p = Some p'"
  shows "flow iw n (p_cdb_wakeup_pending p') {} (front p') p'"
proof (cases "dr_canCapture (p_dispatch_reg p)")
  case False
  then show ?thesis using fl r by (simp add: decodeStage_def)
next
  case True
  note D = flowD [OF fl]
  let ?d = "p_dispatch_reg p"
  have wf: "dr_wf ?d" "ifq_wf (p_ifq p)" using D(12) by (simp_all add: front_ok_def)
  then have "dr_count ?d = 0" using True by (simp add: dr_canCapture_def dr_wf_def)
  then have em: "dr_contents ?d = []" by (simp add: dr_contents_def)
  obtain b p1 where b: "decode_bundle (cfg_width (p_config p)) p = (b, p1)" by fastforce
  obtain q xs where q: "p1 = p\<lparr>p_ifq := q\<rparr>" "ifq_wf q" "ifq_contents (p_ifq p) = xs @ ifq_contents q"
      "b = map (\<lambda>f. decodeForDispatch f p) xs" using decode_bundle_ok [OF wf(2) b] by blast
  obtain d where d: "dr_capture b ?d = Some d" "p' = p1\<lparr>p_dispatch_reg := d\<rparr>"
    using r True b q(1) by (auto simp: decodeStage_def)
  then have "length b \<le> dr_width ?d" by (simp add: dr_capture_def split: if_splits)
  then have d': "dr_wf d" "dr_contents d = b" using dr_capture_ok [OF wf(1) em, of b] d(1) by auto
  have hex: "p_hex_mode p" using D(2) by (simp add: hex_env_def)
  have fr: "\<forall>f \<in> set xs. fetched iw f \<and> \<not> f_has_uop f" "\<forall>f \<in> set (ifq_contents q). fetched iw f \<and> \<not> f_has_uop f"
    using D(12) q(3) by (auto simp: front_ok_def)
  have "\<forall>f \<in> set xs. fetched iw (decodeForDispatch f p) \<and> f_has_uop (decodeForDispatch f p)"
    using fr(1) fetched_decoded [OF hex] by blast
  then have "front_ok iw d q" using d' q(2,4) fr(2) by (simp add: front_ok_def)
  moreover have "map flink (dr_contents d @ ifq_contents q) = map flink (front p)" by (simp add: d' q(3,4) em)
  then have "program_order iw (p_arf p) (p_inst_table p) (dr_contents d @ ifq_contents q) (p_fetch_pc p)"
    using D(11) by (simp add: program_order_def)
  ultimately show ?thesis using fl by (simp add: flow_defs hex_env_def fetch_ok_def d(2) q(1))
qed

section \<open>Fetch\<close>

lemma predict_ok:
  assumes "predictHexControl pc peek inst0 b p = Some (inst, p')"
  shows "\<exists>s. p' = p\<lparr>p_ras := s\<rparr>" "f_pc inst = f_pc inst0" "f_raw_instr inst = f_raw_instr inst0"
    "f_has_uop inst = f_has_uop inst0" "f_predicted_taken inst \<Longrightarrow> control_uop peek"
proof -
  have ex: "\<exists>s. p = p\<lparr>p_ras := s\<rparr>" by (rule exI [of _ "p_ras p"]) simp
  show "\<exists>s. p' = p\<lparr>p_ras := s\<rparr>"
    using assms ex by (auto simp: predictHexControl_def predictGShare_def Let_def split: if_splits option.splits)
  show "f_pc inst = f_pc inst0" "f_raw_instr inst = f_raw_instr inst0" "f_has_uop inst = f_has_uop inst0"
      "f_predicted_taken inst \<Longrightarrow> control_uop peek"
    using assms by (auto simp: predictHexControl_def predictGShare_def reset_prediction_def Let_def split: if_splits option.splits)
qed

lemma imem_img:
  assumes "hex_env iw p"
  shows "imemWord pc p = None \<or> imemWord pc p = Some INSTR_INVALID \<Longrightarrow> img iw pc = None"
    "imemWord pc p = Some w \<Longrightarrow> w \<noteq> INSTR_INVALID \<Longrightarrow> img_word iw pc = Some w \<and> img iw pc = Some (decodeInstruction w pc)"
proof -
  have i: "p_imem p = iw" using assms by (simp add: hex_env_def)
  show "imemWord pc p = None \<or> imemWord pc p = Some INSTR_INVALID \<Longrightarrow> img iw pc = None"
    by (auto simp: imemWord_def i img_def img_word_def Let_def split: if_splits)
  show "imemWord pc p = Some w \<Longrightarrow> w \<noteq> INSTR_INVALID \<Longrightarrow> img_word iw pc = Some w \<and> img iw pc = Some (decodeInstruction w pc)"
    by (auto simp: imemWord_def i img_def img_word_def Let_def split: if_splits)
qed

abbreviation idle_fetch :: "Processor \<Rightarrow> Processor" where
  "idle_fetch p \<equiv> p\<lparr>p_imem_req_outstanding := False\<rparr>"

definition fetching :: "u32 list \<Rightarrow> nat \<Rightarrow> Processor \<Rightarrow> bool" where
  "fetching iw n p \<longleftrightarrow> flow iw n (p_cdb_wakeup_pending p) {} (front p) (idle_fetch p)"

lemma fetching_halt:
  "fetching iw n p \<Longrightarrow> img iw (p_fetch_pc p) = None \<Longrightarrow> fetching iw n (p\<lparr>p_fetch_halted := True\<rparr>)"
  by (simp add: fetching_def flow_defs hex_env_def fetch_ok_def)

lemma fetching_enqueue:
  assumes f: "fetching iw n p" and nh: "\<not> p_fetch_halted p" and w: "imemWord (p_fetch_pc p) p = Some w" "w \<noteq> INSTR_INVALID"
    and r: "fetchEnqueueHexWord w (p_fetch_pc p) p = Some (ok, red, p')"
  shows "fetching iw n p' \<and> \<not> p_fetch_halted p' \<and> p_config p' = p_config p \<and> p_ideal_fetch_pc p' = p_ideal_fetch_pc p
    \<and> (ok \<and> \<not> red \<longrightarrow> p_fetch_pc p' = p_fetch_pc p + INSTR_SIZE)"
proof (cases "ifq_isFull (p_ifq p)")
  case True
  then show ?thesis using r w(2) f nh by (simp add: fetchEnqueueHexWord_def)
next
  case False
  let ?pc = "p_fetch_pc p" and ?u = "decodeInstruction w (p_fetch_pc p)"
  note D = flowD [OF f [unfolded fetching_def]]
  have env: "hex_env iw p" using D(2) by (simp add: hex_env_def)
  obtain inst p1 where i: "predictHexControl ?pc ?u (fetched0\<lparr>f_pc := ?pc, f_raw_instr := w, f_has_uop := False\<rparr>) True p = Some (inst, p1)"
    using r w(2) False by (auto simp: fetchEnqueueHexWord_def split: bind_splits)
  note P = predict_ok [OF i]
  obtain s where s: "p1 = p\<lparr>p_ras := s\<rparr>" using P(1) by blast
  have wf: "ifq_wf (p_ifq p)" using D(12) by (simp add: front_ok_def)
  then have "ifq_active_count (p_ifq p) < ifq_capacity (p_ifq p)" using False by (simp add: ifq_wf_def ifq_isFull_def)
  then obtain q where q: "ifq_enqueue inst (p_ifq p) = Some q" "ifq_wf q" "ifq_contents q = ifq_contents (p_ifq p) @ [inst]"
    using ifq_enqueue_ok [OF wf, of inst] by blast
  let ?pc' = "if f_predicted_taken inst then f_predicted_target inst else ?pc + INSTR_SIZE"
  let ?g = "\<lambda>s. s\<lparr>st_fetched := st_fetched s + 1\<rparr>"
  let ?q = "p\<lparr>p_ras := s, p_ifq := q, p_fetch_pc := ?pc'\<rparr>"
  have p': "p' = upd_stats ?g ?q" "ok" "red = f_predicted_taken inst"
    using r w(2) False i q(1) by (auto simp: fetchEnqueueHexWord_def s Let_def upd_stats_def split: if_splits)
  have fk: "flink inst = (?pc, ?pc')" using P(2) by (simp add: flink_def)
  have "fetched iw inst" using imem_img(2) [OF env w] P by (auto simp: fetched_def Let_def)
  then have fo: "front_ok iw (p_dispatch_reg p) q" using D(12) q(2,3) P(4) by (auto simp: front_ok_def)
  obtain k pc where k: "seq_steps iw k (replicate 32 0, 0) = Some (p_arf p, pc)"
      "chain iw pc (map ilink (p_inst_table p) @ map flink (front p)) ?pc"
    using D(11) by (auto simp: program_order_def)
  have "chain iw pc (map ilink (p_inst_table p) @ map flink (dr_contents (p_dispatch_reg p) @ ifq_contents q)) ?pc'"
    using chain_snoc [OF k(2), of ?pc'] q(3) fk by simp
  then have po: "program_order iw (p_arf p) (p_inst_table p) (dr_contents (p_dispatch_reg p) @ ifq_contents q) ?pc'"
    using k(1) unfolding program_order_def by blast
  have fe: "fetch_ok iw (idle_fetch ?q)" using nh by (simp add: fetch_ok_def)
  have "flow iw n (p_cdb_wakeup_pending p) {} (dr_contents (p_dispatch_reg p) @ ifq_contents q) (idle_fetch ?q)"
    using f fo po fe by (simp add: fetching_def flow_defs hex_env_def)
  then have "fetching iw n ?q" by (simp add: fetching_def)
  then have "fetching iw n p'" by (simp add: fetching_def p'(1) upd_stats_def flow_defs hex_env_def fetch_ok_def)
  then show ?thesis using p'(2,3) nh by (simp add: p'(1) upd_stats_def)
qed

lemma fetching_words:
  "fetching iw n p \<Longrightarrow> \<not> p_fetch_halted p \<Longrightarrow> p_fetch_pc p = p_ideal_fetch_pc p + of_nat (4 * j) \<Longrightarrow>
   ideal_words [j..<j + k] p = Some p' \<Longrightarrow> fetching iw n p'"
proof (induction k arbitrary: j p)
  case (Suc k)
  have up: "[j..<j + Suc k] = j # [Suc j..<Suc j + k]" by (simp add: upt_conv_Cons)
  have env: "hex_env iw p" using flowD(2) [OF Suc.prems(1) [unfolded fetching_def]] by (simp add: hex_env_def)
  note pc = Suc.prems(3)
  show ?case
  proof (cases "imemWord (p_fetch_pc p) p = None \<or> imemWord (p_fetch_pc p) p = Some INSTR_INVALID")
    case True
    then have "p' = p\<lparr>p_fetch_halted := True\<rparr>" using Suc.prems(4) unfolding up ideal_words.simps Let_def pc [symmetric] by auto
    with fetching_halt [OF Suc.prems(1) imem_img(1) [OF env True]] show ?thesis by simp
  next
    case False
    then obtain w where w: "imemWord (p_fetch_pc p) p = Some w" "w \<noteq> INSTR_INVALID" by auto
    then obtain ok red p1 where p1: "fetchEnqueueHexWord w (p_fetch_pc p) p = Some (ok, red, p1)"
        "(if \<not> ok \<or> red then Some p1 else ideal_words [Suc j..<Suc j + k] p1) = Some p'"
      using Suc.prems(4) unfolding up ideal_words.simps Let_def pc [symmetric] by (auto split: bind_splits)
    note s = fetching_enqueue [OF Suc.prems(1,2) w p1(1)]
    show ?thesis
    proof (cases "\<not> ok \<or> red")
      case True
      then show ?thesis using p1(2) s by auto
    next
      case False
      have "p_fetch_pc p1 = p_ideal_fetch_pc p1 + of_nat (4 * Suc j)"
        using s False pc by (simp add: INSTR_SIZE_def algebra_simps)
      moreover have "ideal_words [Suc j..<Suc j + k] p1 = Some p'" using p1(2) False by (simp only: if_False)
      ultimately show ?thesis using Suc.IH s by blast
    qed
  qed
qed simp

lemma flow_fetchStage:
  assumes fl: "flow iw n (p_cdb_wakeup_pending p) {} (front p) p" and r: "fetchStage p = Some p'"
  shows "flow iw n (p_cdb_wakeup_pending p') {} (front p') p'"
proof (cases "p_fetch_halted p")
  case True
  have "p_hex_mode p" using flowD(2) [OF fl] by (simp add: hex_env_def)
  then show ?thesis using fl r True by (simp add: fetchStage_def)
next
  case nh: False
  note D = flowD [OF fl]
  have "fetch_ideal p = Some p'" using r nh ideal_uncached [OF D(2)] D(2) by (simp add: fetchStage_def hex_env_def)
  then obtain p1 where p1: "(if p_imem_req_outstanding p \<and> p_ideal_fetch_countdown p = 0
           then do { p' \<leftarrow> ideal_words [0..<cfg_width (p_config p)] p; Some (idle_fetch p') }
           else Some p) = Some p1"
      "p' = (let p2 = ideal_request p1 in if p_imem_req_outstanding p2 \<and> 0 < p_ideal_fetch_countdown p2
           then p2\<lparr>p_ideal_fetch_countdown := p_ideal_fetch_countdown p2 - 1\<rparr> else p2)"
    unfolding fetch_ideal_def Let_def by (auto simp only: bind_eq_Some_conv option.inject)
  have f1: "flow iw n (p_cdb_wakeup_pending p1) {} (front p1) p1"
  proof (cases "p_imem_req_outstanding p \<and> p_ideal_fetch_countdown p = 0")
    case True
    then obtain q where q: "ideal_words [0..<cfg_width (p_config p)] p = Some q" "p1 = idle_fetch q"
      using p1(1) by (auto split: bind_splits)
    have "fetching iw n p" using fl by (simp add: fetching_def flow_defs hex_env_def fetch_ok_def)
    moreover have "p_fetch_pc p = p_ideal_fetch_pc p + of_nat (4 * 0)" using D(13) True by (simp add: fetch_ok_def)
    ultimately have "fetching iw n q" using fetching_words [of iw n p 0 "cfg_width (p_config p)" q] nh q(1) by simp
    then show ?thesis by (simp add: fetching_def q(2))
  next
    case False
    then have "p1 = p" using p1(1) by (simp only: if_False option.inject)
    then show ?thesis using fl by simp
  qed
  note D1 = flowD [OF f1]
  let ?p2 = "ideal_request p1"
  have f2: "flow iw n (p_cdb_wakeup_pending ?p2) {} (front ?p2) ?p2"
  proof (cases "\<not> p_imem_req_outstanding p1 \<and> \<not> p_fetch_halted p1 \<and>
        ifq_getOccupancy (p_ifq p1) + cfg_width (p_config p1) \<le> cfg_ifq_size (p_config p1)")
    case False
    then have "?p2 = p1" by (simp only: ideal_request_def if_False)
    then show ?thesis using f1 by simp
  next
    case True
    show ?thesis
    proof (cases "imemWord (p_fetch_pc p1) p1 = None \<or> imemWord (p_fetch_pc p1) p1 = Some INSTR_INVALID")
      case bad: True
      then have e: "?p2 = p1\<lparr>p_fetch_halted := True\<rparr>" using True by (auto simp: ideal_request_def)
      show ?thesis unfolding e using f1 imem_img(1) [OF D1(2) bad] True by (simp add: flow_defs hex_env_def fetch_ok_def)
    next
      case good: False
      then have e: "?p2 = p1\<lparr>p_imem_req_outstanding := True, p_ideal_fetch_pc := p_fetch_pc p1, p_ideal_fetch_countdown := 1\<rparr>"
        using True by (auto simp: ideal_request_def)
      show ?thesis unfolding e using f1 True by (simp add: flow_defs hex_env_def fetch_ok_def)
    qed
  qed
  have "flow iw n (p_cdb_wakeup_pending q) {} (front q) (q\<lparr>p_ideal_fetch_countdown := c\<rparr>)
      = flow iw n (p_cdb_wakeup_pending q) {} (front q) q" for q c
    by (simp add: flow_defs hex_env_def fetch_ok_def)
  then show ?thesis using f2 unfolding p1(2) Let_def by simp
qed

end
