(* ===== verification/FlowCore.thy ===== *)
theory FlowCore
  imports FlowFetch
begin

text \<open>
  The out-of-order core computes what the in-order interpreter computes: a cycle keeps the
  invariant of the data flow, and a machine loaded with an image starts in it.
\<close>

section \<open>A cycle\<close>

lemma flow_cycle:
  assumes p: "pinv True cfg c p" and fl: "flow iw n (p_cdb_wakeup_pending p) {} (front p) p"
    and b: "n + cfg_width cfg < 2 ^ 32" and r: "cycle_stages (start_cycle p) = Some p'"
  shows "flow iw (n + cfg_width cfg) (p_cdb_wakeup_pending p') {} (front p') p'"
proof -
  let ?p0 = "start_cycle p"
  obtain p1 where p1: "commitStage ?p0 = Some p1" using r by (auto simp: cycle_stages_def split: bind_splits)
  obtain p2 where p2: "writebackStage p1 = Some p2" using r p1 by (auto simp: cycle_stages_def split: bind_splits)
  obtain p3 where p3: "dispatchStage p2 = Some p3" using r p1 p2 by (auto simp: cycle_stages_def split: bind_splits)
  have f0: "flow iw n [] {} (front ?p0) ?p0 \<and> freed_ok ?p0 \<and> p_cdb_wakeup_pending ?p0 = []" by (rule flow_start_cycle [OF fl])
  then have "flow iw n [] {} (front p1) p1 \<and> freed_ok p1 \<and> p_cdb_wakeup_pending p1 = []"
    using flow_commitStage [of iw n ?p0 p1] p1 by blast
  then have "flow iw n (p_cdb_wakeup_pending p2) {} (front p2) p2 \<and> freed_ok p2"
    using flow_writebackStage [of iw n p1 p2] p2 by simp
  then have "steady iw n p2" by (simp add: steady_def)
  then have "steady iw n p3" by (rule steady_dispatchStage [OF _ p3])
  then have f3: "flow iw n (p_cdb_wakeup_pending p3) {} (front p3) p3" by (simp add: steady_def)
  have nc: "\<not> useCachedMem p3" using ideal_uncached [OF flowD(2) [OF f3]] by simp
  obtain p5 where p5: "issueStage p3 = Some p5" using r p1 p2 p3 nc by (auto simp: cycle_stages_def split: bind_splits)
  obtain p6 where p6: "decodeStage p5 = Some p6" "fetchStage p6 = Some p'"
    using r p1 p2 p3 p5 nc by (auto simp: cycle_stages_def split: bind_splits)
  have "pinv True cfg (c + 1) ?p0" by (rule pinv_start_cycle [OF p])
  then have "pinv True cfg (c + 1) p1" using pinv_commitStage p1 by fastforce
  then have "pinv True cfg (c + 1) p2" using fine_writebackStage p2 fine_SomeD by metis
  then have "pinv True cfg (c + 1) p3" using fine_dispatchStage p3 fine_SomeD by metis
  then have "dr_width (p_dispatch_reg p3) = cfg_width cfg" using pinvD(11) by (auto simp: dispatch_ok_def)
  then have "flow iw (n + cfg_width cfg) (p_cdb_wakeup_pending p5) {} (front p5) p5"
    using flow_issueStage [OF f3 _ p5] b by simp
  from flow_fetchStage [OF flow_decodeStage [OF this p6(1)] p6(2)] show ?thesis .
qed

section \<open>The loaded machine\<close>

lemma no_work: "\<forall>x \<in> set xs. f x = {#} \<Longrightarrow> (\<Sum>x \<leftarrow> xs. f x) = ({#} :: 'b multiset)"
  by (induction xs) simp_all

lemma flow_loaded:
  assumes cfg: "valid_config cfg" "cfg_mem_system cfg = Ideal" and q: "proc_init cfg mem ba = Some q" and mf: "memory_free iw"
    and p: "p = (loadHexProgram iw dwords q)\<lparr>p_self_check := sc\<rparr>"
  shows "flow iw 0 (p_cdb_wakeup_pending p) {} (front p) p"
proof -
  obtain dr arb where d: "dr_init (cfg_width cfg) = Some dr"
      "arb_init (cfg_cdb_width cfg) (cfg_num_alu cfg + cfg_num_mul cfg + cfg_num_div cfg + cfg_num_br cfg + cfg_num_lsq cfg) = Some arb"
    using q by (auto simp: proc_init_def split: bind_splits)
  let ?ee = "ee_init (cfg_num_alu cfg) (cfg_num_mul cfg) (cfg_num_div cfg) (cfg_num_br cfg)
         (cfg_alu_latency cfg) (cfg_mul_latency cfg) (cfg_div_latency cfg) (cfg_br_latency cfg)"
  let ?lsq = "lsq_init (cfg_lsq_size cfg) (cfg_num_lsq cfg) (cfg_store_buf_depth cfg) (cfg_mem_latency cfg)
         (cfg_fwd_latency cfg) (cfg_store_forwarding cfg) (cfg_width cfg)"
  have fld: "p_config p = cfg\<lparr>cfg_num_regs := 32, cfg_initial_pc := 0\<rparr>" "p_rob p = rob_init (cfg_rob_size cfg)"
      "p_inst_table p = []" "p_arf p = replicate 32 0" "p_rat p = rat_init 32" "p_rat_ckpts p = ck_init (cfg_rob_size cfg) 32"
      "p_rs p = rs_init (cfg_rs_size cfg)" "p_ee p = ?ee" "p_cdb_arbiter p = arb" "p_lsq p = ?lsq" "p_next_inst_id p = 0"
      "p_cdb_wakeup_pending p = []" "p_fetch_pc p = 0" "\<not> p_fetch_halted p" "\<not> p_imem_req_outstanding p" "p_hex_mode p"
      "p_imem p = iw" "kind (p_memsys p) = Some Ideal" "p_ifq p = ifq_flush (ifq_init (cfg_ifq_size cfg))"
      "p_dispatch_reg p = dr_flush dr"
    using q d cfg(2) unfolding p loadHexProgram_def by (auto simp: proc_init_def set_cached_def)
  have rw: "rob_wf (rob_init (cfg_rob_size cfg))" "rob_abs (rob_init (cfg_rob_size cfg)) = []"
      "rob_capacity (rob_init (cfg_rob_size cfg)) = cfg_rob_size cfg"
    using rob_wf_init [of "cfg_rob_size cfg"] cfg(1) by (simp_all add: valid_config_def rob_init_def)
  have "in_order (cfg_rob_size cfg) (p_rob p) []" "results (p_rob p) = []" using rw by (simp_all add: in_order_def fld results_def)
  moreover have "dataflow iw (replicate 32 0) [] [] []" by (simp add: dataflow_def wakeups_ok_def)
  moreover have "ids_ok 0 0 []" by (simp add: ids_ok_def)
  moreover have "renamed (cfg_rob_size cfg) (rat_init 32) (ck_init (cfg_rob_size cfg) 32) []"
    using rn_inv_init [of "cfg_rob_size cfg" 32] by (simp add: renamed_def rn_init_def)
  moreover have "eu_contents u = []" if "u \<in> set (ee_units ?ee)" for u
    using that by (auto simp: ee_init_def Let_def)
  then have "ee_work ?ee = {#}" unfolding ee_work_def by (intro no_work) simp
  then have "tokens iw A [] [] {} ?ee" for A by (simp add: tokens_def)
  moreover have "lanes_ok arb ?ee ?lsq"
  proof -
    have n: "length (ee_units ?ee) = cfg_num_alu cfg + cfg_num_mul cfg + cfg_num_div cfg + cfg_num_br cfg"
      by (simp add: ee_init_def Let_def)
    have "ee_wf ?ee" by (auto simp: ee_wf_def ee_init_def Let_def)
    moreover have "arb_wf arb" "arb_num_producers arb = length (ee_units ?ee) + cfg_num_lsq cfg"
        "\<forall>i < arb_num_producers arb. \<not> arb_pending_valid arb ! i"
      using d(2) n by (auto simp: arb_init_def arb_reset_def arb_wf_def split: if_splits)
    ultimately show ?thesis by (simp add: lanes_ok_def ee_mirror_def lsq_init_def Let_def)
  qed
  moreover have "lsq_idle ?lsq" by (simp add: lsq_idle_def lsq_init_def lsq_entry0_def Let_def)
  moreover have "stations [] (rs_init (cfg_rs_size cfg))"
  proof -
    have "filter_mset rse_valid (mset (rs_stations (rs_init (cfg_rs_size cfg)))) = {#}"
      by (auto simp: filter_mset_eq_conv rs_init_def)
    then have "rs_ids (rs_init (cfg_rs_size cfg)) = {#}" by (simp add: rs_ids_def live_ids_def)
    moreover have "\<forall>e \<in> set (rs_stations (rs_init (cfg_rs_size cfg))). \<not> rse_valid e" by (simp add: rs_init_def)
    ultimately show ?thesis by (simp add: stations_def)
  qed
  moreover have fe: "dr_contents (dr_flush dr) = []" "ifq_contents (ifq_flush (ifq_init (cfg_ifq_size cfg))) = []"
      "dr_wf (dr_flush dr)" "ifq_wf (ifq_flush (ifq_init (cfg_ifq_size cfg)))"
    using dr_flush_wf ifq_flush_ok [OF ifq_wf_init] cfg(1) by (simp_all add: dr_contents_def valid_config_def)
  moreover have "program_order iw (replicate 32 0) [] [] 0"
    unfolding program_order_def by (rule exI [of _ 0], rule exI [of _ 0]) (simp add: nops_refl)
  ultimately show ?thesis using mf by (simp add: flow_defs hex_env_def fld fetch_ok_def front_ok_def)
qed

section \<open>Every run\<close>

lemma reach_flow:
  assumes "proc_reach p0 p" "pinv True cfg 0 p0" "flow iw 0 (p_cdb_wakeup_pending p0) {} (front p0) p0"
    and b: "cfg_width cfg * unat (max_cycle_count p0) < 2 ^ 32"
  shows "flow iw (cfg_width cfg * unat (p_cycle_count p)) (p_cdb_wakeup_pending p) {} (front p) p"
  using assms(1)
proof (induction rule: proc_reach.induct)
  case start
  then show ?case using flow_more [OF assms(3)] by simp
next
  case (tick p p')
  have inv: "pinv True cfg (p_cycle_count p) p" by (rule reach_pinv [OF tick.hyps(1) assms(2)])
  obtain q where q: "cycle_stages (start_cycle p) = Some q" "p' = q"
    using tick.hyps(3) by (auto simp: proc_tick_def split: bind_splits if_splits)
  have n: "pinv True cfg (p_cycle_count p + 1) q" "p_cycle_count p + 1 \<le> scast (cfg_max_cycles cfg)"
    using fine_SomeD [OF fine_cycle [OF inv tick.hyps(2)] q(1)] by simp_all
  have lt: "p_cycle_count p < scast (cfg_max_cycles cfg)"
    using tick.hyps(2) pinvD(1) [OF inv] by (simp add: isFinished_def max_cycle_count_def not_le split: if_splits)
  then have c: "unat (p_cycle_count p + 1) = unat (p_cycle_count p) + 1" by unat_arith
  have m: "max_cycle_count p0 = scast (cfg_max_cycles cfg)" using pinvD(1) [OF assms(2)] by (simp add: max_cycle_count_def)
  have "unat (p_cycle_count p + 1) \<le> unat (max_cycle_count p0)" using n(2) by (simp add: m word_le_nat_alt)
  then have "cfg_width cfg * unat (p_cycle_count p + 1) \<le> cfg_width cfg * unat (max_cycle_count p0)" by (rule mult_le_mono2)
  with b c have "cfg_width cfg * unat (p_cycle_count p) + cfg_width cfg < 2 ^ 32" by (simp add: distrib_left)
  from flow_cycle [OF inv tick.IH this q(1)]
  have "flow iw (cfg_width cfg * unat (p_cycle_count p) + cfg_width cfg) (p_cdb_wakeup_pending q) {} (front q) q" .
  moreover have "p_cycle_count q = p_cycle_count p + 1" by (rule pinvD(2) [OF n(1)])
  ultimately show ?case using c q(2) by (simp add: distrib_left add.commute)
qed

text \<open>What the invariant says of the registers.\<close>

lemma flow_registers:
  assumes fl: "flow iw n P G (front p) p"
  shows "\<exists>k pc. seq_steps iw k (replicate 32 0, 0) = Some (p_arf p, pc)"
    "isFinished p \<Longrightarrow> p_cycle_count p < max_cycle_count p \<Longrightarrow>
     \<exists>k. seq_steps iw k (replicate 32 0, 0) = Some (p_arf p, p_fetch_pc p) \<and> img iw (p_fetch_pc p) = None"
proof -
  note D = flowD [OF fl]
  obtain k pc where k: "seq_steps iw k (replicate 32 0, 0) = Some (p_arf p, pc)"
      "chain iw pc (map ilink (p_inst_table p) @ map flink (front p)) (p_fetch_pc p)"
    using D(11) unfolding program_order_def by blast
  then show "\<exists>k pc. seq_steps iw k (replicate 32 0, 0) = Some (p_arf p, pc)" by blast
  assume f: "isFinished p" "p_cycle_count p < max_cycle_count p"
  have "p_hex_mode p" using D(2) by (simp add: hex_env_def)
  with f have e: "p_fetch_halted p" "ifq_isEmpty (p_ifq p)" "dr_empty (p_dispatch_reg p)" "p_inst_table p = []"
    by (simp_all add: isFinished_def not_le [symmetric] split: if_splits)
  have "ifq_contents (p_ifq p) = []" using e(2) by (simp add: ifq_isEmpty_def flip: length_0_conv)
  moreover have "dr_contents (p_dispatch_reg p) = []" using e(3) by (simp add: dr_empty_def dr_contents_def)
  ultimately have "nops iw pc (p_fetch_pc p)" using k(2) e(4) by simp
  then obtain k' where "seq_steps iw k' (replicate 32 0, 0) = Some (p_arf p, p_fetch_pc p)"
    using seq_nops [OF _ D(1) k(1)] by blast
  moreover have "img iw (p_fetch_pc p) = None" using D(13) e(1) by (simp add: fetch_ok_def)
  ultimately show "\<exists>k. seq_steps iw k (replicate 32 0, 0) = Some (p_arf p, p_fetch_pc p) \<and> img iw (p_fetch_pc p) = None" by blast
qed

text \<open>The interpreter leaves the image in at most one way.\<close>

lemma seq_steps_None: "seq_steps iw j s = None \<Longrightarrow> j \<le> k \<Longrightarrow> seq_steps iw k s = None"
  by (induction k) (auto simp: le_Suc_eq)

lemma seq_end_unique:
  assumes "seq_steps iw j s = Some (rs, pc)" "img iw pc = None" "seq_steps iw k s = Some (rs', pc')" "img iw pc' = None"
  shows "rs = rs' \<and> pc = pc'"
proof -
  have "seq_steps iw (Suc j) s = None" "seq_steps iw (Suc k) s = None" using assms by (simp_all add: seq_step_def)
  then have "k \<le> j" "j \<le> k" using seq_steps_None [of iw _ s] assms(1,3) by (metis not_less_eq_eq option.distinct(1))+
  with assms show ?thesis by simp
qed

section \<open>The property\<close>

lemma loaded_registers:
  assumes "valid_config cfg" "cfg_mem_system cfg = Ideal" "proc_init cfg mem ba = Some q" "memory_free iw"
    and "p0 = (loadHexProgram iw dwords q)\<lparr>p_self_check := sc\<rparr>"
    and "cfg_width cfg * unat (max_cycle_count p0) < 2 ^ 32" "proc_reach p0 p"
  shows "(\<exists>k pc. seq_steps iw k (replicate 32 0, 0) = Some (p_arf p, pc))
    \<and> (isFinished p \<and> p_cycle_count p < max_cycle_count p \<longrightarrow>
        (\<exists>k pc. seq_steps iw k (replicate 32 0, 0) = Some (p_arf p, pc) \<and> img iw pc = None)
        \<and> (\<forall>k rs pc. seq_steps iw k (replicate 32 0, 0) = Some (rs, pc) \<and> img iw pc = None \<longrightarrow> rs = p_arf p))"
proof -
  have "loaded True cfg p0" unfolding assms(5) by (rule loaded.hex [OF assms(3)])
  then have inv: "pinv True (p_config p0) 0 p0" by (rule loaded_pinv [OF _ assms(1)]) (rule assms(2))
  have "p_config q = cfg" by (rule proc_init_parts(1) [OF assms(1,3)])
  then have "cfg_width (p_config p0) = cfg_width cfg" by (simp add: assms(5) loadHexProgram_def)
  then have b: "cfg_width (p_config p0) * unat (max_cycle_count p0) < 2 ^ 32" using assms(6) by simp
  note fl = reach_flow [OF assms(7) inv flow_loaded [OF assms(1-5)] b]
  note r = flow_registers [OF fl]
  show ?thesis
    using r(1) r(2) seq_end_unique [of iw _ "(replicate 32 0, 0)"] by blast
qed

text \<open>
  C1: the out-of-order core executes the program. Started with the ideal memory on a hex image
  without loads and stores, in a configuration that leaves the 32-bit instruction numbers room,
  the architectural registers are, at every cycle of every run, those of the in-order
  interpreter after some number of its steps: whatever was renamed, issued out of order,
  predicted, squashed and forwarded in between, instructions retire in program order, once,
  with the right values and along the right path. A run that ends before its cycle limit has
  executed the program to the point where it leaves the image, and its registers are the only
  ones the interpreter can end with.
\<close>

theorem core_executes_program:
  assumes "valid_config cfg" "cfg_mem_system cfg = Ideal" "proc_init cfg mem ba = Some q" "memory_free iw"
    and "p0 = (loadHexProgram iw dwords q)\<lparr>p_self_check := sc\<rparr>"
    and "cfg_width cfg * unat (max_cycle_count p0) < 2 ^ 32" "proc_reach p0 p"
  shows "(\<exists>k pc. seq_steps iw k (replicate 32 0, 0) = Some (p_arf p, pc))
    \<and> (isFinished p \<and> p_cycle_count p < max_cycle_count p \<longrightarrow>
        (\<exists>k pc. seq_steps iw k (replicate 32 0, 0) = Some (p_arf p, pc) \<and> img iw pc = None)
        \<and> (\<forall>k rs pc. seq_steps iw k (replicate 32 0, 0) = Some (rs, pc) \<and> img iw pc = None \<longrightarrow> rs = p_arf p))"
  by (rule loaded_registers [OF assms])

text \<open>
  A loop that runs twice, mispredicts its exit and squashes two instructions, on a two-wide
  machine: \<open>addi x1, x0, 2; addi x1, x1, -1; bne x1, x0, -4; addi x2, x0, 7; mul x3, x2, x2\<close>.
\<close>

definition loop_config :: ProcessorConfig where
  "loop_config = config0\<lparr>cfg_mem_system := Ideal, cfg_max_cycles := 50, cfg_width := 2, cfg_rob_size := 4, cfg_rs_size := 2,
     cfg_lsq_size := 1, cfg_ifq_size := 4, cfg_cdb_width := 1, cfg_ras_size := 1, cfg_pht_size := 2, cfg_btb_size := 2,
     cfg_num_alu := 1, cfg_num_lsq := 1, cfg_mul_latency := 1, cfg_div_latency := 1\<rparr>"

definition loop_program :: "u32 list" where
  "loop_program = [0x00200093, 0xFFF08093, 0xFE009EE3, 0x00700113, 0x022101B3]"

definition loop_machine :: "Processor option" where
  "loop_machine = map_option (loadHexProgram loop_program []) (proc_init loop_config [0] True)"

fun cycles :: "nat \<Rightarrow> Processor \<Rightarrow> Processor option" where
  "cycles 0 p = Some p"
| "cycles (Suc n) p = (if isFinished p then Some p else case proc_tick p of None \<Rightarrow> None | Some p' \<Rightarrow> cycles n p')"

lemma cycles_reach: "cycles n p = Some p' \<Longrightarrow> proc_reach p0 p \<Longrightarrow> proc_reach p0 p'"
  by (induction n arbitrary: p) (auto split: if_splits option.splits intro: proc_reach.tick)

lemma loop_run:
  "map_option (\<lambda>p. (isFinished p \<and> p_cycle_count p < max_cycle_count p, p_arf p, st_branch_mispredicts (p_stats p),
      st_squashed (p_stats p), st_committed (p_stats p))) (Option.bind loop_machine (cycles 40))
    = Some (True, [0, 0, 7, 49] @ replicate 28 0, 1, 2, 7)"
  by code_simp

lemma core_executes_program_witness:
  "\<exists>k pc. seq_steps loop_program k (replicate 32 0, 0) = Some ([0, 0, 7, 49] @ replicate 28 0, pc) \<and> img loop_program pc = None"
proof -
  obtain q where q: "proc_init loop_config [0] True = Some q"
    by (simp add: proc_init_def loop_config_def config0_def dr_init_def arb_init_def)
  let ?p0 = "(loadHexProgram loop_program [] q)\<lparr>p_self_check := False\<rparr>"
  have v: "valid_config loop_config" "cfg_mem_system loop_config = Ideal"
    by (simp_all add: loop_config_def config0_def valid_config_def)
  have "\<not> p_self_check q" using q by (auto simp: proc_init_def split: bind_splits)
  then have p0: "?p0 = loadHexProgram loop_program [] q" by (simp add: loadHexProgram_def)
  have mf: "memory_free loop_program" by code_simp
  have "p_config q = loop_config" by (rule proc_init_parts(1) [OF v(1) q])
  then have w: "cfg_width loop_config * unat (max_cycle_count ?p0) < 2 ^ 32"
    by (simp add: max_cycle_count_def loadHexProgram_def loop_config_def)
  obtain p where p: "cycles 40 ?p0 = Some p" "isFinished p \<and> p_cycle_count p < max_cycle_count p"
      "p_arf p = [0, 0, 7, 49] @ replicate 28 0"
    using loop_run q unfolding p0 by (auto simp: loop_machine_def)
  have "proc_reach ?p0 p" by (rule cycles_reach [OF p(1) proc_reach.start])
  from core_executes_program [OF v q mf refl w this] p(2,3) show ?thesis by metis
qed

end
