(* ===== verification/CxxText.thy ===== *)
theory CxxText
  imports Prelude
begin

text \<open>
  The part of the C++ standard library that the loaders, the drivers and the printing code use on
  text: characters in the default locale, \<open>std::getline\<close>, \<open>std::stoull\<close>, \<open>std::stoul\<close> and
  \<open>std::stoll\<close>, \<open>std::from_chars\<close>, \<open>operator>>\<close> on a string stream, and \<open>operator<<\<close> of integers.
  A string is a list of characters; an exception is \<open>Inl\<close> of a sum, a failed extraction \<open>None\<close>.
  Allocation is taken to succeed.
\<close>

datatype exn = Invalid_argument | Out_of_range | Runtime_error

named_theorems text_simps "characters and the scans of numbers"

section \<open>Characters and lines\<close>

abbreviation newline :: char where
  "newline \<equiv> CHR 0x0A"

definition is_space :: "char \<Rightarrow> bool" where
  "is_space c \<longleftrightarrow> (of_char c :: nat) \<in> {9, 10, 11, 12, 13, 32}"

definition digit_val :: "nat \<Rightarrow> char \<Rightarrow> nat option" where
  "digit_val b c =
    (let n = of_char c;
         d = (if 48 \<le> n \<and> n \<le> 57 then n - 48
              else if 97 \<le> n \<and> n \<le> 122 then n - 87
              else if 65 \<le> n \<and> n \<le> 90 then n - 55 else 36) in
     if d < b \<and> d < 36 then Some d else None)"

definition digit_char :: "nat \<Rightarrow> char" where
  "digit_char d = char_of (if d < 10 then 48 + d else 87 + d)"

text \<open>\<open>while (std::getline(in, line))\<close>: the lines of a file; a final newline opens no further line.\<close>

fun getlines :: "string \<Rightarrow> string list" where
  "getlines [] = []"
| "getlines (c # s) =
    (if c = newline then [] # getlines s
     else (case getlines s of [] \<Rightarrow> [[c]]
           | l # ls \<Rightarrow> (c # l) # ls))"

section \<open>Reading numbers\<close>

definition from_digits :: "nat \<Rightarrow> nat list \<Rightarrow> nat" where
  "from_digits b ds = foldl (\<lambda>n d. n * b + d) 0 ds"

fun scan_digits :: "nat \<Rightarrow> string \<Rightarrow> nat list \<times> string" where
  "scan_digits b [] = ([], [])"
| "scan_digits b (c # s) =
    (case digit_val b c of None \<Rightarrow> ([], c # s)
     | Some d \<Rightarrow> (let (ds, r) = scan_digits b s in (d # ds, r)))"

fun scan_sign :: "string \<Rightarrow> bool \<times> string" where
  "scan_sign [] = (False, [])"
| "scan_sign (c # s) =
    (if c = CHR ''-'' then (True, s) else if c = CHR ''+'' then (False, s) else (False, c # s))"

fun hex_prefix :: "string \<Rightarrow> bool" where
  "hex_prefix (z # x # c # s) \<longleftrightarrow>
     z = CHR ''0'' \<and> (x = CHR ''x'' \<or> x = CHR ''X'') \<and> digit_val 16 c \<noteq> None"
| "hex_prefix _ \<longleftrightarrow> False"

text \<open>The base in effect and the text without its prefix; base 0 asks for detection.\<close>

definition strto_base :: "nat \<Rightarrow> string \<Rightarrow> nat \<times> string" where
  "strto_base b s =
    (if (b = 16 \<or> b = 0) \<and> hex_prefix s then (16, drop 2 s)
     else if b = 0 then (if take 1 s = ''0'' then 8 else 10, s)
     else (b, s))"

text \<open>\<open>strtoull\<close> and \<open>strtoll\<close> before the range check: sign and magnitude, or no conversion.\<close>

definition strto_scan :: "nat \<Rightarrow> string \<Rightarrow> (bool \<times> nat) option" where
  "strto_scan b s =
    (let (neg, s1) = scan_sign (dropWhile is_space s);
         (b', s2) = strto_base b s1;
         ds = fst (scan_digits b' s2) in
     if ds = [] then None else Some (neg, from_digits b' ds))"

text \<open>\<open>unsigned long\<close> and \<open>unsigned long long\<close> have 64 bits; a minus sign negates modulo \<open>2 ^ 64\<close>.\<close>

definition stoull :: "nat \<Rightarrow> string \<Rightarrow> exn + u64" where
  "stoull b s = (case strto_scan b s of None \<Rightarrow> Inl Invalid_argument
     | Some (neg, n) \<Rightarrow> if 2 ^ 64 \<le> n then Inl Out_of_range
         else Inr (if neg then - of_nat n else of_nat n))"

definition stoll :: "nat \<Rightarrow> string \<Rightarrow> exn + int" where
  "stoll b s = (case strto_scan b s of None \<Rightarrow> Inl Invalid_argument
     | Some (neg, n) \<Rightarrow>
         (let v = (if neg then - int n else int n) in
          if v < - (2 ^ 63) \<or> 2 ^ 63 \<le> v then Inl Out_of_range else Inr v))"

text \<open>\<open>std::from_chars\<close> of an \<open>int\<close> that has to consume the whole string.\<close>

definition from_chars_int :: "string \<Rightarrow> int option" where
  "from_chars_int s =
    (let (neg, s1) = (if take 1 s = ''-'' then (True, drop 1 s) else (False, s));
         (ds, r) = scan_digits 10 s1;
         v = (if neg then - int (from_digits 10 ds) else int (from_digits 10 ds)) in
     if ds = [] \<or> r \<noteq> [] \<or> v < - (2 ^ 31) \<or> 2 ^ 31 \<le> v then None else Some v)"

section \<open>Extraction from a stream\<close>

definition read_word :: "string \<Rightarrow> (string \<times> string) option" where
  "read_word s = (let t = dropWhile is_space s in
     if t = [] then None
     else Some (takeWhile (\<lambda>c. \<not> is_space c) t, dropWhile (\<lambda>c. \<not> is_space c) t))"

definition read_int :: "string \<Rightarrow> (int \<times> string) option" where
  "read_int s =
    (let (neg, s1) = scan_sign (dropWhile is_space s);
         (ds, r) = scan_digits 10 s1;
         v = (if neg then - int (from_digits 10 ds) else int (from_digits 10 ds)) in
     if ds = [] \<or> v < - (2 ^ 31) \<or> 2 ^ 31 \<le> v then None else Some (v, r))"

section \<open>Printing numbers\<close>

function to_digits :: "nat \<Rightarrow> nat \<Rightarrow> nat list" where
  "to_digits b n = (if b < 2 \<or> n < b then [n] else to_digits b (n div b) @ [n mod b])"
  by pat_completeness auto
termination by (relation "measure snd") auto

declare to_digits.simps [simp del]

definition show_nat :: "nat \<Rightarrow> string" where
  "show_nat n = map digit_char (to_digits 10 n)"

definition show_int :: "int \<Rightarrow> string" where
  "show_int v = (if v < 0 then ''-'' @ show_nat (nat (- v)) else show_nat (nat v))"

definition show_hex :: "nat \<Rightarrow> string" where
  "show_hex n = map digit_char (to_digits 16 n)"

section \<open>Facts on characters\<close>

lemma digit_val_char [simp]: "d < b \<Longrightarrow> b \<le> 36 \<Longrightarrow> digit_val b (digit_char d) = Some d"
  by (simp add: digit_val_def digit_char_def Let_def of_char_of)

lemma digit_val_less: "digit_val b c = Some d \<Longrightarrow> d < b"
  by (simp add: digit_val_def Let_def split: if_splits)

lemma digit_val_mono: "digit_val b c = Some d \<Longrightarrow> b \<le> b' \<Longrightarrow> digit_val b' c = Some d"
  by (auto simp: digit_val_def Let_def split: if_splits)

lemma digit_not_space: "digit_val b c = Some d \<Longrightarrow> \<not> is_space c"
  by (auto simp: digit_val_def is_space_def Let_def split: if_splits)

lemma not_digit [text_simps]: "digit_val b (CHR ''-'') = None" "digit_val b (CHR ''+'') = None"
  "digit_val b newline = None" "digit_val 16 (CHR ''x'') = None" "digit_val 16 (CHR ''X'') = None"
  "digit_val b (CHR '' '') = None" "digit_val b (CHR ''#'') = None" "digit_val b (CHR ''/'') = None"
  "digit_val b (CHR ''@'') = None" "digit_val b CHR 0x09 = None" "digit_val b CHR 0x0D = None"
  "digit_val b (CHR ''='') = None"
  by (simp_all add: digit_val_def Let_def)

lemma space_chars [text_simps]: "is_space (CHR '' '')" "is_space CHR 0x09" "is_space CHR 0x0D" "is_space newline"
  "\<not> is_space (CHR ''-'')" "\<not> is_space (CHR ''+'')" "\<not> is_space (CHR ''0'')" "\<not> is_space (CHR ''.'')"
  "\<not> is_space (CHR ''@'')"
  by (simp_all add: is_space_def)

lemma not_space_digit: "is_space c \<Longrightarrow> digit_val b c = None"
  using digit_not_space by (cases "digit_val b c") blast+

section \<open>Facts on lines\<close>

lemma getlines_line: "newline \<notin> set l \<Longrightarrow> getlines (l @ newline # s) = l # getlines s"
  by (induction l) auto

lemma getlines_concat:
  "\<forall>l \<in> set ls. newline \<notin> set l \<Longrightarrow> getlines (concat (map (\<lambda>l. l @ [newline]) ls)) = ls"
  by (induction ls) (simp_all add: getlines_line)

lemma getlines_last: "newline \<notin> set l \<Longrightarrow> l \<noteq> [] \<Longrightarrow> getlines l = [l]"
proof (induction l)
  case (Cons c l)
  then show ?case by (cases "l = []") auto
qed simp

section \<open>Numerals\<close>

definition numeral_text :: "nat \<Rightarrow> string \<Rightarrow> bool" where
  "numeral_text b s \<longleftrightarrow> s \<noteq> [] \<and> (\<forall>c \<in> set s. digit_val b c \<noteq> None)"

definition numeral_value :: "nat \<Rightarrow> string \<Rightarrow> nat" where
  "numeral_value b s = from_digits b (map (the \<circ> digit_val b) s)"

definition stops :: "nat \<Rightarrow> string \<Rightarrow> bool" where
  "stops b r \<longleftrightarrow> (case r of [] \<Rightarrow> True | c # _ \<Rightarrow> digit_val b c = None)"

lemma stops_simps [simp]: "stops b []" "stops b (c # r) = (digit_val b c = None)"
  by (simp_all add: stops_def)

lemma scan_digits_numeral:
  "\<forall>c \<in> set s. digit_val b c \<noteq> None \<Longrightarrow> stops b r \<Longrightarrow>
   scan_digits b (s @ r) = (map (the \<circ> digit_val b) s, r)"
proof (induction s)
  case Nil
  then show ?case by (cases r) auto
qed (auto split: option.splits)

lemma scan_sign_digit: "digit_val b c \<noteq> None \<Longrightarrow> scan_sign (c # s) = (False, c # s)"
  by (auto simp: text_simps)

lemma skip_space_digit: "digit_val b c \<noteq> None \<Longrightarrow> dropWhile is_space (c # s) = c # s"
  using digit_not_space by auto

lemma not_hex_prefix: "\<forall>c \<in> set s. digit_val 16 c \<noteq> None \<Longrightarrow> \<not> hex_prefix s"
  by (cases s rule: hex_prefix.cases) (auto simp: text_simps)

lemma from_digits_snoc: "from_digits b (ds @ [d]) = from_digits b ds * b + d"
  by (simp add: from_digits_def)

lemma from_to_digits [simp]: "2 \<le> b \<Longrightarrow> from_digits b (to_digits b n) = n"
proof (induction n rule: less_induct)
  case (less n)
  then show ?case
    by (subst to_digits.simps) (auto simp: from_digits_snoc, simp add: from_digits_def)
qed

lemma to_digits_bound: "2 \<le> b \<Longrightarrow> d \<in> set (to_digits b n) \<Longrightarrow> d < b"
proof (induction n rule: less_induct)
  case (less n)
  have "d \<in> set (if n < b then [n] else to_digits b (n div b) @ [n mod b])"
    using less.prems by (subst (asm) to_digits.simps) auto
  then show ?case using less.IH [of "n div b"] less.prems(1) by (auto split: if_splits)
qed

lemma to_digits_nonempty [simp]: "to_digits b n \<noteq> []"
  by (subst to_digits.simps) simp

lemma digits_text:
  assumes "2 \<le> b" "b \<le> 36"
  shows "numeral_text b (map digit_char (to_digits b n))" "numeral_value b (map digit_char (to_digits b n)) = n"
proof -
  have d: "digit_val b (digit_char d) = Some d" if "d \<in> set (to_digits b n)" for d
    using to_digits_bound [OF assms(1) that] assms(2) by simp
  show "numeral_text b (map digit_char (to_digits b n))" using d by (auto simp: numeral_text_def)
  have "map (the \<circ> digit_val b \<circ> digit_char) (to_digits b n) = to_digits b n"
    by (rule map_idI) (simp add: d)
  then show "numeral_value b (map digit_char (to_digits b n)) = n"
    using assms(1) by (simp add: numeral_value_def)
qed

lemmas show_nat_text = digits_text [of 10, simplified, folded show_nat_def]
lemmas show_hex_text = digits_text [of 16, simplified, folded show_hex_def]

text \<open>Reading a numeral that makes up the whole text.\<close>

lemma strto_scan_numeral:
  assumes "numeral_text b s" "2 \<le> b"
  shows "strto_scan b s = Some (False, numeral_value b s)"
proof -
  obtain c t where s: "s = c # t" and c: "digit_val b c \<noteq> None" and t: "\<forall>c \<in> set s. digit_val b c \<noteq> None"
    using assms(1) by (cases s) (auto simp: numeral_text_def)
  have b: "strto_base b s = (b, s)"
    using assms(2) not_hex_prefix [of s] t by (auto simp: strto_base_def)
  have "scan_digits b s = (map (the \<circ> digit_val b) s, [])"
    using scan_digits_numeral [of s b "[]"] t by simp
  moreover have "dropWhile is_space s = s" "scan_sign s = (False, s)"
    unfolding s using skip_space_digit [OF c] scan_sign_digit [OF c] by simp_all
  ultimately show ?thesis
    using b s by (simp add: strto_scan_def numeral_value_def)
qed

lemma stoull_numeral:
  "numeral_text b s \<Longrightarrow> 2 \<le> b \<Longrightarrow> numeral_value b s < 2 ^ 64 \<Longrightarrow> stoull b s = Inr (of_nat (numeral_value b s))"
  by (simp add: stoull_def strto_scan_numeral)

lemma stoll_numeral:
  "numeral_text b s \<Longrightarrow> 2 \<le> b \<Longrightarrow> numeral_value b s < 2 ^ 63 \<Longrightarrow> stoll b s = Inr (int (numeral_value b s))"
  by (simp add: stoll_def strto_scan_numeral)

lemma strto_scan_prefixed:
  assumes "numeral_text 16 t" "x = CHR ''x'' \<or> x = CHR ''X''"
  shows "strto_scan 16 (CHR ''0'' # x # t) = Some (False, numeral_value 16 t)"
proof -
  have "hex_prefix (CHR ''0'' # x # t)" using assms by (cases t) (auto simp: numeral_text_def)
  then have "strto_base 16 (CHR ''0'' # x # t) = (16, t)" by (simp add: strto_base_def)
  moreover have "scan_digits 16 t = (map (the \<circ> digit_val 16) t, [])"
    using scan_digits_numeral [of t 16 "[]"] assms(1) by (simp add: numeral_text_def)
  ultimately show ?thesis
    using assms(1) by (simp add: strto_scan_def text_simps numeral_text_def numeral_value_def)
qed

lemma show_nat_inj: "show_nat m = show_nat n \<longleftrightarrow> m = n"
  using show_nat_text(2) by metis

end
