(* ===== verification/HexLoader.thy ===== *)
theory HexLoader
  imports CxxText
begin

text \<open>
  The loader of instruction and data images of \<open>src/hex_loader.cpp\<close>: one hexadecimal word per
  line, \<open>@\<close> lines that move the cursor to a byte address, blank lines and comments. The reference
  is a file of items (\<open>HexItem\<close>) and the memory that its writes leave.
\<close>

section \<open>The loader\<close>

definition is_blank :: "char \<Rightarrow> bool" where
  "is_blank c \<longleftrightarrow> c = CHR '' '' \<or> c = CHR 0x09 \<or> c = CHR 0x0D"

definition trim_blanks :: "string \<Rightarrow> string" where
  "trim_blanks s = rev (dropWhile is_blank (rev (dropWhile is_blank s)))"

definition grow :: "nat \<Rightarrow> u32 list \<Rightarrow> u32 list" where
  "grow n ws = (if length ws < n then ws @ replicate (n - length ws) 0 else ws)"

definition put_word :: "nat \<Rightarrow> u32 \<Rightarrow> u32 list \<Rightarrow> u32 list" where
  "put_word cursor w ws = (grow (cursor + 1) ws)[cursor := w]"

definition hex_line :: "string \<Rightarrow> u32 list \<times> nat \<Rightarrow> exn + u32 list \<times> nat" where
  "hex_line line = (\<lambda>(ws, cursor).
    (case trim_blanks line of [] \<Rightarrow> Inr (ws, cursor)
     | c # r \<Rightarrow>
         if c = CHR ''/'' \<or> c = CHR ''#'' then Inr (ws, cursor)
         else if c = CHR ''@'' then
           (case stoull 16 r of Inl e \<Rightarrow> Inl e
            | Inr a \<Rightarrow> Inr (grow (unat a div 4) ws, unat a div 4))
         else
           (case stoull 16 (c # r) of Inl e \<Rightarrow> Inl e
            | Inr v \<Rightarrow> Inr (put_word cursor (ucast (v AND 0xFFFFFFFF)) ws, cursor + 1))))"

fun hex_lines :: "string list \<Rightarrow> u32 list \<times> nat \<Rightarrow> exn + u32 list \<times> nat" where
  "hex_lines [] s = Inr s"
| "hex_lines (l # ls) s = (case hex_line l s of Inl e \<Rightarrow> Inl e | Inr s' \<Rightarrow> hex_lines ls s')"

text \<open>The argument is the content of the file, \<open>None\<close> when it cannot be opened.\<close>

definition loadHexWords :: "string option \<Rightarrow> exn + u32 list" where
  "loadHexWords file = (case file of None \<Rightarrow> Inl Runtime_error
     | Some text \<Rightarrow> map_sum id fst (hex_lines (getlines text) ([], 0)))"

section \<open>Files of items\<close>

datatype HexItem = Skip | At nat | Data nat

abbreviation blanks :: "string \<Rightarrow> bool" where
  "blanks m \<equiv> \<forall>c \<in> set m. is_blank c"

inductive hex_text :: "string \<Rightarrow> HexItem \<Rightarrow> bool" where
  blank: "blanks m \<Longrightarrow> hex_text m Skip"
| comment: "blanks m \<Longrightarrow> c = CHR ''/'' \<or> c = CHR ''#'' \<Longrightarrow> hex_text (m @ c # s) Skip"
| at: "blanks m \<Longrightarrow> blanks m' \<Longrightarrow> numeral_text 16 t \<Longrightarrow> numeral_value 16 t < 2 ^ 64 \<Longrightarrow>
     hex_text (m @ CHR ''@'' # t @ m') (At (numeral_value 16 t))"
| data: "blanks m \<Longrightarrow> blanks m' \<Longrightarrow> numeral_text 16 t \<Longrightarrow> numeral_value 16 t < 2 ^ 64 \<Longrightarrow>
     hex_text (m @ t @ m') (Data (numeral_value 16 t))"

text \<open>The writes of a file, word by word, and the size of the image it describes.\<close>

fun hex_writes :: "nat \<Rightarrow> HexItem list \<Rightarrow> (nat \<times> u32) list" where
  "hex_writes cur [] = []"
| "hex_writes cur (Skip # is) = hex_writes cur is"
| "hex_writes cur (At a # is) = hex_writes (a div 4) is"
| "hex_writes cur (Data v # is) = (cur, of_nat v) # hex_writes (cur + 1) is"

fun hex_extent :: "nat \<Rightarrow> nat \<Rightarrow> HexItem list \<Rightarrow> nat" where
  "hex_extent n cur [] = n"
| "hex_extent n cur (Skip # is) = hex_extent n cur is"
| "hex_extent n cur (At a # is) = hex_extent (max n (a div 4)) (a div 4) is"
| "hex_extent n cur (Data v # is) = hex_extent (max n (cur + 1)) (cur + 1) is"

section \<open>Lines\<close>

lemma dropWhile_blanks: "blanks m \<Longrightarrow> dropWhile is_blank (m @ s) = dropWhile is_blank s"
  by (induction m) auto

lemma trim_empty: "blanks m \<Longrightarrow> trim_blanks m = []"
  by (auto simp: trim_blanks_def dest: set_dropWhileD)

lemma trim_token:
  assumes "blanks m" "blanks m'" "t \<noteq> []" "\<not> is_blank (hd t)" "\<not> is_blank (last t)"
  shows "trim_blanks (m @ t @ m') = t"
proof -
  have "dropWhile is_blank (m @ t @ m') = t @ m'"
    using assms by (cases t) (simp_all add: dropWhile_blanks)
  moreover have "dropWhile is_blank (rev m' @ rev t) = rev t"
    using assms by (cases t rule: rev_cases) (simp_all add: dropWhile_blanks)
  ultimately show ?thesis by (simp add: trim_blanks_def)
qed

lemma trim_comment:
  assumes "blanks m" "\<not> is_blank c"
  shows "\<exists>r. trim_blanks (m @ c # s) = c # r"
proof -
  have "dropWhile is_blank (m @ c # s) = c # s"
    using assms by (simp add: dropWhile_blanks)
  moreover have "\<exists>r. rev (dropWhile is_blank (rev s @ [c])) = c # r"
  proof (cases "\<forall>x \<in> set s. is_blank x")
    case True
    then show ?thesis using assms(2) dropWhile_blanks [of "rev s" "[c]"] by simp
  next
    case False
    then obtain x where "x \<in> set (rev s)" "\<not> is_blank x" by auto
    then have "dropWhile is_blank (rev s @ [c]) = dropWhile is_blank (rev s) @ [c]"
      by (rule dropWhile_append1)
    then show ?thesis by simp
  qed
  ultimately show ?thesis by (simp add: trim_blanks_def)
qed

lemma blank_not_digit: "is_blank c \<Longrightarrow> digit_val b c = None"
  by (auto simp: is_blank_def text_simps)

lemma trim_numeral:
  assumes "blanks m" "blanks m'" "numeral_text 16 t"
  shows "trim_blanks (m @ t @ m') = t" "trim_blanks (m @ CHR ''@'' # t @ m') = CHR ''@'' # t"
proof -
  have t: "t \<noteq> []" "\<And>c. c \<in> set t \<Longrightarrow> \<not> is_blank c"
    using assms(3) blank_not_digit by (auto simp: numeral_text_def)
  show "trim_blanks (m @ t @ m') = t" using assms(1,2) t by (intro trim_token) simp_all
  show "trim_blanks (m @ CHR ''@'' # t @ m') = CHR ''@'' # t"
    using trim_token [of m m' "CHR ''@'' # t"] assms(1,2) t by (simp add: is_blank_def)
qed

lemma low_word: "(ucast (v AND 0xFFFFFFFF) :: u32) = ucast (v :: u64)"
proof -
  have m: "(0xFFFFFFFF :: u64) = mask 32" by (simp add: mask_eq_decr_exp)
  show ?thesis unfolding m by (rule bit_word_eqI) (simp add: bit_simps)
qed

text \<open>What a line does, item by item.\<close>

fun hex_item :: "HexItem \<Rightarrow> u32 list \<times> nat \<Rightarrow> u32 list \<times> nat" where
  "hex_item Skip s = s"
| "hex_item (At a) (ws, cur) = (grow (a div 4) ws, a div 4)"
| "hex_item (Data v) (ws, cur) = (put_word cur (of_nat v) ws, cur + 1)"

lemma hex_line_item: "hex_text l i \<Longrightarrow> hex_line l s = Inr (hex_item i s)"
proof (induction rule: hex_text.induct)
  case (blank m)
  then show ?case by (simp add: hex_line_def trim_empty split: prod.split)
next
  case (comment m c s')
  then obtain r where "trim_blanks (m @ c # s') = c # r"
    using trim_comment [of m c s'] by (auto simp: is_blank_def)
  then show ?case using comment(2) by (simp add: hex_line_def split: prod.split)
next
  case (at m m' t)
  note stoull_numeral [OF at(3) _ at(4)]
  moreover have "unat (of_nat (numeral_value 16 t) :: u64) = numeral_value 16 t"
    using at(4) by (simp add: unat_of_nat)
  ultimately show ?case
    using trim_numeral(2) [OF at(1,2,3)] by (cases s) (simp add: hex_line_def)
next
  case (data m m' t)
  obtain c r where t: "t = c # r" using data(3) by (cases t) (simp_all add: numeral_text_def)
  then have "digit_val 16 c \<noteq> None" using data(3) by (simp add: numeral_text_def)
  then have c: "c \<noteq> CHR ''/''" "c \<noteq> CHR ''#''" "c \<noteq> CHR ''@''"
    by (auto simp: text_simps)
  have "stoull 16 t = Inr (of_nat (numeral_value 16 t))"
    using stoull_numeral [OF data(3) _ data(4)] by simp
  moreover have "(ucast (of_nat (numeral_value 16 t) :: u64) :: u32) = of_nat (numeral_value 16 t)"
    using data(4) by (simp add: unsigned_of_nat take_bit_nat_eq_self)
  ultimately show ?case
    using trim_numeral(1) [OF data(1,2,3)] c t by (cases s) (simp add: hex_line_def low_word)
qed

lemma hex_lines_items:
  "list_all2 hex_text ls is \<Longrightarrow> hex_lines ls s = Inr (fold hex_item is s)"
  by (induction ls "is" arbitrary: s rule: list_all2_induct) (simp_all add: hex_line_item)

section \<open>The image\<close>

definition word_at :: "u32 list \<Rightarrow> nat \<Rightarrow> u32" where
  "word_at ws k = (if k < length ws then ws ! k else 0)"

lemma length_grow [simp]: "length (grow n ws) = max (length ws) n"
  by (simp add: grow_def max_def)

lemma word_at_grow [simp]: "word_at (grow n ws) k = word_at ws k"
  by (auto simp: word_at_def grow_def nth_append)

lemma length_put_word [simp]: "length (put_word c w ws) = max (length ws) (c + 1)"
  by (simp add: put_word_def)

lemma word_at_put_word [simp]: "word_at (put_word c w ws) k = (if k = c then w else word_at ws k)"
proof -
  have "word_at (put_word c w ws) k = (if k = c then w else word_at (grow (c + 1) ws) k)"
    by (auto simp: put_word_def word_at_def nth_list_update)
  then show ?thesis by simp
qed

lemma length_items: "length (fst (fold hex_item is (ws, cur))) = hex_extent (length ws) cur is"
  by (induction "length ws" cur "is" arbitrary: ws rule: hex_extent.induct) simp_all

lemma items_image:
  "word_at (fst (fold hex_item is (ws, cur))) k =
     (case map_of (rev (hex_writes cur is)) k of None \<Rightarrow> word_at ws k | Some w \<Rightarrow> w)"
  by (induction cur "is" arbitrary: ws rule: hex_writes.induct)
    (simp_all add: map_add_def split: option.split)

text \<open>
  C12: a hex file loads to the image that it describes. Whatever blanks surround its lines,
  whatever comments and empty lines it has and in whatever order its sections come, loading
  succeeds; the image reaches to the last word written or addressed, and each word of it is the
  last one written there, or zero.
\<close>

theorem hex_load_image:
  assumes "list_all2 hex_text (getlines text) is"
  shows "\<exists>ws. loadHexWords (Some text) = Inr ws \<and> length ws = hex_extent 0 0 is
    \<and> (\<forall>k < length ws. ws ! k = (case map_of (rev (hex_writes 0 is)) k of None \<Rightarrow> 0 | Some w \<Rightarrow> w))"
proof -
  let ?ws = "fst (fold hex_item is ([], 0))"
  have "loadHexWords (Some text) = Inr ?ws"
    by (simp add: loadHexWords_def hex_lines_items [OF assms])
  moreover have "length ?ws = hex_extent 0 0 is" by (simp add: length_items)
  moreover have "?ws ! k = (case map_of (rev (hex_writes 0 is)) k of None \<Rightarrow> 0 | Some w \<Rightarrow> w)"
    if "k < length ?ws" for k
    using items_image [of "is" "[]" 0 k] that by (simp add: word_at_def split: option.splits)
  ultimately show ?thesis by blast
qed

text \<open>Two words, a jump to byte address 16 and an overwritten first word.\<close>

definition sample_hex :: string where
  "sample_hex = ''// boot'' @ [newline] @ ''  00500093'' @ [CHR 0x0D, newline] @ ''deadBEEF'' @ [newline, newline]
     @ ''@10'' @ [newline] @ ''7'' @ [newline] @ ''@0'' @ [newline] @ ''13''"

lemma hex_load_image_witness:
  "loadHexWords (Some sample_hex) = Inr [0x13, 0xDEADBEEF, 0, 0, 7]"
proof -
  let ?is = "[Skip, Data 0x500093, Data 0xDEADBEEF, Skip, At 16, Data 7, At 0, Data 0x13]"
  have v: "numeral_text 16 ''00500093''" "numeral_text 16 ''deadBEEF''" "numeral_text 16 ''10''"
      "numeral_text 16 ''7''" "numeral_text 16 ''0''" "numeral_text 16 ''13''"
      "numeral_value 16 ''00500093'' = 0x500093" "numeral_value 16 ''deadBEEF'' = 0xDEADBEEF"
      "numeral_value 16 ''10'' = 16" "numeral_value 16 ''7'' = 7" "numeral_value 16 ''0'' = 0"
      "numeral_value 16 ''13'' = 0x13"
    by (simp_all add: numeral_text_def numeral_value_def from_digits_def digit_val_def)
  have "getlines sample_hex = [''// boot'', ''  00500093'' @ [CHR 0x0D], ''deadBEEF'', [], ''@10'', ''7'', ''@0'', ''13'']"
    by code_simp
  moreover have "hex_text ''// boot'' Skip" using hex_text.comment [of "[]" "CHR ''/''" "''/ boot''"] by simp
  moreover have "hex_text (''  00500093'' @ [CHR 0x0D]) (Data 0x500093)"
    using hex_text.data [of "''  ''" "[CHR 0x0D]" "''00500093''"] v by (simp add: is_blank_def)
  moreover have "hex_text ''deadBEEF'' (Data 0xDEADBEEF)" using hex_text.data [of "[]" "[]" "''deadBEEF''"] v by simp
  moreover have "hex_text [] Skip" by (simp add: hex_text.blank)
  moreover have "hex_text ''@10'' (At 16)" using hex_text.at [of "[]" "[]" "''10''"] v by simp
  moreover have "hex_text ''7'' (Data 7)" using hex_text.data [of "[]" "[]" "''7''"] v by simp
  moreover have "hex_text ''@0'' (At 0)" using hex_text.at [of "[]" "[]" "''0''"] v by simp
  moreover have "hex_text ''13'' (Data 0x13)" using hex_text.data [of "[]" "[]" "''13''"] v by simp
  ultimately have "list_all2 hex_text (getlines sample_hex) ?is" by simp
  from hex_load_image [OF this]
  obtain ws where ws: "loadHexWords (Some sample_hex) = Inr ws" "length ws = 5"
      "\<forall>k < 5. ws ! k = (case map_of (rev (hex_writes 0 ?is)) k of None \<Rightarrow> 0 | Some w \<Rightarrow> w)"
    by auto
  have "ws = [0x13, 0xDEADBEEF, 0, 0, 7]"
  proof (rule nth_equalityI)
    fix k assume "k < length ws"
    then have "k \<in> {0, 1, 2, 3, 4}" using ws(2) by auto
    then show "ws ! k = [0x13, 0xDEADBEEF, 0, 0, 7] ! k" using ws(3) by auto
  qed (simp add: ws(2))
  then show ?thesis using ws(1) by simp
qed

end
