(* ===== verification/TraceLoader.thy ===== *)
theory TraceLoader
  imports CxxText Golden
begin

text \<open>
  The loader of toy traces of \<open>src/trace_loader.cpp\<close>, which the processor and the golden model
  share: one instruction per line, \<open>.mem\<close> directives and comments. Its reference reads a line as
  the list of its words (\<open>line_words\<close>).
\<close>

section \<open>The loader\<close>

definition parseUint64 :: "string \<Rightarrow> exn + u64" where
  "parseUint64 t = (if take 2 t = ''0x'' \<or> take 2 t = ''0X'' then stoull 16 t else stoull 10 t)"

definition parseInt :: "string \<Rightarrow> exn + i32" where
  "parseInt token =
    (if token = [] then Inr 0
     else
       let (neg, t) = (if hd token = CHR ''-'' then (True, tl token)
                       else if hd token = CHR ''+'' then (False, tl token) else (False, token)) in
       (case (if take 2 t = ''0x'' \<or> take 2 t = ''0X'' then stoll 16 t else stoll 10 t) of
          Inl e \<Rightarrow> Inl e
        | Inr v \<Rightarrow> Inr (word_of_int (if neg then - v else v))))"

text \<open>The four extractions \<open>iss >> opcode >> dest >> src1 >> src2\<close>.\<close>

definition read_fields :: "string \<Rightarrow> (string \<times> int \<times> int \<times> int \<times> string) option" where
  "read_fields s = do {
     (opcode, s1) \<leftarrow> read_word s;
     (dest, s2) \<leftarrow> read_int s1;
     (src1, s3) \<leftarrow> read_int s2;
     (src2, s4) \<leftarrow> read_int s3;
     Some (opcode, dest, src1, src2, s4) }"

definition trace_inst :: "string \<Rightarrow> string \<Rightarrow> ParsedProgram \<Rightarrow> exn + ParsedProgram" where
  "trace_inst first rest prog =
    (case read_fields rest of None \<Rightarrow> Inr prog
     | Some (opcode, dest, src1, src2, s) \<Rightarrow>
         (case parseUint64 first of Inl e \<Rightarrow> Inl e
          | Inr pc \<Rightarrow>
              (case (case read_word s of None \<Rightarrow> Inr 0 | Some (t, _) \<Rightarrow> parseInt t) of Inl e \<Rightarrow> Inl e
               | Inr imm \<Rightarrow>
                   Inr (prog\<lparr>pp_icache := (pp_icache prog)(pc \<mapsto>
                     fetched0\<lparr>f_pc := pc, f_opcode := opcode, f_dest_reg := dest, f_src1_reg := src1,
                       f_src2_reg := src2, f_imm := imm\<rparr>)\<rparr>))))"

definition trace_mem :: "string \<Rightarrow> ParsedProgram \<Rightarrow> exn + ParsedProgram" where
  "trace_mem rest prog =
    (case (do { (a, s) \<leftarrow> read_word rest; (v, s') \<leftarrow> read_word s; Some (a, v) }) of None \<Rightarrow> Inr prog
     | Some (a, v) \<Rightarrow>
         (case parseInt a of Inl e \<Rightarrow> Inl e
          | Inr addr \<Rightarrow>
              (case parseInt v of Inl e \<Rightarrow> Inl e
               | Inr val \<Rightarrow> Inr (prog\<lparr>pp_mem_init := pp_mem_init prog @ [(addr, val)]\<rparr>))))"

definition trace_line :: "string \<Rightarrow> ParsedProgram \<Rightarrow> exn + ParsedProgram" where
  "trace_line line prog =
    (if line = [] \<or> hd line = CHR ''#'' then Inr prog
     else
       (case read_word line of None \<Rightarrow> Inr prog
        | Some (first, rest) \<Rightarrow>
            if first = ''.mem'' then trace_mem rest prog else trace_inst first rest prog))"

fun trace_lines :: "string list \<Rightarrow> ParsedProgram \<Rightarrow> exn + ParsedProgram" where
  "trace_lines [] prog = Inr prog"
| "trace_lines (l # ls) prog = (case trace_line l prog of Inl e \<Rightarrow> Inl e | Inr prog' \<Rightarrow> trace_lines ls prog')"

definition loadTraceFile :: "string option \<Rightarrow> exn + ParsedProgram" where
  "loadTraceFile file = (case file of None \<Rightarrow> Inl Runtime_error
     | Some text \<Rightarrow> trace_lines (getlines text) \<lparr>pp_icache = Map.empty, pp_mem_init = []\<rparr>)"

section \<open>The words of a line\<close>

function line_words :: "string \<Rightarrow> string list" where
  "line_words s = (case read_word s of None \<Rightarrow> [] | Some (t, r) \<Rightarrow> t # line_words r)"
  by pat_completeness auto

lemma read_word_length: "read_word s = Some (t, r) \<Longrightarrow> length r < length s"
proof -
  assume a: "read_word s = Some (t, r)"
  let ?u = "dropWhile is_space s"
  have u: "?u \<noteq> []" "r = dropWhile (\<lambda>c. \<not> is_space c) ?u"
    using a by (auto simp: read_word_def Let_def split: if_splits)
  have "\<not> is_space (hd ?u)" by (rule hd_dropWhile) (use u(1) in \<open>simp add: dropWhile_eq_Nil_conv\<close>)
  then have "r = dropWhile (\<lambda>c. \<not> is_space c) (tl ?u)" using u by (cases ?u) auto
  then have "length r \<le> length (tl ?u)" using length_dropWhile_le by metis
  also have "\<dots> < length ?u" using u(1) by simp
  also have "\<dots> \<le> length s" by (simp add: length_dropWhile_le)
  finally show ?thesis .
qed

termination line_words
  by (relation "measure length") (auto simp: read_word_length)

declare line_words.simps [simp del]

lemma line_words_Nil: "line_words s = [] \<longleftrightarrow> read_word s = None"
  by (subst line_words.simps) (auto split: option.splits)

lemma line_words_ConsD: "line_words s = t # ts \<Longrightarrow> \<exists>r. read_word s = Some (t, r) \<and> line_words r = ts"
  by (subst (asm) line_words.simps) (auto split: option.splits)

text \<open>The forms of the numbers.\<close>

inductive magnitude_text :: "string \<Rightarrow> nat \<Rightarrow> bool" where
  dec: "numeral_text 10 t \<Longrightarrow> magnitude_text t (numeral_value 10 t)"
| hex: "numeral_text 16 t \<Longrightarrow> x = CHR ''x'' \<or> x = CHR ''X'' \<Longrightarrow> magnitude_text (CHR ''0'' # x # t) (numeral_value 16 t)"

inductive signed_text :: "(string \<Rightarrow> nat \<Rightarrow> bool) \<Rightarrow> string \<Rightarrow> int \<Rightarrow> bool" for M where
  plain: "M t n \<Longrightarrow> signed_text M t (int n)"
| plus: "M t n \<Longrightarrow> signed_text M (CHR ''+'' # t) (int n)"
| minus: "M t n \<Longrightarrow> signed_text M (CHR ''-'' # t) (- int n)"

text \<open>An integer field is decimal, an immediate may be hexadecimal.\<close>

definition int_text :: "string \<Rightarrow> int \<Rightarrow> bool" where
  "int_text t v \<longleftrightarrow> signed_text (\<lambda>t n. numeral_text 10 t \<and> n = numeral_value 10 t) t v \<and> - (2 ^ 31) \<le> v \<and> v < 2 ^ 31"

definition imm_text :: "string \<Rightarrow> int \<Rightarrow> bool" where
  "imm_text t v \<longleftrightarrow> signed_text magnitude_text t v \<and> \<bar>v\<bar> < 2 ^ 63"

section \<open>Items of a trace\<close>

datatype TraceItem = Nothing | Mem_init i32 i32 | Inst FetchedInstruction

definition inst_item :: "nat \<Rightarrow> string \<Rightarrow> int \<Rightarrow> int \<Rightarrow> int \<Rightarrow> int \<Rightarrow> TraceItem" where
  "inst_item pc opcode d s1 s2 imm = Inst (fetched0\<lparr>f_pc := of_nat pc, f_opcode := opcode, f_dest_reg := d,
     f_src1_reg := s1, f_src2_reg := s2, f_imm := word_of_int imm\<rparr>)"

inductive trace_text :: "string \<Rightarrow> TraceItem \<Rightarrow> bool" where
  comment: "l = [] \<or> hd l = CHR ''#'' \<or> line_words l = [] \<Longrightarrow> trace_text l Nothing"
| mem: "l \<noteq> [] \<Longrightarrow> hd l \<noteq> CHR ''#'' \<Longrightarrow> line_words l = ''.mem'' # a # v # ts \<Longrightarrow> imm_text a x \<Longrightarrow> imm_text v y \<Longrightarrow>
     trace_text l (Mem_init (word_of_int x) (word_of_int y))"
| inst: "l \<noteq> [] \<Longrightarrow> hd l \<noteq> CHR ''#'' \<Longrightarrow> line_words l = p # opcode # td # t1 # t2 # ts \<Longrightarrow> magnitude_text p pc \<Longrightarrow>
     pc < 2 ^ 64 \<Longrightarrow> int_text td d \<Longrightarrow> int_text t1 s1 \<Longrightarrow> int_text t2 s2 \<Longrightarrow>
     (case ts of [] \<Rightarrow> imm = 0 | t # _ \<Rightarrow> imm_text t imm) \<Longrightarrow>
     trace_text l (inst_item pc opcode d s1 s2 imm)"

fun item_insts :: "TraceItem list \<Rightarrow> FetchedInstruction list" where
  "item_insts [] = []"
| "item_insts (Inst i # is) = i # item_insts is"
| "item_insts (_ # is) = item_insts is"

fun item_mems :: "TraceItem list \<Rightarrow> (i32 \<times> i32) list" where
  "item_mems [] = []"
| "item_mems (Mem_init a v # is) = (a, v) # item_mems is"
| "item_mems (_ # is) = item_mems is"

section \<open>Reading words and numbers\<close>

lemma read_word_split:
  assumes "read_word s = Some (t, r)"
  shows "dropWhile is_space s = t @ r" "t \<noteq> []" "\<not> is_space (hd t)" "stops b r"
proof -
  let ?u = "dropWhile is_space s" and ?P = "\<lambda>c. \<not> is_space c"
  have u: "?u \<noteq> []" "t = takeWhile ?P ?u" "r = dropWhile ?P ?u"
    using assms by (auto simp: read_word_def Let_def split: if_splits)
  show "?u = t @ r" by (simp only: u takeWhile_dropWhile_id)
  have h: "\<not> is_space (hd ?u)" by (rule hd_dropWhile) (use u(1) in \<open>simp add: dropWhile_eq_Nil_conv\<close>)
  show "t \<noteq> []" "\<not> is_space (hd t)" using u h by (cases ?u; simp)+
  show "stops b r"
  proof (cases r)
    case (Cons c r')
    then have "dropWhile ?P ?u \<noteq> []" "c = hd (dropWhile ?P ?u)" using u(3) by (auto simp del: dropWhile_eq_Nil_conv)
    then have "is_space c" using hd_dropWhile [of ?P ?u] by simp
    then show ?thesis using Cons by (simp add: not_space_digit)
  qed simp
qed

text \<open>The sign of a number.\<close>

definition signed_value :: "bool \<Rightarrow> nat \<Rightarrow> int" where
  "signed_value neg n = (if neg then - int n else int n)"

lemma signed_text_scan:
  assumes "signed_text M t v" "\<And>u n. M u n \<Longrightarrow> u \<noteq> [] \<and> hd u \<noteq> CHR ''-'' \<and> hd u \<noteq> CHR ''+''"
  obtains neg u n where "scan_sign t = (neg, u)" "M u n" "v = signed_value neg n" "scan_sign (t @ r) = (neg, u @ r)"
    "(if hd t = CHR ''-'' then (True, tl t) else if hd t = CHR ''+'' then (False, tl t) else (False, t)) = (neg, u)"
    "t \<noteq> []"
  using assms(1)
proof cases
  case (plain n)
  then show ?thesis using that [of False t n] assms(2) [of t n] by (cases t) (auto simp: signed_value_def)
next
  case (plus u n)
  then show ?thesis using that [of False u n] by (auto simp: signed_value_def)
next
  case (minus u n)
  then show ?thesis using that [of True u n] by (auto simp: signed_value_def)
qed

lemma digit_head:
  "numeral_text b u \<Longrightarrow> u \<noteq> [] \<and> hd u \<noteq> CHR ''-'' \<and> hd u \<noteq> CHR ''+''"
  by (cases u) (auto simp: numeral_text_def text_simps)

lemma magnitude_head: "magnitude_text u n \<Longrightarrow> u \<noteq> [] \<and> hd u \<noteq> CHR ''-'' \<and> hd u \<noteq> CHR ''+''"
  using digit_head by (auto elim!: magnitude_text.cases)

lemma read_int_text:
  assumes "read_word s = Some (t, r)" "int_text t v"
  shows "read_int s = Some (v, r)"
proof -
  have s: "signed_text (\<lambda>t n. numeral_text 10 t \<and> n = numeral_value 10 t) t v" "- (2 ^ 31) \<le> v" "v < 2 ^ 31"
    using assms(2) by (simp_all add: int_text_def)
  obtain neg u n where u: "scan_sign (t @ r) = (neg, u @ r)" "numeral_text 10 u" "n = numeral_value 10 u" "v = signed_value neg n"
    by (rule signed_text_scan [OF s(1), of r]) (use digit_head in blast)+
  have "scan_digits 10 (u @ r) = (map (the \<circ> digit_val 10) u, r)" "u \<noteq> []"
    using u(2) read_word_split(4) [OF assms(1), of 10] by (simp_all add: scan_digits_numeral numeral_text_def)
  then show ?thesis
    using u s(2,3) read_word_split(1) [OF assms(1)]
    by (simp add: read_int_def numeral_value_def signed_value_def Let_def)
qed

lemma not_prefixed: "numeral_text 10 t \<Longrightarrow> take 2 t \<noteq> ''0x'' \<and> take 2 t \<noteq> ''0X''"
proof -
  assume n: "numeral_text 10 t"
  have "c \<notin> set t" if "c = CHR ''x'' \<or> c = CHR ''X''" for c
    using n that by (auto simp: numeral_text_def digit_val_def)
  then show ?thesis using in_set_takeD [of _ 2 t] by fastforce
qed

lemma parseUint64_text: "magnitude_text t n \<Longrightarrow> n < 2 ^ 64 \<Longrightarrow> parseUint64 t = Inr (of_nat n)"
  by (erule magnitude_text.cases)
    (auto simp: parseUint64_def not_prefixed stoull_def strto_scan_numeral strto_scan_prefixed)

lemma parseInt_text:
  assumes "imm_text t v"
  shows "parseInt t = Inr (word_of_int v)"
proof -
  have s: "signed_text magnitude_text t v" "\<bar>v\<bar> < 2 ^ 63" using assms by (simp_all add: imm_text_def)
  obtain neg u n where u: "(if hd t = CHR ''-'' then (True, tl t) else if hd t = CHR ''+'' then (False, tl t) else (False, t)) = (neg, u)"
      "magnitude_text u n" "v = signed_value neg n" "t \<noteq> []"
    by (rule signed_text_scan [OF s(1), of "[]"]) (use magnitude_head in blast)+
  have n: "n < 2 ^ 63" using s(2) u(3) by (auto simp: signed_value_def split: if_splits)
  have "(if take 2 u = ''0x'' \<or> take 2 u = ''0X'' then stoll 16 u else stoll 10 u) = Inr (int n)"
    using u(2)
  proof cases
    case (hex t' x)
    then show ?thesis using n by (auto simp: stoll_def strto_scan_prefixed)
  next
    case dec
    then show ?thesis using n not_prefixed stoll_numeral [of 10 u] by auto
  qed
  then show ?thesis using u(1,3,4) by (simp add: parseInt_def signed_value_def)
qed

section \<open>Loading\<close>

fun trace_item :: "TraceItem \<Rightarrow> ParsedProgram \<Rightarrow> ParsedProgram" where
  "trace_item Nothing prog = prog"
| "trace_item (Mem_init a v) prog = prog\<lparr>pp_mem_init := pp_mem_init prog @ [(a, v)]\<rparr>"
| "trace_item (Inst i) prog = prog\<lparr>pp_icache := (pp_icache prog)(f_pc i \<mapsto> i)\<rparr>"

lemma not_mem: "magnitude_text p n \<Longrightarrow> p \<noteq> ''.mem''"
  by (auto elim!: magnitude_text.cases simp: numeral_text_def digit_val_def)

lemma trace_line_item: "trace_text l i \<Longrightarrow> trace_line l prog = Inr (trace_item i prog)"
proof (induction rule: trace_text.induct)
  case (comment l)
  then show ?case by (auto simp: trace_line_def line_words_Nil)
next
  case (mem l a v ts x y)
  obtain r1 r2 r3 where r: "read_word l = Some (''.mem'', r1)" "read_word r1 = Some (a, r2)" "read_word r2 = Some (v, r3)"
    using mem(3) line_words_ConsD by meson
  then have "trace_mem r1 prog = Inr (trace_item (Mem_init (word_of_int x) (word_of_int y)) prog)"
    by (simp add: trace_mem_def parseInt_text [OF mem(4)] parseInt_text [OF mem(5)])
  then show ?case using mem(1,2) r(1) by (simp add: trace_line_def)
next
  case (inst l p opcode td t1 t2 ts pc d s1 s2 imm)
  obtain r1 r2 r3 r4 r5 where r: "read_word l = Some (p, r1)" "read_word r1 = Some (opcode, r2)"
      "read_word r2 = Some (td, r3)" "read_word r3 = Some (t1, r4)" "read_word r4 = Some (t2, r5)" "line_words r5 = ts"
    using inst(3) line_words_ConsD by meson
  have f: "read_fields r1 = Some (opcode, d, s1, s2, r5)"
    using r(2-5) inst(6-8) by (simp add: read_fields_def read_int_text)
  have m: "(case read_word r5 of None \<Rightarrow> Inr 0 | Some (t, _) \<Rightarrow> parseInt t) = Inr (word_of_int imm)"
  proof (cases ts)
    case Nil
    then show ?thesis using r(6) inst(9) by (simp add: line_words_Nil)
  next
    case (Cons t us)
    then obtain r6 where "read_word r5 = Some (t, r6)" using r(6) line_words_ConsD by meson
    then show ?thesis using inst(9) Cons by (simp add: parseInt_text [of t imm])
  qed
  show ?case
    using inst(1,2) r(1) f m not_mem [OF inst(4)] parseUint64_text [OF inst(4,5)]
    by (simp add: trace_line_def trace_inst_def inst_item_def)
qed

lemma trace_lines_items:
  "list_all2 trace_text ls is \<Longrightarrow> trace_lines ls prog = Inr (fold trace_item is prog)"
  by (induction ls "is" arbitrary: prog rule: list_all2_induct) (simp_all add: trace_line_item)

lemma items_mems: "pp_mem_init (fold trace_item is prog) = pp_mem_init prog @ item_mems is"
  by (induction "is" arbitrary: prog rule: item_mems.induct) simp_all

lemma items_icache:
  "pp_icache (fold trace_item is prog) = pp_icache prog ++ map_of (rev (map (\<lambda>i. (f_pc i, i)) (item_insts is)))"
  by (induction "is" arbitrary: prog rule: item_insts.induct) simp_all

text \<open>
  C13: a trace loads to the program that its lines spell. Whatever space separates the words of its
  lines and whatever comments it has, the instruction cache holds for each pc the last
  instruction given for it, with its registers and its immediate, and the initial memory words
  come in the order of the file.
\<close>

theorem trace_load_program:
  assumes "list_all2 trace_text (getlines text) is"
  shows "loadTraceFile (Some text) = Inr \<lparr>pp_icache = map_of (rev (map (\<lambda>i. (f_pc i, i)) (item_insts is))),
    pp_mem_init = item_mems is\<rparr>"
proof -
  let ?p = "fold trace_item is \<lparr>pp_icache = Map.empty, pp_mem_init = []\<rparr>"
  have "?p = \<lparr>pp_icache = pp_icache ?p, pp_mem_init = pp_mem_init ?p\<rparr>" by simp
  then show ?thesis
    by (simp add: loadTraceFile_def trace_lines_items [OF assms] items_mems items_icache)
qed

lemma int_text_plain: "numeral_text 10 t \<Longrightarrow> numeral_value 10 t < 2 ^ 31 \<Longrightarrow> int_text t (int (numeral_value 10 t))"
  by (simp add: int_text_def signed_text.plain)

text \<open>A comment, an initial word, an addition whose immediate is absent and a taken branch.\<close>

definition sample_trace :: string where
  "sample_trace = ''# PC OPCODE DEST SRC1 SRC2 [IMM]'' @ [newline] @ ''.mem 0x64 -7'' @ [newline]
     @ ''0x1000 ADD 5 4 0'' @ [CHR 0x0D, newline, newline] @ ''  0x1004  BEQ 0 5 0  0x1024''"

lemma trace_load_program_witness:
  "\<exists>prog. loadTraceFile (Some sample_trace) = Inr prog \<and> pp_mem_init prog = [(100, - 7)]
     \<and> pp_icache prog 0x1004 = Some (fetched0\<lparr>f_pc := 0x1004, f_opcode := ''BEQ'', f_src1_reg := 5, f_imm := 0x1024\<rparr>)"
proof -
  note n = numeral_text_def numeral_value_def from_digits_def digit_val_def
  have l: "getlines sample_trace = [''# PC OPCODE DEST SRC1 SRC2 [IMM]'', ''.mem 0x64 -7'',
      ''0x1000 ADD 5 4 0'' @ [CHR 0x0D], [], ''  0x1004  BEQ 0 5 0  0x1024'']"
    by code_simp
  have t: "line_words ''.mem 0x64 -7'' = [''.mem'', ''0x64'', ''-7'']"
      "line_words (''0x1000 ADD 5 4 0'' @ [CHR 0x0D]) = [''0x1000'', ''ADD'', ''5'', ''4'', ''0'']"
      "line_words ''  0x1004  BEQ 0 5 0  0x1024'' = [''0x1004'', ''BEQ'', ''0'', ''5'', ''0'', ''0x1024'']"
    by (simp_all add: line_words.simps read_word_def is_space_def)
  have i: "int_text ''0'' 0" "int_text ''4'' 4" "int_text ''5'' 5"
    using int_text_plain [of "''0''"] int_text_plain [of "''4''"] int_text_plain [of "''5''"] by (simp_all add: n)
  have m: "magnitude_text ''0x1000'' 0x1000" "magnitude_text ''0x1004'' 0x1004" "magnitude_text ''0x1024'' 0x1024"
      "magnitude_text ''0x64'' 100" "magnitude_text ''7'' 7"
    using magnitude_text.hex [of "''1000''" "CHR ''x''"] magnitude_text.hex [of "''1004''" "CHR ''x''"]
      magnitude_text.hex [of "''1024''" "CHR ''x''"] magnitude_text.hex [of "''64''" "CHR ''x''"]
      magnitude_text.dec [of "''7''"] by (simp_all add: n)
  have imm: "imm_text ''0x64'' 100" "imm_text ''-7'' (- 7)" "imm_text ''0x1024'' 0x1024"
    using signed_text.plain [of magnitude_text, OF m(4)] signed_text.minus [of magnitude_text, OF m(5)]
      signed_text.plain [of magnitude_text, OF m(3)] by (simp_all add: imm_text_def)
  let ?is = "[Nothing, Mem_init 100 (- 7), inst_item 0x1000 ''ADD'' 5 4 0 0, Nothing, inst_item 0x1004 ''BEQ'' 0 5 0 0x1024]"
  have "trace_text ''.mem 0x64 -7'' (Mem_init 100 (- 7))"
    using trace_text.mem [OF _ _ t(1) imm(1,2)] by simp
  moreover have "trace_text (''0x1000 ADD 5 4 0'' @ [CHR 0x0D]) (inst_item 0x1000 ''ADD'' 5 4 0 0)"
    using trace_text.inst [OF _ _ t(2) m(1) _ i(3,2,1), where imm = 0] by simp
  moreover have "trace_text ''  0x1004  BEQ 0 5 0  0x1024'' (inst_item 0x1004 ''BEQ'' 0 5 0 0x1024)"
    using trace_text.inst [OF _ _ t(3) m(2) _ i(1,3,1), where imm = "0x1024"] imm(3) by simp
  ultimately have "list_all2 trace_text (getlines sample_trace) ?is"
    by (simp add: l trace_text.comment)
  from trace_load_program [OF this] show ?thesis by (simp add: inst_item_def fetched0_def)
qed

end
