(* ===== verification/Report.thy ===== *)
theory Report
  imports CxxText Pipeline
begin

text \<open>
  What the two programs print of the architectural state: \<open>printArchState\<close> of the processor and
  of the golden model, whose texts the verification scripts compare, \<open>printRegsDump\<close>, and the
  statistics. A printed \<open>double\<close> (the quotient of two counters) is left as the pair of its
  operands; everything else is text.
\<close>

section \<open>Architectural state\<close>

definition reg_line :: "nat \<times> i32 \<Rightarrow> string" where
  "reg_line = (\<lambda>(r, v). ''  R'' @ show_nat r @ '' = '' @ show_int (sint v))"

definition mem_word_line :: "nat \<times> i32 \<Rightarrow> string" where
  "mem_word_line = (\<lambda>(a, v). ''  MEM['' @ show_nat a @ ''] = '' @ show_int (sint v))"

text \<open>A loop that prints the entries that are not zero, or one line when it printed none.\<close>

definition nonzero :: "(nat \<Rightarrow> nat) \<Rightarrow> i32 list \<Rightarrow> nat list \<Rightarrow> (nat \<times> i32) list" where
  "nonzero idx xs ks = map (\<lambda>k. (idx k, xs ! k)) (filter (\<lambda>k. xs ! k \<noteq> 0) ks)"

definition entry_lines :: "(nat \<times> i32 \<Rightarrow> string) \<Rightarrow> (nat \<times> i32) list \<Rightarrow> string list" where
  "entry_lines f es = (if es = [] then [''  (all zero)''] else map f es)"

definition state_lines :: "(nat \<times> i32) list \<Rightarrow> (nat \<times> i32) list \<Rightarrow> string list" where
  "state_lines rs ms =
     [[], ''--------- Final Architectural State ---------'', ''Registers (nonzero):'']
     @ entry_lines reg_line rs @ [''Memory (nonzero words):''] @ entry_lines mem_word_line ms
     @ [''--------------------------------------------'']"

definition unlines :: "string list \<Rightarrow> string" where
  "unlines ls = concat (map (\<lambda>l. l @ [newline]) ls)"

text \<open>The processor writes its dirty lines back first (\<open>archState\<close>).\<close>

definition printArchState :: "Processor \<Rightarrow> string" where
  "printArchState p = (let (arf, mem) = archState p in
     unlines (state_lines (nonzero id arf [0..<cfg_num_regs (p_config p)])
       (nonzero (\<lambda>a. if p_byte_addressed p then a * 4 else a) mem [0..<length mem])))"

definition g_printArchState :: "GoldenModel \<Rightarrow> string" where
  "g_printArchState g = unlines (state_lines (nonzero id (g_arf g) [1..<g_num_regs g])
     (nonzero id (g_mem g) [0..<length (g_mem g)]))"

definition regs_text :: "i32 list \<Rightarrow> string" where
  "regs_text rs = concat (map (\<lambda>(r, v). ''x'' @ show_nat r @ ''=0x'' @ show_hex (unat v) @ [newline])
     (enumerate 0 rs))"

definition printRegsDump :: "Processor \<Rightarrow> string" where
  "printRegsDump p = regs_text (map (\<lambda>r. p_arf p ! r) [0..<cfg_num_regs (p_config p)])"

section \<open>Statistics\<close>

datatype Piece = Text string | Quotient u64 u64

definition bpModeName :: "BranchPredMode \<Rightarrow> string" where
  "bpModeName m = (if m = AlwaysTaken then ''always-taken'' else ''gshare'')"

definition hit_cap :: "Processor \<Rightarrow> bool" where
  "hit_cap p \<longleftrightarrow> max_cycle_count p \<le> p_cycle_count p"

definition counter :: "u64 \<Rightarrow> Piece" where
  "counter n = Text (show_nat (unat n))"

definition num :: "nat \<Rightarrow> Piece" where
  "num n = Text (show_nat n)"

definition snum :: "int \<Rightarrow> Piece" where
  "snum v = Text (show_int v)"

abbreviation endl :: Piece where
  "endl \<equiv> Text [newline]"

definition printStats :: "Processor \<Rightarrow> Piece list" where
  "printStats p = (let s = p_stats p; c = p_config p in
     [endl, Text ''================ Simulation Statistics ================'', endl,
      Text ''  Config: width='', num (cfg_width c), Text '' ROB='', num (cfg_rob_size c),
      Text '' RS='', num (cfg_rs_size c), Text '' LSQ='', num (cfg_lsq_size c),
      Text '' IFQ='', num (cfg_ifq_size c), Text '' CDB='', num (cfg_cdb_width c), endl,
      Text ''          ALU='', num (cfg_num_alu c), Text ''('', snum (cfg_alu_latency c), Text ''c)'',
      Text '' MUL='', num (cfg_num_mul c), Text ''('', snum (cfg_mul_latency c), Text ''c)'',
      Text '' DIV='', num (cfg_num_div c), Text ''('', snum (cfg_div_latency c), Text ''c)'',
      Text '' BR='', num (cfg_num_br c), Text ''('', snum (cfg_br_latency c), Text ''c)'',
      Text '' lsqCdb='', num (cfg_num_lsq c), Text '' SB='', snum (cfg_store_buf_depth c),
      Text '' memLat='', snum (cfg_mem_latency c),
      Text '' fwd='', Text (if cfg_store_forwarding c then ''on'' else ''off''), endl,
      Text ''          BP='', Text (bpModeName (cfg_bp_mode c)), Text '' PHT='', num (cfg_pht_size c),
      Text '' BTB='', num (cfg_btb_size c), Text '' RAS='', num (cfg_ras_size c), endl,
      Text ''-------------------------------------------------------'', endl,
      Text ''  Cycles                : '', counter (st_cycles s),
      Text (if hit_cap p then ''  (HIT max_cycles cap!)'' else ''''), endl,
      Text ''  Instructions committed: '', counter (st_committed s), endl,
      Text ''  Instructions fetched  : '', counter (st_fetched s), endl,
      Text ''  Instructions issued   : '', counter (st_issued s), endl,
      Text ''  IPC                   : '', Quotient (st_committed s) (st_cycles s), endl,
      Text ''  Commit mix            : ALU='', counter (st_committed_alu s), Text '' MUL='', counter (st_committed_mul s),
      Text '' DIV='', counter (st_committed_div s), Text '' LD='', counter (st_committed_load s),
      Text '' ST='', counter (st_committed_store s), Text '' BR='', counter (st_committed_branch s), endl,
      Text ''  Branches resolved     : '', counter (st_branches_resolved s), endl,
      Text ''  Branch mispredicts    : '', counter (st_branch_mispredicts s),
      Text ''  (rate '', Quotient (st_branch_mispredicts s * 100) (st_branches_resolved s),
      Text ''%, MPKI '', Quotient (st_branch_mispredicts s * 1000) (st_committed s), Text '')'', endl,
      Text ''  Pipeline flushes      : '', counter (st_flushes s), endl,
      Text ''  Squashed instructions : '', counter (st_squashed s), endl,
      Text ''  Issue stall cycles    : ROB='', counter (st_stall_rob s), Text '' RS='', counter (st_stall_rs s),
      Text '' LSQ='', counter (st_stall_lsq s), Text '' front='', counter (st_stall_front s), endl,
      Text ''======================================================='', endl])"

definition csv_header :: "string list" where
  "csv_header = [''benchmark'', ''width'', ''rob'', ''rs'', ''lsq'', ''ifq'', ''cdb'', ''alu'', ''mul'', ''div'',
     ''alu_lat'', ''mul_lat'', ''div_lat'', ''mem_lat'', ''fwd'', ''pht'', ''btb'', ''ras'', ''bp'',
     ''cycles'', ''committed'', ''fetched'', ''issued'', ''ipc'',
     ''c_alu'', ''c_mul'', ''c_div'', ''c_load'', ''c_store'', ''c_branch'',
     ''branches'', ''mispredicts'', ''mispred_rate'', ''flushes'', ''squashed'',
     ''stall_rob'', ''stall_rs'', ''stall_lsq'', ''stall_front'', ''hit_cap'']"

fun separated :: "Piece list \<Rightarrow> Piece list" where
  "separated [] = []"
| "separated [x] = [x]"
| "separated (x # y # xs) = x # Text '','' # separated (y # xs)"

definition printStatsCSVHeader :: "Piece list" where
  "printStatsCSVHeader = separated (map Text csv_header) @ [endl]"

definition csv_row :: "string \<Rightarrow> Processor \<Rightarrow> Piece list" where
  "csv_row label p = (let s = p_stats p; c = p_config p in
     [Text label, num (cfg_width c), num (cfg_rob_size c), num (cfg_rs_size c), num (cfg_lsq_size c),
      num (cfg_ifq_size c), num (cfg_cdb_width c), num (cfg_num_alu c), num (cfg_num_mul c), num (cfg_num_div c),
      snum (cfg_alu_latency c), snum (cfg_mul_latency c), snum (cfg_div_latency c), snum (cfg_mem_latency c),
      num (if cfg_store_forwarding c then 1 else 0), num (cfg_pht_size c), num (cfg_btb_size c), num (cfg_ras_size c),
      Text (bpModeName (cfg_bp_mode c)),
      counter (st_cycles s), counter (st_committed s), counter (st_fetched s), counter (st_issued s),
      Quotient (st_committed s) (st_cycles s),
      counter (st_committed_alu s), counter (st_committed_mul s), counter (st_committed_div s),
      counter (st_committed_load s), counter (st_committed_store s), counter (st_committed_branch s),
      counter (st_branches_resolved s), counter (st_branch_mispredicts s),
      Quotient (st_branch_mispredicts s) (st_branches_resolved s), counter (st_flushes s), counter (st_squashed s),
      counter (st_stall_rob s), counter (st_stall_rs s), counter (st_stall_lsq s), counter (st_stall_front s),
      num (if hit_cap p then 1 else 0)])"

definition printStatsCSV :: "string \<Rightarrow> Processor \<Rightarrow> Piece list" where
  "printStatsCSV label p = separated (csv_row label p) @ [endl]"

lemma csv_columns: "length (csv_row label p) = length csv_header"
  by (simp add: csv_row_def csv_header_def Let_def)

section \<open>The printed state determines the state\<close>

lemma digits_plain: "c \<in> set (show_nat n) \<Longrightarrow> digit_val 10 c \<noteq> None"
  using show_nat_text(1) [of n] by (auto simp: numeral_text_def)

lemma show_nat_split:
  assumes "show_nat m @ s = show_nat n @ t" "stops 10 s" "stops 10 t"
  shows "m = n \<and> s = t"
proof -
  have "(map (the \<circ> digit_val 10) (show_nat m), s) = (map (the \<circ> digit_val 10) (show_nat n), t)"
    using scan_digits_numeral [of "show_nat m" 10 s] scan_digits_numeral [of "show_nat n" 10 t] assms digits_plain
    by metis
  then show ?thesis using show_nat_text(2) by (metis numeral_value_def prod.inject)
qed

lemma show_int_inj: "show_int v = show_int w \<longleftrightarrow> v = w"
proof -
  have m: "hd (show_nat n) \<noteq> CHR ''-''" for n
    using show_nat_text(1) [of n] digits_plain [of "CHR ''-''" n] by (cases "show_nat n") (auto simp: numeral_text_def text_simps)
  have e: "show_nat n \<noteq> ''-'' @ t" for n t using m [of n] by (cases "show_nat n") auto
  then have e': "''-'' @ t \<noteq> show_nat n" for n t by metis
  show ?thesis using e e' by (auto simp: show_int_def show_nat_inj)
qed

lemma show_chars: "c \<in> set (show_int v) \<Longrightarrow> c = CHR ''-'' \<or> digit_val 10 c \<noteq> None"
  using digits_plain by (auto simp: show_int_def split: if_splits)

lemma reg_line_inj: "reg_line x = reg_line y \<longleftrightarrow> x = y"
proof (cases x; cases y)
  fix r v s w assume xy: "x = (r, v)" "y = (s, w)"
  have "show_nat r @ '' = '' @ show_int (sint v) = show_nat s @ '' = '' @ show_int (sint w) \<longleftrightarrow> r = s \<and> v = w"
    using show_nat_split [of r "'' = '' @ show_int (sint v)" s "'' = '' @ show_int (sint w)"]
    by (auto simp: text_simps show_int_inj signed_word_eqI)
  then show ?thesis by (simp add: xy reg_line_def)
qed

lemma mem_word_line_inj: "mem_word_line x = mem_word_line y \<longleftrightarrow> x = y"
proof (cases x; cases y)
  fix r v s w assume xy: "x = (r, v)" "y = (s, w)"
  have "digit_val 10 (CHR '']'') = None" by (simp add: digit_val_def)
  then have "show_nat r @ ''] = '' @ show_int (sint v) = show_nat s @ ''] = '' @ show_int (sint w) \<longleftrightarrow> r = s \<and> v = w"
    using show_nat_split [of r "''] = '' @ show_int (sint v)" s "''] = '' @ show_int (sint w)"]
    by (auto simp: show_int_inj signed_word_eqI)
  then show ?thesis by (simp add: xy mem_word_line_def)
qed

lemma entry_lines_inj:
  assumes "\<And>x y. f x = f y \<longleftrightarrow> x = y" "\<And>x. f x \<noteq> ''  (all zero)''"
  shows "entry_lines f es = entry_lines f fs \<longleftrightarrow> es = fs"
proof -
  have i: "inj f" using assms(1) by (simp add: inj_def)
  have m: "map f zs \<noteq> [''  (all zero)'']" for zs
  proof
    assume "map f zs = [''  (all zero)'']"
    then obtain z where "f z = ''  (all zero)''" by (auto simp: map_eq_Cons_conv)
    then show False using assms(2) by blast
  qed
  then have "[''  (all zero)''] \<noteq> map f zs" for zs by metis
  with m show ?thesis by (simp add: entry_lines_def inj_map_eq_map [OF i])
qed

lemma line_heads: "reg_line x \<noteq> ''  (all zero)''" "mem_word_line x \<noteq> ''  (all zero)''"
  by (simp_all add: reg_line_def mem_word_line_def split: prod.split)

definition indented :: "string \<Rightarrow> bool" where
  "indented l \<longleftrightarrow> take 1 l = '' ''"

lemma entry_indented: "l \<in> set (entry_lines reg_line es) \<or> l \<in> set (entry_lines mem_word_line es) \<Longrightarrow> indented l"
  by (auto simp: entry_lines_def reg_line_def mem_word_line_def indented_def split: if_splits)

lemma state_lines_inj: "state_lines rs ms = state_lines rs' ms' \<longleftrightarrow> rs = rs' \<and> ms = ms'"
proof
  assume eq: "state_lines rs ms = state_lines rs' ms'"
  let ?f = "\<lambda>rs ms. entry_lines reg_line rs @ [''Memory (nonzero words):''] @ entry_lines mem_word_line ms @ [''--------------------------------------------'']"
  have f: "?f rs ms = ?f rs' ms'" using eq by (simp add: state_lines_def)
  have t: "takeWhile indented (?f rs ms) = entry_lines reg_line rs" for rs ms
    using entry_indented by (subst takeWhile_append2) (auto simp: indented_def)
  have e: "entry_lines reg_line rs = entry_lines reg_line rs'" using t [of rs ms] t [of rs' ms'] f by metis
  then have "entry_lines mem_word_line ms = entry_lines mem_word_line ms'" using f by simp
  then show "rs = rs' \<and> ms = ms'"
    using e entry_lines_inj [of reg_line, OF reg_line_inj line_heads(1)]
      entry_lines_inj [of mem_word_line, OF mem_word_line_inj line_heads(2)] by blast
qed simp

lemma line_newline: "newline \<notin> set l" if "l \<in> set (state_lines rs ms)"
proof -
  have i: "newline \<notin> set (show_int v)" "newline \<notin> set (show_nat n)" for v n
    using show_chars [of newline v] digits_plain [of newline n] by (auto simp: text_simps)
  have "newline \<notin> set (reg_line x)" "newline \<notin> set (mem_word_line x)" for x
    using i by (simp_all add: reg_line_def mem_word_line_def split: prod.split)
  then have "newline \<notin> set l" if "l \<in> set (entry_lines reg_line es) \<or> l \<in> set (entry_lines mem_word_line es)" for l es
    using that by (auto simp: entry_lines_def split: if_splits)
  then show ?thesis using that by (auto simp: state_lines_def)
qed

lemma state_text_inj:
  "unlines (state_lines rs ms) = unlines (state_lines rs' ms') \<longleftrightarrow> rs = rs' \<and> ms = ms'"
proof -
  have "getlines (unlines (state_lines rs ms)) = state_lines rs ms" for rs ms
    unfolding unlines_def by (rule getlines_concat) (blast dest: line_newline)
  then show ?thesis using state_lines_inj by metis
qed

text \<open>The value at an index, zero outside.\<close>

definition entry_at :: "i32 list \<Rightarrow> nat \<Rightarrow> i32" where
  "entry_at xs k = (if k < length xs then xs ! k else 0)"

lemma nonzero_graph:
  assumes "length xs \<le> N" "\<And>k. k < a \<Longrightarrow> entry_at xs k = 0"
  shows "nonzero id xs [a..<length xs] = map (\<lambda>k. (k, entry_at xs k)) (filter (\<lambda>k. entry_at xs k \<noteq> 0) [0..<N])"
proof -
  let ?F = "\<lambda>ks. map (\<lambda>k. (k, entry_at xs k)) (filter (\<lambda>k. entry_at xs k \<noteq> 0) ks)"
  have "[0..<N] = [0..<min a (length xs)] @ [min a (length xs)..<length xs] @ [length xs..<N]"
    using upt_add_eq_append [of 0 "length xs" "N - length xs"]
      upt_add_eq_append [of 0 "min a (length xs)" "length xs - min a (length xs)"] assms(1) by simp
  moreover have "?F [0..<min a (length xs)] = []" using assms(2) by (simp add: filter_empty_conv)
  moreover have "?F [length xs..<N] = []" by (simp add: filter_empty_conv entry_at_def)
  moreover have "?F [min a (length xs)..<length xs] = nonzero id xs [a..<length xs]"
    by (cases "a \<le> length xs") (auto simp: nonzero_def entry_at_def intro!: map_cong filter_cong)
  ultimately show ?thesis by simp
qed

lemma graph_eq:
  "map (\<lambda>k. (k, f k)) (filter (\<lambda>k. f k \<noteq> 0) [0..<N]) = map (\<lambda>k. (k, g k)) (filter (\<lambda>k. g k \<noteq> 0) [0..<N])
   \<longleftrightarrow> (\<forall>k < N. f k = (g k :: i32))" (is "?l = ?r \<longleftrightarrow> ?R")
proof
  assume eq: "?l = ?r"
  show "\<forall>k < N. f k = g k"
  proof (intro allI impI)
    fix k assume "k < N"
    moreover have "(k, f k) \<in> set ?l \<longleftrightarrow> (k, f k) \<in> set ?r" "(k, g k) \<in> set ?l \<longleftrightarrow> (k, g k) \<in> set ?r"
      by (simp_all only: eq)
    ultimately show "f k = g k" by auto
  qed
next
  assume ?R
  then show "?l = ?r" by (auto intro!: map_cong filter_cong)
qed

lemma nonzero_eq:
  assumes "\<And>k. k < b \<Longrightarrow> entry_at ys k = 0"
  shows "nonzero id xs [0..<length xs] = nonzero id ys [b..<length ys] \<longleftrightarrow> (\<forall>k. entry_at xs k = entry_at ys k)"
proof -
  let ?N = "max (length xs) (length ys)"
  have "nonzero id xs [0..<length xs] = nonzero id ys [b..<length ys] \<longleftrightarrow> (\<forall>k < ?N. entry_at xs k = entry_at ys k)"
    using nonzero_graph [of xs ?N 0] nonzero_graph [of ys ?N b] assms graph_eq [of "entry_at xs" ?N "entry_at ys"] by simp
  also have "\<dots> \<longleftrightarrow> (\<forall>k. entry_at xs k = entry_at ys k)" by (auto simp: entry_at_def)
  finally show ?thesis .
qed

text \<open>
  C11: the comparison of the two programs is exact. After a toy run the texts that the processor
  and the golden model print of their architectural states are equal if and only if every
  register and every word of memory agree (the processor's dirty cache lines written back; a
  register or word that only one of them has counts as zero).
\<close>

theorem dumps_agree:
  assumes "g_wf g" "length (p_arf p) = cfg_num_regs (p_config p)" "\<not> p_byte_addressed p"
  shows "printArchState p = g_printArchState g \<longleftrightarrow>
    (\<forall>r. entry_at (p_arf p) r = entry_at (g_arf g) r) \<and> (\<forall>a. entry_at (snd (archState p)) a = entry_at (g_mem g) a)"
proof -
  have z: "entry_at (g_arf g) k = 0" if "k < 1" for k using that assms(1) by (auto simp: entry_at_def g_wf_def)
  have a: "archState p = (p_arf p, snd (archState p))" by (simp add: archState_def)
  have p: "printArchState p = unlines (state_lines (nonzero id (p_arf p) [0..<length (p_arf p)])
      (nonzero id (snd (archState p)) [0..<length (snd (archState p))]))"
    unfolding printArchState_def by (subst a) (simp add: assms(2,3) id_def)
  have g: "g_printArchState g = unlines (state_lines (nonzero id (g_arf g) [1..<length (g_arf g)])
      (nonzero id (g_mem g) [0..<length (g_mem g)]))"
    using assms(1) by (simp add: g_printArchState_def g_wf_def)
  show ?thesis
    unfolding p g by (simp only: state_text_inj nonzero_eq [OF z] nonzero_eq [of 0] not_less_zero)
qed

text \<open>A fresh machine and a fresh golden model agree; one register apart they do not.\<close>

definition toy_config :: ProcessorConfig where
  "toy_config = config0\<lparr>cfg_mem_system := Ideal\<rparr>"

lemma dumps_agree_witness:
  "\<exists>q. proc_init toy_config [0, 0] False = Some q \<and> printArchState q = g_printArchState (golden_init 16)
     \<and> printArchState (q\<lparr>p_arf := (p_arf q)[3 := 5]\<rparr>) \<noteq> g_printArchState (golden_init 16)"
proof -
  let ?g = "golden_init 16"
  obtain q where q: "proc_init toy_config [0, 0] False = Some q"
    by (simp add: proc_init_def toy_config_def config0_def dr_init_def arb_init_def)
  then have parts: "p_arf q = replicate 32 0" "p_config q = toy_config" "\<not> p_byte_addressed q" "p_mem q = [0, 0]"
      "kind (p_memsys q) = Some Ideal"
    by (auto simp: proc_init_def toy_config_def config0_def split: bind_splits)
  let ?q = "q\<lparr>p_arf := (p_arf q)[3 := 5]\<rparr>"
  have n: "cfg_num_regs toy_config = 32" by (simp add: toy_config_def config0_def)
  have wf: "g_wf ?g" by (simp add: g_wf_def golden_init_def)
  have m: "snd (archState q) = [0, 0]"
    using parts(4,5) by (auto simp: archState_def split: MemorySystem.split)
  have z: "entry_at (replicate k 0) r = 0" "entry_at [0, 0] r = 0" for k r by (auto simp: entry_at_def less_Suc_eq)
  have "printArchState q = g_printArchState ?g"
    using dumps_agree [OF wf, of q] parts m n z by (simp add: golden_init_def)
  moreover have "entry_at (p_arf ?q) 3 \<noteq> entry_at (g_arf ?g) 3" using parts(1) z by (simp add: entry_at_def golden_init_def)
  then have "printArchState ?q \<noteq> g_printArchState ?g"
    using dumps_agree [OF wf, of ?q] parts(1,2,3) n by auto
  ultimately show ?thesis using q by blast
qed

end
