(* ===== verification/CommandLine.thy ===== *)
theory CommandLine
  imports HexLoader TraceLoader Report
begin

text \<open>
  The drivers \<open>src/main.cpp\<close> and \<open>golden/golden_main.cpp\<close>: the options, the choice of the input,
  the run and what goes to standard output. The file system is a function from paths to contents
  (\<open>None\<close>: the file cannot be opened or created). Messages on standard error and the contents of
  the pipeline trace file are not modelled. \<open>None\<close> as the result of a driver is an abnormal end: a
  failed assertion, a negative size, or a run that does not end.
\<close>

section \<open>Options\<close>

text \<open>
  \<open>o_knobs\<close> holds the integers assigned to the configuration, under the name of their option.
\<close>

record Options =
  o_knobs :: "string \<rightharpoonup> int"
  o_bp :: BranchPredMode
  o_mem :: MemSystem
  o_forward :: bool
  o_max_cycles :: int
  o_trace :: string
  o_imem :: string
  o_dmem :: string
  o_csv_label :: string
  o_want_stats :: bool
  o_want_csv :: bool
  o_want_dump :: bool
  o_want_dump_regs :: bool
  o_quiet :: bool
  o_self_check :: bool
  o_pipeline_trace :: string

definition options0 :: Options where
  "options0 = \<lparr>o_knobs = Map.empty, o_bp = GShare, o_mem = Cached, o_forward = True, o_max_cycles = 100000,
     o_trace = [], o_imem = [], o_dmem = [], o_csv_label = [], o_want_stats = False, o_want_csv = False,
     o_want_dump = False, o_want_dump_regs = False, o_quiet = False, o_self_check = False, o_pipeline_trace = []\<rparr>"

definition count_knobs :: "(string \<times> (nat \<Rightarrow> ProcessorConfig \<Rightarrow> ProcessorConfig)) list" where
  "count_knobs =
    [(''--width'', \<lambda>v c. c\<lparr>cfg_width := v\<rparr>), (''--rob'', \<lambda>v c. c\<lparr>cfg_rob_size := v\<rparr>),
     (''--rs'', \<lambda>v c. c\<lparr>cfg_rs_size := v\<rparr>), (''--lsq'', \<lambda>v c. c\<lparr>cfg_lsq_size := v\<rparr>),
     (''--ifq'', \<lambda>v c. c\<lparr>cfg_ifq_size := v\<rparr>), (''--cdb'', \<lambda>v c. c\<lparr>cfg_cdb_width := v\<rparr>),
     (''--ras'', \<lambda>v c. c\<lparr>cfg_ras_size := v\<rparr>), (''--pht'', \<lambda>v c. c\<lparr>cfg_pht_size := v\<rparr>),
     (''--btb'', \<lambda>v c. c\<lparr>cfg_btb_size := v\<rparr>), (''--alu'', \<lambda>v c. c\<lparr>cfg_num_alu := v\<rparr>),
     (''--mul'', \<lambda>v c. c\<lparr>cfg_num_mul := v\<rparr>), (''--div'', \<lambda>v c. c\<lparr>cfg_num_div := v\<rparr>),
     (''--br'', \<lambda>v c. c\<lparr>cfg_num_br := v\<rparr>), (''--lsq-cdb'', \<lambda>v c. c\<lparr>cfg_num_lsq := v\<rparr>),
     (''--cache-line'', \<lambda>v c. c\<lparr>cfg_cache_line_bytes := v\<rparr>), (''--dcache-sets'', \<lambda>v c. c\<lparr>cfg_dcache_sets := v\<rparr>),
     (''--dcache-ways'', \<lambda>v c. c\<lparr>cfg_dcache_ways := v\<rparr>), (''--icache-sets'', \<lambda>v c. c\<lparr>cfg_icache_sets := v\<rparr>),
     (''--icache-ways'', \<lambda>v c. c\<lparr>cfg_icache_ways := v\<rparr>), (''--dcache-mshr'', \<lambda>v c. c\<lparr>cfg_dcache_mshr := v\<rparr>),
     (''--icache-mshr'', \<lambda>v c. c\<lparr>cfg_icache_mshr := v\<rparr>)]"

definition int_knobs :: "(string \<times> (int \<Rightarrow> ProcessorConfig \<Rightarrow> ProcessorConfig)) list" where
  "int_knobs =
    [(''--sb'', \<lambda>v c. c\<lparr>cfg_store_buf_depth := v\<rparr>), (''--dram-lat'', \<lambda>v c. c\<lparr>cfg_dram_lat_cycles := v\<rparr>),
     (''--dcache-ufp'', \<lambda>v c. c\<lparr>cfg_dcache_ufp_ports := v\<rparr>), (''--dram-out'', \<lambda>v c. c\<lparr>cfg_dram_outstanding := v\<rparr>),
     (''--mshr-waiters'', \<lambda>v c. c\<lparr>cfg_mshr_waiters := v\<rparr>), (''--load-hit-lat'', \<lambda>v c. c\<lparr>cfg_load_hit_latency := v\<rparr>),
     (''--fetch-hit-lat'', \<lambda>v c. c\<lparr>cfg_fetch_hit_latency := v\<rparr>), (''--alu-lat'', \<lambda>v c. c\<lparr>cfg_alu_latency := v\<rparr>),
     (''--mul-lat'', \<lambda>v c. c\<lparr>cfg_mul_latency := v\<rparr>), (''--div-lat'', \<lambda>v c. c\<lparr>cfg_div_latency := v\<rparr>),
     (''--br-lat'', \<lambda>v c. c\<lparr>cfg_br_latency := v\<rparr>), (''--mem-lat'', \<lambda>v c. c\<lparr>cfg_mem_latency := v\<rparr>),
     (''--fwd-lat'', \<lambda>v c. c\<lparr>cfg_fwd_latency := v\<rparr>)]"

definition is_knob :: "string \<Rightarrow> bool" where
  "is_knob a \<longleftrightarrow> a \<in> set (map fst count_knobs) \<or> a \<in> set (map fst int_knobs)"

definition bp_mode_of :: "string \<Rightarrow> BranchPredMode option" where
  "bp_mode_of s = (if s = ''gshare'' \<or> s = ''GSHARE'' then Some GShare
     else if s = ''always-taken'' \<or> s = ''always_taken'' \<or> s = ''at'' then Some AlwaysTaken else None)"

definition mem_system_of :: "string \<Rightarrow> MemSystem option" where
  "mem_system_of s = (if s = ''cached'' \<or> s = ''CACHE'' \<or> s = ''1'' then Some Cached
     else if s = ''ideal'' \<or> s = ''IDEAL'' \<or> s = ''0'' then Some Ideal else None)"

text \<open>Options without a value.\<close>

definition flag_option :: "string \<Rightarrow> (Options \<Rightarrow> Options) option" where
  "flag_option a =
    (if a = ''--no-forward'' then Some (\<lambda>o'. o'\<lparr>o_forward := False\<rparr>)
     else if a = ''--stats'' then Some (\<lambda>o'. o'\<lparr>o_want_stats := True\<rparr>)
     else if a = ''--dump'' then Some (\<lambda>o'. o'\<lparr>o_want_dump := True\<rparr>)
     else if a = ''--dump-regs'' then Some (\<lambda>o'. o'\<lparr>o_want_dump_regs := True\<rparr>)
     else if a = ''--selfcheck'' then Some (\<lambda>o'. o'\<lparr>o_self_check := True\<rparr>)
     else if a = ''--quiet'' then Some (\<lambda>o'. o'\<lparr>o_quiet := True\<rparr>)
     else None)"

text \<open>Options with a value: \<open>None\<close> when the option has none, \<open>Some None\<close> when the value is rejected.\<close>

definition value_option :: "string \<Rightarrow> string \<Rightarrow> (Options \<Rightarrow> Options) option option" where
  "value_option a s =
    (if is_knob a then Some (map_option (\<lambda>v o'. o'\<lparr>o_knobs := (o_knobs o')(a \<mapsto> v)\<rparr>) (from_chars_int s))
     else if a = ''--bp'' then Some (map_option (\<lambda>m o'. o'\<lparr>o_bp := m\<rparr>) (bp_mode_of s))
     else if a = ''--mem-system'' then Some (map_option (\<lambda>m o'. o'\<lparr>o_mem := m\<rparr>) (mem_system_of s))
     else if a = ''--max-cycles'' then
       Some (case from_chars_int s of None \<Rightarrow> None
             | Some v \<Rightarrow> if v \<le> 0 then None else Some (\<lambda>o'. o'\<lparr>o_max_cycles := v\<rparr>))
     else if a = ''--imem'' then Some (Some (\<lambda>o'. o'\<lparr>o_imem := s\<rparr>))
     else if a = ''--dmem'' then Some (Some (\<lambda>o'. o'\<lparr>o_dmem := s\<rparr>))
     else if a = ''--pipeline-trace'' then Some (Some (\<lambda>o'. o'\<lparr>o_pipeline_trace := s\<rparr>))
     else None)"

definition takes_value :: "string \<Rightarrow> bool" where
  "takes_value a \<longleftrightarrow> value_option a [] \<noteq> None"

text \<open>The result of a driver: its exit code and what it wrote to standard output.\<close>

type_synonym outcome = "int \<times> Piece list"

definition usage :: "outcome + 'a" where
  "usage = Inl (2, [])"

text \<open>The loop over the arguments; \<open>Inl\<close> is an exit before the run.\<close>

fun parse_args :: "string list \<Rightarrow> Options \<Rightarrow> outcome + Options" where
  "parse_args [] o' = Inr o'"
| "parse_args (a # rest) o' =
    (if takes_value a then
       (case rest of [] \<Rightarrow> usage
        | s # rest' \<Rightarrow>
            (case value_option a s of Some (Some f) \<Rightarrow> parse_args rest' (f o') | _ \<Rightarrow> usage))
     else
       (case flag_option a of Some f \<Rightarrow> parse_args rest (f o')
        | None \<Rightarrow>
            if a = ''--csv-header'' then Inl (0, printStatsCSVHeader)
            else if a = ''--csv'' then
              (case rest of [] \<Rightarrow> parse_args [] (o'\<lparr>o_want_csv := True, o_csv_label := ''run''\<rparr>)
               | s # rest' \<Rightarrow> parse_args rest' (o'\<lparr>o_want_csv := True, o_csv_label := s\<rparr>))
            else if a = ''-h'' \<or> a = ''--help'' then Inl (0, [])
            else if take 1 a = ''-'' then usage
            else parse_args rest (o'\<lparr>o_trace := a\<rparr>)))"

section \<open>The configuration\<close>

definition set_count :: "Options \<Rightarrow> string \<times> (nat \<Rightarrow> ProcessorConfig \<Rightarrow> ProcessorConfig) \<Rightarrow> ProcessorConfig \<Rightarrow> ProcessorConfig" where
  "set_count o' = (\<lambda>(k, set). case o_knobs o' k of None \<Rightarrow> id | Some v \<Rightarrow> set (nat v))"

definition set_int :: "Options \<Rightarrow> string \<times> (int \<Rightarrow> ProcessorConfig \<Rightarrow> ProcessorConfig) \<Rightarrow> ProcessorConfig \<Rightarrow> ProcessorConfig" where
  "set_int o' = (\<lambda>(k, set). case o_knobs o' k of None \<Rightarrow> id | Some v \<Rightarrow> set v)"

text \<open>
  Sizes and latencies of components are natural numbers of the configuration. An option that gives
  one of them a negative value is outside the model, which has \<open>None\<close> there; the code passes it to
  the constructors, whose vectors may or may not refuse it.
\<close>

definition negative_count :: "Options \<Rightarrow> bool" where
  "negative_count o' \<longleftrightarrow> list_ex (\<lambda>(k, set). case o_knobs o' k of None \<Rightarrow> False | Some v \<Rightarrow> v < 0) count_knobs"

definition main_config :: "Options \<Rightarrow> ProcessorConfig option" where
  "main_config o' =
    (if negative_count o' then None
     else
       let c = fold (set_int o') int_knobs (fold (set_count o') count_knobs
                 (config0\<lparr>cfg_initial_pc := 0x1000, cfg_bp_mode := o_bp o', cfg_mem_system := o_mem o',
                    cfg_store_forwarding := o_forward o', cfg_max_cycles := word_of_int (o_max_cycles o')\<rparr>)) in
       Some (if o_knobs o' ''--cdb'' = None then c\<lparr>cfg_cdb_width := cfg_width c\<rparr> else c))"

section \<open>The processor's driver\<close>

type_synonym files = "string \<Rightarrow> string option"

text \<open>The program of the command line, loaded; \<open>Inl\<close> is an exception of a loader.\<close>

definition load_input :: "files \<Rightarrow> Options \<Rightarrow> string \<Rightarrow> Processor \<Rightarrow> exn + Processor" where
  "load_input fs o' trace cpu =
    (if o_imem o' \<noteq> [] then
       (case loadHexWords (fs (o_imem o')) of Inl e \<Rightarrow> Inl e
        | Inr iwords \<Rightarrow>
            (case (if o_dmem o' \<noteq> [] then loadHexWords (fs (o_dmem o')) else Inr []) of Inl e \<Rightarrow> Inl e
             | Inr dwords \<Rightarrow> Inr (loadHexProgram iwords dwords cpu)))
     else
       (case loadTraceFile (fs trace) of Inl e \<Rightarrow> Inl e
        | Inr prog \<Rightarrow> Inr (loadInstructionCache prog cpu)))"

definition banner :: "Options \<Rightarrow> string \<Rightarrow> ProcessorConfig \<Rightarrow> Piece list" where
  "banner o' trace cfg =
    [Text ''Pipeline Simulator (Tomasulo + ROB, '', num (cfg_width cfg), Text ''-wide superscalar)'', endl]
    @ (if o_imem o' \<noteq> [] then
         [Text ''Loaded imem: '', Text (o_imem o')]
         @ (if o_dmem o' \<noteq> [] then [Text ''  dmem: '', Text (o_dmem o')] else []) @ [endl]
       else [Text ''Loaded trace: '', Text trace, endl])
    @ [Text ''Starting simulation...'', endl]"

text \<open>The reports after the run.\<close>

definition reports :: "Options \<Rightarrow> Processor \<Rightarrow> Piece list" where
  "reports o' p =
    (if o_want_dump o' then [Text (printArchState p)] else [])
    @ (if o_want_dump_regs o' then [Text (printRegsDump p)] else [])
    @ (if o_want_csv o' then printStatsCSV (o_csv_label o') p
       else if o_want_stats o' then printStats p
       else if \<not> o_quiet o' then
         [endl, Text ''Simulation finished after '', counter (p_cycle_count p), Text '' cycles.'', endl]
       else [])"

text \<open>
  The part of \<open>main\<close> after the options. With a pipeline trace the loop is the same loop of cycles;
  the file has to be creatable, which a function from paths to contents does not say: here \<open>fs\<close>
  being defined there stands for it, although the code creates the file.
\<close>

definition simulate :: "files \<Rightarrow> Options \<Rightarrow> outcome option" where
  "simulate fs o' =
    (if o_imem o' \<noteq> [] \<and> o_trace o' \<noteq> [] then Some (2, [])
     else
       let trace = (if o_imem o' = [] \<and> o_trace o' = [] then ''traces/sample.trace'' else o_trace o') in
       do {
         cfg \<leftarrow> main_config o';
         cpu \<leftarrow> proc_init cfg (replicate MEMORY_WORDS 0) False;
         (case load_input fs o' trace cpu of Inl e \<Rightarrow> Some (1, [])
          | Inr cpu1 \<Rightarrow>
              let start = (if o_quiet o' then [] else banner o' trace cfg);
                  cpu2 = cpu1\<lparr>p_self_check := o_self_check o'\<rparr> in
              if o_pipeline_trace o' \<noteq> [] \<and> fs (o_pipeline_trace o') = None then Some (1, start)
              else do {
                p \<leftarrow> proc_run cpu2;
                Some (if hit_cap p then 1 else 0, start @ reports o' p) }) })"

definition main :: "files \<Rightarrow> string list \<Rightarrow> outcome option" where
  "main fs args = (case parse_args args options0 of Inl r \<Rightarrow> Some r | Inr o' \<Rightarrow> simulate fs o')"

section \<open>The golden model's driver\<close>

record GoldenOptions =
  go_trace :: string
  go_dump :: bool
  go_quiet :: bool
  go_max_steps :: u64
  go_initial_pc :: u64

definition golden_options0 :: GoldenOptions where
  "golden_options0 = \<lparr>go_trace = [], go_dump = False, go_quiet = False, go_max_steps = 200000000, go_initial_pc = 0x1000\<rparr>"

text \<open>\<open>None\<close> is the exception of a bad number, which nothing catches.\<close>

fun golden_args :: "string list \<Rightarrow> GoldenOptions \<Rightarrow> (int + GoldenOptions) option" where
  "golden_args [] o' = Some (Inr o')"
| "golden_args (a # rest) o' =
    (if a = ''--dump'' then golden_args rest (o'\<lparr>go_dump := True\<rparr>)
     else if a = ''--quiet'' then golden_args rest (o'\<lparr>go_quiet := True\<rparr>)
     else
       (case (a, rest) of
          (_, s # rest') \<Rightarrow>
            if a = ''--max-steps'' then
              (case stoull 10 s of Inl e \<Rightarrow> None | Inr n \<Rightarrow> golden_args rest' (o'\<lparr>go_max_steps := n\<rparr>))
            else if a = ''--initial-pc'' then
              (case stoull 0 s of Inl e \<Rightarrow> None | Inr n \<Rightarrow> golden_args rest' (o'\<lparr>go_initial_pc := n\<rparr>))
            else if take 1 a = ''-'' then Some (Inl 2)
            else golden_args rest (o'\<lparr>go_trace := a\<rparr>)
        | _ \<Rightarrow>
            if take 1 a = ''-'' then Some (Inl 2) else golden_args rest (o'\<lparr>go_trace := a\<rparr>)))"

definition golden_main :: "files \<Rightarrow> string list \<Rightarrow> outcome option" where
  "golden_main fs args = do {
     r \<leftarrow> golden_args args golden_options0;
     (case r of Inl code \<Rightarrow> Some (code, [])
      | Inr o' \<Rightarrow>
          (case loadTraceFile (fs (if go_trace o' = [] then ''traces/sample.trace'' else go_trace o')) of
             Inl e \<Rightarrow> Some (1, [])
           | Inr prog \<Rightarrow> do {
               (pc, steps, g) \<leftarrow> golden_run (go_initial_pc o') (unat (go_max_steps o')) (golden_load prog (golden_init 16));
               Some (0,
                 (if go_quiet o' then []
                  else [Text ''Golden model: retired '', num steps, Text '' instructions.'', endl])
                 @ (if go_dump o' then [Text (g_printArchState g)] else [])) })) }"

end
