(* ===== verification/Driver.thy ===== *)
theory Driver
  imports CommandLine FlowCore
begin

text \<open>The simulator from its command line to its printed registers.\<close>

lemma main_config_memory:
  assumes "main_config o' = Some cfg"
  shows "cfg_mem_system cfg = o_mem o'" "cfg_max_cycles cfg = word_of_int (o_max_cycles o')"
    "cfg_num_regs cfg = 32"
proof -
  have c: "cfg_mem_system (fold (set_count o') ks c) = cfg_mem_system c
      \<and> cfg_max_cycles (fold (set_count o') ks c) = cfg_max_cycles c \<and> cfg_num_regs (fold (set_count o') ks c) = cfg_num_regs c"
    if "set ks \<subseteq> set count_knobs" for ks c
    using that by (induction ks arbitrary: c) (auto simp: set_count_def count_knobs_def split: option.split)
  have i: "cfg_mem_system (fold (set_int o') ks c) = cfg_mem_system c
      \<and> cfg_max_cycles (fold (set_int o') ks c) = cfg_max_cycles c \<and> cfg_num_regs (fold (set_int o') ks c) = cfg_num_regs c"
    if "set ks \<subseteq> set int_knobs" for ks c
    using that by (induction ks arbitrary: c) (auto simp: set_int_def int_knobs_def split: option.split)
  have "cfg = (let c = fold (set_int o') int_knobs (fold (set_count o') count_knobs
                 (config0\<lparr>cfg_initial_pc := 0x1000, cfg_bp_mode := o_bp o', cfg_mem_system := o_mem o',
                    cfg_store_forwarding := o_forward o', cfg_max_cycles := word_of_int (o_max_cycles o')\<rparr>)) in
       if o_knobs o' ''--cdb'' = None then c\<lparr>cfg_cdb_width := cfg_width c\<rparr> else c)"
    using assms by (auto simp: main_config_def Let_def split: if_splits)
  then show "cfg_mem_system cfg = o_mem o'" "cfg_max_cycles cfg = word_of_int (o_max_cycles o')" "cfg_num_regs cfg = 32"
    using c [OF subset_refl] i [OF subset_refl] by (simp_all add: Let_def config0_def)
qed

lemma seq_steps_length: "seq_steps iw k (rs, pc) = Some (rs', pc') \<Longrightarrow> length rs' = length rs"
  by (induction k arbitrary: rs' pc') (auto simp: seq_step_def Let_def split: option.splits prod.splits if_splits)

lemma regs_dump: "length (p_arf p) = cfg_num_regs (p_config p) \<Longrightarrow> printRegsDump p = regs_text (p_arf p)"
  unfolding printRegsDump_def by (metis map_nth)

text \<open>
  C2: the simulator prints the registers of its program. Called with the options of the
  co-simulation harness (a hex image, the ideal memory, \<open>--dump-regs\<close> and \<open>--quiet\<close>) on a file
  that loads to an image without loads and stores, with sizes for which the constructor succeeds,
  the driver returns, prints exactly the dump of one register file and exits with 0 or 1; the
  registers are those of the in-order interpreter after some number of steps and, when the exit
  code is 0, those it has at the end of the program.
\<close>

theorem main_prints_registers:
  assumes "parse_args args options0 = Inr o'" "o_imem o' \<noteq> []" "o_trace o' = []" "o_dmem o' = []" "o_mem o' = Ideal"
    and "o_quiet o'" "o_want_dump_regs o'" "\<not> o_want_dump o'" "\<not> o_want_csv o'" "\<not> o_want_stats o'" "o_pipeline_trace o' = []"
    and "main_config o' = Some cfg" "valid_config cfg" "proc_init cfg (replicate MEMORY_WORDS 0) False = Some cpu"
    and "0 < o_max_cycles o'" "o_max_cycles o' < 2 ^ 31" "int (cfg_width cfg) * o_max_cycles o' < 2 ^ 32"
    and "loadHexWords (fs (o_imem o')) = Inr iw" "memory_free iw"
  shows "\<exists>code rs k pc. main fs args = Some (code, [Text (regs_text rs)]) \<and> (code = 0 \<or> code = 1)
    \<and> seq_steps iw k (replicate 32 0, 0) = Some (rs, pc) \<and> (code = 0 \<longrightarrow> img iw pc = None)"
proof -
  let ?p0 = "(loadHexProgram iw [] cpu)\<lparr>p_self_check := o_self_check o'\<rparr>"
  note mc = main_config_memory [OF assms(12)]
  have ideal: "cfg_mem_system cfg = Ideal" using mc(1) assms(5) by simp
  have cfg: "p_config cpu = cfg" by (rule proc_init_parts(1) [OF assms(13,14)])
  have l: "loaded True cfg ?p0" by (rule loaded.hex [OF assms(14)])
  have i: "pinv True (p_config ?p0) 0 ?p0" by (rule loaded_pinv [OF l assms(13)]) (rule ideal)
  have m: "unat (max_cycle_count ?p0) = nat (o_max_cycles o')"
  proof -
    have "max_cycle_count ?p0 = scast (word_of_int (o_max_cycles o') :: i32)"
      by (simp add: max_cycle_count_def loadHexProgram_def cfg mc(2))
    also have "sint (word_of_int (o_max_cycles o') :: i32) = o_max_cycles o'"
      using assms(15,16) by (simp add: signed_of_int signed_take_bit_int_eq_self)
    then have "(scast (word_of_int (o_max_cycles o') :: i32) :: u64) = word_of_int (o_max_cycles o')"
      by (simp only: scast_eq)
    finally show ?thesis using assms(15,16) by (simp add: unsigned_of_int take_bit_int_eq_self)
  qed
  have b: "cfg_width cfg * unat (max_cycle_count ?p0) < 2 ^ 32"
  proof -
    have "int (cfg_width cfg * unat (max_cycle_count ?p0)) < 2 ^ 32" using assms(15,17) by (simp add: m)
    then have "int (cfg_width cfg * unat (max_cycle_count ?p0)) < int (2 ^ 32)" by simp
    then show ?thesis unfolding of_nat_less_iff .
  qed
  obtain p where p: "proc_run ?p0 = Some p" "isFinished p" "p_config p = p_config ?p0" "proc_reach ?p0 p"
    using run_returns [OF i _ refl proc_reach.start] pinvD(1) by (metis word_zero_le)
  note r = loaded_registers [OF assms(13) ideal assms(14,19) refl b p(4)]
  obtain k pc where k: "seq_steps iw k (replicate 32 0, 0) = Some (p_arf p, pc)" using r by blast
  have "length (p_arf p) = 32" using seq_steps_length [OF k] by simp
  moreover have "cfg_num_regs (p_config p) = 32" by (simp add: p(3) loadHexProgram_def)
  ultimately have d: "printRegsDump p = regs_text (p_arf p)" by (simp add: regs_dump)
  have li: "load_input fs o' (o_trace o') cpu = Inr (loadHexProgram iw [] cpu)"
    using assms(2,4,18) by (simp add: load_input_def)
  have main: "main fs args = Some (if hit_cap p then 1 else 0, [Text (regs_text (p_arf p))])"
    using assms(1-11) p(1) li by (simp add: main_def simulate_def reports_def d assms(12,14))
  show ?thesis
  proof (cases "hit_cap p")
    case True
    then show ?thesis using main k by auto
  next
    case False
    then have "p_cycle_count p < max_cycle_count p" by (simp add: hit_cap_def not_le)
    then obtain k' pc' where "seq_steps iw k' (replicate 32 0, 0) = Some (p_arf p, pc')" "img iw pc' = None"
      using r p(2) by blast
    then show ?thesis using main False by auto
  qed
qed

text \<open>The loop of \<open>FlowCore\<close> from its command line, with a two-wide machine of otherwise default size.\<close>

definition loop_args :: "string list" where
  "loop_args = [''--imem'', ''loop.hex'', ''--mem-system'', ''ideal'', ''--width'', ''2'', ''--max-cycles'', ''40'',
     ''--dump-regs'', ''--quiet'']"

definition loop_options :: Options where
  "loop_options = options0\<lparr>o_imem := ''loop.hex'', o_mem := Ideal, o_knobs := [''--width'' \<mapsto> 2], o_max_cycles := 40,
     o_want_dump_regs := True, o_quiet := True\<rparr>"

definition loop_files :: files where
  "loop_files = [''loop.hex'' \<mapsto> ''00200093'' @ [newline] @ ''FFF08093'' @ [newline] @ ''FE009EE3'' @ [newline]
     @ ''00700113'' @ [newline] @ ''022101B3'' @ [newline]]"

definition driver_config :: ProcessorConfig where
  "driver_config = config0\<lparr>cfg_initial_pc := 0x1000, cfg_mem_system := Ideal, cfg_max_cycles := 40, cfg_width := 2,
     cfg_cdb_width := 2\<rparr>"

lemma loop_parsed: "parse_args loop_args options0 = Inr loop_options"
  by (simp add: loop_args_def loop_options_def takes_value_def value_option_def flag_option_def mem_system_of_def
      is_knob_def count_knobs_def int_knobs_def from_chars_int_def digit_val_def from_digits_def options0_def)

lemma loop_configured: "main_config loop_options = Some driver_config"
  by (simp add: main_config_def loop_options_def driver_config_def negative_count_def set_count_def set_int_def
      count_knobs_def int_knobs_def options0_def config0_def)

lemma loop_loaded: "loadHexWords (loop_files ''loop.hex'') = Inr loop_program"
  by (simp add: loadHexWords_def loop_files_def hex_line_def trim_blanks_def is_blank_def stoull_def strto_scan_def
      strto_base_def digit_val_def from_digits_def is_space_def grow_def put_word_def loop_program_def)

lemma main_prints_registers_witness:
  "\<exists>code rs. main loop_files loop_args = Some (code, [Text (regs_text rs)])
     \<and> (code = 0 \<longrightarrow> rs = [0, 0, 7, 49] @ replicate 28 0) \<and> (code = 0 \<or> code = 1)"
proof -
  have v: "valid_config driver_config" by (simp add: valid_config_def driver_config_def config0_def)
  obtain cpu where cpu: "proc_init driver_config (replicate MEMORY_WORDS 0) False = Some cpu"
    by (simp add: proc_init_def driver_config_def config0_def dr_init_def arb_init_def)
  have mf: "memory_free loop_program" by code_simp
  have e: "(case seq_steps loop_program 7 (replicate 32 0, 0) of None \<Rightarrow> False
      | Some (rs, pc) \<Rightarrow> rs = [0, 0, 7, 49] @ replicate 28 0 \<and> img loop_program pc = None)" by code_simp
  obtain code rs k pc where m: "main loop_files loop_args = Some (code, [Text (regs_text rs)])" "code = 0 \<or> code = 1"
      "seq_steps loop_program k (replicate 32 0, 0) = Some (rs, pc)" "code = 0 \<longrightarrow> img loop_program pc = None"
    using main_prints_registers [of loop_args loop_options driver_config cpu loop_files loop_program] loop_parsed
      loop_configured v cpu loop_loaded mf
    by (auto simp: loop_options_def options0_def driver_config_def config0_def)
  then show ?thesis using e seq_end_unique [of loop_program 7 "(replicate 32 0, 0)"] by (auto split: option.splits)
qed

end
