(* ===== verification/LoadLanes.thy ===== *)
theory LoadLanes
  imports Driver
begin

text \<open>
  A run that two load lanes corrupt. The load lanes of \<open>collectProducersFixed\<close> are refilled by
  age in every cycle, while the arbiter keeps a beat in the lane that presented it: when the older
  of two loads completes, the younger one moves from lane 1 to lane 0 and is latched a second
  time. On a bus of one slot the second copy is broadcast after the load has retired and its tag
  belongs to another instruction.
\<close>

definition lane_config :: ProcessorConfig where
  "lane_config = config0\<lparr>cfg_mem_system := Ideal, cfg_width := 4, cfg_rob_size := 5, cfg_rs_size := 3, cfg_lsq_size := 2,
     cfg_ifq_size := 4, cfg_cdb_width := 1, cfg_ras_size := 1, cfg_pht_size := 2, cfg_btb_size := 2, cfg_num_alu := 1,
     cfg_num_lsq := 2, cfg_mem_latency := 1, cfg_initial_pc := 0x1000, cfg_max_cycles := 100\<rparr>"

definition lane_instr :: "u64 \<Rightarrow> string \<Rightarrow> int \<Rightarrow> int \<Rightarrow> int \<Rightarrow> i32 \<Rightarrow> FetchedInstruction" where
  "lane_instr pc op d s1 s2 imm = fetched0\<lparr>f_pc := pc, f_opcode := op, f_dest_reg := d, f_src1_reg := s1,
     f_src2_reg := s2, f_imm := imm\<rparr>"

text \<open>Two loads, then a chain of \<open>ADDI\<close> and \<open>MUL\<close> that wraps the five tags of the reorder buffer.\<close>

definition lane_program :: ParsedProgram where
  "lane_program = \<lparr>pp_icache = [
     0x1000 \<mapsto> lane_instr 0x1000 ''LOAD'' 6 0 0 0,
     0x1004 \<mapsto> lane_instr 0x1004 ''LOAD'' 3 0 0 6,
     0x1008 \<mapsto> lane_instr 0x1008 ''ADDI'' 7 5 0 1,
     0x100C \<mapsto> lane_instr 0x100C ''MUL'' 7 0 1 0,
     0x1010 \<mapsto> lane_instr 0x1010 ''ADDI'' 3 7 0 8,
     0x1014 \<mapsto> lane_instr 0x1014 ''MUL'' 7 0 0 0,
     0x1018 \<mapsto> lane_instr 0x1018 ''MUL'' 5 5 0 0],
     pp_mem_init = [(0, 11), (6, 77)]\<rparr>"

definition lane_machine :: "Processor option" where
  "lane_machine = map_option (loadInstructionCache lane_program) (proc_init lane_config (replicate 8 0) False)"

definition lane_golden :: GoldenModel where
  "lane_golden = golden_load lane_program \<lparr>g_num_regs = 32, g_arf = replicate 32 0,
     g_mem = replicate 8 0, g_icache = Map.empty, g_ras = [], g_hit_limit = False\<rparr>"

definition pending_beats :: "Processor \<Rightarrow> (nat \<times> tag option \<times> i32) list" where
  "pending_beats p = map (\<lambda>i. (i, cp_rob_id (arb_pending (p_cdb_arbiter p) ! i), cp_value (arb_pending (p_cdb_arbiter p) ! i)))
     (filter (\<lambda>i. arb_pending_valid (p_cdb_arbiter p) ! i) [0..<arb_num_producers (p_cdb_arbiter p)])"

lemma lane_golden_run:
  "map_option (\<lambda>(pc, n, g). (pc, n, g_hit_limit g, g_arf g)) (golden_run 0x1000 20 lane_golden)
   = Some (0x101C, 7, False, [0, 0, 0, 8, 0, 0, 11] @ replicate 25 0)"
  by code_simp

text \<open>After six cycles the beat of the load with tag 1 is pending on both load lanes.\<close>

lemma load_beat_pending_twice:
  "map_option pending_beats (Option.bind lane_machine (cycles 6)) = Some [(1, Some 3, 0), (4, Some 1, 77), (5, Some 1, 77)]"
  by code_simp

text \<open>Two cycles later the load has retired and its stale beat is still pending.\<close>

lemma load_beat_stale:
  "map_option (\<lambda>p. (st_committed (p_stats p), pending_beats p)) (Option.bind lane_machine (cycles 8)) = Some (3, [(4, Some 1, 77)])"
  by code_simp

text \<open>
  The run finishes with the value 77 of that load in register 5, where the golden model has 0.
\<close>

lemma two_load_lanes_corrupt:
  "map_option (\<lambda>p. (isFinished p, p_cycle_count p < max_cycle_count p, p_arf p)) (Option.bind lane_machine (cycles 13))
     = Some (True, True, [0, 0, 0, 8, 0, 77, 11] @ replicate 25 0)"
  by code_simp

end
