(* ===== verification/BranchUnit.thy ===== *)
theory BranchUnit
  imports Decode_Spec Execute
begin

text \<open>
  The branch unit against the instruction set: what the encoding of a control instruction makes
  \<open>branchTaken\<close>, \<open>branchTarget\<close> and \<open>executeOp\<close> decide, once the decoder has put its scrambled
  offset together, compared with integer arithmetic modulo \<open>2 ^ 32\<close> after the manual.
\<close>

section \<open>The reference\<close>

text \<open>The comparisons, over the integers the operands stand for.\<close>

definition rv_cond :: "Op \<Rightarrow> i32 \<Rightarrow> i32 \<Rightarrow> bool" where
  "rv_cond op a b = (let (x, y) = (if op \<in> {BR_LTU, BR_GEU} then (uint a, uint b) else (sint a, sint b)) in
     if op = BR_EQ then x = y else if op = BR_NE then x \<noteq> y else if op \<in> {BR_LT, BR_LTU} then x < y else \<not> x < y)"

text \<open>
  For a control instruction at \<open>pc\<close> with the register operands \<open>a\<close> and \<open>b\<close>: whether it is taken,
  its target, and the value it produces - the direction of a branch, the link of a jump.
\<close>

fun rv_control :: "rv_instr \<Rightarrow> u32 \<Rightarrow> i32 \<Rightarrow> i32 \<Rightarrow> (bool \<times> int \<times> int) option" where
  "rv_control (RvBranch op off _ _) pc a b =
     Some (rv_cond op a b, (uint pc + sint off) mod 2 ^ 32, of_bool (rv_cond op a b))"
| "rv_control (RvJal off _) pc a b = Some (True, (uint pc + sint off) mod 2 ^ 32, (uint pc + 4) mod 2 ^ 32)"
| "rv_control (RvJalr imm _ _) pc a b =
     Some (True, 2 * ((uint a + sint imm) mod 2 ^ 32 div 2), (uint pc + 4) mod 2 ^ 32)"
| "rv_control _ pc a b = None"

section \<open>The unit\<close>

lemma uint_plus_scast:
  fixes off :: "'a::len word"
  shows "uint (x + scast off :: u32) = (uint x + sint off) mod 2 ^ 32"
proof -
  have "uint (scast off :: u32) = sint off mod 2 ^ 32" unfolding scast_eq uint_word_of_int by simp
  moreover have "uint (x + scast off :: u32) = (uint x + uint (scast off :: u32)) mod 2 ^ 32"
    using uint_word_ariths(1) [of x "scast off"] by simp
  ultimately show ?thesis by (simp only: mod_add_right_eq)
qed

lemma uint_clear_low: "uint (x AND NOT 1 :: u32) = 2 * (uint x div 2)"
proof (rule bit_eqI)
  fix n
  have b: "bit (uint (x AND NOT 1)) n \<longleftrightarrow> n < 32 \<and> bit x n \<and> n \<noteq> 0"
    by (simp only: bit_uint_iff bit_and_iff bit_not_iff bit_1_iff) auto
  show "bit (uint (x AND NOT 1)) n = bit (2 * (uint x div 2)) n"
  proof (cases n)
    case 0
    then show ?thesis unfolding b by (simp add: bit_0)
  next
    case (Suc m)
    then have "bit (2 * (uint x div 2)) n = bit (uint x) n" by (simp add: bit_double_iff bit_Suc)
    with Suc show ?thesis unfolding b by (simp add: bit_uint_iff)
  qed
qed

lemma cond_taken:
  "op \<in> {BR_EQ, BR_NE, BR_LT, BR_GE, BR_LTU, BR_GEU} \<Longrightarrow> branchTaken op a b = rv_cond op a b"
  by (auto simp: rv_cond_def word_eq_iff_signed [symmetric])

lemma cond_value:
  "op \<in> {BR_EQ, BR_NE, BR_LT, BR_GE, BR_LTU, BR_GEU} \<Longrightarrow> executeOp op a b imm pc = of_bool (branchTaken op a b)"
  by auto



end
