(* ===== verification/DramTraffic.thy ===== *)
theory DramTraffic
  imports DramSimple MemoryAccess
begin

text \<open>
  Any traffic on the line memory: operations in any order, any number of requests outstanding.
  A run records every accepted request and every answer, and the memory is described byte by
  byte, without the definitions of \<open>DramSimple\<close>.

  A finished write is stored again by every \<open>tick\<close> until its response is taken (the loop of
  \<open>DramSimple::tick\<close> does not remember that it has stored the line), so a run notes whether
  a \<open>tick\<close> ever found a response waiting; \<open>CachedMemorySystem::tick\<close> takes one response after
  each \<open>tick\<close>, and one is all that can be waiting.
\<close>

section \<open>Runs\<close>

record DramReq =
  rr_time :: nat
  rr_write :: bool
  rr_addr :: u32
  rr_id :: int
  rr_data :: "u8 list"

text \<open>The byte address of the first word of a line and the bytes a read returns.\<close>

definition line_start :: "u32 \<Rightarrow> nat" where
  "line_start a = 4 * (unat a div 4)"

definition ref_byte :: "u8 \<Rightarrow> u32 list \<Rightarrow> nat \<Rightarrow> u8" where
  "ref_byte dflt mem n = (if n < 4 * length mem then mem_byte mem n else dflt)"

definition ref_line :: "nat \<Rightarrow> u32 list option \<Rightarrow> i32 list \<Rightarrow> u32 \<Rightarrow> bool \<Rightarrow> u8 list" where
  "ref_line lb im mem a from_imem =
    map (\<lambda>j. case im of
        Some ws \<Rightarrow> if from_imem then ref_byte 0xFF ws (line_start a + j) else ref_byte 0 mem (line_start a + j)
      | None \<Rightarrow> ref_byte 0 mem (line_start a + j)) [0..<lb]"

text \<open>The bytes of memory after a write.\<close>

definition ref_write :: "nat \<Rightarrow> DramReq \<Rightarrow> (nat \<Rightarrow> u8) \<Rightarrow> nat \<Rightarrow> u8" where
  "ref_write lb q f n =
    (if line_start (rr_addr q) \<le> n \<and> n < line_start (rr_addr q) + lb
     then rr_data q ! (n - line_start (rr_addr q)) else f n)"

datatype DramOp =
    DoAccept bool u32 "u8 list" int bool
  | DoTick
  | DoPop

record DramRun =
  rn_dram :: DramSimple
  rn_mem :: "i32 list"
  rn_now :: nat
  rn_accepted :: "DramReq list"
  rn_answered :: "(nat \<times> int \<times> u8 list) list"
  rn_prompt :: bool

fun dram_step :: "DramOp \<Rightarrow> DramRun \<Rightarrow> DramRun option" where
  "dram_step (DoAccept wr a wd k f) r =
    (case dram_tryAccept wr a wd k f (rn_mem r) (rn_dram r) of
       None \<Rightarrow> None
     | Some (ok, d) \<Rightarrow> Some (r\<lparr>rn_dram := d,
         rn_accepted := rn_accepted r @ (if ok then [\<lparr>rr_time = rn_now r, rr_write = wr, rr_addr = a,
           rr_id = k, rr_data = (let lb = dr_line_bytes (rn_dram r) in if wr then take lb wd
             else ref_line lb (dr_imem (rn_dram r)) (rn_mem r) a f)\<rparr>] else [])\<rparr>))"
| "dram_step DoTick r =
    (case dram_tick (rn_dram r) (rn_mem r) of (d, m) \<Rightarrow> Some (r\<lparr>rn_dram := d, rn_mem := m,
       rn_now := Suc (rn_now r), rn_prompt := (rn_prompt r \<and> dram_tryPopResp (rn_dram r) = None)\<rparr>))"
| "dram_step DoPop r =
    (case dram_tryPopResp (rn_dram r) of
       None \<Rightarrow> Some r
     | Some (k, l, d) \<Rightarrow> Some (r\<lparr>rn_dram := d, rn_answered := rn_answered r @ [(rn_now r, k, l)]\<rparr>))"

primrec dram_run :: "DramOp list \<Rightarrow> DramRun \<Rightarrow> DramRun option" where
  "dram_run [] r = Some r"
| "dram_run (x # xs) r = (case dram_step x r of None \<Rightarrow> None | Some r' \<Rightarrow> dram_run xs r')"

definition run_start :: "DramSimple \<Rightarrow> i32 list \<Rightarrow> DramRun" where
  "run_start d mem = \<lparr>rn_dram = d, rn_mem = mem, rn_now = 0, rn_accepted = [], rn_answered = [],
     rn_prompt = True\<rparr>"

text \<open>A write brings a whole line, as the assertion of \<open>tryAccept\<close> demands.\<close>

fun op_ok :: "nat \<Rightarrow> DramOp \<Rightarrow> bool" where
  "op_ok lb (DoAccept wr a wd k f) = (wr \<longrightarrow> lb \<le> length wd)"
| "op_ok lb _ = True"

section \<open>Invariant\<close>

text \<open>The slot of a request that was accepted at \<open>rr_time q\<close>, at the time \<open>now\<close>.\<close>

definition slot_of :: "nat \<Rightarrow> nat \<Rightarrow> DramReq \<Rightarrow> DramSlot" where
  "slot_of L now q = \<lparr>ds_valid = True, ds_write = rr_write q, ds_line_addr = rr_addr q,
     ds_dram_id = rr_id q, ds_cycles_left = rr_time q + L - now, ds_data = rr_data q\<rparr>"

definition due :: "nat \<Rightarrow> nat \<Rightarrow> DramReq \<Rightarrow> bool" where
  "due L now q \<longleftrightarrow> rr_time q + L \<le> now"

definition dram_rel :: "nat \<Rightarrow> nat \<Rightarrow> nat \<Rightarrow> u32 list option \<Rightarrow> DramSimple \<Rightarrow> nat \<Rightarrow> DramReq multiset \<Rightarrow> bool" where
  "dram_rel lb L N im d now opn \<longleftrightarrow>
     dr_imem d = im \<and> dr_line_bytes d = lb \<and> dr_latency d = L \<and> length (dr_slots d) = N
     \<and> live_ids ds_valid (\<lambda>s. s) (dr_slots d) = image_mset (slot_of L now) opn"

definition log_ok :: "nat \<Rightarrow> nat \<Rightarrow> DramRun \<Rightarrow> (DramReq \<times> nat) list \<Rightarrow> DramReq multiset \<Rightarrow> bool" where
  "log_ok lb L r don opn \<longleftrightarrow>
     mset (rn_accepted r) = mset (map fst don) + opn
     \<and> rn_answered r = map (\<lambda>(q, t). (t, rr_id q, rr_data q)) don
     \<and> (\<forall>(q, t) \<in> set don. due L t q \<and> t \<le> rn_now r)
     \<and> sorted_wrt (<) (map rr_time (rn_accepted r))
     \<and> (\<forall>q \<in> set (rn_accepted r). rr_time q \<le> rn_now r \<and> length (rr_data q) = lb)
     \<and> (dr_accepted (rn_dram r) \<longleftrightarrow> rn_now r \<in> rr_time ` set (rn_accepted r))"

definition mem_rel :: "nat \<Rightarrow> nat \<Rightarrow> i32 list \<Rightarrow> DramRun \<Rightarrow> bool" where
  "mem_rel lb L mem0 r \<longleftrightarrow> length (rn_mem r) = length mem0
     \<and> (rn_prompt r \<longrightarrow> (\<forall>n < 4 * length mem0. mem_byte (rn_mem r) n =
          fold (ref_write lb) (filter (\<lambda>q. rr_write q \<and> due L (rn_now r) q) (rn_accepted r)) (mem_byte mem0) n))"

section \<open>Lines as bytes\<close>

lemma line_base_start: "4 * line_base a = line_start a" "line_base a = unat a div 4"
  by (simp_all add: line_start_def line_base_def drop_bit_eq_div unat_div)

lemma byte_line_word: "b < 4 \<Longrightarrow> byte_of (line_word l k) b = l ! (k + b)"
  by (simp only: line_word_def byte_le_word) (rule nth_4_offsets)

lemma mem_byte_word: "n < 4 * length mem \<Longrightarrow> mem_byte mem n = byte_of (mem_word mem (n div 4)) (n mod 4)"
  by (simp add: mem_byte_def mem_word_def less_mult_imp_div_less)

lemma mem_byte_commit:
  assumes "n < 4 * length mem" "4 dvd lb"
  shows "mem_byte (dram_commit lb s mem) n =
    (if line_start (ds_line_addr s) \<le> n \<and> n < line_start (ds_line_addr s) + lb
     then ds_data s ! (n - line_start (ds_line_addr s)) else mem_byte mem n)"
proof -
  let ?b = "line_base (ds_line_addr s)" and ?i = "n div 4"
  have n: "?i < length mem" "n = 4 * ?i + n mod 4" "n mod 4 < 4" using assms(1) by (auto simp: less_mult_imp_div_less)
  have r: "line_start (ds_line_addr s) \<le> n \<and> n < line_start (ds_line_addr s) + lb \<longleftrightarrow> ?b \<le> ?i \<and> ?i < ?b + lb div 4"
  proof -
    obtain k where k: "lb = 4 * k" "lb div 4 = k" using assms(2) by auto
    show ?thesis unfolding k(2) unfolding k(1) line_base_start(1) [symmetric] using n(2,3) by linarith
  qed
  have d: "4 * (?i - ?b) + n mod 4 = n - line_start (ds_line_addr s)" if "?b \<le> ?i"
    using that n(2) unfolding line_base_start(1) [symmetric] by linarith
  have "mem_byte (dram_commit lb s mem) n = byte_of (mem_word (dram_commit lb s mem) ?i) (n mod 4)"
    using assms(1) by (simp add: mem_byte_word)
  then show ?thesis
    unfolding r mem_word_commit using n assms(1) d by (simp add: byte_line_word mem_byte_word)
qed

lemma nth_line_words:
  assumes "4 dvd lb" "j < lb"
  shows "line_of_words f lb ! j = byte_of (f (j div 4)) (j mod 4)"
proof -
  obtain k where "lb = 4 * k" "lb div 4 = k" using assms(1) by auto
  then have "j div 4 < lb div 4" using assms(2) by (simp add: less_mult_imp_div_less)
  then have "line_of_words f lb ! (4 * (j div 4) + j mod 4) = byte_of (f (j div 4)) (j mod 4)"
    by (intro nth_line_of_words) auto
  then show ?thesis by simp
qed

lemma byte_of_ones:
  assumes "b < 4"
  shows "byte_of 0xFFFFFFFF b = 0xFF"
proof -
  have "byte_of (- 1) b = - 1"
    using assms by (intro bit_word_eqI) (simp add: bit_byte_of)
  moreover have "(- 1 :: u32) = 0xFFFFFFFF" "(- 1 :: u8) = 0xFF" by simp_all
  ultimately show ?thesis by metis
qed

lemma byte_of_zero [simp]: "byte_of 0 b = 0"
  by (simp add: byte_of_def)

lemma line_as_bytes:
  assumes "4 dvd lb"
  shows "mem_line lb mem a = map (\<lambda>j. ref_byte 0 mem (line_start a + j)) [0..<lb]"
    and "imem_line lb mem a = map (\<lambda>j. ref_byte 0xFF mem (line_start a + j)) [0..<lb]"
proof -
  have q: "(line_start a + j) div 4 = line_base a + j div 4" "(line_start a + j) mod 4 = j mod 4"
    "line_start a + j < 4 * length mem \<longleftrightarrow> line_base a + j div 4 < length mem" for j
    unfolding line_base_start(1) [symmetric] by simp_all presburger
  show "mem_line lb mem a = map (\<lambda>j. ref_byte 0 mem (line_start a + j)) [0..<lb]"
    using assms by (intro nth_equalityI) (simp_all add: mem_line_def nth_line_words ref_byte_def mem_byte_def q mem_word_def)
  show "imem_line lb mem a = map (\<lambda>j. ref_byte 0xFF mem (line_start a + j)) [0..<lb]"
    using assms by (intro nth_equalityI)
      (simp_all add: imem_line_def nth_line_words ref_byte_def mem_byte_def q imem_word_def byte_of_ones)
qed

lemma dram_read_bytes:
  "4 dvd dr_line_bytes d \<Longrightarrow>
   dram_read_line d mem a f = ref_line (dr_line_bytes d) (dr_imem d) mem a f"
  by (simp add: dram_read_line_def ref_line_def line_as_bytes split: option.splits)

section \<open>One step\<close>

lemma slot_of_sel [simp]:
  "ds_valid (slot_of L now q)" "ds_write (slot_of L now q) = rr_write q"
  "ds_line_addr (slot_of L now q) = rr_addr q" "ds_dram_id (slot_of L now q) = rr_id q"
  "ds_cycles_left (slot_of L now q) = rr_time q + L - now" "ds_data (slot_of L now q) = rr_data q"
  by (simp_all add: slot_of_def)

lemma slot_done_of [simp]: "slot_done (slot_of L now q) \<longleftrightarrow> due L now q"
  by (simp add: slot_done_def due_def)

lemma slot_of_next: "slot_countdown (slot_of L now q) = slot_of L (Suc now) q"
  by (simp add: slot_countdown_def slot_of_def)

lemma live_in_slots:
  "live_ids ds_valid (\<lambda>s. s) ss = image_mset g opn \<Longrightarrow> s \<in> set ss \<Longrightarrow> ds_valid s \<Longrightarrow> \<exists>q \<in># opn. s = g q"
  "live_ids ds_valid (\<lambda>s. s) ss = image_mset g opn \<Longrightarrow> q \<in># opn \<Longrightarrow> g q \<in> set ss"
proof -
  assume l: "live_ids ds_valid (\<lambda>s. s) ss = image_mset g opn"
  show "\<exists>q \<in># opn. s = g q" if "s \<in> set ss" "ds_valid s"
  proof -
    have "s \<in># live_ids ds_valid (\<lambda>s. s) ss" using that by (simp add: in_live_ids)
    then show ?thesis unfolding l by auto
  qed
  show "g q \<in> set ss" if "q \<in># opn"
  proof -
    have "g q \<in># live_ids ds_valid (\<lambda>s. s) ss" unfolding l using that by simp
    then show ?thesis by (simp add: in_live_ids)
  qed
qed

lemma pop_none_iff:
  assumes "dram_rel lb L N im d now opn"
  shows "dram_tryPopResp d = None \<longleftrightarrow> (\<forall>q \<in># opn. \<not> due L now q)"
proof -
  have l: "live_ids ds_valid (\<lambda>s. s) (dr_slots d) = image_mset (slot_of L now) opn"
    using assms by (simp add: dram_rel_def)
  have "(\<forall>s \<in> set (dr_slots d). \<not> slot_done s) \<longleftrightarrow> (\<forall>q \<in># opn. \<not> due L now q)"
    using live_in_slots [OF l] slot_done_of by (metis slot_done_def)
  then have "first_idx slot_done (dr_slots d) = None \<longleftrightarrow> (\<forall>q \<in># opn. \<not> due L now q)"
    by (simp only: first_idx_None)
  then show ?thesis by (cases "first_idx slot_done (dr_slots d)") (simp_all add: dram_tryPopResp_def)
qed

lemma pop_rel:
  assumes r: "dram_rel lb L N im d now opn" and p: "dram_tryPopResp d = Some (k, l, d')"
  shows "\<exists>q. q \<in># opn \<and> due L now q \<and> k = rr_id q \<and> l = rr_data q
    \<and> dram_rel lb L N im d' now (opn - {#q#}) \<and> dr_accepted d' = dr_accepted d"
proof -
  from p obtain i where i: "first_idx slot_done (dr_slots d) = Some i"
    and d': "k = ds_dram_id (dr_slots d ! i)" "l = ds_data (dr_slots d ! i)"
      "d' = d\<lparr>dr_slots := (dr_slots d)[i := ds0]\<rparr>"
    by (auto simp: dram_tryPopResp_def split: option.splits)
  have n: "i < length (dr_slots d)" "slot_done (dr_slots d ! i)" using first_idx_SomeD [OF i] by auto
  have v: "ds_valid (dr_slots d ! i)" using n by (simp add: slot_done_def)
  have l: "live_ids ds_valid (\<lambda>s. s) (dr_slots d) = image_mset (slot_of L now) opn"
    using r by (simp add: dram_rel_def)
  obtain q where q: "q \<in># opn" "dr_slots d ! i = slot_of L now q"
    using live_in_slots(1) [OF l nth_mem [OF n(1)] v] by blast
  have "live_ids ds_valid (\<lambda>s. s) ((dr_slots d)[i := ds0]) = image_mset (slot_of L now) opn - {#slot_of L now q#}"
    using n(1) v by (simp add: live_ids_update l q(2) ds0_def)
  also have "\<dots> = image_mset (slot_of L now) (opn - {#q#})"
    using q(1) by (simp add: image_mset_Diff)
  finally have "dram_rel lb L N im d' now (opn - {#q#})"
    using r by (simp add: dram_rel_def d')
  then show ?thesis using q n d' by auto
qed

lemma accept_rel:
  assumes r: "dram_rel lb L N im d now opn" and lb: "4 dvd lb" and w: "wr \<longrightarrow> lb \<le> length wd"
    and ok: "ok \<longleftrightarrow> size opn < N \<and> \<not> dr_accepted d"
    and q: "q = \<lparr>rr_time = now, rr_write = wr, rr_addr = a, rr_id = k,
      rr_data = (if wr then take lb wd else ref_line lb im mem a f)\<rparr>"
  shows "\<exists>d'. dram_tryAccept wr a wd k f mem d = Some (ok, d')
    \<and> dram_rel lb L N im d' now (if ok then add_mset q opn else opn) \<and> dr_accepted d' = (dr_accepted d \<or> ok)"
proof -
  have l: "live_ids ds_valid (\<lambda>s. s) (dr_slots d) = image_mset (slot_of L now) opn"
    and d: "dr_imem d = im" "dr_line_bytes d = lb" "dr_latency d = L" "length (dr_slots d) = N"
    using r by (simp_all add: dram_rel_def)
  have free: "(\<exists>s \<in> set (dr_slots d). \<not> ds_valid s) \<longleftrightarrow> size opn < N"
    using has_free_slot_iff [where v = ds_valid and k = "\<lambda>s. s" and xs = "dr_slots d"] l d(4) by simp
  show ?thesis
  proof (cases ok)
    case False
    then have "dr_accepted d \<or> first_idx (\<lambda>s. \<not> ds_valid s) (dr_slots d) = None"
      unfolding first_idx_None using ok free by auto
    then have "dram_tryAccept wr a wd k f mem d = Some (False, d)"
      by (auto simp: dram_tryAccept_def)
    then show ?thesis using False r by auto
  next
    case True
    then obtain i where i: "first_idx (\<lambda>s. \<not> ds_valid s) (dr_slots d) = Some i"
      using ok free first_idx_ex by metis
    let ?d = "d\<lparr>dr_slots := (dr_slots d)[i := slot_of L now q], dr_accepted := True\<rparr>"
    have s: "slot_of L now q = \<lparr>ds_valid = True, ds_write = wr, ds_line_addr = a, ds_dram_id = k,
        ds_cycles_left = dr_latency d, ds_data = (if wr then take (dr_line_bytes d) wd else dram_read_line d mem a f)\<rparr>"
      using lb d by (simp add: q slot_of_def dram_read_bytes)
    have "dram_tryAccept wr a wd k f mem d = Some (True, ?d)"
      using True ok w i unfolding s d by (auto simp: dram_tryAccept_def d)
    moreover have "dram_rel lb L N im ?d now (add_mset q opn)"
      using first_idx_SomeD [OF i] d l by (simp add: dram_rel_def live_ids_update_invalid)
    ultimately show ?thesis using True by auto
  qed
qed

lemma live_ids_map_image:
  "(\<And>x. v (g x) = v x) \<Longrightarrow> live_ids v (\<lambda>s. s) (map g xs) = image_mset g (live_ids v (\<lambda>s. s) xs)"
  by (induction xs) (simp_all add: live_ids_def)

lemma tick_rel:
  assumes "dram_rel lb L N im d now opn"
  shows "dram_rel lb L N im (fst (dram_tick d mem)) (Suc now) opn \<and> \<not> dr_accepted (fst (dram_tick d mem))"
  using assms by (simp add: dram_rel_def dram_tick_eq live_ids_map_image slot_countdown_simps
      multiset.map_comp comp_def slot_of_next)

text \<open>The lines a tick stores: the writes that are due.\<close>

lemma tick_mem:
  assumes r: "dram_rel lb L N im d now opn"
  shows "\<exists>ws. snd (dram_tick d mem) = fold (dram_commit lb) ws mem
    \<and> mset ws = image_mset (slot_of L (Suc now)) (filter_mset (\<lambda>q. rr_write q \<and> due L (Suc now) q) opn)"
proof -
  let ?ss = "map slot_countdown (dr_slots d)"
  have "live_ids ds_valid (\<lambda>s. s) ?ss = image_mset (slot_of L (Suc now)) opn"
    using tick_rel [OF r, of "[]"] by (simp add: dram_rel_def dram_tick_eq)
  then have l: "filter_mset ds_valid (mset ?ss) = image_mset (slot_of L (Suc now)) opn"
    by (simp add: live_ids_def)
  have "mset (filter slot_write_due ?ss) = filter_mset slot_write_due (filter_mset ds_valid (mset ?ss))"
    by (simp add: filter_filter_mset slot_write_due_def conj_commute conj_left_commute cong: conj_cong)
  also have "\<dots> = image_mset (slot_of L (Suc now)) (filter_mset (\<lambda>q. rr_write q \<and> due L (Suc now) q) opn)"
    unfolding l filter_mset_image_mset by (simp add: slot_write_due_def due_def conj_commute cong: conj_cong)
  finally have m: "mset (filter slot_write_due ?ss) = \<dots>" .
  have fl: "fold (\<lambda>s m. if slot_write_due s then dram_commit lb s m else m) ss mm
      = fold (dram_commit lb) (filter slot_write_due ss) mm" for ss mm
    by (induction ss arbitrary: mm) auto
  have "dr_line_bytes d = lb" using r by (simp add: dram_rel_def)
  then have "snd (dram_tick d mem) = fold (dram_commit lb) (filter slot_write_due ?ss) mem"
    unfolding dram_tick_eq snd_conv by (simp only: fl)
  with m show ?thesis by blast
qed

lemma length_commits: "length (fold (dram_commit lb) ws mem) = length mem"
  by (induction ws arbitrary: mem) simp_all

text \<open>Accepted at different times, at most one request becomes due at a tick.\<close>

lemma due_next:
  "sorted_wrt (<) (map rr_time qs) \<Longrightarrow>
   filter (\<lambda>q. rr_write q \<and> due L (Suc now) q) qs =
     filter (\<lambda>q. rr_write q \<and> due L now q) qs @ filter (\<lambda>q. rr_write q \<and> rr_time q + L = Suc now) qs
   \<and> length (filter (\<lambda>q. rr_time q + L = c) qs) \<le> 1"
proof (induction qs)
  case (Cons q qs)
  have later: "rr_time q < rr_time p" if "p \<in> set qs" for p using Cons.prems that by simp
  have e: "filter (\<lambda>p. rr_write p \<and> due L now p) qs = []" if "Suc now \<le> rr_time q + L"
    using later that by (fastforce simp: filter_empty_conv due_def)
  have "filter (\<lambda>p. rr_time p + L = c) qs = []" if "rr_time q + L = c"
    using later that by (fastforce simp: filter_empty_conv)
  then show ?case
    using Cons e by (auto simp: due_def le_Suc_eq)
qed simp

lemma mset_map_single: "mset ws = image_mset g (mset es) \<Longrightarrow> length es \<le> 1 \<Longrightarrow> ws = map g es"
  by (cases es) auto

lemma bytes_commit:
  assumes "length es \<le> 1" "4 dvd lb" "n < 4 * length mem"
  shows "mem_byte (fold (dram_commit lb) (map (slot_of L t) es) mem) n = fold (ref_write lb) es (mem_byte mem) n"
  using assms by (cases es) (simp_all add: mem_byte_commit ref_write_def)

lemma ref_writes_at: "f n = g n \<Longrightarrow> fold (ref_write lb) qs f n = fold (ref_write lb) qs g n"
proof (induction qs arbitrary: f g)
  case (Cons q qs)
  have "ref_write lb q f n = ref_write lb q g n" using Cons.prems by (simp add: ref_write_def)
  then show ?case by (simp only: fold.simps comp_apply) (rule Cons.IH)
qed simp

definition traffic ::
    "nat \<Rightarrow> nat \<Rightarrow> nat \<Rightarrow> u32 list option \<Rightarrow> i32 list \<Rightarrow> DramRun \<Rightarrow> (DramReq \<times> nat) list \<Rightarrow> DramReq multiset \<Rightarrow> bool" where
  "traffic lb L N im mem0 r don opn \<longleftrightarrow>
     dram_rel lb L N im (rn_dram r) (rn_now r) opn \<and> log_ok lb L r don opn \<and> mem_rel lb L mem0 r"

lemma accept_step:
  assumes t: "traffic lb L N im mem0 r don opn" and ok: "op_ok lb (DoAccept wr a wd k f)"
    and lb: "4 dvd lb" "0 < L"
  shows "\<exists>r' opn'. dram_step (DoAccept wr a wd k f) r = Some r' \<and> traffic lb L N im mem0 r' don opn'"
proof -
  let ?d = "rn_dram r" and ?now = "rn_now r"
  define ac where "ac \<longleftrightarrow> size opn < N \<and> \<not> dr_accepted ?d"
  define q where "q = \<lparr>rr_time = ?now, rr_write = wr, rr_addr = a, rr_id = k,
      rr_data = (if wr then take lb wd else ref_line lb im (rn_mem r) a f)\<rparr>"
  have d: "dram_rel lb L N im ?d ?now opn" and lg: "log_ok lb L r don opn" and m: "mem_rel lb L mem0 r"
    using t by (simp_all add: traffic_def)
  have w: "wr \<longrightarrow> lb \<le> length wd" using ok by simp
  obtain d' where d': "dram_tryAccept wr a wd k f (rn_mem r) ?d = Some (ac, d')"
      "dram_rel lb L N im d' ?now (if ac then add_mset q opn else opn)" "dr_accepted d' = (dr_accepted ?d \<or> ac)"
    using accept_rel [OF d lb(1) w ac_def q_def] by blast
  have lbs: "dr_line_bytes ?d = lb" "dr_imem ?d = im" using d by (simp_all add: dram_rel_def)
  let ?r = "r\<lparr>rn_dram := d', rn_accepted := rn_accepted r @ (if ac then [q] else [])\<rparr>"
  have s: "dram_step (DoAccept wr a wd k f) r = Some ?r" by (simp add: d'(1) lbs q_def)
  have new: "rr_time q = ?now" "length (rr_data q) = lb" "\<not> due L ?now q"
    using w lb(2) by (auto simp: q_def ref_line_def due_def)
  have before: "rr_time p < ?now" if "p \<in> set (rn_accepted r)" "ac" for p
  proof -
    have "rr_time p \<le> ?now" "?now \<notin> rr_time ` set (rn_accepted r)"
      using lg that by (auto simp: log_ok_def ac_def)
    then show ?thesis using that(1) by (metis image_eqI le_neq_implies_less)
  qed
  have "log_ok lb L ?r don (if ac then add_mset q opn else opn)"
    using lg new before d'(3) by (auto simp: log_ok_def sorted_wrt_append)
  moreover have "mem_rel lb L mem0 ?r" using m new by (simp add: mem_rel_def)
  ultimately show ?thesis using s d'(2) by (auto simp: traffic_def)
qed

lemma pop_step:
  assumes t: "traffic lb L N im mem0 r don opn"
  shows "\<exists>r' don' opn'. dram_step DoPop r = Some r' \<and> traffic lb L N im mem0 r' don' opn'"
proof (cases "dram_tryPopResp (rn_dram r)")
  case None
  then show ?thesis using t by auto
next
  case (Some x)
  obtain k l d' where x: "x = (k, l, d')" by (cases x)
  have d: "dram_rel lb L N im (rn_dram r) (rn_now r) opn" and lg: "log_ok lb L r don opn"
    and m: "mem_rel lb L mem0 r"
    using t by (simp_all add: traffic_def)
  obtain q where q: "q \<in># opn" "due L (rn_now r) q" "k = rr_id q" "l = rr_data q"
      "dram_rel lb L N im d' (rn_now r) (opn - {#q#})" "dr_accepted d' = dr_accepted (rn_dram r)"
    using pop_rel [OF d Some [unfolded x]] by blast
  let ?r = "r\<lparr>rn_dram := d', rn_answered := rn_answered r @ [(rn_now r, k, l)]\<rparr>"
  have "log_ok lb L ?r (don @ [(q, rn_now r)]) (opn - {#q#})"
    using lg q by (auto simp: log_ok_def)
  moreover have "mem_rel lb L mem0 ?r" using m by (simp add: mem_rel_def)
  ultimately have "traffic lb L N im mem0 ?r (don @ [(q, rn_now r)]) (opn - {#q#})"
    using q(5) by (simp add: traffic_def)
  then show ?thesis using Some x by auto
qed

text \<open>The bytes after a tick that found no response waiting.\<close>

lemma tick_bytes:
  assumes d: "dram_rel lb L N im d now opn" and none: "dram_tryPopResp d = None"
    and acc: "mset acc = mset (map fst don) + opn" "sorted_wrt (<) (map rr_time acc)"
    and don: "\<forall>(q, t) \<in> set don. due L t q \<and> t \<le> now" and lb: "4 dvd lb" "n < 4 * length mem"
    and mem: "mem_byte mem n = fold (ref_write lb) (filter (\<lambda>q. rr_write q \<and> due L now q) acc) f n"
  shows "mem_byte (snd (dram_tick d mem)) n
    = fold (ref_write lb) (filter (\<lambda>q. rr_write q \<and> due L (Suc now) q) acc) f n"
proof -
  let ?W = "\<lambda>q. rr_write q \<and> rr_time q + L = Suc now" and ?D = "\<lambda>t q. rr_write q \<and> due L t q"
  let ?es = "filter ?W acc"
  note nx = due_next [OF acc(2), of L now]
  have "?es = filter rr_write (filter (\<lambda>q. rr_time q + L = Suc now) acc)" by (simp add: conj_commute)
  then have es1: "length ?es \<le> 1"
    using nx [of "Suc now", THEN conjunct2] length_filter_le le_trans by metis
  have "\<not> ?W q" if "q \<in># mset (map fst don)" for q
    using that don by (auto simp: due_def)
  then have "filter_mset ?W (mset (map fst don)) = filter_mset (\<lambda>q. False) (mset (map fst don))"
    by (intro filter_mset_cong) auto
  moreover have "filter_mset ?W opn = filter_mset (?D (Suc now)) opn"
    using none unfolding pop_none_iff [OF d] by (intro filter_mset_cong) (auto simp: due_def le_Suc_eq)
  ultimately have es: "mset ?es = filter_mset (?D (Suc now)) opn" by (simp add: acc(1))
  obtain ws where ws: "snd (dram_tick d mem) = fold (dram_commit lb) ws mem"
      "mset ws = image_mset (slot_of L (Suc now)) (mset ?es)"
    using tick_mem [OF d, of mem] es by auto
  have w: "ws = map (slot_of L (Suc now)) ?es" using mset_map_single [OF ws(2) es1] .
  have "mem_byte (snd (dram_tick d mem)) n = fold (ref_write lb) ?es (mem_byte mem) n"
    unfolding ws(1) w by (rule bytes_commit [OF es1 lb])
  also have "\<dots> = fold (ref_write lb) ?es (fold (ref_write lb) (filter (?D now) acc) f) n"
    by (intro ref_writes_at) (rule mem)
  finally show ?thesis using nx by simp
qed

lemma tick_step:
  assumes t: "traffic lb L N im mem0 r don opn" and lb: "4 dvd lb"
  shows "\<exists>r'. dram_step DoTick r = Some r' \<and> traffic lb L N im mem0 r' don opn"
proof -
  let ?d = "rn_dram r" and ?now = "rn_now r"
  have d: "dram_rel lb L N im ?d ?now opn" and lg: "log_ok lb L r don opn" and m: "mem_rel lb L mem0 r"
    using t by (simp_all add: traffic_def)
  obtain d' m' where dm: "dram_tick ?d (rn_mem r) = (d', m')" by (cases "dram_tick ?d (rn_mem r)")
  have d': "dram_rel lb L N im d' (Suc ?now) opn" "\<not> dr_accepted d'"
    using tick_rel [OF d, of "rn_mem r"] by (simp_all add: dm)
  let ?r = "r\<lparr>rn_dram := d', rn_mem := m', rn_now := Suc ?now, rn_prompt := (rn_prompt r \<and> dram_tryPopResp ?d = None)\<rparr>"
  have lg': "log_ok lb L ?r don opn"
    using lg d'(2) by (fastforce simp: log_ok_def)
  have len: "length m' = length (rn_mem r)" using tick_mem [OF d, of "rn_mem r"] by (auto simp: dm length_commits)
  have "mem_byte m' n = fold (ref_write lb) (filter (\<lambda>q. rr_write q \<and> due L (Suc ?now) q) (rn_accepted r)) (mem_byte mem0) n"
    if "rn_prompt r" "dram_tryPopResp ?d = None" "n < 4 * length mem0" for n
    using tick_bytes [OF d that(2), of "rn_accepted r" don n "rn_mem r" "mem_byte mem0"] lg m lb that
    by (simp add: log_ok_def mem_rel_def dm)
  then have "mem_rel lb L mem0 ?r" using m len by (simp add: mem_rel_def)
  then show ?thesis using d' lg' by (simp add: traffic_def dm)
qed

lemma dram_run_traffic:
  "traffic lb L N im mem0 r don opn \<Longrightarrow> list_all (op_ok lb) ops \<Longrightarrow> 4 dvd lb \<Longrightarrow> 0 < L \<Longrightarrow>
   \<exists>r' don' opn'. dram_run ops r = Some r' \<and> traffic lb L N im mem0 r' don' opn'"
proof (induction ops arbitrary: r don opn)
  case (Cons x ops)
  have "\<exists>r' don' opn'. dram_step x r = Some r' \<and> traffic lb L N im mem0 r' don' opn'"
  proof (cases x)
    case (DoAccept wr a wd k f)
    then show ?thesis using accept_step [OF Cons.prems(1), of wr a wd k f] Cons.prems by auto
  qed (use tick_step [OF Cons.prems(1,3)] pop_step [OF Cons.prems(1)] in blast)+
  then obtain r' don' opn' where s: "dram_step x r = Some r'" "traffic lb L N im mem0 r' don' opn'" by blast
  then show ?case using Cons.IH [OF s(2)] Cons.prems by simp
qed auto

section \<open>Cycles that take a response after each tick\<close>

text \<open>The order of \<open>CachedMemorySystem::tick\<close>: one tick, at most one response, then requests.\<close>

definition cycle_ops :: "(bool \<times> u32 \<times> u8 list \<times> int \<times> bool) list \<Rightarrow> DramOp list" where
  "cycle_ops rqs = DoTick # DoPop # map (\<lambda>(wr, a, wd, k, f). DoAccept wr a wd k f) rqs"

lemma accept_pop_none:
  "dram_tryPopResp d = None \<Longrightarrow> 0 < dr_latency d \<Longrightarrow> dram_tryAccept wr a wd k f mem d = Some (ok, d') \<Longrightarrow>
   dram_tryPopResp d' = None \<and> dr_latency d' = dr_latency d"
proof -
  have pop: "dram_tryPopResp x = None \<longleftrightarrow> (\<forall>s \<in> set (dr_slots x). \<not> slot_done s)" for x
    unfolding first_idx_None [symmetric]
    by (cases "first_idx slot_done (dr_slots x)") (simp_all add: dram_tryPopResp_def)
  assume "dram_tryPopResp d = None" "0 < dr_latency d" "dram_tryAccept wr a wd k f mem d = Some (ok, d')"
  then show ?thesis
    unfolding pop by (auto simp: dram_tryAccept_def slot_done_def split: option.splits if_splits
        dest!: subsetD [OF set_update_subset_insert])
qed

lemma accepts_prompt:
  "traffic lb L N im mem0 r don opn \<Longrightarrow> list_all (op_ok lb) (map (\<lambda>(wr, a, wd, k, f). DoAccept wr a wd k f) rqs) \<Longrightarrow>
   4 dvd lb \<Longrightarrow> 0 < L \<Longrightarrow> dram_tryPopResp (rn_dram r) = None \<Longrightarrow>
   \<exists>r' don' opn'. dram_run (map (\<lambda>(wr, a, wd, k, f). DoAccept wr a wd k f) rqs) r = Some r'
     \<and> traffic lb L N im mem0 r' don' opn' \<and> dram_tryPopResp (rn_dram r') = None \<and> rn_prompt r' = rn_prompt r"
proof (induction rqs arbitrary: r don opn)
  case (Cons x rqs)
  obtain wr a wd k f where x: "x = (wr, a, wd, k, f)" by (cases x)
  have "op_ok lb (DoAccept wr a wd k f)" using Cons.prems(2) by (simp add: x)
  then obtain r' opn' where r': "dram_step (DoAccept wr a wd k f) r = Some r'" "traffic lb L N im mem0 r' don opn'"
    using accept_step [OF Cons.prems(1) _ Cons.prems(3,4)] by blast
  have "dr_latency (rn_dram r) = L" using Cons.prems(1) by (simp add: traffic_def dram_rel_def)
  then have "dram_tryPopResp (rn_dram r') = None \<and> rn_prompt r' = rn_prompt r"
    using r'(1) accept_pop_none [OF Cons.prems(5)] Cons.prems(4) by (auto split: option.splits prod.splits)
  then show ?case using Cons.IH [OF r'(2)] Cons.prems r'(1) by (simp add: x)
qed auto

lemma tick_pop_prompt:
  assumes t: "traffic lb L N im mem0 r don opn" and lb: "4 dvd lb" and n: "dram_tryPopResp (rn_dram r) = None"
  shows "\<exists>r' don' opn'. dram_run [DoTick, DoPop] r = Some r' \<and> traffic lb L N im mem0 r' don' opn'
    \<and> dram_tryPopResp (rn_dram r') = None \<and> rn_prompt r' = rn_prompt r"
proof -
  obtain r1 where r1: "dram_step DoTick r = Some r1" "traffic lb L N im mem0 r1 don opn"
    using tick_step [OF t lb] by blast
  have now: "rn_now r1 = Suc (rn_now r)" "rn_prompt r1 = rn_prompt r"
    using r1(1) n by (auto split: prod.splits)
  have d: "dram_rel lb L N im (rn_dram r) (rn_now r) opn" and d1: "dram_rel lb L N im (rn_dram r1) (rn_now r1) opn"
    and lg: "log_ok lb L r1 don opn"
    using t r1(2) by (simp_all add: traffic_def)
  show ?thesis
  proof (cases "dram_tryPopResp (rn_dram r1)")
    case None
    then show ?thesis using r1 now by auto
  next
    case (Some x)
    obtain k l d' where x: "x = (k, l, d')" by (cases x)
    obtain q where q: "q \<in># opn" "due L (rn_now r1) q" "dram_rel lb L N im d' (rn_now r1) (opn - {#q#})"
      using pop_rel [OF d1 Some [unfolded x]] by blast
    obtain r2 don' opn' where r2: "dram_step DoPop r1 = Some r2" "traffic lb L N im mem0 r2 don' opn'"
      using pop_step [OF r1(2)] by blast
    have r2': "rn_dram r2 = d'" "rn_prompt r2 = rn_prompt r1" "rn_now r2 = rn_now r1" using r2(1) Some x by auto
    have time: "rr_time p + L = Suc (rn_now r)" if "p \<in># opn" "due L (rn_now r1) p" for p
      using n that unfolding pop_none_iff [OF d] by (auto simp: due_def now le_Suc_eq)
    have "\<not> due L (rn_now r1) p" if p: "p \<in># opn - {#q#}" for p
    proof
      assume a: "due L (rn_now r1) p"
      let ?T = "\<lambda>q. rr_time q + L = Suc (rn_now r)"
      have "p \<in># opn" using p by (rule in_diffD)
      obtain opn0 where o: "opn = add_mset q (add_mset p opn0)"
        using q(1) p by (metis insert_DiffM)
      have "?T q" "?T p" using time q(1,2) a \<open>p \<in># opn\<close> by auto
      then have "2 \<le> size (filter_mset ?T (mset (rn_accepted r1)))" using lg by (simp add: log_ok_def o)
      moreover have "length (filter ?T (rn_accepted r1)) \<le> 1"
        using lg due_next [of "rn_accepted r1"] by (simp add: log_ok_def)
      moreover have "size (filter_mset ?T (mset (rn_accepted r1))) = length (filter ?T (rn_accepted r1))"
        by (metis mset_filter size_mset)
      ultimately show False by simp
    qed
    then have "dram_tryPopResp (rn_dram r2) = None" unfolding r2' pop_none_iff [OF q(3)] by blast
    then show ?thesis using r1(1) r2 r2' now by auto
  qed
qed

lemma dram_run_append:
  "dram_run (xs @ ys) r = (case dram_run xs r of None \<Rightarrow> None | Some r' \<Rightarrow> dram_run ys r')"
  by (induction xs arbitrary: r) (auto split: option.splits)

text \<open>In such cycles no tick finds a response waiting, so the memory is as \<open>dram_traffic\<close> says.\<close>

lemma dram_cycles_prompt:
  "traffic lb L N im mem0 r don opn \<Longrightarrow> list_all (op_ok lb) (concat (map cycle_ops css)) \<Longrightarrow>
   4 dvd lb \<Longrightarrow> 0 < L \<Longrightarrow> dram_tryPopResp (rn_dram r) = None \<Longrightarrow>
   \<exists>r' don' opn'. dram_run (concat (map cycle_ops css)) r = Some r' \<and> traffic lb L N im mem0 r' don' opn'
     \<and> rn_prompt r' = rn_prompt r"
proof (induction css arbitrary: r don opn)
  case (Cons c css)
  let ?as = "map (\<lambda>(wr, a, wd, k, f). DoAccept wr a wd k f) c"
  have split: "dram_run (concat (map cycle_ops (c # css))) r = (case dram_run [DoTick, DoPop] r of None \<Rightarrow> None
      | Some r1 \<Rightarrow> (case dram_run ?as r1 of None \<Rightarrow> None | Some r2 \<Rightarrow> dram_run (concat (map cycle_ops css)) r2))"
    by (simp add: cycle_ops_def [of c] dram_run_append split: option.splits)
  obtain r1 don1 opn1 where r1: "dram_run [DoTick, DoPop] r = Some r1" "traffic lb L N im mem0 r1 don1 opn1"
      "dram_tryPopResp (rn_dram r1) = None" "rn_prompt r1 = rn_prompt r"
    using tick_pop_prompt [OF Cons.prems(1,3,5)] by blast
  have as: "list_all (op_ok lb) ?as" "list_all (op_ok lb) (concat (map cycle_ops css))"
    using Cons.prems(2) by (simp_all add: cycle_ops_def [of c])
  obtain r2 don2 opn2 where r2: "dram_run ?as r1 = Some r2" "traffic lb L N im mem0 r2 don2 opn2"
      "dram_tryPopResp (rn_dram r2) = None" "rn_prompt r2 = rn_prompt r1"
    using accepts_prompt [OF r1(2) as(1) Cons.prems(3,4) r1(3)] by blast
  show ?case
    using Cons.IH [OF r2(2) as(2) Cons.prems(3,4) r2(3)] unfolding split r1(1) option.case r2(1) r1(4) r2(4) .
qed auto

section \<open>Any traffic\<close>

text \<open>
  C40: whatever the order of the operations and however many requests are outstanding, the memory
  loses, repeats and invents no request. A request is accepted exactly when a slot is free and no
  other was accepted in the cycle; every accepted request is either still outstanding or was answered
  once, at least \<open>latency\<close> ticks after it was accepted, with its identifier and, for a read, the
  bytes its line held when it was accepted (zero beyond the end of memory, ones beyond the
  instruction image); a response is offered exactly when some outstanding request is that old. While
  no \<open>tick\<close> finds a response waiting, the bytes of memory are the initial ones with the writes
  that are \<open>latency\<close> ticks old stored in the order of acceptance; that is so in cycles of one tick,
  at most one response and any requests, the order of \<open>CachedMemorySystem::tick\<close>.
\<close>

theorem dram_traffic:
  fixes mem0 :: "i32 list" and outstanding latency :: int
  assumes init: "dram_init lb outstanding latency = Some d" and lb: "4 dvd lb"
    and ops: "list_all (op_ok lb) ops"
  defines "L \<equiv> nat (max 1 latency)" and "N \<equiv> nat (max 1 outstanding)"
  shows "\<exists>r don opn. dram_run ops (run_start (dram_setInstrMem im d) mem0) = Some r
    \<and> mset (rn_accepted r) = mset (map fst don) + opn
    \<and> rn_answered r = map (\<lambda>(q, t). (t, rr_id q, rr_data q)) don
    \<and> (\<forall>(q, t) \<in> set don. rr_time q + L \<le> t \<and> t \<le> rn_now r)
    \<and> (dram_tryPopResp (rn_dram r) = None \<longleftrightarrow> (\<forall>q \<in># opn. rn_now r < rr_time q + L))
    \<and> (\<forall>wr a wd k f. op_ok lb (DoAccept wr a wd k f) \<longrightarrow>
          map_option fst (dram_tryAccept wr a wd k f (rn_mem r) (rn_dram r))
            = Some (size opn < N \<and> rn_now r \<notin> rr_time ` set (rn_accepted r)))
    \<and> sorted_wrt (<) (map rr_time (rn_accepted r)) \<and> size opn \<le> N
    \<and> length (rn_mem r) = length mem0
    \<and> (rn_prompt r \<longrightarrow> (\<forall>n < 4 * length mem0. mem_byte (rn_mem r) n =
          fold (ref_write lb) (filter (\<lambda>q. rr_write q \<and> rr_time q + L \<le> rn_now r) (rn_accepted r)) (mem_byte mem0) n))
    \<and> (\<forall>css. ops = concat (map cycle_ops css) \<longrightarrow> rn_prompt r)"
proof -
  let ?r0 = "run_start (dram_setInstrMem im d) mem0"
  have L: "0 < L" by (simp add: L_def)
  have d: "d = \<lparr>dr_imem = None, dr_line_bytes = lb, dr_latency = L, dr_slots = replicate N ds0, dr_accepted = False\<rparr>"
    using init by (auto simp: dram_init_def L_def N_def max_def split: if_splits)
  have t0: "traffic lb L N im mem0 ?r0 [] {#}"
    by (simp add: d traffic_def dram_rel_def log_ok_def mem_rel_def run_start_def dram_setInstrMem_def
        live_ids_def ds0_def due_def)
  obtain r don opn where r: "dram_run ops ?r0 = Some r" "traffic lb L N im mem0 r don opn"
    using dram_run_traffic [OF t0 ops lb L] by blast
  have dr: "dram_rel lb L N im (rn_dram r) (rn_now r) opn" and lg: "log_ok lb L r don opn"
    and m: "mem_rel lb L mem0 r"
    using r(2) by (simp_all add: traffic_def)
  have "rn_prompt r" if c: "ops = concat (map cycle_ops css)" for css
  proof -
    have "dram_tryPopResp (rn_dram ?r0) = None"
      using t0 pop_none_iff [of lb L N im "rn_dram ?r0" 0 "{#}"] by (simp add: traffic_def run_start_def)
    with dram_cycles_prompt [OF t0 ops [unfolded c] lb L] r(1) show ?thesis
      by (auto simp: c run_start_def)
  qed
  moreover have sz: "size opn \<le> N"
    using dr size_live_ids_le [of ds_valid "\<lambda>s. s" "dr_slots (rn_dram r)"] by (simp add: dram_rel_def)
  moreover have ac: "map_option fst (dram_tryAccept wr a wd k f (rn_mem r) (rn_dram r))
      = Some (size opn < N \<and> rn_now r \<notin> rr_time ` set (rn_accepted r))"
    if "op_ok lb (DoAccept wr a wd k f)" for wr a wd k f
  proof -
    have w: "wr \<longrightarrow> lb \<le> length wd" using that by simp
    show ?thesis
      using accept_rel [OF dr lb w refl refl, of a k f "rn_mem r"] lg by (auto simp: log_ok_def)
  qed
  ultimately show ?thesis
    using r(1) lg m pop_none_iff [OF dr]
    by (intro exI [of _ r] exI [of _ don] exI [of _ opn]) (simp add: log_ok_def mem_rel_def due_def not_le)
qed

text \<open>Two writes to the same line and a read of it, overlapping, with two slots and a latency of three.\<close>

lemma dram_traffic_witness:
  "\<exists>d r don opn. dram_init 8 2 3 = Some d
    \<and> dram_run [DoAccept True 8 [1, 2, 3, 4, 5, 6, 7, 8] 9 False, DoTick,
        DoAccept True 8 [8, 7, 6, 5, 4, 3, 2, 1] 4 False, DoTick, DoTick, DoPop, DoTick, DoPop,
        DoAccept False 12 [] 5 False, DoTick] (run_start (dram_setInstrMem None d) [0, 0, 0, 0]) = Some r
    \<and> mset (rn_accepted r) = mset (map fst don) + opn \<and> size opn \<le> 2
    \<and> rn_answered r = map (\<lambda>(q, t). (t, rr_id q, rr_data q)) don"
proof -
  let ?ops = "[DoAccept True 8 [1, 2, 3, 4, 5, 6, 7, 8] 9 False, DoTick,
        DoAccept True 8 [8, 7, 6, 5, 4, 3, 2, 1] 4 False, DoTick, DoTick, DoPop, DoTick, DoPop,
        DoAccept False 12 [] 5 False, DoTick]"
  obtain d where d: "dram_init 8 2 3 = Some d" by (simp add: dram_init_def)
  have ok: "list_all (op_ok 8) ?ops" "4 dvd (8 :: nat)" by simp_all
  have "size opn \<le> 2" if "size opn \<le> nat (max 1 2)" for opn :: "DramReq multiset"
    using that by simp
  with dram_traffic [OF d ok(2,1), of None "[0, 0, 0, 0]"] d show ?thesis by blast
qed

text \<open>The same run evaluated: both writes are answered and stored, the read is outstanding.\<close>

lemma dram_traffic_example:
  "map_option (\<lambda>r. (rn_answered r, rn_mem r, rn_prompt r, rn_now r, length (rn_accepted r)))
     (dram_run [DoAccept True 8 [1, 2, 3, 4, 5, 6, 7, 8] 9 False, DoTick,
        DoAccept True 8 [8, 7, 6, 5, 4, 3, 2, 1] 4 False, DoTick, DoTick, DoPop, DoTick, DoPop,
        DoAccept False 12 [] 5 False, DoTick] (run_start (the (dram_init 8 2 3)) [0, 0, 0, 0]))
   = Some ([(3, 9, [1, 2, 3, 4, 5, 6, 7, 8]), (4, 4, [8, 7, 6, 5, 4, 3, 2, 1])],
       [0, 0, 0x05060708, 0x01020304], True, 5, 3)"
  by code_simp

end
